(* ===== verification/Ledger_Prelude.thy ===== *)
theory Ledger_Prelude
  imports Main "HOL-Library.Word"
begin

text \<open>
  Shared vocabulary of the development: machine-integer and byte types, Go slices and
  \<^verbatim>\<open>copy\<close>, the big-endian accessors of \<^verbatim>\<open>encoding/binary\<close>, sequencing of fallible
  computations, and the generic lemmas on lists, sums and words that the component
  theories use. The collections \<open>go_simps\<close> and \<open>layout_simps\<close> gather the rewrite rules
  that component proofs pass to the simplifier.
\<close>

unbundle bit_operations_syntax

named_theorems go_simps
named_theorems layout_simps

type_synonym byte = "8 word"
type_synonym u16 = "16 word"
type_synonym u32 = "32 word"
type_synonym u64 = "64 word"
type_synonym bytes = "byte list"

text \<open>
  A fixed-size Go array \<^verbatim>\<open>[n]byte\<close> is a byte list of length \<open>n\<close>; identifiers are
  \<^verbatim>\<open>[16]byte\<close>, idempotency keys \<^verbatim>\<open>[32]byte\<close>. \<^verbatim>\<open>int64\<close> is a 64-bit word read with
  \<open>sint\<close>.
\<close>

type_synonym ident = bytes
type_synonym i64 = "64 word"

abbreviation zeros :: "nat \<Rightarrow> bytes" where
  "zeros n \<equiv> replicate n 0"

subsection \<open>Fallible computations\<close>

definition bindE :: "'e + 'a \<Rightarrow> ('a \<Rightarrow> 'e + 'b) \<Rightarrow> 'e + 'b" where
  "bindE r f = (case r of Inl e \<Rightarrow> Inl e | Inr x \<Rightarrow> f x)"

definition mapErr :: "('e \<Rightarrow> 'f) \<Rightarrow> 'e + 'a \<Rightarrow> 'f + 'a" where
  "mapErr f r = (case r of Inl e \<Rightarrow> Inl (f e) | Inr x \<Rightarrow> Inr x)"

definition isOk :: "'e + 'a \<Rightarrow> bool" where
  "isOk r = (case r of Inl _ \<Rightarrow> False | Inr _ \<Rightarrow> True)"

lemma bindE_simps [simp]: "bindE (Inl e) f = Inl e" "bindE (Inr x) f = f x"
  by (simp_all add: bindE_def)

lemma mapErr_simps [simp]: "mapErr g (Inl e) = Inl (g e)" "mapErr g (Inr x) = Inr x"
  by (simp_all add: mapErr_def)

lemma isOk_simps [simp]: "\<not> isOk (Inl e)" "isOk (Inr x)"
  by (simp_all add: isOk_def)

lemma bindE_Inr_iff: "bindE r f = Inr y \<longleftrightarrow> (\<exists>x. r = Inr x \<and> f x = Inr y)"
  by (cases r) auto

lemma mapErr_Inr_iff [simp]: "mapErr g r = Inr y \<longleftrightarrow> r = Inr y"
  by (cases r) auto

lemma isOk_iff: "isOk r \<longleftrightarrow> (\<exists>x. r = Inr x)"
  by (cases r) auto

subsection \<open>Slices\<close>

text \<open>\<open>slice a b xs\<close> is Go's \<^verbatim>\<open>xs[a:b]\<close>; \<open>copy_at off src dst\<close> is
  \<^verbatim>\<open>copy(dst[off:off+len(src)], src)\<close>.\<close>

definition slice :: "nat \<Rightarrow> nat \<Rightarrow> 'a list \<Rightarrow> 'a list" where
  "slice a b xs = take (b - a) (drop a xs)"

definition copy_at :: "nat \<Rightarrow> 'a list \<Rightarrow> 'a list \<Rightarrow> 'a list" where
  "copy_at off src dst = take off dst @ src @ drop (off + length src) dst"

lemma length_slice [simp]: "length (slice a b xs) = min (b - a) (length xs - a)"
  by (simp add: slice_def)

lemma length_copy_at [simp]:
  "off + length src \<le> length dst \<Longrightarrow> length (copy_at off src dst) = length dst"
  by (simp add: copy_at_def)

lemma copy_at_zeros [layout_simps]:
  "\<lbrakk> off = length pre; length src \<le> n \<rbrakk> \<Longrightarrow>
     copy_at off src (pre @ zeros n) = (pre @ src) @ zeros (n - length src)"
  by (simp add: copy_at_def)

lemma copy_at_skip2 [layout_simps]:
  "\<lbrakk> off = length pre + 2; 2 + length src \<le> n \<rbrakk> \<Longrightarrow>
     copy_at off src (pre @ zeros n) = ((pre @ zeros 2) @ src) @ zeros (n - 2 - length src)"
  by (simp add: copy_at_def take_replicate min_def)

lemma slice_append_exact [layout_simps]:
  "\<lbrakk> a = length pre; b = a + length mid \<rbrakk> \<Longrightarrow> slice a b (pre @ mid @ post) = mid"
  by (simp add: slice_def)

lemma slice_split: "a \<le> b \<Longrightarrow> b \<le> c \<Longrightarrow> slice a c xs = slice a b xs @ slice b c xs"
proof -
  assume ab: "a \<le> b" and bc: "b \<le> c"
  then have "c - a = (b - a) + (c - b)" by simp
  then have "take (c - a) (drop a xs) = take (b - a) (drop a xs) @ take (c - b) (drop (b - a) (drop a xs))"
    by (simp only: take_add)
  with ab show ?thesis by (simp add: slice_def)
qed

lemma slice_all: "n = length xs \<Longrightarrow> slice 0 n xs = xs"
  by (simp add: slice_def)

subsection \<open>Big-endian integers\<close>

text \<open>\<open>be_bytes n w\<close> models \<^verbatim>\<open>binary.BigEndian.PutUint64/32/16\<close> (for \<open>n\<close> = 8, 4, 2)
  and \<open>be_word\<close> the reads \<^verbatim>\<open>binary.BigEndian.Uint64/32/16\<close>.\<close>

fun be_bytes :: "nat \<Rightarrow> 'a::len word \<Rightarrow> bytes" where
  "be_bytes 0 w = []"
| "be_bytes (Suc n) w = ucast (drop_bit (8 * n) w) # be_bytes n w"

definition be_step :: "'a::len word \<Rightarrow> byte \<Rightarrow> 'a word" where
  "be_step acc b = push_bit 8 acc OR ucast b"

definition be_word :: "bytes \<Rightarrow> 'a::len word" where
  "be_word bs = foldl be_step 0 bs"

lemma length_be_bytes [simp]: "length (be_bytes n w) = n"
  by (induction n) auto

lemma be_bytes_numeral:
  "be_bytes (numeral k) w =
     ucast (drop_bit (8 * pred_numeral k) w) # be_bytes (pred_numeral k) w"
  by (simp add: numeral_eq_Suc)

lemma foldl_be_bytes:
  "foldl be_step acc (be_bytes n w) = push_bit (8 * n) acc OR take_bit (8 * n) w"
proof (induction n arbitrary: acc)
  case (Suc n)
  show ?case
    by (simp add: Suc) (rule bit_word_eqI, auto simp: be_step_def bit_simps add.commute)
qed simp

lemma be_word_be_bytes [simp]:
  "LENGTH('a::len) \<le> 8 * n \<Longrightarrow> be_word (be_bytes n (w :: 'a word)) = w"
  by (simp add: be_word_def foldl_be_bytes take_bit_word_eq_self)

lemma foldl_be_step:
  "foldl be_step (acc :: 'a::len word) bs = push_bit (8 * length bs) acc OR foldl be_step 0 bs"
proof (induction bs arbitrary: acc)
  case (Cons b bs)
  show ?case
    by (simp, subst (1 2) Cons, rule bit_word_eqI)
       (auto simp: be_step_def bit_simps add.commute)
qed simp

lemma be_word_Nil [simp]: "be_word [] = 0"
  by (simp add: be_word_def)

lemma be_word_Cons:
  "be_word (b # bs) = (push_bit (8 * length bs) (ucast b) OR be_word bs :: 'a::len word)"
  unfolding be_word_def by simp (subst foldl_be_step, simp add: be_step_def)

lemma bit_be_word_high: "8 * length bs \<le> k \<Longrightarrow> \<not> bit (be_word bs :: 'a::len word) k"
proof (induction bs)
  case (Cons b bs)
  then have "\<not> bit b (k - 8 * length bs)"
    by (intro notI) (drule bit_imp_le_length, simp)
  with Cons show ?case by (auto simp: be_word_Cons bit_simps)
qed simp

lemma be_bytes_cong:
  "(\<And>k. k < 8 * n \<Longrightarrow> bit v k = bit w k) \<Longrightarrow> be_bytes n v = be_bytes n w"
proof (induction n)
  case (Suc n)
  have "ucast (drop_bit (8 * n) v) = (ucast (drop_bit (8 * n) w) :: byte)"
    by (rule bit_word_eqI) (simp add: bit_simps Suc.prems)
  with Suc show ?case by simp
qed simp

lemma be_bytes_be_word:
  "length bs = n \<Longrightarrow> 8 * n \<le> LENGTH('a) \<Longrightarrow> be_bytes n (be_word bs :: 'a::len word) = bs"
proof (induction bs arbitrary: n)
  case (Cons b bs)
  then obtain m where n: "n = Suc m" and m: "length bs = m" by (cases n) auto
  let ?w = "be_word (b # bs) :: 'a word"
  have "be_bytes m ?w = be_bytes m (be_word bs :: 'a word)"
    by (rule be_bytes_cong) (auto simp: be_word_Cons bit_simps m)
  moreover have "(ucast (drop_bit (8 * m) ?w) :: byte) = b"
    by (rule bit_word_eqI)
       (use Cons.prems n m in \<open>auto simp: be_word_Cons bit_simps bit_be_word_high\<close>)
  ultimately show ?case using Cons n m by simp
qed simp

subsection \<open>Words read as natural numbers\<close>

lemma unat_u64_bound: "unat (w :: u64) < 18446744073709551616"
  using unsigned_less [of w, where 'a = nat] by simp

lemma unat_u64_add_mod:
  "unat (x + y :: u64) = (unat x + unat y) mod 18446744073709551616"
  by (simp add: unat_word_ariths)

lemma unat_u64_mult_mod:
  "unat (x * y :: u64) = (unat x * unat y) mod 18446744073709551616"
  by (simp add: unat_word_ariths)

subsection \<open>Sums over lists\<close>

lemma sum_list_update_int:
  "i < length xs \<Longrightarrow>
     sum_list (map f (xs[i := x])) = sum_list (map f xs) - f (xs ! i) + (f x :: int)"
proof (induction xs arbitrary: i)
  case (Cons y ys)
  then show ?case by (cases i) auto
qed simp

lemma sum_list_map_same:
  "\<lbrakk> i < length xs; f x = (f (xs ! i) :: int) \<rbrakk> \<Longrightarrow> sum_list (map f (xs[i := x])) = sum_list (map f xs)"
  by (simp add: sum_list_update_int)

end
