(* ===== verification/Uint128.thy ===== *)
theory Uint128
  imports Ledger_Prelude
begin

text \<open>
  The 128-bit money type of \<^verbatim>\<open>internal/core/uint128.go\<close>: two 64-bit words, the carry
  arithmetic of \<^verbatim>\<open>math/bits\<close> it is built from, comparison, decimal parsing and printing,
  and the 16-byte binary form. The locale \<open>checked_amount\<close> is the contract the ledger
  relies on: addition and subtraction are exact on the natural numbers below a bound and
  fail otherwise, and comparison is the numeric one.
\<close>

datatype uint128 = Uint128 (Lo: u64) (Hi: u64)

datatype uint128_error =
    ErrUint128Overflow
  | ErrUint128Underflow
  | ErrInvalidUint128Binary
  | ErrInvalidUint128String

abbreviation u128_zero :: uint128 where
  "u128_zero \<equiv> Uint128 0 0"

subsection \<open>The carry primitives of math/bits\<close>

definition Add64 :: "u64 \<Rightarrow> u64 \<Rightarrow> u64 \<Rightarrow> u64 \<times> u64" where
  "Add64 x y c = (x + y + c, if 2 ^ 64 \<le> uint x + uint y + uint c then 1 else 0)"

definition Sub64 :: "u64 \<Rightarrow> u64 \<Rightarrow> u64 \<Rightarrow> u64 \<times> u64" where
  "Sub64 x y b = (x - y - b, if uint x < uint y + uint b then 1 else 0)"

definition Mul64 :: "u64 \<Rightarrow> u64 \<Rightarrow> u64 \<times> u64" where
  "Mul64 x y = (word_of_int (uint x * uint y div 2 ^ 64), x * y)"

subsection \<open>Operations\<close>

definition Cmp :: "uint128 \<Rightarrow> uint128 \<Rightarrow> int" where
  "Cmp a b =
     (if Hi a < Hi b then - 1
      else if Hi a > Hi b then 1
      else if Lo a < Lo b then - 1
      else if Lo a > Lo b then 1
      else 0)"

definition Add :: "uint128 \<Rightarrow> uint128 \<Rightarrow> uint128_error + uint128" where
  "Add a b =
     (let (lo, carry) = Add64 (Lo a) (Lo b) 0;
          (hi, carryHi) = Add64 (Hi a) (Hi b) carry
      in if carryHi \<noteq> 0 then Inl ErrUint128Overflow else Inr (Uint128 lo hi))"

definition Sub :: "uint128 \<Rightarrow> uint128 \<Rightarrow> uint128_error + uint128" where
  "Sub a b =
     (if Cmp a b < 0 then Inl ErrUint128Underflow
      else
        let (lo, borrow) = Sub64 (Lo a) (Lo b) 0;
            (hi, borrowHi) = Sub64 (Hi a) (Hi b) borrow
        in if borrowHi \<noteq> 0 then Inl ErrUint128Underflow else Inr (Uint128 lo hi))"

definition IsZero :: "uint128 \<Rightarrow> bool" where
  "IsZero a \<longleftrightarrow> Hi a = 0 \<and> Lo a = 0"

definition FromUint64 :: "u64 \<Rightarrow> uint128" where
  "FromUint64 v = Uint128 v 0"

definition mul64 :: "uint128 \<Rightarrow> u64 \<Rightarrow> uint128_error + uint128" where
  "mul64 a m =
     (let (hiHi, hiLo) = Mul64 (Hi a) m;
          (loHi, loLo) = Mul64 (Lo a) m;
          (newHi, carry) = Add64 hiLo loHi 0
      in if hiHi \<noteq> 0 \<or> carry \<noteq> 0 then Inl ErrUint128Overflow else Inr (Uint128 loLo newHi))"

text \<open>The scanning loop of \<open>FromString\<close>; a Go string is its bytes.\<close>

fun FromString_loop :: "uint128 \<Rightarrow> string \<Rightarrow> uint128_error + uint128" where
  "FromString_loop acc [] = Inr acc"
| "FromString_loop acc (c # cs) =
     (if (of_char c :: int) < of_char (CHR ''0'') \<or> (of_char (CHR ''9'') :: int) < of_char c
      then Inl ErrInvalidUint128String
      else
        (case mul64 acc 10 of
           Inl e \<Rightarrow> Inl e
         | Inr mul \<Rightarrow>
             (case Add mul (FromUint64 (of_char c - of_char (CHR ''0''))) of
                Inl e \<Rightarrow> Inl e
              | Inr acc' \<Rightarrow> FromString_loop acc' cs)))"

definition FromString :: "string \<Rightarrow> uint128_error + uint128" where
  "FromString s = (if s = [] then Inl ErrInvalidUint128String else FromString_loop u128_zero s)"

text \<open>\<open>dec_string\<close> is the decimal rendering of \<^verbatim>\<open>big.Int.String\<close>: no sign, no leading
  zeros.\<close>

definition digit_char :: "nat \<Rightarrow> char" where
  "digit_char d = char_of (48 + d)"

fun dec_string :: "nat \<Rightarrow> string" where
  "dec_string n = (if n < 10 then [digit_char n] else dec_string (n div 10) @ [digit_char (n mod 10)])"

declare dec_string.simps [simp del]

definition String :: "uint128 \<Rightarrow> string" where
  "String a = (if IsZero a then ''0'' else dec_string (unat (Lo a) + 2 ^ 64 * unat (Hi a)))"

definition MarshalBinary :: "uint128 \<Rightarrow> bytes" where
  "MarshalBinary a = copy_at 8 (be_bytes 8 (Lo a)) (copy_at 0 (be_bytes 8 (Hi a)) (zeros 16))"

definition UnmarshalBinary :: "bytes \<Rightarrow> uint128_error + uint128" where
  "UnmarshalBinary b =
     (if length b \<noteq> 16 then Inl ErrInvalidUint128Binary
      else Inr (Uint128 (be_word (slice 8 16 b)) (be_word (slice 0 8 b))))"

subsection \<open>The numeric meaning\<close>

definition val :: "uint128 \<Rightarrow> nat" where
  "val a = unat (Lo a) + 2 ^ 64 * unat (Hi a)"

lemma val_bound: "val a < 2 ^ 128"
  using unat_u64_bound [of "Lo a"] unat_u64_bound [of "Hi a"] unfolding val_def by simp

lemma Lo_val: "unat (Lo a) = val a mod 18446744073709551616"
  and Hi_val: "unat (Hi a) = val a div 18446744073709551616"
  using unat_u64_bound [of "Lo a"] by (simp_all add: val_def)

lemma val_inject [simp]: "val a = val b \<longleftrightarrow> a = b"
  using Lo_val [of a] Lo_val [of b] Hi_val [of a] Hi_val [of b]
  by (metis uint128.expand unsigned_word_eqI)

lemma val_zero [simp]: "val u128_zero = 0"
  by (simp add: val_def)

lemma val_FromUint64 [simp]: "val (FromUint64 v) = unat v"
  by (simp add: val_def FromUint64_def)

lemma IsZero_iff: "IsZero a \<longleftrightarrow> val a = 0"
  by (auto simp: IsZero_def val_def unat_eq_0)

lemma val_eq_0_iff: "val a = 0 \<longleftrightarrow> a = u128_zero"
  by (metis val_inject val_zero)

subsection \<open>Exactness of the carry arithmetic\<close>

lemma Add64_exact:
  "\<lbrakk> Add64 x y c = (s, k); unat c \<le> 1 \<rbrakk> \<Longrightarrow>
     unat s + 18446744073709551616 * unat k = unat x + unat y + unat c \<and> unat k \<le> 1"
proof -
  assume a: "Add64 x y c = (s, k)" and c: "unat c \<le> 1"
  have s: "unat s = (unat x + unat y + unat c) mod 18446744073709551616"
    using a by (auto simp: Add64_def unat_u64_add_mod mod_simps)
  have k: "unat k = (if 18446744073709551616 \<le> unat x + unat y + unat c then 1 else 0)"
  proof -
    have "(18446744073709551616 :: int) \<le> uint x + uint y + uint c \<longleftrightarrow> 18446744073709551616 \<le> unat x + unat y + unat c"
      unfolding uint_nat by linarith
    with a show ?thesis by (auto simp: Add64_def)
  qed
  with s c unat_u64_bound [of x] unat_u64_bound [of y] show ?thesis
    by (cases "18446744073709551616 \<le> unat x + unat y + unat c")
       (simp_all add: le_mod_geq)
qed

lemma Sub64_exact:
  "\<lbrakk> Sub64 x y b = (d, k); unat b \<le> 1 \<rbrakk> \<Longrightarrow>
     unat d + unat y + unat b = unat x + 18446744073709551616 * unat k \<and> unat k \<le> 1"
proof -
  assume a: "Sub64 x y b = (d, k)" and b: "unat b \<le> 1"
  have k: "unat k = (if unat x < unat y + unat b then 1 else 0)"
  proof -
    have "uint x < uint y + uint b \<longleftrightarrow> unat x < unat y + unat b"
      unfolding uint_nat by linarith
    with a show ?thesis by (auto simp: Sub64_def)
  qed
  have "d + (y + b) = x" using a by (auto simp: Sub64_def algebra_simps)
  then have "unat x = (unat d + (unat y + unat b)) mod 18446744073709551616"
    by (metis unat_u64_add_mod mod_add_right_eq)
  then show ?thesis
    using k b unat_u64_bound [of x] unat_u64_bound [of y] unat_u64_bound [of d]
    by (cases "unat d + (unat y + unat b) < 18446744073709551616")
       (simp_all add: le_mod_geq split: if_splits)
qed

lemma Mul64_exact:
  "Mul64 x y = (hi, lo) \<Longrightarrow> unat lo + 18446744073709551616 * unat hi = unat x * unat y"
proof -
  assume a: "Mul64 x y = (hi, lo)"
  have lo: "unat lo = (unat x * unat y) mod 18446744073709551616"
    using a by (auto simp: Mul64_def unat_u64_mult_mod)
  have "unat x * unat y < 18446744073709551616 * 18446744073709551616"
    by (intro mult_strict_mono) (simp_all add: unat_u64_bound)
  then have "unat x * unat y div 18446744073709551616 < 18446744073709551616"
    by (simp add: less_mult_imp_div_less)
  moreover have "hi = of_nat (unat x * unat y div 18446744073709551616)"
  proof -
    have "uint x * uint y div 18446744073709551616 = int (unat x * unat y div 18446744073709551616)"
      by (simp add: zdiv_int)
    with a show ?thesis by (auto simp: Mul64_def)
  qed
  ultimately have "unat hi = unat x * unat y div 18446744073709551616"
    by (simp add: unat_of_nat)
  with lo show ?thesis by simp
qed

lemma Cmp_less: "Cmp a b < 0 \<longleftrightarrow> val a < val b"
  using unat_u64_bound [of "Lo a"] unat_u64_bound [of "Lo b"]
  unfolding Cmp_def val_def word_less_nat_alt by (simp split: if_split)

lemma Cmp_swap: "Cmp b a = - Cmp a b"
  by (auto simp: Cmp_def)

lemma Cmp_greater: "0 < Cmp a b \<longleftrightarrow> val b < val a"
  using Cmp_less [of b a] unfolding Cmp_swap [of b a] by simp

lemma Cmp_eq: "Cmp a b = 0 \<longleftrightarrow> a = b"
  using Cmp_less [of a b] Cmp_greater [of a b] val_inject [of a b] by linarith

lemma Add_Inr_iff: "Add a b = Inr c \<longleftrightarrow> val c = val a + val b"
proof -
  obtain lo k where lo: "Add64 (Lo a) (Lo b) 0 = (lo, k)" by fastforce
  obtain hi k' where hi: "Add64 (Hi a) (Hi b) k = (hi, k')" by fastforce
  from Add64_exact [OF lo] have 1: "unat lo + 18446744073709551616 * unat k = unat (Lo a) + unat (Lo b)"
    and k: "unat k \<le> 1" by simp_all
  from Add64_exact [OF hi k]
  have 2: "unat hi + 18446744073709551616 * unat k' = unat (Hi a) + unat (Hi b) + unat k" by simp
  have sum: "val (Uint128 lo hi) + 2 ^ 128 * unat k' = val a + val b"
    using 1 2 by (simp add: val_def)
  have Add: "Add a b = (if k' \<noteq> 0 then Inl ErrUint128Overflow else Inr (Uint128 lo hi))"
    by (simp add: Add_def lo hi)
  show ?thesis
  proof (cases "k' = 0")
    case True
    with sum Add show ?thesis by (auto simp flip: val_inject)
  next
    case False
    then have "0 < unat k'" by (simp add: unat_gt_0)
    with sum have "2 ^ 128 \<le> val a + val b" by simp
    with val_bound [of c] False Add show ?thesis by simp
  qed
qed

lemma Sub_Inr_iff: "Sub a b = Inr c \<longleftrightarrow> val a = val b + val c"
proof (cases "Cmp a b < 0")
  case True
  then show ?thesis by (simp add: Sub_def) (simp add: Cmp_less)
next
  case False
  then have le: "val b \<le> val a" by (simp add: Cmp_less)
  obtain lo k where lo: "Sub64 (Lo a) (Lo b) 0 = (lo, k)" by fastforce
  obtain hi k' where hi: "Sub64 (Hi a) (Hi b) k = (hi, k')" by fastforce
  from Sub64_exact [OF lo] have 1: "unat lo + unat (Lo b) = unat (Lo a) + 18446744073709551616 * unat k"
    and k: "unat k \<le> 1" by simp_all
  from Sub64_exact [OF hi k]
  have 2: "unat hi + unat (Hi b) + unat k = unat (Hi a) + 18446744073709551616 * unat k'" by simp
  have diff: "val (Uint128 lo hi) + val b = val a + 2 ^ 128 * unat k'"
    using 1 2 by (simp add: val_def)
  have "unat k' = 0" using diff le val_bound [of "Uint128 lo hi"] by simp
  then have "k' = 0" by (simp add: unat_eq_0)
  with diff False show ?thesis by (auto simp: Sub_def lo hi simp flip: val_inject)
qed

lemma mul64_Inr_iff: "mul64 a m = Inr c \<longleftrightarrow> val c = val a * unat m"
proof -
  obtain hh hl where h: "Mul64 (Hi a) m = (hh, hl)" by fastforce
  obtain lh ll where l: "Mul64 (Lo a) m = (lh, ll)" by fastforce
  obtain nh k where n: "Add64 hl lh 0 = (nh, k)" by fastforce
  note e = Mul64_exact [OF h] Mul64_exact [OF l] Add64_exact [OF n]
  have prod: "val (Uint128 ll nh) + 2 ^ 128 * (unat k + unat hh) = val a * unat m"
    using e by (simp add: val_def algebra_simps)
  have mul: "mul64 a m = (if hh \<noteq> 0 \<or> k \<noteq> 0 then Inl ErrUint128Overflow else Inr (Uint128 ll nh))"
    by (simp add: mul64_def h l n)
  show ?thesis
  proof (cases "hh = 0 \<and> k = 0")
    case True
    with prod mul show ?thesis by (auto simp flip: val_inject)
  next
    case False
    then have "1 \<le> unat k + unat hh" using unat_gt_0 [of k] unat_gt_0 [of hh] by linarith
    with prod have "2 ^ 128 \<le> val a * unat m" by (auto simp flip: prod)
    with val_bound [of c] False mul show ?thesis by auto
  qed
qed

lemma Add_Inl: "Add a b = Inl e \<Longrightarrow> e = ErrUint128Overflow"
  by (auto simp: Add_def split: prod.splits if_splits)

lemma Sub_Inl: "Sub a b = Inl e \<Longrightarrow> e = ErrUint128Underflow"
  by (auto simp: Sub_def split: prod.splits if_splits)

lemma mul64_Inl: "mul64 a m = Inl e \<Longrightarrow> e = ErrUint128Overflow"
  by (auto simp: mul64_def split: prod.splits if_splits)

lemma val_surj: "n < 2 ^ 128 \<Longrightarrow> \<exists>a. val a = n"
proof -
  assume n: "n < 2 ^ 128"
  let ?a = "Uint128 (of_nat (n mod 2 ^ 64)) (of_nat (n div 2 ^ 64))"
  have "n div 18446744073709551616 < 18446744073709551616"
    using n by (simp add: less_mult_imp_div_less)
  then have "val ?a = n" by (simp add: val_def unat_of_nat)
  then show ?thesis ..
qed

lemma Sub_ok: "val b \<le> val a \<Longrightarrow> \<exists>c. Sub a b = Inr c \<and> val a = val b + val c"
proof -
  assume le: "val b \<le> val a"
  then obtain c where "val c = val a - val b" using val_surj [OF le_less_trans [OF diff_le_self val_bound]] by blast
  with le have "val a = val b + val c" by simp
  then show ?thesis by (auto simp: Sub_Inr_iff)
qed

lemma Add_ok: "val a + val b < 2 ^ 128 \<Longrightarrow> \<exists>c. Add a b = Inr c \<and> val c = val a + val b"
  using val_surj [of "val a + val b"] by (auto simp: Add_Inr_iff)

subsection \<open>The contract of checked money arithmetic\<close>

locale checked_amount =
  fixes amt :: "'a \<Rightarrow> nat"
    and bound :: nat
    and add :: "'a \<Rightarrow> 'a \<Rightarrow> 'e + 'a"
    and sub :: "'a \<Rightarrow> 'a \<Rightarrow> 'e + 'a"
    and cmp :: "'a \<Rightarrow> 'a \<Rightarrow> int"
  assumes amt_below: "amt a < bound"
    and amt_unique: "amt a = amt b \<Longrightarrow> a = b"
    and amt_full: "n < bound \<Longrightarrow> \<exists>a. amt a = n"
    and add_exact: "add a b = Inr c \<longleftrightarrow> amt c = amt a + amt b"
    and sub_exact: "sub a b = Inr c \<longleftrightarrow> amt a = amt b + amt c"
    and cmp_below: "cmp a b < 0 \<longleftrightarrow> amt a < amt b"
    and cmp_same: "cmp a b = 0 \<longleftrightarrow> amt a = amt b"
begin

lemma add_ok: "isOk (add a b) \<longleftrightarrow> amt a + amt b < bound"
  unfolding isOk_iff add_exact using amt_full amt_below by metis

lemma sub_ok: "isOk (sub a b) \<longleftrightarrow> amt b \<le> amt a"
proof
  assume "amt b \<le> amt a"
  then have "amt a - amt b < bound" using amt_below [of a] by simp
  then obtain c where "amt c = amt a - amt b" using amt_full by blast
  with \<open>amt b \<le> amt a\<close> have "sub a b = Inr c" by (simp add: sub_exact)
  then show "isOk (sub a b)" by simp
qed (auto simp: isOk_iff sub_exact)

lemma cmp_above: "0 < cmp a b \<longleftrightarrow> amt b < amt a"
  using cmp_below [of a b] cmp_same [of a b] by linarith

lemma sub_add_inverse: "sub a b = Inr c \<Longrightarrow> add b c = Inr a"
  by (simp add: sub_exact add_exact)

lemma move_conserves:
  "\<lbrakk> sub a x = Inr a'; add b x = Inr b' \<rbrakk> \<Longrightarrow> amt a' + amt b' = amt a + amt b"
  by (simp add: sub_exact add_exact)

lemma covered_iff: "\<not> cmp bal x < 0 \<longleftrightarrow> isOk (sub bal x)"
  by (simp add: cmp_below sub_ok not_less)

end

interpretation u128: checked_amount val "2 ^ 128" Add Sub Cmp
  by unfold_locales
     (use val_bound val_surj in \<open>auto simp: Add_Inr_iff Sub_Inr_iff Cmp_less Cmp_eq\<close>)

text \<open>The order of money values, with the order that \<open>Cmp\<close> computes.\<close>

instantiation uint128 :: linorder
begin

definition less_eq_uint128 :: "uint128 \<Rightarrow> uint128 \<Rightarrow> bool" where
  "less_eq_uint128 a b \<longleftrightarrow> Cmp a b \<le> 0"

definition less_uint128 :: "uint128 \<Rightarrow> uint128 \<Rightarrow> bool" where
  "less_uint128 a b \<longleftrightarrow> Cmp a b < 0"

instance
proof
  have le: "a \<le> b \<longleftrightarrow> val a \<le> val b" for a b
    using Cmp_greater [of a b] unfolding less_eq_uint128_def by linarith
  have lt: "a < b \<longleftrightarrow> val a < val b" for a b
    by (simp add: less_uint128_def Cmp_less)
  fix x y z :: uint128
  show "x < y \<longleftrightarrow> x \<le> y \<and> \<not> y \<le> x" "x \<le> x" "x \<le> y \<Longrightarrow> y \<le> z \<Longrightarrow> x \<le> z"
    "x \<le> y \<Longrightarrow> y \<le> x \<Longrightarrow> x = y" "x \<le> y \<or> y \<le> x"
    by (auto simp: le lt simp flip: val_inject)
qed

end

lemma val_le_iff: "a \<le> b \<longleftrightarrow> val a \<le> val b"
  using Cmp_greater [of a b] unfolding less_eq_uint128_def by linarith

subsection \<open>Decimal strings\<close>

definition is_digit :: "char \<Rightarrow> bool" where
  "is_digit c \<longleftrightarrow> 48 \<le> (of_char c :: nat) \<and> of_char c \<le> (57 :: nat)"

fun dec_value :: "nat \<Rightarrow> string \<Rightarrow> nat" where
  "dec_value acc [] = acc"
| "dec_value acc (c # cs) = dec_value (10 * acc + (of_char c - 48)) cs"

lemma dec_value_mono: "acc \<le> dec_value acc s"
proof (induction s arbitrary: acc)
  case (Cons c s)
  have "10 * acc + (of_char c - 48) \<le> dec_value (10 * acc + (of_char c - 48)) s" by (rule Cons)
  then show ?case by simp
qed simp

lemma dec_value_append: "dec_value acc (s @ [c]) = 10 * dec_value acc s + (of_char c - 48)"
  by (induction s arbitrary: acc) auto

lemma digit_guard:
  "(of_char c :: int) < of_char (CHR ''0'') \<or> (of_char (CHR ''9'') :: int) < of_char c \<longleftrightarrow> \<not> is_digit c"
proof -
  have "(of_char c :: int) = int (of_char c)" by (simp add: of_char_def)
  then show ?thesis unfolding is_digit_def by (simp; linarith)
qed

lemma digit_word: "is_digit c \<Longrightarrow> unat (of_char c - 48 :: u64) = of_char c - 48"
proof -
  assume d: "is_digit c"
  have "(of_char c :: u64) = of_nat (of_char c)" by (simp add: of_char_def)
  then have "(of_char c - 48 :: u64) = of_nat (of_char c - 48)"
    using d by (simp add: is_digit_def)
  moreover have "of_char c - 48 < (10 :: nat)" using d unfolding is_digit_def by linarith
  ultimately show ?thesis by (simp add: unat_of_nat)
qed

lemma of_char_0_digit: "(of_char (CHR ''0'') :: u64) = 48"
  by simp

lemma FromString_loop_Cons:
  "FromString_loop acc (c # cs) =
     (if \<not> is_digit c then Inl ErrInvalidUint128String
      else bindE (mul64 acc 10) (\<lambda>mul.
           bindE (Add mul (FromUint64 (of_char c - 48))) (\<lambda>acc'.
           FromString_loop acc' cs)))"
  unfolding FromString_loop.simps digit_guard bindE_def of_char_0_digit by simp

lemma FromString_loop_Inr_iff:
  "FromString_loop acc s = Inr r \<longleftrightarrow> (\<forall>c \<in> set s. is_digit c) \<and> val r = dec_value (val acc) s"
proof (induction s arbitrary: acc)
  case Nil
  then show ?case by (auto simp flip: val_inject)
next
  case (Cons c s)
  show ?case
  proof (cases "is_digit c")
    case False
    then show ?thesis by (simp add: FromString_loop_Cons del: FromString_loop.simps(2))
  next
    case True
    let ?d = "FromUint64 (of_char c - 48)"
    have d: "val ?d = of_char c - 48" using True by (simp add: digit_word)
    let ?n = "10 * val acc + (of_char c - 48)"
    show ?thesis
    proof (cases "?n < 2 ^ 128")
      case True': True
      then obtain a m where m: "val m = val acc * 10" and a: "val a = ?n"
        using val_surj [of "val acc * 10"] val_surj [of ?n] by (auto simp: mult.commute)
      have "mul64 acc 10 = Inr m" "Add m ?d = Inr a"
        using m a d by (simp_all add: mul64_Inr_iff Add_Inr_iff)
      with True show ?thesis 
        by (simp add: FromString_loop_Cons Cons a del: FromString_loop.simps(2))
    next
      case False
      have "FromString_loop acc (c # s) \<noteq> Inr r"
      proof
        assume "FromString_loop acc (c # s) = Inr r"
        then obtain m a where "mul64 acc 10 = Inr m" "Add m ?d = Inr a"
          using True by (auto simp: FromString_loop_Cons bindE_Inr_iff simp del: FromString_loop.simps(2))
        then have "val a = ?n" using d by (simp add: mul64_Inr_iff Add_Inr_iff)
        with False val_bound [of a] show False by simp
      qed
      moreover have "val r < dec_value (val acc) (c # s)"
        using False val_bound [of r] dec_value_mono [of ?n s] by simp
      ultimately show ?thesis by simp
    qed
  qed
qed

lemma FromString_Inr_iff:
  "FromString s = Inr r \<longleftrightarrow> s \<noteq> [] \<and> (\<forall>c \<in> set s. is_digit c) \<and> val r = dec_value 0 s"
  by (auto simp: FromString_def FromString_loop_Inr_iff)

lemma digit_char_digit: "d < 10 \<Longrightarrow> is_digit (digit_char d) \<and> of_char (digit_char d) = 48 + d"
  by (simp add: is_digit_def digit_char_def)

lemma dec_string_digits: "\<forall>c \<in> set (dec_string n). is_digit c"
proof (induction n rule: dec_string.induct)
  case (1 n)
  then show ?case
    by (cases "n < 10") (auto simp: digit_char_digit dec_string.simps [of n])
qed

lemma dec_value_dec_string: "dec_value 0 (dec_string n) = n"
proof (induction n rule: dec_string.induct)
  case (1 n)
  then show ?case
    by (cases "n < 10") (auto simp: digit_char_digit dec_value_append dec_string.simps [of n])
qed

lemma dec_string_nonempty: "dec_string n \<noteq> []"
  by (subst dec_string.simps) simp

text \<open>Printing and parsing an amount agree: \<^verbatim>\<open>FromString\<close> reads back what \<^verbatim>\<open>String\<close> writes.\<close>

theorem FromString_String: "FromString (String a) = Inr a"
proof (cases "IsZero a")
  case True
  then have "val a = 0" by (simp add: IsZero_iff)
  with True show ?thesis
    by (simp add: String_def FromString_Inr_iff is_digit_def)
next
  case False
  then show ?thesis
    unfolding FromString_Inr_iff String_def
    using dec_string_nonempty dec_string_digits dec_value_dec_string by (simp add: val_def)
qed

lemma MarshalBinary_layout: "MarshalBinary a = be_bytes 8 (Hi a) @ be_bytes 8 (Lo a)"
  by (simp add: MarshalBinary_def copy_at_def drop_replicate)

lemma MarshalBinary_roundtrip:
  "UnmarshalBinary (MarshalBinary a) = Inr a"
  by (simp add: UnmarshalBinary_def MarshalBinary_layout slice_def)

lemma UnmarshalBinary_onto:
  "UnmarshalBinary b = Inr a \<longleftrightarrow> b = MarshalBinary a"
proof
  assume "UnmarshalBinary b = Inr a"
  then have len: "length b = 16" and a: "a = Uint128 (be_word (slice 8 16 b)) (be_word (slice 0 8 b))"
    by (auto simp: UnmarshalBinary_def split: if_splits)
  have "be_bytes 8 (Hi a) = slice 0 8 b" "be_bytes 8 (Lo a) = slice 8 16 b"
    using len by (simp_all add: a be_bytes_be_word)
  then show "b = MarshalBinary a"
    using len slice_split [of 0 8 16 b] slice_all [of 16 b] by (simp add: MarshalBinary_layout)
qed (simp add: MarshalBinary_roundtrip)

text \<open>128-bit addition and subtraction are exact: with carries between the two 64-bit halves
  they return the mathematical sum or difference whenever it is representable, and the
  overflow or underflow error exactly when it is not.\<close>

theorem Add_Sub_exact:
  "(case Add a b of Inr c \<Rightarrow> val c = val a + val b | Inl e \<Rightarrow> e = ErrUint128Overflow \<and> 2 ^ 128 \<le> val a + val b) \<and>
   (case Sub a b of Inr c \<Rightarrow> val a = val b + val c | Inl e \<Rightarrow> e = ErrUint128Underflow \<and> val a < val b)"
proof (intro conjI)
  show "case Add a b of Inr c \<Rightarrow> val c = val a + val b | Inl e \<Rightarrow> e = ErrUint128Overflow \<and> 2 ^ 128 \<le> val a + val b"
  proof (cases "Add a b")
    case (Inl e)
    then have "\<not> val a + val b < 2 ^ 128" using Add_ok [of a b] by auto
    with Inl show ?thesis using Add_Inl [of a b e] by simp
  next
    case (Inr c)
    from this [unfolded Add_Inr_iff] Inr show ?thesis by simp
  qed
  show "case Sub a b of Inr c \<Rightarrow> val a = val b + val c | Inl e \<Rightarrow> e = ErrUint128Underflow \<and> val a < val b"
  proof (cases "Sub a b")
    case (Inl e)
    then have "\<not> val b \<le> val a" using Sub_ok [of b a] by auto
    with Inl show ?thesis using Sub_Inl [of a b e] by simp
  next
    case (Inr c)
    from this [unfolded Sub_Inr_iff] Inr show ?thesis by simp
  qed
qed

text \<open>\<^verbatim>\<open>FromString\<close> accepts exactly the non-empty digit strings whose decimal value is below
  \<open>2 ^ 128\<close>, and returns that value.\<close>

theorem FromString_exact:
  "isOk (FromString s) \<longleftrightarrow> s \<noteq> [] \<and> (\<forall>c\<in>set s. is_digit c) \<and> dec_value 0 s < 2 ^ 128"
  using val_surj [of "dec_value 0 s"] val_bound by (auto simp: isOk_iff FromString_Inr_iff) metis

theorem FromString_exact_witness:
  "isOk (FromString ''340282366920938463463374607431768211455'')"
  unfolding FromString_exact by (simp add: is_digit_def)

end
