(* ===== verification/Core_Model.thy ===== *)
theory Core_Model
  imports Uint128
begin

text \<open>
  The value types of \<^verbatim>\<open>internal/core\<close>: accounts (\<^verbatim>\<open>account.go\<close>), transfers
  (\<^verbatim>\<open>transfer.go\<close>) and the error values (\<^verbatim>\<open>errors.go\<close>), with the balance functions and
  the flag tests. Blank padding fields of the Go structs hold no data and are left out.
  The \<^verbatim>\<open>Reason\<close> of a failed chain, in Go the rendered text of the causing error, is that
  error itself.
\<close>

record account =
  acc_ID :: ident
  acc_Currency :: bytes
  acc_Ledger :: u32
  acc_Code :: u16
  acc_Flags :: u32
  acc_UserData128 :: bytes
  PostedDebits :: uint128
  PostedCredits :: uint128
  PendingDebits :: uint128
  PendingCredits :: uint128

record transfer =
  tr_ID :: ident
  DebitAccountID :: ident
  CreditAccountID :: ident
  Amount :: uint128
  IdempotencyKey :: bytes
  tr_UserData128 :: bytes
  Timestamp :: i64
  Timeout :: u64
  tr_Ledger :: u32
  tr_Code :: u16
  tr_Flags :: u32

text \<open>The Go zero values \<^verbatim>\<open>Account{}\<close> and \<^verbatim>\<open>Transfer{}\<close>.\<close>

definition account0 :: account where
  "account0 = \<lparr> acc_ID = zeros 16, acc_Currency = zeros 4, acc_Ledger = 0, acc_Code = 0,
     acc_Flags = 0, acc_UserData128 = zeros 16, PostedDebits = u128_zero,
     PostedCredits = u128_zero, PendingDebits = u128_zero, PendingCredits = u128_zero \<rparr>"

definition transfer0 :: transfer where
  "transfer0 = \<lparr> tr_ID = zeros 16, DebitAccountID = zeros 16, CreditAccountID = zeros 16,
     Amount = u128_zero, IdempotencyKey = zeros 32, tr_UserData128 = zeros 16, Timestamp = 0,
     Timeout = 0, tr_Ledger = 0, tr_Code = 0, tr_Flags = 0 \<rparr>"

datatype ledger_error =
    ErrInsufficientFunds ident uint128 uint128
  | ErrAccountNotFound ident
  | ErrDuplicateAccountID ident
  | ErrAccountFrozen ident
  | ErrAccountClosed ident
  | ErrSelfTransfer ident
  | ErrZeroAmount
  | ErrCurrencyMismatch bytes bytes
  | ErrBalanceOverflow ident
  | ErrIdempotencyConflict bytes
  | ErrBufferFull
  | ErrNotLeader
  | ErrLedgerClosed
  | ErrBatchTooLarge int int
  | ErrInvalidRingBufferSize int
  | ErrInvariantViolation ident uint128 uint128
  | ErrPendingNotFound ident
  | ErrInvalidTransferFlags u32
  | ErrOverTransfer ident uint128 uint128
  | ErrTransferNotFound ident
  | ErrDuplicateTransferID ident
  | ErrLedgerMismatch u32 u32 u32
  | ErrLinkedChainFailed ident int ledger_error
  | ErrLinkedChainOpen ident int
  | GoPanic \<comment> \<open>index out of range\<close>

subsection \<open>Balances\<close>

definition Balance :: "account \<Rightarrow> ledger_error + uint128" where
  "Balance a =
     (case Sub (PostedCredits a) (PostedDebits a) of
        Inl _ \<Rightarrow> Inl (ErrInvariantViolation (acc_ID a) (PostedDebits a) (PostedCredits a))
      | Inr bal \<Rightarrow> Inr bal)"

definition AvailableBalance :: "account \<Rightarrow> ledger_error + uint128" where
  "AvailableBalance a =
     (case Balance a of
        Inl e \<Rightarrow> Inl e
      | Inr posted \<Rightarrow>
          (case Sub posted (PendingDebits a) of
             Inl _ \<Rightarrow> Inl (ErrInvariantViolation (acc_ID a) (PostedDebits a) u128_zero)
           | Inr avail \<Rightarrow>
               (case Add avail (PendingCredits a) of
                  Inl _ \<Rightarrow> Inl (ErrBalanceOverflow (acc_ID a))
                | Inr avail' \<Rightarrow> Inr avail')))"

lemma Balance_Inr_iff:
  "Balance a = Inr b \<longleftrightarrow> val (PostedCredits a) = val (PostedDebits a) + val b"
  by (simp add: Balance_def flip: Sub_Inr_iff split: sum.splits)

lemma AvailableBalance_Inr_iff:
  "AvailableBalance a = Inr v \<longleftrightarrow>
     val (PostedDebits a) + val (PendingDebits a) \<le> val (PostedCredits a) \<and>
     val v + val (PostedDebits a) + val (PendingDebits a) =
       val (PostedCredits a) + val (PendingCredits a)" (is "?L \<longleftrightarrow> ?R")
proof -
  have "?L \<longleftrightarrow> (\<exists>p q. Balance a = Inr p \<and> Sub p (PendingDebits a) = Inr q \<and> Add q (PendingCredits a) = Inr v)"
    by (auto simp: AvailableBalance_def split: sum.splits)
  also have "\<dots> \<longleftrightarrow> ?R"
  proof
    assume ?R
    then have "val (PostedCredits a) - val (PostedDebits a) < 2 ^ 128"
      "val (PostedCredits a) - val (PostedDebits a) - val (PendingDebits a) < 2 ^ 128"
      using val_bound [of "PostedCredits a"] by simp_all
    then obtain p q where "val p = val (PostedCredits a) - val (PostedDebits a)"
      "val q = val (PostedCredits a) - val (PostedDebits a) - val (PendingDebits a)"
      using val_surj by metis
    with \<open>?R\<close> have "Balance a = Inr p" "Sub p (PendingDebits a) = Inr q" "Add q (PendingCredits a) = Inr v"
      unfolding Balance_Inr_iff Sub_Inr_iff Add_Inr_iff by linarith+
    then show "\<exists>p q. Balance a = Inr p \<and> Sub p (PendingDebits a) = Inr q \<and> Add q (PendingCredits a) = Inr v"
      by blast
  qed (auto simp: Balance_Inr_iff Sub_Inr_iff Add_Inr_iff)
  finally show ?thesis .
qed

subsection \<open>Flags\<close>

abbreviation AccountFlagFrozen :: u32 where "AccountFlagFrozen \<equiv> 1"
abbreviation AccountFlagClosed :: u32 where "AccountFlagClosed \<equiv> 2"
abbreviation TransferFlagPending :: u32 where "TransferFlagPending \<equiv> 1"
abbreviation TransferFlagPostPending :: u32 where "TransferFlagPostPending \<equiv> 2"
abbreviation TransferFlagVoidPending :: u32 where "TransferFlagVoidPending \<equiv> 4"
abbreviation TransferFlagLinked :: u32 where "TransferFlagLinked \<equiv> 8"

definition IsFrozen :: "account \<Rightarrow> bool" where
  "IsFrozen a \<longleftrightarrow> acc_Flags a AND AccountFlagFrozen \<noteq> 0"

definition IsClosed :: "account \<Rightarrow> bool" where
  "IsClosed a \<longleftrightarrow> acc_Flags a AND AccountFlagClosed \<noteq> 0"

definition isPost :: "transfer \<Rightarrow> bool" where
  "isPost t \<longleftrightarrow> tr_Flags t AND TransferFlagPostPending \<noteq> 0"

definition isVoid :: "transfer \<Rightarrow> bool" where
  "isVoid t \<longleftrightarrow> tr_Flags t AND TransferFlagVoidPending \<noteq> 0"

definition isPending :: "transfer \<Rightarrow> bool" where
  "isPending t \<longleftrightarrow> tr_Flags t AND TransferFlagPending \<noteq> 0"

definition isLinked :: "transfer \<Rightarrow> bool" where
  "isLinked t \<longleftrightarrow> tr_Flags t AND TransferFlagLinked \<noteq> 0"

definition knownFlags :: u32 where
  "knownFlags = TransferFlagPending OR TransferFlagPostPending OR TransferFlagVoidPending OR TransferFlagLinked"

definition hasUnknownFlags :: "transfer \<Rightarrow> bool" where
  "hasUnknownFlags t \<longleftrightarrow> tr_Flags t AND NOT knownFlags \<noteq> 0"

subsection \<open>Array sizes\<close>

text \<open>The lengths Go's array types fix: every \<open>account\<close> and \<open>transfer\<close> of the program
  satisfies these.\<close>

definition wf_account :: "account \<Rightarrow> bool" where
  "wf_account a \<longleftrightarrow> length (acc_ID a) = 16 \<and> length (acc_Currency a) = 4 \<and> length (acc_UserData128 a) = 16"

definition wf_transfer :: "transfer \<Rightarrow> bool" where
  "wf_transfer t \<longleftrightarrow> length (tr_ID t) = 16 \<and> length (DebitAccountID t) = 16 \<and>
     length (CreditAccountID t) = 16 \<and> length (IdempotencyKey t) = 32 \<and> length (tr_UserData128 t) = 16"

end
