(* ===== verification/Payload_Codec.thy ===== *)
theory Payload_Codec
  imports Core_Model
begin

text \<open>
  The wire payloads of \<^verbatim>\<open>internal/core/codec.go\<close>: 144 bytes for a transfer, 128 for an
  account, written field by field at increasing offsets into a zeroed tail of the
  destination buffer. The layout lemmas give each writer its closed form; the locale
  \<open>fixed_codec\<close> states what the WAL, the snapshot file and the replication stream rely on
  (fixed width, decoding inverts encoding) and is interpreted for both payloads.
\<close>

datatype payload_error = ErrInvalidTransferPayload | ErrInvalidAccountPayload

abbreviation TransferPayloadSize :: nat where "TransferPayloadSize \<equiv> 144"
abbreviation AccountPayloadSize :: nat where "AccountPayloadSize \<equiv> 128"

definition AppendTransferPayload :: "bytes \<Rightarrow> transfer \<Rightarrow> bytes" where
  "AppendTransferPayload dst t =
     (let start = length dst;
          b = dst @ zeros TransferPayloadSize;
          off = start;
          b = copy_at off (tr_ID t) b;
          off = off + 16;
          b = copy_at off (DebitAccountID t) b;
          off = off + 16;
          b = copy_at off (CreditAccountID t) b;
          off = off + 16;
          b = copy_at off (be_bytes 8 (Hi (Amount t))) b;
          b = copy_at (off + 8) (be_bytes 8 (Lo (Amount t))) b;
          off = off + 16;
          b = copy_at off (IdempotencyKey t) b;
          off = off + 32;
          b = copy_at off (tr_UserData128 t) b;
          off = off + 16;
          b = copy_at off (be_bytes 8 (Timestamp t)) b;
          off = off + 8;
          b = copy_at off (be_bytes 8 (Timeout t)) b;
          off = off + 8;
          b = copy_at off (be_bytes 4 (tr_Ledger t)) b;
          off = off + 4;
          b = copy_at off (be_bytes 2 (tr_Code t)) b;
          off = off + 2;
          off = off + 2;
          b = copy_at off (be_bytes 4 (tr_Flags t)) b
      in b)"

definition EncodeTransferPayload :: "transfer \<Rightarrow> bytes" where
  "EncodeTransferPayload t = AppendTransferPayload [] t"

definition DecodeTransferPayload :: "bytes \<Rightarrow> payload_error + transfer" where
  "DecodeTransferPayload b =
     (if length b \<noteq> TransferPayloadSize then Inl ErrInvalidTransferPayload
      else Inr
        \<lparr> tr_ID = slice 0 16 b,
          DebitAccountID = slice 16 32 b,
          CreditAccountID = slice 32 48 b,
          Amount = Uint128 (be_word (slice 56 64 b)) (be_word (slice 48 56 b)),
          IdempotencyKey = slice 64 96 b,
          tr_UserData128 = slice 96 112 b,
          Timestamp = be_word (slice 112 120 b),
          Timeout = be_word (slice 120 128 b),
          tr_Ledger = be_word (slice 128 132 b),
          tr_Code = be_word (slice 132 134 b),
          tr_Flags = be_word (slice 136 140 b) \<rparr>)"

definition AppendAccountPayload :: "bytes \<Rightarrow> account \<Rightarrow> bytes" where
  "AppendAccountPayload dst a =
     (let start = length dst;
          b = dst @ zeros AccountPayloadSize;
          off = start;
          b = copy_at off (acc_ID a) b;
          off = off + 16;
          b = copy_at off (acc_Currency a) b;
          off = off + 4;
          b = copy_at off (be_bytes 4 (acc_Ledger a)) b;
          off = off + 4;
          b = copy_at off (be_bytes 2 (acc_Code a)) b;
          off = off + 2;
          off = off + 2;
          b = copy_at off (be_bytes 4 (acc_Flags a)) b;
          off = off + 4;
          b = copy_at off (acc_UserData128 a) b;
          off = off + 16;
          b = copy_at off (be_bytes 8 (Hi (PostedDebits a))) b;
          b = copy_at (off + 8) (be_bytes 8 (Lo (PostedDebits a))) b;
          off = off + 16;
          b = copy_at off (be_bytes 8 (Hi (PostedCredits a))) b;
          b = copy_at (off + 8) (be_bytes 8 (Lo (PostedCredits a))) b;
          off = off + 16;
          b = copy_at off (be_bytes 8 (Hi (PendingDebits a))) b;
          b = copy_at (off + 8) (be_bytes 8 (Lo (PendingDebits a))) b;
          off = off + 16;
          b = copy_at off (be_bytes 8 (Hi (PendingCredits a))) b;
          b = copy_at (off + 8) (be_bytes 8 (Lo (PendingCredits a))) b
      in b)"

definition EncodeAccountPayload :: "account \<Rightarrow> bytes" where
  "EncodeAccountPayload a = AppendAccountPayload [] a"

definition DecodeAccountPayload :: "bytes \<Rightarrow> payload_error + account" where
  "DecodeAccountPayload b =
     (if length b \<noteq> AccountPayloadSize then Inl ErrInvalidAccountPayload
      else Inr
        \<lparr> acc_ID = slice 0 16 b,
          acc_Currency = slice 16 20 b,
          acc_Ledger = be_word (slice 20 24 b),
          acc_Code = be_word (slice 24 26 b),
          acc_Flags = be_word (slice 28 32 b),
          acc_UserData128 = slice 32 48 b,
          PostedDebits = Uint128 (be_word (slice 56 64 b)) (be_word (slice 48 56 b)),
          PostedCredits = Uint128 (be_word (slice 72 80 b)) (be_word (slice 64 72 b)),
          PendingDebits = Uint128 (be_word (slice 88 96 b)) (be_word (slice 80 88 b)),
          PendingCredits = Uint128 (be_word (slice 104 112 b)) (be_word (slice 96 104 b)) \<rparr>)"

subsection \<open>Layout\<close>

definition transfer_layout :: "transfer \<Rightarrow> bytes" where
  "transfer_layout t = concat
     [tr_ID t, DebitAccountID t, CreditAccountID t, MarshalBinary (Amount t), IdempotencyKey t,
      tr_UserData128 t, be_bytes 8 (Timestamp t), be_bytes 8 (Timeout t), be_bytes 4 (tr_Ledger t),
      be_bytes 2 (tr_Code t), zeros 2, be_bytes 4 (tr_Flags t), zeros 4]"

definition account_layout :: "account \<Rightarrow> bytes" where
  "account_layout a = concat
     [acc_ID a, acc_Currency a, be_bytes 4 (acc_Ledger a), be_bytes 2 (acc_Code a), zeros 2,
      be_bytes 4 (acc_Flags a), acc_UserData128 a, MarshalBinary (PostedDebits a),
      MarshalBinary (PostedCredits a), MarshalBinary (PendingDebits a),
      MarshalBinary (PendingCredits a), zeros 16]"

lemma AppendTransferPayload_layout:
  assumes "wf_transfer t"
  shows "AppendTransferPayload dst t = dst @ transfer_layout t"
proof -
  have "AppendTransferPayload dst t = dst @ tr_ID t @ DebitAccountID t @ CreditAccountID t @
      be_bytes 8 (Hi (Amount t)) @ be_bytes 8 (Lo (Amount t)) @ IdempotencyKey t @ tr_UserData128 t @
      be_bytes 8 (Timestamp t) @ be_bytes 8 (Timeout t) @ be_bytes 4 (tr_Ledger t) @
      be_bytes 2 (tr_Code t) @ zeros 2 @ be_bytes 4 (tr_Flags t) @ zeros 4"
    using assms unfolding AppendTransferPayload_def Let_def wf_transfer_def
    by (simp add: layout_simps del: append_assoc)
  then show ?thesis by (simp add: transfer_layout_def MarshalBinary_layout)
qed

lemma AppendAccountPayload_layout:
  assumes "wf_account a"
  shows "AppendAccountPayload dst a = dst @ account_layout a"
proof -
  have "AppendAccountPayload dst a = dst @ acc_ID a @ acc_Currency a @ be_bytes 4 (acc_Ledger a) @
      be_bytes 2 (acc_Code a) @ zeros 2 @ be_bytes 4 (acc_Flags a) @ acc_UserData128 a @
      be_bytes 8 (Hi (PostedDebits a)) @ be_bytes 8 (Lo (PostedDebits a)) @
      be_bytes 8 (Hi (PostedCredits a)) @ be_bytes 8 (Lo (PostedCredits a)) @
      be_bytes 8 (Hi (PendingDebits a)) @ be_bytes 8 (Lo (PendingDebits a)) @
      be_bytes 8 (Hi (PendingCredits a)) @ be_bytes 8 (Lo (PendingCredits a)) @ zeros 16"
    using assms unfolding AppendAccountPayload_def Let_def wf_account_def
    by (simp add: layout_simps del: append_assoc)
  then show ?thesis by (simp add: account_layout_def MarshalBinary_layout)
qed

lemma DecodeTransferPayload_layout:
  assumes "wf_transfer t"
  shows "DecodeTransferPayload (transfer_layout t) = Inr t"
  using assms
  by (simp add: DecodeTransferPayload_def wf_transfer_def slice_def transfer_layout_def
      MarshalBinary_layout)

lemma DecodeAccountPayload_layout:
  assumes "wf_account a"
  shows "DecodeAccountPayload (account_layout a) = Inr a"
  using assms
  by (simp add: DecodeAccountPayload_def wf_account_def slice_def account_layout_def
      MarshalBinary_layout)

lemma length_transfer_layout: "wf_transfer t \<Longrightarrow> length (transfer_layout t) = TransferPayloadSize"
  by (simp add: transfer_layout_def wf_transfer_def MarshalBinary_layout)

lemma length_account_layout: "wf_account a \<Longrightarrow> length (account_layout a) = AccountPayloadSize"
  by (simp add: account_layout_def wf_account_def MarshalBinary_layout)

lemma wf_DecodeTransferPayload: "DecodeTransferPayload b = Inr t \<Longrightarrow> wf_transfer t"
  by (auto simp: DecodeTransferPayload_def wf_transfer_def split: if_splits)

lemma wf_DecodeAccountPayload: "DecodeAccountPayload b = Inr a \<Longrightarrow> wf_account a"
  by (auto simp: DecodeAccountPayload_def wf_account_def split: if_splits)

subsection \<open>The contract of a fixed-width payload\<close>

locale fixed_codec =
  fixes enc :: "'a \<Rightarrow> bytes"
    and dec :: "bytes \<Rightarrow> 'e + 'a"
    and wf :: "'a \<Rightarrow> bool"
    and width :: nat
  assumes width_pos: "0 < width"
    and enc_width: "wf x \<Longrightarrow> length (enc x) = width"
    and dec_enc: "wf x \<Longrightarrow> dec (enc x) = Inr x"
    and dec_wf: "dec b = Inr x \<Longrightarrow> wf x"
begin

lemma enc_inject: "\<lbrakk> wf x; wf y; enc x = enc y \<rbrakk> \<Longrightarrow> x = y"
  by (metis dec_enc sum.inject(2))

lemma concat_width: "(\<forall>x \<in> set xs. wf x) \<Longrightarrow> length (concat (map enc xs)) = length xs * width"
  by (induction xs) (auto simp: enc_width)

lemma chunk_enc:
  assumes "\<forall>x \<in> set xs. wf x" and "i < length xs"
  shows "slice (i * width) (i * width + width) (concat (map enc xs) @ rest) = enc (xs ! i)"
proof -
  have split: "take i xs @ xs ! i # drop (Suc i) xs = xs"
    using assms(2) by (rule id_take_nth_drop [symmetric])
  have "concat (map enc (take i xs @ xs ! i # drop (Suc i) xs)) =
      concat (map enc (take i xs)) @ enc (xs ! i) @ concat (map enc (drop (Suc i) xs))" by simp
  then have "concat (map enc xs) =
      concat (map enc (take i xs)) @ enc (xs ! i) @ concat (map enc (drop (Suc i) xs))"
    by (simp only: split)
  moreover have "length (concat (map enc (take i xs))) = i * width"
    using assms concat_width [of "take i xs"] by (auto dest: in_set_takeD)
  moreover have "length (enc (xs ! i)) = width"
    using assms by (simp add: enc_width)
  ultimately show ?thesis by (simp add: slice_def)
qed

end

interpretation transfer_codec: fixed_codec EncodeTransferPayload DecodeTransferPayload wf_transfer TransferPayloadSize
  by unfold_locales
     (simp_all add: EncodeTransferPayload_def AppendTransferPayload_layout length_transfer_layout
       DecodeTransferPayload_layout wf_DecodeTransferPayload)

interpretation account_codec: fixed_codec EncodeAccountPayload DecodeAccountPayload wf_account AccountPayloadSize
  by unfold_locales
     (simp_all add: EncodeAccountPayload_def AppendAccountPayload_layout length_account_layout
       DecodeAccountPayload_layout wf_DecodeAccountPayload)

text \<open>Transfers and accounts survive the wire format: encoding produces the fixed payload size
  and decoding returns every field, so two different records never share an encoding.\<close>

theorem payload_roundtrip:
  assumes "wf_transfer t" "wf_account a"
  shows "length (EncodeTransferPayload t) = TransferPayloadSize \<and> DecodeTransferPayload (EncodeTransferPayload t) = Inr t \<and>
     length (EncodeAccountPayload a) = AccountPayloadSize \<and> DecodeAccountPayload (EncodeAccountPayload a) = Inr a"
  using assms transfer_codec.enc_width transfer_codec.dec_enc account_codec.enc_width account_codec.dec_enc by blast

theorem payload_roundtrip_witness:
  "DecodeTransferPayload (EncodeTransferPayload transfer0) = Inr transfer0 \<and>
   DecodeAccountPayload (EncodeAccountPayload account0) = Inr account0"
proof -
  have "wf_transfer transfer0" "wf_account account0"
    by (simp_all add: wf_transfer_def transfer0_def wf_account_def account0_def)
  from payload_roundtrip [OF this] show ?thesis by blast
qed

end
