(* ===== verification/Wal_Record.thy ===== *)
theory Wal_Record
  imports Payload_Codec
begin

text \<open>
  Record frames of the write-ahead log (\<^verbatim>\<open>internal/wal/record.go\<close>): the byte layout
  \<^verbatim>\<open>[LSN:8|type:1|len:4|payload|crc32:4]\<close>, the batch-commit marker and the decoder. The
  checksum is \<^verbatim>\<open>hash/crc32.ChecksumIEEE\<close> of the Go library, bit by bit with the reflected
  polynomial. Frames are canonical (the decoder accepts exactly what the encoder writes), and
  a frame with one damaged byte is never accepted.
\<close>

subsection \<open>CRC-32\<close>

definition crc_poly :: u32 where
  "crc_poly = 0xEDB88320"

definition crc_bit :: "u32 \<Rightarrow> u32" where
  "crc_bit c = (if bit c 0 then drop_bit 1 c XOR crc_poly else drop_bit 1 c)"

definition crc_byte :: "u32 \<Rightarrow> byte \<Rightarrow> u32" where
  "crc_byte c b = (crc_bit ^^ 8) (c XOR ucast b)"

definition ChecksumIEEE :: "bytes \<Rightarrow> u32" where
  "ChecksumIEEE bs = NOT (foldl crc_byte (NOT 0) bs)"

subsection \<open>Frames\<close>

datatype wal_error =
    ErrCorrupted
  | ErrPayloadTooLarge
  | ErrInvalidRecordType
  | ErrRecordTooLarge int int \<comment> \<open>record larger than segment size\<close>
  | ErrSegmentFull
  | SliceBoundsPanic \<comment> \<open>run-time panic of an index or slice expression\<close>
  | HandlerError ledger_error

abbreviation RecordHeaderSize :: nat where "RecordHeaderSize \<equiv> 13"
abbreviation RecordCRCSize :: nat where "RecordCRCSize \<equiv> 4"

abbreviation RecordTypeTransfer :: byte where "RecordTypeTransfer \<equiv> 1"
abbreviation RecordTypeAccount :: byte where "RecordTypeAccount \<equiv> 2"
abbreviation RecordTypeCheckpoint :: byte where "RecordTypeCheckpoint \<equiv> 3"
abbreviation RecordTypeBatchCommit :: byte where "RecordTypeBatchCommit \<equiv> 4"
abbreviation RecordTypeHead :: byte where "RecordTypeHead \<equiv> 5"

record wal_record =
  rec_LSN :: u64
  rec_Type :: byte
  rec_Payload :: bytes

definition header :: "u64 \<Rightarrow> byte \<Rightarrow> nat \<Rightarrow> bytes" where
  "header lsn ty len =
     (let hdr0 = zeros RecordHeaderSize;
          hdr1 = copy_at 0 (be_bytes 8 lsn) hdr0;
          hdr2 = hdr1[8 := ty]
      in copy_at 9 (be_bytes 4 (of_nat len :: u32)) hdr2)"

text \<open>The frame is appended at position \<^verbatim>\<open>start\<close> of \<open>dst\<close>, and the checksum covers
  \<^verbatim>\<open>dst[start:]\<close>.\<close>

definition appendFrame :: "bytes \<Rightarrow> wal_record \<Rightarrow> wal_error + bytes" where
  "appendFrame dst r =
     (if rec_Type r = 0 then Inl ErrInvalidRecordType
      else if length (rec_Payload r) > 4294967295 then Inl ErrPayloadTooLarge
      else
        let start = length dst;
            dst1 = dst @ header (rec_LSN r) (rec_Type r) (length (rec_Payload r));
            dst2 = dst1 @ rec_Payload r
        in Inr (dst2 @ be_bytes 4 (ChecksumIEEE (drop start dst2))))"

definition EncodeRecord :: "wal_record \<Rightarrow> wal_error + bytes" where
  "EncodeRecord r = appendFrame [] r"

definition commit_payload :: "i64 \<Rightarrow> nat \<Rightarrow> bytes" where
  "commit_payload commitLSN count =
     copy_at 8 (be_bytes 4 (of_nat count :: u32)) (copy_at 0 (be_bytes 8 commitLSN) (zeros 12))"

definition appendCommitFrame :: "bytes \<Rightarrow> i64 \<Rightarrow> nat \<Rightarrow> bytes" where
  "appendCommitFrame dst commitLSN count =
     (let payload = commit_payload commitLSN count;
          start = length dst;
          dst1 = dst @ header commitLSN RecordTypeBatchCommit (length payload);
          dst2 = dst1 @ payload
      in dst2 @ be_bytes 4 (ChecksumIEEE (drop start dst2)))"

definition DecodeRecord :: "bytes \<Rightarrow> wal_error + wal_record" where
  "DecodeRecord frame =
     (if length frame < RecordHeaderSize + RecordCRCSize then Inl ErrCorrupted
      else
        let lsn = be_word (slice 0 8 frame) :: u64; rt = frame ! 8
        in if rt = 0 then Inl ErrCorrupted
           else
             let payloadLen = unat (be_word (slice 9 13 frame) :: u32);
                 expectedLen = RecordHeaderSize + payloadLen + RecordCRCSize
             in if length frame \<noteq> expectedLen then Inl ErrCorrupted
                else if ChecksumIEEE (take (RecordHeaderSize + payloadLen) frame) \<noteq>
                     be_word (drop (RecordHeaderSize + payloadLen) frame)
                then Inl ErrCorrupted
                else Inr \<lparr>rec_LSN = lsn, rec_Type = rt,
                          rec_Payload = slice RecordHeaderSize (RecordHeaderSize + payloadLen) frame\<rparr>)"

subsection \<open>Layout and round trip\<close>

definition wf_record :: "wal_record \<Rightarrow> bool" where
  "wf_record r \<longleftrightarrow> rec_Type r \<noteq> 0 \<and> length (rec_Payload r) \<le> 4294967295"

definition body :: "wal_record \<Rightarrow> bytes" where
  "body r = be_bytes 8 (rec_LSN r) @ [rec_Type r] @ be_bytes 4 (of_nat (length (rec_Payload r)) :: u32) @ rec_Payload r"

definition frame_of :: "wal_record \<Rightarrow> bytes" where
  "frame_of r = body r @ be_bytes 4 (ChecksumIEEE (body r))"

lemma header_layout: "header lsn ty len = be_bytes 8 lsn @ [ty] @ be_bytes 4 (of_nat len :: u32)"
  unfolding header_def Let_def
  by (simp add: copy_at_def be_bytes_numeral numeral_eq_Suc)

lemma appendFrame_layout: "appendFrame dst r = (if wf_record r then Inr (dst @ frame_of r)
    else Inl (if rec_Type r = 0 then ErrInvalidRecordType else ErrPayloadTooLarge))"
  by (simp add: appendFrame_def wf_record_def frame_of_def body_def header_layout Let_def)

lemma EncodeRecord_layout: "wf_record r \<Longrightarrow> EncodeRecord r = Inr (frame_of r)"
  by (simp add: EncodeRecord_def appendFrame_layout)

lemma commit_payload_layout: "commit_payload l n = be_bytes 8 l @ be_bytes 4 (of_nat n :: u32)"
  by (simp add: commit_payload_def copy_at_def)

definition commit_record :: "i64 \<Rightarrow> nat \<Rightarrow> wal_record" where
  "commit_record l n = \<lparr>rec_LSN = l, rec_Type = RecordTypeBatchCommit, rec_Payload = commit_payload l n\<rparr>"

lemma appendCommitFrame_layout: "appendCommitFrame dst l n = dst @ frame_of (commit_record l n)"
  by (simp add: appendCommitFrame_def commit_record_def frame_of_def body_def header_layout commit_payload_layout Let_def)

lemma wf_commit_record: "wf_record (commit_record l n)"
  by (simp add: wf_record_def commit_record_def commit_payload_layout)

lemma length_body: "length (body r) = RecordHeaderSize + length (rec_Payload r)"
  by (simp add: body_def)

lemma length_frame_of: "length (frame_of r) = RecordHeaderSize + length (rec_Payload r) + RecordCRCSize"
  by (simp add: frame_of_def length_body)

lemma unat_payload_length: "length p \<le> 4294967295 \<Longrightarrow> unat (of_nat (length p) :: u32) = length p"
  by (simp add: unat_of_nat take_bit_nat_eq_self)

lemma DecodeRecord_frame_of:
  assumes "wf_record r"
  shows "DecodeRecord (frame_of r) = Inr r"
proof -
  let ?p = "rec_Payload r"
  have b: "frame_of r = be_bytes 8 (rec_LSN r) @ [rec_Type r] @ be_bytes 4 (of_nat (length ?p) :: u32) @ ?p @
      be_bytes 4 (ChecksumIEEE (body r))" by (simp add: frame_of_def body_def)
  have s: "slice 0 8 (frame_of r) = be_bytes 8 (rec_LSN r)" "frame_of r ! 8 = rec_Type r"
    "slice 9 13 (frame_of r) = be_bytes 4 (of_nat (length ?p) :: u32)"
    "slice 13 (13 + length ?p) (frame_of r) = ?p"
    by (simp_all add: b slice_def nth_append)
  have t: "take (13 + length ?p) (frame_of r) = body r" "drop (13 + length ?p) (frame_of r) = be_bytes 4 (ChecksumIEEE (body r))"
    by (simp_all add: frame_of_def length_body)
  have n: "unat (of_nat (length ?p) :: u32) = length ?p" using assms by (intro unat_payload_length) (simp add: wf_record_def)
  show ?thesis
    using assms by (simp add: DecodeRecord_def Let_def s t n length_frame_of wf_record_def)
qed

lemma DecodeRecord_onto:
  assumes "DecodeRecord f = Inr r"
  shows "f = frame_of r \<and> wf_record r"
proof -
  define n where "n = unat (be_word (slice 9 13 f) :: u32)"
  from assms have len: "length f = 13 + n + 4" and ty: "f ! 8 \<noteq> 0"
    and crc: "ChecksumIEEE (take (13 + n) f) = be_word (drop (13 + n) f)"
    and r: "r = \<lparr>rec_LSN = be_word (slice 0 8 f), rec_Type = f ! 8, rec_Payload = slice 13 (13 + n) f\<rparr>"
    by (auto simp: DecodeRecord_def Let_def n_def split: if_splits)
  have lp: "length (rec_Payload r) = n" using len by (simp add: r)
  have "n \<le> 4294967295" using unsigned_less [of "be_word (slice 9 13 f) :: u32", where 'a = nat] by (simp add: n_def)
  then have wf: "wf_record r" using ty lp by (simp add: wf_record_def r)
  have h8: "be_bytes 8 (be_word (slice 0 8 f) :: u64) = slice 0 8 f" using len by (intro be_bytes_be_word) simp_all
  have h9: "be_bytes 4 (of_nat n :: u32) = slice 9 13 f"
    using len be_bytes_be_word [of "slice 9 13 f" 4, where 'a = 32] by (simp add: n_def)
  have one: "slice 8 9 f = [f ! 8]" using len Cons_nth_drop_Suc [of 8 f, symmetric] by (simp add: slice_def)
  have "take (13 + n) f = slice 0 8 f @ slice 8 9 f @ slice 9 13 f @ slice 13 (13 + n) f"
    using slice_split [of 0 8 "13 + n" f] slice_split [of 8 9 "13 + n" f] slice_split [of 9 13 "13 + n" f] by (simp add: slice_def [of 0 "13 + n"])
  then have body: "body r = take (13 + n) f" by (simp add: body_def lp h9) (simp add: r h8 one)
  have "be_bytes 4 (be_word (drop (13 + n) f) :: u32) = drop (13 + n) f" using len by (intro be_bytes_be_word) simp_all
  then have "frame_of r = f" using crc by (simp add: frame_of_def body)
  with wf show ?thesis by simp
qed

subsection \<open>Corruption\<close>

text \<open>One step of the checksum register loses no information: the polynomial's top bit records
  the bit that was shifted out.\<close>

lemma crc_bit_inj: "crc_bit c = crc_bit d \<Longrightarrow> c = d"
proof -
  assume eq: "crc_bit c = crc_bit d"
  have top: "bit (crc_bit x) 31 = bit x 0" for x
    using bit_imp_le_length [of x 32] by (auto simp: crc_bit_def crc_poly_def bit_simps)
  have low: "bit x (Suc n) = (bit (crc_bit x) n \<noteq> (bit x 0 \<and> bit crc_poly n))" if "n < 31" for x :: u32 and n
    using that by (auto simp: crc_bit_def bit_simps)
  show "c = d"
  proof (rule bit_word_eqI)
    fix n assume "n < LENGTH(32)"
    then show "bit c n = bit d n"
      using top [of c] top [of d] eq low [of "n - 1" c] low [of "n - 1" d] by (cases n) auto
  qed
qed

lemma crc_bits_inj: "(crc_bit ^^ n) c = (crc_bit ^^ n) d \<Longrightarrow> c = d"
  by (induction n) (auto dest: crc_bit_inj)

lemma xor_cancel:
  assumes "a XOR c = b XOR (c :: u32)"
  shows "a = b"
proof -
  have "a = (a XOR c) XOR c" by (simp add: xor.assoc)
  also have "\<dots> = b" unfolding assms by (simp add: xor.assoc)
  finally show ?thesis .
qed

lemma crc_byte_inj_state: "crc_byte c b = crc_byte d b \<Longrightarrow> c = d"
  unfolding crc_byte_def by (drule crc_bits_inj) (rule xor_cancel)

lemma crc_byte_inj_byte: "crc_byte c a = crc_byte c b \<Longrightarrow> a = b"
  unfolding crc_byte_def
proof (drule crc_bits_inj)
  assume "c XOR ucast a = c XOR ucast b"
  then have "(ucast a :: u32) XOR c = ucast b XOR c" by (simp only: xor.commute)
  then have "(ucast a :: u32) = ucast b" by (rule xor_cancel)
  then have eq: "bit (ucast a :: u32) n = bit (ucast b :: u32) n" for n by simp
  show "a = b"
  proof (rule bit_word_eqI)
    fix n assume "n < LENGTH(8)"
    with eq [of n] show "bit a n = bit b n" by (simp add: bit_simps)
  qed
qed

lemma foldl_crc_inj: "foldl crc_byte c bs = foldl crc_byte d bs \<Longrightarrow> c = d"
  by (induction bs arbitrary: c d) (auto dest: crc_byte_inj_state)

lemma Checksum_one_byte:
  assumes i: "i < length bs" and b: "b \<noteq> bs ! i"
  shows "ChecksumIEEE (bs[i := b]) \<noteq> ChecksumIEEE bs"
proof
  assume eq: "ChecksumIEEE (bs[i := b]) = ChecksumIEEE bs"
  let ?pre = "take i bs" and ?post = "drop (Suc i) bs"
  have bs: "bs = ?pre @ bs ! i # ?post" using i by (rule id_take_nth_drop)
  have upd: "bs[i := b] = ?pre @ b # ?post" using i by (simp add: upd_conv_take_nth_drop)
  let ?c = "foldl crc_byte (NOT 0) ?pre"
  have "ChecksumIEEE (bs[i := b]) = NOT (foldl crc_byte (crc_byte ?c b) ?post)" by (simp add: ChecksumIEEE_def upd)
  moreover have "ChecksumIEEE bs = NOT (foldl crc_byte (crc_byte ?c (bs ! i)) ?post)"
    by (subst bs) (simp add: ChecksumIEEE_def)
  ultimately have "foldl crc_byte (crc_byte ?c b) ?post = foldl crc_byte (crc_byte ?c (bs ! i)) ?post"
    using eq by (metis bit.double_compl)
  then have "crc_byte ?c b = crc_byte ?c (bs ! i)" by (rule foldl_crc_inj)
  then show False using crc_byte_inj_byte b by blast
qed

lemma DecodeRecord_Inl: "DecodeRecord f = Inl e \<Longrightarrow> e = ErrCorrupted"
  by (auto simp: DecodeRecord_def Let_def split: if_splits)

lemma one_byte_not_canonical:
  assumes wf: "wf_record r" "wf_record r'" and i: "i < length (frame_of r)" and b: "b \<noteq> frame_of r ! i"
    and eq: "(frame_of r)[i := b] = frame_of r'"
  shows False
proof -
  have "length (frame_of r') = length (frame_of r)" using eq by (metis length_list_update)
  then have lp: "length (rec_Payload r') = length (rec_Payload r)" by (simp add: length_frame_of)
  let ?n = "13 + length (rec_Payload r)"
  have split: "frame_of r = body r @ be_bytes 4 (ChecksumIEEE (body r))"
    "frame_of r' = body r' @ be_bytes 4 (ChecksumIEEE (body r'))" by (simp_all add: frame_of_def)
  show False
  proof (cases "i < ?n")
    case True
    then have ib: "i < length (body r)" by (simp add: length_body)
    have "(frame_of r)[i := b] = (body r)[i := b] @ be_bytes 4 (ChecksumIEEE (body r))"
      using ib by (simp add: split list_update_append1)
    with eq split(2) lp have parts: "(body r)[i := b] = body r'" "be_bytes 4 (ChecksumIEEE (body r)) = be_bytes 4 (ChecksumIEEE (body r'))"
      by (simp_all add: length_body)
    have "ChecksumIEEE (body r) = ChecksumIEEE (body r')"
      using arg_cong [OF parts(2), of "be_word :: bytes \<Rightarrow> u32"] by simp
    moreover have "b \<noteq> body r ! i" using b ib by (simp add: split(1) nth_append)
    ultimately show False using Checksum_one_byte [OF ib, of b] parts(1) by simp
  next
    case False
    have "take ?n ((frame_of r)[i := b]) = take ?n (frame_of r)" using False by (intro take_update_cancel) simp
    moreover have "take ?n (frame_of r) = body r" by (simp add: frame_of_def length_body)
    moreover have "take ?n (frame_of r') = body r'" using lp by (simp add: frame_of_def length_body)
    ultimately have "body r = body r'" using eq by simp
    then have "frame_of r' = frame_of r" by (simp add: frame_of_def)
    then show False using i b eq nth_list_update_eq [OF i, of b] by simp
  qed
qed

subsection \<open>Properties of frames\<close>

text \<open>C39: The log's frame format is canonical: a record that can be encoded decodes to itself, and
  the only byte string that decodes to a record is its encoding.\<close>

theorem frames_are_canonical:
  "DecodeRecord f = Inr r \<longleftrightarrow> EncodeRecord r = Inr f"
proof
  assume "DecodeRecord f = Inr r"
  from DecodeRecord_onto [OF this] show "EncodeRecord r = Inr f" by (simp add: EncodeRecord_layout)
next
  assume "EncodeRecord r = Inr f"
  then have "wf_record r" "f = frame_of r" by (auto simp: EncodeRecord_def appendFrame_layout split: if_splits)
  then show "DecodeRecord f = Inr r" by (simp add: DecodeRecord_frame_of)
qed

text \<open>A frame in which any one byte was changed, be it in the header, the payload or the
  checksum, is reported as corrupted.\<close>

theorem one_damaged_byte_is_detected:
  assumes "EncodeRecord r = Inr f" "i < length f" "b \<noteq> f ! i"
  shows "DecodeRecord (f[i := b]) = Inl ErrCorrupted"
proof (cases "DecodeRecord (f[i := b])")
  case (Inl e)
  then show ?thesis using DecodeRecord_Inl by simp
next
  case (Inr r')
  from assms(1) have "wf_record r" "f = frame_of r" by (auto simp: EncodeRecord_def appendFrame_layout split: if_splits)
  with DecodeRecord_onto [OF Inr] assms(2,3) one_byte_not_canonical [of r r' i b] show ?thesis by auto
qed

theorem one_damaged_byte_is_detected_witness:
  "DecodeRecord ((frame_of \<lparr>rec_LSN = 7, rec_Type = 1, rec_Payload = [1, 2]\<rparr>)[13 := 9]) = Inl ErrCorrupted"
proof -
  have "EncodeRecord \<lparr>rec_LSN = 7, rec_Type = 1, rec_Payload = [1, 2]\<rparr> = Inr (frame_of \<lparr>rec_LSN = 7, rec_Type = 1, rec_Payload = [1, 2]\<rparr>)"
    by (rule EncodeRecord_layout) (simp add: wf_record_def)
  from one_damaged_byte_is_detected [OF this, of 13 9] show ?thesis
    by (simp add: frame_of_def body_def nth_append)
qed

end
