(* ===== verification/Wal_Recovery.thy ===== *)
theory Wal_Recovery
  imports Wal_Record
begin

text \<open>
  Recovery of the write-ahead log (\<^verbatim>\<open>internal/wal/recovery.go\<close>, and the tail peek of
  \<^verbatim>\<open>wal.go\<close> it uses). The directory is the list of segment files in ascending order of
  their numbers, as \<^verbatim>\<open>listSegmentIDs\<close> delivers them; a file is its bytes. The handler is a
  state transformer on some \<open>'h\<close> that may report an error of some type \<open>'e\<close>. Errors of the operating system
  (open, read, truncate, remove) are not modelled.

  The theorems say what survives a crash: with the log cut at any byte, recovery hands the
  handler exactly the records of the batches whose commit marker survived, in order, and none
  of a batch that was cut. They also exhibit a case in which recovery destroys a committed
  batch.
\<close>

record replayState =
  rs_pending :: "wal_record list"
  highestLSN :: i64

definition replayState0 :: replayState where
  "replayState0 = \<lparr>rs_pending = [], highestLSN = 0\<rparr>"

type_synonym ('h, 'e) handler = "'h \<Rightarrow> wal_record \<Rightarrow> 'h \<times> 'e option"

fun run_handler :: "('h, 'e) handler \<Rightarrow> 'h \<Rightarrow> wal_record list \<Rightarrow> 'h \<times> 'e option" where
  "run_handler handler h [] = (h, None)"
| "run_handler handler h (r # rs) =
     (case handler h r of (h', None) \<Rightarrow> run_handler handler h' rs | (h', Some e) \<Rightarrow> (h', Some e))"

definition expectedCount :: "wal_record \<Rightarrow> u32" where
  "expectedCount r = (if length (rec_Payload r) \<ge> 12 then be_word (slice 8 12 (rec_Payload r)) else 0)"

text \<open>What \<^verbatim>\<open>replaySegment\<close> returns: whether to stop, the offset past the last commit, an error of
  the handler, and the two pieces of state it updates.\<close>

record ('h, 'e) replay_result =
  rr_stop :: bool
  rr_committedOffset :: nat
  rr_err :: "'e option"
  rr_handler :: 'h
  rr_state :: replayState

function replay_loop :: "('h, 'e) handler \<Rightarrow> bytes \<Rightarrow> nat \<Rightarrow> nat \<Rightarrow> 'h \<Rightarrow> replayState \<Rightarrow> ('h, 'e) replay_result" where
  "replay_loop handler data offset committedOffset h st =
     (let size = length data;
          result = (\<lambda>stop. \<lparr>rr_stop = stop, rr_committedOffset = committedOffset, rr_err = None, rr_handler = h, rr_state = st\<rparr>)
      in if size \<le> offset then result False
         else if size - offset < RecordHeaderSize + RecordCRCSize then result True
         else
           let payloadLen = unat (be_word (slice (offset + 9) (offset + 13) data) :: u32);
               recLen = RecordHeaderSize + payloadLen + RecordCRCSize
           in if offset + recLen > size then result True
              else
                (case DecodeRecord (slice offset (offset + recLen) data) of
                   Inl e \<Rightarrow> result True
                 | Inr rec \<Rightarrow>
                     if rec_Type rec = RecordTypeBatchCommit
                     then
                       if length (rs_pending st) = unat (expectedCount rec)
                       then
                         (case run_handler handler h (rs_pending st) of
                            (h', Some e) \<Rightarrow>
                              \<lparr>rr_stop = False, rr_committedOffset = committedOffset, rr_err = Some e, rr_handler = h', rr_state = st\<rparr>
                          | (h', None) \<Rightarrow>
                              replay_loop handler data (offset + recLen) (offset + recLen) h'
                                (st\<lparr>highestLSN := rec_LSN rec, rs_pending := []\<rparr>))
                       else replay_loop handler data (offset + recLen) committedOffset h (st\<lparr>rs_pending := []\<rparr>)
                     else replay_loop handler data (offset + recLen) committedOffset h
                            (st\<lparr>rs_pending := rs_pending st @ [rec]\<rparr>)))"
  by pat_completeness auto
termination
  by (relation "measure (\<lambda>(handler, data, offset, co, h, st). length data - offset)") auto

declare replay_loop.simps [simp del]

definition replaySegment :: "('h, 'e) handler \<Rightarrow> bytes \<Rightarrow> 'h \<Rightarrow> replayState \<Rightarrow> ('h, 'e) replay_result" where
  "replaySegment handler data h st =
     (if data = [] then \<lparr>rr_stop = False, rr_committedOffset = 0, rr_err = None, rr_handler = h, rr_state = st\<rparr>
      else replay_loop handler data 0 0 h st)"

subsection \<open>Peeking at the last record of a segment\<close>

abbreviation peekTailChunk :: nat where "peekTailChunk \<equiv> 65536"
abbreviation peekResyncBound :: nat where "peekResyncBound \<equiv> 4096"
abbreviation peekMaxPayload :: nat where "peekMaxPayload \<equiv> 1048576"

function walk_frames :: "bytes \<Rightarrow> nat \<Rightarrow> i64 \<Rightarrow> nat \<times> i64" where
  "walk_frames b off lastLSN =
     (if off + RecordHeaderSize + RecordCRCSize > length b then (off, lastLSN)
      else
        let payloadLen = unat (be_word (slice (off + 9) (off + 13) b) :: u32);
            recLen = RecordHeaderSize + payloadLen + RecordCRCSize;
            lsn = be_word (slice off (off + 8) b) :: i64
        in if payloadLen > peekMaxPayload then (off, lastLSN)
           else if off + recLen > length b then (off, lastLSN)
           else if b ! (off + 8) = 0 then (off, lastLSN)
           else if sint lsn \<le> 0 then (off, lastLSN)
           else walk_frames b (off + recLen) lsn)"
  by pat_completeness auto
termination
  by (relation "measure (\<lambda>(b, off, lsn). length b - off)") auto

declare walk_frames.simps [simp del]

definition walkFrameChain :: "bytes \<Rightarrow> nat \<times> i64" where
  "walkFrameChain b = walk_frames b 0 0"

function peek_resync :: "bytes \<Rightarrow> nat \<Rightarrow> nat \<Rightarrow> nat \<Rightarrow> i64 \<Rightarrow> i64" where
  "peek_resync buf limit start bestEnd bestLSN =
     (if limit \<le> start then bestLSN
      else
        let (end', lsn) = walkFrameChain (drop start buf);
            (bestEnd', bestLSN') = (if start + end' > bestEnd then (start + end', lsn) else (bestEnd, bestLSN))
        in if end' = length buf - start then bestLSN'
           else peek_resync buf limit (start + 1) bestEnd' bestLSN')"
  by pat_completeness auto
termination
  by (relation "measure (\<lambda>(buf, limit, start, be, bl). limit - start)") auto

declare peek_resync.simps [simp del]

definition peekSegmentMaxLSN :: "bytes \<Rightarrow> i64" where
  "peekSegmentMaxLSN data =
     (if length data < RecordHeaderSize + RecordCRCSize then 0
      else
        let chunk = min peekTailChunk (length data);
            buf = drop (length data - chunk) data
        in peek_resync buf (min (length buf) peekResyncBound) 0 0 0)"

subsection \<open>Recovering all segments\<close>

type_synonym segment_files = "(nat \<times> bytes) list"

definition minRecordLSN :: "wal_record list \<Rightarrow> int" where
  "minRecordLSN rs = foldl (\<lambda>m r. if sint (rec_LSN r) < m then sint (rec_LSN r) else m) 9223372036854775807 rs"

text \<open>The state of the loop over the segments: handler and replay state, the read segments with
  their committed offsets, the number of the last segment seen, and the index at which a corrupt
  frame stopped the loop.\<close>

record ('h, 'e) scan =
  sc_handler :: 'h
  sc_state :: replayState
  sc_processed :: "(nat \<times> nat) list"
  sc_last :: nat
  sc_stop :: "nat option"
  sc_err :: "'e option"

fun scan_segments :: "('h, 'e) handler \<Rightarrow> i64 \<Rightarrow> nat \<Rightarrow> segment_files \<Rightarrow> ('h, 'e) scan \<Rightarrow> ('h, 'e) scan" where
  "scan_segments handler fromLSN idx [] s = s"
| "scan_segments handler fromLSN idx ((seg_id, data) # rest) s =
     (let s1 = s\<lparr>sc_last := seg_id\<rparr>
      in if sint fromLSN > 0 \<and> rest \<noteq> [] \<and> sint (peekSegmentMaxLSN data) \<le> sint fromLSN
         then scan_segments handler fromLSN (idx + 1) rest s1
         else
           let r = replaySegment handler data (sc_handler s1) (sc_state s1);
               s2 = s1\<lparr>sc_handler := rr_handler r, sc_state := rr_state r\<rparr>
           in (case rr_err r of
                 Some e \<Rightarrow> s2\<lparr>sc_err := Some e\<rparr>
               | None \<Rightarrow>
                   let s3 = s2\<lparr>sc_processed := sc_processed s2 @ [(seg_id, rr_committedOffset r)]\<rparr>
                   in if rr_stop r then s3\<lparr>sc_stop := Some idx\<rparr>
                      else scan_segments handler fromLSN (idx + 1) rest s3))"

definition truncateSegments :: "(nat \<times> nat) list \<Rightarrow> segment_files \<Rightarrow> segment_files" where
  "truncateSegments processed files =
     map (\<lambda>(k, data). case map_of processed k of
        Some off \<Rightarrow> if length data = off then (k, data) else (k, take off data)
      | None \<Rightarrow> (k, data)) files"

record ('h, 'e) recovery =
  rc_LSN :: i64
  rc_lastSegment :: nat
  rc_files :: segment_files
  rc_handler :: 'h
  rc_err :: "'e option"

definition recoverSegments :: "segment_files \<Rightarrow> i64 \<Rightarrow> ('h, 'e) handler \<Rightarrow> 'h \<Rightarrow> ('h, 'e) recovery" where
  "recoverSegments files fromLSN handler h =
     (if files = [] then \<lparr>rc_LSN = 0, rc_lastSegment = 0, rc_files = files, rc_handler = h, rc_err = None\<rparr>
      else
        let s = scan_segments handler fromLSN 0 files
                  \<lparr>sc_handler = h, sc_state = replayState0, sc_processed = [], sc_last = 0, sc_stop = None, sc_err = None\<rparr>
        in (case sc_err s of
              Some e \<Rightarrow> \<lparr>rc_LSN = 0, rc_lastSegment = 0, rc_files = files, rc_handler = sc_handler s, rc_err = Some e\<rparr>
            | None \<Rightarrow>
                let dirty = (sc_stop s \<noteq> None \<or> rs_pending (sc_state s) \<noteq> []);
                    strict = (fromLSN = 0 \<or> minRecordLSN (rs_pending (sc_state s)) > sint fromLSN);
                    cut = truncateSegments (sc_processed s) files;
                    (files', last) =
                      (if dirty \<and> strict
                       then (case sc_stop s of
                               Some k \<Rightarrow> (take (k + 1) cut, fst (files ! k))
                             | None \<Rightarrow> (cut, sc_last s))
                       else (files, sc_last s))
                in \<lparr>rc_LSN = highestLSN (sc_state s), rc_lastSegment = last, rc_files = files',
                    rc_handler = sc_handler s, rc_err = None\<rparr>))"

subsection \<open>Replaying whole frames\<close>

text \<open>The effect of one record on handler, replay state, read offset and committed offset, for a
  handler that does not fail.\<close>

definition total_handler :: "('h, 'e) handler \<Rightarrow> bool" where
  "total_handler handler \<longleftrightarrow> (\<forall>h r. snd (handler h r) = None)"

definition handled :: "('h, 'e) handler \<Rightarrow> 'h \<Rightarrow> wal_record list \<Rightarrow> 'h" where
  "handled handler h rs = fst (run_handler handler h rs)"

lemma run_handler_total: "total_handler handler \<Longrightarrow> run_handler handler h rs = (handled handler h rs, None)"
proof (induction rs arbitrary: h)
  case (Cons r rs)
  obtain h' where "handler h r = (h', None)" using Cons.prems by (metis prod.collapse total_handler_def)
  with Cons show ?case by (simp add: handled_def)
qed (simp add: handled_def)

lemma handled_append: "total_handler handler \<Longrightarrow> handled handler h (rs @ qs) = handled handler (handled handler h rs) qs"
proof (induction rs arbitrary: h)
  case (Cons r rs)
  obtain h' where "handler h r = (h', None)" using Cons.prems by (metis prod.collapse total_handler_def)
  with Cons show ?case by (simp add: handled_def)
qed (simp add: handled_def)

definition feed :: "('h, 'e) handler \<Rightarrow> 'h \<times> replayState \<times> nat \<times> nat \<Rightarrow> wal_record \<Rightarrow> 'h \<times> replayState \<times> nat \<times> nat" where
  "feed handler x r =
     (case x of (h, st, off, co) \<Rightarrow>
        let off' = off + length (frame_of r)
        in if rec_Type r = RecordTypeBatchCommit
           then if length (rs_pending st) = unat (expectedCount r)
                then (handled handler h (rs_pending st), st\<lparr>highestLSN := rec_LSN r, rs_pending := []\<rparr>, off', off')
                else (h, st\<lparr>rs_pending := []\<rparr>, off', co)
           else (h, st\<lparr>rs_pending := rs_pending st @ [r]\<rparr>, off', co))"

lemma replay_one:
  assumes wf: "wf_record r" and tot: "total_handler handler" and data: "data = pre @ frame_of r @ tail"
  shows "replay_loop handler data (length pre) co h st =
     (case feed handler (h, st, length pre, co) r of (h', st', off', co') \<Rightarrow> replay_loop handler data off' co' h' st')"
proof -
  let ?p = "rec_Payload r"
  have fr: "frame_of r = be_bytes 8 (rec_LSN r) @ [rec_Type r] @ be_bytes 4 (of_nat (length ?p) :: u32) @ ?p @
      be_bytes 4 (ChecksumIEEE (body r))" by (simp add: frame_of_def body_def)
  have n: "unat (of_nat (length ?p) :: u32) = length ?p" using wf by (intro unat_payload_length) (simp add: wf_record_def)
  have len: "length (frame_of r) = 17 + length ?p" by (simp add: length_frame_of)
  have hdr: "slice (length pre + 9) (length pre + 13) data = be_bytes 4 (of_nat (length ?p) :: u32)"
    by (simp add: data fr slice_def)
  have raw: "slice (length pre) (length pre + (17 + length ?p)) data = frame_of r"
    using len by (simp add: data slice_def)
  have size: "length data = length pre + (17 + length ?p) + length tail" by (simp add: data len)
  show ?thesis
    by (subst replay_loop.simps)
       (simp add: Let_def hdr n raw DecodeRecord_frame_of [OF wf] feed_def run_handler_total [OF tot] len size)
qed

lemma replay_frames:
  "\<lbrakk> \<forall>r\<in>set rs. wf_record r; total_handler handler; data = pre @ concat (map frame_of rs) @ tail \<rbrakk> \<Longrightarrow>
     replay_loop handler data (length pre) co h st =
       (case foldl (feed handler) (h, st, length pre, co) rs of (h', st', off', co') \<Rightarrow> replay_loop handler data off' co' h' st')"
proof (induction rs arbitrary: pre co h st)
  case (Cons r rs)
  obtain h1 st1 off1 co1 where f: "feed handler (h, st, length pre, co) r = (h1, st1, off1, co1)" by (metis prod_cases4)
  then have off1: "off1 = length (pre @ frame_of r)" by (auto simp: feed_def Let_def split: if_splits)
  have "replay_loop handler data (length pre) co h st = replay_loop handler data off1 co1 h1 st1"
    using replay_one [of r handler data pre "concat (map frame_of rs) @ tail" co h st] Cons.prems f by simp
  also have "\<dots> = (case foldl (feed handler) (h1, st1, off1, co1) rs of (h', st', off', co') \<Rightarrow> replay_loop handler data off' co' h' st')"
    using Cons.IH [of "pre @ frame_of r" co1 h1 st1] Cons.prems off1 by simp
  finally show ?case using f by simp
qed simp

lemma feed_offset:
  "foldl (feed handler) (h, st, off, co) rs = (h', st', off', co') \<Longrightarrow> off' = off + length (concat (map frame_of rs))"
proof (induction rs arbitrary: h st off co)
  case (Cons r rs)
  obtain h1 st1 off1 co1 where f: "feed handler (h, st, off, co) r = (h1, st1, off1, co1)" by (metis prod_cases4)
  then have "off1 = off + length (frame_of r)" by (auto simp: feed_def Let_def split: if_splits)
  with Cons.IH [of h1 st1 off1 co1] Cons.prems f show ?case by simp
qed simp

text \<open>Where the frames end: the segment is exhausted, or a frame that was cut off stops the
  replay.\<close>

lemma replay_end: "replay_loop handler data (length data) co h st =
    \<lparr>rr_stop = False, rr_committedOffset = co, rr_err = None, rr_handler = h, rr_state = st\<rparr>"
  by (subst replay_loop.simps) (simp add: Let_def)

lemma replay_torn:
  assumes wf: "wf_record r" and n: "0 < n" "n < length (frame_of r)"
  shows "replay_loop handler (pre @ take n (frame_of r)) (length pre) co h st =
    \<lparr>rr_stop = True, rr_committedOffset = co, rr_err = None, rr_handler = h, rr_state = st\<rparr>"
proof -
  let ?p = "rec_Payload r" and ?data = "pre @ take n (frame_of r)"
  have len: "length (frame_of r) = 13 + length ?p + 4" by (simp add: length_frame_of)
  have size: "length ?data = length pre + n" using n by simp
  show ?thesis
  proof (cases "n < 17")
    case True
    then show ?thesis using n size by (subst replay_loop.simps) (simp add: Let_def)
  next
    case False
    have t13: "take 13 (frame_of r) = be_bytes 8 (rec_LSN r) @ [rec_Type r] @ be_bytes 4 (of_nat (length ?p) :: u32)"
      by (simp add: frame_of_def body_def)
    have "slice (length pre + 9) (length pre + 13) ?data = drop 9 (take 13 (take n (frame_of r)))"
      using False by (simp add: slice_def drop_take min_def)
    also have "take 13 (take n (frame_of r)) = take 13 (frame_of r)" using False by (simp add: min_def)
    finally have hdr: "slice (length pre + 9) (length pre + 13) ?data = be_bytes 4 (of_nat (length ?p) :: u32)"
      by (simp add: t13)
    have u: "unat (of_nat (length ?p) :: u32) = length ?p" using wf by (intro unat_payload_length) (simp add: wf_record_def)
    have "n < 17 + length ?p" using n len by simp
    then show ?thesis using False n
      by (subst replay_loop.simps) (simp only: Let_def hdr u size, simp add: be_word_be_bytes u)
  qed
qed

subsection \<open>Batches\<close>

text \<open>A batch as \<^verbatim>\<open>AppendBatch\<close> writes it: its records, then the commit marker with their
  number.\<close>

type_synonym batch = "wal_record list \<times> i64"

definition batch_records :: "batch \<Rightarrow> wal_record list" where
  "batch_records b = fst b @ [commit_record (snd b) (length (fst b))]"

definition wf_batch :: "batch \<Rightarrow> bool" where
  "wf_batch b \<longleftrightarrow> (\<forall>r\<in>set (fst b). wf_record r \<and> rec_Type r \<noteq> RecordTypeBatchCommit) \<and> length (fst b) < 4294967296"

definition log_records :: "batch list \<Rightarrow> wal_record list" where
  "log_records bs = concat (map batch_records bs)"

definition frames :: "wal_record list \<Rightarrow> bytes" where
  "frames rs = concat (map frame_of rs)"

definition last_LSN :: "batch list \<Rightarrow> i64" where
  "last_LSN bs = (if bs = [] then 0 else snd (last bs))"

lemma frames_append: "frames (rs @ qs) = frames rs @ frames qs"
  by (simp add: frames_def)

lemma commit_record_sel [simp]: "rec_Type (commit_record l n) = RecordTypeBatchCommit" "rec_LSN (commit_record l n) = l"
  by (simp_all add: commit_record_def)

lemma expectedCount_commit: "n < 4294967296 \<Longrightarrow> unat (expectedCount (commit_record l n)) = n"
  by (simp add: expectedCount_def commit_record_def commit_payload_layout slice_def unat_of_nat take_bit_nat_eq_self)

lemma wf_batch_records: "wf_batch b \<Longrightarrow> \<forall>r\<in>set (batch_records b). wf_record r"
  by (auto simp: wf_batch_def batch_records_def wf_commit_record)

lemma wf_log_records: "\<forall>b\<in>set bs. wf_batch b \<Longrightarrow> \<forall>r\<in>set (log_records bs). wf_record r"
  using wf_batch_records by (fastforce simp: log_records_def)

lemma feed_data:
  "\<forall>r\<in>set rs. rec_Type r \<noteq> RecordTypeBatchCommit \<Longrightarrow>
     foldl (feed handler) (h, st, off, co) rs =
       (h, st\<lparr>rs_pending := rs_pending st @ rs\<rparr>, off + length (frames rs), co)"
  by (induction rs arbitrary: st off) (simp_all add: feed_def frames_def Let_def)

lemma feed_batch:
  assumes "wf_batch b" "rs_pending st = []"
  shows "foldl (feed handler) (h, st, off, co) (batch_records b) =
    (handled handler h (fst b), st\<lparr>highestLSN := snd b\<rparr>, off + length (frames (batch_records b)), off + length (frames (batch_records b)))"
proof -
  have d: "foldl (feed handler) (h, st, off, co) (fst b) = (h, st\<lparr>rs_pending := fst b\<rparr>, off + length (frames (fst b)), co)"
    using assms by (subst feed_data) (auto simp: wf_batch_def)
  show ?thesis
    using assms by (simp add: batch_records_def d feed_def expectedCount_commit wf_batch_def frames_def Let_def)
qed

lemma feed_log:
  "\<lbrakk> \<forall>b\<in>set bs. wf_batch b; rs_pending st = []; total_handler handler \<rbrakk> \<Longrightarrow>
     foldl (feed handler) (h, st, off, co) (log_records bs) =
       (handled handler h (concat (map fst bs)), (if bs = [] then st else st\<lparr>highestLSN := snd (last bs)\<rparr>),
        off + length (frames (log_records bs)), (if bs = [] then co else off + length (frames (log_records bs))))"
proof (induction bs arbitrary: h st off co)
  case (Cons b bs)
  have "foldl (feed handler) (h, st, off, co) (log_records (b # bs)) =
     foldl (feed handler) (handled handler h (fst b), st\<lparr>highestLSN := snd b\<rparr>, off + length (frames (batch_records b)), off + length (frames (batch_records b))) (log_records bs)"
    using Cons.prems by (simp add: log_records_def feed_batch)
  also have "\<dots> = (handled handler (handled handler h (fst b)) (concat (map fst bs)),
       (if bs = [] then st\<lparr>highestLSN := snd b\<rparr> else st\<lparr>highestLSN := snd (last bs)\<rparr>),
       off + length (frames (batch_records b)) + length (frames (log_records bs)),
       (if bs = [] then off + length (frames (batch_records b)) else off + length (frames (batch_records b)) + length (frames (log_records bs))))"
    using Cons.prems by (subst Cons.IH) simp_all
  finally show ?case using Cons.prems(3) by (simp add: log_records_def frames_append handled_append) (simp add: frames_def)
qed (simp add: log_records_def frames_def handled_def)

text \<open>Cutting the bytes of a record list anywhere leaves whole frames and a strict prefix of
  the next one.\<close>

lemma take_frames:
  "n < length (frames rs) \<Longrightarrow>
     \<exists>k m. k < length rs \<and> m < length (frame_of (rs ! k)) \<and> take n (frames rs) = frames (take k rs) @ take m (frame_of (rs ! k))"
proof (induction rs arbitrary: n)
  case (Cons r rs)
  show ?case
  proof (cases "n < length (frame_of r)")
    case True
    then show ?thesis by (intro exI [of _ 0] exI [of _ n]) (simp add: frames_def)
  next
    case False
    with Cons.prems have "n - length (frame_of r) < length (frames rs)" by (simp add: frames_def)
    from Cons.IH [OF this] obtain k m where "k < length rs" "m < length (frame_of (rs ! k))"
      "take (n - length (frame_of r)) (frames rs) = frames (take k rs) @ take m (frame_of (rs ! k))" by blast
    with False show ?thesis by (intro exI [of _ "Suc k"] exI [of _ m]) (simp add: frames_def)
  qed
qed (simp add: frames_def)

text \<open>One segment whose frames are \<open>rs\<close>, followed by a cut-off frame when \<open>0 < m\<close>.\<close>

lemma replaySegment_frames:
  assumes wf: "\<forall>r\<in>set rs. wf_record r" "wf_record q" and m: "m < length (frame_of q)" and tot: "total_handler handler"
    and f: "foldl (feed handler) (h, st, 0, 0) rs = (h', st', off', co')"
  shows "replaySegment handler (frames rs @ take m (frame_of q)) h st =
    \<lparr>rr_stop = (0 < m), rr_committedOffset = co', rr_err = None, rr_handler = h', rr_state = st'\<rparr>"
proof (cases "frames rs @ take m (frame_of q) = []")
  case True
  have "frame_of r \<noteq> []" for r by (simp add: frame_of_def body_def)
  with True have "rs = []" "m = 0" using m by (auto simp: frames_def)
  with f show ?thesis by (simp add: replaySegment_def frames_def)
next
  case False
  let ?d = "frames rs @ take m (frame_of q)"
  have off: "off' = length (frames rs)" using feed_offset [OF f] by (simp add: frames_def)
  have "replay_loop handler ?d 0 0 h st = replay_loop handler ?d off' co' h' st'"
    using replay_frames [of rs handler ?d "[]" "take m (frame_of q)" 0 h st] wf tot f by (simp add: frames_def)
  also have "\<dots> = \<lparr>rr_stop = (0 < m), rr_committedOffset = co', rr_err = None, rr_handler = h', rr_state = st'\<rparr>"
    using replay_torn [OF wf(2) _ m, of handler "frames rs" co' h' st'] replay_end [of handler "frames rs" co' h' st'] off
    by (cases "m = 0") simp_all
  finally show ?thesis using False by (simp add: replaySegment_def)
qed

subsection \<open>All segments\<close>

definition hs_of :: "'h \<times> replayState \<times> nat \<times> nat \<Rightarrow> 'h \<times> replayState" where
  "hs_of x = (fst x, fst (snd x))"

lemma feed_hs: "hs_of x = hs_of y \<Longrightarrow> hs_of (feed handler x r) = hs_of (feed handler y r)"
  by (cases x; cases y) (auto simp: hs_of_def feed_def Let_def)

lemma foldl_feed_hs: "hs_of x = hs_of y \<Longrightarrow> hs_of (foldl (feed handler) x rs) = hs_of (foldl (feed handler) y rs)"
proof (induction rs arbitrary: x y)
  case (Cons r rs)
  show ?case using Cons.IH [OF feed_hs [OF Cons.prems]] by simp
qed simp

definition segment_of :: "nat \<times> wal_record list \<Rightarrow> nat \<times> bytes" where
  "segment_of p = (fst p, frames (snd p))"

lemma scan_frames:
  fixes idx k :: nat and s :: "('h, 'e) scan"
  assumes tot: "total_handler handler" and wf: "\<forall>p\<in>set parts. \<forall>r\<in>set (snd p). wf_record r"
    and rs: "\<forall>r\<in>set rs. wf_record r" and q: "wf_record q" "m < length (frame_of q)" and err: "sc_err s = None"
  defines "res \<equiv> scan_segments handler 0 idx (map segment_of parts @ [(k, frames rs @ take m (frame_of q))]) s"
  shows "(sc_handler res, sc_state res) =
      hs_of (foldl (feed handler) (sc_handler s, sc_state s, 0, 0) (concat (map snd parts) @ rs)) \<and>
    sc_err res = None \<and> sc_stop res = (if 0 < m then Some (idx + length parts) else sc_stop s) \<and> sc_last res = k"
  using wf err unfolding res_def
proof (induction parts arbitrary: s idx)
  case Nil
  obtain h' st' off' co' where f: "foldl (feed handler) (sc_handler s, sc_state s, 0, 0) rs = (h', st', off', co')" by (metis prod_cases4)
  with replaySegment_frames [OF rs q tot f] Nil show ?case by (simp add: Let_def hs_of_def)
next
  case (Cons p parts)
  obtain h' st' off' co' where f: "foldl (feed handler) (sc_handler s, sc_state s, 0, 0) (snd p) = (h', st', off', co')" by (metis prod_cases4)
  have wfp: "\<forall>r\<in>set (snd p). wf_record r" using Cons.prems by simp
  have "replaySegment handler (frames (snd p)) (sc_handler s) (sc_state s) =
      \<lparr>rr_stop = False, rr_committedOffset = co', rr_err = None, rr_handler = h', rr_state = st'\<rparr>"
    using replaySegment_frames [OF wfp q(1) _ tot f, of 0] by (simp add: frame_of_def body_def)
  moreover have "hs_of (foldl (feed handler) (sc_handler s, sc_state s, 0, 0) (concat (map snd (p # parts)) @ rs)) =
      hs_of (foldl (feed handler) (h', st', 0, 0) (concat (map snd parts) @ rs))"
    using f foldl_feed_hs [of "(h', st', off', co')" "(h', st', 0, 0)" handler "concat (map snd parts) @ rs"]
    by (simp add: hs_of_def [of "(h', st', _)"])
  ultimately show ?case
    using Cons.prems Cons.IH [of "s\<lparr>sc_last := fst p, sc_handler := h', sc_state := st', sc_processed := sc_processed s @ [(fst p, co')]\<rparr>" "idx + 1"]
    by (simp add: segment_of_def Let_def)
qed

text \<open>What a crash can leave: all batches of \<open>bs\<close>, spread over the segments in any way, then some
  data records of a batch whose commit marker is missing, and a frame cut off after \<open>m\<close> bytes.\<close>

definition crashed_log :: "(nat \<times> wal_record list) list \<Rightarrow> nat \<Rightarrow> wal_record list \<Rightarrow> wal_record \<Rightarrow> nat \<Rightarrow> segment_files" where
  "crashed_log parts k rs q m = map segment_of parts @ [(k, frames rs @ take m (frame_of q))]"

lemma recover_crashed:
  fixes k :: nat and h :: 'h
  assumes tot: "total_handler handler" and bs: "\<forall>b\<in>set bs. wf_batch b"
    and parts: "concat (map snd parts) @ rs = log_records bs @ extra"
    and extra: "\<forall>r\<in>set extra. wf_record r \<and> rec_Type r \<noteq> RecordTypeBatchCommit"
    and q: "wf_record q" "m < length (frame_of q)"
  defines "rc \<equiv> recoverSegments (crashed_log parts k rs q m) 0 handler h"
  shows "rc_err rc = None" "rc_handler rc = handled handler h (concat (map fst bs))" "rc_LSN rc = last_LSN bs"
    "\<lbrakk> extra = []; m = 0 \<rbrakk> \<Longrightarrow> rc_files rc = crashed_log parts k rs q m \<and> rc_lastSegment rc = k"
proof -
  let ?s = "\<lparr>sc_handler = h, sc_state = replayState0, sc_processed = [], sc_last = 0, sc_stop = None, sc_err = None\<rparr>"
  let ?res = "scan_segments handler 0 0 (crashed_log parts k rs q m) ?s"
  have "set (concat (map snd parts) @ rs) = set (log_records bs @ extra)" using parts by simp
  then have wf: "\<forall>p\<in>set parts. \<forall>r\<in>set (snd p). wf_record r" "\<forall>r\<in>set rs. wf_record r"
    using wf_log_records [OF bs] extra by auto
  define st where "st = (if bs = [] then replayState0 else replayState0\<lparr>highestLSN := snd (last bs)\<rparr>)"
  obtain off co where fl: "foldl (feed handler) (h, replayState0, 0, 0) (log_records bs) =
      (handled handler h (concat (map fst bs)), st, off, co)"
    using feed_log [OF bs _ tot, of replayState0 h 0 0] by (simp add: replayState0_def st_def)
  have st: "rs_pending st = []" "highestLSN st = last_LSN bs"
    by (simp_all add: st_def replayState0_def last_LSN_def)
  have "foldl (feed handler) (h, replayState0, 0, 0) (log_records bs @ extra) =
      (handled handler h (concat (map fst bs)), st\<lparr>rs_pending := extra\<rparr>, off + length (frames extra), co)"
    using extra st by (simp add: fl feed_data)
  with scan_frames [OF tot wf q, of ?s 0 k] parts
  have res: "sc_handler ?res = handled handler h (concat (map fst bs))" "sc_state ?res = st\<lparr>rs_pending := extra\<rparr>"
    "sc_err ?res = None" "sc_stop ?res = (if 0 < m then Some (length parts) else None)" "sc_last ?res = k"
    by (simp_all add: crashed_log_def hs_of_def)
  have ne: "crashed_log parts k rs q m \<noteq> []" by (simp add: crashed_log_def)
  show "rc_err rc = None" "rc_handler rc = handled handler h (concat (map fst bs))" "rc_LSN rc = last_LSN bs"
    using ne res st by (simp_all add: rc_def recoverSegments_def Let_def split: prod.split)
  show "\<lbrakk> extra = []; m = 0 \<rbrakk> \<Longrightarrow> rc_files rc = crashed_log parts k rs q m \<and> rc_lastSegment rc = k"
    using ne res st by (simp add: rc_def recoverSegments_def Let_def)
qed

lemma recover_clean:
  assumes tot: "total_handler handler" and bs: "\<forall>b\<in>set bs. wf_batch b" and parts: "concat (map snd parts) @ rs = log_records bs"
  shows "recoverSegments (map segment_of parts @ [(k, frames rs)]) 0 handler h =
    \<lparr>rc_LSN = last_LSN bs, rc_lastSegment = k, rc_files = map segment_of parts @ [(k, frames rs)],
     rc_handler = handled handler h (concat (map fst bs)), rc_err = None\<rparr>"
proof -
  have "crashed_log parts k rs (commit_record 0 0) 0 = map segment_of parts @ [(k, frames rs)]" by (simp add: crashed_log_def)
  with recover_crashed [OF tot bs, of parts rs "[]" "commit_record 0 0" 0 k h] parts wf_commit_record [of 0 0] show ?thesis
    by (simp add: length_frame_of)
qed


subsection \<open>Crash atomicity\<close>

text \<open>A cut between two frames of the log falls into one batch: everything before it is whole
  batches and data records of this one.\<close>

lemma cut_between_frames:
  "n < length (log_records bs) \<Longrightarrow>
     \<exists>j i. j < length bs \<and> i \<le> length (fst (bs ! j)) \<and> take n (log_records bs) = log_records (take j bs) @ take i (fst (bs ! j))"
proof (induction bs arbitrary: n)
  case (Cons b bs)
  show ?case
  proof (cases "n \<le> length (fst b)")
    case True
    then show ?thesis by (intro exI [of _ 0] exI [of _ n]) (simp add: log_records_def batch_records_def)
  next
    case False
    let ?n = "n - length (batch_records b)"
    have n: "n = length (batch_records b) + ?n" using False by (simp add: batch_records_def)
    have tk: "take n (log_records (b # bs)) = batch_records b @ take ?n (log_records bs)"
      by (subst n) (simp add: log_records_def)
    have "?n < length (log_records bs)" using Cons.prems False by (simp add: log_records_def batch_records_def)
    from Cons.IH [OF this] obtain j i where "j < length bs" "i \<le> length (fst (bs ! j))"
      "take ?n (log_records bs) = log_records (take j bs) @ take i (fst (bs ! j))" by blast
    with tk show ?thesis by (intro exI [of _ "Suc j"] exI [of _ i]) (simp add: log_records_def)
  qed
qed (simp add: log_records_def)

lemma log_records_take_Suc:
  "j < length bs \<Longrightarrow> log_records (take (Suc j) bs) = log_records (take j bs) @ batch_records (bs ! j)"
  by (simp add: log_records_def take_Suc_conv_app_nth)

lemma frame_of_nonempty: "0 < length (frame_of r)"
  by (simp add: frame_of_def body_def)

text \<open>The number of batches whose commit marker lies in the first \<open>N\<close> bytes of the log.\<close>

definition survivors :: "batch list \<Rightarrow> nat \<Rightarrow> nat \<Rightarrow> bool" where
  "survivors bs N j \<longleftrightarrow> j \<le> length bs \<and> length (frames (log_records (take j bs))) \<le> N \<and>
     (j < length bs \<longrightarrow> N < length (frames (log_records (take (Suc j) bs))))"

lemma cut_survivors:
  assumes n: "n < length (log_records bs)" and m: "m < length (frame_of (log_records bs ! n))"
    and j: "j < length bs" and i: "i \<le> length (fst (bs ! j))"
    and tk: "take n (log_records bs) = log_records (take j bs) @ take i (fst (bs ! j))"
  shows "survivors bs (length (frames (take n (log_records bs))) + m) j"
proof -
  have len: "length (take n (log_records bs)) = n" using n by simp
  then have nn: "n = length (log_records (take j bs)) + i" using i by (simp add: tk)
  have pre: "take (Suc n) (log_records bs) = take n (log_records bs) @ [log_records bs ! n]" using n by (rule take_Suc_conv_app_nth)
  have split: "log_records bs = log_records (take (Suc j) bs) @ log_records (drop (Suc j) bs)"
    by (metis append_take_drop_id concat_append log_records_def map_append)
  have "Suc n \<le> length (log_records (take (Suc j) bs))" using nn i j by (simp add: log_records_take_Suc batch_records_def)
  then have "take (Suc n) (log_records bs) = take (Suc n) (log_records (take (Suc j) bs))" by (subst split) simp
  then obtain ys where ys: "log_records (take (Suc j) bs) = take (Suc n) (log_records bs) @ ys" by (metis append_take_drop_id)
  show ?thesis using j m unfolding survivors_def ys pre frames_append by (simp add: tk frames_append frames_def)
qed

lemma cut_log:
  assumes parts: "concat (map snd parts) @ rs @ later = log_records bs" and n: "n \<le> length (frames rs)"
    and bs: "\<forall>b\<in>set bs. wf_batch b"
  obtains j extra rs' q m where "concat (map snd parts) @ rs' = log_records (take j bs) @ extra"
    "\<forall>r\<in>set extra. wf_record r \<and> rec_Type r \<noteq> RecordTypeBatchCommit" "wf_record q" "m < length (frame_of q)"
    "take n (frames rs) = frames rs' @ take m (frame_of q)"
    "survivors bs (length (frames (concat (map snd parts))) + n) j"
    "n = length (frames rs) \<and> later = [] \<Longrightarrow> extra = [] \<and> m = 0 \<and> j = length bs"
proof (cases "n = length (frames rs) \<and> later = []")
  case True
  have "survivors bs (length (frames (concat (map snd parts))) + n) (length bs)"
    using True parts frames_append [of "concat (map snd parts)" rs] by (simp add: survivors_def)
  with True parts frame_of_nonempty [of "commit_record 0 0"] show ?thesis
    by (intro that [of rs "length bs" "[]" "commit_record 0 0" 0]) (simp_all add: wf_commit_record)
next
  case False
  obtain k m where k: "k \<le> length rs" "length (concat (map snd parts)) + k < length (log_records bs)"
    and m: "m < length (frame_of (log_records bs ! (length (concat (map snd parts)) + k)))"
    and tk: "take n (frames rs) = frames (take k rs) @ take m (frame_of (log_records bs ! (length (concat (map snd parts)) + k)))"
  proof (cases "n = length (frames rs)")
    case True
    with False have "later \<noteq> []" by simp
    then have "length (concat (map snd parts)) + length rs < length (log_records bs)" by (simp flip: parts)
    with True frame_of_nonempty show ?thesis by (intro that [of "length rs" 0]) simp_all
  next
    case False
    with n take_frames [of n rs] obtain k m where "k < length rs" "m < length (frame_of (rs ! k))"
      "take n (frames rs) = frames (take k rs) @ take m (frame_of (rs ! k))" by auto
    moreover have "log_records bs ! (length (concat (map snd parts)) + k) = rs ! k"
      using \<open>k < length rs\<close> by (simp add: nth_append flip: parts)
    moreover have "length (concat (map snd parts)) + k < length (log_records bs)" using \<open>k < length rs\<close> by (simp flip: parts)
    ultimately show ?thesis by (intro that [of k m]) simp_all
  qed
  let ?n = "length (concat (map snd parts)) + k" and ?q = "log_records bs ! (length (concat (map snd parts)) + k)"
  obtain j i where ji: "j < length bs" "i \<le> length (fst (bs ! j))"
    "take ?n (log_records bs) = log_records (take j bs) @ take i (fst (bs ! j))" using cut_between_frames [OF k(2)] by blast
  have whole: "take ?n (log_records bs) = concat (map snd parts) @ take k rs" using k(1) by (simp flip: parts)
  have "length (take n (frames rs)) = length (frames (take k rs)) + m" using m by (simp add: tk)
  then have N: "length (frames (take ?n (log_records bs))) + m = length (frames (concat (map snd parts))) + n"
    using n by (simp add: whole frames_append)
  have "survivors bs (length (frames (concat (map snd parts))) + n) j" using cut_survivors [OF k(2) m ji] N by simp
  moreover have "wf_record ?q" using wf_log_records [OF bs] k(2) by simp
  moreover have "\<forall>r\<in>set (take i (fst (bs ! j))). wf_record r \<and> rec_Type r \<noteq> RecordTypeBatchCommit"
    using bs ji(1) by (fastforce simp: wf_batch_def dest: in_set_takeD)
  ultimately show ?thesis using False whole ji m tk
    by (intro that [of "take k rs" j "take i (fst (bs ! j))" ?q m]) simp_all
qed

lemma recover_cut_log:
  fixes k :: nat and h :: 'h
  assumes "\<forall>b\<in>set bs. wf_batch b" and "concat (map snd parts) @ rs @ later = log_records bs"
    and "n \<le> length (frames rs)" and "total_handler handler"
  shows "\<exists>j. survivors bs (length (frames (concat (map snd parts))) + n) j \<and>
    (let rc = recoverSegments (map segment_of parts @ [(k, take n (frames rs))]) 0 handler h
     in rc_err rc = None \<and> rc_handler rc = handled handler h (concat (map fst (take j bs))) \<and>
        rc_LSN rc = last_LSN (take j bs) \<and>
        (n = length (frames rs) \<and> later = [] \<longrightarrow> j = length bs \<and> rc_files rc = map segment_of parts @ [(k, frames rs)]))"
proof -
  obtain j extra rs' q m where p: "concat (map snd parts) @ rs' = log_records (take j bs) @ extra"
    "\<forall>r\<in>set extra. wf_record r \<and> rec_Type r \<noteq> RecordTypeBatchCommit" "wf_record q" "m < length (frame_of q)"
    and tk: "take n (frames rs) = frames rs' @ take m (frame_of q)"
    and sv: "survivors bs (length (frames (concat (map snd parts))) + n) j"
    and cl: "n = length (frames rs) \<and> later = [] \<Longrightarrow> extra = [] \<and> m = 0 \<and> j = length bs"
    using cut_log [OF assms(2,3,1)] by metis
  have bs: "\<forall>b\<in>set (take j bs). wf_batch b" using assms(1) by (meson in_set_takeD)
  note rc = recover_crashed [OF assms(4) bs p, of k h]
  from sv rc cl tk show ?thesis unfolding crashed_log_def by (intro exI [of _ j]) (auto simp: Let_def)
qed


text \<open>C8: crash atomicity of the log. Take any batches written one after the other over any
  segments, and any cut of the last surviving segment at a byte offset. Recovery succeeds, hands
  the handler exactly the data records of the batches whose commit marker survived, each once
  and in order, reports the LSN of the last of them, and leaves a log that was not cut
  untouched.\<close>

theorem recovery_is_crash_atomic:
  fixes k :: nat and h :: 'h
  assumes "\<forall>b\<in>set bs. wf_batch b" and "concat (map snd parts) @ rs @ later = log_records bs"
    and "n \<le> length (frames rs)" and "total_handler handler"
  shows "\<exists>j. survivors bs (length (frames (concat (map snd parts))) + n) j \<and>
    (let rc = recoverSegments (map segment_of parts @ [(k, take n (frames rs))]) 0 handler h
     in rc_err rc = None \<and> rc_handler rc = handled handler h (concat (map fst (take j bs))) \<and>
        rc_LSN rc = last_LSN (take j bs) \<and>
        (n = length (frames rs) \<and> later = [] \<longrightarrow> j = length bs \<and> rc_files rc = map segment_of parts @ [(k, frames rs)]))"
  using recover_cut_log [OF assms] .

text \<open>A handler that collects the records, and three batches of one record each.\<close>

definition log_handler :: "(wal_record list, wal_error) handler" where
  "log_handler h r = (h @ [r], None)"

definition sample_record :: "i64 \<Rightarrow> wal_record" where
  "sample_record lsn = \<lparr>rec_LSN = lsn, rec_Type = RecordTypeTransfer, rec_Payload = [7, 8]\<rparr>"

definition sample_batch :: "i64 \<Rightarrow> batch" where
  "sample_batch lsn = ([sample_record lsn], lsn + 1)"

lemma total_log_handler: "total_handler log_handler"
  by (simp add: total_handler_def log_handler_def)

lemma handled_log_handler: "handled log_handler h rs = h @ rs"
proof -
  have "run_handler log_handler h rs = (h @ rs, None)"
    by (induction rs arbitrary: h) (simp_all add: log_handler_def)
  then show ?thesis by (simp add: handled_def)
qed

lemma wf_sample_record: "wf_record (sample_record l) \<and> rec_Type (sample_record l) \<noteq> RecordTypeBatchCommit"
  by (simp add: wf_record_def sample_record_def)

lemma wf_sample_batch: "wf_batch (sample_batch l)"
  by (simp add: wf_batch_def sample_batch_def wf_sample_record)

lemma length_sample_batch: "length (frames (batch_records (sample_batch l))) = 48"
  by (simp add: frames_def batch_records_def sample_batch_def length_frame_of sample_record_def commit_record_def commit_payload_layout)

text \<open>Witness: of two batches, the second cut inside its commit marker, only the first is
  delivered.\<close>

theorem recovery_is_crash_atomic_witness:
  "rc_handler (recoverSegments [(0, take 90 (frames (log_records [sample_batch 1, sample_batch 3])))] 0 log_handler []) =
     [sample_record 1]"
proof -
  let ?bs = "[sample_batch 1, sample_batch 3]"
  have len: "length (frames (log_records ?bs)) = 96"
    by (simp add: log_records_def frames_append length_sample_batch)
  have "\<exists>j. survivors ?bs 90 j \<and>
      rc_handler (recoverSegments [(0, take 90 (frames (log_records ?bs)))] 0 log_handler []) =
        handled log_handler [] (concat (map fst (take j ?bs)))"
    using recovery_is_crash_atomic [of ?bs "[]" "log_records ?bs" "[]" 90 log_handler 0 "[]"]
    by (auto simp: wf_sample_batch total_log_handler len Let_def frames_def [of "[]"])
  then obtain j where j: "survivors ?bs 90 j"
    and r: "rc_handler (recoverSegments [(0, take 90 (frames (log_records ?bs)))] 0 log_handler []) =
        handled log_handler [] (concat (map fst (take j ?bs)))" by blast
  have "j = 1"
  proof (rule ccontr)
    assume "j \<noteq> 1"
    with j have "j = 0 \<or> j = 2" by (auto simp: survivors_def)
    with j show False
      by (auto simp: survivors_def log_records_def frames_append length_sample_batch frames_def [of "[]"])
  qed
  with r show ?thesis by (simp add: handled_log_handler sample_batch_def)
qed

subsection \<open>A batch that straddles two segments\<close>

text \<open>C37: Recovery of a log that ends in uncommitted records cuts every segment behind the last
  commit marker in that segment, and this can destroy a committed batch. Let batch \<open>A\<close> and the
  records of batch \<open>B\<close> be in the first segment, the commit marker of \<open>B\<close> and one uncommitted
  record in the second. Recovery replays \<open>A\<close> and \<open>B\<close> and reports the LSN of \<open>B\<close>, but the files
  it leaves behind no longer hold the records of \<open>B\<close>: the next recovery replays \<open>A\<close> only.\<close>

theorem straddling_batch_is_lost:
  fixes h :: 'h
  assumes "wf_batch A" and "wf_batch B" and "fst B \<noteq> []" and "wf_record r" and "rec_Type r \<noteq> RecordTypeBatchCommit"
    and "total_handler handler"
  shows "let rc = recoverSegments [(1, frames (batch_records A @ fst B)), (2, frames [commit_record (snd B) (length (fst B)), r])] 0 handler h;
      again = recoverSegments (rc_files rc) 0 handler h
    in rc_err rc = None \<and> rc_handler rc = handled handler h (fst A @ fst B) \<and> rc_LSN rc = snd B \<and>
       rc_err again = None \<and> rc_handler again = handled handler h (fst A) \<and> rc_LSN again = snd A"
proof -
  let ?c = "commit_record (snd B) (length (fst B))"
  define hA where "hA = handled handler h (fst A)"
  define hB where "hB = handled handler hA (fst B)"
  define nA where "nA = length (frames (batch_records A))"
  have c: "unat (expectedCount ?c) = length (fst B)" using assms by (simp add: expectedCount_commit wf_batch_def)
  have z: "replaySegment handler (frames rs) h' st =
      \<lparr>rr_stop = False, rr_committedOffset = co', rr_err = None, rr_handler = h'', rr_state = st'\<rparr>"
    if "\<forall>q\<in>set rs. wf_record q" "foldl (feed handler) (h', st, 0, 0) rs = (h'', st', off', co')" for rs h' st st' h'' off' co'
    using replaySegment_frames [OF that(1) assms(4) _ assms(6) that(2), of 0] frame_of_nonempty by simp
  have A: "foldl (feed handler) (h, replayState0, 0, 0) (batch_records A) = (hA, replayState0\<lparr>highestLSN := snd A\<rparr>, nA, nA)"
    using assms by (simp add: feed_batch replayState0_def hA_def nA_def)
  have wfA: "\<forall>q\<in>set (batch_records A). wf_record q" by (rule wf_batch_records) (rule assms)
  have wfB: "\<forall>q\<in>set (fst B). wf_record q" "\<forall>q\<in>set (fst B). rec_Type q \<noteq> RecordTypeBatchCommit"
    using assms by (auto simp: wf_batch_def)
  have s1: "replaySegment handler (frames (batch_records A @ fst B)) h replayState0 =
      \<lparr>rr_stop = False, rr_committedOffset = nA, rr_err = None, rr_handler = hA,
       rr_state = \<lparr>rs_pending = fst B, highestLSN = snd A\<rparr>\<rparr>"
    by (rule z) (use wfA wfB in \<open>auto simp: A feed_data\<close>, simp add: replayState0_def)
  have s2: "replaySegment handler (frames [?c, r]) hA \<lparr>rs_pending = fst B, highestLSN = snd A\<rparr> =
      \<lparr>rr_stop = False, rr_committedOffset = length (frame_of ?c), rr_err = None, rr_handler = hB,
       rr_state = \<lparr>rs_pending = [r], highestLSN = snd B\<rparr>\<rparr>"
    by (rule z) (use assms wf_commit_record in \<open>auto simp: feed_def c Let_def hB_def\<close>)
  have files: "rc_files (recoverSegments [(1, frames (batch_records A @ fst B)), (2, frames [?c, r])] 0 handler h) =
      [(1, frames (batch_records A)), (2, frames [?c])]"
    by (simp add: recoverSegments_def s1 s2 Let_def truncateSegments_def) (simp add: nA_def frames_def)
  have s1': "replaySegment handler (frames (batch_records A)) h replayState0 =
      \<lparr>rr_stop = False, rr_committedOffset = nA, rr_err = None, rr_handler = hA, rr_state = replayState0\<lparr>highestLSN := snd A\<rparr>\<rparr>"
    by (rule z) (use wfA in \<open>auto simp: A\<close>)
  have s2': "replaySegment handler (frames [?c]) hA (replayState0\<lparr>highestLSN := snd A\<rparr>) =
      \<lparr>rr_stop = False, rr_committedOffset = 0, rr_err = None, rr_handler = hA, rr_state = replayState0\<lparr>highestLSN := snd A\<rparr>\<rparr>"
    by (rule z) (use assms wf_commit_record in \<open>auto simp: feed_def c Let_def replayState0_def\<close>)
  have "hB = handled handler h (fst A @ fst B)" using assms by (simp add: hB_def hA_def handled_append)
  then show ?thesis
    unfolding Let_def files by (simp add: recoverSegments_def s1 s2 s1' s2' Let_def) (simp add: hA_def replayState0_def)
qed

theorem straddling_batch_is_lost_witness:
  "rc_handler (recoverSegments (rc_files (recoverSegments
       [(1, frames (batch_records (sample_batch 1) @ [sample_record 3])), (2, frames [commit_record 4 1, sample_record 5])]
       0 log_handler [])) 0 log_handler []) = [sample_record 1]"
  using straddling_batch_is_lost [of "sample_batch 1" "sample_batch 3" "sample_record 5" log_handler "[]"]
  by (simp add: wf_sample_batch wf_sample_record total_log_handler handled_log_handler Let_def)
     (simp add: sample_batch_def)

end
