(* ===== verification/Wal_Log.thy ===== *)
theory Wal_Log
  imports Wal_Recovery "HOL-Library.Sublist"
begin

text \<open>
  The write-ahead log (\<^verbatim>\<open>internal/wal/wal.go\<close>, \<^verbatim>\<open>segment.go\<close>): appending a batch with its
  commit marker, rotation, syncing, truncation below a snapshot, reset and recovery. The
  directory is a list of segment files in ascending order of their numbers. Buffered
  and direct I/O are modelled; preallocation (which keeps the file size) and errors of the
  operating system are not. \<^verbatim>\<open>frameEnds\<close> keeps its 32-bit integers.

  The lemmas show that \<^verbatim>\<open>AppendBatch\<close> adds whole frames with consecutive LSNs and never splits
  one over two segments, and that a batch is durable once \<^verbatim>\<open>Sync\<close> has returned: a crash that
  loses any part of the bytes that were not synced leaves a log from which recovery delivers
  at least the synced batches and at most the appended ones.
\<close>

type_synonym i32 = "32 word"

abbreviation DefaultSegmentSize :: int where "DefaultSegmentSize \<equiv> 67108864"

abbreviation DirectIOBlockSize :: nat where "DirectIOBlockSize \<equiv> 4096"

record directIOBuffer =
  block :: bytes
  blockOffset :: nat
  buffered :: nat

text \<open>\<^verbatim>\<open>directBuf\<close> is present exactly in the segments opened for direct I/O.\<close>

record segment =
  seg_id :: nat
  maxSize :: int
  writeOffset :: nat
  syncedOffset :: nat
  directBuf :: "directIOBuffer option"

record wal =
  segmentSize :: int
  directIO :: bool
  wal_files :: segment_files
  wal_current :: segment
  currentID :: nat
  wal_currentLSN :: i64

subsection \<open>Files\<close>

fun put_file :: "nat \<Rightarrow> bytes \<Rightarrow> segment_files \<Rightarrow> segment_files" where
  "put_file k d [] = [(k, d)]"
| "put_file k d ((k', d') # fs) =
     (if k < k' then (k, d) # (k', d') # fs
      else if k = k' then (k, d) # fs
      else (k', d') # put_file k d fs)"

text \<open>Writing through an open file changes its contents, not the directory.\<close>

definition update_file :: "nat \<Rightarrow> bytes \<Rightarrow> segment_files \<Rightarrow> segment_files" where
  "update_file k d fs = map (\<lambda>(k', d'). if k' = k then (k', d) else (k', d')) fs"

definition file_bytes :: "segment_files \<Rightarrow> nat \<Rightarrow> bytes" where
  "file_bytes fs k = (case map_of fs k of Some d \<Rightarrow> d | None \<Rightarrow> [])"

definition WriteAt :: "bytes \<Rightarrow> bytes \<Rightarrow> nat \<Rightarrow> bytes" where
  "WriteAt data p off = copy_at off p (data @ zeros (off - length data))"

subsection \<open>Direct I/O\<close>

definition newDirectIOBuffer :: "nat \<Rightarrow> directIOBuffer" where
  "newDirectIOBuffer initialFileOffset =
     (let alignedOffset = initialFileOffset div DirectIOBlockSize * DirectIOBlockSize
      in \<lparr>block = zeros DirectIOBlockSize, blockOffset = alignedOffset, buffered = initialFileOffset - alignedOffset\<rparr>)"

definition flush :: "directIOBuffer \<Rightarrow> bytes \<Rightarrow> nat \<Rightarrow> directIOBuffer \<times> bytes" where
  "flush d data targetOffset =
     (if blockOffset d + buffered d \<le> blockOffset d \<and> targetOffset = blockOffset d then (d, data)
      else
        let blk = (if buffered d < DirectIOBlockSize
                   then take (buffered d) (block d) @ zeros (DirectIOBlockSize - buffered d) else block d)
        in (d\<lparr>block := blk\<rparr>, WriteAt data blk (blockOffset d)))"

text \<open>The copy loop of \<^verbatim>\<open>Segment.Write\<close>.\<close>

function direct_write :: "directIOBuffer \<Rightarrow> bytes \<Rightarrow> bytes \<Rightarrow> directIOBuffer \<times> bytes" where
  "direct_write d data src =
     (if src = [] then (d, data)
      else
        let space0 = DirectIOBlockSize - buffered d;
            (d1, data1) =
              (if space0 = 0
               then (let (d', data') = flush d data (blockOffset d + DirectIOBlockSize)
                     in (d'\<lparr>blockOffset := blockOffset d' + DirectIOBlockSize, buffered := 0\<rparr>, data'))
               else (d, data));
            space = (if space0 = 0 then DirectIOBlockSize else space0);
            chunk = min (length src) space;
            d2 = d1\<lparr>block := copy_at (buffered d1) (take chunk src) (block d1), buffered := buffered d1 + chunk\<rparr>
        in direct_write d2 data1 (drop chunk src))"
  by pat_completeness auto
termination
  by (relation "measure (\<lambda>(d, data, src). length src)") auto

declare direct_write.simps [simp del]

text \<open>Aligned memory: a slice of a larger allocation at address \<open>ptr\<close> that starts at a multiple of the block size. A
  buffer is the address and the length of a slice.\<close>

definition NewAlignedBuffer :: "nat \<Rightarrow> nat \<Rightarrow> int \<Rightarrow> nat \<times> nat" where
  "NewAlignedBuffer ptr n alignment =
     (if alignment \<le> 0 then (ptr, n)
      else
        let offset = nat ((alignment - int ptr mod alignment) mod alignment)
        in (ptr + offset, n))"

definition IsAligned :: "nat \<times> nat \<Rightarrow> int \<Rightarrow> bool" where
  "IsAligned p alignment \<longleftrightarrow> (if snd p = 0 \<or> alignment \<le> 0 then True else int (fst p) mod alignment = 0)"

lemma aligned_buffer:
  "IsAligned (NewAlignedBuffer ptr n alignment) alignment"
  "0 < alignment \<Longrightarrow> ptr \<le> fst (NewAlignedBuffer ptr n alignment) \<and> fst (NewAlignedBuffer ptr n alignment) + n < ptr + (n + nat alignment)"
proof -
  have "(int ptr + (alignment - int ptr mod alignment) mod alignment) mod alignment = 0" if "0 < alignment"
    using that by (simp add: mod_add_right_eq)
  then show "IsAligned (NewAlignedBuffer ptr n alignment) alignment" by (simp add: IsAligned_def NewAlignedBuffer_def Let_def)
  show "0 < alignment \<Longrightarrow> ptr \<le> fst (NewAlignedBuffer ptr n alignment) \<and> fst (NewAlignedBuffer ptr n alignment) + n < ptr + (n + nat alignment)"
    by (simp add: NewAlignedBuffer_def Let_def nat_less_iff)
qed

subsection \<open>Segments\<close>

text \<open>\<open>direct\<close>: direct I/O is wanted and the file system grants it.\<close>

definition openSegment :: "segment_files \<Rightarrow> nat \<Rightarrow> int \<Rightarrow> bool \<Rightarrow> segment_files \<times> segment" where
  "openSegment fs k mx direct =
     (let mx' = (if mx \<le> 0 then DefaultSegmentSize else mx);
          data = file_bytes fs k
      in (put_file k data fs,
          \<lparr>seg_id = k, maxSize = mx', writeOffset = length data, syncedOffset = length data,
           directBuf = (if direct then Some (newDirectIOBuffer (length data)) else None)\<rparr>))"

definition IsFull :: "segment \<Rightarrow> int \<Rightarrow> bool" where
  "IsFull s nextWriteBytes = (if nextWriteBytes < 0 then True else int (writeOffset s) + nextWriteBytes > maxSize s)"

definition seg_Write :: "segment \<Rightarrow> bytes \<Rightarrow> bytes \<Rightarrow> segment \<times> bytes \<times> wal_error option" where
  "seg_Write s data p =
     (if IsFull s (int (length p)) then (s, data, Some ErrSegmentFull)
      else
        (case directBuf s of
           Some d \<Rightarrow>
             let (d', data') = direct_write d data p
             in (s\<lparr>writeOffset := writeOffset s + length p, directBuf := Some d'\<rparr>, data', None)
         | None \<Rightarrow> (s\<lparr>writeOffset := writeOffset s + length p\<rparr>, WriteAt data p (writeOffset s), None)))"

definition seg_Sync :: "segment \<Rightarrow> bytes \<Rightarrow> segment \<times> bytes" where
  "seg_Sync s data =
     (case directBuf s of
        Some d \<Rightarrow>
          let (d', data') = flush d data (writeOffset s)
          in (s\<lparr>directBuf := Some d', syncedOffset := writeOffset s\<rparr>, data')
      | None \<Rightarrow> (s\<lparr>syncedOffset := writeOffset s\<rparr>, data))"

definition seg_Truncate :: "segment \<Rightarrow> bytes \<Rightarrow> int \<Rightarrow> segment \<times> bytes" where
  "seg_Truncate s data len =
     (let n = (if len < 0 then 0 else nat len)
      in (s\<lparr>writeOffset := n, directBuf := (case directBuf s of Some _ \<Rightarrow> Some (newDirectIOBuffer n) | None \<Rightarrow> None)\<rparr>,
          take n data @ zeros (n - length data)))"

subsection \<open>The log\<close>

definition OpenWAL :: "segment_files \<Rightarrow> int \<Rightarrow> bool \<Rightarrow> wal" where
  "OpenWAL fs mx direct =
     (let mx' = (if mx \<le> 0 then DefaultSegmentSize else mx);
          k = (if fs = [] then 1 else fst (last fs));
          (fs', seg) = openSegment fs k mx' direct
      in \<lparr>segmentSize = mx', directIO = direct, wal_files = fs', wal_current = seg, currentID = k, wal_currentLSN = 0\<rparr>)"

definition Sync :: "wal \<Rightarrow> wal" where
  "Sync w =
     (let k = seg_id (wal_current w);
          (seg, data) = seg_Sync (wal_current w) (file_bytes (wal_files w) k)
      in w\<lparr>wal_current := seg, wal_files := update_file k data (wal_files w)\<rparr>)"

definition rotateLocked :: "wal \<Rightarrow> wal" where
  "rotateLocked w =
     (let w0 = Sync w;
          k = currentID w0 + 1;
          (fs', seg) = openSegment (wal_files w0) k (segmentSize w0) (directIO w0)
      in w0\<lparr>currentID := k, wal_files := fs', wal_current := seg\<rparr>)"

definition wal_Write :: "wal \<Rightarrow> bytes \<Rightarrow> wal \<times> wal_error option" where
  "wal_Write w p =
     (let k = seg_id (wal_current w);
          (seg, data, err) = seg_Write (wal_current w) (file_bytes (wal_files w) k) p
      in (w\<lparr>wal_current := seg, wal_files := update_file k data (wal_files w)\<rparr>, err))"

text \<open>The inner loop of \<^verbatim>\<open>writeBuffered\<close>: the largest prefix of the remaining buffer that ends at
  a frame boundary and fits. The list of the frame ends not yet passed stands for the index
  \<^verbatim>\<open>fi\<close>.\<close>

fun fit_frames :: "int \<Rightarrow> nat \<Rightarrow> i32 list \<Rightarrow> int \<Rightarrow> int \<times> i32 list" where
  "fit_frames space written [] e = (e, [])"
| "fit_frames space written (f # fs) e =
     (if sint (f - of_nat written) \<le> space then fit_frames space written fs (sint f) else (e, f # fs))"

text \<open>The loop ends: every turn writes at least one frame, or steps over a segment file that
  exists already, or moves to a fresh file in which the whole segment size is free.\<close>

definition ids_above :: "wal \<Rightarrow> nat" where
  "ids_above w = card {k \<in> fst ` set (wal_files w). currentID w < k}"

definition lacks_space :: "wal \<Rightarrow> nat" where
  "lacks_space w = (if maxSize (wal_current w) - int (writeOffset (wal_current w)) < segmentSize w then 1 else 0)"

lemma fst_set_put_file: "fst ` set (put_file k d fs) = insert k (fst ` set fs)"
  by (induction k d fs rule: put_file.induct) auto

lemma fst_set_update_file: "fst ` set (update_file k d fs) = fst ` set fs"
  by (induction fs) (auto simp: update_file_def)

lemma Sync_frame [simp]:
  "fst ` set (wal_files (Sync w)) = fst ` set (wal_files w)" "currentID (Sync w) = currentID w"
  "segmentSize (Sync w) = segmentSize w" "wal_currentLSN (Sync w) = wal_currentLSN w" "directIO (Sync w) = directIO w"
  by (simp_all add: Sync_def fst_set_update_file Let_def case_prod_beta)

lemma rotate_measure:
  "ids_above (rotateLocked w) < ids_above w \<or> ids_above (rotateLocked w) = ids_above w \<and> lacks_space (rotateLocked w) = 0"
proof (cases "currentID w + 1 \<in> fst ` set (wal_files w)")
  case True
  have "{k \<in> fst ` set (wal_files (rotateLocked w)). currentID (rotateLocked w) < k} \<subset> {k \<in> fst ` set (wal_files w). currentID w < k}"
    using True by (auto simp: rotateLocked_def openSegment_def fst_set_put_file Let_def)
  then show ?thesis unfolding ids_above_def by (intro disjI1 psubset_card_mono) auto
next
  case False
  have "{k \<in> insert (currentID w + 1) (fst ` set (wal_files w)). currentID w + 1 < k} = {k \<in> fst ` set (wal_files w). currentID w < k}"
    using False by (auto simp: less_Suc_eq) (metis Suc_lessI fst_conv image_eqI)
  moreover have "map_of (wal_files (Sync w)) (currentID w + 1) = None" using False by (simp add: map_of_eq_None_iff)
  ultimately show ?thesis
    by (auto simp: ids_above_def lacks_space_def rotateLocked_def openSegment_def fst_set_put_file file_bytes_def Let_def)
qed

function write_loop :: "wal \<Rightarrow> bytes \<Rightarrow> nat \<Rightarrow> i32 list \<Rightarrow> wal \<times> wal_error option" where
  "write_loop w buf written ends =
     (if length buf \<le> written then (w, None)
      else
        let w1 = (if IsFull (wal_current w) 1 then rotateLocked w else w);
            space = maxSize (wal_current w1) - int (writeOffset (wal_current w1));
            fit = fit_frames space written ends (int written);
            e = fst fit;
            ends' = snd fit
        in if e = int written
           then
             if space < segmentSize w1 then write_loop (rotateLocked w1) buf written ends'
             else (w1, Some (case ends' of
                     [] \<Rightarrow> SliceBoundsPanic
                   | f # _ \<Rightarrow> ErrRecordTooLarge (sint f - int written) (segmentSize w1)))
           else if e < int written \<or> int (length buf) < e then (w1, Some SliceBoundsPanic)
           else
             (case wal_Write w1 (slice written (nat e) buf) of
                (w2, Some err) \<Rightarrow> (w2, Some err)
              | (w2, None) \<Rightarrow> write_loop w2 buf (nat e) ends'))"
  by pat_completeness auto

termination
proof (relation "measures [\<lambda>(w, buf, written, ends). length buf - written, \<lambda>(w, buf, written, ends). ids_above w, \<lambda>(w, buf, written, ends). lacks_space w]", goal_cases)
  case (2 w buf written ends w1 space fit e ends')
  have "lacks_space w1 = 1" using 2 by (simp add: lacks_space_def)
  with rotate_measure [of w] rotate_measure [of w1] 2 show ?case by (auto split: if_splits)
qed (auto simp: nat_less_iff)

declare write_loop.simps [simp del]

definition writeBuffered :: "wal \<Rightarrow> bytes \<Rightarrow> i32 list \<Rightarrow> wal \<times> wal_error option" where
  "writeBuffered w buf frameEnds = write_loop w buf 0 frameEnds"

fun encode_batch :: "int \<Rightarrow> wal_record list \<Rightarrow> i64 \<Rightarrow> bytes \<Rightarrow> i32 list \<Rightarrow> i64 \<times> (wal_error + bytes \<times> i32 list)" where
  "encode_batch mx [] lsn buf ends = (lsn, Inr (buf, ends))"
| "encode_batch mx (r # rs) lsn buf ends =
     (let lsn' = lsn + 1; start = length buf
      in case appendFrame buf (r\<lparr>rec_LSN := lsn'\<rparr>) of
           Inl e \<Rightarrow> (lsn', Inl e)
         | Inr buf' \<Rightarrow>
             if int (length buf' - start) > mx
             then (lsn', Inl (ErrRecordTooLarge (int (length buf' - start)) mx))
             else encode_batch mx rs lsn' buf' (ends @ [of_nat (length buf')]))"

definition AppendBatch :: "wal \<Rightarrow> wal_record list \<Rightarrow> wal \<times> (wal_error + i64)" where
  "AppendBatch w records =
     (if records = [] then (w, Inr (wal_currentLSN w))
      else
        let startLSN = wal_currentLSN w + 1
        in case encode_batch (segmentSize w) records (wal_currentLSN w) [] [] of
             (lsn, Inl e) \<Rightarrow> (w\<lparr>wal_currentLSN := lsn\<rparr>, Inl e)
           | (lsn, Inr (buf, ends)) \<Rightarrow>
               let commitLSN = lsn + 1;
                   buf' = appendCommitFrame buf commitLSN (length records);
                   ends' = ends @ [of_nat (length buf')]
               in case writeBuffered (w\<lparr>wal_currentLSN := commitLSN\<rparr>) buf' ends' of
                    (w', Some e) \<Rightarrow> (w', Inl e)
                  | (w', None) \<Rightarrow> (w', Inr startLSN))"

definition Head :: "wal \<Rightarrow> nat \<times> nat" where
  "Head w = (currentID w, syncedOffset (wal_current w))"

definition AdvanceLSNTo :: "wal \<Rightarrow> i64 \<Rightarrow> wal" where
  "AdvanceLSNTo w lsn = (if sint lsn > sint (wal_currentLSN w) then w\<lparr>wal_currentLSN := lsn\<rparr> else w)"

definition AppendCheckpoint :: "wal \<Rightarrow> i64 \<Rightarrow> wal \<times> wal_error option" where
  "AppendCheckpoint w lsn =
     (case AppendBatch w [\<lparr>rec_LSN = 0, rec_Type = RecordTypeCheckpoint, rec_Payload = be_bytes 8 lsn\<rparr>] of
        (w', Inl e) \<Rightarrow> (w', Some e)
      | (w', Inr _) \<Rightarrow> (Sync w', None))"

definition TruncateBefore :: "wal \<Rightarrow> i64 \<Rightarrow> wal" where
  "TruncateBefore w lsn =
     w\<lparr>wal_files := filter (\<lambda>(k, data). \<not> (k < currentID w \<and> sint (peekSegmentMaxLSN data) < sint lsn)) (wal_files w)\<rparr>"

definition Rotate :: "wal \<Rightarrow> wal" where
  "Rotate w = rotateLocked w"

definition Reset :: "wal \<Rightarrow> wal" where
  "Reset w =
     (let (fs', seg) = openSegment [] 1 (segmentSize w) (directIO w)
      in w\<lparr>currentID := 1, wal_currentLSN := 0, wal_files := fs', wal_current := seg\<rparr>)"

definition filterHandler :: "i64 \<Rightarrow> ('h, 'e) handler \<Rightarrow> ('h, 'e) handler" where
  "filterHandler fromLSN handler h r = (if sint (rec_LSN r) \<le> sint fromLSN then (h, None) else handler h r)"

definition RecoverFromLSN :: "wal \<Rightarrow> i64 \<Rightarrow> ('h, 'e) handler \<Rightarrow> 'h \<Rightarrow> wal \<times> 'h \<times> 'e option" where
  "RecoverFromLSN w fromLSN handler h =
     (let rc = recoverSegments (wal_files w) fromLSN (filterHandler fromLSN handler) h
      in case rc_err rc of
           Some e \<Rightarrow> (w\<lparr>wal_files := rc_files rc\<rparr>, rc_handler rc, Some e)
         | None \<Rightarrow>
             let recovered = (if sint (rc_LSN rc) < sint fromLSN then fromLSN else rc_LSN rc);
                 w1 = w\<lparr>wal_files := rc_files rc,
                         wal_currentLSN := (if sint recovered > sint (wal_currentLSN w) then recovered else wal_currentLSN w)\<rparr>;
                 lastSegmentID = (if rc_lastSegment rc = 0 then 1 else rc_lastSegment rc);
                 (fs', seg) = openSegment (wal_files w1) lastSegmentID (segmentSize w1) False
             in (w1\<lparr>currentID := lastSegmentID, wal_files := fs', wal_current := seg\<rparr>, rc_handler rc, None))"

definition Recover :: "wal \<Rightarrow> ('h, 'e) handler \<Rightarrow> 'h \<Rightarrow> wal \<times> 'h \<times> 'e option" where
  "Recover w handler h = RecoverFromLSN w 0 handler h"

subsection \<open>Appending whole frames\<close>

text \<open>A log as the program keeps it: earlier segments hold whole frames, the current one is the
  last and holds the frames of \<open>rs\<close>.\<close>

definition log_state :: "wal \<Rightarrow> (nat \<times> wal_record list) list \<Rightarrow> wal_record list \<Rightarrow> bool" where
  "log_state w parts rs \<longleftrightarrow>
     wal_files w = map segment_of parts @ [(currentID w, frames rs)] \<and> 
     (\<forall>p\<in>set parts. fst p < currentID w \<and> int (length (frames (snd p))) \<le> segmentSize w) \<and>
     seg_id (wal_current w) = currentID w \<and> maxSize (wal_current w) = segmentSize w \<and> 0 < segmentSize w \<and>
     writeOffset (wal_current w) = length (frames rs) \<and> syncedOffset (wal_current w) \<le> length (frames rs) \<and>
     int (length (frames rs)) \<le> segmentSize w \<and> \<not> directIO w \<and> directBuf (wal_current w) = None"

definition parts_records :: "(nat \<times> wal_record list) list \<Rightarrow> wal_record list" where
  "parts_records parts = concat (map snd parts)"

text \<open>The bytes of the log that are known to be durable: all of the earlier segments and the
  synced part of the current one.\<close>

definition durable :: "wal \<Rightarrow> (nat \<times> wal_record list) list \<Rightarrow> nat" where
  "durable w parts = length (frames (parts_records parts)) + syncedOffset (wal_current w)"

lemma put_file_last:
  "\<forall>p\<in>set fs. fst p < k \<Longrightarrow> put_file k d (fs @ [(k, d')]) = fs @ [(k, d)]"
  "\<forall>p\<in>set fs. fst p < k \<Longrightarrow> put_file k d fs = fs @ [(k, d)]"
  by (induction fs) auto

lemma update_file_last: "\<forall>p\<in>set fs. fst p < k \<Longrightarrow> update_file k d (fs @ [(k, d')]) = fs @ [(k, d)]"
  by (induction fs) (auto simp: update_file_def)

lemma map_of_last: "\<forall>p\<in>set fs. fst p < k \<Longrightarrow> map_of (fs @ [(k, d)]) k = Some d" for k :: nat
  by (induction fs) auto

lemma map_of_beyond: "\<forall>p\<in>set fs. fst p < k \<Longrightarrow> map_of fs k = None" for k :: nat
  by (induction fs) auto

lemma current_bytes:
  assumes "log_state w parts rs"
  shows "file_bytes (wal_files w) (seg_id (wal_current w)) = frames rs"
    "update_file (seg_id (wal_current w)) d (wal_files w) = map segment_of parts @ [(currentID w, d)]"
proof -
  let ?fs = "map segment_of parts"
  have below: "\<forall>p\<in>set ?fs. fst p < currentID w" using assms by (auto simp: log_state_def segment_of_def)
  show "file_bytes (wal_files w) (seg_id (wal_current w)) = frames rs"
    using assms map_of_last [OF below] by (simp add: file_bytes_def log_state_def)
  show "update_file (seg_id (wal_current w)) d (wal_files w) = map segment_of parts @ [(currentID w, d)]"
    using assms update_file_last [OF below] by (simp add: log_state_def)
qed

lemma Sync_state:
  assumes "log_state w parts rs"
  shows "Sync w = w\<lparr>wal_current := (wal_current w)\<lparr>syncedOffset := length (frames rs)\<rparr>\<rparr>"
  using assms current_bytes [OF assms] by (simp add: Sync_def seg_Sync_def log_state_def Let_def)

lemma rotate_state:
  assumes "log_state w parts rs"
  shows "log_state (rotateLocked w) (parts @ [(currentID w, rs)]) []"
    "durable w parts \<le> durable (rotateLocked w) (parts @ [(currentID w, rs)])"
    "wal_currentLSN (rotateLocked w) = wal_currentLSN w" "segmentSize (rotateLocked w) = segmentSize w"
proof -
  let ?fs = "map segment_of parts @ [(currentID w, frames rs)]"
  have below: "\<forall>p\<in>set ?fs. fst p < Suc (currentID w)"
    using assms by (auto simp: log_state_def segment_of_def)
  have fs: "wal_files w = ?fs" using assms by (simp add: log_state_def)
  have none: "file_bytes ?fs (Suc (currentID w)) = []"
    unfolding file_bytes_def map_of_beyond [OF below] by simp
  then have "wal_files (rotateLocked w) = ?fs @ [(Suc (currentID w), [])]"
    using put_file_last(2) [OF below] by (simp add: rotateLocked_def Sync_state [OF assms] openSegment_def fs Let_def)
  then show "log_state (rotateLocked w) (parts @ [(currentID w, rs)]) []"
    using assms none
    by (auto simp: log_state_def rotateLocked_def Sync_state [OF assms] openSegment_def fs frames_def segment_of_def Let_def)
  show "durable w parts \<le> durable (rotateLocked w) (parts @ [(currentID w, rs)])"
    using assms by (simp add: durable_def parts_records_def frames_append log_state_def)
qed (simp_all add: rotateLocked_def openSegment_def Let_def)

lemma write_state:
  assumes st: "log_state w parts rs" and fits: "int (length (frames rs) + length (frames qs)) \<le> segmentSize w"
  obtains w' where "wal_Write w (frames qs) = (w', None)" "log_state w' parts (rs @ qs)" "durable w' parts = durable w parts"
    "wal_currentLSN w' = wal_currentLSN w" "segmentSize w' = segmentSize w" "currentID w' = currentID w"
proof -
  have "\<not> IsFull (wal_current w) (int (length (frames qs)))" using st fits by (simp add: IsFull_def log_state_def)
  then have wr: "wal_Write w (frames qs) =
      (w\<lparr>wal_current := (wal_current w)\<lparr>writeOffset := length (frames (rs @ qs))\<rparr>, wal_files := map segment_of parts @ [(currentID w, frames (rs @ qs))]\<rparr>, None)"
    using st current_bytes [OF st]
    by (simp add: wal_Write_def seg_Write_def WriteAt_def copy_at_def frames_append log_state_def Let_def)
  show ?thesis by (rule that [OF wr]) (use st fits in \<open>auto simp: log_state_def durable_def frames_append\<close>)
qed

subsection \<open>Frame ends\<close>

fun ends_of :: "nat \<Rightarrow> wal_record list \<Rightarrow> i32 list" where
  "ends_of off [] = []"
| "ends_of off (q # qs) = of_nat (off + length (frame_of q)) # ends_of (off + length (frame_of q)) qs"

lemma sint_of_nat_32: "a < 2147483648 \<Longrightarrow> sint (of_nat a :: i32) = int a"
  by (simp add: sint_uint signed_take_bit_int_eq_self unsigned_of_nat take_bit_nat_eq_self)

lemma sint_diff_of_nat: "\<lbrakk> b \<le> a; a < 2147483648 \<rbrakk> \<Longrightarrow> sint (of_nat a - of_nat b :: i32) = int (a - b)"
  using sint_of_nat_32 [of "a - b"] by (simp add: of_nat_diff)

lemma fit_frames_prefix:
  "\<lbrakk> off + length (frames qs) < 2147483648; written \<le> off; int (off - written) \<le> space \<rbrakk> \<Longrightarrow>
     \<exists>n \<le> length qs. fit_frames space written (ends_of off qs) (int off) =
         (int (off + length (frames (take n qs))), ends_of (off + length (frames (take n qs))) (drop n qs)) \<and>
       int (off + length (frames (take n qs)) - written) \<le> space \<and>
       (n < length qs \<longrightarrow> space < int (off + length (frames (take n qs)) + length (frame_of (qs ! n)) - written))"
proof (induction qs arbitrary: off)
  case (Cons q qs)
  let ?o = "off + length (frame_of q)"
  have o: "?o < 2147483648" using Cons.prems by (simp add: frames_def)
  have d: "sint (of_nat ?o - of_nat written :: i32) = int (?o - written)" "sint (of_nat ?o :: i32) = int ?o"
    using Cons.prems o by (auto simp only: intro!: sint_diff_of_nat sint_of_nat_32)
  show ?case
  proof (cases "int (?o - written) \<le> space")
    case True
    obtain n where "n \<le> length qs" "fit_frames space written (ends_of ?o qs) (int ?o) =
         (int (?o + length (frames (take n qs))), ends_of (?o + length (frames (take n qs))) (drop n qs))"
       "int (?o + length (frames (take n qs)) - written) \<le> space"
       "n < length qs \<longrightarrow> space < int (?o + length (frames (take n qs)) + length (frame_of (qs ! n)) - written)"
      using Cons.IH [of ?o] Cons.prems True by (auto simp: frames_def)
    with True d show ?thesis by (intro exI [of _ "Suc n"]) (simp add: frames_def add.assoc)
  next
    case False
    with d show ?thesis using Cons.prems by (intro exI [of _ 0]) (simp add: frames_def)
  qed
qed (simp add: frames_def)

subsection \<open>The write loop\<close>

lemma write_loop_frames:
  "\<lbrakk> buf = frames (qs0 @ qs); written = length (frames qs0); ends = ends_of written qs; length buf < 2147483648;
     log_state w parts rs; \<forall>q\<in>set qs. int (length (frame_of q)) \<le> segmentSize w \<rbrakk> \<Longrightarrow>
   \<exists>w' parts' rs'. write_loop w buf written ends = (w', None) \<and> log_state w' parts' rs' \<and>
     parts_records parts' @ rs' = parts_records parts @ rs @ qs \<and> durable w parts \<le> durable w' parts' \<and>
     wal_currentLSN w' = wal_currentLSN w \<and> segmentSize w' = segmentSize w"
proof (induction w buf written ends arbitrary: qs0 qs parts rs rule: write_loop.induct)
  case (1 w buf written ends)
  show ?case
  proof (cases "qs = []")
    case True
    with 1 show ?thesis by (subst write_loop.simps) auto
  next
    case False
    define w1 where "w1 = (if IsFull (wal_current w) 1 then rotateLocked w else w)"
    define parts1 where "parts1 = (if IsFull (wal_current w) 1 then parts @ [(currentID w, rs)] else parts)"
    define rs1 where "rs1 = (if IsFull (wal_current w) 1 then [] else rs)"
    have st1: "log_state w1 parts1 rs1" and dur1: "durable w parts \<le> durable w1 parts1" and recs1: "parts_records parts1 @ rs1 = parts_records parts @ rs"
      and lsn1: "wal_currentLSN w1 = wal_currentLSN w" and size1: "segmentSize w1 = segmentSize w"
      using rotate_state [OF 1(7)] 1(7) by (auto simp: w1_def parts1_def rs1_def parts_records_def)
    have recs: "parts_records parts1 @ rs1 @ qs = parts_records parts @ rs @ qs" using recs1 by (metis append.assoc)
    let ?space = "maxSize (wal_current w1) - int (writeOffset (wal_current w1))"
    have space: "?space = segmentSize w - int (length (frames rs1))" "0 \<le> ?space" using st1 size1 by (auto simp: log_state_def)
    have more: "\<not> length buf \<le> written" using False 1(3,4) frame_of_nonempty [of "hd qs"] by (cases qs) (auto simp: frames_def)
    have "written + length (frames qs) < 2147483648" using 1(3,4,6) by (simp add: frames_append)
    from fit_frames_prefix [OF this order_refl, of ?space] obtain n where n: "n \<le> length qs"
      and fit: "fit_frames ?space written ends (int written) =
         (int (written + length (frames (take n qs))), ends_of (written + length (frames (take n qs))) (drop n qs))"
      and fits: "int (length (frames (take n qs))) \<le> ?space"
      and next': "n < length qs \<longrightarrow> ?space < int (length (frames (take n qs)) + length (frame_of (qs ! n)))"
      using space(2) 1(5) by auto
    show ?thesis
    proof (cases "n = 0")
      case True
      have small: "int (length (frame_of (qs ! 0))) \<le> segmentSize w" using 1(8) False by (metis length_greater_0_conv nth_mem)
      have lt: "?space < segmentSize w1" using next' True False small size1 by (auto simp: frames_def)
      have eq: "write_loop w buf written ends = write_loop (rotateLocked w1) buf written ends"
        using fit True lt more 1(5) by (subst write_loop.simps) (simp add: Let_def frames_def flip: w1_def)
      note ih = 1(1) [OF more w1_def refl refl refl refl _ lt, of qs0 qs "parts1 @ [(currentID w1, rs1)]" "[]"]
      have "\<exists>w' parts' rs'. write_loop (rotateLocked w1) buf written ends = (w', None) \<and> log_state w' parts' rs' \<and>
          parts_records parts' @ rs' = parts_records parts1 @ rs1 @ qs \<and>
          durable (rotateLocked w1) (parts1 @ [(currentID w1, rs1)]) \<le> durable w' parts' \<and>
          wal_currentLSN w' = wal_currentLSN w \<and> segmentSize w' = segmentSize w"
        using ih fit True rotate_state [OF st1] lsn1 size1 1(3-6,8) by (simp add: frames_def parts_records_def)
      then show ?thesis unfolding eq recs using rotate_state(2) [OF st1] dur1 by (meson le_trans)
    next
      case False
      let ?e = "written + length (frames (take n qs))"
      have e: "slice written ?e buf = frames (take n qs)"
        using 1(3,4) frames_append [of "take n qs" "drop n qs"] by (simp add: slice_def frames_append)
      have small: "\<forall>q\<in>set (drop n qs). int (length (frame_of q)) \<le> segmentSize w" using 1(8) by (meson in_set_dropD)
      have pos: "0 < length (frames (take n qs))" using False n \<open>qs \<noteq> []\<close> frame_of_nonempty [of "hd qs"]
        by (cases qs; cases n) (auto simp: frames_def)
      have bound: "?e \<le> length buf" using 1(3,4) frames_append [of "take n qs" "drop n qs"] by (simp add: frames_append)
      have room: "int (length (frames rs1) + length (frames (take n qs))) \<le> segmentSize w1" using fits space size1 by simp
      obtain w2 where w2: "wal_Write w1 (frames (take n qs)) = (w2, None)" "log_state w2 parts1 (rs1 @ take n qs)"
        "durable w2 parts1 = durable w1 parts1" "wal_currentLSN w2 = wal_currentLSN w1" "segmentSize w2 = segmentSize w1"
        using write_state [OF st1 room] by metis
      have eq: "write_loop w buf written ends = write_loop w2 buf ?e (ends_of ?e (drop n qs))"
        using fit pos bound e w2(1) by (subst write_loop.simps) (simp add: more Let_def nat_add_distrib flip: w1_def)
      note ih = 1(2) [OF more w1_def refl refl refl refl, of w2 None "qs0 @ take n qs" "drop n qs" parts1 "rs1 @ take n qs"]
      have "\<exists>w' parts' rs'. write_loop w2 buf ?e (ends_of ?e (drop n qs)) = (w', None) \<and> log_state w' parts' rs' \<and>
          parts_records parts' @ rs' = parts_records parts1 @ (rs1 @ take n qs) @ drop n qs \<and> durable w2 parts1 \<le> durable w' parts' \<and>
          wal_currentLSN w' = wal_currentLSN w2 \<and> segmentSize w' = segmentSize w2"
        using ih fit pos bound e w2 size1 1(3,4,6) small by (simp add: frames_append nat_add_distrib)
      then show ?thesis unfolding eq using recs w2(3,4,5) dur1 lsn1 size1 by auto (meson le_trans)
    qed
  qed
qed

subsection \<open>Batches\<close>

text \<open>The LSNs \<^verbatim>\<open>AppendBatch\<close> assigns.\<close>

fun stamp :: "i64 \<Rightarrow> wal_record list \<Rightarrow> wal_record list" where
  "stamp lsn [] = []"
| "stamp lsn (r # rs) = r\<lparr>rec_LSN := lsn + 1\<rparr> # stamp (lsn + 1) rs"

lemma length_stamp [simp]: "length (stamp lsn rs) = length rs"
  by (induction lsn rs rule: stamp.induct) simp_all

lemma stamp_nth: "i < length rs \<Longrightarrow> stamp lsn rs ! i = (rs ! i)\<lparr>rec_LSN := lsn + of_nat (Suc i)\<rparr>"
  by (induction lsn rs arbitrary: i rule: stamp.induct) (auto simp: nth_Cons algebra_simps split: nat.split)

text \<open>What callers of \<^verbatim>\<open>AppendBatch\<close> pass: well-formed data records, each no larger than a segment,
  fewer than two gigabytes in all, and an LSN counter that does not overflow.\<close>

definition appendable :: "wal \<Rightarrow> wal_record list \<Rightarrow> bool" where
  "appendable w records \<longleftrightarrow> records \<noteq> [] \<and>
     (\<forall>r\<in>set records. wf_record r \<and> rec_Type r \<noteq> RecordTypeBatchCommit \<and> int (length (frame_of r)) \<le> segmentSize w) \<and>
     29 \<le> segmentSize w \<and> length (frames records) + 29 < 2147483648 \<and>
     sint (wal_currentLSN w) + int (length records) + 1 < 9223372036854775808"

definition appended :: "wal \<Rightarrow> wal_record list \<Rightarrow> batch" where
  "appended w records = (stamp (wal_currentLSN w) records, wal_currentLSN w + of_nat (length records) + 1)"

lemma length_frame_of_LSN [simp]: "length (frame_of (r\<lparr>rec_LSN := l\<rparr>)) = length (frame_of r)"
  by (simp add: length_frame_of)

lemma wf_record_LSN [simp]: "wf_record (r\<lparr>rec_LSN := l\<rparr>) = wf_record r"
  by (simp add: wf_record_def)

lemma length_frames_stamp [simp]: "length (frames (stamp lsn rs)) = length (frames rs)"
  by (induction lsn rs rule: stamp.induct) (simp_all add: frames_def)

lemma stamp_all:
  "(\<forall>r\<in>set rs. P (rec_Type r) (rec_Payload r)) \<Longrightarrow> \<forall>r\<in>set (stamp lsn rs). P (rec_Type r) (rec_Payload r)"
  by (induction lsn rs rule: stamp.induct) auto

lemma ends_of_append: "ends_of off (rs @ qs) = ends_of off rs @ ends_of (off + length (frames rs)) qs"
  by (induction rs arbitrary: off) (simp_all add: frames_def add.assoc)

lemma encode_batch_frames:
  "\<forall>r\<in>set rs. wf_record r \<and> int (length (frame_of r)) \<le> mx \<Longrightarrow>
     encode_batch mx rs lsn buf ends =
       (lsn + of_nat (length rs), Inr (buf @ frames (stamp lsn rs), ends @ ends_of (length buf) (stamp lsn rs)))"
proof (induction rs arbitrary: lsn buf ends)
  case (Cons r rs)
  have "appendFrame buf (r\<lparr>rec_LSN := lsn + 1\<rparr>) = Inr (buf @ frame_of (r\<lparr>rec_LSN := lsn + 1\<rparr>))"
    using Cons.prems by (simp add: appendFrame_layout)
  moreover have "int (length (frame_of (r\<lparr>rec_LSN := lsn + 1\<rparr>))) \<le> mx" using Cons.prems by simp
  ultimately show ?case
    using Cons.prems by (simp add: Cons.IH Let_def del: length_frame_of_LSN) (simp add: frames_def add.assoc)
qed (simp add: frames_def)

lemma length_commit_frame: "length (frame_of (commit_record l n)) = 29"
  by (simp add: length_frame_of commit_record_def commit_payload_layout)

text \<open>Encoding a batch that can be appended always succeeds; the rest is the write loop.\<close>

lemma AppendBatch_encoded:
  assumes ok: "appendable w records"
  defines "qs \<equiv> batch_records (appended w records)"
  shows "AppendBatch w records =
    (case write_loop (w\<lparr>wal_currentLSN := snd (appended w records)\<rparr>) (frames qs) 0 (ends_of 0 qs) of
       (w', Some e) \<Rightarrow> (w', Inl e) | (w', None) \<Rightarrow> (w', Inr (wal_currentLSN w + 1)))"
    and "length (frames qs) = length (frames records) + 29"
proof -
  let ?lsn = "wal_currentLSN w"
  have qs: "qs = stamp ?lsn records @ [commit_record (snd (appended w records)) (length records)]"
    by (simp add: qs_def appended_def batch_records_def)
  have enc: "encode_batch (segmentSize w) records ?lsn [] [] =
      (?lsn + of_nat (length records), Inr (frames (stamp ?lsn records), ends_of 0 (stamp ?lsn records)))"
    using ok by (subst encode_batch_frames) (auto simp: appendable_def)
  have buf: "appendCommitFrame (frames (stamp ?lsn records)) (snd (appended w records)) (length records) = frames qs"
    by (simp add: appendCommitFrame_layout qs frames_append) (simp add: frames_def)
  have ends: "ends_of 0 (stamp ?lsn records) @ [of_nat (length (frames qs))] = ends_of 0 qs"
    by (simp add: qs ends_of_append frames_append) (simp add: frames_def)
  show "AppendBatch w records =
    (case write_loop (w\<lparr>wal_currentLSN := snd (appended w records)\<rparr>) (frames qs) 0 (ends_of 0 qs) of
       (w', Some e) \<Rightarrow> (w', Inl e) | (w', None) \<Rightarrow> (w', Inr (wal_currentLSN w + 1)))"
    using ok enc buf ends by (simp add: AppendBatch_def writeBuffered_def appended_def appendable_def Let_def)
  show "length (frames qs) = length (frames records) + 29"
    by (simp add: qs frames_append) (simp add: frames_def length_commit_frame)
qed

lemma AppendBatch_appends:
  assumes st: "log_state w parts rs" and ok: "appendable w records"
  obtains w' parts' rs' where "AppendBatch w records = (w', Inr (wal_currentLSN w + 1))" "log_state w' parts' rs'"
    "parts_records parts' @ rs' = parts_records parts @ rs @ batch_records (appended w records)"
    "durable w parts \<le> durable w' parts'" "wal_currentLSN w' = snd (appended w records)" "segmentSize w' = segmentSize w"
proof -
  let ?lsn = "wal_currentLSN w" and ?qs = "batch_records (appended w records)"
  let ?w = "w\<lparr>wal_currentLSN := snd (appended w records)\<rparr>"
  have qs: "?qs = stamp ?lsn records @ [commit_record (snd (appended w records)) (length records)]"
    by (simp add: appended_def batch_records_def)
  have len: "length (frames ?qs) < 2147483648"
    using ok AppendBatch_encoded(2) [OF ok] by (simp add: appendable_def)
  have "int (length (frame_of q)) \<le> segmentSize w" if "q \<in> set ?qs" for q
    using that ok stamp_all [of records "\<lambda>t p. int (13 + length p + 4) \<le> segmentSize w" ?lsn]
    by (auto simp: qs appendable_def length_frame_of length_commit_frame commit_record_def commit_payload_layout)
  with write_loop_frames [of "frames ?qs" "[]" ?qs 0 "ends_of 0 ?qs" ?w parts rs] st len
  obtain w' parts' rs' where wr: "write_loop ?w (frames ?qs) 0 (ends_of 0 ?qs) = (w', None)" and st': "log_state w' parts' rs'"
    "parts_records parts' @ rs' = parts_records parts @ rs @ ?qs" "durable ?w parts \<le> durable w' parts'"
    "wal_currentLSN w' = wal_currentLSN ?w" "segmentSize w' = segmentSize ?w"
    by (auto simp: log_state_def frames_def [of "[]"])
  have "AppendBatch w records = (w', Inr (?lsn + 1))"
    using wr AppendBatch_encoded(1) [OF ok] by simp
  with st' show ?thesis by (intro that [of w' parts' rs']) (simp_all add: durable_def)
qed

subsection \<open>Durability\<close>

text \<open>The histories of a log that starts empty: the batches appended so far and a number of them
  that is known to be durable.\<close>

inductive wal_reach :: "wal \<Rightarrow> batch list \<Rightarrow> nat \<Rightarrow> bool" where
  opened: "wal_reach (OpenWAL [] mx False) [] 0"
| append: "\<lbrakk> wal_reach w bs d; appendable w records \<rbrakk> \<Longrightarrow>
     wal_reach (fst (AppendBatch w records)) (bs @ [appended w records]) d"
| sync: "wal_reach w bs d \<Longrightarrow> wal_reach (Sync w) bs (length bs)"
| rotate: "wal_reach w bs d \<Longrightarrow> wal_reach (Rotate w) bs (length bs)"
| advance: "wal_reach w bs d \<Longrightarrow> wal_reach (AdvanceLSNTo w lsn) bs d"

definition positive_LSNs :: "batch list \<Rightarrow> bool" where
  "positive_LSNs bs \<longleftrightarrow> (\<forall>b\<in>set bs. 0 < sint (snd b) \<and> (\<forall>r\<in>set (fst b). 0 < sint (rec_LSN r)))"

definition history_ok :: "wal \<Rightarrow> batch list \<Rightarrow> nat \<Rightarrow> (nat \<times> wal_record list) list \<Rightarrow> wal_record list \<Rightarrow> bool" where
  "history_ok w bs d parts rs \<longleftrightarrow> log_state w parts rs \<and> parts_records parts @ rs = log_records bs \<and> d \<le> length bs \<and>
     length (frames (log_records (take d bs))) \<le> durable w parts \<and> (\<forall>b\<in>set bs. wf_batch b) \<and>
     0 \<le> sint (wal_currentLSN w) \<and> positive_LSNs bs"

lemma sint_add_nat:
  assumes "0 \<le> sint l" and "sint l + int n < 9223372036854775808"
  shows "sint (l + of_nat n :: i64) = sint l + int n"
proof -
  have "l + of_nat n = word_of_int (sint l + int n)" by simp
  then show ?thesis using assms by (simp add: sint_sbintrunc' signed_take_bit_int_eq_self del: of_int_add)
qed

lemma length_le_frames: "length rs \<le> length (frames rs)"
  by (induction rs) (simp_all add: frames_def length_frame_of)

lemma appended_ok:
  assumes "appendable w records" and "0 \<le> sint (wal_currentLSN w)"
  shows "wf_batch (appended w records)" "positive_LSNs [appended w records]" "0 \<le> sint (snd (appended w records))"
proof -
  let ?lsn = "wal_currentLSN w"
  have lsn: "sint ?lsn + int (length records) + 1 < 9223372036854775808" using assms by (simp add: appendable_def)
  have "\<forall>r\<in>set (stamp ?lsn records). (rec_Type r \<noteq> 0 \<and> length (rec_Payload r) \<le> 4294967295) \<and> rec_Type r \<noteq> RecordTypeBatchCommit"
    by (rule stamp_all) (use assms in \<open>auto simp: appendable_def wf_record_def\<close>)
  moreover have "length records < 4294967296" using assms length_le_frames [of records] by (simp add: appendable_def)
  ultimately show "wf_batch (appended w records)" by (simp add: wf_batch_def appended_def wf_record_def)
  have "0 < sint (rec_LSN (stamp ?lsn records ! i))" if "i < length records" for i
    using that lsn assms(2) sint_add_nat [of ?lsn "Suc i"] by (simp add: stamp_nth)
  moreover have commit: "0 < sint (snd (appended w records))"
    using lsn assms(2) sint_add_nat [of ?lsn "Suc (length records)"] by (simp add: appended_def algebra_simps)
  ultimately show "positive_LSNs [appended w records]"
    by (auto simp: positive_LSNs_def appended_def in_set_conv_nth)
  show "0 \<le> sint (snd (appended w records))" using commit by simp
qed

lemma reach_history: "wal_reach w bs d \<Longrightarrow> \<exists>parts rs. history_ok w bs d parts rs"
proof (induction rule: wal_reach.induct)
  case (opened mx)
  have "log_state (OpenWAL [] mx False) [] []"
    by (simp add: log_state_def OpenWAL_def openSegment_def file_bytes_def frames_def Let_def)
  then have "history_ok (OpenWAL [] mx False) [] 0 [] []"
    by (simp add: history_ok_def log_records_def parts_records_def frames_def positive_LSNs_def) (simp add: OpenWAL_def Let_def split: prod.split)
  then show ?case by blast
next
  case (append w bs d records)
  then obtain parts rs where h: "history_ok w bs d parts rs" by blast
  then have "log_state w parts rs" by (simp add: history_ok_def)
  from AppendBatch_appends [OF this append(2)] obtain w' parts' rs'
    where "AppendBatch w records = (w', Inr (wal_currentLSN w + 1))" "log_state w' parts' rs'"
    "parts_records parts' @ rs' = parts_records parts @ rs @ batch_records (appended w records)"
    "durable w parts \<le> durable w' parts'" "wal_currentLSN w' = snd (appended w records)" by blast
  with h appended_ok [OF append(2)] have "history_ok w' (bs @ [appended w records]) d parts' rs'"
    by (auto simp: history_ok_def positive_LSNs_def log_records_def)
  then show ?case using \<open>AppendBatch w records = _\<close> by auto
next
  case (sync w bs d)
  then obtain parts rs where h: "history_ok w bs d parts rs" by blast
  have "log_records bs = parts_records parts @ rs" using h by (simp add: history_ok_def)
  then have "length (frames (log_records bs)) = durable (Sync w) parts"
    using h by (simp add: history_ok_def durable_def Sync_state [of w parts rs] frames_append)
  with h show ?case
    by (intro exI [of _ parts] exI [of _ rs]) (auto simp: history_ok_def Sync_state [of w parts rs], simp add: log_state_def)
next
  case (rotate w bs d)
  then obtain parts rs where h: "history_ok w bs d parts rs" by blast
  have "length (frames (log_records bs)) \<le> durable (rotateLocked w) (parts @ [(currentID w, rs)])"
    using h by (simp add: history_ok_def durable_def parts_records_def)
  with h rotate_state [of w parts rs] show ?case
    by (intro exI [of _ "parts @ [(currentID w, rs)]"] exI [of _ "[]"]) (auto simp: history_ok_def Rotate_def parts_records_def)
next
  case (advance w bs d lsn)
  then obtain parts rs where "history_ok w bs d parts rs" by blast
  then show ?case
    by (intro exI [of _ parts] exI [of _ rs]) (auto simp: history_ok_def AdvanceLSNTo_def log_state_def durable_def)
qed

text \<open>What a crash leaves of the files: the bytes of the current segment that were not synced may
  be lost from any point on.\<close>

definition crash :: "wal \<Rightarrow> nat \<Rightarrow> segment_files" where
  "crash w n = map (\<lambda>(k, data). if k = currentID w then (k, take n data) else (k, data)) (wal_files w)"

lemma crash_files:
  assumes "log_state w parts rs"
  shows "crash w n = map segment_of parts @ [(currentID w, take n (frames rs))]"
proof -
  have "map (\<lambda>(k, data). if k = currentID w then (k, take n data) else (k, data)) (map segment_of parts) = map segment_of parts"
    using assms by (intro map_idI) (auto simp: log_state_def segment_of_def)
  with assms show ?thesis by (simp add: crash_def log_state_def)
qed

lemma handled_filter:
  "\<lbrakk> total_handler handler; \<forall>r\<in>set rs. sint from < sint (rec_LSN r) \<rbrakk> \<Longrightarrow> handled (filterHandler from handler) h rs = handled handler h rs"
proof (induction rs arbitrary: h)
  case (Cons r rs)
  obtain h' where "handler h r = (h', None)" using Cons.prems(1) by (metis prod.collapse total_handler_def)
  with Cons show ?case by (simp add: handled_def filterHandler_def)
qed (simp add: handled_def)

lemma total_filterHandler: "total_handler handler \<Longrightarrow> total_handler (filterHandler from handler)"
  by (simp add: total_handler_def filterHandler_def)

lemma survivors_ge:
  assumes "survivors bs N j" and "length (frames (log_records (take d bs))) \<le> N" and "d \<le> length bs"
  shows "d \<le> j"
proof (rule ccontr)
  assume "\<not> d \<le> j"
  then have d: "take d bs = take (Suc j) bs @ drop (Suc j) (take d bs)" by (metis Suc_le_eq append_take_drop_id min_def not_le take_take)
  have "j < length bs" using \<open>\<not> d \<le> j\<close> assms(3) by simp
  then have "N < length (frames (log_records (take (Suc j) bs)))" using assms(1) by (simp add: survivors_def)
  also have "\<dots> \<le> length (frames (log_records (take d bs)))"
    by (subst d) (simp add: log_records_def frames_append)
  finally show False using assms(2) by simp
qed

lemma recover_crash:
  assumes h: "history_ok w bs d parts rs" and n: "syncedOffset (wal_current w) \<le> n" and tot: "total_handler handler"
  shows "\<exists>j. d \<le> j \<and> j \<le> length bs \<and>
    (let rc = recoverSegments (crash w n) 0 (filterHandler 0 handler) h0
     in rc_err rc = None \<and> rc_handler rc = handled handler h0 (concat (map fst (take j bs))) \<and> rc_LSN rc = last_LSN (take j bs))"
proof -
  let ?n = "min n (length (frames rs))"
  have st: "log_state w parts rs" and recs: "concat (map snd parts) @ rs @ [] = log_records bs" and bs: "\<forall>b\<in>set bs. wf_batch b"
    and pos: "positive_LSNs bs" and d: "d \<le> length bs" "length (frames (log_records (take d bs))) \<le> durable w parts"
    using h by (auto simp: history_ok_def parts_records_def)
  have files: "crash w n = map segment_of parts @ [(currentID w, take ?n (frames rs))]"
    using crash_files [OF st, of n] by (cases "n \<le> length (frames rs)") simp_all
  obtain j where j: "survivors bs (length (frames (concat (map snd parts))) + ?n) j"
    and rc: "let rc = recoverSegments (crash w n) 0 (filterHandler 0 handler) h0
      in rc_err rc = None \<and> rc_handler rc = handled (filterHandler 0 handler) h0 (concat (map fst (take j bs))) \<and> rc_LSN rc = last_LSN (take j bs)"
    using recover_cut_log [OF bs recs _ total_filterHandler [OF tot, of 0], of ?n "currentID w" h0] files by (auto simp: Let_def)
  have "durable w parts \<le> length (frames (concat (map snd parts))) + ?n"
    using st n by (simp add: durable_def parts_records_def log_state_def)
  then have "d \<le> j" using survivors_ge [OF j _ d(1)] d(2) by simp
  moreover have "handled (filterHandler 0 handler) h0 (concat (map fst (take j bs))) = handled handler h0 (concat (map fst (take j bs)))"
    by (rule handled_filter [OF tot]) (use pos in \<open>auto simp: positive_LSNs_def dest: in_set_takeD\<close>)
  ultimately show ?thesis using j rc by (auto simp: survivors_def Let_def)
qed

text \<open>Opening the files a crash left changes none of them.\<close>

lemma open_crashed:
  assumes "log_state w parts rs"
  shows "wal_files (OpenWAL (crash w n) mx False) = crash w n" "wal_currentLSN (OpenWAL (crash w n) mx False) = 0"
proof -
  let ?fs = "map segment_of parts"
  have below: "\<forall>p\<in>set ?fs. fst p < currentID w" using assms by (auto simp: log_state_def segment_of_def)
  have "file_bytes (crash w n) (currentID w) = take n (frames rs)"
    unfolding file_bytes_def crash_files [OF assms] map_of_last [OF below] by simp
  then show "wal_files (OpenWAL (crash w n) mx False) = crash w n"
    using put_file_last(1) [OF below] by (simp add: OpenWAL_def openSegment_def crash_files [OF assms] Let_def)
qed (simp add: OpenWAL_def openSegment_def Let_def)

lemma recover_after_crash:
  fixes h :: 'h
  assumes "wal_reach w bs d" and "syncedOffset (wal_current w) \<le> n" and "total_handler handler"
  shows "\<exists>j w'. d \<le> j \<and> j \<le> length bs \<and>
    Recover (OpenWAL (crash w n) mx False) handler h = (w', handled handler h (concat (map fst (take j bs))), None) \<and>
    wal_currentLSN w' = last_LSN (take j bs)"
proof -
  obtain parts rs where hist: "history_ok w bs d parts rs" using reach_history [OF assms(1)] by blast
  then have st: "log_state w parts rs" and pos: "positive_LSNs bs" by (simp_all add: history_ok_def)
  obtain j where j: "d \<le> j" "j \<le> length bs"
    and rc: "let rc = recoverSegments (crash w n) 0 (filterHandler 0 handler) h
     in rc_err rc = None \<and> rc_handler rc = handled handler h (concat (map fst (take j bs))) \<and> rc_LSN rc = last_LSN (take j bs)"
    using recover_crash [OF hist assms(2,3), of h] by blast
  have "take j bs \<noteq> [] \<Longrightarrow> last (take j bs) \<in> set bs" by (meson in_set_takeD last_in_set)
  then have "0 < sint (last_LSN (take j bs)) \<or> last_LSN (take j bs) = 0"
    using pos by (auto simp: positive_LSNs_def last_LSN_def)
  with j rc open_crashed [OF st, of n mx] show ?thesis
    by (intro exI [of _ j]) (auto simp: Recover_def RecoverFromLSN_def Let_def split: prod.split)
qed

text \<open>C9: A batch is durable once \<^verbatim>\<open>Sync\<close> has returned. Take any history of appends, syncs and
  rotations of a log with buffered I/O that starts in an empty directory and was not reopened, in which the first \<open>d\<close> batches were followed by a sync or a rotation, and a
  crash that loses an arbitrary part of the bytes not synced. Reopening the directory and
  recovering succeeds and delivers, in order, the records of the first \<open>j\<close> batches, where \<open>j\<close> is
  at least \<open>d\<close>; the LSN counter resumes at the commit of the last of them.\<close>

theorem synced_batches_survive:
  fixes h :: 'h
  assumes "wal_reach w bs d" and "syncedOffset (wal_current w) \<le> n" and "total_handler handler"
  shows "\<exists>j w'. d \<le> j \<and> j \<le> length bs \<and>
    Recover (OpenWAL (crash w n) mx False) handler h = (w', handled handler h (concat (map fst (take j bs))), None) \<and>
    wal_currentLSN w' = last_LSN (take j bs)"
  by (rule recover_after_crash [OF assms])

definition sample_wal :: wal where
  "sample_wal = Sync (fst (AppendBatch (OpenWAL [] 60 False) [sample_record 0]))"

lemma sample_appendable: "appendable (OpenWAL [] 60 False) [sample_record 0]"
  by (simp add: appendable_def wf_sample_record length_frame_of frames_def OpenWAL_def openSegment_def file_bytes_def Let_def)
     (simp add: sample_record_def)

theorem synced_batches_survive_witness:
  "\<exists>w'. Recover (OpenWAL (crash sample_wal (syncedOffset (wal_current sample_wal))) 60 False) log_handler [] = (w', [sample_record 1], None)"
proof -
  have "wal_reach sample_wal [appended (OpenWAL [] 60 False) [sample_record 0]] 1"
    using wal_reach.sync [OF wal_reach.append [OF wal_reach.opened sample_appendable]] by (simp add: sample_wal_def)
  from synced_batches_survive [OF this order_refl total_log_handler, of 60 "[]"]
  show ?thesis
    by (auto simp: handled_log_handler appended_def OpenWAL_def openSegment_def Let_def sample_record_def le_Suc_eq)
qed

subsection \<open>What an append does\<close>

text \<open>C35: appending a batch. In every reachable log a batch that can be appended is appended: the
  call returns the first LSN it assigned, and the segment files hold the earlier batches followed
  by the new one, its records numbered consecutively and closed by the commit marker, cut into
  segments at frame boundaries only and none larger than the segment size.\<close>

theorem append_adds_whole_batch:
  assumes "wal_reach w bs d" and "appendable w records"
  shows "\<exists>w' parts rs. AppendBatch w records = (w', Inr (wal_currentLSN w + 1)) \<and>
    wal_files w' = map segment_of parts @ [(currentID w', frames rs)] \<and>
    concat (map snd parts) @ rs = log_records (bs @ [(stamp (wal_currentLSN w) records, wal_currentLSN w')]) \<and>
    wal_currentLSN w' = wal_currentLSN w + of_nat (length records) + 1 \<and>
    (\<forall>p\<in>set parts. int (length (frames (snd p))) \<le> segmentSize w) \<and> int (length (frames rs)) \<le> segmentSize w"
proof -
  obtain parts rs where h: "log_state w parts rs" "parts_records parts @ rs = log_records bs"
    using reach_history [OF assms(1)] by (auto simp: history_ok_def)
  obtain w' parts' rs' where a: "AppendBatch w records = (w', Inr (wal_currentLSN w + 1))" "log_state w' parts' rs'"
    "parts_records parts' @ rs' = parts_records parts @ rs @ batch_records (appended w records)"
    "wal_currentLSN w' = snd (appended w records)" "segmentSize w' = segmentSize w"
    using AppendBatch_appends [OF h(1) assms(2)] by metis
  have "concat (map snd parts') @ rs' = log_records (bs @ [appended w records])"
    using a(3) h(2) by (simp add: log_records_def parts_records_def)
  with a(1,2,4,5) show ?thesis
    by (intro exI [of _ w'] exI [of _ parts'] exI [of _ rs']) (auto simp: log_state_def appended_def)
qed

theorem append_adds_whole_batch_witness:
  "\<exists>w'. AppendBatch (OpenWAL [] 60 False) [sample_record 0] = (w', Inr 1) \<and> wal_currentLSN w' = 2"
  using append_adds_whole_batch [OF wal_reach.opened sample_appendable]
  by (auto simp: OpenWAL_def openSegment_def Let_def)

lemma encode_batch_rejects:
  "\<exists>r\<in>set rs. \<not> wf_record r \<or> mx < int (length (frame_of r)) \<Longrightarrow> \<exists>lsn' e. encode_batch mx rs lsn buf ends = (lsn', Inl e)"
proof (induction rs arbitrary: lsn buf ends)
  case (Cons r rs)
  show ?case
  proof (cases "wf_record r \<and> int (length (frame_of r)) \<le> mx")
    case True
    with Cons.prems have "\<exists>r\<in>set rs. \<not> wf_record r \<or> mx < int (length (frame_of r))" by auto
    with Cons.IH show ?thesis by (auto simp: Let_def split: sum.split)
  next
    case False
    then show ?thesis by (auto simp: Let_def appendFrame_layout)
  qed
qed simp

text \<open>A batch with a record of type 0, a payload beyond 32-bit length, or a frame larger than a
  segment is refused as a whole: the call returns an error and no byte of any segment has
  changed.\<close>

theorem rejected_batch_writes_nothing:
  assumes "r \<in> set records" and "\<not> wf_record r \<or> segmentSize w < int (length (frame_of r))"
  shows "\<exists>w' e. AppendBatch w records = (w', Inl e) \<and> wal_files w' = wal_files w \<and> wal_current w' = wal_current w \<and> currentID w' = currentID w"
proof -
  obtain lsn' e where "encode_batch (segmentSize w) records (wal_currentLSN w) [] [] = (lsn', Inl e)"
    using encode_batch_rejects assms by blast
  moreover have "records \<noteq> []" using assms by auto
  ultimately show ?thesis by (auto simp: AppendBatch_def Let_def)
qed

theorem rejected_batch_writes_nothing_witness:
  "\<exists>w' e. AppendBatch (OpenWAL [] 10 False) [sample_record 0] = (w', Inl e) \<and> wal_files w' = [(1, [])]"
proof -
  have big: "segmentSize (OpenWAL [] 10 False) < int (length (frame_of (sample_record 0)))"
    by (simp add: OpenWAL_def openSegment_def length_frame_of Let_def)
  have "wal_files (OpenWAL [] 10 False) = [(1, [])]" by (simp add: OpenWAL_def openSegment_def file_bytes_def Let_def)
  with rejected_batch_writes_nothing [of "sample_record 0" "[sample_record 0]" "OpenWAL [] 10 False"] big show ?thesis by fastforce
qed

subsection \<open>Truncation below a snapshot\<close>

text \<open>Records the peek can walk over: its structural checks accept them.\<close>

definition peekable :: "wal_record \<Rightarrow> bool" where
  "peekable r \<longleftrightarrow> wf_record r \<and> length (rec_Payload r) \<le> peekMaxPayload \<and> 0 < sint (rec_LSN r)"

lemma walk_one:
  assumes r: "peekable r" and b: "b = pre @ frame_of r @ tail"
  shows "walk_frames b (length pre) l = walk_frames b (length pre + length (frame_of r)) (rec_LSN r)"
proof -
  let ?p = "rec_Payload r"
  have fr: "frame_of r = be_bytes 8 (rec_LSN r) @ [rec_Type r] @ be_bytes 4 (of_nat (length ?p) :: u32) @ ?p @
      be_bytes 4 (ChecksumIEEE (body r))" by (simp add: frame_of_def body_def)
  have n: "unat (of_nat (length ?p) :: u32) = length ?p" using r by (intro unat_payload_length) (simp add: peekable_def wf_record_def)
  have hdr: "slice (length pre + 9) (length pre + 13) b = be_bytes 4 (of_nat (length ?p) :: u32)"
    "slice (length pre) (length pre + 8) b = be_bytes 8 (rec_LSN r)" "b ! (length pre + 8) = rec_Type r"
    by (simp_all add: b fr slice_def nth_append)
  have lsn: "be_word (be_bytes 8 (rec_LSN r)) = rec_LSN r" by simp
  have len: "length b = length pre + (17 + length ?p) + length tail" "length (frame_of r) = 17 + length ?p"
    by (simp_all add: b length_frame_of)
  show ?thesis
    using r by (subst walk_frames.simps) (simp add: Let_def hdr n lsn len peekable_def wf_record_def)
qed

lemma walk_all:
  "\<lbrakk> \<forall>r\<in>set rs. peekable r; b = pre @ frames rs \<rbrakk> \<Longrightarrow>
     walk_frames b (length pre) l = (length b, if rs = [] then l else rec_LSN (last rs))"
proof (induction rs arbitrary: pre l)
  case Nil
  then show ?case by (subst walk_frames.simps) (simp add: frames_def)
next
  case (Cons r rs)
  have "walk_frames b (length pre) l = walk_frames b (length (pre @ frame_of r)) (rec_LSN r)"
    using walk_one [of r b pre "frames rs" l] Cons.prems by (simp add: frames_def)
  also have "\<dots> = (length b, if rs = [] then rec_LSN r else rec_LSN (last rs))"
    using Cons.IH [of "pre @ frame_of r" "rec_LSN r"] Cons.prems by (simp add: frames_def)
  finally show ?case by simp
qed

lemma peek_last:
  assumes "\<forall>r\<in>set rs. peekable r" and "rs \<noteq> []" and "length (frames rs) \<le> peekTailChunk"
  shows "peekSegmentMaxLSN (frames rs) = rec_LSN (last rs)"
proof -
  have pos: "17 \<le> length (frames rs)" using assms(2) by (cases rs) (simp_all add: frames_def length_frame_of)
  have "walkFrameChain (drop 0 (frames rs)) = (length (frames rs), rec_LSN (last rs))"
    using walk_all [of rs "frames rs" "[]" 0] assms by (simp add: walkFrameChain_def)
  then have "peek_resync (frames rs) (min (length (frames rs)) peekResyncBound) 0 0 0 = rec_LSN (last rs)"
    using pos by (subst peek_resync.simps) (auto simp: min_def)
  then show ?thesis using pos assms(3) by (simp add: peekSegmentMaxLSN_def)
qed

text \<open>Longer segments are searched from the start of the tail window for a chain of frames that ends with
  the file. A position \<^emph>\<open>looks like the last frame\<close> if the structural checks accept a frame there that
  ends exactly at the end of the file.\<close>

definition frame_lsn :: "bytes \<Rightarrow> nat \<Rightarrow> i64" where
  "frame_lsn b off = be_word (slice off (off + 8) b)"

definition looks_last :: "bytes \<Rightarrow> nat \<Rightarrow> bool" where
  "looks_last b off \<longleftrightarrow>
     (let payloadLen = unat (be_word (slice (off + 9) (off + 13) b) :: u32)
      in off + RecordHeaderSize + payloadLen + RecordCRCSize = length b \<and> payloadLen \<le> peekMaxPayload \<and>
         b ! (off + 8) \<noteq> 0 \<and> 0 < sint (frame_lsn b off))"

lemma slice_drop [simp]: "slice i j (drop k b) = slice (k + i) (k + j) b"
  by (simp add: slice_def take_drop add.commute)

lemma looks_last_drop:
  assumes "looks_last (drop k b) off" "k \<le> length b"
  shows "looks_last b (k + off)" "frame_lsn (drop k b) off = frame_lsn b (k + off)"
proof -
  show "frame_lsn (drop k b) off = frame_lsn b (k + off)" by (simp add: frame_lsn_def add.assoc)
  with assms show "looks_last b (k + off)" by (auto simp: looks_last_def Let_def add.assoc)
qed

lemma walk_le: "off \<le> length b \<Longrightarrow> fst (walk_frames b off l) \<le> length b"
  by (induction b off l rule: walk_frames.induct) (subst walk_frames.simps, simp add: Let_def)

text \<open>A walk that reaches the end of the file has passed such a position and returns its LSN.\<close>

lemma walk_to_end:
  "\<lbrakk> off < length b; walk_frames b off l = (length b, l') \<rbrakk> \<Longrightarrow> \<exists>p. looks_last b p \<and> l' = frame_lsn b p"
proof (induction b off l arbitrary: rule: walk_frames.induct)
  case (1 b off l)
  let ?n = "unat (be_word (slice (off + 9) (off + 13) b) :: u32)"
  from "1.prems" have ok: "\<not> off + RecordHeaderSize + RecordCRCSize > length b" "\<not> ?n > peekMaxPayload"
    "\<not> off + (RecordHeaderSize + ?n + RecordCRCSize) > length b" "b ! (off + 8) \<noteq> 0" "\<not> sint (frame_lsn b off) \<le> 0"
    by (subst (asm) walk_frames.simps; simp add: Let_def frame_lsn_def split: if_splits)+
  then have rec: "walk_frames b (off + (RecordHeaderSize + ?n + RecordCRCSize)) (frame_lsn b off) = (length b, l')"
    using "1.prems"(2) by (subst (asm) walk_frames.simps) (simp add: Let_def frame_lsn_def)
  show ?case
  proof (cases "off + (RecordHeaderSize + ?n + RecordCRCSize) = length b")
    case True
    have "walk_frames b (length b) (frame_lsn b off) = (length b, frame_lsn b off)" by (subst walk_frames.simps) simp
    with rec True ok have "looks_last b off" "l' = frame_lsn b off" by (auto simp: looks_last_def Let_def)
    then show ?thesis by blast
  next
    case False
    with ok(3) have "off + (RecordHeaderSize + ?n + RecordCRCSize) < length b" by simp
    from "1.IH" [OF ok(1) refl refl refl ok(2,3,4) _ this] rec ok(5) show ?thesis by (simp add: frame_lsn_def)
  qed
qed

lemma resync_bound:
  assumes low: "\<And>p. looks_last data p \<Longrightarrow> m \<le> sint (frame_lsn data p)" and buf: "buf = drop base data" "base \<le> length data"
    and lim: "limit \<le> length buf" and B: "B < limit" "fst (walkFrameChain (drop B buf)) = length buf - B"
  shows "\<lbrakk> start \<le> B; bestEnd < length buf \<rbrakk> \<Longrightarrow> m \<le> sint (peek_resync buf limit start bestEnd bestLSN)"
proof (induction "B - start" arbitrary: start bestEnd bestLSN rule: less_induct)
  case less
  let ?b = "drop start buf"
  obtain e l where w: "walkFrameChain ?b = (e, l)" by fastforce
  have e: "e \<le> length buf - start" using walk_le [of 0 ?b 0] w by (simp add: walkFrameChain_def)
  have lt: "start < limit" using less.prems(1) B(1) by simp
  show ?case
  proof (cases "e = length buf - start")
    case True
    have "walk_frames ?b 0 0 = (length ?b, l)" using w True by (simp add: walkFrameChain_def)
    then obtain p where p: "looks_last ?b p" "l = frame_lsn ?b p" using walk_to_end [of 0 ?b 0 l] lt lim by auto
    have d: "?b = drop (base + start) data" "base + start \<le> length data" using buf lt lim by (simp_all add: add.commute)
    have "m \<le> sint l" using looks_last_drop [of "base + start" data p] p d low by auto
    then show ?thesis using w True lt lim less.prems(2) by (subst peek_resync.simps) simp
  next
    case False
    then have ne: "start \<noteq> B" using w B(2) by auto
    then have "B - (start + 1) < B - start" "start + 1 \<le> B" using less.prems(1) by simp_all
    moreover have "(if start + e > bestEnd then start + e else bestEnd) < length buf" using less.prems(2) False e lt lim by (auto split: if_split)
    ultimately show ?thesis using w False lt less.hyps [of "start + 1"] by (subst peek_resync.simps) auto
  qed
qed

lemma frame_boundary:
  "\<lbrakk> \<forall>r\<in>set rs. length (frame_of r) \<le> m; 0 < m; base \<le> length (frames rs) \<rbrakk> \<Longrightarrow>
     \<exists>pre suf. rs = pre @ suf \<and> base \<le> length (frames pre) \<and> length (frames pre) < base + m"
proof (induction rs rule: rev_induct)
  case Nil
  then show ?case by (simp add: frames_def)
next
  case (snoc r rs)
  show ?case
  proof (cases "base \<le> length (frames rs)")
    case True
    then obtain pre suf where "rs = pre @ suf" "base \<le> length (frames pre)" "length (frames pre) < base + m" using snoc by auto
    then show ?thesis by (intro exI [of _ pre] exI [of _ "suf @ [r]"]) simp
  next
    case False
    have "length (frame_of r) \<le> m" using snoc.prems(1) by simp
    with False snoc.prems(3) show ?thesis by (intro exI [of _ "rs @ [r]"] exI [of _ "[]"]) (simp add: frames_append frames_def)
  qed
qed

text \<open>A segment whose last record the peek cannot miss.\<close>

definition peek_safe :: "wal_record list \<Rightarrow> bool" where
  "peek_safe rs \<longleftrightarrow> (\<forall>r\<in>set rs. peekable r) \<and>
     (length (frames rs) \<le> peekTailChunk \<or>
      (\<forall>r\<in>set rs. length (frame_of r) \<le> peekResyncBound) \<and>
      (\<forall>p<length (frames rs). looks_last (frames rs) p \<longrightarrow> sint (rec_LSN (last rs)) \<le> sint (frame_lsn (frames rs) p)))"

lemma peek_safe_bound:
  assumes safe: "peek_safe rs" and ne: "rs \<noteq> []"
  shows "sint (rec_LSN (last rs)) \<le> sint (peekSegmentMaxLSN (frames rs))"
proof (cases "length (frames rs) \<le> peekTailChunk")
  case True
  with safe ne peek_last [of rs] show ?thesis by (simp add: peek_safe_def)
next
  case False
  let ?n = "length (frames rs)" and ?base = "length (frames rs) - peekTailChunk"
  let ?buf = "drop ?base (frames rs)"
  have small: "\<forall>r\<in>set rs. length (frame_of r) \<le> peekResyncBound" using safe False by (simp add: peek_safe_def)
  then obtain pre suf where c: "rs = pre @ suf" "?base \<le> length (frames pre)" "length (frames pre) < ?base + peekResyncBound"
    using frame_boundary [of rs peekResyncBound ?base] by auto
  let ?B = "length (frames pre) - ?base"
  have dr: "drop ?B ?buf = frames suf" using c(1,2) by (simp add: frames_append)
  have "fst (walkFrameChain (drop ?B ?buf)) = length ?buf - ?B"
    unfolding dr using walk_all [of suf "frames suf" "[]" 0] safe c by (simp add: walkFrameChain_def peek_safe_def frames_append)
  moreover have "p < length (frames rs)" if "looks_last (frames rs) p" for p using that by (simp add: looks_last_def Let_def)
  ultimately have "sint (rec_LSN (last rs)) \<le> sint (peek_resync ?buf peekResyncBound 0 0 0)"
    using safe False c by (intro resync_bound [where data = "frames rs" and base = ?base and B = ?B]) (auto simp: peek_safe_def)
  then show ?thesis using False by (simp add: peekSegmentMaxLSN_def min_def)
qed

lemma last_is_max:
  assumes "sorted (map (\<lambda>r. sint (rec_LSN r)) rs)" "r \<in> set rs"
  shows "sint (rec_LSN r) \<le> sint (rec_LSN (last rs))"
proof -
  obtain i where i: "i < length rs" "r = rs ! i" using assms(2) by (auto simp: in_set_conv_nth)
  then have "last rs = rs ! (length rs - 1)" by (cases rs) (auto simp: last_conv_nth)
  then show ?thesis using i sorted_nth_mono [OF assms(1), of i "length rs - 1"] by simp
qed

text \<open>C36: Truncation below a snapshot, in a log whose segments hold records with ascending positive LSNs. A
  segment may be of any size; one longer than the tail window of 64 KiB has no frame above 4096 bytes (those
  of the ledger have at most 161) and no position that looks like a frame ending exactly at the end of
  the file, with an LSN below the last record's. Then \<^verbatim>\<open>TruncateBefore\<close> keeps, in order, every segment with a
  record at or above the given LSN, and never touches the active segment; what it keeps of the older segments
  that fit into the window has such a record.\<close>

theorem truncation_keeps_newer_records:
  assumes "wal_files w = map segment_of parts"
    and "\<forall>p\<in>set parts. peek_safe (snd p) \<and> sorted (map (\<lambda>r. sint (rec_LSN r)) (snd p))"
  shows "\<exists>kept. wal_files (TruncateBefore w lsn) = map segment_of kept \<and> subseq kept parts \<and>
    (\<forall>p\<in>set parts. p \<in> set kept \<or> fst p < currentID w \<and> (\<forall>r\<in>set (snd p). sint (rec_LSN r) < sint lsn)) \<and>
    (\<forall>p\<in>set kept. currentID w \<le> fst p \<or> peekTailChunk < length (frames (snd p)) \<or> sint lsn \<le> 0 \<or>
       (\<exists>r\<in>set (snd p). sint lsn \<le> sint (rec_LSN r)))"
proof (intro exI conjI)
  let ?keep = "\<lambda>p. \<not> (fst p < currentID w \<and> sint (peekSegmentMaxLSN (frames (snd p))) < sint lsn)"
  have "(\<lambda>(k, data). \<not> (k < currentID w \<and> sint (peekSegmentMaxLSN data) < sint lsn)) \<circ> segment_of = ?keep"
    by (simp add: fun_eq_iff segment_of_def)
  then show "wal_files (TruncateBefore w lsn) = map segment_of (filter ?keep parts)"
    using assms(1) by (simp add: TruncateBefore_def filter_map)
  show "subseq (filter ?keep parts) parts" by (rule subseq_filter_left)
  have "sint (rec_LSN r) < sint lsn" if p: "p \<in> set parts" "sint (peekSegmentMaxLSN (frames (snd p))) < sint lsn" "r \<in> set (snd p)" for p r
  proof -
    have "sint (rec_LSN (last (snd p))) \<le> sint (peekSegmentMaxLSN (frames (snd p)))"
      using assms(2) p by (intro peek_safe_bound) auto
    moreover have "sint (rec_LSN r) \<le> sint (rec_LSN (last (snd p)))" using assms(2) p(1,3) by (intro last_is_max) auto
    ultimately show ?thesis using p(2) by simp
  qed
  then show "\<forall>p\<in>set parts. p \<in> set (filter ?keep parts) \<or> fst p < currentID w \<and> (\<forall>r\<in>set (snd p). sint (rec_LSN r) < sint lsn)"
    by auto
  have "sint lsn \<le> 0 \<or> (\<exists>r\<in>set (snd p). sint lsn \<le> sint (rec_LSN r))"
    if p: "p \<in> set parts" "length (frames (snd p)) \<le> peekTailChunk" "\<not> sint (peekSegmentMaxLSN (frames (snd p))) < sint lsn" for p
  proof (cases "snd p = []")
    case True
    with p(3) show ?thesis by (simp add: peekSegmentMaxLSN_def frames_def)
  next
    case False
    have "\<forall>r\<in>set (snd p). peekable r" using assms(2) p(1) by (simp add: peek_safe_def)
    with peek_last [OF _ False p(2)] p(3) False show ?thesis by (intro disjI2 bexI [of _ "last (snd p)"]) auto
  qed
  then show "\<forall>p\<in>set (filter ?keep parts). currentID w \<le> fst p \<or> peekTailChunk < length (frames (snd p)) \<or> sint lsn \<le> 0 \<or>
       (\<exists>r\<in>set (snd p). sint lsn \<le> sint (rec_LSN r))"
    by (auto simp: not_less not_le simp flip: not_less) (meson not_less)
qed

text \<open>Witness: a closed segment of 20 records of 4000 bytes, longer than the tail window.\<close>

definition long_segment :: "wal_record list" where
  "long_segment = replicate 20 \<lparr>rec_LSN = 1, rec_Type = 2, rec_Payload = zeros 4000\<rparr>"

theorem truncation_keeps_newer_records_witness:
  "peekTailChunk < length (frames long_segment) \<and>
   (\<exists>kept. wal_files (TruncateBefore (OpenWAL [] 60 False\<lparr>wal_files := map segment_of [(1, long_segment), (2, [sample_record 2])], currentID := 3\<rparr>) 1) =
     map segment_of kept \<and> (1, long_segment) \<in> set kept)"
proof -
  let ?parts = "[(1, long_segment), (2, [sample_record 2])]"
  have len: "length (frames long_segment) = 80340"
    by (simp add: long_segment_def frames_def length_concat length_frame_of sum_list_replicate)
  have "peek_safe long_segment"
    by (auto simp: peek_safe_def looks_last_def Let_def long_segment_def peekable_def wf_record_def length_frame_of)
  moreover have "peek_safe [sample_record 2]"
    by (simp add: peek_safe_def peekable_def wf_sample_record frames_def length_frame_of) (simp add: sample_record_def)
  moreover have "sorted (map (\<lambda>r. sint (rec_LSN r)) long_segment)" by (simp add: long_segment_def)
  ultimately have "\<forall>p\<in>set ?parts. peek_safe (snd p) \<and> sorted (map (\<lambda>r. sint (rec_LSN r)) (snd p))" by simp
  moreover have "\<exists>r\<in>set long_segment. sint (rec_LSN r) = 1" by (simp add: long_segment_def)
  ultimately show ?thesis
    using truncation_keeps_newer_records [of "OpenWAL [] 60 False\<lparr>wal_files := map segment_of ?parts, currentID := 3\<rparr>" ?parts 1] len by fastforce
qed

subsection \<open>Direct I/O pads segments\<close>

text \<open>A segment opened for direct I/O and still empty: a batch that fits into one block stays in
  the buffer, and \<^verbatim>\<open>Sync\<close> writes the block padded with zeros.\<close>

definition fresh_direct :: "wal \<Rightarrow> segment_files \<Rightarrow> bool" where
  "fresh_direct w fs \<longleftrightarrow> wal_files w = fs @ [(currentID w, [])] \<and> (\<forall>p\<in>set fs. fst p < currentID w) \<and> directIO w \<and>
     wal_current w = \<lparr>seg_id = currentID w, maxSize = segmentSize w, writeOffset = 0, syncedOffset = 0, directBuf = Some (newDirectIOBuffer 0)\<rparr>"

lemma direct_write_block:
  assumes "src \<noteq> []" and "length src \<le> DirectIOBlockSize"
  shows "direct_write (newDirectIOBuffer 0) data src =
    (\<lparr>block = src @ zeros (DirectIOBlockSize - length src), blockOffset = 0, buffered = length src\<rparr>, data)"
proof -
  let ?d = "\<lparr>block = src @ zeros (DirectIOBlockSize - length src), blockOffset = 0, buffered = length src\<rparr>"
  have "direct_write ?d data [] = (?d, data)" by (subst direct_write.simps) simp
  then show ?thesis
    using assms by (subst direct_write.simps) (simp add: newDirectIOBuffer_def copy_at_def Let_def)
qed

lemma fit_all:
  assumes "int (length (frames qs)) \<le> space" and "length (frames qs) < 2147483648"
  shows "fit_frames space 0 (ends_of 0 qs) 0 = (int (length (frames qs)), [])"
proof -
  from fit_frames_prefix [of 0 qs 0 space] assms obtain n where n: "n \<le> length qs"
    "fit_frames space 0 (ends_of 0 qs) 0 = (int (length (frames (take n qs))), ends_of (length (frames (take n qs))) (drop n qs))"
    "n < length qs \<longrightarrow> space < int (length (frames (take n qs)) + length (frame_of (qs ! n)))" by auto
  have "n = length qs"
  proof (rule ccontr)
    assume "n \<noteq> length qs"
    with n(1) have less: "n < length qs" by simp
    have "frames qs = frames (take n qs) @ frame_of (qs ! n) @ frames (drop (Suc n) qs)"
      using id_take_nth_drop [OF less] by (metis append_Cons append_Nil frames_append frames_def concat.simps list.map append_Nil2)
    then have "length (frames (take n qs)) + length (frame_of (qs ! n)) \<le> length (frames qs)" by simp
    with n(3) less assms(1) show False by simp
  qed
  with n(2) show ?thesis by simp
qed

lemma direct_append:
  assumes w: "fresh_direct w fs" and ok: "appendable w records"
    and len: "length (frames records) + 29 \<le> DirectIOBlockSize" "int (length (frames records) + 29) \<le> segmentSize w"
  defines "data \<equiv> frames (batch_records (appended w records))"
  shows "AppendBatch w records =
    (w\<lparr>wal_currentLSN := snd (appended w records),
        wal_current := (wal_current w)\<lparr>writeOffset := length data,
          directBuf := Some \<lparr>block = data @ zeros (DirectIOBlockSize - length data), blockOffset = 0, buffered = length data\<rparr>\<rparr>\<rparr>,
     Inr (wal_currentLSN w + 1))"
proof -
  let ?lsn = "wal_currentLSN w" and ?qs = "batch_records (appended w records)"
  let ?w = "w\<lparr>wal_currentLSN := snd (appended w records)\<rparr>"
  have n: "length data = length (frames records) + 29" using AppendBatch_encoded(2) [OF ok] by (simp add: data_def)
  have fit: "fit_frames (segmentSize w) 0 (ends_of 0 ?qs) 0 = (int (length data), [])"
    using fit_all [of ?qs "segmentSize w"] n len by (simp add: data_def)
  have cur: "wal_current ?w = \<lparr>seg_id = currentID w, maxSize = segmentSize w, writeOffset = 0, syncedOffset = 0, directBuf = Some (newDirectIOBuffer 0)\<rparr>"
    "\<not> IsFull (wal_current ?w) 1" "\<not> IsFull (wal_current ?w) (int (length data))"
    using w n len by (auto simp: fresh_direct_def IsFull_def)
  have below: "\<forall>p\<in>set fs. fst p < currentID w" using w by (simp add: fresh_direct_def)
  have files: "wal_files w = fs @ [(currentID w, [])]" using w by (simp add: fresh_direct_def)
  have fb: "file_bytes (wal_files w) (currentID w) = []" unfolding file_bytes_def files map_of_last [OF below] by simp
  have ne: "data \<noteq> []" using n by auto
  have dw: "direct_write (newDirectIOBuffer 0) [] data =
     (\<lparr>block = data @ zeros (DirectIOBlockSize - length data), blockOffset = 0, buffered = length data\<rparr>, [])"
    using direct_write_block [OF ne, of "[]"] n len by simp
  let ?w' = "?w\<lparr>wal_current := (wal_current w)\<lparr>writeOffset := length data,
          directBuf := Some \<lparr>block = data @ zeros (DirectIOBlockSize - length data), blockOffset = 0, buffered = length data\<rparr>\<rparr>\<rparr>"
  have "wal_Write ?w data = (?w', None)"
    using cur fb dw update_file_last [OF below] w by (simp add: wal_Write_def seg_Write_def files fresh_direct_def Let_def)
  moreover have "slice 0 (length data) data = data" by (rule slice_all) simp
  moreover have "write_loop ?w' data (length data) [] = (?w', None)" by (subst write_loop.simps) simp
  ultimately have wr: "write_loop ?w data 0 (ends_of 0 ?qs) = (?w', None)"
    using cur fit ne by (subst write_loop.simps) (simp add: Let_def)
  show ?thesis
    using wr AppendBatch_encoded(1) [OF ok] by (simp add: data_def)
qed

lemma direct_sync:
  fixes l :: i64 and d :: bytes
  assumes w: "fresh_direct w fs" and d: "0 < length d" "length d \<le> DirectIOBlockSize"
  defines "w' \<equiv> w\<lparr>wal_currentLSN := l, wal_current := (wal_current w)\<lparr>writeOffset := length d,
     directBuf := Some \<lparr>block = d @ zeros (DirectIOBlockSize - length d), blockOffset = 0, buffered = length d\<rparr>\<rparr>\<rparr>"
  shows "wal_files (Sync w') = fs @ [(currentID w, d @ zeros (DirectIOBlockSize - length d))]"
proof -
  have below: "\<forall>p\<in>set fs. fst p < currentID w" using w by (simp add: fresh_direct_def)
  have files: "wal_files w' = fs @ [(currentID w, [])]" "seg_id (wal_current w') = currentID w" using w by (simp_all add: w'_def fresh_direct_def)
  have fb: "file_bytes (wal_files w') (currentID w) = []" unfolding file_bytes_def files map_of_last [OF below] by simp
  have "snd (seg_Sync (wal_current w') []) = d @ zeros (DirectIOBlockSize - length d)"
    using d by (auto simp: w'_def seg_Sync_def flush_def WriteAt_def copy_at_def Let_def)
  then show ?thesis using update_file_last [OF below] by (simp add: Sync_def files fb [unfolded files(1)] Let_def case_prod_beta)
qed

lemma direct_rotate:
  assumes "wal_files (Sync w) = fs" and "\<forall>p\<in>set fs. fst p < Suc (currentID w)" and "directIO w" and "0 < segmentSize w"
  shows "fresh_direct (Rotate w) fs"
proof -
  have "file_bytes fs (Suc (currentID w)) = []" unfolding file_bytes_def map_of_beyond [OF assms(2)] by simp
  then show ?thesis
    using assms put_file_last(2) [OF assms(2)]
    by (simp add: fresh_direct_def Rotate_def rotateLocked_def openSegment_def Let_def)
qed

text \<open>The zeros behind the frames are taken for a corrupt frame.\<close>

lemma be_word_zeros: "be_word (zeros n) = 0"
  by (induction n) (simp_all add: be_word_Cons)

lemma replay_zeros:
  assumes "0 < n"
  shows "replay_loop handler (pre @ zeros n) (length pre) co h st =
    \<lparr>rr_stop = True, rr_committedOffset = co, rr_err = None, rr_handler = h, rr_state = st\<rparr>"
proof (cases "n < 17")
  case True
  with assms show ?thesis by (subst replay_loop.simps) (simp add: Let_def)
next
  case False
  have hdr: "slice (length pre + 9) (length pre + 13) (pre @ zeros n) = zeros 4" "slice (length pre) (length pre + 17) (pre @ zeros n) = zeros 17"
    using False by (simp_all add: slice_def min_def)
  have "DecodeRecord (zeros 17) = Inl ErrCorrupted" by (simp add: DecodeRecord_def Let_def)
  with False hdr show ?thesis by (subst replay_loop.simps) (simp add: Let_def be_word_zeros)
qed

text \<open>Recovery of a padded segment: the batches of that segment are replayed, the padding is cut
  off, and every later segment is removed unread.\<close>

lemma recover_padded:
  fixes h :: 'h and n k :: nat and later :: segment_files
  assumes bs: "\<forall>b\<in>set bs. wf_batch b" "bs \<noteq> []" and n: "0 < n" and tot: "total_handler handler"
  defines "rc \<equiv> recoverSegments ((k, frames (log_records bs) @ zeros n) # later) 0 handler h"
  shows "rc_err rc = None" "rc_handler rc = handled handler h (concat (map fst bs))" "rc_LSN rc = last_LSN bs"
    "rc_files rc = [(k, frames (log_records bs))]" "rc_lastSegment rc = k"
proof -
  let ?d = "frames (log_records bs) @ zeros n" and ?st = "replayState0\<lparr>highestLSN := snd (last bs)\<rparr>"
  have wf: "\<forall>r\<in>set (log_records bs). wf_record r" using wf_log_records [OF bs(1)] .
  have "foldl (feed handler) (h, replayState0, 0, 0) (log_records bs) =
      (handled handler h (concat (map fst bs)), ?st, length (frames (log_records bs)), length (frames (log_records bs)))"
    using feed_log [OF bs(1) _ tot, of replayState0 h 0 0] bs(2) by (simp add: replayState0_def)
  then have "replay_loop handler ?d 0 0 h replayState0 =
      replay_loop handler ?d (length (frames (log_records bs))) (length (frames (log_records bs))) (handled handler h (concat (map fst bs))) ?st"
    using replay_frames [OF wf tot, of ?d "[]" "zeros n" 0 h replayState0] by (simp add: frames_def)
  then have seg: "replaySegment handler ?d h replayState0 =
      \<lparr>rr_stop = True, rr_committedOffset = length (frames (log_records bs)), rr_err = None,
       rr_handler = handled handler h (concat (map fst bs)), rr_state = ?st\<rparr>"
    using n replay_zeros [OF n, of handler "frames (log_records bs)"] by (simp add: replaySegment_def)
  show "rc_err rc = None" "rc_handler rc = handled handler h (concat (map fst bs))" "rc_LSN rc = last_LSN bs" "rc_lastSegment rc = k"
    using bs(2) by (simp_all add: rc_def recoverSegments_def seg Let_def last_LSN_def)
  show "rc_files rc = [(k, frames (log_records bs))]"
    by (simp add: rc_def recoverSegments_def seg Let_def truncateSegments_def)
qed

lemma direct_two_segments:
  fixes mx :: int and ra :: "wal_record list"
  assumes "appendable (OpenWAL [] mx True) ra" and "length (frames ra) + 29 < DirectIOBlockSize" and "int (length (frames ra) + 29) \<le> mx"
    and "total_handler handler"
  defines "w1 \<equiv> Rotate (fst (AppendBatch (OpenWAL [] mx True) ra))"
  assumes "appendable w1 rb" and "length (frames rb) + 29 < DirectIOBlockSize" and "int (length (frames rb) + 29) \<le> mx"
  shows "let w2 = Sync (fst (AppendBatch w1 rb))
    in snd (AppendBatch w1 rb) = Inr (wal_currentLSN w1 + 1) \<and> length (wal_files w2) = 2 \<and>
       (\<exists>w3. Recover (OpenWAL (wal_files w2) mx True) handler h = (w3, handled handler h (stamp 0 ra), None) \<and> length (wal_files w3) = 1)"
proof -
  let ?w0 = "OpenWAL [] mx True"
  have mx: "0 < mx" using assms(3) by simp
  have f0: "fresh_direct ?w0 []" "segmentSize ?w0 = mx" "currentID ?w0 = 1" "wal_currentLSN ?w0 = 0"
    using mx by (simp_all add: fresh_direct_def OpenWAL_def openSegment_def file_bytes_def Let_def)
  let ?A = "frames (batch_records (appended ?w0 ra))"
  have nA: "length ?A = length (frames ra) + 29" by (rule AppendBatch_encoded(2) [OF assms(1)])
  note a = direct_append [OF f0(1) assms(1)]
  have files1: "wal_files (Sync (fst (AppendBatch ?w0 ra))) = [(1, ?A @ zeros (DirectIOBlockSize - length ?A))]"
    using a direct_sync [OF f0(1), of ?A "snd (appended ?w0 ra)"] nA assms(2,3) f0 by simp
  have id1: "currentID (fst (AppendBatch ?w0 ra)) = 1" "directIO (fst (AppendBatch ?w0 ra))" "segmentSize (fst (AppendBatch ?w0 ra)) = mx"
    using a assms(2,3) f0 by (simp_all add: fresh_direct_def)
  let ?fs = "[(1, ?A @ zeros (DirectIOBlockSize - length ?A))]"
  have f1: "fresh_direct w1 ?fs" unfolding w1_def by (rule direct_rotate [OF files1]) (use id1 mx in simp_all)
  have s1: "segmentSize w1 = mx" "currentID w1 = 2"
    using id1 by (simp_all add: w1_def Rotate_def rotateLocked_def openSegment_def Let_def)
  let ?B = "frames (batch_records (appended w1 rb))"
  have nB: "length ?B = length (frames rb) + 29" by (rule AppendBatch_encoded(2) [OF assms(6)])
  note b = direct_append [OF f1 assms(6)]
  have files2: "wal_files (Sync (fst (AppendBatch w1 rb))) = ?fs @ [(2, ?B @ zeros (DirectIOBlockSize - length ?B))]"
    using b direct_sync [OF f1, of ?B "snd (appended w1 rb)"] nB assms(7,8) s1 by simp
  define fs2 :: segment_files where "fs2 = ?fs @ [(2, ?B @ zeros (DirectIOBlockSize - length ?B))]"
  have op: "wal_files (OpenWAL fs2 mx True) = fs2" "wal_currentLSN (OpenWAL fs2 mx True) = 0"
    by (simp_all add: fs2_def OpenWAL_def openSegment_def file_bytes_def Let_def)
  have wfA: "wf_batch (appended ?w0 ra)" and posA: "positive_LSNs [appended ?w0 ra]"
    using appended_ok [OF assms(1)] f0 by simp_all
  have logA: "frames (log_records [appended ?w0 ra]) = ?A" by (simp add: log_records_def)
  let ?rc = "recoverSegments fs2 0 (filterHandler 0 handler) h"
  have rc: "rc_err ?rc = None" "rc_handler ?rc = handled (filterHandler 0 handler) h (stamp 0 ra)" "rc_files ?rc = [(1, ?A)]" "rc_lastSegment ?rc = 1"
    using recover_padded [where bs = "[appended ?w0 ra]" and k = 1 and n = "DirectIOBlockSize - length ?A" and handler = "filterHandler 0 handler"
        and h = h and later = "[(2, ?B @ zeros (DirectIOBlockSize - length ?B))]"] wfA logA nA assms(2) total_filterHandler [OF assms(4)]
    by (simp_all add: fs2_def appended_def f0)
  have "handled (filterHandler 0 handler) h (stamp 0 ra) = handled handler h (stamp 0 ra)"
    by (rule handled_filter [OF assms(4)]) (use posA f0 in \<open>auto simp: positive_LSNs_def appended_def\<close>)
  then have "\<exists>w3. Recover (OpenWAL fs2 mx True) handler h = (w3, handled handler h (stamp 0 ra), None) \<and> length (wal_files w3) = 1"
    using rc op by (simp add: Recover_def RecoverFromLSN_def openSegment_def file_bytes_def Let_def)
  moreover have "snd (AppendBatch w1 rb) = Inr (wal_currentLSN w1 + 1)" using b assms(7,8) s1 by simp
  ultimately show ?thesis unfolding Let_def files2 fs2_def by simp
qed

text \<open>With direct I/O, rotation and recovery together destroy committed batches. \<^verbatim>\<open>Sync\<close> pads
  the last block of a segment with zeros, recovery takes the padding of the first segment for a
  corrupt frame and removes all later segments: of two batches appended and synced in two
  segments, with no crash and no lost byte, the second is gone after a restart.\<close>

theorem direct_io_loses_segments:
  "let w1 = Rotate (fst (AppendBatch (OpenWAL [] 10000 True) [sample_record 0]));
       w2 = Sync (fst (AppendBatch w1 [sample_record 0]));
       (w3, recovered, err) = Recover (OpenWAL (wal_files w2) 10000 True) log_handler []
   in snd (AppendBatch w1 [sample_record 0]) = Inr 3 \<and> length (wal_files w2) = 2 \<and>
      recovered = [sample_record 1] \<and> err = None \<and> length (wal_files w3) = 1"
proof -
  let ?w0 = "OpenWAL [] 10000 True" and ?r = "[sample_record 0]"
  have f0: "fresh_direct ?w0 []" by (simp add: fresh_direct_def OpenWAL_def openSegment_def file_bytes_def Let_def)
  have len: "length (frames ?r) + 29 < DirectIOBlockSize" by (simp add: frames_def length_frame_of sample_record_def)
  have ap: "appendable w ?r" if "segmentSize w = 10000" "wal_currentLSN w = 0 \<or> wal_currentLSN w = 2" for w
    using that by (auto simp: appendable_def wf_record_def frames_def length_frame_of sample_record_def)
  have s0: "segmentSize ?w0 = 10000" "wal_currentLSN ?w0 = 0" by (simp_all add: OpenWAL_def openSegment_def Let_def)
  note a = direct_append [OF f0 ap [OF s0(1) disjI1 [OF s0(2)]]]
  have s1: "segmentSize (Rotate (fst (AppendBatch ?w0 ?r))) = 10000" "wal_currentLSN (Rotate (fst (AppendBatch ?w0 ?r))) = 2"
    using a len s0 by (simp_all add: Rotate_def rotateLocked_def openSegment_def appended_def Let_def)
  have "stamp 0 ?r = [sample_record 1]" by (simp add: sample_record_def)
  then show ?thesis
    using direct_two_segments [OF ap [OF s0(1) disjI1 [OF s0(2)]] len _ total_log_handler ap [OF s1(1) disjI2 [OF s1(2)]] len, of "[]"] len s1
    by (auto simp: handled_log_handler Let_def)
qed

end
