(* ===== verification/Wal_Stream.thy ===== *)
theory Wal_Stream
  imports Wal_Log
begin

text \<open>
  Streaming the log to followers (\<^verbatim>\<open>internal/wal/stream.go\<close>). A reader walks the segment files
  in order, collects records until the commit marker of their batch arrives and hands out whole
  batches only; of the live segment it reads the synced bytes only.

  A call of \<^verbatim>\<open>Next\<close> is modelled against one state of the log; between two calls the log may
  change in any way. An open file stays readable after its name has been removed, so the reader
  keeps what the file held when it was opened. Errors of the operating system are not modelled.

  The lemmas show that a reader which finds every segment worth reading delivers exactly the
  committed batches, in order, and then reports that it has caught up. Three situations in which
  the reader silently passes over a committed batch are proved as such.
\<close>

subsection \<open>The reader\<close>

datatype stream_error = StreamCorrupted wal_error | UnexpectedEOF

record streamReader =
  sr_fromLSN :: i64
  sr_ids :: "nat list"
  sr_idx :: nat
  sr_maxID :: nat
  sr_f :: "bytes option"
  sr_id :: nat
  sr_size :: nat
  sr_offset :: nat
  sr_pending :: "wal_record list"
  sr_emit :: "wal_record list"

definition NewStreamReader :: "i64 \<Rightarrow> streamReader" where
  "NewStreamReader fromLSN =
     \<lparr>sr_fromLSN = fromLSN, sr_ids = [], sr_idx = 0, sr_maxID = 0, sr_f = None, sr_id = 0, sr_size = 0, sr_offset = 0,
      sr_pending = [], sr_emit = []\<rparr>"

definition CloseReader :: "streamReader \<Rightarrow> streamReader" where
  "CloseReader sr = sr\<lparr>sr_f := None\<rparr>"

definition listSegmentIDs :: "wal \<Rightarrow> nat list" where
  "listSegmentIDs w = sort (map fst (wal_files w))"

text \<open>The slice \<^verbatim>\<open>ids\<close> is nil exactly when it is empty.\<close>

definition first_listing :: "wal \<Rightarrow> streamReader \<Rightarrow> streamReader" where
  "first_listing w sr =
     (let listed = listSegmentIDs w;
          kept = filter (\<lambda>k. \<not> sint (peekSegmentMaxLSN (file_bytes (wal_files w) k)) \<le> sint (sr_fromLSN sr)) listed
      in if kept = [] then sr else sr\<lparr>sr_ids := kept, sr_maxID := last listed, sr_idx := 0\<rparr>)"

function open_listed :: "wal \<Rightarrow> streamReader \<Rightarrow> streamReader \<times> bool" where
  "open_listed w sr =
     (if sr_idx sr < length (sr_ids sr)
      then
        let k = sr_ids sr ! sr_idx sr
        in (case map_of (wal_files w) k of
              None \<Rightarrow> open_listed w (sr\<lparr>sr_idx := sr_idx sr + 1\<rparr>)
            | Some data \<Rightarrow> (sr\<lparr>sr_f := Some data, sr_id := k, sr_size := length data, sr_offset := 0\<rparr>, True))
      else (sr, False))"
  by pat_completeness auto
termination
  by (relation "measure (\<lambda>(w, sr). length (sr_ids sr) - sr_idx sr)") auto

declare open_listed.simps [simp del]

text \<open>The ids of the listing are ascending, so the loop appends those above the old maximum.\<close>

definition relist :: "wal \<Rightarrow> streamReader \<Rightarrow> streamReader \<times> bool" where
  "relist w sr =
     foldl (\<lambda>(sr, appended) k. if sr_maxID sr < k then (sr\<lparr>sr_ids := sr_ids sr @ [k], sr_maxID := k\<rparr>, True) else (sr, appended))
       (sr, False) (listSegmentIDs w)"

text \<open>How many segments the reader may still open, and whether one is open: the measure by which
  its loops end.\<close>

definition unseen :: "wal \<Rightarrow> nat \<Rightarrow> nat" where
  "unseen w m = length (filter (\<lambda>k. m < k) (listSegmentIDs w))"

definition reader_work :: "wal \<Rightarrow> streamReader \<Rightarrow> nat" where
  "reader_work w sr =
     2 * (if sr_ids sr = [] then length (wal_files w) + 1
          else length (sr_ids sr) - (if sr_f sr = None then sr_idx sr else sr_idx sr + 1) + unseen w (sr_maxID sr)) +
     (if sr_f sr = None then 0 else 1)"

lemma length_listSegmentIDs [simp]: "length (listSegmentIDs w) = length (wal_files w)"
  by (simp add: listSegmentIDs_def)

lemma relist_fold:
  assumes "sorted ks"
    and "foldl (\<lambda>(sr, appended) k. if sr_maxID sr < k then (sr\<lparr>sr_ids := sr_ids sr @ [k], sr_maxID := k\<rparr>, True) else (sr, appended)) (sr, a) ks = (sr', a')"
  shows "\<exists>new m. sr' = sr\<lparr>sr_ids := sr_ids sr @ new, sr_maxID := m\<rparr> \<and> (a' \<longleftrightarrow> a \<or> new \<noteq> []) \<and> sr_maxID sr \<le> m \<and>
    length new + length (filter (\<lambda>k. m < k) ks) \<le> length (filter (\<lambda>k. sr_maxID sr < k) ks)"
  using assms
proof (induction ks arbitrary: sr a)
  case Nil
  then show ?case by (intro exI [of _ "[]"] exI [of _ "sr_maxID sr"]) auto
next
  case (Cons k ks)
  show ?case
  proof (cases "sr_maxID sr < k")
    case True
    let ?sr = "sr\<lparr>sr_ids := sr_ids sr @ [k], sr_maxID := k\<rparr>"
    from Cons.IH [of ?sr True] Cons.prems True obtain new m where new: "sr' = ?sr\<lparr>sr_ids := sr_ids ?sr @ new, sr_maxID := m\<rparr>"
      "a'" "k \<le> m" "length new + length (filter (\<lambda>j. m < j) ks) \<le> length (filter (\<lambda>j. k < j) ks)" by auto
    have "length (filter (\<lambda>j. k < j) ks) \<le> length (filter (\<lambda>j. sr_maxID sr < j) ks)"
      using Cons.prems(1) True by (subst (2) filter_True) auto
    with new True show ?thesis by (intro exI [of _ "k # new"] exI [of _ m]) auto
  next
    case False
    with Cons.IH [of sr a] Cons.prems obtain new m where new: "sr' = sr\<lparr>sr_ids := sr_ids sr @ new, sr_maxID := m\<rparr>"
      "a' \<longleftrightarrow> a \<or> new \<noteq> []" "sr_maxID sr \<le> m" "length new + length (filter (\<lambda>j. m < j) ks) \<le> length (filter (\<lambda>j. sr_maxID sr < j) ks)" by auto
    show ?thesis
    proof (cases "new = [] \<or> \<not> m < k")
      case True
      with new False show ?thesis by (intro exI [of _ new] exI [of _ m]) auto
    next
      case False
      then show ?thesis using new Cons.prems False by (intro exI [of _ new] exI [of _ m]) auto
    qed
  qed
qed

lemma relist_new:
  assumes "relist w sr = (sr', a)"
  obtains new m where "sr' = sr\<lparr>sr_ids := sr_ids sr @ new, sr_maxID := m\<rparr>" "a \<longleftrightarrow> new \<noteq> []" "length new + unseen w m \<le> unseen w (sr_maxID sr)"
  using relist_fold [of "listSegmentIDs w" sr False sr' a] assms by (auto simp: relist_def unseen_def listSegmentIDs_def)

lemma open_listed_work:
  "\<lbrakk> open_listed w sr = (sr', opened); sr_f sr = None; sr_ids sr \<noteq> [] \<rbrakk> \<Longrightarrow>
     reader_work w sr' + (if opened then 1 else 0) \<le> reader_work w sr \<and> sr_ids sr' = sr_ids sr \<and> sr_maxID sr' = sr_maxID sr \<and>
     (if opened then sr_f sr' \<noteq> None else sr_f sr' = None \<and> length (sr_ids sr') \<le> sr_idx sr')"
proof (induction w sr rule: open_listed.induct)
  case (1 w sr)
  show ?case
  proof (cases "sr_idx sr < length (sr_ids sr)")
    case False
    then show ?thesis using 1(2-4) by (subst (asm) open_listed.simps) simp
  next
    case True
    show ?thesis
    proof (cases "map_of (wal_files w) (sr_ids sr ! sr_idx sr)")
      case None
      have "open_listed w (sr\<lparr>sr_idx := sr_idx sr + 1\<rparr>) = (sr', opened)"
        using 1(2) True None by (subst (asm) open_listed.simps) simp
      with 1(1) [OF True refl None this] 1(3,4) show ?thesis by (auto simp: reader_work_def)
    next
      case (Some data)
      with 1(2-4) True show ?thesis by (subst (asm) open_listed.simps) (auto simp: reader_work_def)
    qed
  qed
qed

lemma last_sorted_max: "sorted ks \<Longrightarrow> k \<in> set ks \<Longrightarrow> k \<le> last ks"
  by (induction ks) auto

lemma unseen_last: "unseen w (last (listSegmentIDs w)) = 0"
proof -
  have "k \<le> last (listSegmentIDs w)" if "k \<in> set (listSegmentIDs w)" for k
    using that by (intro last_sorted_max) (simp_all add: listSegmentIDs_def)
  then show ?thesis by (auto simp: unseen_def filter_empty_conv not_less)
qed

lemma first_listing_work:
  assumes "sr_f sr = None" and "sr_ids sr = []"
  shows "reader_work w (first_listing w sr) \<le> reader_work w sr"
    "sr_f (first_listing w sr) = None" "sr_ids (first_listing w sr) \<noteq> [] \<Longrightarrow> reader_work w (first_listing w sr) < reader_work w sr"
proof -
  have "length (filter P (listSegmentIDs w)) \<le> length (wal_files w)" for P
    using length_filter_le [of P "listSegmentIDs w"] by simp
  then show "reader_work w (first_listing w sr) \<le> reader_work w sr"
    "sr_f (first_listing w sr) = None" "sr_ids (first_listing w sr) \<noteq> [] \<Longrightarrow> reader_work w (first_listing w sr) < reader_work w sr"
    using assms by (auto simp: first_listing_def reader_work_def unseen_last Let_def le_SucI less_Suc_eq_le)
qed

lemma relist_work:
  assumes "relist w sr = (sr', a)" and "sr_f sr = None" and "sr_ids sr \<noteq> []" and "length (sr_ids sr) \<le> sr_idx sr"
  shows "reader_work w sr' \<le> reader_work w sr" "sr_f sr' = None" "sr_ids sr' \<noteq> []"
    "a \<Longrightarrow> unseen w (sr_maxID sr') < unseen w (sr_maxID sr)"
proof -
  obtain new m where "sr' = sr\<lparr>sr_ids := sr_ids sr @ new, sr_maxID := m\<rparr>" "a \<longleftrightarrow> new \<noteq> []" "length new + unseen w m \<le> unseen w (sr_maxID sr)"
    using relist_new [OF assms(1)] by blast
  then show "reader_work w sr' \<le> reader_work w sr" "sr_f sr' = None" "sr_ids sr' \<noteq> []"
    "a \<Longrightarrow> unseen w (sr_maxID sr') < unseen w (sr_maxID sr)"
    using assms(2-4) by (auto simp: reader_work_def neq_Nil_conv)
qed

function ensureOpen :: "wal \<Rightarrow> streamReader \<Rightarrow> streamReader \<times> bool" where
  "ensureOpen w sr =
     (if sr_f sr \<noteq> None then (sr, True)
      else
        let sr1 = (if sr_ids sr = [] then first_listing w sr else sr)
        in if sr_ids sr1 = [] then (sr1, False)
           else
             (case open_listed w sr1 of
                (sr2, True) \<Rightarrow> (sr2, True)
              | (sr2, False) \<Rightarrow>
                  (case relist w sr2 of
                     (sr3, False) \<Rightarrow> (sr3, False)
                   | (sr3, True) \<Rightarrow> ensureOpen w sr3)))"
  by pat_completeness auto
termination
proof (relation "measures [\<lambda>(w, sr). if sr_ids sr = [] then 1 else 0, \<lambda>(w, sr). unseen w (sr_maxID sr)]", goal_cases)
  case (2 w sr sr1 sr2 o2 sr3 a)
  have "sr_f sr1 = None" using 2 by (auto simp: first_listing_work(2))
  with 2 have "sr_ids sr2 \<noteq> []" "sr_f sr2 = None" "sr_maxID sr2 = sr_maxID sr1" "length (sr_ids sr2) \<le> sr_idx sr2"
    using open_listed_work [of w sr1 sr2 False] by auto
  with 2 relist_work [of w sr2 sr3 True] show ?case by auto
qed simp

declare ensureOpen.simps [simp del]

lemma ensureOpen_work:
  "ensureOpen w sr = (sr', opened) \<Longrightarrow> (if sr_f sr = None then reader_work w sr' + (if opened then 1 else 0) \<le> reader_work w sr else sr' = sr \<and> opened) \<and>
     (opened \<longleftrightarrow> sr_f sr' \<noteq> None)"
proof (induction w sr rule: ensureOpen.induct)
  case (1 w sr)
  show ?case
  proof (cases "sr_f sr = None")
    case False
    then show ?thesis using 1(2) by (subst (asm) ensureOpen.simps) auto
  next
    case None: True
    define sr1 where "sr1 = (if sr_ids sr = [] then first_listing w sr else sr)"
    have sr1: "sr_f sr1 = None" "reader_work w sr1 \<le> reader_work w sr" using None first_listing_work by (simp_all add: sr1_def)
    show ?thesis
    proof (cases "sr_ids sr1 = []")
      case True
      then show ?thesis using 1(2) None sr1 by (subst (asm) ensureOpen.simps) (simp add: sr1_def [symmetric] Let_def)
    next
      case False
      obtain sr2 o2 where o: "open_listed w sr1 = (sr2, o2)" by fastforce
      note ow = open_listed_work [OF o sr1(1) False]
      obtain sr3 a where r: "relist w sr2 = (sr3, a)" by fastforce
      show ?thesis
      proof (cases o2)
        case True
        then show ?thesis using 1(2) None False sr1 ow o by (subst (asm) ensureOpen.simps) (auto simp: sr1_def [symmetric] Let_def)
      next
        case Nope: False
        then have rw: "reader_work w sr3 \<le> reader_work w sr2" "sr_f sr3 = None" "sr_ids sr3 \<noteq> []"
          using relist_work [OF r] ow False by auto
        have eq: "ensureOpen w sr = (if a then ensureOpen w sr3 else (sr3, False))"
          using None False Nope o r by (subst ensureOpen.simps) (simp add: sr1_def [symmetric] Let_def split: bool.split)
        show ?thesis
        proof (cases a)
          case True
          have "ensureOpen w sr3 = (sr', opened)" using eq True 1(2) by simp
          with 1(1) [of sr1 sr2 False sr3 True] None \<open>sr_ids sr1 \<noteq> []\<close> Nope True o r sr1_def
          have "reader_work w sr' + (if opened then 1 else 0) \<le> reader_work w sr3" "opened \<longleftrightarrow> sr_f sr' \<noteq> None"
            using rw(2) by auto
          then show ?thesis using rw(1) ow sr1(2) Nope None by auto
        next
          case False
          then show ?thesis using eq 1(2) rw ow sr1(2) Nope None by auto
        qed
      qed
    qed
  qed
qed

definition advance :: "wal \<Rightarrow> streamReader \<Rightarrow> streamReader" where
  "advance w sr = fst (ensureOpen w (sr\<lparr>sr_f := None, sr_idx := sr_idx sr + 1\<rparr>))"

definition durableLimit :: "wal \<Rightarrow> streamReader \<Rightarrow> nat \<times> bool" where
  "durableLimit w sr =
     (let (curID, synced) = Head w
      in if sr_id sr = curID then (synced, True) else (sr_size sr, False))"

definition open_bytes :: "wal \<Rightarrow> streamReader \<Rightarrow> bytes" where
  "open_bytes w sr =
     (case map_of (wal_files w) (sr_id sr) of
        Some data \<Rightarrow> data
      | None \<Rightarrow> (case sr_f sr of Some data \<Rightarrow> data | None \<Rightarrow> []))"

text \<open>\<open>Inr None\<close>: the frame crosses the synced bound of the live segment.\<close>

definition readFrame :: "wal \<Rightarrow> streamReader \<Rightarrow> nat \<Rightarrow> bool \<Rightarrow> stream_error + (wal_record \<times> nat) option" where
  "readFrame w sr limit isCurrent =
     (let data = open_bytes w sr; offset = sr_offset sr
      in if length data < offset + RecordHeaderSize then Inl UnexpectedEOF
         else
           let payloadLen = unat (be_word (slice (offset + 9) (offset + 13) data) :: u32);
               frameLen = RecordHeaderSize + payloadLen + RecordCRCSize
           in if payloadLen > 1048576 then Inl (StreamCorrupted ErrCorrupted)
              else if offset + frameLen > limit
              then (if isCurrent then Inr None else Inl (StreamCorrupted ErrCorrupted))
              else if length data < offset + frameLen then Inl UnexpectedEOF
              else (case DecodeRecord (slice offset (offset + frameLen) data) of
                      Inl e \<Rightarrow> Inl (StreamCorrupted e)
                    | Inr r \<Rightarrow> Inr (Some (r, frameLen))))"

lemma readFrame_bounds: "readFrame w sr limit cur = Inr (Some (r, n)) \<Longrightarrow> 17 \<le> n \<and> sr_offset sr + n \<le> limit"
  by (auto simp: readFrame_def Let_def split: if_splits sum.splits)

definition bytes_left :: "wal \<Rightarrow> streamReader \<Rightarrow> nat" where
  "bytes_left w sr = fst (durableLimit w sr) - sr_offset sr"

lemma reader_work_simps [simp]:
  "reader_work w (sr\<lparr>sr_offset := n\<rparr>) = reader_work w sr" "reader_work w (sr\<lparr>sr_pending := p\<rparr>) = reader_work w sr"
  "reader_work w (sr\<lparr>sr_emit := q\<rparr>) = reader_work w sr"
  by (simp_all add: reader_work_def)

lemma bytes_left_simps [simp]:
  "bytes_left w (sr\<lparr>sr_pending := p\<rparr>) = bytes_left w sr" "bytes_left w (sr\<lparr>sr_emit := q\<rparr>) = bytes_left w sr"
  "bytes_left w (sr\<lparr>sr_offset := n\<rparr>) = fst (durableLimit w sr) - n"
  by (simp_all add: bytes_left_def durableLimit_def Let_def split: prod.split)

lemma advance_work:
  assumes "sr_f sr \<noteq> None"
  shows "reader_work w (advance w sr) < reader_work w sr"
proof -
  let ?sr = "sr\<lparr>sr_f := None, sr_idx := sr_idx sr + 1\<rparr>"
  have "reader_work w ?sr < reader_work w sr" using assms by (auto simp: reader_work_def)
  moreover have "reader_work w (advance w sr) \<le> reader_work w ?sr"
    using ensureOpen_work [of w ?sr "advance w sr"] by (cases "ensureOpen w ?sr") (simp add: advance_def)
  ultimately show ?thesis by simp
qed

text \<open>Every turn of \<^verbatim>\<open>Next\<close> opens a segment, leaves one, or reads a frame.\<close>

lemma reading_works:
  assumes "ensureOpen w sr = (sr1, True)" and "fst (durableLimit w sr1) > sr_offset sr1" and "0 < n"
  shows "reader_work w sr1 < reader_work w sr \<or>
    reader_work w sr1 = reader_work w sr \<and> fst (durableLimit w sr1) - (sr_offset sr1 + n) < bytes_left w sr"
  using ensureOpen_work [OF assms(1)] assms(2,3) by (auto simp: bytes_left_def split: if_splits)

function Next :: "wal \<Rightarrow> streamReader \<Rightarrow> streamReader \<times> (stream_error + wal_record option)" where
  "Next w sr =
     (case sr_emit sr of
        r # rest \<Rightarrow> (sr\<lparr>sr_emit := rest\<rparr>, Inr (Some r))
      | [] \<Rightarrow>
          let (sr1, opened) = ensureOpen w sr;
              (limit, isCurrent) = durableLimit w sr1
          in if \<not> opened then (sr1, Inr None)
             else if limit \<le> sr_offset sr1
             then (if isCurrent then (sr1, Inr None) else Next w (advance w sr1))
             else if sr_offset sr1 + RecordHeaderSize + RecordCRCSize > limit
             then (sr1, if isCurrent then Inr None else Inl (StreamCorrupted ErrCorrupted))
             else
               (case readFrame w sr1 limit isCurrent of
                  Inl e \<Rightarrow> (sr1, Inl e)
                | Inr None \<Rightarrow> (sr1, Inr None)
                | Inr (Some (r, frameLen)) \<Rightarrow>
                    let sr2 = sr1\<lparr>sr_offset := sr_offset sr1 + frameLen\<rparr>
                    in if rec_Type r = RecordTypeBatchCommit
                       then
                         if length (sr_pending sr2) = unat (expectedCount r)
                         then
                           let emit = sr_pending sr2 @ [r]
                           in (sr2\<lparr>sr_pending := [], sr_emit := tl emit\<rparr>, Inr (Some (hd emit)))
                         else Next w (sr2\<lparr>sr_pending := []\<rparr>)
                       else Next w (sr2\<lparr>sr_pending := sr_pending sr2 @ [r]\<rparr>)))"
  by pat_completeness auto
termination
proof (relation "measures [\<lambda>(w, sr). reader_work w sr, \<lambda>(w, sr). bytes_left w sr]", goal_cases)
  case (2 w sr x sr1)
  then have "ensureOpen w sr = (sr1, True)" by simp
  then have "sr_f sr1 \<noteq> None" "reader_work w sr1 \<le> reader_work w sr"
    using ensureOpen_work [of w sr sr1 True] by (auto split: if_splits)
  then show ?case using advance_work [of sr1 w] by simp
next
  case (3 w sr x sr1 y z limit cur v u r n)
  then have "ensureOpen w sr = (sr1, True)" "durableLimit w sr1 = (limit, cur)" "limit > sr_offset sr1" "0 < n"
    using readFrame_bounds [of w sr1 limit cur r n] by auto
  then have "reader_work w sr1 < reader_work w sr \<or> reader_work w sr1 = reader_work w sr \<and> fst (durableLimit w sr1) - (sr_offset sr1 + n) < bytes_left w sr"
    by (intro reading_works) simp_all
  then show ?case using 3 by auto
next
  case (4 w sr x sr1 y z limit cur v u r n)
  then have "ensureOpen w sr = (sr1, True)" "durableLimit w sr1 = (limit, cur)" "limit > sr_offset sr1" "0 < n"
    using readFrame_bounds [of w sr1 limit cur r n] by auto
  then have "reader_work w sr1 < reader_work w sr \<or> reader_work w sr1 = reader_work w sr \<and> fst (durableLimit w sr1) - (sr_offset sr1 + n) < bytes_left w sr"
    by (intro reading_works) simp_all
  then show ?case using 4 by auto
qed simp

declare Next.simps [simp del]

lemma Next_emit: "sr_emit sr = r # rest \<Longrightarrow> Next w sr = (sr\<lparr>sr_emit := rest\<rparr>, Inr (Some r))"
  by (simp add: Next.simps)

text \<open>One turn of the loop on an open segment.\<close>

lemma Next_turn:
  assumes "sr_emit sr = []" and "ensureOpen w sr = (sr1, True)" and "durableLimit w sr1 = (limit, cur)"
  shows "limit \<le> sr_offset sr1 \<Longrightarrow> Next w sr = (if cur then (sr1, Inr None) else Next w (advance w sr1))"
    and "\<lbrakk> sr_offset sr1 < limit; limit < sr_offset sr1 + 17 \<rbrakk> \<Longrightarrow> Next w sr = (sr1, if cur then Inr None else Inl (StreamCorrupted ErrCorrupted))"
    and "\<lbrakk> sr_offset sr1 + 17 \<le> limit; readFrame w sr1 limit cur = Inl e \<rbrakk> \<Longrightarrow> Next w sr = (sr1, Inl e)"
    and "\<lbrakk> sr_offset sr1 + 17 \<le> limit; readFrame w sr1 limit cur = Inr None \<rbrakk> \<Longrightarrow> Next w sr = (sr1, Inr None)"
    and "\<lbrakk> sr_offset sr1 + 17 \<le> limit; readFrame w sr1 limit cur = Inr (Some (r, n)); rec_Type r \<noteq> RecordTypeBatchCommit \<rbrakk> \<Longrightarrow>
      Next w sr = Next w (sr1\<lparr>sr_offset := sr_offset sr1 + n, sr_pending := sr_pending sr1 @ [r]\<rparr>)"
    and "\<lbrakk> sr_offset sr1 + 17 \<le> limit; readFrame w sr1 limit cur = Inr (Some (r, n)); rec_Type r = RecordTypeBatchCommit;
      length (sr_pending sr1) \<noteq> unat (expectedCount r) \<rbrakk> \<Longrightarrow>
      Next w sr = Next w (sr1\<lparr>sr_offset := sr_offset sr1 + n, sr_pending := []\<rparr>)"
    and "\<lbrakk> sr_offset sr1 + 17 \<le> limit; readFrame w sr1 limit cur = Inr (Some (r, n)); rec_Type r = RecordTypeBatchCommit;
      length (sr_pending sr1) = unat (expectedCount r) \<rbrakk> \<Longrightarrow>
      Next w sr = (sr1\<lparr>sr_offset := sr_offset sr1 + n, sr_pending := [], sr_emit := tl (sr_pending sr1 @ [r])\<rparr>, Inr (Some (hd (sr_pending sr1 @ [r]))))"
  using assms Next.simps [of w sr] by (simp_all add: Let_def)

lemma Next_closed: "\<lbrakk> sr_emit sr = []; ensureOpen w sr = (sr1, False) \<rbrakk> \<Longrightarrow> Next w sr = (sr1, Inr None)"
  by (subst Next.simps) (simp split: prod.split)

lemma Next_opened:
  "\<lbrakk> sr_emit sr = []; ensureOpen w sr = (sr1, True); sr_emit sr1 = []; ensureOpen w sr1 = (sr1, True) \<rbrakk> \<Longrightarrow> Next w sr = Next w sr1"
  using Next.simps [of w sr] Next.simps [of w sr1] by simp

definition progress :: "wal \<Rightarrow> (streamReader \<times> streamReader) set" where
  "progress w = measures [reader_work w, bytes_left w, \<lambda>sr. length (sr_emit sr)]"

lemma progress_trans: "(a, b) \<in> progress w \<Longrightarrow> (b, c) \<in> progress w \<Longrightarrow> (a, c) \<in> progress w"
  by (auto simp: progress_def)

lemma progress_read:
  assumes "ensureOpen w sr = (sr1, True)" and "durableLimit w sr1 = (limit, cur)" "sr_offset sr1 + 17 \<le> limit" "readFrame w sr1 limit cur = Inr (Some (r, n))"
  shows "(sr1\<lparr>sr_offset := sr_offset sr1 + n, sr_pending := p\<rparr>, sr) \<in> progress w"
    "(sr1\<lparr>sr_offset := sr_offset sr1 + n, sr_pending := p, sr_emit := q\<rparr>, sr) \<in> progress w"
  using reading_works [OF assms(1), of n] readFrame_bounds [OF assms(4)] assms(2,3) by (auto simp: progress_def)

lemma progress_advance: "ensureOpen w sr = (sr1, True) \<Longrightarrow> (advance w sr1, sr) \<in> progress w"
  using ensureOpen_work [of w sr sr1 True] advance_work [of sr1 w] by (auto simp: progress_def split: if_splits)

lemma wf_progress: "wf (progress w)"
  by (simp add: progress_def)

lemma Next_progress: "Next w sr = (sr', Inr (Some r)) \<Longrightarrow> (sr', sr) \<in> progress w"
proof (induction sr rule: wf_induct_rule [OF wf_progress [of w]])
  case (1 sr)
  show ?case
  proof (cases "sr_emit sr")
    case (Cons a rest)
    then show ?thesis using 1(2) Next_emit [OF Cons, of w] by (auto simp: progress_def)
  next
    case Nil
    obtain sr1 opened where o: "ensureOpen w sr = (sr1, opened)" by fastforce
    obtain limit cur where l: "durableLimit w sr1 = (limit, cur)" by fastforce
    have o: "ensureOpen w sr = (sr1, True)" using Next_closed [OF Nil] o 1(2) by (cases opened) auto
    note turn = Next_turn [OF Nil o l]
    show ?thesis
    proof (cases "sr_offset sr1 + 17 \<le> limit")
      case False
      have "Next w (advance w sr1) = (sr', Inr (Some r))"
        using turn(1,2) False 1(2) by (cases cur; cases "limit \<le> sr_offset sr1") auto
      then show ?thesis using 1(1) progress_advance [OF o] progress_trans by blast
    next
      case True
      have "readFrame w sr1 limit cur \<noteq> Inl e" "readFrame w sr1 limit cur \<noteq> Inr None" for e
        using turn(3,4) [OF True] 1(2) by auto
      then obtain q n where f: "readFrame w sr1 limit cur = Inr (Some (q, n))" by (metis obj_sumE option.exhaust prod.exhaust)
      note pr = progress_read [OF o l True f]
      consider "rec_Type q \<noteq> RecordTypeBatchCommit" | "rec_Type q = RecordTypeBatchCommit" "length (sr_pending sr1) \<noteq> unat (expectedCount q)"
        | "rec_Type q = RecordTypeBatchCommit" "length (sr_pending sr1) = unat (expectedCount q)" by blast
      then show ?thesis
      proof cases
        case 1
        with turn(5) [OF True f] \<open>Next w sr = _\<close> show ?thesis using pr(1) "1.IH" progress_trans by metis
      next
        case 2
        with turn(6) [OF True f] \<open>Next w sr = _\<close> show ?thesis using pr(1) "1.IH" progress_trans by metis
      next
        case 3
        with turn(7) [OF True f] \<open>Next w sr = _\<close> show ?thesis using pr(2) by simp
      qed
    qed
  qed
qed

text \<open>The loop of \<^verbatim>\<open>handleConn\<close> up to the point where the reader has caught up: the records it
  sends, and the error that ends the stream, if there is one.\<close>

function poll :: "wal \<Rightarrow> streamReader \<Rightarrow> streamReader \<times> wal_record list \<times> stream_error option" where
  "poll w sr =
     (case Next w sr of
        (sr', Inl e) \<Rightarrow> (sr', [], Some e)
      | (sr', Inr None) \<Rightarrow> (sr', [], None)
      | (sr', Inr (Some r)) \<Rightarrow> (let (sr2, rs, err) = poll w sr' in (sr2, r # rs, err)))"
  by pat_completeness auto
termination
  by (relation "same_fst (\<lambda>_. True) progress") (auto simp: wf_progress intro!: wf_same_fst dest!: sym [THEN Next_progress])

declare poll.simps [simp del]

subsection \<open>What the reader delivers\<close>

text \<open>The contract: records wait for the commit marker that closes their batch, a marker that does
  not match them drops them.\<close>

fun deliver :: "wal_record list \<Rightarrow> wal_record list \<Rightarrow> wal_record list" where
  "deliver pend [] = []"
| "deliver pend (r # rs) =
     (if rec_Type r = RecordTypeBatchCommit
      then (if length pend = unat (expectedCount r) then pend @ r # deliver [] rs else deliver [] rs)
      else deliver (pend @ [r]) rs)"

fun waiting :: "wal_record list \<Rightarrow> wal_record list \<Rightarrow> wal_record list" where
  "waiting pend [] = pend"
| "waiting pend (r # rs) = (if rec_Type r = RecordTypeBatchCommit then waiting [] rs else waiting (pend @ [r]) rs)"

lemma deliver_data:
  "\<forall>r\<in>set rs. rec_Type r \<noteq> RecordTypeBatchCommit \<Longrightarrow> deliver pend (rs @ qs) = deliver (pend @ rs) qs \<and> waiting pend (rs @ qs) = waiting (pend @ rs) qs"
  by (induction rs arbitrary: pend) simp_all

lemma deliver_batch:
  assumes "wf_batch b"
  shows "deliver [] (batch_records b @ qs) = batch_records b @ deliver [] qs" "waiting [] (batch_records b @ qs) = waiting [] qs"
  using assms deliver_data [of "fst b" "[]"] by (simp_all add: wf_batch_def batch_records_def expectedCount_commit)

lemma deliver_log: "\<forall>b\<in>set bs. wf_batch b \<Longrightarrow> deliver [] (log_records bs) = log_records bs \<and> waiting [] (log_records bs) = []"
  by (induction bs) (simp_all add: log_records_def deliver_batch)

text \<open>A log as a reader finds it: \<open>kept\<close> are the segments it reads, whole frames each, and the live
  one is synced.\<close>

definition streamable :: "wal \<Rightarrow> (nat \<times> wal_record list) list \<Rightarrow> bool" where
  "streamable w kept \<longleftrightarrow> kept \<noteq> [] \<and> sorted_wrt (<) (map fst kept) \<and>
     (\<forall>p\<in>set kept. map_of (wal_files w) (fst p) = Some (frames (snd p)) \<and> fst p \<le> currentID w \<and>
        (fst p = currentID w \<longrightarrow> syncedOffset (wal_current w) = length (frames (snd p))) \<and>
        (\<forall>r\<in>set (snd p). wf_record r \<and> length (rec_Payload r) \<le> peekMaxPayload))"

text \<open>The reader stands in the segment \<open>(k, a @ b)\<close> behind the records \<open>a\<close>; \<open>rest\<close> follows.\<close>

definition reading_at :: "wal \<Rightarrow> streamReader \<Rightarrow> nat \<Rightarrow> wal_record list \<Rightarrow> wal_record list \<Rightarrow> (nat \<times> wal_record list) list \<Rightarrow> bool" where
  "reading_at w sr k a b rest \<longleftrightarrow> streamable w ((k, a @ b) # rest) \<and>
     sr_f sr \<noteq> None \<and> sr_id sr = k \<and> sr_offset sr = length (frames a) \<and> sr_size sr \<le> length (frames (a @ b)) \<and>
     (k \<noteq> currentID w \<longrightarrow> sr_size sr = length (frames (a @ b))) \<and>
     sr_idx sr < length (sr_ids sr) \<and> drop (Suc (sr_idx sr)) (sr_ids sr) = map fst rest \<and> sr_maxID sr = currentID w \<and>
     (\<forall>k\<in>set (listSegmentIDs w). k \<le> currentID w)"

lemma reading_limit:
  assumes "reading_at w sr k a b rest"
  shows "ensureOpen w sr = (sr, True)" "durableLimit w sr = (length (frames (a @ b)), k = currentID w)"
  using assms by (auto simp: ensureOpen.simps reading_at_def streamable_def durableLimit_def Head_def Let_def)

lemma reading_frame:
  assumes "reading_at w sr k a (r # b) rest"
  shows "sr_offset sr + 17 \<le> length (frames (a @ r # b))"
    "readFrame w sr (length (frames (a @ r # b))) cur = Inr (Some (r, length (frame_of r)))"
proof -
  let ?p = "rec_Payload r" and ?off = "length (frames a)"
  have r: "wf_record r" "length ?p \<le> peekMaxPayload" and data: "open_bytes w sr = frames a @ frame_of r @ frames b" and off: "sr_offset sr = ?off"
    using assms by (auto simp: reading_at_def streamable_def open_bytes_def frames_append) (auto simp: frames_def)
  have fr: "frame_of r = be_bytes 8 (rec_LSN r) @ [rec_Type r] @ be_bytes 4 (of_nat (length ?p) :: u32) @ ?p @
      be_bytes 4 (ChecksumIEEE (body r))" by (simp add: frame_of_def body_def)
  have n: "unat (of_nat (length ?p) :: u32) = length ?p" using r by (intro unat_payload_length) simp
  have hdr: "slice (?off + 9) (?off + 13) (open_bytes w sr) = be_bytes 4 (of_nat (length ?p) :: u32)"
    by (simp add: data fr slice_def)
  then have pl: "unat (be_word (slice (?off + 9) (?off + 13) (open_bytes w sr)) :: u32) = length ?p" by (simp add: n)
  have sl: "slice ?off (?off + length (frame_of r)) (open_bytes w sr) = frame_of r" by (simp add: data slice_def)
  have len: "length (open_bytes w sr) = ?off + length (frame_of r) + length (frames b)"
    "length (frames (a @ r # b)) = ?off + length (frame_of r) + length (frames b)"
    by (simp_all add: data frames_append) (simp add: frames_def)
  show "sr_offset sr + 17 \<le> length (frames (a @ r # b))" using len by (simp add: off length_frame_of)
  have fl: "RecordHeaderSize + length ?p + RecordCRCSize = length (frame_of r)" by (simp add: length_frame_of)
  have "DecodeRecord (frame_of r) = Inr r" using r(1) by (rule DecodeRecord_frame_of)
  then show "readFrame w sr (length (frames (a @ r # b))) cur = Inr (Some (r, length (frame_of r)))"
    unfolding readFrame_def Let_def off pl fl sl len using r(2) by (simp add: length_frame_of)
qed

lemma reading_step:
  assumes "reading_at w sr k a (r # b) rest"
  shows "reading_at w (sr\<lparr>sr_offset := sr_offset sr + length (frame_of r), sr_pending := p\<rparr>) k (a @ [r]) b rest"
    "reading_at w (sr\<lparr>sr_offset := sr_offset sr + length (frame_of r), sr_pending := p, sr_emit := q\<rparr>) k (a @ [r]) b rest"
  using assms by (auto simp: reading_at_def frames_append) (simp_all add: frames_def)

lemma relist_none: "\<forall>k\<in>set (listSegmentIDs w). k \<le> sr_maxID sr \<Longrightarrow> relist w sr = (sr, False)"
proof -
  have "foldl (\<lambda>(sr, appended) k. if sr_maxID sr < k then (sr\<lparr>sr_ids := sr_ids sr @ [k], sr_maxID := k\<rparr>, True) else (sr, appended)) (sr, False) ks = (sr, False)"
    if "\<forall>k\<in>set ks. k \<le> sr_maxID sr" for ks using that by (induction ks) auto
  then show "\<forall>k\<in>set (listSegmentIDs w). k \<le> sr_maxID sr \<Longrightarrow> ?thesis" by (simp add: relist_def)
qed

lemma ensureOpen_hit:
  assumes "sr_f sr = None" and "sr_idx sr < length (sr_ids sr)" and "map_of (wal_files w) (sr_ids sr ! sr_idx sr) = Some data"
  shows "ensureOpen w sr = (sr\<lparr>sr_f := Some data, sr_id := sr_ids sr ! sr_idx sr, sr_size := length data, sr_offset := 0\<rparr>, True)"
proof -
  have "open_listed w sr = (sr\<lparr>sr_f := Some data, sr_id := sr_ids sr ! sr_idx sr, sr_size := length data, sr_offset := 0\<rparr>, True)"
    using assms by (subst open_listed.simps) simp
  moreover have "sr_ids sr \<noteq> []" using assms(2) by auto
  ultimately show ?thesis using assms(1) by (subst ensureOpen.simps) simp
qed

lemma ensureOpen_end:
  assumes "sr_f sr = None" and "sr_ids sr \<noteq> []" and "length (sr_ids sr) \<le> sr_idx sr" and "\<forall>k\<in>set (listSegmentIDs w). k \<le> sr_maxID sr"
  shows "ensureOpen w sr = (sr, False)"
proof -
  have "open_listed w sr = (sr, False)" using assms(3) by (subst open_listed.simps) simp
  then show ?thesis using assms relist_none [OF assms(4)] by (subst ensureOpen.simps) simp
qed

lemma reading_advance:
  assumes "reading_at w sr k a [] ((j, c) # rest)"
  shows "reading_at w (advance w sr) j [] c rest" "sr_emit (advance w sr) = sr_emit sr" "sr_pending (advance w sr) = sr_pending sr"
proof -
  let ?sr = "sr\<lparr>sr_f := None, sr_idx := sr_idx sr + 1\<rparr>"
  have d: "drop (Suc (sr_idx sr)) (sr_ids sr) = j # map fst rest" using assms by (simp add: reading_at_def)
  then have ids: "Suc (sr_idx sr) < length (sr_ids sr)" by (metis drop_eq_Nil list.distinct(1) not_le)
  with d have j: "sr_ids sr ! Suc (sr_idx sr) = j" and rest: "drop (Suc (Suc (sr_idx sr))) (sr_ids sr) = map fst rest"
    by (metis Cons_nth_drop_Suc list.inject)+
  have "map_of (wal_files w) j = Some (frames c)" using assms by (simp add: reading_at_def streamable_def)
  then have "advance w sr = ?sr\<lparr>sr_f := Some (frames c), sr_id := j, sr_size := length (frames c), sr_offset := 0\<rparr>"
    using ids j by (simp add: advance_def ensureOpen_hit)
  moreover have "streamable w ((j, c) # rest)" using assms by (auto simp: reading_at_def streamable_def)
  ultimately show "reading_at w (advance w sr) j [] c rest" "sr_emit (advance w sr) = sr_emit sr" "sr_pending (advance w sr) = sr_pending sr"
    using assms ids rest by (simp_all add: reading_at_def frames_def [of "[]"])
qed

text \<open>A reader that has used up its list finds nothing until a segment with a larger number
  appears.\<close>

definition exhausted :: "streamReader \<Rightarrow> nat \<Rightarrow> bool" where
  "exhausted sr m \<longleftrightarrow> sr_f sr = None \<and> sr_emit sr = [] \<and> sr_ids sr \<noteq> [] \<and> length (sr_ids sr) \<le> sr_idx sr \<and> m \<le> sr_maxID sr"

lemma exhausted_poll:
  assumes "exhausted sr m" and "\<forall>k\<in>set (listSegmentIDs w). k \<le> m"
  shows "poll w sr = (sr, [], None)"
proof -
  have "\<forall>k\<in>set (listSegmentIDs w). k \<le> sr_maxID sr" using assms by (auto simp: exhausted_def)
  then have "ensureOpen w sr = (sr, False)" using assms(1) by (intro ensureOpen_end) (simp_all add: exhausted_def)
  then have "Next w sr = (sr, Inr None)" using Next_closed assms by (simp add: exhausted_def)
  then show ?thesis by (subst poll.simps) simp
qed

lemma reading_end:
  assumes "reading_at w sr k a [] []" and "k \<noteq> currentID w" and "sr_emit sr = []"
  shows "exhausted (advance w sr) (currentID w)" "sr_pending (advance w sr) = sr_pending sr"
proof -
  let ?sr = "sr\<lparr>sr_f := None, sr_idx := sr_idx sr + 1\<rparr>"
  have ids: "sr_ids sr \<noteq> []" "length (sr_ids sr) \<le> Suc (sr_idx sr)" using assms by (auto simp: reading_at_def)
  moreover have "\<forall>k\<in>set (listSegmentIDs w). k \<le> sr_maxID ?sr" using assms(1) by (force simp: reading_at_def)
  ultimately have "advance w sr = ?sr" unfolding advance_def by (subst ensureOpen_end) auto
  then show "exhausted (advance w sr) (currentID w)" "sr_pending (advance w sr) = sr_pending sr"
    using assms ids by (simp_all add: exhausted_def reading_at_def)
qed

lemma poll_cong: "Next w sr = Next w sr' \<Longrightarrow> poll w sr = poll w sr'"
  by (simp add: poll.simps [of w sr] poll.simps [of w sr'])

lemma poll_emit: "sr_emit sr = r # rest \<Longrightarrow> poll w sr = (let (sr', rs, err) = poll w (sr\<lparr>sr_emit := rest\<rparr>) in (sr', r # rs, err))"
  by (subst poll.simps) (simp add: Next_emit)

text \<open>The reader that has delivered everything: it stands at the end of the live segment, or it has
  used up its list because it never listed the live segment.\<close>

definition caught_up :: "wal \<Rightarrow> streamReader \<Rightarrow> nat \<times> wal_record list \<Rightarrow> bool" where
  "caught_up w sr p \<longleftrightarrow> sr_emit sr = [] \<and> (if fst p = currentID w then reading_at w sr (fst p) (snd p) [] [] else exhausted sr (currentID w))"

lemma poll_reading:
  "reading_at w sr k a b rest \<Longrightarrow>
     \<exists>sr'. poll w sr = (sr', sr_emit sr @ deliver (sr_pending sr) (b @ concat (map snd rest)), None) \<and>
       sr_pending sr' = waiting (sr_pending sr) (b @ concat (map snd rest)) \<and> caught_up w sr' (last ((k, a @ b) # rest))"
proof (induction sr arbitrary: k a b rest rule: wf_induct_rule [OF wf_progress [of w]])
  case (1 sr)
  note at = 1(2)
  show ?case
  proof (cases "sr_emit sr")
    case (Cons r em)
    have "(sr\<lparr>sr_emit := em\<rparr>, sr) \<in> progress w" using Cons by (simp add: progress_def)
    moreover have "reading_at w (sr\<lparr>sr_emit := em\<rparr>) k a b rest" using at by (simp add: reading_at_def)
    ultimately obtain sr' where "poll w (sr\<lparr>sr_emit := em\<rparr>) = (sr', em @ deliver (sr_pending sr) (b @ concat (map snd rest)), None)"
      "sr_pending sr' = waiting (sr_pending sr) (b @ concat (map snd rest))" "caught_up w sr' (last ((k, a @ b) # rest))" using 1(1) by fastforce
    then show ?thesis using Cons poll_emit [OF Cons, of w] by simp
  next
    case Nil
    note o = reading_limit(1) [OF at] and turn = Next_turn [OF Nil reading_limit [OF at]]
    show ?thesis
    proof (cases b)
      case (Cons r b')
      note f = reading_frame [OF at [unfolded Cons]]
      let ?sr = "sr\<lparr>sr_offset := sr_offset sr + length (frame_of r)\<rparr>"
      have IH: "\<exists>sr'. poll w sr2 = (sr', sr_emit sr2 @ deliver (sr_pending sr2) (b' @ concat (map snd rest)), None) \<and>
          sr_pending sr' = waiting (sr_pending sr2) (b' @ concat (map snd rest)) \<and> caught_up w sr' (last ((k, a @ b) # rest))"
        if "sr2 = ?sr\<lparr>sr_pending := p\<rparr> \<or> sr2 = ?sr\<lparr>sr_pending := p, sr_emit := q\<rparr>" for sr2 p q
      proof -
        have "(sr2, sr) \<in> progress w" using progress_read [OF o reading_limit(2) [OF at, unfolded Cons] f] that by auto
        moreover have "reading_at w sr2 k (a @ [r]) b' rest" using reading_step [OF at [unfolded Cons]] that by auto
        ultimately show ?thesis using 1(1) [of sr2 k "a @ [r]" b' rest] Cons by simp
      qed
      show ?thesis
      proof (cases "rec_Type r = RecordTypeBatchCommit")
        case False
        then have "poll w sr = poll w (?sr\<lparr>sr_pending := sr_pending sr @ [r]\<rparr>)"
          using turn(5) f Cons by (intro poll_cong) simp
        then show ?thesis using IH [of "?sr\<lparr>sr_pending := sr_pending sr @ [r]\<rparr>" "sr_pending sr @ [r]" "[]"] Cons False Nil by simp
      next
        case commit: True
        show ?thesis
        proof (cases "length (sr_pending sr) = unat (expectedCount r)")
          case False
          then have "poll w sr = poll w (?sr\<lparr>sr_pending := []\<rparr>)" using turn(6) f Cons commit by (intro poll_cong) simp
          then show ?thesis using IH [of "?sr\<lparr>sr_pending := []\<rparr>" "[]" "[]"] Cons commit False Nil by simp
        next
          case True
          let ?sr3 = "?sr\<lparr>sr_pending := [], sr_emit := sr_pending sr @ [r]\<rparr>"
          have "sr_emit ?sr3 = hd (sr_pending sr @ [r]) # tl (sr_pending sr @ [r])" by simp
          from Next_emit [OF this, of w] have "poll w sr = poll w ?sr3" using turn(7) f Cons commit True by (intro poll_cong) simp
          then show ?thesis using IH [of ?sr3 "[]" "sr_pending sr @ [r]"] Cons commit True Nil by simp
        qed
      qed
    next
      case bNil: Nil
      show ?thesis
      proof (cases "k = currentID w")
        case True
        then have "rest = []" using at by (cases rest) (auto simp: reading_at_def streamable_def)
        moreover have "Next w sr = (sr, Inr None)" using turn(1) True bNil at by (simp add: reading_at_def)
        ultimately show ?thesis using at True bNil Nil by (subst poll.simps) (simp add: caught_up_def)
      next
        case False
        then have adv: "poll w sr = poll w (advance w sr)" using turn(1) bNil at by (intro poll_cong) (simp add: reading_at_def)
        show ?thesis
        proof (cases rest)
          case rNil: Nil
          note e = reading_end [OF at [unfolded bNil rNil] False Nil]
          then have "poll w (advance w sr) = (advance w sr, [], None)"
            using at by (intro exhausted_poll) (auto simp: reading_at_def)
          moreover have "sr_emit (advance w sr) = []" using e by (simp add: exhausted_def)
          ultimately show ?thesis using adv e bNil rNil Nil False by (simp add: caught_up_def)
        next
          case (Cons p rest')
          note st = reading_advance [of w sr k a "fst p" "snd p" rest']
          have "(advance w sr, sr) \<in> progress w" using progress_advance [OF o] .
          moreover have "reading_at w (advance w sr) (fst p) [] (snd p) rest'" "sr_emit (advance w sr) = []" "sr_pending (advance w sr) = sr_pending sr"
            using st at Cons bNil Nil by simp_all
          ultimately show ?thesis
            using 1(1) [of "advance w sr" "fst p" "[]" "snd p" rest'] adv Cons bNil Nil by simp
        qed
      qed
    qed
  qed
qed

subsection \<open>Segments in ascending order\<close>

definition ascending :: "wal \<Rightarrow> bool" where
  "ascending w \<longleftrightarrow> sorted_wrt (<) (map fst (wal_files w)) \<and> 0 < currentID w"

lemma put_file_ascending: "sorted_wrt (<) (map fst fs) \<Longrightarrow> sorted_wrt (<) (map fst (put_file k d fs))"
proof (induction k d fs rule: put_file.induct)
  case (2 k d k' d' fs)
  then show ?case using fst_set_put_file [of k d fs] by auto
qed simp

lemma update_file_keys: "map fst (update_file k d fs) = map fst fs"
  by (simp add: update_file_def case_prod_beta)

lemma Sync_ascending: "ascending (Sync w) = ascending w"
  by (simp add: ascending_def Sync_def update_file_keys Let_def case_prod_beta)

lemma rotate_ascending: "ascending w \<Longrightarrow> ascending (rotateLocked w)"
  using put_file_ascending Sync_ascending [of w] by (auto simp: rotateLocked_def ascending_def openSegment_def Let_def)

lemma wal_Write_ascending: "ascending (fst (wal_Write w p)) = ascending w"
  by (simp add: ascending_def wal_Write_def update_file_keys Let_def case_prod_beta)

lemma write_loop_ascending: "ascending w \<Longrightarrow> ascending (fst (write_loop w buf written ends))"
proof (induction w buf written ends rule: write_loop.induct)
  case (1 w buf written ends)
  define w1 where "w1 = (if IsFull (wal_current w) 1 then rotateLocked w else w)"
  define space where "space = maxSize (wal_current w1) - int (writeOffset (wal_current w1))"
  define fit where "fit = fit_frames space written ends (int written)"
  have w1: "ascending w1" "ascending (rotateLocked w1)" using 1(3) by (auto simp: w1_def intro: rotate_ascending)
  obtain w2 err where wr: "wal_Write w1 (slice written (nat (fst fit)) buf) = (w2, err)" by fastforce
  with wal_Write_ascending [of w1] w1 have w2: "ascending w2" by (metis fst_conv)
  have eq: "write_loop w buf written ends =
     (if length buf \<le> written then (w, None)
      else if fst fit = int written
      then if space < segmentSize w1 then write_loop (rotateLocked w1) buf written (snd fit)
           else (w1, Some (case snd fit of [] \<Rightarrow> SliceBoundsPanic | f # _ \<Rightarrow> ErrRecordTooLarge (sint f - int written) (segmentSize w1)))
      else if fst fit < int written \<or> int (length buf) < fst fit then (w1, Some SliceBoundsPanic)
      else (case err of Some e \<Rightarrow> (w2, Some e) | None \<Rightarrow> write_loop w2 buf (nat (fst fit)) (snd fit)))"
    using wr by (subst write_loop.simps) (simp add: w1_def [symmetric] space_def [symmetric] fit_def [symmetric] Let_def split: option.split)
  have "ascending (fst (write_loop (rotateLocked w1) buf written (snd fit)))" if "\<not> length buf \<le> written" "fst fit = int written" "space < segmentSize w1"
    using that w1 by (intro 1(1) [OF _ w1_def space_def fit_def refl refl]) auto
  moreover have "ascending (fst (write_loop w2 buf (nat (fst fit)) (snd fit)))"
    if "\<not> length buf \<le> written" "fst fit \<noteq> int written" "\<not> (fst fit < int written \<or> int (length buf) < fst fit)" "err = None"
    using that w2 wr by (intro 1(2) [OF _ w1_def space_def fit_def refl refl]) auto
  ultimately show ?case using 1(3) w1 w2 by (auto simp: eq split: option.split)
qed

lemma AppendBatch_ascending: "ascending w \<Longrightarrow> ascending (fst (AppendBatch w records))"
proof -
  assume w: "ascending w"
  have "ascending w'" if "writeBuffered (w\<lparr>wal_currentLSN := l\<rparr>) buf ends = (w', e)" for l buf ends w' e
  proof -
    have "ascending (w\<lparr>wal_currentLSN := l\<rparr>)" using w by (simp add: ascending_def)
    from write_loop_ascending [OF this, of buf 0 ends] show ?thesis using that by (simp add: writeBuffered_def)
  qed
  with w show ?thesis
    by (auto simp: AppendBatch_def ascending_def Let_def split: prod.split sum.split option.split)
qed

lemma reach_ascending: "wal_reach w bs d \<Longrightarrow> ascending w"
proof (induction rule: wal_reach.induct)
  case (opened mx)
  then show ?case by (simp add: ascending_def OpenWAL_def openSegment_def Let_def)
qed (simp_all add: AppendBatch_ascending Sync_ascending rotate_ascending Rotate_def AdvanceLSNTo_def, simp add: ascending_def)

subsection \<open>A new reader\<close>

text \<open>The records of the segments a reader that starts at \<open>from\<close> keeps.\<close>

definition kept_from :: "i64 \<Rightarrow> (nat \<times> wal_record list) list \<Rightarrow> (nat \<times> wal_record list) list" where
  "kept_from from segs = filter (\<lambda>p. sint from < sint (peekSegmentMaxLSN (frames (snd p)))) segs"

lemma kept_append: "kept_from l (xs @ ys) = kept_from l xs @ kept_from l ys"
  by (simp add: kept_from_def)

lemma listing:
  assumes "wal_files w = map segment_of segs" and "ascending w"
  shows "listSegmentIDs w = map fst segs" "p \<in> set segs \<Longrightarrow> map_of (wal_files w) (fst p) = Some (frames (snd p))"
proof -
  have keys: "map fst (wal_files w) = map fst segs" by (simp add: assms(1) segment_of_def)
  then have sw: "sorted_wrt (<) (map fst segs)" using assms(2) by (simp add: ascending_def)
  then show "listSegmentIDs w = map fst segs"
    unfolding listSegmentIDs_def keys by (intro sorted_sort_id strict_sorted_imp_sorted)
  have "distinct (map fst (wal_files w))" unfolding keys using sw strict_sorted_iff by blast
  moreover assume "p \<in> set segs"
  ultimately show "map_of (wal_files w) (fst p) = Some (frames (snd p))"
    by (intro map_of_is_SomeI) (auto simp: assms(1) segment_of_def intro!: image_eqI [of _ _ p])
qed

lemma new_reader:
  assumes files: "wal_files w = map segment_of segs" and asc: "ascending w" and st: "streamable w (kept_from from segs)"
    and cur: "fst (last segs) = currentID w"
  shows "\<exists>sr'. poll w (NewStreamReader from) = (sr', deliver [] (concat (map snd (kept_from from segs))), None) \<and>
    sr_pending sr' = waiting [] (concat (map snd (kept_from from segs))) \<and> caught_up w sr' (last (kept_from from segs))"
proof -
  let ?kept = "kept_from from segs" and ?sr = "NewStreamReader from"
  have segs: "?kept \<noteq> []" "segs \<noteq> []" using st by (auto simp: streamable_def kept_from_def)
  obtain p rest where p: "?kept = p # rest" using segs by (cases ?kept) auto
  then have "p \<in> set ?kept" by simp
  then have "p \<in> set segs" by (simp add: kept_from_def)
  have "filter (\<lambda>k. \<not> sint (peekSegmentMaxLSN (file_bytes (wal_files w) k)) \<le> sint from) (map fst segs) = map fst ?kept"
    unfolding kept_from_def filter_map using listing(2) [OF files asc]
    by (intro arg_cong [of _ _ "map fst"] filter_cong) (auto simp: file_bytes_def)
  then have "first_listing w ?sr = ?sr\<lparr>sr_ids := map fst ?kept, sr_maxID := currentID w, sr_idx := 0\<rparr>"
    using segs cur by (simp add: first_listing_def listing(1) [OF files asc] NewStreamReader_def last_map Let_def)
  moreover have "open_listed w (?sr\<lparr>sr_ids := map fst ?kept, sr_maxID := currentID w, sr_idx := 0\<rparr>) =
      (?sr\<lparr>sr_ids := map fst ?kept, sr_maxID := currentID w, sr_idx := 0, sr_f := Some (frames (snd p)), sr_id := fst p, sr_size := length (frames (snd p)), sr_offset := 0\<rparr>, True)"
    using listing(2) [OF files asc \<open>p \<in> set segs\<close>] p by (subst open_listed.simps) (simp add: Let_def)
  ultimately obtain sr1 where o: "ensureOpen w ?sr = (sr1, True)" and sr1: "sr1 = ?sr\<lparr>sr_ids := map fst ?kept, sr_maxID := currentID w, sr_idx := 0, sr_f := Some (frames (snd p)), sr_id := fst p, sr_size := length (frames (snd p)), sr_offset := 0\<rparr>"
    using segs by (subst (asm) ensureOpen.simps) (simp add: NewStreamReader_def)
  have asc': "\<forall>k\<in>set (listSegmentIDs w). k \<le> currentID w"
    using last_sorted_max [of "listSegmentIDs w"] segs(2) cur unfolding listing(1) [OF files asc, symmetric]
    by (simp add: listing(1) [OF files asc] last_map) (simp add: listSegmentIDs_def listing(1) [OF files asc, symmetric])
  have at: "reading_at w sr1 (fst p) [] (snd p) rest"
    using st asc' by (simp add: sr1 p reading_at_def) (simp add: frames_def)
  have "Next w ?sr = Next w sr1"
    using reading_limit(1) [OF at] o by (intro Next_opened) (simp_all add: sr1 NewStreamReader_def)
  from poll_cong [OF this] poll_reading [OF at] show ?thesis by (simp add: p sr1 NewStreamReader_def)
qed

subsection \<open>Logs the program writes\<close>

text \<open>Everything appended is synced, and every record is small enough to be streamed.\<close>

definition all_synced :: "wal \<Rightarrow> bool" where
  "all_synced w \<longleftrightarrow> syncedOffset (wal_current w) = writeOffset (wal_current w)"

definition small_records :: "batch list \<Rightarrow> bool" where
  "small_records bs \<longleftrightarrow> (\<forall>b\<in>set bs. \<forall>r\<in>set (fst b). length (rec_Payload r) \<le> peekMaxPayload)"

lemma small_log: "small_records bs \<Longrightarrow> r \<in> set (log_records bs) \<Longrightarrow> length (rec_Payload r) \<le> peekMaxPayload"
  by (auto simp: small_records_def log_records_def batch_records_def commit_record_def commit_payload_layout)

lemma history_segments:
  assumes h: "history_ok w bs d parts rs" and asc: "ascending w" and syn: "all_synced w" and small: "small_records bs"
    and kept: "kept \<noteq> []" "sorted_wrt (<) (map fst kept)" "set kept \<subseteq> set (parts @ [(currentID w, rs)])"
  shows "streamable w kept"
proof -
  let ?segs = "parts @ [(currentID w, rs)]"
  have st: "log_state w parts rs" and bs: "\<forall>b\<in>set bs. wf_batch b" and recs: "concat (map snd ?segs) = log_records bs"
    using h by (auto simp: history_ok_def parts_records_def)
  have files: "wal_files w = map segment_of ?segs" using st by (simp add: log_state_def segment_of_def)
  have "wf_record r \<and> length (rec_Payload r) \<le> peekMaxPayload" if "p \<in> set ?segs" "r \<in> set (snd p)" for p r
  proof -
    have "r \<in> set (log_records bs)" unfolding recs [symmetric] using that by auto
    then show ?thesis using wf_log_records [OF bs] small_log [OF small] by blast
  qed
  moreover have "fst p \<le> currentID w \<and> (fst p = currentID w \<longrightarrow> syncedOffset (wal_current w) = length (frames (snd p)))" if "p \<in> set ?segs" for p
    using that st syn by (auto simp: log_state_def all_synced_def)
  ultimately show ?thesis
    using kept listing(2) [OF files asc] unfolding streamable_def by (metis (no_types, lifting) subsetD)
qed

lemma history_listing:
  assumes h: "history_ok w bs d parts rs" and asc: "ascending w"
  shows "wal_files w = map segment_of (parts @ [(currentID w, rs)])" "sorted_wrt (<) (map fst (parts @ [(currentID w, rs)]))"
proof -
  show files: "wal_files w = map segment_of (parts @ [(currentID w, rs)])" using h by (simp add: history_ok_def log_state_def segment_of_def)
  then have "map fst (wal_files w) = map fst (parts @ [(currentID w, rs)])" by (simp add: segment_of_def)
  then show "sorted_wrt (<) (map fst (parts @ [(currentID w, rs)]))" using asc by (simp add: ascending_def)
qed

lemma stream_history:
  assumes h: "history_ok w bs d parts rs" and asc: "ascending w" and syn: "all_synced w" and small: "small_records bs"
    and kept: "kept_from from (parts @ [(currentID w, rs)]) \<noteq> []" (is "?kept \<noteq> []")
  shows "\<exists>sr'. poll w (NewStreamReader from) = (sr', deliver [] (concat (map snd ?kept)), None) \<and>
    sr_pending sr' = waiting [] (concat (map snd ?kept)) \<and> caught_up w sr' (last ?kept)"
proof (rule new_reader [OF history_listing(1) [OF h asc] asc])
  have "sorted_wrt (<) (map fst ?kept)"
    using history_listing(2) [OF h asc] unfolding kept_from_def sorted_wrt_map by (rule sorted_wrt_filter)
  then show "streamable w ?kept"
    using kept by (intro history_segments [OF h asc syn small]) (auto simp: kept_from_def)
qed simp

lemma caught_up_live:
  assumes "reading_at w sr k a [] []" and "k = currentID w" and "sr_emit sr = []"
  shows "Next w sr = (sr, Inr None)"
  using Next_turn(1) [OF assms(3) reading_limit [OF assms(1)]] assms by (simp add: reading_at_def)

lemma stream_all:
  assumes h: "history_ok w bs d parts rs" and asc: "ascending w" and syn: "all_synced w" and small: "small_records bs"
    and none: "\<forall>f\<in>set (wal_files w). sint from < sint (peekSegmentMaxLSN (snd f))"
  shows "\<exists>sr'. poll w (NewStreamReader from) = (sr', log_records bs, None) \<and> reading_at w sr' (currentID w) rs [] [] \<and>
    sr_emit sr' = [] \<and> sr_pending sr' = []"
proof -
  let ?segs = "parts @ [(currentID w, rs)]"
  have all: "kept_from from ?segs = ?segs"
    using none history_listing(1) [OF h asc] by (auto simp: kept_from_def segment_of_def filter_id_conv)
  have recs: "concat (map snd ?segs) = log_records bs" and bs: "\<forall>b\<in>set bs. wf_batch b"
    using h by (simp_all add: history_ok_def parts_records_def)
  show ?thesis
    using stream_history [OF h asc syn small, of "from"] deliver_log [OF bs] unfolding all recs by (auto simp: caught_up_def)
qed

text \<open>A batch that fits into what is left of the live segment goes there.\<close>

definition fits :: "wal \<Rightarrow> wal_record list \<Rightarrow> bool" where
  "fits w records \<longleftrightarrow> int (writeOffset (wal_current w) + length (frames records) + 29) \<le> segmentSize w"

lemma append_fits:
  assumes st: "log_state w parts rs" and ok: "appendable w records" and fits: "fits w records"
  defines "w' \<equiv> fst (AppendBatch w records)"
  shows "log_state w' parts (rs @ batch_records (appended w records))" "currentID w' = currentID w"
proof -
  let ?qs = "batch_records (appended w records)" and ?w = "w\<lparr>wal_currentLSN := snd (appended w records)\<rparr>"
  have st1: "log_state ?w parts rs" using st by (simp add: log_state_def)
  note enc = AppendBatch_encoded [OF ok]
  have len: "length (frames ?qs) < 2147483648" "frames ?qs \<noteq> []" using ok enc(2) by (auto simp: appendable_def)
  have room: "int (length (frames rs) + length (frames ?qs)) \<le> segmentSize ?w"
    using fits st enc(2) by (simp add: fits_def log_state_def)
  have full: "\<not> IsFull (wal_current ?w) 1" using room st len(2) enc(2) by (simp add: IsFull_def log_state_def)
  have fit: "fit_frames (maxSize (wal_current ?w) - int (writeOffset (wal_current ?w))) 0 (ends_of 0 ?qs) 0 = (int (length (frames ?qs)), [])"
    using room st len(1) by (intro fit_all) (simp_all add: log_state_def)
  obtain w2 where wr: "wal_Write ?w (frames ?qs) = (w2, None)" and w2: "log_state w2 parts (rs @ ?qs)" "currentID w2 = currentID ?w"
    using write_state [OF st1 room] by blast
  have "write_loop w2 (frames ?qs) (length (frames ?qs)) [] = (w2, None)" by (subst write_loop.simps) simp
  then have "write_loop ?w (frames ?qs) 0 (ends_of 0 ?qs) = (w2, None)"
    using full fit wr len(2) by (subst write_loop.simps) (simp add: slice_def)
  then have "w' = w2" using enc(1) by (simp add: w'_def)
  with w2 show "log_state w' parts (rs @ ?qs)" "currentID w' = currentID w" by simp_all
qed

lemma Sync_synced: "log_state w parts rs \<Longrightarrow> log_state (Sync w) parts rs \<and> all_synced (Sync w) \<and> currentID (Sync w) = currentID w"
  using Sync_state [of w parts rs] by (simp add: log_state_def all_synced_def)

text \<open>The state after a batch that fits was appended and synced.\<close>

lemma served_batch:
  assumes h: "history_ok w bs d parts rs" and asc: "ascending w" and small: "small_records bs" "small_records [appended w records]"
    and ok: "appendable w records" and fits: "fits w records"
  defines "w' \<equiv> Sync (fst (AppendBatch w records))" and "qs \<equiv> batch_records (appended w records)"
  shows "log_state w' parts (rs @ qs)" "currentID w' = currentID w" "all_synced w'" "ascending w'" "small_records (bs @ [appended w records])"
    "\<exists>d'. history_ok w' (bs @ [appended w records]) d' parts (rs @ qs)"
proof -
  have st: "log_state w parts rs" using h by (simp add: history_ok_def)
  note a = append_fits [OF st ok fits] and s = Sync_synced [OF append_fits(1) [OF st ok fits]]
  then show w': "log_state w' parts (rs @ qs)" "currentID w' = currentID w" "all_synced w'" by (simp_all add: w'_def qs_def)
  show "ascending w'" using asc by (simp add: w'_def Sync_ascending AppendBatch_ascending)
  show sm: "small_records (bs @ [appended w records])" using small by (simp add: small_records_def)
  have "wal_currentLSN w' = snd (appended w records)"
    using AppendBatch_appends [OF st ok] by (metis Sync_frame(4) fst_conv w'_def)
  then show "\<exists>d'. history_ok w' (bs @ [appended w records]) d' parts (rs @ qs)"
    using h w' appended_ok [OF ok]
    by (intro exI [of _ 0]) (auto simp: history_ok_def log_records_def positive_LSNs_def qs_def frames_def)
qed

subsection \<open>Claims\<close>

text \<open>A session: a reader connects to a log and polls, and polls again after every batch that is
  appended and synced, where none of these batches makes the log rotate. \<open>sent\<close> are the
  records it has delivered so far, \<open>err\<close> the error of the last poll.\<close>

inductive session :: "wal \<Rightarrow> streamReader \<Rightarrow> batch list \<Rightarrow> wal_record list \<Rightarrow> stream_error option \<Rightarrow> bool" where
  connect: "\<lbrakk> wal_reach w bs d; all_synced w; small_records bs; \<forall>f\<in>set (wal_files w). sint from < sint (peekSegmentMaxLSN (snd f));
     poll w (NewStreamReader from) = (sr, sent, err) \<rbrakk> \<Longrightarrow> session w sr bs sent err"
| batch: "\<lbrakk> session w sr bs sent None; appendable w records; small_records [appended w records]; fits w records;
     poll (Sync (fst (AppendBatch w records))) sr = (sr', new, err) \<rbrakk> \<Longrightarrow>
     session (Sync (fst (AppendBatch w records))) sr' (bs @ [appended w records]) (sent @ new) err"

definition session_inv :: "wal \<Rightarrow> streamReader \<Rightarrow> batch list \<Rightarrow> bool" where
  "session_inv w sr bs \<longleftrightarrow> (\<exists>d parts rs. history_ok w bs d parts rs \<and> ascending w \<and> small_records bs \<and>
     reading_at w sr (currentID w) rs [] [] \<and> sr_emit sr = [] \<and> sr_pending sr = [])"

lemma reading_grows:
  assumes at: "reading_at w sr k rs [] []" and k: "k = currentID w" "currentID w' = currentID w"
    and h: "history_ok w' bs' d parts (rs @ qs)" and asc: "ascending w'" and syn: "all_synced w'" and small: "small_records bs'"
  shows "reading_at w' sr k rs qs []"
proof -
  have "streamable w' [(k, rs @ qs)]" using k by (intro history_segments [OF h asc syn small]) auto
  moreover have "\<forall>j\<in>set (listSegmentIDs w'). j \<le> currentID w'"
    using history_listing [OF h asc] listing(1) [OF history_listing(1) [OF h asc] asc] by (auto simp: sorted_wrt_append less_imp_le)
  ultimately show ?thesis using at k by (simp add: reading_at_def frames_append)
qed

lemma session_step:
  assumes "session_inv w sr bs" and "appendable w records" and "small_records [appended w records]" and "fits w records"
  shows "\<exists>sr'. poll (Sync (fst (AppendBatch w records))) sr = (sr', batch_records (appended w records), None) \<and>
    session_inv (Sync (fst (AppendBatch w records))) sr' (bs @ [appended w records])"
proof -
  let ?w = "Sync (fst (AppendBatch w records))" and ?b = "appended w records"
  obtain d parts rs where h: "history_ok w bs d parts rs" and asc: "ascending w" and small: "small_records bs"
    and at: "reading_at w sr (currentID w) rs [] []" and em: "sr_emit sr = []" "sr_pending sr = []"
    using assms(1) by (auto simp: session_inv_def)
  note s = served_batch [OF h asc small assms(3,2,4)]
  then obtain d' where h': "history_ok ?w (bs @ [?b]) d' parts (rs @ batch_records ?b)" by blast
  have wf: "wf_batch ?b" using h' by (simp add: history_ok_def)
  have "reading_at ?w sr (currentID w) rs (batch_records ?b) []"
    by (rule reading_grows [OF at refl s(2) h' s(4,3,5)])
  from poll_reading [OF this] em deliver_batch [OF wf, of "[]"] show ?thesis
    using h' s s(2) by (auto simp: caught_up_def session_inv_def)
qed

lemma session_holds: "session w sr bs sent err \<Longrightarrow> err = None \<and> sent = log_records bs \<and> session_inv w sr bs"
proof (induction rule: session.induct)
  case (connect w bs d lsn sr sent err)
  obtain parts rs where h: "history_ok w bs d parts rs" using reach_history [OF connect(1)] by blast
  note asc = reach_ascending [OF connect(1)]
  from stream_all [OF h asc connect(2-4)] connect(5) h asc connect(3) show ?case by (auto simp: session_inv_def)
next
  case (batch w sr bs sent records sr' new err)
  then have "session_inv w sr bs" by blast
  from session_step [OF this batch(2-4)] batch show ?case by (auto simp: log_records_def)
qed

text \<open>C11: Streaming a log. A reader that connects to a log of the program, finds no segment to skip (every segment ends
  above the LSN it starts from) and
  polls after every batch that is appended to the live segment has delivered, at every moment,
  exactly the committed batches, records and markers, in the order of the log and without
  repetition, and no poll fails. This includes the records at or below the LSN the reader starts from: that
  LSN only serves to skip whole segments, and it is the follower that drops what it has already.\<close>

theorem session_delivers_log:
  assumes "session w sr bs sent err"
  shows "err = None \<and> sent = log_records bs \<and> Next w sr = (sr, Inr None)"
  using session_holds [OF assms] caught_up_live [of w sr "currentID w"] by (auto simp: session_inv_def)

lemma relist_one:
  assumes "listSegmentIDs w = ks @ [k]" and "\<forall>j\<in>set ks. j \<le> sr_maxID sr" and "sr_maxID sr < k"
  shows "relist w sr = (sr\<lparr>sr_ids := sr_ids sr @ [k], sr_maxID := k\<rparr>, True)"
proof -
  have "foldl (\<lambda>(sr, appended) k. if sr_maxID sr < k then (sr\<lparr>sr_ids := sr_ids sr @ [k], sr_maxID := k\<rparr>, True) else (sr, appended)) (sr, False) ks = (sr, False)"
    using assms(2) by (induction ks) auto
  then show ?thesis using assms(1,3) by (simp add: relist_def)
qed

lemma rotated:
  assumes h: "history_ok w bs d parts rs" and asc: "ascending w"
  shows "\<exists>d'. history_ok (Rotate w) bs d' (parts @ [(currentID w, rs)]) []" "currentID (Rotate w) = Suc (currentID w)"
    "ascending (Rotate w)" "all_synced (Rotate w)"
proof -
  have st: "log_state w parts rs" using h by (simp add: history_ok_def)
  then show id: "currentID (Rotate w) = Suc (currentID w)" by (simp add: Rotate_def rotateLocked_def openSegment_def Let_def)
  show "ascending (Rotate w)" using asc by (simp add: Rotate_def rotate_ascending)
  show "all_synced (Rotate w)" by (simp add: Rotate_def rotateLocked_def openSegment_def all_synced_def Let_def)
  show "\<exists>d'. history_ok (Rotate w) bs d' (parts @ [(currentID w, rs)]) []"
    using h rotate_state [OF st]
    by (intro exI [of _ 0]) (simp add: history_ok_def Rotate_def parts_records_def log_records_def frames_def [of "[]"])
qed

lemma step_over:
  assumes f: "sr_f sr \<noteq> None" and ids: "length (sr_ids sr) = Suc (sr_idx sr)" and lst: "listSegmentIDs w = ks @ [k]"
    and max: "\<forall>j\<in>set ks. j \<le> sr_maxID sr" "sr_maxID sr < k" and data: "map_of (wal_files w) k = Some d"
  shows "advance w sr = sr\<lparr>sr_f := Some d, sr_idx := Suc (sr_idx sr), sr_ids := sr_ids sr @ [k], sr_maxID := k, sr_id := k, sr_size := length d, sr_offset := 0\<rparr>"
proof -
  let ?sr = "sr\<lparr>sr_f := None, sr_idx := sr_idx sr + 1\<rparr>"
  let ?new = "?sr\<lparr>sr_ids := sr_ids sr @ [k], sr_maxID := k\<rparr>"
  have "open_listed w ?sr = (?sr, False)" using ids by (subst open_listed.simps) simp
  moreover have "relist w ?sr = (?new, True)" using relist_one [OF lst, of ?sr] max by simp
  moreover have "ensureOpen w ?new = (?new\<lparr>sr_f := Some d, sr_id := k, sr_size := length d, sr_offset := 0\<rparr>, True)"
    using ids data ensureOpen_hit [of ?new w d] by (simp add: nth_append)
  moreover have "sr_ids sr \<noteq> []" using ids by auto
  ultimately have "ensureOpen w ?sr = (?new\<lparr>sr_f := Some d, sr_id := k, sr_size := length d, sr_offset := 0\<rparr>, True)"
    by (subst ensureOpen.simps) simp
  then show ?thesis by (simp add: advance_def)
qed

text \<open>A batch is lost at a rotation. The reader keeps the size the live segment had when it was
  opened and takes it for the end of the segment once the log has rotated: a batch that is appended
  and synced after the last poll, with the rotation before the next one, is durable in the log
  and never sent; the reader goes on with the new segment and reports no error.\<close>

theorem rotation_loses_batch:
  assumes "session w sr bs sent None" and "appendable w records" and "small_records [appended w records]" and "fits w records"
  shows "\<exists>sr'. poll (Rotate (Sync (fst (AppendBatch w records)))) sr = (sr', [], None) \<and> sr_id sr' = currentID w + 1"
proof -
  let ?v = "Sync (fst (AppendBatch w records))" and ?qs = "batch_records (appended w records)"
  let ?w = "Rotate ?v" and ?k = "Suc (currentID w)"
  obtain d parts rs where h: "history_ok w bs d parts rs" and asc: "ascending w" and small: "small_records bs"
    and at: "reading_at w sr (currentID w) rs [] []" and em: "sr_emit sr = []"
    using session_holds [OF assms(1)] by (auto simp: session_inv_def)
  note s = served_batch [OF h asc small assms(3,2,4)]
  obtain d' where h': "history_ok ?v (bs @ [appended w records]) d' parts (rs @ ?qs)" using s(6) by blast
  let ?segs = "(parts @ [(currentID w, rs @ ?qs)]) @ [(?k, [])]"
  have w: "currentID ?w = ?k" "ascending ?w" "all_synced ?w" using rotated [OF h' s(4)] s(2) by simp_all
  obtain d2 where h2: "history_ok ?w (bs @ [appended w records]) d2 (parts @ [(currentID w, rs @ ?qs)]) []"
    using rotated(1) [OF h' s(4)] s(2) by auto
  have files: "wal_files ?w = map segment_of ?segs" using history_listing(1) [OF h2 w(2)] w(1) by simp
  have lst: "listSegmentIDs ?w = map fst (parts @ [(currentID w, rs @ ?qs)]) @ [?k]" using listing(1) [OF files w(2)] by simp
  have synced: "syncedOffset (wal_current ?w) = 0"
    using h2 w(3) by (simp add: history_ok_def log_state_def all_synced_def frames_def [of "[]"])
  have sr: "sr_f sr \<noteq> None" "sr_id sr = currentID w" "sr_size sr \<le> sr_offset sr" "length (sr_ids sr) = Suc (sr_idx sr)" "sr_maxID sr = currentID w"
    using at by (auto simp: reading_at_def)
  have "\<forall>j\<in>set (map fst (parts @ [(currentID w, rs @ ?qs)])). j \<le> currentID w"
    using h by (auto simp: history_ok_def log_state_def less_imp_le)
  moreover have "map_of (wal_files ?w) ?k = Some []" using listing(2) [OF files w(2), of "(?k, [])"] by (simp add: frames_def)
  ultimately have adv: "advance ?w sr = sr\<lparr>sr_f := Some [], sr_idx := Suc (sr_idx sr), sr_ids := sr_ids sr @ [?k], sr_maxID := ?k, sr_id := ?k, sr_size := 0, sr_offset := 0\<rparr>"
    using step_over [OF sr(1,4) lst, of "[]"] sr(5) by simp
  have "ensureOpen ?w sr = (sr, True)" "durableLimit ?w sr = (sr_size sr, False)"
    using sr w(1) by (simp_all add: ensureOpen.simps durableLimit_def Head_def)
  from Next_turn(1) [OF em this] have one: "Next ?w sr = Next ?w (advance ?w sr)" using sr(3) by simp
  have "sr_emit (advance ?w sr) = []" "ensureOpen ?w (advance ?w sr) = (advance ?w sr, True)" "durableLimit ?w (advance ?w sr) = (0, True)"
    using synced w(1) em by (simp_all add: ensureOpen.simps durableLimit_def Head_def adv)
  from Next_turn(1) [OF this] have "Next ?w (advance ?w sr) = (advance ?w sr, Inr None)" by simp
  then show ?thesis using one by (subst poll.simps) (simp add: adv)
qed

text \<open>A reader that connects while the live segment is empty, as after a snapshot, skips that
  segment as holding nothing new but counts it as listed. If it finds an earlier segment to
  read it never opens the live one: batches appended there later are not delivered.\<close>

theorem empty_live_segment_is_missed:
  assumes "wal_reach w bs d" and "small_records bs" and "0 \<le> sint from"
    and "\<exists>f\<in>set (wal_files (Rotate w)). sint from < sint (peekSegmentMaxLSN (snd f))"
    and "appendable (Rotate w) records" and "small_records [appended (Rotate w) records]" and "fits (Rotate w) records"
  shows "\<exists>sr sent. poll (Rotate w) (NewStreamReader from) = (sr, sent, None) \<and>
    poll (Sync (fst (AppendBatch (Rotate w) records))) sr = (sr, [], None)"
proof -
  let ?w = "Rotate w" and ?v = "Sync (fst (AppendBatch (Rotate w) records))"
  obtain parts rs where h0: "history_ok w bs d parts rs" using reach_history [OF assms(1)] by blast
  note r = rotated [OF h0 reach_ascending [OF assms(1)]]
  let ?parts = "parts @ [(currentID w, rs)]" and ?segs = "(parts @ [(currentID w, rs)]) @ [(currentID ?w, [])]"
  obtain d' where h: "history_ok ?w bs d' ?parts []" using r(1) by blast
  have "kept_from from ?segs = kept_from from ?parts"
    using assms(3) by (simp add: kept_from_def frames_def peekSegmentMaxLSN_def)
  moreover have ne: "kept_from from ?segs \<noteq> []"
    using assms(4) history_listing(1) [OF h r(3)] by (auto simp: kept_from_def segment_of_def filter_empty_conv)
  ultimately have "fst (last (kept_from from ?segs)) \<noteq> currentID ?w"
    using last_in_set [OF ne] h by (auto simp: kept_from_def history_ok_def log_state_def)
  with stream_history [OF h r(3,4) assms(2), of "from"] ne obtain sr sent
    where p: "poll ?w (NewStreamReader from) = (sr, sent, None)" and ex: "exhausted sr (currentID ?w)" by (auto simp: caught_up_def)
  note s = served_batch [OF h r(3) assms(2,6,5,7)]
  then obtain d2 where h2: "history_ok ?v (bs @ [appended ?w records]) d2 ?parts ([] @ batch_records (appended ?w records))" by blast
  have "\<forall>k\<in>set (listSegmentIDs ?v). k \<le> currentID ?w"
    using history_listing [OF h2 s(4)] listing(1) [OF history_listing(1) [OF h2 s(4)] s(4)] s(2) by (auto simp: sorted_wrt_append less_imp_le)
  from exhausted_poll [OF ex this] p show ?thesis by blast
qed

text \<open>A straddling batch is lost at a reconnect. A follower that holds everything up to \<open>l - 2\<close> asks
  for the log from \<open>l - 1\<close> on. If the record with that LSN is the last of its segment and the
  marker that commits it opens the next one, the segment is skipped and the marker, which finds
  no record waiting, is dropped.\<close>

theorem resume_skips_straddling_batch:
  assumes "wal_reach w (bs @ [([r], l)]) d" and "all_synced w" and "small_records (bs @ [([r], l)])"
    and "wal_files w = map segment_of (parts @ [(k, xs @ [r]), (currentID w, [commit_record l 1])])"
    and "\<forall>p\<in>set (parts @ [(k, xs @ [r])]). snd p \<noteq> [] \<and> length (frames (snd p)) \<le> peekTailChunk \<and>
      (\<forall>q\<in>set (snd p). peekable q \<and> sint (rec_LSN q) \<le> sint (rec_LSN r))"
    and "sint (rec_LSN r) < sint l"
  shows "\<exists>sr'. poll w (NewStreamReader (rec_LSN r)) = (sr', [], None) \<and> Next w sr' = (sr', Inr None)"
proof -
  let ?old = "parts @ [(k, xs @ [r])]" and ?live = "(currentID w, [commit_record l 1])"
  obtain ps rs where h: "history_ok w (bs @ [([r], l)]) d ps rs" using reach_history [OF assms(1)] by blast
  note asc = reach_ascending [OF assms(1)]
  have "peekSegmentMaxLSN (frames (snd p)) = rec_LSN (last (snd p))" if "p \<in> set ?old" for p
    using assms(5) that by (intro peek_last) auto
  then have "\<not> sint (rec_LSN r) < sint (peekSegmentMaxLSN (frames (snd p)))" if "p \<in> set ?old" for p
    using assms(5) that last_in_set [of "snd p"] by (metis not_le)
  then have old: "kept_from (rec_LSN r) ?old = []" unfolding kept_from_def filter_empty_conv by blast
  have "0 < sint l" using h by (auto simp: history_ok_def positive_LSNs_def)
  then have "peekSegmentMaxLSN (frames [commit_record l 1]) = l"
    using peek_last [of "[commit_record l 1]"] wf_commit_record [of l 1] length_commit_frame [of l 1]
    by (simp add: peekable_def frames_def commit_record_def commit_payload_layout)
  then have "kept_from (rec_LSN r) [?live] = [?live]" using assms(6) by (simp add: kept_from_def)
  then have kept: "kept_from (rec_LSN r) (?old @ [?live]) = [?live]" unfolding kept_append [of _ ?old] old by simp
  have same: "map segment_of (ps @ [(currentID w, rs)]) = map segment_of (?old @ [?live])"
    using assms(4) history_listing(1) [OF h asc] by simp
  have live: "map_of (wal_files w) (currentID w) = Some (frames [commit_record l 1])"
    using listing(2) [of w "?old @ [?live]" ?live] assms(4) asc by simp
  have "streamable w [?live]"
    using live assms(2) same h wf_commit_record [of l 1]
    by (auto simp: streamable_def history_ok_def log_state_def all_synced_def commit_record_def commit_payload_layout segment_of_def)
  then obtain sr' where p: "poll w (NewStreamReader (rec_LSN r)) = (sr', deliver [] [commit_record l 1], None)" and c: "caught_up w sr' ?live"
    using new_reader [of w "?old @ [?live]" "rec_LSN r"] assms(4) asc kept by auto
  have "deliver [] [commit_record l 1] = []" using expectedCount_commit [of 1 l] by simp
  with p c caught_up_live [of w sr' "currentID w"] show ?thesis by (auto simp: caught_up_def)
qed

subsection \<open>Sample logs\<close>

definition stream_wal :: wal where
  "stream_wal = Sync (fst (AppendBatch (OpenWAL [] 200 False) [sample_record 0]))"

lemma stream_wal_open:
  "appendable (OpenWAL [] 200 False) [sample_record 0]" "fits (OpenWAL [] 200 False) [sample_record 0]"
  "wal_reach (OpenWAL [] 200 False) [] 0" "history_ok (OpenWAL [] 200 False) [] 0 [] []" "ascending (OpenWAL [] 200 False)"
  "appended (OpenWAL [] 200 False) [sample_record 0] = sample_batch 1" "currentID (OpenWAL [] 200 False) = 1"
proof -
  let ?w = "OpenWAL [] 200 False"
  show "appendable ?w [sample_record 0]"
    by (simp add: appendable_def wf_sample_record length_frame_of frames_def OpenWAL_def openSegment_def file_bytes_def Let_def) (simp add: sample_record_def)
  show "fits ?w [sample_record 0]"
    by (simp add: fits_def frames_def length_frame_of OpenWAL_def openSegment_def file_bytes_def sample_record_def Let_def)
  show "wal_reach ?w [] 0" by (rule wal_reach.opened)
  have "log_state ?w [] []" by (simp add: log_state_def OpenWAL_def openSegment_def file_bytes_def frames_def Let_def)
  then show "history_ok ?w [] 0 [] []"
    by (simp add: history_ok_def log_records_def parts_records_def frames_def positive_LSNs_def) (simp add: OpenWAL_def Let_def split: prod.split)
  show "ascending ?w" by (rule reach_ascending [OF wal_reach.opened])
  show "appended ?w [sample_record 0] = sample_batch 1" "currentID ?w = 1"
    by (simp_all add: appended_def OpenWAL_def openSegment_def sample_batch_def sample_record_def Let_def)
qed

lemma stream_wal_reach:
  "wal_reach stream_wal [sample_batch 1] 1" "all_synced stream_wal" "small_records [sample_batch l]" "currentID stream_wal = 1"
  "wal_files stream_wal = [(1, frames (batch_records (sample_batch 1)))]" "wal_currentLSN stream_wal = 2"
  "writeOffset (wal_current stream_wal) = 48" "segmentSize stream_wal = 200"
proof -
  let ?w = "OpenWAL [] 200 False"
  note o = stream_wal_open
  show "wal_reach stream_wal [sample_batch 1] 1"
    using wal_reach.sync [OF wal_reach.append [OF o(3,1)]] o(6) by (simp add: stream_wal_def)
  show small: "small_records [sample_batch l]" for l by (simp add: small_records_def sample_batch_def sample_record_def)
  have "small_records []" "small_records [appended ?w [sample_record 0]]" using small o(6) by (simp_all add: small_records_def)
  note s = served_batch [OF o(4,5) this o(1,2)]
  then show "all_synced stream_wal" "currentID stream_wal = 1" using o(7) by (simp_all add: stream_wal_def)
  show "wal_files stream_wal = [(1, frames (batch_records (sample_batch 1)))]" "writeOffset (wal_current stream_wal) = 48"
    using s(1,2) o(6,7) length_sample_batch by (simp_all add: stream_wal_def log_state_def)
  have "log_state ?w [] []" using o(4) by (simp add: history_ok_def)
  from AppendBatch_appends [OF this o(1)] obtain w'
    where w': "AppendBatch ?w [sample_record 0] = (w', Inr (wal_currentLSN ?w + 1))" "wal_currentLSN w' = snd (appended ?w [sample_record 0])"
      "segmentSize w' = segmentSize ?w" by blast
  have "segmentSize ?w = 200" by (simp add: OpenWAL_def openSegment_def Let_def)
  then show "wal_currentLSN stream_wal = 2" "segmentSize stream_wal = 200"
    using w' o(6) by (simp_all add: stream_wal_def sample_batch_def)
qed

lemma sample_peek: "peekSegmentMaxLSN (frames (batch_records (sample_batch 1))) = 2"
proof -
  let ?rs = "[sample_record 1, commit_record 2 1]"
  have rs: "batch_records (sample_batch 1) = ?rs" by (simp add: batch_records_def sample_batch_def)
  have "\<forall>r\<in>set ?rs. peekable r"
    using wf_commit_record [of 2 1] wf_sample_record [of 1]
    by (simp add: peekable_def commit_record_def commit_payload_layout sample_record_def)
  then show ?thesis using peek_last [of ?rs] length_sample_batch [of 1] by (simp add: rs)
qed

lemma sample_session: "\<exists>sr sent. session stream_wal sr [sample_batch 1] sent None"
proof -
  have none: "\<forall>f\<in>set (wal_files stream_wal). sint (1 :: i64) < sint (peekSegmentMaxLSN (snd f))"
    using stream_wal_reach(5) sample_peek by simp
  obtain sr sent err where "poll stream_wal (NewStreamReader 1) = (sr, sent, err)" using prod_cases3 by blast
  with session.connect [OF stream_wal_reach(1-3) none] session_holds show ?thesis by blast
qed

lemma second_batch:
  "appendable stream_wal [sample_record 0]" "appended stream_wal [sample_record 0] = sample_batch 3" "fits stream_wal [sample_record 0]"
proof -
  note w = stream_wal_reach
  have len: "length (frames [sample_record 0]) = 19" by (simp add: frames_def length_frame_of sample_record_def)
  show "appendable stream_wal [sample_record 0]"
    using w wf_sample_record [of 0] len by (simp add: appendable_def length_frame_of) (simp add: sample_record_def)
  show "appended stream_wal [sample_record 0] = sample_batch 3" using w by (simp add: appended_def sample_batch_def sample_record_def)
  show "fits stream_wal [sample_record 0]" using w len by (simp add: fits_def)
qed

text \<open>Witness: a session over two batches.\<close>

theorem session_delivers_log_witness:
  "\<exists>w sr sent. session w sr [sample_batch 1, sample_batch 3] sent None \<and>
     sent = [sample_record 1, commit_record 2 1, sample_record 3, commit_record 4 1]"
proof -
  obtain sr sent where s: "session stream_wal sr [sample_batch 1] sent None" using sample_session by blast
  let ?w = "Sync (fst (AppendBatch stream_wal [sample_record 0]))"
  obtain sr' new err where "poll ?w sr = (sr', new, err)" using prod_cases3 by blast
  with session.batch [OF s second_batch(1) _ second_batch(3)] second_batch(2) stream_wal_reach(3)
  have s': "session ?w sr' [sample_batch 1, sample_batch 3] (sent @ new) err" by simp
  from session_delivers_log [OF s'] s' show ?thesis
    by (intro exI [of _ ?w] exI [of _ sr'] exI [of _ "sent @ new"]) (simp add: log_records_def batch_records_def sample_batch_def)
qed

text \<open>Witness: the second batch is lost.\<close>

theorem rotation_loses_batch_witness:
  "\<exists>sr sent sr'. session stream_wal sr [sample_batch 1] sent None \<and>
     poll (Rotate (Sync (fst (AppendBatch stream_wal [sample_record 0])))) sr = (sr', [], None)"
proof -
  obtain sr sent where s: "session stream_wal sr [sample_batch 1] sent None" using sample_session by blast
  from rotation_loses_batch [OF s second_batch(1) _ second_batch(3)] s second_batch(2) stream_wal_reach(3) show ?thesis by auto
qed

text \<open>Witness: the log of one batch, rotated, and a second batch.\<close>

theorem empty_live_segment_is_missed_witness:
  "\<exists>sr sent. poll (Rotate stream_wal) (NewStreamReader 1) = (sr, sent, None) \<and>
     poll (Sync (fst (AppendBatch (Rotate stream_wal) [sample_record 0]))) sr = (sr, [], None)"
proof -
  obtain parts rs where h: "history_ok stream_wal [sample_batch 1] 1 parts rs" using reach_history [OF stream_wal_reach(1)] by blast
  note r = rotated [OF h reach_ascending [OF stream_wal_reach(1)]]
  then obtain d where h2: "history_ok (Rotate stream_wal) [sample_batch 1] d (parts @ [(currentID stream_wal, rs)]) []" by blast
  have w: "segmentSize (Rotate stream_wal) = 200" "wal_currentLSN (Rotate stream_wal) = 2"
    using stream_wal_reach(6,8) by (simp_all add: Rotate_def rotateLocked_def openSegment_def Let_def)
  have len: "length (frames [sample_record 0]) = 19" by (simp add: frames_def length_frame_of sample_record_def)
  have ap: "appendable (Rotate stream_wal) [sample_record 0]"
    using w wf_sample_record [of 0] len by (simp add: appendable_def length_frame_of) (simp add: sample_record_def)
  have fit: "fits (Rotate stream_wal) [sample_record 0]"
    using h2 w len by (simp add: fits_def history_ok_def log_state_def frames_def [of "[]"])
  have new: "appended (Rotate stream_wal) [sample_record 0] = sample_batch 3" using w by (simp add: appended_def sample_batch_def sample_record_def)
  have "(1, frames (batch_records (sample_batch 1))) \<in> set (wal_files (Rotate stream_wal))"
    using history_listing(1) [OF h2 r(3)] history_listing(1) [OF h reach_ascending [OF stream_wal_reach(1)]] stream_wal_reach(5) by (auto simp: segment_of_def)
  then have "\<exists>f\<in>set (wal_files (Rotate stream_wal)). sint (1 :: i64) < sint (peekSegmentMaxLSN (snd f))" using sample_peek by force
  with empty_live_segment_is_missed [OF stream_wal_reach(1,3), of 1 "[sample_record 0]"] ap fit new stream_wal_reach(3) show ?thesis by simp
qed

end
