(* ===== verification/Expiry_Heap.thy ===== *)
theory Expiry_Heap
  imports Core_Model "HOL-Library.Multiset"
begin

text \<open>
  The deadline queue of open holds: \<^verbatim>\<open>pendingEntry\<close> and \<^verbatim>\<open>expiryHeap\<close> of
  \<^verbatim>\<open>internal/engine/accounts.go\<close> under Go's \<^verbatim>\<open>container/heap\<close>. The Go slice holds pointers
  to entries that the pending map shares, so entries live in a store from references to
  records and the heap is a list of references; \<open>heap_Swap\<close> writes the back index of the
  two entries it moves. Shown: every operation keeps the heap order, the back indices and
  the absence of repetitions, and changes the set of queued references exactly as
  documented. The locale \<open>deadline_queue\<close> is what the expiry loop relies on.
\<close>

record pendingEntry =
  pe_transfer :: transfer
  pe_expires :: i64
  pe_heapIdx :: nat

type_synonym store = "nat \<Rightarrow> pendingEntry"
type_synonym pheap = "nat list \<times> store"

subsection \<open>The methods of expiryHeap\<close>

definition heap_Less :: "pheap \<Rightarrow> nat \<Rightarrow> nat \<Rightarrow> bool" where
  "heap_Less hs i j = (let (h, st) = hs in sint (pe_expires (st (h ! i))) < sint (pe_expires (st (h ! j))))"

definition set_idx :: "nat \<Rightarrow> nat \<Rightarrow> store \<Rightarrow> store" where
  "set_idx r i st = st(r := (st r)\<lparr>pe_heapIdx := i\<rparr>)"

definition heap_Swap :: "pheap \<Rightarrow> nat \<Rightarrow> nat \<Rightarrow> pheap" where
  "heap_Swap hs i j =
     (let (h, st) = hs;
          h' = h[i := h ! j, j := h ! i]
      in (h', set_idx (h' ! j) j (set_idx (h' ! i) i st)))"

definition heap_push_method :: "pheap \<Rightarrow> nat \<Rightarrow> pheap" where
  "heap_push_method hs r = (let (h, st) = hs in (h @ [r], set_idx r (length h) st))"

definition heap_pop_method :: "pheap \<Rightarrow> pheap" where
  "heap_pop_method hs = (let (h, st) = hs in (butlast h, st))"

subsection \<open>container/heap\<close>

function heap_up :: "pheap \<Rightarrow> nat \<Rightarrow> pheap" where
  "heap_up hs j =
     (let i = (j - 1) div 2
      in if i = j \<or> \<not> heap_Less hs j i then hs else heap_up (heap_Swap hs i j) i)"
  by pat_completeness auto
termination
  by (relation "measure snd") auto

definition heap_child :: "pheap \<Rightarrow> nat \<Rightarrow> nat \<Rightarrow> nat" where
  "heap_child hs i n =
     (let j1 = 2 * i + 1; j2 = j1 + 1
      in if j2 < n \<and> heap_Less hs j2 j1 then j2 else j1)"

function heap_down :: "pheap \<Rightarrow> nat \<Rightarrow> nat \<Rightarrow> pheap \<times> nat" where
  "heap_down hs i n =
     (if n \<le> 2 * i + 1 then (hs, i)
      else if \<not> heap_Less hs (heap_child hs i n) i then (hs, i)
      else heap_down (heap_Swap hs i (heap_child hs i n)) (heap_child hs i n) n)"
  by pat_completeness auto
termination
  by (relation "measure (\<lambda>(hs, i, n). n - i)") (auto simp: heap_child_def Let_def)

declare heap_up.simps [simp del] heap_down.simps [simp del]

definition heap_Push :: "pheap \<Rightarrow> nat \<Rightarrow> pheap" where
  "heap_Push hs r = (let hs' = heap_push_method hs r in heap_up hs' (length (fst hs') - 1))"

definition heap_Pop :: "pheap \<Rightarrow> pheap" where
  "heap_Pop hs =
     (let n = length (fst hs) - 1
      in heap_pop_method (fst (heap_down (heap_Swap hs 0 n) 0 n)))"

definition heap_Remove :: "pheap \<Rightarrow> nat \<Rightarrow> pheap" where
  "heap_Remove hs i =
     (let n = length (fst hs) - 1
      in if n \<noteq> i
         then
           let (hs', i') = heap_down (heap_Swap hs i n) i n
           in heap_pop_method (if \<not> i < i' then heap_up hs' i else hs')
         else heap_pop_method hs)"

lemma heap_child_bounds:
  "2 * i + 1 < n \<Longrightarrow> i < heap_child hs i n \<and> heap_child hs i n < n \<and> (heap_child hs i n - 1) div 2 = i"
  by (auto simp: heap_child_def Let_def)

lemma heap_down_stop:
  "n \<le> 2 * i + 1 \<or> \<not> heap_Less hs (heap_child hs i n) i \<Longrightarrow> heap_down hs i n = (hs, i)"
  by (auto simp: heap_down.simps [of hs i n])

lemma heap_down_go:
  "\<lbrakk> 2 * i + 1 < n; heap_Less hs (heap_child hs i n) i \<rbrakk> \<Longrightarrow>
     heap_down hs i n = heap_down (heap_Swap hs i (heap_child hs i n)) (heap_child hs i n) n"
  by (simp add: heap_down.simps [of hs i n])

lemma heap_up_stop: "(j - 1) div 2 = j \<or> \<not> heap_Less hs j ((j - 1) div 2) \<Longrightarrow> heap_up hs j = hs"
  by (auto simp: heap_up.simps [of hs j] Let_def)

lemma heap_up_go:
  "\<lbrakk> (j - 1) div 2 \<noteq> j; heap_Less hs j ((j - 1) div 2) \<rbrakk> \<Longrightarrow>
     heap_up hs j = heap_up (heap_Swap hs ((j - 1) div 2) j) ((j - 1) div 2)"
  by (simp add: heap_up.simps [of hs j] Let_def)

subsection \<open>Order, back indices\<close>

abbreviation key :: "store \<Rightarrow> nat \<Rightarrow> int" where
  "key st r \<equiv> sint (pe_expires (st r))"

abbreviation parent :: "nat \<Rightarrow> nat" where
  "parent i \<equiv> (i - 1) div 2"

lemma parent_less: "0 < i \<Longrightarrow> parent i < i"
  by auto

definition heap_ordered :: "nat \<Rightarrow> pheap \<Rightarrow> bool" where
  "heap_ordered n hs \<longleftrightarrow>
     (\<forall>m. 0 < m \<longrightarrow> m < n \<longrightarrow> key (snd hs) (fst hs ! parent m) \<le> key (snd hs) (fst hs ! m))"

definition idx_ok :: "pheap \<Rightarrow> bool" where
  "idx_ok hs \<longleftrightarrow> distinct (fst hs) \<and> (\<forall>i < length (fst hs). pe_heapIdx (snd hs (fst hs ! i)) = i)"

definition heap_inv :: "pheap \<Rightarrow> bool" where
  "heap_inv hs \<longleftrightarrow> heap_ordered (length (fst hs)) hs \<and> idx_ok hs"

text \<open>What no heap operation touches: the transfers and deadlines of all entries, and
  entries outside the heap altogether.\<close>

definition same_entries :: "nat set \<Rightarrow> store \<Rightarrow> store \<Rightarrow> bool" where
  "same_entries R st st' \<longleftrightarrow>
     (\<forall>r. pe_transfer (st' r) = pe_transfer (st r) \<and> pe_expires (st' r) = pe_expires (st r) \<and>
          (r \<notin> R \<longrightarrow> st' r = st r))"

lemma same_entries_refl [simp]: "same_entries R st st"
  by (simp add: same_entries_def)

lemma same_entries_trans:
  "\<lbrakk> same_entries R st st'; same_entries R st' st'' \<rbrakk> \<Longrightarrow> same_entries R st st''"
  by (simp add: same_entries_def)

lemma same_entries_mono: "\<lbrakk> same_entries R st st'; R \<subseteq> S \<rbrakk> \<Longrightarrow> same_entries S st st'"
  by (auto simp: same_entries_def)

lemma same_entries_set_idx: "r \<in> R \<Longrightarrow> same_entries R st (set_idx r i st)"
  by (auto simp: same_entries_def set_idx_def)

lemma same_entries_key: "same_entries R st st' \<Longrightarrow> key st' r = key st r"
  by (simp add: same_entries_def)

subsection \<open>Swap\<close>

lemma fst_heap_Swap: "fst (heap_Swap (h, st) i j) = h[i := h ! j, j := h ! i]"
  by (simp add: heap_Swap_def Let_def)

lemma length_heap_Swap [simp]: "length (fst (heap_Swap hs i j)) = length (fst hs)"
  by (cases hs) (simp add: fst_heap_Swap)

lemma key_heap_Swap [simp]: "key (snd (heap_Swap hs i j)) r = key (snd hs) r"
  by (cases hs) (simp add: heap_Swap_def set_idx_def Let_def)

lemma nth_heap_Swap:
  "\<lbrakk> i < length (fst hs); j < length (fst hs); m < length (fst hs) \<rbrakk> \<Longrightarrow>
     fst (heap_Swap hs i j) ! m =
       (if m = j then fst hs ! i else if m = i then fst hs ! j else fst hs ! m)"
  by (cases hs) (simp add: fst_heap_Swap nth_list_update)

lemma mset_heap_Swap:
  "\<lbrakk> i < length (fst hs); j < length (fst hs) \<rbrakk> \<Longrightarrow> mset (fst (heap_Swap hs i j)) = mset (fst hs)"
  by (cases hs) (simp add: fst_heap_Swap mset_swap)

lemma same_entries_heap_Swap:
  assumes "i < length (fst hs)" "j < length (fst hs)"
  shows "same_entries (set (fst hs)) (snd hs) (snd (heap_Swap hs i j))"
proof -
  obtain h st where hs: "hs = (h, st)" by fastforce
  let ?h = "h[i := h ! j, j := h ! i]"
  have "?h ! i \<in> set ?h" "?h ! j \<in> set ?h" by (rule nth_mem, use assms hs in simp)+
  moreover have "set ?h = set h" using assms hs by simp
  ultimately have in_h: "?h ! i \<in> set h" "?h ! j \<in> set h" by blast+
  have "same_entries (set h) st (set_idx (?h ! j) j (set_idx (?h ! i) i st))"
    by (rule same_entries_trans [OF same_entries_set_idx [OF in_h(1)] same_entries_set_idx [OF in_h(2)]])
  then show ?thesis by (simp add: hs heap_Swap_def Let_def)
qed

lemma idx_ok_heap_Swap:
  assumes ok: "idx_ok hs" and ij: "i < length (fst hs)" "j < length (fst hs)"
  shows "idx_ok (heap_Swap hs i j)"
proof -
  obtain h st where hs: "hs = (h, st)" by fastforce
  let ?h = "h[i := h ! j, j := h ! i]"
  have d: "distinct h" and idx: "\<And>m. m < length h \<Longrightarrow> pe_heapIdx (st (h ! m)) = m"
    using ok hs by (auto simp: idx_ok_def)
  have d': "distinct ?h" using d ij hs by (simp add: distinct_swap)
  have "pe_heapIdx (snd (heap_Swap hs i j) (?h ! m)) = m" if "m < length h" for m
  proof -
    have "?h ! m = ?h ! i \<longleftrightarrow> m = i" "?h ! m = ?h ! j \<longleftrightarrow> m = j"
      using nth_eq_iff_index_eq [OF d', of m i] nth_eq_iff_index_eq [OF d', of m j] that ij hs
      by simp_all
    with idx that ij hs show ?thesis
      by (auto simp: heap_Swap_def set_idx_def Let_def nth_list_update)
  qed
  with d' hs show ?thesis by (simp add: idx_ok_def fst_heap_Swap)
qed

lemmas heap_Swap_facts = mset_heap_Swap same_entries_heap_Swap idx_ok_heap_Swap nth_heap_Swap

subsection \<open>Frame of the sifting loops\<close>

text \<open>\<open>sifted n hs hs'\<close>: a rearrangement of the first \<open>n\<close> slots of \<open>hs\<close> that keeps
  entries, lengths and back indices.\<close>

definition sifted :: "nat \<Rightarrow> pheap \<Rightarrow> pheap \<Rightarrow> bool" where
  "sifted n hs hs' \<longleftrightarrow>
     mset (fst hs') = mset (fst hs) \<and> same_entries (set (fst hs)) (snd hs) (snd hs') \<and>
     (idx_ok hs \<longrightarrow> idx_ok hs') \<and> (\<forall>m. n \<le> m \<longrightarrow> m < length (fst hs) \<longrightarrow> fst hs' ! m = fst hs ! m)"

lemma sifted_length: "sifted n hs hs' \<Longrightarrow> length (fst hs') = length (fst hs)"
  unfolding sifted_def using mset_eq_length by blast

lemma sifted_set: "sifted n hs hs' \<Longrightarrow> set (fst hs') = set (fst hs)"
  unfolding sifted_def using mset_eq_setD by blast

lemma sifted_refl: "sifted n hs hs"
  by (simp add: sifted_def)

lemma sifted_trans: "\<lbrakk> sifted n hs hs'; sifted n hs' hs'' \<rbrakk> \<Longrightarrow> sifted n hs hs''"
  using sifted_length [of n hs hs'] sifted_set [of n hs hs']
  by (auto simp: sifted_def intro: same_entries_trans)

lemma sifted_heap_Swap:
  "\<lbrakk> i < n; j < n; n \<le> length (fst hs) \<rbrakk> \<Longrightarrow> sifted n hs (heap_Swap hs i j)"
  by (simp add: sifted_def heap_Swap_facts)

lemma sifted_heap_up:
  "\<lbrakk> j < n; n \<le> length (fst hs) \<rbrakk> \<Longrightarrow> sifted n hs (heap_up hs j)"
proof (induction hs j rule: heap_up.induct)
  case (1 hs j)
  let ?i = "parent j"
  show ?case
  proof (cases "?i = j \<or> \<not> heap_Less hs j ?i")
    case True
    then show ?thesis by (simp add: heap_up_stop sifted_refl)
  next
    case False
    have i: "?i < n" using 1(2) by (simp add: less_mult_imp_div_less)
    have "sifted n (heap_Swap hs ?i j) (heap_up (heap_Swap hs ?i j) ?i)"
      by (rule 1(1)) (use False i 1(3) in auto)
    with False i 1(2,3) show ?thesis
      by (auto simp: heap_up_go intro: sifted_trans sifted_heap_Swap)
  qed
qed

lemma sifted_heap_down:
  "n \<le> length (fst hs) \<Longrightarrow> sifted n hs (fst (heap_down hs i n)) \<and> i \<le> snd (heap_down hs i n)"
proof (induction hs i n rule: heap_down.induct)
  case (1 hs i n)
  let ?j = "heap_child hs i n"
  show ?case
  proof (cases "n \<le> 2 * i + 1 \<or> \<not> heap_Less hs ?j i")
    case True
    then show ?thesis by (simp add: heap_down_stop sifted_refl)
  next
    case False
    have j: "?j < n" "i < ?j" using heap_child_bounds [of i n hs] False by auto
    have "sifted n (heap_Swap hs i ?j) (fst (heap_down (heap_Swap hs i ?j) ?j n)) \<and>
        ?j \<le> snd (heap_down (heap_Swap hs i ?j) ?j n)"
      by (rule 1(1)) (use False 1(2) in auto)
    moreover have "sifted n hs (heap_Swap hs i ?j)"
      by (rule sifted_heap_Swap) (use j 1(2) in auto)
    ultimately show ?thesis
      using False j by (auto simp: heap_down_go intro: sifted_trans)
  qed
qed

subsection \<open>Restoring the order\<close>

text \<open>\<open>ordered_but P\<close>: parent and child are in order at every slot except those in \<open>P\<close>;
  \<open>grand i\<close>: the children of \<open>i\<close> are no smaller than its parent.\<close>

definition ordered_but :: "(nat \<Rightarrow> bool) \<Rightarrow> nat \<Rightarrow> pheap \<Rightarrow> bool" where
  "ordered_but P n hs \<longleftrightarrow>
     (\<forall>m. 0 < m \<longrightarrow> m < n \<longrightarrow> \<not> P m \<longrightarrow> key (snd hs) (fst hs ! parent m) \<le> key (snd hs) (fst hs ! m))"

definition grand :: "nat \<Rightarrow> nat \<Rightarrow> pheap \<Rightarrow> bool" where
  "grand i n hs \<longleftrightarrow>
     (\<forall>m. 0 < m \<longrightarrow> m < n \<longrightarrow> parent m = i \<longrightarrow> 0 < i \<longrightarrow>
        key (snd hs) (fst hs ! parent i) \<le> key (snd hs) (fst hs ! m))"

lemma heap_Less_key: "heap_Less hs i j \<longleftrightarrow> key (snd hs) (fst hs ! i) < key (snd hs) (fst hs ! j)"
  by (cases hs) (simp add: heap_Less_def)

text \<open>One step of \<open>heap_up\<close>: swapping with the parent moves the disorder to the parent's
  slot.\<close>

lemma heap_up_step:
  assumes j: "j < n" "n \<le> length (fst hs)" and i: "parent j = i" "i < j"
    and less: "heap_Less hs j i" and obut: "ordered_but (\<lambda>m. m = j) n hs" and grnd: "grand j n hs"
  shows "ordered_but (\<lambda>m. m = i) n (heap_Swap hs i j) \<and> grand i n (heap_Swap hs i j)"
proof -
  let ?k = "key (snd hs)" and ?h = "fst hs" and ?hs = "heap_Swap hs i j"
  have lt: "?k (?h ! j) < ?k (?h ! i)" using less by (simp add: heap_Less_key)
  have ord: "?k (?h ! parent m) \<le> ?k (?h ! m)" if "0 < m" "m < n" "m \<noteq> j" for m
    using obut that by (simp add: ordered_but_def)
  have gr: "?k (?h ! i) \<le> ?k (?h ! m)" if "0 < m" "m < n" "parent m = j" for m
    using grnd that i by (simp add: grand_def)
  have nth: "fst ?hs ! m = (if m = j then ?h ! i else if m = i then ?h ! j else ?h ! m)"
    if "m < n" for m using nth_heap_Swap [of i hs j m] j i that by simp
  have "ordered_but (\<lambda>m. m = i) n ?hs"
    unfolding ordered_but_def
  proof (intro allI impI)
    fix m assume m: "0 < m" "m < n" "m \<noteq> i"
    define p where "p = parent m"
    have p: "p < m" "p < n" using parent_less [OF m(1)] m(2) by (simp_all add: p_def)
    have "m \<noteq> j \<Longrightarrow> ?k (?h ! p) \<le> ?k (?h ! m)" "p = j \<Longrightarrow> ?k (?h ! i) \<le> ?k (?h ! m)"
      "m = j \<Longrightarrow> p = i" using ord gr m i by (simp_all add: p_def)
    then have "?k (fst ?hs ! p) \<le> ?k (fst ?hs ! m)" using lt m p i by (auto simp: nth)
    then show "key (snd ?hs) (fst ?hs ! parent m) \<le> key (snd ?hs) (fst ?hs ! m)" by (simp add: p_def)
  qed
  moreover have "grand i n ?hs"
    unfolding grand_def
  proof (intro allI impI)
    fix m assume m: "0 < m" "m < n" "parent m = i" "0 < i"
    define p where "p = parent i"
    have p: "p < i" "i < m" using parent_less [OF m(4)] parent_less [OF m(1)] m(3) by (simp_all add: p_def)
    have "?k (?h ! p) \<le> ?k (?h ! i)" using ord [of i] m i p by (simp add: p_def)
    moreover have "?k (?h ! i) \<le> ?k (?h ! m)" if "m \<noteq> j" using ord [of m] m that by simp
    ultimately have "?k (fst ?hs ! p) \<le> ?k (fst ?hs ! m)" using m p i by (auto simp: nth)
    then show "key (snd ?hs) (fst ?hs ! parent i) \<le> key (snd ?hs) (fst ?hs ! m)" by (simp add: p_def)
  qed
  ultimately show ?thesis by blast
qed

lemma heap_up_orders:
  "\<lbrakk> j < n; n \<le> length (fst hs); ordered_but (\<lambda>m. m = j) n hs; grand j n hs \<rbrakk> \<Longrightarrow>
     heap_ordered n (heap_up hs j)"
proof (induction hs j rule: heap_up.induct)
  case (1 hs j)
  show ?case
  proof (cases "parent j = j \<or> \<not> heap_Less hs j (parent j)")
    case True
    have "key (snd hs) (fst hs ! parent m) \<le> key (snd hs) (fst hs ! m)" if "0 < m" "m < n" for m
      using True 1(4) that by (cases "m = j") (auto simp: heap_Less_key ordered_but_def)
    with True show ?thesis by (simp add: heap_up_stop heap_ordered_def)
  next
    case False
    then have "parent j < j" by (intro parent_less) auto
    then have "ordered_but (\<lambda>m. m = parent j) n (heap_Swap hs (parent j) j)"
      "grand (parent j) n (heap_Swap hs (parent j) j)"
      using heap_up_step [OF 1(2,3) refl _ _ 1(4,5)] False by blast+
    with False 1(2,3) \<open>parent j < j\<close> have "heap_ordered n (heap_up (heap_Swap hs (parent j) j) (parent j))"
      by (intro 1(1)) simp_all
    with False show ?thesis by (simp add: heap_up_go)
  qed
qed

lemma heap_child_least:
  "\<lbrakk> 0 < m; m < n; parent m = i \<rbrakk> \<Longrightarrow>
     key (snd hs) (fst hs ! heap_child hs i n) \<le> key (snd hs) (fst hs ! m)"
proof -
  assume m: "0 < m" "m < n" "parent m = i"
  then have "m = 2 * i + 1 \<or> m = 2 * i + 2" by presburger
  then show ?thesis using m(2) by (auto simp: heap_child_def Let_def heap_Less_key)
qed

text \<open>One step of \<open>heap_down\<close>: swapping with the smaller child moves the disorder to that
  child's slot.\<close>

lemma heap_down_step:
  assumes len: "n \<le> length (fst hs)" and i: "2 * i + 1 < n"
    and less: "heap_Less hs (heap_child hs i n) i"
    and ob: "ordered_but (\<lambda>m. m = i \<or> parent m = i) n hs" and gr: "grand i n hs"
  shows "ordered_but (\<lambda>m. parent m = heap_child hs i n) n (heap_Swap hs i (heap_child hs i n)) \<and>
     grand (heap_child hs i n) n (heap_Swap hs i (heap_child hs i n))"
proof -
  define j where "j = heap_child hs i n"
  let ?k = "key (snd hs)" and ?h = "fst hs" and ?hs = "heap_Swap hs i j"
  have j: "i < j" "j < n" "parent j = i" using heap_child_bounds [OF i, of hs] by (simp_all add: j_def)
  have lt: "?k (?h ! j) < ?k (?h ! i)" using less by (simp add: heap_Less_key j_def)
  have least: "?k (?h ! j) \<le> ?k (?h ! m)" if "0 < m" "m < n" "parent m = i" for m
    using heap_child_least [OF that] by (simp add: j_def)
  have nth: "fst ?hs ! m = (if m = j then ?h ! i else if m = i then ?h ! j else ?h ! m)"
    if "m < n" for m using nth_heap_Swap [of i hs j m] j len that by simp
  have ok: "?k (?h ! parent m) \<le> ?k (?h ! m)" if "0 < m" "m < n" "m \<noteq> i" "parent m \<noteq> i" for m
    using ob that by (simp add: ordered_but_def)
  have up: "?k (?h ! parent i) \<le> ?k (?h ! j)" if "0 < i"
    using gr j that by (auto simp: grand_def)
  have "ordered_but (\<lambda>m. parent m = j) n ?hs"
    unfolding ordered_but_def
  proof (intro allI impI)
    fix m assume m: "0 < m" "m < n" "parent m \<noteq> j"
    then have p: "parent m < n" "parent m \<noteq> m" by auto
    consider "m = j" | "m = i" "m \<noteq> j" | "m \<noteq> i" "m \<noteq> j" by blast
    then show "key (snd ?hs) (fst ?hs ! parent m) \<le> key (snd ?hs) (fst ?hs ! m)"
    proof cases
      case 1 then show ?thesis using j lt m p by (simp add: nth)
    next
      case 2
      with up m p j show ?thesis by (simp add: nth)
    next
      case 3
      then show ?thesis using least [of m] ok [of m] m p by (cases "parent m = i") (simp_all add: nth)
    qed
  qed
  moreover have "grand j n ?hs"
    unfolding grand_def
  proof (intro allI impI)
    fix m assume m: "0 < m" "m < n" "parent m = j" "0 < j"
    then have "m \<noteq> i" "m \<noteq> j" "parent m \<noteq> i" using j by auto
    with ok [of m] m j show "key (snd ?hs) (fst ?hs ! parent j) \<le> key (snd ?hs) (fst ?hs ! m)"
      by (simp add: nth)
  qed
  ultimately show ?thesis by (simp add: j_def)
qed

lemma ordered_but_weaken: "\<lbrakk> ordered_but P n hs; \<And>m. P m \<Longrightarrow> Q m \<rbrakk> \<Longrightarrow> ordered_but Q n hs"
  by (auto simp: ordered_but_def)

lemma heap_down_settles:
  "\<lbrakk> n \<le> length (fst hs); ordered_but (\<lambda>m. parent m = i) n hs; grand i n hs \<rbrakk> \<Longrightarrow>
     heap_ordered n (fst (heap_down hs i n))"
proof (induction hs i n rule: heap_down.induct)
  case (1 hs i n)
  let ?j = "heap_child hs i n"
  show ?case
  proof (cases "n \<le> 2 * i + 1 \<or> \<not> heap_Less hs ?j i")
    case True
    have "key (snd hs) (fst hs ! parent m) \<le> key (snd hs) (fst hs ! m)" if m: "0 < m" "m < n" for m
    proof (cases "parent m = i")
      case False
      then show ?thesis using 1(3) m by (simp add: ordered_but_def)
    next
      case pm: True
      then have "\<not> n \<le> 2 * i + 1" using m by auto
      with True have "key (snd hs) (fst hs ! i) \<le> key (snd hs) (fst hs ! ?j)"
        by (simp add: heap_Less_key)
      also have "\<dots> \<le> key (snd hs) (fst hs ! m)" by (rule heap_child_least [OF m pm])
      finally show ?thesis using pm by simp
    qed
    with True show ?thesis by (simp add: heap_down_stop heap_ordered_def)
  next
    case False
    have "ordered_but (\<lambda>m. m = i \<or> parent m = i) n hs"
      by (rule ordered_but_weaken [OF 1(3)]) simp
    then have "ordered_but (\<lambda>m. parent m = ?j) n (heap_Swap hs i ?j)" "grand ?j n (heap_Swap hs i ?j)"
      using heap_down_step [OF 1(2), of i] False 1(4) by auto
    with False 1(2) have "heap_ordered n (fst (heap_down (heap_Swap hs i ?j) ?j n))"
      by (intro 1(1)) auto
    with False show ?thesis by (simp add: heap_down_go)
  qed
qed

text \<open>From a slot that may also be out of order with its parent: either the loop moves the
  entry and all is in order, or it stops at once and only the parent side is left.\<close>

lemma heap_down_first:
  assumes len: "n \<le> length (fst hs)"
    and ob: "ordered_but (\<lambda>m. m = i \<or> parent m = i) n hs" and gr: "grand i n hs"
  shows "if i < snd (heap_down hs i n) then heap_ordered n (fst (heap_down hs i n))
         else fst (heap_down hs i n) = hs \<and> ordered_but (\<lambda>m. m = i) n hs"
proof (cases "n \<le> 2 * i + 1 \<or> \<not> heap_Less hs (heap_child hs i n) i")
  case True
  have "ordered_but (\<lambda>m. m = i) n hs"
    unfolding ordered_but_def
  proof (intro allI impI)
    fix m assume m: "0 < m" "m < n" "m \<noteq> i"
    show "key (snd hs) (fst hs ! parent m) \<le> key (snd hs) (fst hs ! m)"
    proof (cases "parent m = i")
      case False then show ?thesis using ob m by (simp add: ordered_but_def)
    next
      case pm: True
      then have "\<not> n \<le> 2 * i + 1" using m by auto
      with True pm heap_child_least [OF m(1,2) pm, of hs] show ?thesis by (simp add: heap_Less_key)
    qed
  qed
  with True show ?thesis by (simp add: heap_down_stop)
next
  case False
  let ?j = "heap_child hs i n"
  have j: "i < ?j" using heap_child_bounds [of i n hs] False by auto
  have "ordered_but (\<lambda>m. parent m = ?j) n (heap_Swap hs i ?j)" "grand ?j n (heap_Swap hs i ?j)"
    using heap_down_step [OF len, of i] False ob gr by auto
  then have "heap_ordered n (fst (heap_down (heap_Swap hs i ?j) ?j n))"
    using len by (intro heap_down_settles) simp_all
  moreover have "?j \<le> snd (heap_down (heap_Swap hs i ?j) ?j n)"
    using sifted_heap_down [of n "heap_Swap hs i ?j" ?j] len by simp
  ultimately show ?thesis using False j by (simp add: heap_down_go)
qed

subsection \<open>Correctness of Push, Pop and Remove\<close>

lemma heap_ordered_sameprefix:
  "\<lbrakk> heap_ordered n (h, st); \<And>m. m < n \<Longrightarrow> h' ! m = h ! m; \<And>r. key st' r = key st r \<rbrakk> \<Longrightarrow>
     heap_ordered n (h', st')"
  by (auto simp: heap_ordered_def)

lemma heap_inv_pop_method:
  assumes "heap_ordered (length (fst hs) - 1) hs" "idx_ok hs"
  shows "heap_inv (heap_pop_method hs)"
proof -
  obtain h st where hs: "hs = (h, st)" by fastforce
  have "heap_ordered (length h - 1) (butlast h, st)"
    by (rule heap_ordered_sameprefix [of _ h st]) (use assms(1) hs in \<open>simp_all add: nth_butlast\<close>)
  moreover have "idx_ok (butlast h, st)"
    using assms(2) unfolding hs idx_ok_def by (simp add: nth_butlast distinct_butlast)
  ultimately show ?thesis by (simp add: heap_inv_def heap_pop_method_def hs)
qed

lemma ordered_but_Swap_last:
  assumes inv: "heap_ordered (Suc n) hs" and len: "length (fst hs) = Suc n" and i: "i < n"
  shows "ordered_but (\<lambda>m. m = i \<or> parent m = i) n (heap_Swap hs i n) \<and> grand i n (heap_Swap hs i n)"
proof -
  note ord = inv [unfolded heap_ordered_def, rule_format]
  have nth: "fst (heap_Swap hs i n) ! m = (if m = i then fst hs ! n else fst hs ! m)" if "m < n" for m
    using nth_heap_Swap [of i hs n m] len i that by auto
  have "ordered_but (\<lambda>m. m = i \<or> parent m = i) n (heap_Swap hs i n)"
    unfolding ordered_but_def
  proof (intro allI impI)
    fix m assume m: "0 < m" "m < n" "\<not> (m = i \<or> parent m = i)"
    then show "key (snd (heap_Swap hs i n)) (fst (heap_Swap hs i n) ! parent m)
        \<le> key (snd (heap_Swap hs i n)) (fst (heap_Swap hs i n) ! m)"
      using ord [of m] parent_less [of m] by (simp add: nth)
  qed
  moreover have "grand i n (heap_Swap hs i n)"
    unfolding grand_def
  proof (intro allI impI)
    fix m assume m: "0 < m" "m < n" "parent m = i" "0 < i"
    have "parent i < i" "i < m" using parent_less [OF m(4)] parent_less [OF m(1)] m(3) by simp_all
    with ord [of i] ord [of m] m i show "key (snd (heap_Swap hs i n)) (fst (heap_Swap hs i n) ! parent i)
        \<le> key (snd (heap_Swap hs i n)) (fst (heap_Swap hs i n) ! m)"
      by (simp add: nth)
  qed
  ultimately show ?thesis by blast
qed

lemma heap_Push_inv:
  assumes inv: "heap_inv hs" and fresh: "r \<notin> set (fst hs)"
  shows "heap_inv (heap_Push hs r) \<and> set (fst (heap_Push hs r)) = insert r (set (fst hs)) \<and>
     same_entries (insert r (set (fst hs))) (snd hs) (snd (heap_Push hs r))"
proof -
  obtain h st where hs: "hs = (h, st)" by fastforce
  let ?n = "length h" and ?hs = "(h @ [r], set_idx r (length h) st)"
  have k: "key (set_idx r ?n st) q = key st q" for q by (simp add: set_idx_def)
  have idx: "idx_ok ?hs"
    using inv fresh hs
    by (auto simp: heap_inv_def idx_ok_def set_idx_def nth_append less_Suc_eq)
  have ob: "ordered_but (\<lambda>m. m = ?n) (Suc ?n) ?hs"
    using inv hs by (auto simp: heap_inv_def heap_ordered_def ordered_but_def k nth_append less_Suc_eq)
  have gr: "grand ?n (Suc ?n) ?hs" by (auto simp: grand_def)
  have push: "heap_Push hs r = heap_up ?hs ?n"
    by (simp add: heap_Push_def heap_push_method_def hs)
  have sift: "sifted (Suc ?n) ?hs (heap_up ?hs ?n)"
    by (rule sifted_heap_up) simp_all
  have "heap_ordered (Suc ?n) (heap_up ?hs ?n)"
    by (rule heap_up_orders) (simp_all add: ob gr)
  then have "heap_inv (heap_Push hs r)"
    using sift sifted_length [OF sift] idx by (simp add: heap_inv_def push sifted_def)
  moreover have "set (fst (heap_Push hs r)) = insert r (set h)"
    using sifted_set [OF sift] by (simp add: push)
  moreover have "same_entries (insert r (set h)) st (snd (heap_Push hs r))"
    using sift same_entries_set_idx [of r "insert r (set h)" st ?n]
    by (auto simp: push sifted_def intro: same_entries_trans)
  ultimately show ?thesis by (simp add: hs)
qed

lemma heap_top_least: "\<lbrakk> heap_ordered n hs; m < n \<rbrakk> \<Longrightarrow> key (snd hs) (fst hs ! 0) \<le> key (snd hs) (fst hs ! m)"
proof (induction m rule: less_induct)
  case (less m)
  show ?case
  proof (cases "m = 0")
    case False
    then have "parent m < m" by auto
    with less have "key (snd hs) (fst hs ! 0) \<le> key (snd hs) (fst hs ! parent m)" by auto
    also have "\<dots> \<le> key (snd hs) (fst hs ! m)"
      using less(2,3) False by (auto simp: heap_ordered_def)
    finally show ?thesis .
  qed simp
qed

text \<open>Removing slot \<open>i\<close> (also \<open>Pop\<close>, with \<open>i = 0\<close>): the entry swapped to the last slot is
  cut off, the rest is a heap again.\<close>

lemma butlast_minus_last: "\<lbrakk> distinct xs; xs = ys @ [x] \<rbrakk> \<Longrightarrow> set ys = set xs - {x}"
  by auto

lemma cut_last:
  assumes sift: "sifted n (heap_Swap hs i n) hs'" and len: "length (fst hs) = Suc n" and i: "i \<le> n"
    and idx: "idx_ok hs" and ord: "heap_ordered n hs'"
  shows "heap_inv (heap_pop_method hs') \<and>
     set (fst (heap_pop_method hs')) = set (fst hs) - {fst hs ! i} \<and>
     same_entries (set (fst hs)) (snd hs) (snd (heap_pop_method hs'))"
proof -
  have swap: "mset (fst (heap_Swap hs i n)) = mset (fst hs)" "idx_ok (heap_Swap hs i n)"
    "same_entries (set (fst hs)) (snd hs) (snd (heap_Swap hs i n))"
    using len i idx by (auto intro: heap_Swap_facts)
  have len': "length (fst hs') = Suc n" using sifted_length [OF sift] len by simp
  have idx': "idx_ok hs'" using sift swap by (simp add: sifted_def)
  have last: "fst hs' ! n = fst hs ! i"
    using sift len i nth_heap_Swap [of i hs n n] by (simp add: sifted_def)
  have ne: "fst hs' \<noteq> []" using len' by auto
  have "last (fst hs') = fst hs ! i" using last len' ne by (simp add: last_conv_nth)
  then have split: "fst hs' = butlast (fst hs') @ [fst hs ! i]" using ne by (metis append_butlast_last_id)
  have "set (fst hs') = set (fst hs)"
    using sifted_set [OF sift] mset_eq_setD [OF swap(1)] by simp
  moreover have "distinct (fst hs')" using idx' by (simp add: idx_ok_def)
  ultimately have "set (butlast (fst hs')) = set (fst hs) - {fst hs ! i}"
    using butlast_minus_last [OF _ split] by simp
  moreover have "same_entries (set (fst hs)) (snd hs) (snd hs')"
    using sift swap(3) mset_eq_setD [OF swap(1)] by (auto simp: sifted_def intro: same_entries_trans)
  moreover have "heap_inv (heap_pop_method hs')"
    using ord idx' len' by (intro heap_inv_pop_method) simp_all
  ultimately show ?thesis by (cases hs') (simp add: heap_pop_method_def)
qed

lemma heap_Pop_inv:
  assumes inv: "heap_inv hs" and ne: "fst hs \<noteq> []"
  shows "heap_inv (heap_Pop hs) \<and> set (fst (heap_Pop hs)) = set (fst hs) - {fst hs ! 0} \<and>
     same_entries (set (fst hs)) (snd hs) (snd (heap_Pop hs))"
proof -
  obtain n where len: "length (fst hs) = Suc n" using ne by (cases "fst hs") auto
  let ?s = "heap_Swap hs 0 n" and ?d = "fst (heap_down (heap_Swap hs 0 n) 0 n)"
  have ord: "heap_ordered (Suc n) hs" and idx: "idx_ok hs" using inv len by (simp_all add: heap_inv_def)
  have sift: "sifted n ?s ?d" using sifted_heap_down [of n ?s 0] len by simp
  have "heap_ordered n ?d"
  proof (cases "n = 0")
    case True then show ?thesis by (simp add: heap_ordered_def)
  next
    case False
    have "ordered_but (\<lambda>m. parent m = 0) n ?s" "grand 0 n ?s"
      using ordered_but_Swap_last [OF ord len, of 0] False by (auto simp: ordered_but_def)
    then show ?thesis using len by (intro heap_down_settles) simp_all
  qed
  from cut_last [OF sift len _ idx this] show ?thesis by (simp add: heap_Pop_def len)
qed

lemma heap_Remove_inv:
  assumes inv: "heap_inv hs" and i: "i < length (fst hs)"
  shows "heap_inv (heap_Remove hs i) \<and> set (fst (heap_Remove hs i)) = set (fst hs) - {fst hs ! i} \<and>
     same_entries (set (fst hs)) (snd hs) (snd (heap_Remove hs i))"
proof -
  obtain n where len: "length (fst hs) = Suc n" using i by (cases "length (fst hs)") auto
  have ord: "heap_ordered (Suc n) hs" and idx: "idx_ok hs" using inv len by (simp_all add: heap_inv_def)
  show ?thesis
  proof (cases "i = n")
    case True
    have "distinct (fst hs)" using idx by (simp add: idx_ok_def)
    moreover have "fst hs = butlast (fst hs) @ [fst hs ! n]"
      using len by (metis append_butlast_last_id last_conv_nth diff_Suc_1 list.size(3) nat.distinct(1))
    ultimately have "set (butlast (fst hs)) = set (fst hs) - {fst hs ! n}" by (rule butlast_minus_last)
    moreover have "heap_inv (heap_pop_method hs)"
      by (rule heap_inv_pop_method) (use ord idx len in \<open>auto simp: heap_ordered_def\<close>)
    ultimately show ?thesis
      using True len by (cases hs) (simp add: heap_Remove_def heap_pop_method_def)
  next
    case False
    then have i': "i < n" using i len by simp
    let ?s = "heap_Swap hs i n"
    obtain d k where d: "heap_down ?s i n = (d, k)" by fastforce
    have sd: "sifted n ?s d" using sifted_heap_down [of n ?s i] len d by simp
    have ob: "ordered_but (\<lambda>m. m = i \<or> parent m = i) n ?s" and gr: "grand i n ?s"
      using ordered_but_Swap_last [OF ord len i'] by auto
    note first = heap_down_first [OF _ ob gr, unfolded d, simplified]
    let ?r = "if \<not> i < k then heap_up d i else d"
    have "sifted n d (heap_up d i)"
      using i' sifted_length [OF sd] len by (intro sifted_heap_up) simp_all
    then have sr: "sifted n ?s ?r" using sd by (auto intro: sifted_trans)
    have "heap_ordered n ?r"
    proof (cases "i < k")
      case True then show ?thesis using first len by simp
    next
      case False
      then have "d = ?s" "ordered_but (\<lambda>m. m = i) n ?s" using first len by simp_all
      with gr i' len have "heap_ordered n (heap_up d i)" by (intro heap_up_orders) simp_all
      with False show ?thesis by simp
    qed
    from cut_last [OF sr len _ idx this] i' show ?thesis
      by (simp add: heap_Remove_def len d False [symmetric] split: if_splits)
  qed
qed

subsection \<open>The contract of the deadline queue\<close>

locale deadline_queue =
  fixes items :: "'q \<Rightarrow> 'r set"
    and due_at :: "'q \<Rightarrow> 'r \<Rightarrow> int"
    and inv :: "'q \<Rightarrow> bool"
    and top :: "'q \<Rightarrow> 'r"
    and pop :: "'q \<Rightarrow> 'q"
  assumes finite_items: "finite (items q)"
    and top_in: "\<lbrakk> inv q; items q \<noteq> {} \<rbrakk> \<Longrightarrow> top q \<in> items q"
    and top_least: "\<lbrakk> inv q; r \<in> items q \<rbrakk> \<Longrightarrow> due_at q (top q) \<le> due_at q r"
    and items_pop: "\<lbrakk> inv q; items q \<noteq> {} \<rbrakk> \<Longrightarrow> items (pop q) = items q - {top q}"
    and due_pop: "\<lbrakk> inv q; items q \<noteq> {} \<rbrakk> \<Longrightarrow> due_at (pop q) r = due_at q r"
    and inv_pop: "\<lbrakk> inv q; items q \<noteq> {} \<rbrakk> \<Longrightarrow> inv (pop q)"
begin

lemma none_due: "\<lbrakk> inv q; clock < due_at q (top q); r \<in> items q \<rbrakk> \<Longrightarrow> clock < due_at q r"
  using top_least by fastforce

lemma card_pop: "\<lbrakk> inv q; items q \<noteq> {} \<rbrakk> \<Longrightarrow> card (items (pop q)) < card (items q)"
  by (simp add: items_pop top_in finite_items card_gt_0_iff)

lemma due_pop_split:
  "\<lbrakk> inv q; items q \<noteq> {}; due_at q (top q) \<le> clock \<rbrakk> \<Longrightarrow>
     {r \<in> items q. due_at q r \<le> clock} =
     insert (top q) {r \<in> items (pop q). due_at (pop q) r \<le> clock}"
  by (frule (1) top_in) (auto simp: items_pop due_pop)

end

interpretation expiry: deadline_queue "\<lambda>hs. set (fst hs)" "\<lambda>hs. key (snd hs)" heap_inv
  "\<lambda>hs. fst hs ! 0" heap_Pop
proof (unfold_locales, goal_cases)
  case (3 q r)
  then show ?case by (auto simp: heap_inv_def in_set_conv_nth intro: heap_top_least)
next
  case (5 q r)
  then show ?case using heap_Pop_inv [of q] same_entries_key by (metis set_empty)
qed (use heap_Pop_inv in auto)

text \<open>The expiry heap is a priority queue: pushing, popping and removing at an index keep the
  heap order and the back indices, change the set of entries by exactly the entry concerned,
  and the entry on top has the least deadline.\<close>

theorem expiry_heap_correct:
  assumes "heap_inv hs"
  shows "(\<forall>r. r \<notin> set (fst hs) \<longrightarrow> heap_inv (heap_Push hs r) \<and> set (fst (heap_Push hs r)) = insert r (set (fst hs))) \<and>
    (fst hs \<noteq> [] \<longrightarrow> heap_inv (heap_Pop hs) \<and> set (fst (heap_Pop hs)) = set (fst hs) - {fst hs ! 0} \<and>
      (\<forall>r\<in>set (fst hs). key (snd hs) (fst hs ! 0) \<le> key (snd hs) r)) \<and>
    (\<forall>i < length (fst hs). heap_inv (heap_Remove hs i) \<and> set (fst (heap_Remove hs i)) = set (fst hs) - {fst hs ! i})"
  using heap_Push_inv [OF assms] heap_Pop_inv [OF assms] heap_Remove_inv [OF assms] expiry.top_least [OF assms]
  by blast

theorem expiry_heap_correct_witness:
  "heap_inv (heap_Push ([], \<lambda>_. \<lparr>pe_transfer = transfer0, pe_expires = 5, pe_heapIdx = 0\<rparr>) 3)"
proof -
  have "heap_inv ([], \<lambda>_. \<lparr>pe_transfer = transfer0, pe_expires = 5, pe_heapIdx = 0\<rparr>)"
    by (simp add: heap_inv_def heap_ordered_def idx_ok_def)
  from expiry_heap_correct [OF this] show ?thesis by simp
qed

end
