(* ===== verification/Ledger_Spec.thy ===== *)
theory Ledger_Spec
  imports Core_Model
begin

text \<open>
  What the ledger promises, without its data structures: a book of accounts and open
  holds, and the effect of one transfer on it. \<open>spec_step\<close> is the abstract counterpart of
  \<^verbatim>\<open>ApplyTransferState\<close> (\<^verbatim>\<open>accounts.go\<close>) and of \<^verbatim>\<open>validateAndApply\<close> (\<^verbatim>\<open>transfers.go\<close>), the
  two state machines of the engine that have to agree. The invariants of the book
  (holds are well formed and covered by the pending balances, money is conserved per
  ledger) are proved here once; the locale \<open>ledger_impl\<close> carries them to any
  implementation whose steps refine \<open>spec_step\<close>.
\<close>

record book =
  acct :: "ident \<rightharpoonup> account"
  hold :: "ident \<rightharpoonup> transfer"

subsection \<open>Changes of one account\<close>

definition upd_acct :: "ident \<Rightarrow> (account \<Rightarrow> account option) \<Rightarrow> book \<Rightarrow> book option" where
  "upd_acct i f s =
     (case acct s i of
        None \<Rightarrow> None
      | Some a \<Rightarrow> (case f a of None \<Rightarrow> None | Some a' \<Rightarrow> Some (s\<lparr>acct := (acct s)(i \<mapsto> a')\<rparr>)))"

definition debit_posted :: "uint128 \<Rightarrow> account \<Rightarrow> account option" where
  "debit_posted x a = (case Add (PostedDebits a) x of Inl _ \<Rightarrow> None | Inr n \<Rightarrow> Some (a\<lparr>PostedDebits := n\<rparr>))"

definition credit_posted :: "uint128 \<Rightarrow> account \<Rightarrow> account option" where
  "credit_posted x a = (case Add (PostedCredits a) x of Inl _ \<Rightarrow> None | Inr n \<Rightarrow> Some (a\<lparr>PostedCredits := n\<rparr>))"

definition debit_hold :: "uint128 \<Rightarrow> account \<Rightarrow> account option" where
  "debit_hold x a = (case Add (PendingDebits a) x of Inl _ \<Rightarrow> None | Inr n \<Rightarrow> Some (a\<lparr>PendingDebits := n\<rparr>))"

definition credit_hold :: "uint128 \<Rightarrow> account \<Rightarrow> account option" where
  "credit_hold x a = (case Add (PendingCredits a) x of Inl _ \<Rightarrow> None | Inr n \<Rightarrow> Some (a\<lparr>PendingCredits := n\<rparr>))"

definition debit_release :: "uint128 \<Rightarrow> account \<Rightarrow> account option" where
  "debit_release x a = (case Sub (PendingDebits a) x of Inl _ \<Rightarrow> None | Inr n \<Rightarrow> Some (a\<lparr>PendingDebits := n\<rparr>))"

definition credit_release :: "uint128 \<Rightarrow> account \<Rightarrow> account option" where
  "credit_release x a = (case Sub (PendingCredits a) x of Inl _ \<Rightarrow> None | Inr n \<Rightarrow> Some (a\<lparr>PendingCredits := n\<rparr>))"

definition debit_settle :: "uint128 \<Rightarrow> account \<Rightarrow> account option" where
  "debit_settle x a = Option.bind (debit_release x a) (debit_posted x)"

definition credit_settle :: "uint128 \<Rightarrow> account \<Rightarrow> account option" where
  "credit_settle x a = Option.bind (credit_release x a) (credit_posted x)"

definition upd_pair :: "ident \<Rightarrow> (account \<Rightarrow> account option) \<Rightarrow> ident \<Rightarrow> (account \<Rightarrow> account option) \<Rightarrow> book \<Rightarrow> book option" where
  "upd_pair d f c g s = Option.bind (upd_acct d f s) (upd_acct c g)"

subsection \<open>The step\<close>

definition flags_ok :: "transfer \<Rightarrow> bool" where
  "flags_ok t \<longleftrightarrow> \<not> hasUnknownFlags t \<and>
     \<not> (isPost t \<and> (isPending t \<or> isVoid t) \<or> isVoid t \<and> isPending t)"

definition can_move :: "account \<Rightarrow> account \<Rightarrow> transfer \<Rightarrow> bool" where
  "can_move d c t \<longleftrightarrow>
     acc_Currency d = acc_Currency c \<and> acc_Ledger d = tr_Ledger t \<and> acc_Ledger c = tr_Ledger t \<and>
     \<not> IsFrozen d \<and> \<not> IsClosed d \<and> \<not> IsFrozen c \<and> \<not> IsClosed c"

definition funds_ok :: "account \<Rightarrow> transfer \<Rightarrow> bool" where
  "funds_ok d t \<longleftrightarrow>
     (case (if isPending t then AvailableBalance d else Balance d) of
        Inl _ \<Rightarrow> False | Inr b \<Rightarrow> \<not> Cmp b (Amount t) < 0)"

definition post_amount :: "transfer \<Rightarrow> transfer \<Rightarrow> uint128" where
  "post_amount t p = (if IsZero (Amount t) then Amount p else Amount t)"

definition reduce_hold :: "transfer \<Rightarrow> uint128 \<Rightarrow> transfer" where
  "reduce_hold p x = (case Sub (Amount p) x of Inl _ \<Rightarrow> p | Inr rest \<Rightarrow> p\<lparr>Amount := rest\<rparr>)"

definition spec_post :: "book \<Rightarrow> transfer \<Rightarrow> transfer \<Rightarrow> book option" where
  "spec_post s t p =
     (let x = post_amount t p
      in if Cmp x (Amount p) > 0 then None
         else Option.bind
           (upd_pair (DebitAccountID p) (debit_settle x) (CreditAccountID p) (credit_settle x) s)
           (\<lambda>s'. Some (s'\<lparr>hold := (hold s')(tr_ID t :=
              (if Cmp (Amount p) x = 0 then None else Some (reduce_hold p x)))\<rparr>)))"

definition spec_release :: "book \<Rightarrow> transfer \<Rightarrow> book option" where
  "spec_release s p =
     upd_pair (DebitAccountID p) (debit_release (Amount p)) (CreditAccountID p) (credit_release (Amount p)) s"

definition spec_void :: "book \<Rightarrow> transfer \<Rightarrow> transfer \<Rightarrow> book option" where
  "spec_void s t p = Option.bind (spec_release s p) (\<lambda>s'. Some (s'\<lparr>hold := (hold s')(tr_ID t := None)\<rparr>))"

definition spec_new :: "book \<Rightarrow> transfer \<Rightarrow> book option" where
  "spec_new s t =
     (case (acct s (DebitAccountID t), acct s (CreditAccountID t)) of
        (Some d, Some c) \<Rightarrow>
          if IsZero (Amount t) \<or> DebitAccountID t = CreditAccountID t \<or>
             \<not> can_move d c t \<or> \<not> funds_ok d t then None
          else if isPending t
          then Option.bind
            (upd_pair (DebitAccountID t) (debit_hold (Amount t)) (CreditAccountID t) (credit_hold (Amount t)) s)
            (\<lambda>s'. Some (s'\<lparr>hold := (hold s')(tr_ID t \<mapsto> t)\<rparr>))
          else upd_pair (DebitAccountID t) (debit_posted (Amount t)) (CreditAccountID t) (credit_posted (Amount t)) s
      | _ \<Rightarrow> None)"

definition spec_step :: "book \<Rightarrow> transfer \<Rightarrow> book option" where
  "spec_step s t =
     (if \<not> flags_ok t then None
      else if isPost t \<or> isVoid t
      then
        (case hold s (tr_ID t) of
           None \<Rightarrow> None
         | Some p \<Rightarrow>
             if tr_Ledger t \<noteq> 0 \<and> tr_Ledger t \<noteq> tr_Ledger p then None
             else if isPost t then spec_post s t p else spec_void s t p)
      else spec_new s t)"

fun spec_run :: "book \<Rightarrow> transfer list \<Rightarrow> book option" where
  "spec_run s [] = Some s"
| "spec_run s (t # ts) = Option.bind (spec_step s t) (\<lambda>s'. spec_run s' ts)"

lemma spec_run_append: "spec_run s (ts @ us) = Option.bind (spec_run s ts) (\<lambda>s'. spec_run s' us)"
  by (induction ts arbitrary: s) (auto split: bind_splits)

subsection \<open>Numeric effect of account changes\<close>

lemma grow_Some_iff:
  "debit_posted x a = Some b \<longleftrightarrow> (\<exists>n. val n = val (PostedDebits a) + val x \<and> b = a\<lparr>PostedDebits := n\<rparr>)"
  "credit_posted x a = Some b \<longleftrightarrow> (\<exists>n. val n = val (PostedCredits a) + val x \<and> b = a\<lparr>PostedCredits := n\<rparr>)"
  "debit_hold x a = Some b \<longleftrightarrow> (\<exists>n. val n = val (PendingDebits a) + val x \<and> b = a\<lparr>PendingDebits := n\<rparr>)"
  "credit_hold x a = Some b \<longleftrightarrow> (\<exists>n. val n = val (PendingCredits a) + val x \<and> b = a\<lparr>PendingCredits := n\<rparr>)"
  unfolding debit_posted_def credit_posted_def debit_hold_def credit_hold_def Add_Inr_iff [symmetric]
  by (auto split: sum.splits)

lemma release_Some_iff:
  "debit_release x a = Some b \<longleftrightarrow> (\<exists>n. val (PendingDebits a) = val x + val n \<and> b = a\<lparr>PendingDebits := n\<rparr>)"
  "credit_release x a = Some b \<longleftrightarrow> (\<exists>n. val (PendingCredits a) = val x + val n \<and> b = a\<lparr>PendingCredits := n\<rparr>)"
  unfolding debit_release_def credit_release_def Sub_Inr_iff [symmetric]
  by (auto split: sum.splits)

lemmas posted_Some_iff = grow_Some_iff release_Some_iff

lemma settle_Some_iff:
  "debit_settle x a = Some b \<longleftrightarrow>
     (\<exists>n q. val (PendingDebits a) = val x + val n \<and> val q = val (PostedDebits a) + val x \<and>
        b = a\<lparr>PendingDebits := n, PostedDebits := q\<rparr>)"
  "credit_settle x a = Some b \<longleftrightarrow>
     (\<exists>n q. val (PendingCredits a) = val x + val n \<and> val q = val (PostedCredits a) + val x \<and>
        b = a\<lparr>PendingCredits := n, PostedCredits := q\<rparr>)"
  unfolding debit_settle_def credit_settle_def bind_eq_Some_conv posted_Some_iff by auto

lemma upd_acct_Some_iff:
  "upd_acct i f s = Some s' \<longleftrightarrow>
     (\<exists>a a'. acct s i = Some a \<and> f a = Some a' \<and> s' = s\<lparr>acct := (acct s)(i \<mapsto> a')\<rparr>)"
  by (auto simp: upd_acct_def split: option.splits)

lemma upd_pair_Some_iff:
  "d \<noteq> c \<Longrightarrow> upd_pair d f c g s = Some s' \<longleftrightarrow>
     (\<exists>a a' b b'. acct s d = Some a \<and> f a = Some a' \<and> acct s c = Some b \<and> g b = Some b' \<and>
        s' = s\<lparr>acct := (acct s)(d \<mapsto> a', c \<mapsto> b')\<rparr>)"
  by (auto simp: upd_pair_def bind_eq_Some_conv upd_acct_Some_iff)

subsection \<open>Case analysis of a step\<close>

text \<open>\<open>holds_ok\<close>: an open hold is stored under its own identifier and joins two
  different existing accounts of its ledger.\<close>

definition hold_ok :: "book \<Rightarrow> ident \<Rightarrow> transfer \<Rightarrow> bool" where
  "hold_ok s h p \<longleftrightarrow> tr_ID p = h \<and> DebitAccountID p \<noteq> CreditAccountID p \<and>
     (\<exists>a. acct s (DebitAccountID p) = Some a \<and> acc_Ledger a = tr_Ledger p) \<and>
     (\<exists>b. acct s (CreditAccountID p) = Some b \<and> acc_Ledger b = tr_Ledger p)"

definition holds_ok :: "book \<Rightarrow> bool" where
  "holds_ok s \<longleftrightarrow> (\<forall>h p. hold s h = Some p \<longrightarrow> hold_ok s h p)"

text \<open>\<open>moved s d f a a' c g b b' s'\<close>: \<open>f\<close> turned account \<open>d\<close> from \<open>a\<close> into \<open>a'\<close>, \<open>g\<close> account \<open>c\<close>
  from \<open>b\<close> into \<open>b'\<close>, and no other account changed.\<close>

definition moved :: "book \<Rightarrow> ident \<Rightarrow> (account \<Rightarrow> account option) \<Rightarrow> ident \<Rightarrow> (account \<Rightarrow> account option) \<Rightarrow>
    account \<Rightarrow> account \<Rightarrow> account \<Rightarrow> account \<Rightarrow> book \<Rightarrow> bool" where
  "moved s d f c g a a' b b' s' \<longleftrightarrow> d \<noteq> c \<and> acct s d = Some a \<and> f a = Some a' \<and>
     acct s c = Some b \<and> g b = Some b' \<and> acc_Ledger a = acc_Ledger b \<and>
     acct s' = (acct s)(d \<mapsto> a', c \<mapsto> b')"

lemma upd_pair_moved:
  assumes "d \<noteq> c" "upd_pair d f c g s = Some s'"
  shows "hold s' = hold s \<and> (\<exists>a b. acct s d = Some a \<and> acct s c = Some b \<and>
     (acc_Ledger a = acc_Ledger b \<longrightarrow> (\<exists>a' b'. moved s d f c g a a' b b' s')))"
  using assms by (auto simp: upd_pair_Some_iff moved_def)

lemma spec_step_cases:
  assumes step: "spec_step s t = Some s'" and ok: "holds_ok s"
  obtains
    (plain) a a' b b' where "\<not> isPost t" "\<not> isVoid t" "\<not> isPending t" "\<not> IsZero (Amount t)"
      "can_move a b t" "funds_ok a t" "hold s' = hold s"
      "moved s (DebitAccountID t) (debit_posted (Amount t)) (CreditAccountID t) (credit_posted (Amount t)) a a' b b' s'"
  | (reserve) a a' b b' where "\<not> isPost t" "\<not> isVoid t" "isPending t" "\<not> IsZero (Amount t)"
      "can_move a b t" "funds_ok a t" "hold s' = (hold s)(tr_ID t \<mapsto> t)"
      "moved s (DebitAccountID t) (debit_hold (Amount t)) (CreditAccountID t) (credit_hold (Amount t)) a a' b b' s'"
  | (post) p x a a' b b' where "isPost t" "\<not> isVoid t" "\<not> isPending t" "hold s (tr_ID t) = Some p" "hold_ok s (tr_ID t) p"
      "x = post_amount t p" "val x \<le> val (Amount p)"
      "hold s' = (hold s)(tr_ID t := (if x = Amount p then None else Some (reduce_hold p x)))"
      "moved s (DebitAccountID p) (debit_settle x) (CreditAccountID p) (credit_settle x) a a' b b' s'"
  | (void) p a a' b b' where "isVoid t" "\<not> isPost t" "\<not> isPending t" "hold s (tr_ID t) = Some p" "hold_ok s (tr_ID t) p"
      "hold s' = (hold s)(tr_ID t := None)"
      "moved s (DebitAccountID p) (debit_release (Amount p)) (CreditAccountID p) (credit_release (Amount p)) a a' b b' s'"
proof (cases "isPost t \<or> isVoid t")
  case True
  from step have fl: "flags_ok t" by (auto simp: spec_step_def split: if_splits)
  from step True obtain p where p: "hold s (tr_ID t) = Some p"
    by (auto simp: spec_step_def split: if_splits option.splits)
  with ok have h: "hold_ok s (tr_ID t) p" by (auto simp: holds_ok_def)
  then have dc: "DebitAccountID p \<noteq> CreditAccountID p" by (simp add: hold_ok_def)
  show thesis
  proof (cases "isPost t")
    case True
    with step p have sp: "spec_post s t p = Some s'" by (auto simp: spec_step_def split: if_splits)
    then obtain s1 where u: "upd_pair (DebitAccountID p) (debit_settle (post_amount t p)) (CreditAccountID p) (credit_settle (post_amount t p)) s = Some s1"
      and s': "s' = s1\<lparr>hold := (hold s1)(tr_ID t := (if Cmp (Amount p) (post_amount t p) = 0 then None else Some (reduce_hold p (post_amount t p))))\<rparr>"
      and le: "val (post_amount t p) \<le> val (Amount p)"
      by (auto simp: spec_post_def Let_def bind_eq_Some_conv Cmp_greater split: if_splits)
    from upd_pair_moved [OF dc u] h obtain a a' b b' where
      "moved s (DebitAccountID p) (debit_settle (post_amount t p)) (CreditAccountID p) (credit_settle (post_amount t p)) a a' b b' s1"
      "hold s1 = hold s" by (auto simp: hold_ok_def)
    then show thesis
      by (intro post [of p "post_amount t p" a a' b b'])
         (use True fl p h s' le in \<open>auto simp: flags_ok_def Cmp_eq moved_def\<close>)
  next
    case False
    with True step p have sp: "spec_void s t p = Some s'" by (auto simp: spec_step_def split: if_splits)
    then obtain s1 where u: "upd_pair (DebitAccountID p) (debit_release (Amount p)) (CreditAccountID p) (credit_release (Amount p)) s = Some s1"
      and s': "s' = s1\<lparr>hold := (hold s1)(tr_ID t := None)\<rparr>"
      by (auto simp: spec_void_def spec_release_def bind_eq_Some_conv)
    from upd_pair_moved [OF dc u] h obtain a a' b b' where
      "moved s (DebitAccountID p) (debit_release (Amount p)) (CreditAccountID p) (credit_release (Amount p)) a a' b b' s1"
      "hold s1 = hold s" by (auto simp: hold_ok_def)
    then show thesis
      by (intro void [of p a a' b b'])
         (use True False fl p h s' in \<open>auto simp: flags_ok_def moved_def\<close>)
  qed
next
  case False
  with step have sn: "spec_new s t = Some s'" by (auto simp: spec_step_def split: if_splits)
  then obtain d c where dc: "acct s (DebitAccountID t) = Some d" "acct s (CreditAccountID t) = Some c"
    "DebitAccountID t \<noteq> CreditAccountID t" "\<not> IsZero (Amount t)" "can_move d c t" "funds_ok d t"
    by (auto simp: spec_new_def split: option.splits if_splits)
  then have led: "acc_Ledger d = acc_Ledger c" by (simp add: can_move_def)
  show thesis
  proof (cases "isPending t")
    case True
    with sn dc obtain s1 where u: "upd_pair (DebitAccountID t) (debit_hold (Amount t)) (CreditAccountID t) (credit_hold (Amount t)) s = Some s1"
      and s': "s' = s1\<lparr>hold := (hold s1)(tr_ID t \<mapsto> t)\<rparr>"
      by (auto simp: spec_new_def bind_eq_Some_conv)
    from upd_pair_moved [OF dc(3) u] led dc(1,2) obtain a' b' where
      "moved s (DebitAccountID t) (debit_hold (Amount t)) (CreditAccountID t) (credit_hold (Amount t)) d a' c b' s1"
      "hold s1 = hold s" by (auto simp: moved_def)
    then show thesis
      by (intro reserve [of d c a' b']) (use True \<open>\<not> (isPost t \<or> isVoid t)\<close> dc s' in \<open>auto simp: moved_def\<close>)
  next
    case False
    with sn dc have u: "upd_pair (DebitAccountID t) (debit_posted (Amount t)) (CreditAccountID t) (credit_posted (Amount t)) s = Some s'"
      by (auto simp: spec_new_def)
    from upd_pair_moved [OF dc(3) u] led dc(1,2) obtain a' b' where
      "moved s (DebitAccountID t) (debit_posted (Amount t)) (CreditAccountID t) (credit_posted (Amount t)) d a' c b' s'"
      "hold s' = hold s" by (auto simp: moved_def)
    then show thesis
      by (intro plain [of d c a' b']) (use False \<open>\<not> (isPost t \<or> isVoid t)\<close> dc in auto)
  qed
qed

subsection \<open>Sums over the accounts and over the holds\<close>

definition dom_sum :: "('v \<Rightarrow> int) \<Rightarrow> ('k \<rightharpoonup> 'v) \<Rightarrow> int" where
  "dom_sum f m = (\<Sum>k\<in>dom m. f (the (m k)))"

lemma dom_sum_upd:
  assumes "finite (dom m)"
  shows "dom_sum f (m(k \<mapsto> v)) = dom_sum f m - (case m k of None \<Rightarrow> 0 | Some w \<Rightarrow> f w) + f v"
proof -
  have "dom_sum f (m(k \<mapsto> v)) = f v + (\<Sum>j\<in>dom m - {k}. f (the (m j)))"
    using assms by (simp add: dom_sum_def sum.insert_remove)
  also have "(\<Sum>j\<in>dom m - {k}. f (the (m j))) = dom_sum f m - (case m k of None \<Rightarrow> 0 | Some w \<Rightarrow> f w)"
    using assms by (auto simp: dom_sum_def sum_diff1 dom_def split: option.split)
  finally show ?thesis by linarith
qed

lemma dom_sum_del:
  assumes "finite (dom m)"
  shows "dom_sum f (m(k := None)) = dom_sum f m - (case m k of None \<Rightarrow> 0 | Some w \<Rightarrow> f w)"
proof -
  have "dom_sum f (m(k := None)) = (\<Sum>j\<in>dom m - {k}. f (the (m j)))"
    by (auto simp: dom_sum_def intro: sum.cong)
  then show ?thesis
    using assms by (auto simp: dom_sum_def sum_diff1 dom_def split: option.split)
qed

text \<open>The posted and the pending total of one ledger: credits minus debits over its
  accounts.\<close>

definition posted_net :: "u32 \<Rightarrow> account \<Rightarrow> int" where
  "posted_net L a = (if acc_Ledger a = L then int (val (PostedCredits a)) - int (val (PostedDebits a)) else 0)"

definition pending_net :: "u32 \<Rightarrow> account \<Rightarrow> int" where
  "pending_net L a = (if acc_Ledger a = L then int (val (PendingCredits a)) - int (val (PendingDebits a)) else 0)"

abbreviation ledger_posted :: "u32 \<Rightarrow> book \<Rightarrow> int" where
  "ledger_posted L s \<equiv> dom_sum (posted_net L) (acct s)"

abbreviation ledger_pending :: "u32 \<Rightarrow> book \<Rightarrow> int" where
  "ledger_pending L s \<equiv> dom_sum (pending_net L) (acct s)"

text \<open>The part of an account's pending debits (credits) that open holds account for.\<close>

definition held :: "(transfer \<Rightarrow> ident) \<Rightarrow> ident \<Rightarrow> transfer \<Rightarrow> int" where
  "held side i p = (if side p = i then int (val (Amount p)) else 0)"

abbreviation reserved :: "(transfer \<Rightarrow> ident) \<Rightarrow> ident \<Rightarrow> book \<Rightarrow> int" where
  "reserved side i s \<equiv> dom_sum (held side i) (hold s)"

definition covered :: "book \<Rightarrow> bool" where
  "covered s \<longleftrightarrow> (\<forall>i a. acct s i = Some a \<longrightarrow>
     reserved DebitAccountID i s \<le> int (val (PendingDebits a)) \<and>
     reserved CreditAccountID i s \<le> int (val (PendingCredits a)))"

definition book_inv :: "book \<Rightarrow> bool" where
  "book_inv s \<longleftrightarrow> finite (dom (acct s)) \<and> finite (dom (hold s)) \<and> holds_ok s \<and> covered s"

lemma dom_sum_moved:
  assumes "moved s d f c g a a' b b' s'" "finite (dom (acct s))"
  shows "dom_sum F (acct s') = dom_sum F (acct s) - F a + F a' - F b + F b'"
  using assms by (auto simp: moved_def dom_sum_upd fun_upd_other simp del: fun_upd_apply)

lemma held_nonneg: "0 \<le> held side i p"
  by (simp add: held_def)

lemma dom_sum_nonneg: "(\<And>v. 0 \<le> f v) \<Longrightarrow> 0 \<le> dom_sum f m"
  by (simp add: dom_sum_def sum_nonneg)

lemma val_reduce_hold: "val x \<le> val (Amount p) \<Longrightarrow> val (Amount (reduce_hold p x)) + val x = val (Amount p)"
  using Sub_ok [of x "Amount p"] by (auto simp: reduce_hold_def)

lemma reduce_hold_simps [simp]:
  "tr_ID (reduce_hold p x) = tr_ID p" "DebitAccountID (reduce_hold p x) = DebitAccountID p"
  "CreditAccountID (reduce_hold p x) = CreditAccountID p" "tr_Ledger (reduce_hold p x) = tr_Ledger p"
  "Timeout (reduce_hold p x) = Timeout p" "Timestamp (reduce_hold p x) = Timestamp p"
  by (simp_all add: reduce_hold_def split: sum.splits)

lemma change_frame:
  assumes "f \<in> {debit_posted x, credit_posted x, debit_hold x, credit_hold x, debit_release x, credit_release x,
     debit_settle x, credit_settle x}" "f a = Some a'"
  shows "acc_ID a' = acc_ID a" "acc_Ledger a' = acc_Ledger a" "acc_Currency a' = acc_Currency a" "acc_Flags a' = acc_Flags a"
  using assms by (auto simp: posted_Some_iff settle_Some_iff)

subsection \<open>Preservation\<close>

lemma change_posted_net:
  "debit_posted x a = Some a' \<Longrightarrow> posted_net L a' = posted_net L a - (if acc_Ledger a = L then int (val x) else 0)"
  "credit_posted x a = Some a' \<Longrightarrow> posted_net L a' = posted_net L a + (if acc_Ledger a = L then int (val x) else 0)"
  "debit_settle x a = Some a' \<Longrightarrow> posted_net L a' = posted_net L a - (if acc_Ledger a = L then int (val x) else 0)"
  "credit_settle x a = Some a' \<Longrightarrow> posted_net L a' = posted_net L a + (if acc_Ledger a = L then int (val x) else 0)"
  "debit_hold x a = Some a' \<Longrightarrow> posted_net L a' = posted_net L a"
  "credit_hold x a = Some a' \<Longrightarrow> posted_net L a' = posted_net L a"
  "debit_release x a = Some a' \<Longrightarrow> posted_net L a' = posted_net L a"
  "credit_release x a = Some a' \<Longrightarrow> posted_net L a' = posted_net L a"
  unfolding posted_Some_iff settle_Some_iff posted_net_def by (elim exE conjE; simp)+

lemma change_pending_net:
  "debit_posted x a = Some a' \<Longrightarrow> pending_net L a' = pending_net L a"
  "credit_posted x a = Some a' \<Longrightarrow> pending_net L a' = pending_net L a"
  "debit_settle x a = Some a' \<Longrightarrow> pending_net L a' = pending_net L a + (if acc_Ledger a = L then int (val x) else 0)"
  "credit_settle x a = Some a' \<Longrightarrow> pending_net L a' = pending_net L a - (if acc_Ledger a = L then int (val x) else 0)"
  "debit_hold x a = Some a' \<Longrightarrow> pending_net L a' = pending_net L a - (if acc_Ledger a = L then int (val x) else 0)"
  "credit_hold x a = Some a' \<Longrightarrow> pending_net L a' = pending_net L a + (if acc_Ledger a = L then int (val x) else 0)"
  "debit_release x a = Some a' \<Longrightarrow> pending_net L a' = pending_net L a + (if acc_Ledger a = L then int (val x) else 0)"
  "credit_release x a = Some a' \<Longrightarrow> pending_net L a' = pending_net L a - (if acc_Ledger a = L then int (val x) else 0)"
  unfolding posted_Some_iff settle_Some_iff pending_net_def by (elim exE conjE; simp)+

lemmas change_net = change_posted_net change_pending_net

lemma moved_net:
  assumes m: "moved s d f c g a a' b b' s'" and fin: "finite (dom (acct s))"
    and fg: "(f, g) \<in> {(debit_posted x, credit_posted x), (debit_hold x, credit_hold x),
      (debit_settle x, credit_settle x), (debit_release x, credit_release x)}"
  shows "ledger_posted L s' = ledger_posted L s" "ledger_pending L s' = ledger_pending L s"
  using m fg unfolding dom_sum_moved [OF m fin] moved_def by (auto simp: change_net)

lemma spec_step_net:
  assumes "spec_step s t = Some s'" "book_inv s"
  shows "ledger_posted L s' = ledger_posted L s" "ledger_pending L s' = ledger_pending L s"
proof -
  have "holds_ok s" and fin: "finite (dom (acct s))" using assms(2) by (auto simp: book_inv_def)
  note cases = spec_step_cases [OF assms(1) this(1)]
  show "ledger_posted L s' = ledger_posted L s"
    by (rule cases; rule moved_net(1) [OF _ fin], assumption, blast)
  show "ledger_pending L s' = ledger_pending L s"
    by (rule cases; rule moved_net(2) [OF _ fin], assumption, blast)
qed

lemma moved_dom: "moved s d f c g a a' b b' s' \<Longrightarrow> dom (acct s') = dom (acct s)"
  by (auto simp: moved_def)

lemma moved_hold_ok:
  assumes m: "moved s d f c g a a' b b' s'" and p: "hold_ok s h p"
    and led: "acc_Ledger a' = acc_Ledger a" "acc_Ledger b' = acc_Ledger b"
  shows "hold_ok s' h p"
  using m p led by (auto simp: moved_def hold_ok_def)

lemma hold_ok_cong:
  "\<lbrakk> hold_ok s h p; tr_ID q = tr_ID p; DebitAccountID q = DebitAccountID p; CreditAccountID q = CreditAccountID p;
     tr_Ledger q = tr_Ledger p \<rbrakk> \<Longrightarrow> hold_ok s h q"
  by (simp add: hold_ok_def)

text \<open>The coverage argument for one step: each side's pending balance moves by at least as
  much as what the holds reserve on it.\<close>

lemma covered_moved:
  assumes cov: "covered s" and m: "moved s d f c g a a' b b' s'"
    and d: "\<And>i. reserved DebitAccountID i s' \<le> reserved DebitAccountID i s + (if i = d then y else 0)"
    and c: "\<And>i. reserved CreditAccountID i s' \<le> reserved CreditAccountID i s + (if i = c then y else 0)"
    and a: "int (val (PendingDebits a')) = int (val (PendingDebits a)) + y" "PendingCredits a' = PendingCredits a"
    and b: "int (val (PendingCredits b')) = int (val (PendingCredits b)) + y" "PendingDebits b' = PendingDebits b"
  shows "covered s'"
  unfolding covered_def
proof (intro allI impI)
  fix i e assume e: "acct s' i = Some e"
  have ca: "reserved DebitAccountID d s \<le> int (val (PendingDebits a))" "reserved CreditAccountID d s \<le> int (val (PendingCredits a))"
    "reserved DebitAccountID c s \<le> int (val (PendingDebits b))" "reserved CreditAccountID c s \<le> int (val (PendingCredits b))"
    using cov m by (auto simp: covered_def moved_def)
  consider "i = d" "e = a'" "d \<noteq> c" | "i = c" "e = b'" "d \<noteq> c" | "i \<noteq> d" "i \<noteq> c" "acct s i = Some e"
    using e m by (auto simp: moved_def split: if_splits)
  then show "reserved DebitAccountID i s' \<le> int (val (PendingDebits e)) \<and>
     reserved CreditAccountID i s' \<le> int (val (PendingCredits e))"
  proof cases
    case 1 then show ?thesis using d [of d] c [of d] ca a by simp
  next
    case 2 then show ?thesis using d [of c] c [of c] ca b by auto
  next
    case 3 then show ?thesis using d [of i] c [of i] cov by (auto simp: covered_def dest!: spec)
  qed
qed

lemma reserved_upd:
  assumes "finite (dom (hold s))" "hold s' = (hold s)(h := q)"
  shows "reserved side i s' = reserved side i s - (case hold s h of None \<Rightarrow> 0 | Some p \<Rightarrow> held side i p)
     + (case q of None \<Rightarrow> 0 | Some p \<Rightarrow> held side i p)"
  using assms by (cases q) (simp_all add: dom_sum_upd dom_sum_del)

lemma covered_spec_step:
  assumes step: "spec_step s t = Some s'" and inv: "book_inv s"
  shows "covered s'"
proof -
  have ok: "holds_ok s" and cov: "covered s" and fin: "finite (dom (hold s))"
    using inv by (auto simp: book_inv_def)
  from step ok show ?thesis
  proof (cases rule: spec_step_cases)
    case (plain a a' b b')
    then show ?thesis
      by (intro covered_moved [OF cov plain(8), of 0]) (auto simp: moved_def grow_Some_iff)
  next
    case (reserve a a' b b')
    note r = reserved_upd [OF fin reserve(7)]
    show ?thesis
      by (rule covered_moved [OF cov reserve(8), of "int (val (Amount t))"])
         (use reserve(8) held_nonneg in \<open>auto simp: r moved_def grow_Some_iff held_def split: option.split\<close>)
  next
    case (post p x a a' b b')
    note r = reserved_upd [OF fin post(8)]
    show ?thesis
      by (rule covered_moved [OF cov post(9), of "- int (val x)"])
         (use post(4,7,9) val_reduce_hold [OF post(7)] in \<open>auto simp: r moved_def settle_Some_iff held_def\<close>)
  next
    case (void p a a' b b')
    note r = reserved_upd [OF fin void(6)]
    show ?thesis
      by (rule covered_moved [OF cov void(7), of "- int (val (Amount p))"])
         (use void(4,7) in \<open>auto simp: r moved_def release_Some_iff held_def\<close>)
  qed
qed

lemma holds_ok_moved:
  assumes ok: "holds_ok s" and m: "moved s d f c g a a' b b' s'"
    and led: "acc_Ledger a' = acc_Ledger a" "acc_Ledger b' = acc_Ledger b"
    and new: "\<And>h p. hold s' h = Some p \<Longrightarrow> hold_ok s h p"
  shows "holds_ok s'"
  unfolding holds_ok_def using moved_hold_ok [OF m _ led] new by blast

lemma holds_ok_spec_step:
  assumes step: "spec_step s t = Some s'" and ok: "holds_ok s"
  shows "holds_ok s'"
  using step ok
proof (cases rule: spec_step_cases)
  case (plain a a' b b')
  then show ?thesis using ok
    by (intro holds_ok_moved [OF ok plain(8)]) (auto simp: moved_def grow_Some_iff holds_ok_def)
next
  case (reserve a a' b b')
  then show ?thesis using ok
    by (intro holds_ok_moved [OF ok reserve(8)])
       (auto simp: moved_def grow_Some_iff holds_ok_def hold_ok_def can_move_def split: if_splits)
next
  case (post p x a a' b b')
  have "hold_ok s (tr_ID t) (reduce_hold p x)" by (rule hold_ok_cong [OF post(5)]) simp_all
  with post ok show ?thesis
    by (intro holds_ok_moved [OF ok post(9)]) (auto simp: moved_def settle_Some_iff holds_ok_def split: if_splits)
next
  case (void p a a' b b')
  with ok show ?thesis
    by (intro holds_ok_moved [OF ok void(7)]) (auto simp: moved_def release_Some_iff holds_ok_def split: if_splits)
qed

lemma finite_spec_step:
  assumes "spec_step s t = Some s'" "book_inv s"
  shows "finite (dom (acct s')) \<and> finite (dom (hold s'))"
proof -
  have "holds_ok s" "finite (dom (acct s))" "finite (dom (hold s))" using assms by (auto simp: book_inv_def)
  with assms(1) show ?thesis by - (erule (1) spec_step_cases; auto dest!: moved_dom)
qed

lemma book_inv_spec_step: "\<lbrakk> spec_step s t = Some s'; book_inv s \<rbrakk> \<Longrightarrow> book_inv s'"
  using covered_spec_step holds_ok_spec_step finite_spec_step by (simp add: book_inv_def)

lemma spec_run_inv:
  "\<lbrakk> spec_run s ts = Some s'; book_inv s \<rbrakk> \<Longrightarrow>
     book_inv s' \<and> ledger_posted L s' = ledger_posted L s \<and> ledger_pending L s' = ledger_pending L s"
proof (induction ts arbitrary: s)
  case (Cons t ts)
  then obtain s1 where "spec_step s t = Some s1" "spec_run s1 ts = Some s'"
    by (auto simp: bind_eq_Some_conv)
  with Cons show ?case using spec_step_net book_inv_spec_step by metis
qed simp

subsection \<open>Solvency and settlement of open holds\<close>

definition solvent :: "book \<Rightarrow> bool" where
  "solvent s \<longleftrightarrow> (\<forall>i a. acct s i = Some a \<longrightarrow> val (PostedDebits a) \<le> val (PostedCredits a))"

lemma funds_ok_plain: "\<not> isPending t \<Longrightarrow> funds_ok d t \<longleftrightarrow> val (PostedDebits d) + val (Amount t) \<le> val (PostedCredits d)"
proof -
  assume np: "\<not> isPending t"
  show ?thesis
  proof (cases "Balance d")
    case (Inl e)
    then have "\<not> val (PostedDebits d) \<le> val (PostedCredits d)"
      using Sub_ok [of "PostedDebits d" "PostedCredits d"] by (auto simp: Balance_def split: sum.splits)
    with Inl np show ?thesis by (simp add: funds_ok_def)
  next
    case (Inr b)
    then have "val (PostedCredits d) = val (PostedDebits d) + val b" by (simp only: Balance_Inr_iff)
    moreover have "funds_ok d t \<longleftrightarrow> \<not> val b < val (Amount t)" using Inr np by (simp add: funds_ok_def Cmp_less)
    ultimately show ?thesis by auto
  qed
qed

text \<open>Only the settlement of a hold can push an account's posted debits above its posted
  credits; every other step keeps a solvent book solvent.\<close>

lemma solvent_spec_step:
  assumes step: "spec_step s t = Some s'" and inv: "holds_ok s" and sol: "solvent s" and np: "\<not> isPost t"
  shows "solvent s'"
  using step inv
proof (cases rule: spec_step_cases)
  case (plain a a' b b')
  from plain(8) obtain n q where m: "DebitAccountID t \<noteq> CreditAccountID t"
    "acct s (CreditAccountID t) = Some b" "acct s' = (acct s)(DebitAccountID t \<mapsto> a', CreditAccountID t \<mapsto> b')"
    "val n = val (PostedDebits a) + val (Amount t)" "a' = a\<lparr>PostedDebits := n\<rparr>"
    "val q = val (PostedCredits b) + val (Amount t)" "b' = b\<lparr>PostedCredits := q\<rparr>"
    by (auto simp: moved_def grow_Some_iff)
  have "val (PostedDebits a') \<le> val (PostedCredits a')"
    using plain(3,6) m by (simp add: funds_ok_plain)
  moreover have "val (PostedDebits b') \<le> val (PostedCredits b')"
    using sol m by (auto simp: solvent_def intro: trans_le_add1)
  ultimately show ?thesis using sol m(3) by (auto simp: solvent_def)
next
  case (reserve a a' b b')
  then show ?thesis using sol by (auto simp: moved_def grow_Some_iff solvent_def)
next
  case (void p a a' b b')
  then show ?thesis using sol by (auto simp: moved_def release_Some_iff solvent_def)
qed (use np in simp)

lemma reserved_ge:
  assumes "finite (dom (hold s))" "hold s h = Some p"
  shows "int (val (Amount p)) \<le> reserved DebitAccountID (DebitAccountID p) s"
    "int (val (Amount p)) \<le> reserved CreditAccountID (CreditAccountID p) s"
proof -
  have "held side (side p) p \<le> reserved side (side p) s" for side
    unfolding dom_sum_def using assms
    by (intro order_trans [OF _ member_le_sum [of h]]) (auto simp: held_nonneg)
  from this [of DebitAccountID] this [of CreditAccountID]
  show "int (val (Amount p)) \<le> reserved DebitAccountID (DebitAccountID p) s"
    "int (val (Amount p)) \<le> reserved CreditAccountID (CreditAccountID p) s" by (simp_all add: held_def)
qed

text \<open>The pending balances of an open hold's accounts cover its amount, so releasing it
  cannot underflow.\<close>

lemma hold_covered:
  assumes inv: "book_inv s" and h: "hold s h = Some p"
  obtains a b where "acct s (DebitAccountID p) = Some a" "acct s (CreditAccountID p) = Some b"
    "DebitAccountID p \<noteq> CreditAccountID p"
    "val (Amount p) \<le> val (PendingDebits a)" "val (Amount p) \<le> val (PendingCredits b)"
proof -
  from inv h have "hold_ok s h p" "covered s" "finite (dom (hold s))" by (auto simp: book_inv_def holds_ok_def)
  then obtain a b where ab: "acct s (DebitAccountID p) = Some a" "acct s (CreditAccountID p) = Some b"
    "DebitAccountID p \<noteq> CreditAccountID p" by (auto simp: hold_ok_def)
  with \<open>covered s\<close> have "reserved DebitAccountID (DebitAccountID p) s \<le> int (val (PendingDebits a))"
    "reserved CreditAccountID (CreditAccountID p) s \<le> int (val (PendingCredits b))" by (auto simp: covered_def)
  with ab reserved_ge [OF \<open>finite _\<close> h] show thesis by (intro that [of a b]) simp_all
qed

lemma upd_pair_ok:
  "\<lbrakk> d \<noteq> c; acct s d = Some a; f a = Some a'; acct s c = Some b; g b = Some b' \<rbrakk> \<Longrightarrow>
     upd_pair d f c g s = Some (s\<lparr>acct := (acct s)(d \<mapsto> a', c \<mapsto> b')\<rparr>)"
  by (subst upd_pair_Some_iff) auto

lemma spec_release_live:
  assumes inv: "book_inv s" and h: "hold s h = Some p"
  shows "\<exists>s'. spec_release s p = Some s'"
proof -
  from hold_covered [OF inv h] obtain a b where ab: "acct s (DebitAccountID p) = Some a"
    "acct s (CreditAccountID p) = Some b" "DebitAccountID p \<noteq> CreditAccountID p"
    "val (Amount p) \<le> val (PendingDebits a)" "val (Amount p) \<le> val (PendingCredits b)" by blast
  from Sub_ok [OF ab(4)] Sub_ok [OF ab(5)] obtain a' b' where
    "debit_release (Amount p) a = Some a'" "credit_release (Amount p) b = Some b'"
    by (auto simp: debit_release_def credit_release_def)
  then show ?thesis using upd_pair_ok ab by (auto simp: spec_release_def)
qed

lemma spec_void_live:
  assumes "book_inv s" "hold s (tr_ID t) = Some p" "flags_ok t" "isVoid t" "tr_Ledger t = 0 \<or> tr_Ledger t = tr_Ledger p"
  shows "\<exists>s'. spec_step s t = Some s'"
  using spec_release_live [OF assms(1,2)] assms(2-) by (auto simp: spec_step_def spec_void_def flags_ok_def)

subsection \<open>Implementations\<close>

text \<open>Running a list of transfers through a state machine that reports errors as values;
  the run stops at the first error.\<close>

fun run_steps :: "('m \<Rightarrow> transfer \<Rightarrow> 'm \<times> ledger_error option) \<Rightarrow> 'm \<Rightarrow> transfer list \<Rightarrow> 'm \<times> ledger_error option" where
  "run_steps step m [] = (m, None)"
| "run_steps step m (t # ts) = (case step m t of (m', None) \<Rightarrow> run_steps step m' ts | (m', Some e) \<Rightarrow> (m', Some e))"

locale ledger_impl =
  fixes view :: "'m \<Rightarrow> book"
    and inv :: "'m \<Rightarrow> bool"
    and step :: "'m \<Rightarrow> transfer \<Rightarrow> 'm \<times> ledger_error option"
  assumes step_inv: "\<lbrakk> inv m; step m t = (m', None) \<rbrakk> \<Longrightarrow> inv m'"
    and step_sound: "\<lbrakk> inv m; step m t = (m', None) \<rbrakk> \<Longrightarrow> spec_step (view m) t = Some (view m')"
begin

lemma run_sound:
  "\<lbrakk> inv m; run_steps step m ts = (m', None) \<rbrakk> \<Longrightarrow> inv m' \<and> spec_run (view m) ts = Some (view m')"
proof (induction ts arbitrary: m)
  case (Cons t ts)
  then obtain m1 where m1: "step m t = (m1, None)" "run_steps step m1 ts = (m', None)"
    by (auto split: prod.splits option.splits)
  with Cons step_inv [of m t m1] step_sound [of m t m1] show ?case by simp
qed simp

lemma run_conserves:
  assumes "inv m" "book_inv (view m)" "run_steps step m ts = (m', None)"
  shows "book_inv (view m') \<and> ledger_posted L (view m') = ledger_posted L (view m) \<and>
     ledger_pending L (view m') = ledger_pending L (view m)"
  using run_sound [OF assms(1,3)] spec_run_inv assms(2) by blast

end

text \<open>A complete implementation rejects a transfer only when the specification does.\<close>

locale ledger_impl_complete = ledger_impl +
  assumes step_complete: "\<lbrakk> inv m; step m t = (m', Some e) \<rbrakk> \<Longrightarrow> spec_step (view m) t = None"
begin

lemma step_iff: "inv m \<Longrightarrow> snd (step m t) = None \<longleftrightarrow> spec_step (view m) t \<noteq> None"
  using step_sound [of m t] step_complete [of m t] by (cases "step m t"; cases "snd (step m t)") auto

lemma run_complete:
  "\<lbrakk> inv m; spec_run (view m) ts = Some s' \<rbrakk> \<Longrightarrow> \<exists>m'. run_steps step m ts = (m', None) \<and> view m' = s' \<and> inv m'"
proof (induction ts arbitrary: m)
  case (Cons t ts)
  then obtain s1 where s1: "spec_step (view m) t = Some s1" "spec_run s1 ts = Some s'"
    by (auto simp: bind_eq_Some_conv)
  with Cons.prems(1) obtain m1 where m1: "step m t = (m1, None)"
    using step_complete [of m t] by (cases "step m t"; cases "snd (step m t)") auto
  with s1 Cons show ?case using step_inv [of m t m1] step_sound [of m t m1] by auto
qed simp

end

end
