(* ===== verification/Witness_Data.thy ===== *)
theory Witness_Data
  imports Core_Model
begin

text \<open>
  Concrete accounts and transfers on which the witnesses of the properties are evaluated.
\<close>

definition ident_of :: "byte \<Rightarrow> ident" where
  "ident_of b = zeros 15 @ [b]"

definition sample_account :: "byte \<Rightarrow> u64 \<Rightarrow> account" where
  "sample_account b x = account0\<lparr>acc_ID := ident_of b, acc_Ledger := 1, PostedCredits := FromUint64 x\<rparr>"

definition sample_transfer :: "byte \<Rightarrow> byte \<Rightarrow> byte \<Rightarrow> u64 \<Rightarrow> u32 \<Rightarrow> transfer" where
  "sample_transfer b d c x fl = transfer0\<lparr>tr_ID := ident_of b, DebitAccountID := ident_of d,
     CreditAccountID := ident_of c, Amount := FromUint64 x, tr_Ledger := 1, tr_Flags := fl\<rparr>"

end
