(* ===== verification/Account_Manager.thy ===== *)
theory Account_Manager
  imports Expiry_Heap Ledger_Spec Witness_Data
begin

text \<open>
  The state machine of \<^verbatim>\<open>internal/engine/accounts.go\<close>: accounts in a slice behind an index,
  open holds behind pointers shared with the expiry heap, the transfer history, and the
  operations on them. Pointers to \<^verbatim>\<open>pendingEntry\<close> are references into \<open>entries\<close>; pointers
  to accounts are slice positions. An operation that can fail returns the state it leaves
  behind together with an optional error, because the code mutates before it reports some
  errors. Metrics (\<^verbatim>\<open>observability\<close>) are not modelled.

  The view \<open>book_of\<close> forgets the data structures; \<open>ApplyTransferState\<close> is shown to
  implement \<open>spec_step\<close> of the specification exactly, \<open>CloseExpired\<close> to close exactly the
  holds whose deadline has passed.
\<close>

record account_manager =
  accounts :: "account list"
  index :: "ident \<rightharpoonup> nat"
  clock :: i64
  pending :: "ident \<rightharpoonup> nat"
  expiry :: "nat list"
  entries :: store
  next_ref :: nat
  transfers :: "ident \<rightharpoonup> transfer"
  history :: "ident \<Rightarrow> ident list"

type_synonym am_result = "account_manager \<times> ledger_error option"

definition andThen :: "'m \<times> 'e option \<Rightarrow> ('m \<Rightarrow> 'm \<times> 'e option) \<Rightarrow> 'm \<times> 'e option" where
  "andThen r f = (case r of (m, None) \<Rightarrow> f m | (m, Some e) \<Rightarrow> (m, Some e))"

lemma andThen_simps [simp]: "andThen (m, None) f = f m" "andThen (m, Some e) f = (m, Some e)"
  by (simp_all add: andThen_def)

definition entry0 :: pendingEntry where
  "entry0 = \<lparr>pe_transfer = transfer0, pe_expires = 0, pe_heapIdx = 0\<rparr>"

definition NewAccountManager :: account_manager where
  "NewAccountManager = \<lparr>accounts = [], index = Map.empty, clock = 0, pending = Map.empty, expiry = [],
     entries = (\<lambda>_. entry0), next_ref = 0, transfers = Map.empty, history = (\<lambda>_. [])\<rparr>"

definition Create :: "account_manager \<Rightarrow> account \<Rightarrow> am_result" where
  "Create m a =
     (case index m (acc_ID a) of
        Some _ \<Rightarrow> (m, Some (ErrDuplicateAccountID (acc_ID a)))
      | None \<Rightarrow>
          let accs = accounts m @ [a]
          in (m\<lparr>accounts := accs, index := (index m)(acc_ID a \<mapsto> length accs - 1)\<rparr>, None))"

definition Get :: "account_manager \<Rightarrow> ident \<Rightarrow> ledger_error + nat" where
  "Get m i =
     (case index m i of
        None \<Rightarrow> Inl (ErrAccountNotFound i)
      | Some idx \<Rightarrow> if idx < length (accounts m) then Inr idx else Inl GoPanic)"

definition SetClock :: "account_manager \<Rightarrow> i64 \<Rightarrow> account_manager" where
  "SetClock m nanos = m\<lparr>clock := nanos\<rparr>"

text \<open>The idiom \<^verbatim>\<open>acc, err := m.Get(id); ...; acc.Field = next\<close>: fetch the account, compute
  its new value, write through the pointer.\<close>

definition update_account :: "account_manager \<Rightarrow> ident \<Rightarrow> (account \<Rightarrow> account \<times> ledger_error option) \<Rightarrow> am_result" where
  "update_account m i f =
     (case Get m i of
        Inl e \<Rightarrow> (m, Some e)
      | Inr idx \<Rightarrow> (let (a, e) = f (accounts m ! idx) in (m\<lparr>accounts := (accounts m)[idx := a]\<rparr>, e)))"

definition release_debit :: "uint128 \<Rightarrow> account \<Rightarrow> account \<times> ledger_error option" where
  "release_debit x a =
     (case Sub (PendingDebits a) x of
        Inl _ \<Rightarrow> (a, Some (ErrInvariantViolation (acc_ID a) u128_zero u128_zero))
      | Inr next \<Rightarrow> (a\<lparr>PendingDebits := next\<rparr>, None))"

definition release_credit :: "uint128 \<Rightarrow> account \<Rightarrow> account \<times> ledger_error option" where
  "release_credit x a =
     (case Sub (PendingCredits a) x of
        Inl _ \<Rightarrow> (a, Some (ErrInvariantViolation (acc_ID a) u128_zero u128_zero))
      | Inr next \<Rightarrow> (a\<lparr>PendingCredits := next\<rparr>, None))"

definition releasePending :: "account_manager \<Rightarrow> transfer \<Rightarrow> am_result" where
  "releasePending m t =
     andThen (update_account m (DebitAccountID t) (release_debit (Amount t)))
       (\<lambda>m'. update_account m' (CreditAccountID t) (release_credit (Amount t)))"

definition ValidateAccount :: "account \<Rightarrow> ledger_error option" where
  "ValidateAccount a = (case Balance a of Inl e \<Rightarrow> Some e | Inr _ \<Rightarrow> None)"

subsection \<open>Checking a transfer\<close>

definition invalidFlags :: "transfer \<Rightarrow> bool" where
  "invalidFlags t \<longleftrightarrow> isPost t \<and> (isPending t \<or> isVoid t) \<or> isVoid t \<and> isPending t"

definition checkSettlement :: "account_manager \<Rightarrow> transfer \<Rightarrow> ledger_error + uint128" where
  "checkSettlement m t =
     (case pending m (tr_ID t) of
        None \<Rightarrow> Inl (ErrPendingNotFound (tr_ID t))
      | Some r \<Rightarrow>
          let p = pe_transfer (entries m r)
          in if tr_Ledger t \<noteq> 0 \<and> tr_Ledger t \<noteq> tr_Ledger p
             then Inl (ErrLedgerMismatch (tr_Ledger t) (tr_Ledger p) (tr_Ledger p))
             else if isPost t \<and> \<not> IsZero (Amount t)
             then
               if Cmp (Amount t) (Amount p) > 0
               then Inl (ErrOverTransfer (tr_ID t) (Amount p) (Amount t))
               else Inr (Amount t)
             else Inr (Amount p))"

definition checkFunds :: "account \<Rightarrow> transfer \<Rightarrow> ledger_error + uint128" where
  "checkFunds debit t =
     (case (if isPending t then AvailableBalance debit else Balance debit) of
        Inl e \<Rightarrow> Inl e
      | Inr bal \<Rightarrow>
          if Cmp bal (Amount t) < 0 then Inl (ErrInsufficientFunds (acc_ID debit) bal (Amount t))
          else Inr u128_zero)"

definition checkParties :: "account \<Rightarrow> account \<Rightarrow> transfer \<Rightarrow> ledger_error option" where
  "checkParties debit credit t =
     (if acc_Currency debit \<noteq> acc_Currency credit
      then Some (ErrCurrencyMismatch (acc_Currency debit) (acc_Currency credit))
      else if acc_Ledger debit \<noteq> tr_Ledger t \<or> acc_Ledger credit \<noteq> tr_Ledger t
      then Some (ErrLedgerMismatch (tr_Ledger t) (acc_Ledger debit) (acc_Ledger credit))
      else if IsFrozen debit then Some (ErrAccountFrozen (acc_ID debit))
      else if IsClosed debit then Some (ErrAccountClosed (acc_ID debit))
      else if IsFrozen credit then Some (ErrAccountFrozen (acc_ID credit))
      else if IsClosed credit then Some (ErrAccountClosed (acc_ID credit))
      else None)"

definition checkTransfer :: "account_manager \<Rightarrow> transfer \<Rightarrow> ledger_error + uint128" where
  "checkTransfer m t =
     (if hasUnknownFlags t then Inl (ErrInvalidTransferFlags (tr_Flags t))
      else if invalidFlags t then Inl (ErrInvalidTransferFlags (tr_Flags t))
      else if isPost t \<or> isVoid t then checkSettlement m t
      else if IsZero (Amount t) then Inl ErrZeroAmount
      else if DebitAccountID t = CreditAccountID t then Inl (ErrSelfTransfer (DebitAccountID t))
      else
        (case Get m (DebitAccountID t) of
           Inl e \<Rightarrow> Inl e
         | Inr d \<Rightarrow>
             (case Get m (CreditAccountID t) of
                Inl e \<Rightarrow> Inl e
              | Inr c \<Rightarrow>
                  (case checkParties (accounts m ! d) (accounts m ! c) t of
                     Some e \<Rightarrow> Inl e
                   | None \<Rightarrow> checkFunds (accounts m ! d) t))))"

definition ValidateTransfer :: "account_manager \<Rightarrow> transfer \<Rightarrow> ledger_error option" where
  "ValidateTransfer m t = (case checkTransfer m t of Inl e \<Rightarrow> Some e | Inr _ \<Rightarrow> None)"

subsection \<open>Balance changes\<close>

definition apply_debit :: "ident \<Rightarrow> uint128 \<Rightarrow> account \<Rightarrow> account \<times> ledger_error option" where
  "apply_debit i amount a =
     (case Add (PostedDebits a) amount of
        Inl _ \<Rightarrow> (a, Some (ErrBalanceOverflow i))
      | Inr next \<Rightarrow>
          let a' = a\<lparr>PostedDebits := next\<rparr>
          in (a', (case Balance a' of Inl e \<Rightarrow> Some e | Inr _ \<Rightarrow> None)))"

definition ApplyDebit :: "account_manager \<Rightarrow> ident \<Rightarrow> uint128 \<Rightarrow> am_result" where
  "ApplyDebit m i amount = update_account m i (apply_debit i amount)"

definition ApplyCredit :: "account_manager \<Rightarrow> ident \<Rightarrow> uint128 \<Rightarrow> am_result" where
  "ApplyCredit m i amount = update_account m i (\<lambda>a.
     case Add (PostedCredits a) amount of
        Inl _ \<Rightarrow> (a, Some (ErrBalanceOverflow i))
      | Inr next \<Rightarrow> (a\<lparr>PostedCredits := next\<rparr>, None))"

definition postImmediate :: "account_manager \<Rightarrow> transfer \<Rightarrow> am_result" where
  "postImmediate m t =
     andThen (ApplyDebit m (DebitAccountID t) (Amount t)) (\<lambda>m'. ApplyCredit m' (CreditAccountID t) (Amount t))"

definition applyPendingDebit :: "account_manager \<Rightarrow> ident \<Rightarrow> uint128 \<Rightarrow> am_result" where
  "applyPendingDebit m i amount = update_account m i (\<lambda>a.
     case Add (PendingDebits a) amount of
        Inl _ \<Rightarrow> (a, Some (ErrBalanceOverflow i))
      | Inr next \<Rightarrow> (a\<lparr>PendingDebits := next\<rparr>, None))"

definition applyPendingCredit :: "account_manager \<Rightarrow> ident \<Rightarrow> uint128 \<Rightarrow> am_result" where
  "applyPendingCredit m i amount = update_account m i (\<lambda>a.
     case Add (PendingCredits a) amount of
        Inl _ \<Rightarrow> (a, Some (ErrBalanceOverflow i))
      | Inr next \<Rightarrow> (a\<lparr>PendingCredits := next\<rparr>, None))"

definition settle_debit :: "uint128 \<Rightarrow> account \<Rightarrow> account \<times> ledger_error option" where
  "settle_debit x a =
     (case Sub (PendingDebits a) x of
        Inl _ \<Rightarrow> (a, Some (ErrInvariantViolation (acc_ID a) u128_zero u128_zero))
      | Inr next \<Rightarrow>
          (case Add (PostedDebits a) x of
             Inl _ \<Rightarrow> (a, Some (ErrBalanceOverflow (acc_ID a)))
           | Inr posted \<Rightarrow> (a\<lparr>PendingDebits := next, PostedDebits := posted\<rparr>, None)))"

definition settle_credit :: "uint128 \<Rightarrow> account \<Rightarrow> account \<times> ledger_error option" where
  "settle_credit x a =
     (case Sub (PendingCredits a) x of
        Inl _ \<Rightarrow> (a, Some (ErrInvariantViolation (acc_ID a) u128_zero u128_zero))
      | Inr next \<Rightarrow>
          (case Add (PostedCredits a) x of
             Inl _ \<Rightarrow> (a, Some (ErrBalanceOverflow (acc_ID a)))
           | Inr posted \<Rightarrow> (a\<lparr>PendingCredits := next, PostedCredits := posted\<rparr>, None)))"

definition movePending :: "account_manager \<Rightarrow> transfer \<Rightarrow> uint128 \<Rightarrow> am_result" where
  "movePending m p amount =
     andThen (update_account m (DebitAccountID p) (settle_debit amount))
       (\<lambda>m'. update_account m' (CreditAccountID p) (settle_credit amount))"

subsection \<open>Holds\<close>

text \<open>\<open>register_hold\<close>: allocate a \<^verbatim>\<open>pendingEntry\<close>, push it on the expiry heap when it has a
  timeout, and publish it under the transfer's ID. \<^verbatim>\<open>int64(t.Timeout)\<close> keeps the bits and
  the sum wraps, so the deadline is the sum of the two 64-bit words.\<close>

definition register_hold :: "account_manager \<Rightarrow> transfer \<Rightarrow> account_manager" where
  "register_hold m t =
     (let r = next_ref m;
          e = \<lparr>pe_transfer = t, pe_expires = (if Timeout t > 0 then Timestamp t + Timeout t else 0), pe_heapIdx = 0\<rparr>;
          st = (entries m)(r := e);
          (h, st') = (if Timeout t > 0 then heap_Push (expiry m, st) r else (expiry m, st))
      in m\<lparr>expiry := h, entries := st', next_ref := Suc r, pending := (pending m)(tr_ID t \<mapsto> r)\<rparr>)"

definition reservePending :: "account_manager \<Rightarrow> transfer \<Rightarrow> am_result" where
  "reservePending m t =
     andThen (applyPendingDebit m (DebitAccountID t) (Amount t)) (\<lambda>m1.
     andThen (applyPendingCredit m1 (CreditAccountID t) (Amount t)) (\<lambda>m2.
     (register_hold m2 t, None)))"

definition removePending :: "account_manager \<Rightarrow> ident \<Rightarrow> account_manager" where
  "removePending m i =
     (case pending m i of
        None \<Rightarrow> m
      | Some r \<Rightarrow>
          let k = pe_heapIdx (entries m r);
              (h, st) = (if k < length (expiry m) \<and> expiry m ! k = r
                         then heap_Remove (expiry m, entries m) k else (expiry m, entries m))
          in m\<lparr>expiry := h, entries := st, pending := (pending m)(i := None)\<rparr>)"

definition subtractPendingAmount :: "transfer \<Rightarrow> uint128 \<Rightarrow> transfer" where
  "subtractPendingAmount t amount =
     (case Sub (Amount t) amount of Inl _ \<Rightarrow> t | Inr rest \<Rightarrow> t\<lparr>Amount := rest\<rparr>)"

definition recordTransfer :: "account_manager \<Rightarrow> transfer \<Rightarrow> account_manager" where
  "recordTransfer m t =
     (let d = DebitAccountID t; c = CreditAccountID t;
          h1 = (if d \<noteq> c then (history m)(d := history m d @ [tr_ID t]) else history m)
      in m\<lparr>transfers := (transfers m)(tr_ID t \<mapsto> t), history := h1(c := h1 c @ [tr_ID t])\<rparr>)"

definition fill_from :: "transfer \<Rightarrow> transfer \<Rightarrow> transfer" where
  "fill_from p t =
     (let t1 = (if tr_Ledger t = 0 then t\<lparr>tr_Ledger := tr_Ledger p\<rparr> else t);
          t2 = (if DebitAccountID t1 = zeros 16 then t1\<lparr>DebitAccountID := DebitAccountID p\<rparr> else t1)
      in if CreditAccountID t2 = zeros 16 then t2\<lparr>CreditAccountID := CreditAccountID p\<rparr> else t2)"

definition settle_hold :: "account_manager \<Rightarrow> ident \<Rightarrow> nat \<Rightarrow> uint128 \<Rightarrow> account_manager" where
  "settle_hold m i r amount =
     (let p = pe_transfer (entries m r)
      in if Cmp (Amount p) amount = 0 then removePending m i
         else m\<lparr>entries := (entries m)(r := (entries m r)\<lparr>pe_transfer := subtractPendingAmount p amount\<rparr>)\<rparr>)"

definition ApplyTransferState :: "account_manager \<Rightarrow> transfer \<Rightarrow> am_result" where
  "ApplyTransferState m t =
     (case checkTransfer m t of
        Inl e \<Rightarrow> (m, Some e)
      | Inr remaining \<Rightarrow>
          if isPost t then
            (case pending m (tr_ID t) of
               None \<Rightarrow> (m, Some GoPanic)
             | Some r \<Rightarrow>
                 let p = pe_transfer (entries m r)
                 in andThen (movePending m p remaining) (\<lambda>m1.
                      (recordTransfer (settle_hold m1 (tr_ID t) r remaining) (fill_from p t), None)))
          else if isVoid t then
            (case pending m (tr_ID t) of
               None \<Rightarrow> (m, Some GoPanic)
             | Some r \<Rightarrow>
                 let p = pe_transfer (entries m r)
                 in andThen (releasePending m p) (\<lambda>m1.
                      (recordTransfer (removePending m1 (tr_ID t)) (fill_from p t), None)))
          else if isPending t then
            andThen (reservePending m t) (\<lambda>m1. (recordTransfer m1 t, None))
          else
            andThen (postImmediate m t) (\<lambda>m1. (recordTransfer m1 t, None)))"

subsection \<open>Snapshots, restore and queries\<close>

definition Snapshot :: "account_manager \<Rightarrow> account list" where
  "Snapshot m = accounts m"

text \<open>Go ranges over a map in an unspecified order: \<open>ks\<close> is the order of the keys.\<close>

definition PendingTransfers :: "ident list \<Rightarrow> account_manager \<Rightarrow> transfer list" where
  "PendingTransfers ks m = map (\<lambda>k. pe_transfer (entries m (the (pending m k)))) ks"

datatype restore_error = RestoredTwice ident

definition RestorePending :: "account_manager \<Rightarrow> transfer \<Rightarrow> account_manager \<times> restore_error option" where
  "RestorePending m t =
     (case pending m (tr_ID t) of
        Some _ \<Rightarrow> (m, Some (RestoredTwice (tr_ID t)))
      | None \<Rightarrow> (register_hold m t, None))"

definition GetTransfer :: "account_manager \<Rightarrow> ident \<Rightarrow> transfer option" where
  "GetTransfer m i = transfers m i"

fun find_after :: "ident \<Rightarrow> nat \<Rightarrow> ident list \<Rightarrow> nat" where
  "find_after a i [] = 0"
| "find_after a i (x # xs) = (if x = a then i + 1 else find_after a (i + 1) xs)"

definition AccountTransfers :: "account_manager \<Rightarrow> ident \<Rightarrow> ident \<Rightarrow> int \<Rightarrow> transfer list" where
  "AccountTransfers m accountID afterID limit =
     (let ids = history m accountID;
          start = (if afterID \<noteq> zeros 16 then find_after afterID 0 ids else 0);
          n = (if limit \<le> 0 \<or> limit > int (length ids) - int start then length ids - start else nat limit)
      in List.map_filter (transfers m) (slice start (start + n) ids))"

subsection \<open>Expiry\<close>

lemma length_heap_down [simp]: "length (fst (fst (heap_down hs i n))) = length (fst hs)"
  by (induction hs i n rule: heap_down.induct) (subst heap_down.simps, auto)

lemma length_heap_Pop [simp]: "length (fst (heap_Pop hs)) = length (fst hs) - 1"
  by (simp add: heap_Pop_def Let_def heap_pop_method_def split: prod.splits)
     (metis fst_conv length_heap_Swap length_heap_down)

lemma expiry_update_account [simp]: "expiry (fst (update_account m i f)) = expiry m"
  by (simp add: update_account_def split: sum.splits prod.splits)

lemma expiry_releasePending [simp]: "expiry (fst (releasePending m t)) = expiry m"
proof -
  obtain m1 e where r: "update_account m (DebitAccountID t) (release_debit (Amount t)) = (m1, e)" by fastforce
  have "expiry m1 = expiry m" using expiry_update_account [of m "DebitAccountID t" "release_debit (Amount t)"] r by simp
  with r show ?thesis by (cases e) (simp_all add: releasePending_def)
qed

text \<open>The error of a failed release only increments a metric in the code; the loop goes
  on with the state the release left.\<close>

function CloseExpired :: "account_manager \<Rightarrow> account_manager" where
  "CloseExpired m =
     (if expiry m = [] then m
      else
        let r = expiry m ! 0
        in if sint (pe_expires (entries m r)) > sint (clock m) then m
           else
             let (h, st) = heap_Pop (expiry m, entries m);
                 top = pe_transfer (st r);
                 m1 = m\<lparr>expiry := h, entries := st, pending := (pending m)(tr_ID top := None)\<rparr>
             in CloseExpired (fst (releasePending m1 top)))"
  by pat_completeness auto
termination
proof (relation "measure (\<lambda>m. length (expiry m))", simp, goal_cases)
  case (1 m r p h st top m1)
  have "length h = length (expiry m) - 1"
    using length_heap_Pop [of "(expiry m, entries m)"] 1(4,5) by (metis fst_conv)
  with 1 show ?case by simp
qed

declare CloseExpired.simps [simp del]

subsection \<open>The book an account manager represents\<close>

definition account_at :: "account_manager \<Rightarrow> ident \<Rightarrow> account option" where
  "account_at m i = map_option (\<lambda>k. accounts m ! k) (index m i)"

definition hold_at :: "account_manager \<Rightarrow> ident \<Rightarrow> transfer option" where
  "hold_at m i = map_option (\<lambda>r. pe_transfer (entries m r)) (pending m i)"

definition book_of :: "account_manager \<Rightarrow> book" where
  "book_of m = \<lparr>acct = account_at m, hold = hold_at m\<rparr>"

lemma book_of_simps [simp]: "acct (book_of m) = account_at m" "hold (book_of m) = hold_at m"
  by (simp_all add: book_of_def)

text \<open>\<open>index_ok\<close>: the index maps exactly the stored identifiers to their positions.
  \<open>pend_ok\<close>: an open hold's entry is allocated and carries the ID it is filed under.\<close>

definition index_ok :: "account_manager \<Rightarrow> bool" where
  "index_ok m \<longleftrightarrow>
     (\<forall>i k. index m i = Some k \<longrightarrow> k < length (accounts m) \<and> acc_ID (accounts m ! k) = i) \<and>
     (\<forall>k < length (accounts m). index m (acc_ID (accounts m ! k)) = Some k)"

definition pend_ok :: "account_manager \<Rightarrow> bool" where
  "pend_ok m \<longleftrightarrow> (\<forall>i r. pending m i = Some r \<longrightarrow> r < next_ref m \<and> tr_ID (pe_transfer (entries m r)) = i)"

definition am_ok :: "account_manager \<Rightarrow> bool" where
  "am_ok m \<longleftrightarrow> index_ok m \<and> pend_ok m"

lemma index_okD: "\<lbrakk> index_ok m; index m i = Some k \<rbrakk> \<Longrightarrow> k < length (accounts m) \<and> acc_ID (accounts m ! k) = i"
  by (simp add: index_ok_def)

lemma Get_account_at:
  assumes "index_ok m"
  shows "Get m i = (case account_at m i of None \<Rightarrow> Inl (ErrAccountNotFound i) | Some _ \<Rightarrow> Inr (the (index m i)))"
  using index_okD [OF assms] by (auto simp: Get_def account_at_def split: option.splits)

lemma account_at_ID: "\<lbrakk> index_ok m; account_at m i = Some a \<rbrakk> \<Longrightarrow> acc_ID a = i"
  using index_okD by (auto simp: account_at_def)

text \<open>Writing one account through its pointer changes the book at exactly that ID.\<close>

lemma put_account:
  assumes ok: "index_ok m" and k: "index m i = Some k" and a: "acc_ID a = i"
  shows "index_ok (m\<lparr>accounts := (accounts m)[k := a]\<rparr>)"
    "account_at (m\<lparr>accounts := (accounts m)[k := a]\<rparr>) = (account_at m)(i \<mapsto> a)"
proof -
  have k': "k < length (accounts m)" "acc_ID (accounts m ! k) = i" using index_okD [OF ok k] by auto
  have inj: "j = i" if "index m j = Some k" for j using index_okD [OF ok that] k' by simp
  show "index_ok (m\<lparr>accounts := (accounts m)[k := a]\<rparr>)"
    unfolding index_ok_def
  proof (intro conjI allI impI, goal_cases)
    case (1 j q)
    then show ?case using index_okD [OF ok] by simp
  next
    case (2 j q)
    then show ?case using index_okD [OF ok] inj a k'(1) by (cases "q = k") auto
  next
    case (3 q)
    then show ?case using ok k a by (cases "q = k") (auto simp: index_ok_def)
  qed
  have "accounts m ! q = (accounts m)[k := a] ! q" if "index m j = Some q" "j \<noteq> i" for j q
    using index_okD [OF ok that(1)] that(2) k' by (auto simp: nth_list_update)
  then show "account_at (m\<lparr>accounts := (accounts m)[k := a]\<rparr>) = (account_at m)(i \<mapsto> a)"
    using k k' by (auto simp: account_at_def fun_eq_iff map_option_case split: option.split)
qed

definition same_but_accounts :: "account_manager \<Rightarrow> account_manager \<Rightarrow> bool" where
  "same_but_accounts m m' \<longleftrightarrow> (\<exists>as. m' = m\<lparr>accounts := as\<rparr>)"

lemma same_but_accountsD:
  assumes "same_but_accounts m m'"
  shows "index m' = index m" "clock m' = clock m" "pending m' = pending m" "expiry m' = expiry m"
    "entries m' = entries m" "next_ref m' = next_ref m" "transfers m' = transfers m" "history m' = history m"
    "hold_at m' = hold_at m"
  using assms by (auto simp: same_but_accounts_def hold_at_def)

lemma same_but_accounts_trans:
  "\<lbrakk> same_but_accounts m m'; same_but_accounts m' m'' \<rbrakk> \<Longrightarrow> same_but_accounts m m''"
  by (auto simp: same_but_accounts_def)

lemma update_account_spec:
  assumes ok: "index_ok m" and id: "\<And>a. acc_ID (fst (f a)) = acc_ID a"
  shows "case account_at m i of
      None \<Rightarrow> update_account m i f = (m, Some (ErrAccountNotFound i))
    | Some a \<Rightarrow> \<exists>m'. update_account m i f = (m', snd (f a)) \<and> index_ok m' \<and>
        account_at m' = (account_at m)(i \<mapsto> fst (f a)) \<and> same_but_accounts m m'"
proof (cases "account_at m i")
  case None
  then show ?thesis by (simp add: update_account_def Get_account_at [OF ok])
next
  case (Some a)
  then obtain k where k: "index m i = Some k" "a = accounts m ! k" by (auto simp: account_at_def)
  let ?m = "m\<lparr>accounts := (accounts m)[k := fst (f a)]\<rparr>"
  have "update_account m i f = (?m, snd (f a))"
    using Some k by (simp add: update_account_def Get_account_at [OF ok] split: prod.splits)
  moreover have "acc_ID (fst (f a)) = i" using id account_at_ID [OF ok Some] by simp
  ultimately show ?thesis using Some put_account [OF ok k(1)] by (auto simp: same_but_accounts_def)
qed

text \<open>The effects on a single account, as total functions and as partial ones.\<close>

definition refines_at :: "(account \<Rightarrow> account \<times> ledger_error option) \<Rightarrow> (account \<Rightarrow> account option) \<Rightarrow> account \<Rightarrow> bool" where
  "refines_at f g a \<longleftrightarrow> (case g a of Some a' \<Rightarrow> f a = (a', None) | None \<Rightarrow> snd (f a) \<noteq> None)"

lemma update_account_upd_acct:
  assumes ok: "index_ok m" and id: "\<And>a. acc_ID (fst (f a)) = acc_ID a"
    and ref: "\<And>a. account_at m i = Some a \<Longrightarrow> refines_at f g a"
  shows "case upd_acct i g (book_of m) of
      None \<Rightarrow> snd (update_account m i f) \<noteq> None
    | Some s \<Rightarrow> \<exists>m'. update_account m i f = (m', None) \<and> index_ok m' \<and> same_but_accounts m m' \<and> book_of m' = s"
proof (cases "account_at m i")
  case None
  then show ?thesis using update_account_spec [OF ok id, of i] by (simp add: upd_acct_def)
next
  case (Some a)
  with update_account_spec [OF ok id, of i] obtain m' where m': "update_account m i f = (m', snd (f a))" "index_ok m'"
    "account_at m' = (account_at m)(i \<mapsto> fst (f a))" "same_but_accounts m m'" by auto
  have "hold_at m' = hold_at m" by (rule same_but_accountsD [OF m'(4)])
  with Some m' ref [OF Some] show ?thesis
    by (auto simp: upd_acct_def refines_at_def book_of_def split: option.splits)
qed

lemma update_pair_upd_pair:
  assumes ok: "index_ok m" and fid: "\<And>a. acc_ID (fst (f a)) = acc_ID a" and gid: "\<And>a. acc_ID (fst (g a)) = acc_ID a"
    and fr: "\<And>a. account_at m d = Some a \<Longrightarrow> refines_at f f' a" and gr: "\<And>a. refines_at g g' a"
  shows "case upd_pair d f' c g' (book_of m) of
      None \<Rightarrow> snd (andThen (update_account m d f) (\<lambda>m'. update_account m' c g)) \<noteq> None
    | Some s \<Rightarrow> \<exists>m'. andThen (update_account m d f) (\<lambda>m'. update_account m' c g) = (m', None) \<and>
        index_ok m' \<and> same_but_accounts m m' \<and> book_of m' = s"
proof (cases "upd_acct d f' (book_of m)")
  case None
  with update_account_upd_acct [OF ok fid fr, of d] have "snd (update_account m d f) \<noteq> None" by simp
  then show ?thesis using None by (cases "update_account m d f") (auto simp: upd_pair_def)
next
  case (Some s1)
  with update_account_upd_acct [OF ok fid fr, of d] obtain m1 where m1: "update_account m d f = (m1, None)"
    "index_ok m1" "same_but_accounts m m1" "book_of m1 = s1" by auto
  with update_account_upd_acct [OF m1(2) gid gr, of c] Some show ?thesis
    by (auto simp: upd_pair_def split: option.splits intro: same_but_accounts_trans)
qed

lemma refines_at_effects:
  "refines_at (release_debit x) (debit_release x) a" "refines_at (release_credit x) (credit_release x) a"
  "refines_at (settle_debit x) (debit_settle x) a" "refines_at (settle_credit x) (credit_settle x) a"
  by (auto simp: refines_at_def release_debit_def release_credit_def settle_debit_def settle_credit_def
      debit_release_def credit_release_def debit_settle_def credit_settle_def debit_posted_def credit_posted_def
      split: sum.splits option.splits)

lemma refines_at_apply_debit:
  "val (PostedDebits a) + val x \<le> val (PostedCredits a) \<Longrightarrow> refines_at (apply_debit i x) (debit_posted x) a"
proof (cases "Add (PostedDebits a) x")
  case (Inr n)
  assume "val (PostedDebits a) + val x \<le> val (PostedCredits a)"
  with Inr have "val n \<le> val (PostedCredits a)" by (simp only: Add_Inr_iff)
  with Sub_ok [OF this] Inr show ?thesis
    by (auto simp: refines_at_def apply_debit_def debit_posted_def Balance_def)
qed (simp add: refines_at_def apply_debit_def debit_posted_def)

lemma effect_IDs:
  "acc_ID (fst (release_debit x a)) = acc_ID a" "acc_ID (fst (release_credit x a)) = acc_ID a"
  "acc_ID (fst (settle_debit x a)) = acc_ID a" "acc_ID (fst (settle_credit x a)) = acc_ID a"
  "acc_ID (fst (apply_debit i x a)) = acc_ID a"
  by (simp_all add: release_debit_def release_credit_def settle_debit_def settle_credit_def apply_debit_def Let_def
      split: sum.splits)

text \<open>\<open>refines_pair m r s\<close>: the result \<open>r\<close> of a two-account operation on \<open>m\<close> agrees with the
  specification's result \<open>s\<close>.\<close>

definition refines_pair :: "account_manager \<Rightarrow> am_result \<Rightarrow> book option \<Rightarrow> bool" where
  "refines_pair m r s \<longleftrightarrow>
     (case s of
        None \<Rightarrow> snd r \<noteq> None
      | Some s' \<Rightarrow> \<exists>m'. r = (m', None) \<and> index_ok m' \<and> same_but_accounts m m' \<and> book_of m' = s')"

lemma releasePending_refines:
  "index_ok m \<Longrightarrow> refines_pair m (releasePending m p) (spec_release (book_of m) p)"
  unfolding refines_pair_def releasePending_def spec_release_def
  by (rule update_pair_upd_pair) (simp_all add: effect_IDs refines_at_effects)

lemma movePending_refines:
  "index_ok m \<Longrightarrow> refines_pair m (movePending m p x)
     (upd_pair (DebitAccountID p) (debit_settle x) (CreditAccountID p) (credit_settle x) (book_of m))"
  unfolding refines_pair_def movePending_def
  by (rule update_pair_upd_pair) (simp_all add: effect_IDs refines_at_effects)

lemma credit_refines:
  "refines_at (\<lambda>a. case Add (PostedCredits a) x of Inl _ \<Rightarrow> (a, Some (e a)) | Inr n \<Rightarrow> (a\<lparr>PostedCredits := n\<rparr>, None))
     (credit_posted x) a"
  by (simp add: refines_at_def credit_posted_def split: sum.splits)

lemma postImmediate_refines:
  assumes "index_ok m" "\<And>a. account_at m (DebitAccountID t) = Some a \<Longrightarrow> val (PostedDebits a) + val (Amount t) \<le> val (PostedCredits a)"
  shows "refines_pair m (postImmediate m t)
     (upd_pair (DebitAccountID t) (debit_posted (Amount t)) (CreditAccountID t) (credit_posted (Amount t)) (book_of m))"
  unfolding refines_pair_def postImmediate_def ApplyDebit_def ApplyCredit_def
  by (rule update_pair_upd_pair)
     (use assms refines_at_apply_debit in \<open>auto simp: effect_IDs credit_refines split: sum.splits\<close>)

lemma applyPending_refines:
  assumes "index_ok m"
  shows "refines_pair m
     (andThen (applyPendingDebit m d x) (\<lambda>m1. applyPendingCredit m1 c x))
     (upd_pair d (debit_hold x) c (credit_hold x) (book_of m))"
  unfolding refines_pair_def applyPendingDebit_def applyPendingCredit_def
  by (rule update_pair_upd_pair)
     (use assms in \<open>auto simp: refines_at_def debit_hold_def credit_hold_def split: sum.splits\<close>)

subsection \<open>Heap operations do not touch the transfers\<close>

lemma transfer_set_idx [simp]: "pe_transfer (set_idx r i st q) = pe_transfer (st q)"
  by (simp add: set_idx_def)

lemma transfer_heap_Swap [simp]: "pe_transfer (snd (heap_Swap hs i j) r) = pe_transfer (snd hs r)"
  by (cases hs) (simp add: heap_Swap_def Let_def)

lemma transfer_heap_up [simp]: "pe_transfer (snd (heap_up hs j) r) = pe_transfer (snd hs r)"
proof (induction hs j rule: heap_up.induct)
  case (1 hs j)
  show ?case using 1 [OF refl] transfer_heap_Swap by (subst heap_up.simps) (simp add: Let_def)
qed

lemma transfer_heap_down [simp]: "pe_transfer (snd (fst (heap_down hs i n)) r) = pe_transfer (snd hs r)"
proof (induction hs i n rule: heap_down.induct)
  case (1 hs i n)
  show ?case using 1 transfer_heap_Swap by (subst heap_down.simps) simp
qed

lemma transfer_heap_push_method [simp]: "pe_transfer (snd (heap_push_method hs r) q) = pe_transfer (snd hs q)"
  by (cases hs) (simp add: heap_push_method_def)

lemma transfer_heap_pop_method [simp]: "snd (heap_pop_method hs) = snd hs"
  by (cases hs) (simp add: heap_pop_method_def)

lemma transfer_heap_Push [simp]: "pe_transfer (snd (heap_Push hs r) q) = pe_transfer (snd hs q)"
  by (simp add: heap_Push_def Let_def)

lemma transfer_heap_Pop [simp]: "pe_transfer (snd (heap_Pop hs) q) = pe_transfer (snd hs q)"
  by (simp add: heap_Pop_def Let_def)

lemma transfer_heap_Remove [simp]: "pe_transfer (snd (heap_Remove hs i) q) = pe_transfer (snd hs q)"
proof -
  obtain hs' i' where d: "heap_down (heap_Swap hs i (length (fst hs) - 1)) i (length (fst hs) - 1) = (hs', i')" by fastforce
  have "pe_transfer (snd hs' q) = pe_transfer (snd hs q)"
    using d by (metis fst_conv transfer_heap_down transfer_heap_Swap)
  then show ?thesis by (simp add: heap_Remove_def Let_def d del: One_nat_def)
qed

subsection \<open>Holds in the book\<close>

lemma accounts_register_hold [simp]:
  "accounts (register_hold m t) = accounts m" "index (register_hold m t) = index m" "clock (register_hold m t) = clock m"
  "transfers (register_hold m t) = transfers m" "history (register_hold m t) = history m"
  "next_ref (register_hold m t) = Suc (next_ref m)"
  "pending (register_hold m t) = (pending m)(tr_ID t \<mapsto> next_ref m)"
  by (simp_all add: register_hold_def Let_def split: prod.splits)

lemma transfer_register_hold:
  "pe_transfer (entries (register_hold m t) r) = (if r = next_ref m then t else pe_transfer (entries m r))"
proof -
  let ?e = "\<lparr>pe_transfer = t, pe_expires = (if Timeout t > 0 then Timestamp t + Timeout t else 0), pe_heapIdx = 0\<rparr>"
  let ?st = "(entries m)(next_ref m := ?e)"
  obtain h st where hs: "(if Timeout t > 0 then heap_Push (expiry m, ?st) (next_ref m) else (expiry m, ?st)) = (h, st)"
    by fastforce
  then have "pe_transfer (st r) = pe_transfer (?st r)"
    by (metis snd_conv transfer_heap_Push)
  with hs show ?thesis by (simp add: register_hold_def Let_def)
qed

lemma hold_register_hold: "pend_ok m \<Longrightarrow> hold_at (register_hold m t) = (hold_at m)(tr_ID t \<mapsto> t)"
  by (rule ext) (auto simp: hold_at_def transfer_register_hold pend_ok_def map_option_case split: option.split)

lemma pend_ok_register_hold: "pend_ok m \<Longrightarrow> pend_ok (register_hold m t)"
  by (auto simp: pend_ok_def transfer_register_hold less_Suc_eq split: if_splits)

lemma removePending_frame [simp]:
  "accounts (removePending m i) = accounts m" "index (removePending m i) = index m" "clock (removePending m i) = clock m"
  "transfers (removePending m i) = transfers m" "history (removePending m i) = history m"
  "next_ref (removePending m i) = next_ref m" "pending (removePending m i) = (pending m)(i := None)"
  by (auto simp: removePending_def Let_def split: option.splits prod.splits)

lemma transfer_removePending [simp]: "pe_transfer (entries (removePending m i) r) = pe_transfer (entries m r)"
proof (cases "pending m i")
  case (Some q)
  let ?k = "pe_heapIdx (entries m q)"
  obtain h st where hs: "(if ?k < length (expiry m) \<and> expiry m ! ?k = q then heap_Remove (expiry m, entries m) ?k
     else (expiry m, entries m)) = (h, st)" by fastforce
  then have "pe_transfer (st r) = pe_transfer (entries m r)"
    by (metis snd_conv transfer_heap_Remove)
  with hs Some show ?thesis by (simp add: removePending_def Let_def)
qed (simp add: removePending_def)

lemma hold_removePending: "hold_at (removePending m i) = (hold_at m)(i := None)"
  by (auto simp: hold_at_def)

lemma pend_ok_removePending: "pend_ok m \<Longrightarrow> pend_ok (removePending m i)"
  by (auto simp: pend_ok_def)

lemma subtract_reduce: "subtractPendingAmount p x = reduce_hold p x"
  by (simp add: subtractPendingAmount_def reduce_hold_def)

lemma settle_hold_frame [simp]:
  "accounts (settle_hold m i r x) = accounts m" "index (settle_hold m i r x) = index m" "clock (settle_hold m i r x) = clock m"
  "transfers (settle_hold m i r x) = transfers m" "history (settle_hold m i r x) = history m"
  "next_ref (settle_hold m i r x) = next_ref m"
  by (simp_all add: settle_hold_def Let_def)

lemma pend_ok_distinct: "\<lbrakk> pend_ok m; pending m i = Some r; pending m j = Some r \<rbrakk> \<Longrightarrow> i = j"
  by (auto simp: pend_ok_def)

lemma hold_settle_hold:
  assumes ok: "pend_ok m" and r: "pending m i = Some r"
  shows "hold_at (settle_hold m i r x) = (hold_at m)(i :=
      (if Amount (pe_transfer (entries m r)) = x then None else Some (reduce_hold (pe_transfer (entries m r)) x)))"
proof -
  let ?p = "pe_transfer (entries m r)"
  let ?st = "(entries m)(r := (entries m r)\<lparr>pe_transfer := reduce_hold ?p x\<rparr>)"
  have "hold_at (m\<lparr>entries := ?st\<rparr>) j = ((hold_at m)(i \<mapsto> reduce_hold ?p x)) j" for j
    using pend_ok_distinct [OF ok r, of j] r by (cases "pending m j") (auto simp: hold_at_def)
  then show ?thesis by (simp add: settle_hold_def Let_def hold_removePending Cmp_eq subtract_reduce fun_eq_iff)
qed

lemma pend_ok_settle_hold: "\<lbrakk> pend_ok m; pending m i = Some r \<rbrakk> \<Longrightarrow> pend_ok (settle_hold m i r x)"
  by (auto simp: settle_hold_def Let_def pend_ok_removePending) (auto simp: pend_ok_def subtract_reduce)

lemma recordTransfer_frame [simp]:
  "accounts (recordTransfer m t) = accounts m" "index (recordTransfer m t) = index m" "clock (recordTransfer m t) = clock m"
  "pending (recordTransfer m t) = pending m" "expiry (recordTransfer m t) = expiry m" "entries (recordTransfer m t) = entries m"
  "next_ref (recordTransfer m t) = next_ref m" "transfers (recordTransfer m t) = (transfers m)(tr_ID t \<mapsto> t)"
  by (simp_all add: recordTransfer_def Let_def)

lemma view_cong:
  "\<lbrakk> accounts m' = accounts m; index m' = index m \<rbrakk> \<Longrightarrow> account_at m' = account_at m"
  "\<lbrakk> accounts m' = accounts m; index m' = index m \<rbrakk> \<Longrightarrow> index_ok m' = index_ok m"
  "\<lbrakk> pending m' = pending m; entries m' = entries m \<rbrakk> \<Longrightarrow> hold_at m' = hold_at m"
  "\<lbrakk> pending m' = pending m; entries m' = entries m; next_ref m' = next_ref m \<rbrakk> \<Longrightarrow> pend_ok m' = pend_ok m"
  by (simp_all add: account_at_def index_ok_def pend_ok_def fun_eq_iff hold_at_def)

lemma recordTransfer_view [simp]:
  "account_at (recordTransfer m t) = account_at m" "hold_at (recordTransfer m t) = hold_at m"
  "index_ok (recordTransfer m t) = index_ok m" "pend_ok (recordTransfer m t) = pend_ok m"
  by (rule view_cong; simp)+

subsection \<open>ApplyTransferState implements the specification\<close>

lemma invalidFlags_flags_ok: "flags_ok t \<longleftrightarrow> \<not> hasUnknownFlags t \<and> \<not> invalidFlags t"
  by (simp add: flags_ok_def invalidFlags_def)

lemma checkParties_can_move: "checkParties d c t = None \<longleftrightarrow> can_move d c t"
  by (auto simp: checkParties_def can_move_def)

lemma checkFunds_funds_ok: "isOk (checkFunds d t) \<longleftrightarrow> funds_ok d t"
  by (auto simp: checkFunds_def funds_ok_def isOk_def split: sum.splits if_splits)

text \<open>When a plain or pending transfer passes the check, the accounts and their conditions
  are as the specification asks; when it does not, the specification rejects it too.\<close>

lemma checkTransfer_new:
  assumes ok: "index_ok m" and new: "\<not> isPost t" "\<not> isVoid t"
  shows "isOk (checkTransfer m t) \<longleftrightarrow> flags_ok t \<and> \<not> IsZero (Amount t) \<and> DebitAccountID t \<noteq> CreditAccountID t \<and>
     (\<exists>d c. account_at m (DebitAccountID t) = Some d \<and> account_at m (CreditAccountID t) = Some c \<and>
        can_move d c t \<and> funds_ok d t)"
proof -
  have at: "accounts m ! the (index m i) = a" if "account_at m i = Some a" for i a
    using that by (auto simp: account_at_def)
  show ?thesis
    using new at checkParties_can_move
    by (auto simp: checkTransfer_def invalidFlags_flags_ok Get_account_at [OF ok]
        simp flip: checkFunds_funds_ok checkParties_can_move split: option.splits)
qed

lemma checkTransfer_settle:
  assumes "isPost t \<or> isVoid t"
  shows "checkTransfer m t = Inr x \<longleftrightarrow> flags_ok t \<and> (\<exists>p. hold_at m (tr_ID t) = Some p \<and>
     (tr_Ledger t = 0 \<or> tr_Ledger t = tr_Ledger p) \<and>
     (if isPost t then x = post_amount t p \<and> \<not> Cmp x (Amount p) > 0 else x = Amount p))"
  using assms
  by (auto simp: checkTransfer_def checkSettlement_def invalidFlags_flags_ok hold_at_def post_amount_def Let_def Cmp_greater
      split: option.splits if_splits)

lemma refines_pairE:
  assumes "refines_pair m r s"
  obtains (err) m' e where "s = None" "r = (m', Some e)"
  | (ok) m' s' where "s = Some s'" "r = (m', None)" "index_ok m'" "same_but_accounts m m'" "book_of m' = s'"
  using assms by (cases r; cases "snd r"; cases s) (auto simp: refines_pair_def)

text \<open>\<open>implements m r s\<close>: a step that returned \<open>r\<close> did what the specification's result \<open>s\<close>
  says.\<close>

definition implements :: "account_manager \<Rightarrow> am_result \<Rightarrow> book option \<Rightarrow> bool" where
  "implements m r s \<longleftrightarrow>
     (case s of None \<Rightarrow> snd r \<noteq> None | Some s' \<Rightarrow> \<exists>m'. r = (m', None) \<and> am_ok m' \<and> book_of m' = s')"

lemma implements_finish:
  assumes pair: "refines_pair m r s" and pend: "pend_ok m"
    and fin: "\<And>m1. \<lbrakk> index_ok m1; pend_ok m1; same_but_accounts m m1 \<rbrakk> \<Longrightarrow>
      accounts (F m1) = accounts m1 \<and> index (F m1) = index m1 \<and> pend_ok (F m1) \<and> hold_at (F m1) = H (hold_at m1)"
  shows "implements m (andThen r (\<lambda>m1. (F m1, None))) (Option.bind s (\<lambda>s1. Some (s1\<lparr>hold := H (hold s1)\<rparr>)))"
  using pair
proof (cases rule: refines_pairE)
  case (ok m1 s1)
  have p1: "pend_ok m1" using pend same_but_accountsD [OF ok(4)] by (simp add: pend_ok_def)
  note f = fin [OF ok(3) p1 ok(4)]
  have "account_at (F m1) = account_at m1" "index_ok (F m1)" using f view_cong(1,2) [of "F m1" m1] ok(3) by simp_all
  with f ok show ?thesis by (auto simp: implements_def am_ok_def book_of_def)
qed (simp add: implements_def)

lemma ApplyTransferState_post:
  assumes ok: "am_ok m" and p: "isPost t" and r: "pending m (tr_ID t) = Some r"
    and chk: "checkTransfer m t = Inr x"
  shows "implements m (ApplyTransferState m t) (spec_post (book_of m) t (pe_transfer (entries m r)))"
proof -
  let ?p = "pe_transfer (entries m r)"
  have hold: "hold_at m (tr_ID t) = Some ?p" using r by (simp add: hold_at_def)
  from chk p hold have x: "x = post_amount t ?p" "\<not> Cmp x (Amount ?p) > 0" by (auto simp: checkTransfer_settle)
  let ?F = "\<lambda>m1. recordTransfer (settle_hold m1 (tr_ID t) r x) (fill_from ?p t)"
  let ?H = "\<lambda>h. h(tr_ID t := (if Cmp (Amount ?p) x = 0 then None else Some (reduce_hold ?p x)))"
  have "implements m (andThen (movePending m ?p x) (\<lambda>m1. (?F m1, None)))
     (Option.bind (upd_pair (DebitAccountID ?p) (debit_settle x) (CreditAccountID ?p) (credit_settle x) (book_of m))
        (\<lambda>s1. Some (s1\<lparr>hold := ?H (hold s1)\<rparr>)))"
  proof (rule implements_finish [OF movePending_refines])
    fix m1 assume m1: "index_ok m1" "pend_ok m1" "same_but_accounts m m1"
    then have "pending m1 (tr_ID t) = Some r" "entries m1 = entries m" using same_but_accountsD r by auto
    with m1 show "accounts (?F m1) = accounts m1 \<and> index (?F m1) = index m1 \<and> pend_ok (?F m1) \<and> hold_at (?F m1) = ?H (hold_at m1)"
      by (simp add: pend_ok_settle_hold hold_settle_hold Cmp_eq)
  qed (use ok in \<open>auto simp: am_ok_def\<close>)
  moreover have "ApplyTransferState m t = andThen (movePending m ?p x) (\<lambda>m1. (?F m1, None))"
    using chk p r by (simp add: ApplyTransferState_def Let_def)
  ultimately show ?thesis by (simp only: spec_post_def Let_def x(1) [symmetric] x(2) if_False)
qed

lemma ApplyTransferState_void:
  assumes ok: "am_ok m" and v: "isVoid t" "\<not> isPost t" and r: "pending m (tr_ID t) = Some r"
    and chk: "checkTransfer m t = Inr x"
  shows "implements m (ApplyTransferState m t) (spec_void (book_of m) t (pe_transfer (entries m r)))"
proof -
  let ?p = "pe_transfer (entries m r)"
  let ?F = "\<lambda>m1. recordTransfer (removePending m1 (tr_ID t)) (fill_from ?p t)"
  have "implements m (andThen (releasePending m ?p) (\<lambda>m1. (?F m1, None)))
     (Option.bind (spec_release (book_of m) ?p) (\<lambda>s1. Some (s1\<lparr>hold := (hold s1)(tr_ID t := None)\<rparr>)))"
    by (rule implements_finish [OF releasePending_refines])
       (use ok in \<open>auto simp: am_ok_def pend_ok_removePending hold_removePending\<close>)
  then show ?thesis using chk v r by (simp add: ApplyTransferState_def spec_void_def Let_def)
qed

lemma andThen_assoc: "andThen (andThen r f) g = andThen r (\<lambda>m. andThen (f m) g)"
  by (cases r; cases "snd r") auto

lemma ApplyTransferState_new:
  assumes ok: "am_ok m" and new: "\<not> isPost t" "\<not> isVoid t" and chk: "checkTransfer m t = Inr x"
  shows "implements m (ApplyTransferState m t) (spec_new (book_of m) t)"
proof -
  have idx: "index_ok m" and pend: "pend_ok m" using ok by (auto simp: am_ok_def)
  from chk have "isOk (checkTransfer m t)" by simp
  with checkTransfer_new [OF idx new] obtain d c where dc: "account_at m (DebitAccountID t) = Some d"
    "account_at m (CreditAccountID t) = Some c" "can_move d c t" "funds_ok d t" "\<not> IsZero (Amount t)"
    "DebitAccountID t \<noteq> CreditAccountID t" by blast
  show ?thesis
  proof (cases "isPending t")
    case True
    let ?F = "\<lambda>m1. recordTransfer (register_hold m1 t) t"
    have "implements m (andThen (andThen (applyPendingDebit m (DebitAccountID t) (Amount t))
          (\<lambda>m1. applyPendingCredit m1 (CreditAccountID t) (Amount t))) (\<lambda>m1. (?F m1, None)))
       (Option.bind (upd_pair (DebitAccountID t) (debit_hold (Amount t)) (CreditAccountID t) (credit_hold (Amount t)) (book_of m))
          (\<lambda>s1. Some (s1\<lparr>hold := (hold s1)(tr_ID t \<mapsto> t)\<rparr>)))"
      by (rule implements_finish [OF applyPending_refines [OF idx] pend])
         (auto simp: pend_ok_register_hold hold_register_hold)
    then show ?thesis using chk new True dc
      by (simp add: ApplyTransferState_def spec_new_def reservePending_def andThen_assoc)
  next
    case False
    have f: "val (PostedDebits d) + val (Amount t) \<le> val (PostedCredits d)" using dc(4) False by (simp add: funds_ok_plain)
    have "implements m (andThen (postImmediate m t) (\<lambda>m1. (recordTransfer m1 t, None)))
       (Option.bind (upd_pair (DebitAccountID t) (debit_posted (Amount t)) (CreditAccountID t) (credit_posted (Amount t)) (book_of m))
          (\<lambda>s1. Some (s1\<lparr>hold := hold s1\<rparr>)))"
      by (rule implements_finish [OF postImmediate_refines [OF idx] pend]) (use dc(1) f in auto)
    then show ?thesis using chk new False dc by (simp add: ApplyTransferState_def spec_new_def)
  qed
qed

lemma ApplyTransferState_implements:
  assumes ok: "am_ok m"
  shows "implements m (ApplyTransferState m t) (spec_step (book_of m) t)"
proof (cases "checkTransfer m t")
  case (Inl e)
  have "spec_step (book_of m) t = None"
  proof (cases "isPost t \<or> isVoid t")
    case True
    then show ?thesis using Inl checkTransfer_settle [OF True, of m]
      by (fastforce simp: spec_step_def spec_post_def Let_def split: option.splits)
  next
    case False
    then show ?thesis using Inl checkTransfer_new [of m t] ok
      by (auto simp: spec_step_def spec_new_def am_ok_def split: option.splits)
  qed
  with Inl show ?thesis by (simp add: implements_def ApplyTransferState_def)
next
  case (Inr x)
  show ?thesis
  proof (cases "isPost t \<or> isVoid t")
    case True
    from checkTransfer_settle [OF True, of m x] Inr obtain p where p: "flags_ok t" "hold_at m (tr_ID t) = Some p"
      "tr_Ledger t = 0 \<or> tr_Ledger t = tr_Ledger p" by auto
    then obtain r where "pending m (tr_ID t) = Some r" "p = pe_transfer (entries m r)" by (auto simp: hold_at_def)
    with p True Inr ok show ?thesis
      using ApplyTransferState_post ApplyTransferState_void by (auto simp: spec_step_def)
  next
    case False
    then have "flags_ok t" using Inr checkTransfer_new [of m t] ok by (auto simp: am_ok_def)
    with False Inr ok show ?thesis using ApplyTransferState_new by (auto simp: spec_step_def)
  qed
qed

interpretation manager: ledger_impl_complete book_of am_ok ApplyTransferState
proof
  fix m t m' assume "am_ok m" "ApplyTransferState m t = (m', None)"
  with ApplyTransferState_implements [of m t] show "am_ok m'" "spec_step (book_of m) t = Some (book_of m')"
    by (auto simp: implements_def split: option.splits)
next
  fix m t m' e assume "am_ok m" "ApplyTransferState m t = (m', Some e)"
  with ApplyTransferState_implements [of m t] show "spec_step (book_of m) t = None"
    by (auto simp: implements_def split: option.splits)
qed

subsection \<open>The expiry queue\<close>

definition deadline :: "transfer \<Rightarrow> i64" where
  "deadline p = Timestamp p + Timeout p"

definition expired :: "i64 \<Rightarrow> transfer \<Rightarrow> bool" where
  "expired c p \<longleftrightarrow> Timeout p \<noteq> 0 \<and> sint (deadline p) \<le> sint c"

text \<open>The heap holds exactly the open holds that have a timeout, filed under their
  deadlines.\<close>

definition queue_ok :: "account_manager \<Rightarrow> bool" where
  "queue_ok m \<longleftrightarrow> heap_inv (expiry m, entries m) \<and>
     set (expiry m) = {r \<in> ran (pending m). Timeout (pe_transfer (entries m r)) \<noteq> 0} \<and>
     (\<forall>r. r \<in> set (expiry m) \<longrightarrow> pe_expires (entries m r) = deadline (pe_transfer (entries m r)))"

definition am_inv :: "account_manager \<Rightarrow> bool" where
  "am_inv m \<longleftrightarrow> am_ok m \<and> queue_ok m \<and> book_inv (book_of m)"

lemma queue_ok_cong:
  "\<lbrakk> expiry m' = expiry m; entries m' = entries m; pending m' = pending m \<rbrakk> \<Longrightarrow> queue_ok m' = queue_ok m"
  by (simp add: queue_ok_def)

lemma heap_inv_cong:
  assumes "heap_inv (h, st)" "\<And>r. r \<in> set h \<Longrightarrow> pe_expires (st' r) = pe_expires (st r) \<and> pe_heapIdx (st' r) = pe_heapIdx (st r)"
  shows "heap_inv (h, st')"
proof -
  have n: "pe_expires (st' (h ! k)) = pe_expires (st (h ! k)) \<and> pe_heapIdx (st' (h ! k)) = pe_heapIdx (st (h ! k))"
    if "k < length h" for k using assms(2) that by simp
  have "(k - 1) div 2 < length h" if "k < length h" for k using that by linarith
  with n assms(1) show ?thesis by (simp add: heap_inv_def heap_ordered_def idx_ok_def)
qed

lemma same_entriesD:
  "same_entries R st st' \<Longrightarrow> pe_transfer (st' r) = pe_transfer (st r) \<and> pe_expires (st' r) = pe_expires (st r)"
  by (simp add: same_entries_def)

lemma queue_ok_register_hold:
  assumes q: "queue_ok m" and p: "pend_ok m" and new: "pending m (tr_ID t) = None"
  shows "queue_ok (register_hold m t)"
proof -
  let ?r = "next_ref m"
  let ?e = "\<lparr>pe_transfer = t, pe_expires = (if Timeout t > 0 then Timestamp t + Timeout t else 0), pe_heapIdx = 0\<rparr>"
  let ?st = "(entries m)(?r := ?e)"
  have fresh: "?r \<notin> ran (pending m)" using p by (auto simp: pend_ok_def ran_def)
  then have out: "?r \<notin> set (expiry m)" using q by (auto simp: queue_ok_def)
  have inv: "heap_inv (expiry m, ?st)"
    by (rule heap_inv_cong [of _ "entries m"]) (use q out in \<open>auto simp: queue_ok_def\<close>)
  define hs where "hs = (if Timeout t > 0 then heap_Push (expiry m, ?st) ?r else (expiry m, ?st))"
  have push: "heap_inv hs" "set (fst hs) = (if Timeout t > 0 then insert ?r (set (expiry m)) else set (expiry m))"
    "pe_transfer (snd hs r) = pe_transfer (?st r) \<and> pe_expires (snd hs r) = pe_expires (?st r)" for r
    using heap_Push_inv [OF inv, of ?r] out inv same_entriesD [of _ ?st "snd (heap_Push (expiry m, ?st) ?r)" r]
    by (auto simp: hs_def)
  have reg: "register_hold m t = m\<lparr>expiry := fst hs, entries := snd hs, next_ref := Suc ?r, pending := (pending m)(tr_ID t \<mapsto> ?r)\<rparr>"
    by (simp add: register_hold_def Let_def hs_def split: prod.splits)
  have mem: "set (expiry m) = {r \<in> ran (pending m). Timeout (pe_transfer (entries m r)) \<noteq> 0}"
    and due: "\<And>r. r \<in> set (expiry m) \<Longrightarrow> pe_expires (entries m r) = deadline (pe_transfer (entries m r))"
    using q by (auto simp: queue_ok_def)
  have pend: "ran ((pending m)(tr_ID t \<mapsto> ?r)) = insert ?r (ran (pending m))"
    using new by (rule ran_map_upd)
  show ?thesis
    unfolding queue_ok_def reg using push(1) due fresh
    by (auto simp: push(2,3) pend mem deadline_def word_gt_0 simp del: fun_upd_apply) (auto split: if_splits)
qed

lemma ran_delete:
  assumes "pend_ok m" "pending m i = Some r"
  shows "ran ((pending m)(i := None)) = ran (pending m) - {r}"
proof (rule set_eqI)
  fix q
  have "(\<exists>j. j \<noteq> i \<and> pending m j = Some q) \<longleftrightarrow> (\<exists>j. pending m j = Some q) \<and> q \<noteq> r"
    using pend_ok_distinct [OF assms] assms(2) by (metis option.inject)
  then show "q \<in> ran ((pending m)(i := None)) \<longleftrightarrow> q \<in> ran (pending m) - {r}" by (auto simp: ran_def)
qed

lemma queue_ok_removePending:
  assumes q: "queue_ok m" and p: "pend_ok m"
  shows "queue_ok (removePending m i)"
proof (cases "pending m i")
  case None
  then show ?thesis using q by (simp add: removePending_def)
next
  case (Some r)
  let ?k = "pe_heapIdx (entries m r)"
  define hs where "hs = (if ?k < length (expiry m) \<and> expiry m ! ?k = r then heap_Remove (expiry m, entries m) ?k
     else (expiry m, entries m))"
  have inv: "heap_inv (expiry m, entries m)" using q by (simp add: queue_ok_def)
  have mem: "set (expiry m) = {r \<in> ran (pending m). Timeout (pe_transfer (entries m r)) \<noteq> 0}"
    and due: "\<And>r. r \<in> set (expiry m) \<Longrightarrow> pe_expires (entries m r) = deadline (pe_transfer (entries m r))"
    using q by (auto simp: queue_ok_def)
  have at: "?k < length (expiry m) \<and> expiry m ! ?k = r" if "r \<in> set (expiry m)"
    using that inv by (auto simp: heap_inv_def idx_ok_def in_set_conv_nth)
  have rem: "heap_inv hs" "set (fst hs) = set (expiry m) - {r}"
    "pe_transfer (snd hs r') = pe_transfer (entries m r') \<and> pe_expires (snd hs r') = pe_expires (entries m r')" for r'
    using heap_Remove_inv [OF inv, of ?k] inv at same_entriesD [of _ "entries m" "snd (heap_Remove (expiry m, entries m) ?k)" r']
    by (auto simp: hs_def)
  have eq: "removePending m i = m\<lparr>expiry := fst hs, entries := snd hs, pending := (pending m)(i := None)\<rparr>"
    using Some by (simp add: removePending_def Let_def hs_def split: prod.splits)
  have pend: "ran ((pending m)(i := None)) = ran (pending m) - {r}" by (rule ran_delete [OF p Some])
  show ?thesis
    unfolding queue_ok_def eq using rem(1) due by (simp add: rem(2,3) pend) (use mem in auto)
qed

lemma queue_ok_settle_hold:
  assumes q: "queue_ok m" and p: "pend_ok m"
  shows "queue_ok (settle_hold m i r x)"
proof -
  let ?p = "pe_transfer (entries m r)"
  let ?st = "(entries m)(r := (entries m r)\<lparr>pe_transfer := reduce_hold ?p x\<rparr>)"
  have "heap_inv (expiry m, ?st)" by (rule heap_inv_cong [of _ "entries m"]) (use q in \<open>auto simp: queue_ok_def\<close>)
  then have "queue_ok (m\<lparr>entries := ?st\<rparr>)" using q by (auto simp: queue_ok_def deadline_def)
  then show ?thesis using queue_ok_removePending [OF q p] by (simp add: settle_hold_def Let_def subtract_reduce)
qed

subsection \<open>The full invariant\<close>

lemma queue_ok_same_but_accounts: "same_but_accounts m m' \<Longrightarrow> queue_ok m' = queue_ok m"
  by (rule queue_ok_cong) (simp_all add: same_but_accountsD)

lemma pend_ok_same_but_accounts: "same_but_accounts m m' \<Longrightarrow> pend_ok m' = pend_ok m"
  by (rule view_cong) (simp_all add: same_but_accountsD)

lemma andThen_SomeE:
  assumes "andThen r f = (m', None)"
  obtains m1 where "r = (m1, None)" "f m1 = (m', None)"
  using assms by (cases r; cases "snd r") auto

lemma queue_ok_recordTransfer [simp]: "queue_ok (recordTransfer m t) = queue_ok m"
  by (rule queue_ok_cong) simp_all

lemma refines_pair_frame: "\<lbrakk> refines_pair m r s; r = (m1, None) \<rbrakk> \<Longrightarrow> same_but_accounts m m1"
  by (auto simp: refines_pair_def split: option.splits)

lemma queue_ok_ApplyTransferState:
  assumes ok: "am_ok m" and q: "queue_ok m" and fresh: "isPending t \<longrightarrow> pending m (tr_ID t) = None"
    and r: "ApplyTransferState m t = (m', None)"
  shows "queue_ok m'"
proof -
  have idx: "index_ok m" and p: "pend_ok m" using ok by (simp_all add: am_ok_def)
  have keep: "queue_ok m1 \<and> pend_ok m1" if "same_but_accounts m m1" for m1
    using that q p queue_ok_same_but_accounts pend_ok_same_but_accounts by blast
  from r obtain x where chk: "checkTransfer m t = Inr x"
    by (auto simp: ApplyTransferState_def split: sum.splits)
  consider "isPost t" | "isVoid t" "\<not> isPost t" | "isPending t" "\<not> isPost t" "\<not> isVoid t"
    | "\<not> isPost t" "\<not> isVoid t" "\<not> isPending t" by blast
  then show ?thesis
  proof cases
    case 1
    with r chk obtain k where k: "pending m (tr_ID t) = Some k" by (auto simp: ApplyTransferState_def split: option.splits)
    with r chk 1 obtain m1 where m1: "movePending m (pe_transfer (entries m k)) x = (m1, None)"
      "m' = recordTransfer (settle_hold m1 (tr_ID t) k x) (fill_from (pe_transfer (entries m k)) t)"
      by (auto simp: ApplyTransferState_def Let_def elim!: andThen_SomeE)
    from keep [OF refines_pair_frame [OF movePending_refines [OF idx] m1(1)]]
    show ?thesis by (simp add: m1(2) queue_ok_settle_hold)
  next
    case 2
    with r chk obtain k where k: "pending m (tr_ID t) = Some k" by (auto simp: ApplyTransferState_def split: option.splits)
    with r chk 2 obtain m1 where m1: "releasePending m (pe_transfer (entries m k)) = (m1, None)"
      "m' = recordTransfer (removePending m1 (tr_ID t)) (fill_from (pe_transfer (entries m k)) t)"
      by (auto simp: ApplyTransferState_def Let_def elim!: andThen_SomeE)
    from keep [OF refines_pair_frame [OF releasePending_refines [OF idx] m1(1)]]
    show ?thesis by (simp add: m1(2) queue_ok_removePending)
  next
    case 3
    with r chk obtain m1 where
      "andThen (applyPendingDebit m (DebitAccountID t) (Amount t)) (\<lambda>m1. applyPendingCredit m1 (CreditAccountID t) (Amount t)) = (m1, None)"
      and m': "m' = recordTransfer (register_hold m1 t) t"
      by (auto simp: ApplyTransferState_def reservePending_def simp flip: andThen_assoc elim!: andThen_SomeE)
    then have s1: "same_but_accounts m m1" using refines_pair_frame applyPending_refines [OF idx] by blast
    then have "pending m1 (tr_ID t) = None" using fresh 3(1) same_but_accountsD(3) [OF s1] by simp
    with keep [OF s1] show ?thesis by (simp add: m' queue_ok_register_hold)
  next
    case 4
    with r chk obtain m1 where m1: "postImmediate m t = (m1, None)" "m' = recordTransfer m1 t"
      by (auto simp: ApplyTransferState_def elim!: andThen_SomeE)
    from chk have "isOk (checkTransfer m t)" by simp
    with checkTransfer_new [OF idx 4(1,2)] obtain d where
      "account_at m (DebitAccountID t) = Some d" "funds_ok d t" by blast
    with 4 have "refines_pair m (postImmediate m t)
       (upd_pair (DebitAccountID t) (debit_posted (Amount t)) (CreditAccountID t) (credit_posted (Amount t)) (book_of m))"
      by (intro postImmediate_refines [OF idx]) (auto simp: funds_ok_plain)
    from keep [OF refines_pair_frame [OF this m1(1)]] show ?thesis by (simp add: m1(2))
  qed
qed

lemma am_inv_ApplyTransferState:
  assumes inv: "am_inv m" and fresh: "isPending t \<longrightarrow> pending m (tr_ID t) = None"
    and r: "ApplyTransferState m t = (m', None)"
  shows "am_inv m'"
  using inv manager.step_inv [of m t m'] manager.step_sound [of m t m'] queue_ok_ApplyTransferState [OF _ _ fresh r]
    book_inv_spec_step [of "book_of m" t] r by (simp add: am_inv_def)

lemma am_inv_new: "am_inv NewAccountManager"
  by (simp add: am_inv_def am_ok_def index_ok_def pend_ok_def queue_ok_def heap_inv_def heap_ordered_def idx_ok_def
      book_inv_def holds_ok_def covered_def NewAccountManager_def account_at_def hold_at_def dom_def)

subsection \<open>Creating accounts\<close>

lemma Create_fresh:
  assumes "account_at m (acc_ID a) = None"
  shows "Create m a = (m\<lparr>accounts := accounts m @ [a], index := (index m)(acc_ID a \<mapsto> length (accounts m))\<rparr>, None)"
  using assms by (simp add: Create_def account_at_def)

lemma Create_ok:
  assumes ok: "index_ok m" and c: "Create m a = (m', None)"
  shows "index_ok m' \<and> account_at m' = (account_at m)(acc_ID a \<mapsto> a) \<and> account_at m (acc_ID a) = None \<and>
     pending m' = pending m \<and> entries m' = entries m \<and> expiry m' = expiry m \<and> next_ref m' = next_ref m \<and>
     clock m' = clock m \<and> transfers m' = transfers m \<and> history m' = history m"
proof -
  from c have new: "index m (acc_ID a) = None"
    and m': "m' = m\<lparr>accounts := accounts m @ [a], index := (index m)(acc_ID a \<mapsto> length (accounts m))\<rparr>"
    by (auto simp: Create_def split: option.splits)
  have "index_ok m'"
    unfolding index_ok_def
  proof (intro conjI allI impI, goal_cases)
    case (1 i k) then show ?case using index_okD [OF ok, of i k] by (auto simp: m' split: if_splits)
  next
    case (2 i k) then show ?case using index_okD [OF ok, of i k] by (auto simp: m' nth_append split: if_splits)
  next
    case (3 k)
    then consider "k = length (accounts m)" | "k < length (accounts m)" by (auto simp: m' less_Suc_eq)
    then show ?case
    proof cases
      case 2
      then have "index m (acc_ID (accounts m ! k)) = Some k" using ok by (simp add: index_ok_def)
      moreover from this new have "acc_ID (accounts m ! k) \<noteq> acc_ID a" by auto
      ultimately show ?thesis using 2 by (simp add: m' nth_append)
    qed (simp add: m')
  qed
  moreover have "account_at m' = (account_at m)(acc_ID a \<mapsto> a)"
    using index_okD [OF ok]
    by (auto simp: m' account_at_def fun_eq_iff nth_append map_option_case split: option.split)
  ultimately show ?thesis using new by (simp add: m' account_at_def)
qed

lemma reserved_unknown:
  assumes "holds_ok s" "acct s i = None"
  shows "reserved DebitAccountID i s = 0" "reserved CreditAccountID i s = 0"
proof -
  have "hold s h = Some p \<Longrightarrow> DebitAccountID p \<noteq> i \<and> CreditAccountID p \<noteq> i" for h p
    using assms unfolding holds_ok_def hold_ok_def by (metis option.distinct(1))
  then show "reserved DebitAccountID i s = 0" "reserved CreditAccountID i s = 0"
    by (auto simp: dom_sum_def held_def intro!: sum.neutral)
qed

lemma book_inv_create:
  assumes inv: "book_inv s" and new: "acct s (acc_ID a) = None"
  shows "book_inv (s\<lparr>acct := (acct s)(acc_ID a \<mapsto> a)\<rparr>)"
proof -
  let ?s = "s\<lparr>acct := (acct s)(acc_ID a \<mapsto> a)\<rparr>"
  have ok: "holds_ok s" using inv by (simp add: book_inv_def)
  have "holds_ok ?s" using ok new by (fastforce simp: holds_ok_def hold_ok_def)
  moreover have "covered ?s"
    using inv reserved_unknown [OF ok new] by (auto simp: covered_def book_inv_def)
  ultimately show ?thesis using inv by (simp add: book_inv_def)
qed

lemma am_inv_Create:
  assumes inv: "am_inv m" and c: "Create m a = (m', None)"
  shows "am_inv m'"
proof -
  have "index_ok m" using inv by (simp add: am_inv_def am_ok_def)
  note k = Create_ok [OF this c]
  have "book_of m' = (book_of m)\<lparr>acct := (account_at m)(acc_ID a \<mapsto> a)\<rparr>"
    using k view_cong(3) [of m' m] by (simp add: book_of_def)
  with k inv book_inv_create [of "book_of m" a] view_cong(4) [of m' m] queue_ok_cong [of m' m]
  show ?thesis by (simp add: am_inv_def am_ok_def)
qed

subsection \<open>Closing expired holds\<close>

text \<open>Closing a hold on expiry has the effect of voiding it; \<open>void_of p\<close> is the transfer
  that would do so.\<close>

definition void_of :: "transfer \<Rightarrow> transfer" where
  "void_of p = p\<lparr>tr_Flags := TransferFlagVoidPending, tr_Ledger := 0\<rparr>"

lemma void_of_simps [simp]:
  "isVoid (void_of p)" "\<not> isPost (void_of p)" "\<not> isPending (void_of p)" "tr_ID (void_of p) = tr_ID p" "tr_Ledger (void_of p) = 0"
  "flags_ok (void_of p)"
  by (simp_all add: void_of_def isVoid_def isPost_def isPending_def flags_ok_def hasUnknownFlags_def knownFlags_def)

definition pop_top :: "account_manager \<Rightarrow> account_manager \<times> transfer" where
  "pop_top m =
     (let (h, st) = heap_Pop (expiry m, entries m); top = pe_transfer (st (expiry m ! 0))
      in (m\<lparr>expiry := h, entries := st, pending := (pending m)(tr_ID top := None)\<rparr>, top))"

lemma CloseExpired_pop:
  "CloseExpired m =
     (if expiry m = [] \<or> sint (pe_expires (entries m (expiry m ! 0))) > sint (clock m) then m
      else CloseExpired (fst (releasePending (fst (pop_top m)) (snd (pop_top m)))))"
  by (subst CloseExpired.simps) (simp add: pop_top_def Let_def split: prod.splits)

lemma pop_top_ok:
  assumes inv: "am_inv m" and ne: "expiry m \<noteq> []"
  defines "r \<equiv> expiry m ! 0"
  defines "p \<equiv> pe_transfer (entries m r)"
  shows "snd (pop_top m) = p" "hold_at m (tr_ID p) = Some p" "pe_expires (entries m r) = deadline p" "Timeout p \<noteq> 0"
    "queue_ok (fst (pop_top m))" "am_ok (fst (pop_top m))"
    "book_of (fst (pop_top m)) = (book_of m)\<lparr>hold := (hold_at m)(tr_ID p := None)\<rparr>"
    "clock (fst (pop_top m)) = clock m" "length (expiry (fst (pop_top m))) < length (expiry m)"
    "transfers (fst (pop_top m)) = transfers m" "history (fst (pop_top m)) = history m"
proof -
  obtain h st where pop: "heap_Pop (expiry m, entries m) = (h, st)" by fastforce
  have hi: "heap_inv (expiry m, entries m)" and mem: "set (expiry m) = {r \<in> ran (pending m). Timeout (pe_transfer (entries m r)) \<noteq> 0}"
    and due: "\<And>r. r \<in> set (expiry m) \<Longrightarrow> pe_expires (entries m r) = deadline (pe_transfer (entries m r))"
    and pok: "pend_ok m" and iok: "index_ok m"
    using inv by (auto simp: am_inv_def queue_ok_def am_ok_def)
  have r: "r \<in> set (expiry m)" using ne by (simp add: r_def)
  then obtain i where i: "pending m i = Some r" using mem by (auto simp: ran_def)
  then have ip: "i = tr_ID p" using pok by (auto simp: pend_ok_def p_def)
  have P: "heap_inv (h, st)" "set h = set (expiry m) - {r}"
    using heap_Pop_inv [of "(expiry m, entries m)"] hi ne pop by (simp_all add: r_def)
  have T: "pe_transfer (st q) = pe_transfer (entries m q)" "pe_expires (st q) = pe_expires (entries m q)" for q
    using heap_Pop_inv [of "(expiry m, entries m)"] hi ne pop same_entriesD [of _ "entries m" st q] by auto
  have eq: "pop_top m = (m\<lparr>expiry := h, entries := st, pending := (pending m)(tr_ID p := None)\<rparr>, p)"
    by (simp add: pop_top_def pop Let_def T r_def p_def)
  show "snd (pop_top m) = p" "clock (fst (pop_top m)) = clock m" "transfers (fst (pop_top m)) = transfers m"
    "history (fst (pop_top m)) = history m" by (simp_all add: eq)
  show "hold_at m (tr_ID p) = Some p" using i ip by (simp add: hold_at_def p_def)
  show "pe_expires (entries m r) = deadline p" using due [OF r] by (simp add: p_def)
  show "Timeout p \<noteq> 0" using r mem by (simp add: p_def)
  have ran: "ran ((pending m)(tr_ID p := None)) = ran (pending m) - {r}" using ran_delete [OF pok i] ip by simp
  show "queue_ok (fst (pop_top m))" unfolding eq queue_ok_def using P T due by (simp add: ran) (use mem in auto)
  show "am_ok (fst (pop_top m))" unfolding eq am_ok_def using iok pok by (auto simp: T index_ok_def pend_ok_def)
  show "book_of (fst (pop_top m)) = (book_of m)\<lparr>hold := (hold_at m)(tr_ID p := None)\<rparr>"
    unfolding eq book_of_def by (auto simp: account_at_def hold_at_def T fun_eq_iff)
  show "length (expiry (fst (pop_top m))) < length (expiry m)"
    using length_heap_Pop [of "(expiry m, entries m)"] ne by (simp add: eq pop)
qed

text \<open>One round of the loop: the hold on top is voided, and that cannot fail.\<close>

lemma spec_release_hold_upd:
  "spec_release (s\<lparr>hold := H\<rparr>) p = map_option (\<lambda>s'. s'\<lparr>hold := H\<rparr>) (spec_release s p)"
  by (auto simp: spec_release_def upd_pair_def upd_acct_def split: option.splits bind_splits)

lemma spec_release_hold: "spec_release s p = Some s' \<Longrightarrow> hold s' = hold s"
  by (auto simp: spec_release_def upd_pair_def upd_acct_def bind_eq_Some_conv split: option.splits)

lemma close_one:
  assumes inv: "am_inv m" and ne: "expiry m \<noteq> []"
  defines "p \<equiv> pe_transfer (entries m (expiry m ! 0))"
  obtains m2 where "releasePending (fst (pop_top m)) (snd (pop_top m)) = (m2, None)" "am_inv m2"
    "spec_step (book_of m) (void_of p) = Some (book_of m2)" "clock m2 = clock m"
    "transfers m2 = transfers m" "history m2 = history m" "length (expiry m2) < length (expiry m)"
proof -
  note top = pop_top_ok [OF inv ne, folded p_def]
  let ?m1 = "fst (pop_top m)" and ?H = "(hold_at m)(tr_ID p := None)"
  have binv: "book_inv (book_of m)" using inv by (simp add: am_inv_def)
  obtain s1 where s1: "spec_release (book_of m) p = Some s1"
    using spec_release_live [OF binv, of "tr_ID p" p] top(2) by auto
  then have rel: "spec_release (book_of ?m1) p = Some (s1\<lparr>hold := ?H\<rparr>)" by (simp add: top(7) spec_release_hold_upd)
  have iok: "index_ok ?m1" using top(6) by (simp add: am_ok_def)
  with releasePending_refines [OF this, of p] rel obtain m2 where m2: "releasePending ?m1 p = (m2, None)" "index_ok m2"
    "same_but_accounts ?m1 m2" "book_of m2 = s1\<lparr>hold := ?H\<rparr>" by (auto simp: refines_pair_def)
  have void: "spec_step (book_of m) (void_of p) = Some (book_of m2)"
    using top(2) s1 spec_release_hold [OF s1] by (simp add: spec_step_def spec_void_def m2(4))
  have "am_inv m2"
    unfolding am_inv_def am_ok_def
    using m2(2,3) top(5,6) book_inv_spec_step [OF void binv] queue_ok_same_but_accounts pend_ok_same_but_accounts
    by (auto simp: am_ok_def)
  with m2 void top show thesis
    by (intro that [of m2]) (simp_all add: same_but_accountsD [OF m2(3)])
qed

text \<open>Posted balances, flags and identity of the accounts are not touched by voids.\<close>

definition posted_part :: "account \<Rightarrow> account" where
  "posted_part a = a\<lparr>PendingDebits := u128_zero, PendingCredits := u128_zero\<rparr>"

lemma void_posted:
  assumes "spec_step s t = Some s'" "isVoid t" "holds_ok s"
  shows "map_option posted_part (acct s' i) = map_option posted_part (acct s i)"
  using assms(1,3)
  by (cases rule: spec_step_cases) (use assms(2) in \<open>auto simp: moved_def release_Some_iff posted_part_def\<close>)

text \<open>The part of an account's pending balances that no open hold accounts for: a void takes
  the same amount from the balance and from what the holds reserve.\<close>

definition unreserved :: "book \<Rightarrow> ident \<Rightarrow> account \<Rightarrow> int \<times> int" where
  "unreserved s i a = (int (val (PendingDebits a)) - reserved DebitAccountID i s,
     int (val (PendingCredits a)) - reserved CreditAccountID i s)"

lemma void_unreserved:
  assumes "spec_step s t = Some s'" "isVoid t" "book_inv s"
  shows "map_option (unreserved s' i) (acct s' i) = map_option (unreserved s i) (acct s i)"
proof -
  have ok: "holds_ok s" and fin: "finite (dom (hold s))" using assms(3) by (auto simp: book_inv_def)
  from assms(1) ok show ?thesis
  proof (cases rule: spec_step_cases)
    case (void p a a' b b')
    have r: "reserved side i s' = reserved side i s - held side i p" for side
      using reserved_upd [OF fin void(6)] void(4) by simp
    show ?thesis unfolding unreserved_def r
      using void(7) by (auto simp: moved_def release_Some_iff held_def)
  qed (use assms(2) in simp_all)
qed

text \<open>What the expired holds reserve on one side of an account.\<close>

definition expired_sum :: "(transfer \<Rightarrow> ident) \<Rightarrow> ident \<Rightarrow> account_manager \<Rightarrow> int" where
  "expired_sum side i m = dom_sum (\<lambda>p. if expired (clock m) p then held side i p else 0) (hold_at m)"

lemma dom_sum_drop:
  assumes "finite (dom h)" "\<And>i. h' i = (case h i of None \<Rightarrow> None | Some p \<Rightarrow> if e p then None else Some p)"
  shows "dom_sum f h' = dom_sum f h - dom_sum (\<lambda>p. if e p then f p else 0) h"
proof -
  have "dom_sum f h' = (\<Sum>k\<in>dom h. if e (the (h k)) then 0 else f (the (h k)))"
    unfolding dom_sum_def using assms by (intro sum.mono_neutral_cong_left) (auto split: option.splits if_splits)
  also have "\<dots> = (\<Sum>k\<in>dom h. f (the (h k)) - (if e (the (h k)) then f (the (h k)) else 0))"
    by (intro sum.cong) auto
  finally show ?thesis by (simp add: dom_sum_def sum_subtractf)
qed

lemma CloseExpired_closes:
  "am_inv m \<Longrightarrow>
     am_inv (CloseExpired m) \<and> clock (CloseExpired m) = clock m \<and>
     transfers (CloseExpired m) = transfers m \<and> history (CloseExpired m) = history m \<and>
     (\<forall>i. hold_at (CloseExpired m) i =
        (case hold_at m i of None \<Rightarrow> None | Some p \<Rightarrow> if expired (clock m) p then None else Some p)) \<and>
     (\<forall>i. map_option posted_part (account_at (CloseExpired m) i) = map_option posted_part (account_at m i)) \<and>
     (\<forall>i. map_option (unreserved (book_of (CloseExpired m)) i) (account_at (CloseExpired m) i) =
        map_option (unreserved (book_of m) i) (account_at m i)) \<and>
     (\<forall>L. ledger_posted L (book_of (CloseExpired m)) = ledger_posted L (book_of m) \<and>
          ledger_pending L (book_of (CloseExpired m)) = ledger_pending L (book_of m))"
proof (induction "length (expiry m)" arbitrary: m rule: less_induct)
  case less
  note inv = less.prems
  have q: "queue_ok m" and binv: "book_inv (book_of m)" and ho: "holds_ok (book_of m)"
    using inv by (auto simp: am_inv_def book_inv_def)
  show ?case
  proof (cases "expiry m = [] \<or> sint (pe_expires (entries m (expiry m ! 0))) > sint (clock m)")
    case True
    have "\<not> expired (clock m) p" if "hold_at m i = Some p" for i p
    proof
      assume e: "expired (clock m) p"
      from that obtain r where r: "pending m i = Some r" "p = pe_transfer (entries m r)" by (auto simp: hold_at_def)
      with e q have rin: "r \<in> set (expiry m)" by (auto simp: queue_ok_def expired_def ran_def)
      then have "sint (clock m) < key (entries m) r"
        using True q expiry.none_due [of "(expiry m, entries m)" "sint (clock m)" r] by (auto simp: queue_ok_def)
      with rin q r e show False by (auto simp: queue_ok_def expired_def)
    qed
    then have "hold_at m i = (case hold_at m i of None \<Rightarrow> None | Some p \<Rightarrow> if expired (clock m) p then None else Some p)" for i
      by (auto split: option.splits)
    with True inv show ?thesis by (simp add: CloseExpired_pop [of m] fun_eq_iff)
  next
    case False
    let ?p = "pe_transfer (entries m (expiry m ! 0))"
    obtain m2 where m2: "releasePending (fst (pop_top m)) (snd (pop_top m)) = (m2, None)" "am_inv m2"
      "spec_step (book_of m) (void_of ?p) = Some (book_of m2)" "clock m2 = clock m"
      "transfers m2 = transfers m" "history m2 = history m" "length (expiry m2) < length (expiry m)"
      using close_one [OF inv] False by blast
    have top: "hold_at m (tr_ID ?p) = Some ?p" "expired (clock m) ?p"
      using pop_top_ok(2-4) [OF inv] False by (auto simp: expired_def)
    have h2: "hold_at m2 = (hold_at m)(tr_ID ?p := None)"
      using m2(3) ho by (cases rule: spec_step_cases) auto
    have "CloseExpired m = CloseExpired m2" using False m2(1) by (subst CloseExpired_pop) simp
    moreover note less.hyps [OF m2(7) m2(2), unfolded m2(4)] void_posted [OF m2(3) _ ho] spec_step_net [OF m2(3)]
      void_unreserved [OF m2(3) _ binv]
    ultimately show ?thesis using top inv by (auto simp: m2(4-6) h2 am_inv_def)
  qed
qed

lemma CloseExpired_releases:
  assumes inv: "am_inv m" and a: "account_at m i = Some a"
  shows "\<exists>a'. account_at (CloseExpired m) i = Some a' \<and>
     int (val (PendingDebits a')) = int (val (PendingDebits a)) - expired_sum DebitAccountID i m \<and>
     int (val (PendingCredits a')) = int (val (PendingCredits a)) - expired_sum CreditAccountID i m"
proof -
  note c = CloseExpired_closes [OF inv]
  have fin: "finite (dom (hold_at m))" using inv by (simp add: am_inv_def book_inv_def)
  have h: "\<And>j. hold_at (CloseExpired m) j =
      (case hold_at m j of None \<Rightarrow> None | Some p \<Rightarrow> if expired (clock m) p then None else Some p)"
    and u: "map_option (unreserved (book_of (CloseExpired m)) i) (account_at (CloseExpired m) i) =
        map_option (unreserved (book_of m) i) (account_at m i)"
    using c by blast+
  from u a obtain a' where "account_at (CloseExpired m) i = Some a'"
    "unreserved (book_of (CloseExpired m)) i a' = unreserved (book_of m) i a" by auto
  then show ?thesis using dom_sum_drop [OF fin h, of "held _ i"] by (auto simp: unreserved_def expired_sum_def)
qed

subsection \<open>Failed transfers\<close>

text \<open>With the invariant, the only errors that can leave a half-applied transfer behind are
  overflows of the 128-bit totals; every refusal by the check leaves the state as it was.\<close>

lemma release_refines_ok:
  assumes inv: "am_inv m" and h: "hold_at m i = Some p"
  shows "\<exists>m1. releasePending m p = (m1, None)"
proof -
  have "book_inv (book_of m)" and idx: "index_ok m" using inv by (simp_all add: am_inv_def am_ok_def)
  then obtain s where "spec_release (book_of m) p = Some s" using spec_release_live [of "book_of m" i p] h by auto
  with releasePending_refines [OF idx, of p] show ?thesis by (auto simp: refines_pair_def)
qed

lemma update_account_overflow:
  assumes idx: "index_ok m" and id: "\<And>a. acc_ID (fst (f a)) = acc_ID a"
    and at: "account_at m i = Some a" and f: "snd (f a) = None \<or> (\<exists>j. snd (f a) = Some (ErrBalanceOverflow j))"
  shows "snd (update_account m i f) = None \<or> (\<exists>j. snd (update_account m i f) = Some (ErrBalanceOverflow j))"
  using update_account_spec [OF idx id, of i] at f by auto

lemma update_pair_overflow:
  assumes r: "andThen (update_account m d f) (\<lambda>m1. update_account m1 c g) = (m', Some e)"
    and idx: "index_ok m" and fid: "\<And>a. acc_ID (fst (f a)) = acc_ID a" and gid: "\<And>a. acc_ID (fst (g a)) = acc_ID a"
    and d: "account_at m d = Some a" and c: "account_at m c = Some b" and dc: "d \<noteq> c"
    and f: "snd (f a) = None \<or> (\<exists>j. snd (f a) = Some (ErrBalanceOverflow j))"
    and g: "snd (g b) = None \<or> (\<exists>j. snd (g b) = Some (ErrBalanceOverflow j))"
  shows "\<exists>j. e = ErrBalanceOverflow j"
proof -
  obtain m1 where m1: "update_account m d f = (m1, snd (f a))" "index_ok m1" "account_at m1 = (account_at m)(d \<mapsto> fst (f a))"
    using update_account_spec [OF idx fid, of d] d by auto
  show ?thesis
  proof (cases "snd (f a)")
    case None
    with m1 r have "update_account m1 c g = (m', Some e)" by simp
    moreover have "account_at m1 c = Some b" using m1(3) c dc by simp
    ultimately show ?thesis using update_account_overflow [OF m1(2) gid _ g, of c] by auto
  next
    case (Some x)
    with m1 r f show ?thesis by auto
  qed
qed

lemma ApplyTransferState_errors:
  assumes inv: "am_inv m" and r: "ApplyTransferState m t = (m', Some e)"
  shows "m' = m \<and> checkTransfer m t = Inl e \<or> (\<exists>j. e = ErrBalanceOverflow j)"
proof (cases "checkTransfer m t")
  case (Inl e')
  with r show ?thesis by (simp add: ApplyTransferState_def)
next
  case (Inr x)
  have idx: "index_ok m" and binv: "book_inv (book_of m)" using inv by (simp_all add: am_inv_def am_ok_def)
  consider "isPost t" | "isVoid t" "\<not> isPost t" | "\<not> isPost t" "\<not> isVoid t" by blast
  then have "\<exists>j. e = ErrBalanceOverflow j"
  proof cases
    case 1
    with Inr checkTransfer_settle [of t m x] obtain p where p: "hold_at m (tr_ID t) = Some p" "x = post_amount t p" "val x \<le> val (Amount p)"
      by (auto simp: Cmp_greater)
    then obtain k where k: "pending m (tr_ID t) = Some k" "p = pe_transfer (entries m k)" by (auto simp: hold_at_def)
    with r 1 Inr have mv: "movePending m p x = (m', Some e)"
      by (cases "movePending m p x"; cases "snd (movePending m p x)") (auto simp: ApplyTransferState_def)
    from hold_covered [OF binv, of "tr_ID t" p] p(1) obtain a b where ab: "account_at m (DebitAccountID p) = Some a"
      "account_at m (CreditAccountID p) = Some b" "DebitAccountID p \<noteq> CreditAccountID p"
      "val (Amount p) \<le> val (PendingDebits a)" "val (Amount p) \<le> val (PendingCredits b)" by auto
    have "val x \<le> val (PendingDebits a)" "val x \<le> val (PendingCredits b)" using ab(4,5) p(3) by simp_all
    from Sub_ok [OF this(1)] Sub_ok [OF this(2)]
    have fe: "snd (settle_debit x a) = None \<or> (\<exists>j. snd (settle_debit x a) = Some (ErrBalanceOverflow j))"
      "snd (settle_credit x b) = None \<or> (\<exists>j. snd (settle_credit x b) = Some (ErrBalanceOverflow j))"
      by (auto simp: settle_debit_def settle_credit_def split: sum.splits)
    show ?thesis
      by (rule update_pair_overflow [OF mv [unfolded movePending_def] idx _ _ ab(1,2,3) fe]) (simp_all add: effect_IDs)
  next
    case 2
    with Inr checkTransfer_settle [of t m x] obtain p where p: "hold_at m (tr_ID t) = Some p" by auto
    then obtain k where k: "pending m (tr_ID t) = Some k" "p = pe_transfer (entries m k)" by (auto simp: hold_at_def)
    from release_refines_ok [OF inv p] obtain m1 where "releasePending m p = (m1, None)" by blast
    with r 2 Inr k show ?thesis by (simp add: ApplyTransferState_def)
  next
    case 3
    from Inr have "isOk (checkTransfer m t)" by simp
    with checkTransfer_new [OF idx 3] obtain d c where dc: "account_at m (DebitAccountID t) = Some d"
      "account_at m (CreditAccountID t) = Some c" "DebitAccountID t \<noteq> CreditAccountID t" "funds_ok d t" by blast
    show ?thesis
    proof (cases "isPending t")
      case True
      with r 3 Inr have "andThen (applyPendingDebit m (DebitAccountID t) (Amount t))
          (\<lambda>m1. applyPendingCredit m1 (CreditAccountID t) (Amount t)) = (m', Some e)"
        by (auto simp: ApplyTransferState_def reservePending_def andThen_def split: prod.splits option.splits)
      then show ?thesis unfolding applyPendingDebit_def applyPendingCredit_def
        by (rule update_pair_overflow [OF _ idx _ _ dc(1-3)]) (auto split: sum.splits)
    next
      case False
      with r 3 Inr have pi: "postImmediate m t = (m', Some e)"
        by (auto simp: ApplyTransferState_def andThen_def split: prod.splits option.splits)
      have "refines_at (apply_debit (DebitAccountID t) (Amount t)) (debit_posted (Amount t)) d"
        by (rule refines_at_apply_debit) (use dc(4) False in \<open>simp add: funds_ok_plain\<close>)
      then have de: "snd (apply_debit (DebitAccountID t) (Amount t) d) = None \<or> (\<exists>j. snd (apply_debit (DebitAccountID t) (Amount t) d) = Some (ErrBalanceOverflow j))"
        by (auto simp: refines_at_def apply_debit_def debit_posted_def Let_def split: sum.splits)
      show ?thesis
        by (rule update_pair_overflow [OF pi [unfolded postImmediate_def ApplyDebit_def ApplyCredit_def] idx _ _ dc(1-3) de])
           (auto simp: effect_IDs split: sum.splits)
    qed
  qed
  then show ?thesis by blast
qed

subsection \<open>Settling a hold\<close>

lemma spec_post_live:
  assumes inv: "book_inv s" and h: "hold s (tr_ID t) = Some p" and fl: "flags_ok t" "isPost t"
    and led: "tr_Ledger t = 0 \<or> tr_Ledger t = tr_Ledger p" and x: "x = post_amount t p" "val x \<le> val (Amount p)"
    and ab: "acct s (DebitAccountID p) = Some a" "acct s (CreditAccountID p) = Some b"
    and room: "val (PostedDebits a) + val x < 2 ^ 128" "val (PostedCredits b) + val x < 2 ^ 128"
  shows "\<exists>s'. spec_step s t = Some s'"
proof -
  from hold_covered [OF inv h] ab have dc: "DebitAccountID p \<noteq> CreditAccountID p"
    and le: "val x \<le> val (PendingDebits a)" "val x \<le> val (PendingCredits b)" using x(2) by fastforce+
  obtain a' where a': "debit_settle x a = Some a'"
    using Sub_ok [OF le(1)] Add_ok [OF room(1)] settle_Some_iff(1) [of x a] by metis
  obtain b' where b': "credit_settle x b = Some b'"
    using Sub_ok [OF le(2)] Add_ok [OF room(2)] settle_Some_iff(2) [of x b] by metis
  have "upd_pair (DebitAccountID p) (debit_settle x) (CreditAccountID p) (credit_settle x) s =
      Some (s\<lparr>acct := (acct s)(DebitAccountID p \<mapsto> a', CreditAccountID p \<mapsto> b')\<rparr>)"
    by (rule upd_pair_ok) (fact dc ab a' b')+
  moreover have "\<not> 0 < Cmp x (Amount p)" using x(2) by (simp add: Cmp_greater)
  ultimately show ?thesis using h fl led
    by (simp add: spec_step_def spec_post_def Let_def x(1) [symmetric])
qed

lemma spec_post_effect:
  assumes "spec_step s t = Some s'" "book_inv s" "isPost t" "hold s (tr_ID t) = Some p"
    "acct s (DebitAccountID p) = Some a" "acct s (CreditAccountID p) = Some b"
  obtains a' b' where "debit_settle (post_amount t p) a = Some a'" "credit_settle (post_amount t p) b = Some b'"
    "acct s' (DebitAccountID p) = Some a'" "acct s' (CreditAccountID p) = Some b'"
    "hold s' (tr_ID t) = (if post_amount t p = Amount p then None else Some (reduce_hold p (post_amount t p)))"
proof -
  have "holds_ok s" using assms(2) by (simp add: book_inv_def)
  with assms(1) show thesis
  proof (cases rule: spec_step_cases)
    case (post q x c c' d d')
    then show thesis using assms(4-6) by (intro that [of c' d']) (auto simp: moved_def)
  qed (use assms(3) in simp_all)
qed

lemma isOk_Balance: "isOk (Balance a) \<longleftrightarrow> val (PostedDebits a) \<le> val (PostedCredits a)"
proof (cases "Sub (PostedCredits a) (PostedDebits a)")
  case (Inl e)
  then show ?thesis using Sub_ok [of "PostedDebits a" "PostedCredits a"] by (auto simp: Balance_def)
next
  case (Inr r)
  then show ?thesis by (simp add: Balance_def) (use Inr in \<open>simp add: Sub_Inr_iff\<close>)
qed

subsection \<open>Paging through an account's transfers\<close>

lemma find_after_first: "a \<notin> set xs \<Longrightarrow> find_after a n (xs @ a # ys) = n + length xs + 1"
  by (induction xs arbitrary: n) auto

lemma AccountTransfers_cursor:
  assumes h: "history m acc = xs @ c # ys" and c: "c \<notin> set xs" "c \<noteq> zeros 16"
    and n: "n = (if limit \<le> 0 \<or> limit > int (length ys) then length ys else nat limit)"
  shows "AccountTransfers m acc c limit = List.map_filter (transfers m) (take n ys)"
proof -
  have "find_after c 0 (xs @ c # ys) = Suc (length xs)" using find_after_first [OF c(1), of 0 ys] by simp
  then show ?thesis
    by (simp add: AccountTransfers_def h c(2) slice_def n Let_def)
qed

subsection \<open>A concrete ledger\<close>

definition sample_manager :: account_manager where
  "sample_manager = fst (Create (fst (Create NewAccountManager (sample_account 1 100))) (sample_account 2 0))"

lemma sample_Create:
  "Create NewAccountManager (sample_account 1 100) = (fst (Create NewAccountManager (sample_account 1 100)), None)"
  "Create (fst (Create NewAccountManager (sample_account 1 100))) (sample_account 2 0) = (sample_manager, None)"
  unfolding sample_manager_def
  by (simp_all add: Create_def NewAccountManager_def sample_account_def ident_of_def)

lemma am_inv_sample: "am_inv sample_manager"
  using am_inv_Create [OF am_inv_Create [OF am_inv_new sample_Create(1)] sample_Create(2)] .

lemma am_ok_sample: "am_ok sample_manager"
  using am_inv_sample by (simp add: am_inv_def)

text \<open>The same ledger with an open hold of 60, expiring at time 5, on a clock that shows 9.\<close>

definition sample_hold :: transfer where
  "sample_hold = (sample_transfer 7 1 2 60 1)\<lparr>Timeout := 5\<rparr>"

definition held_manager :: account_manager where
  "held_manager = SetClock (fst (ApplyTransferState sample_manager sample_hold)) 9"

lemma sample_hold_applies: "ApplyTransferState sample_manager sample_hold = (fst (ApplyTransferState sample_manager sample_hold), None)"
proof -
  have "snd (ApplyTransferState sample_manager sample_hold) = None" by code_simp
  then show ?thesis by (simp add: prod_eq_iff)
qed

lemma am_inv_SetClock: "am_inv (SetClock m c) = am_inv m"
proof -
  have "account_at (SetClock m c) = account_at m" "index_ok (SetClock m c) = index_ok m" "hold_at (SetClock m c) = hold_at m"
    "pend_ok (SetClock m c) = pend_ok m" by (rule view_cong; simp add: SetClock_def)+
  moreover have "queue_ok (SetClock m c) = queue_ok m" by (rule queue_ok_cong) (simp_all add: SetClock_def)
  ultimately show ?thesis by (simp add: am_inv_def am_ok_def book_of_def)
qed

lemma am_inv_held: "am_inv held_manager"
proof -
  have "pending sample_manager (tr_ID sample_hold) = None" by code_simp
  with am_inv_ApplyTransferState [OF am_inv_sample _ sample_hold_applies] show ?thesis
    by (simp add: held_manager_def am_inv_SetClock)
qed

subsection \<open>Properties of the account manager\<close>

text \<open>C4: \<^verbatim>\<open>ApplyTransferState\<close>, the one apply path shared by the event loop, WAL replay and
  the replication followers, implements the specification exactly: on a state whose index
  and holds are well formed it succeeds precisely when the specification admits the
  transfer, the resulting book is the specified one, and well-formedness is kept. In
  particular what a partial settlement does not move stays on hold (\<open>reduce_hold\<close>); the
  documentation says that it is released.\<close>

theorem ApplyTransferState_refines:
  assumes "am_ok m"
  shows "case ApplyTransferState m t of
      (m', None) \<Rightarrow> am_ok m' \<and> spec_step (book_of m) t = Some (book_of m')
    | (_, Some _) \<Rightarrow> spec_step (book_of m) t = None"
  using manager.step_inv [OF assms, of t] manager.step_sound [OF assms, of t] manager.step_complete [OF assms, of t]
  by (auto split: prod.split option.split)

theorem ApplyTransferState_refines_witness:
  "snd (ApplyTransferState sample_manager (sample_transfer 7 1 2 30 0)) = None \<and>
   spec_step (book_of sample_manager) (sample_transfer 7 1 2 30 0) \<noteq> None"
proof -
  have s: "snd (ApplyTransferState sample_manager (sample_transfer 7 1 2 30 0)) = None" by code_simp
  with ApplyTransferState_refines [OF am_ok_sample, of "sample_transfer 7 1 2 30 0"] show ?thesis
    by (auto split: prod.splits option.splits)
qed

text \<open>C5: A successfully applied run of transfers keeps the book's invariant (every open hold
  is filed under its ID, joins two different existing accounts of its ledger and is covered
  by their pending balances) and conserves money: in every ledger the sum of posted credits
  minus posted debits, and of pending credits minus pending debits, is unchanged.\<close>

theorem transfers_conserve_money:
  assumes "am_inv m" "run_steps ApplyTransferState m ts = (m', None)"
  shows "book_inv (book_of m') \<and>
     ledger_posted L (book_of m') = ledger_posted L (book_of m) \<and>
     ledger_pending L (book_of m') = ledger_pending L (book_of m)"
  using manager.run_conserves [of m ts m' L] assms by (simp add: am_inv_def)

theorem transfers_conserve_money_witness:
  "ledger_posted 1 (book_of (fst (run_steps ApplyTransferState sample_manager [sample_transfer 7 1 2 30 0, sample_transfer 8 2 1 10 1]))) =
   ledger_posted 1 (book_of sample_manager)"
proof -
  let ?r = "run_steps ApplyTransferState sample_manager [sample_transfer 7 1 2 30 0, sample_transfer 8 2 1 10 1]"
  have "snd ?r = None" by code_simp
  then have "?r = (fst ?r, None)" by (simp add: prod_eq_iff)
  from transfers_conserve_money [OF am_inv_sample this, of 1] show ?thesis by blast
qed

text \<open>C7: \<^verbatim>\<open>CloseExpired\<close> terminates and closes exactly the holds whose deadline has passed on
  the logical clock, no matter how the heap is arranged: every other hold stays as it was,
  the pending debits and credits of every account fall by exactly what the expired holds reserve
  there (\<open>expired_sum\<close> adds up the amounts of the expired holds on one side of the account), no
  posted balance, flag or identity changes, both sums of every ledger are conserved, and the
  invariant of accounts, holds and heap is kept. A hold is closed as soon as the clock equals its
  deadline.\<close>

theorem CloseExpired_exact:
  assumes "am_inv m"
  shows "am_inv (CloseExpired m) \<and>
    (\<forall>i. hold_at (CloseExpired m) i =
      (case hold_at m i of None \<Rightarrow> None | Some p \<Rightarrow> if expired (clock m) p then None else Some p)) \<and>
    (\<forall>i a. account_at m i = Some a \<longrightarrow> (\<exists>a'. account_at (CloseExpired m) i = Some a' \<and>
       int (val (PendingDebits a')) = int (val (PendingDebits a)) - expired_sum DebitAccountID i m \<and>
       int (val (PendingCredits a')) = int (val (PendingCredits a)) - expired_sum CreditAccountID i m)) \<and>
    (\<forall>i. map_option posted_part (account_at (CloseExpired m) i) = map_option posted_part (account_at m i)) \<and>
    (\<forall>L. ledger_posted L (book_of (CloseExpired m)) = ledger_posted L (book_of m)) \<and>
    (\<forall>L. ledger_pending L (book_of (CloseExpired m)) = ledger_pending L (book_of m))"
  using CloseExpired_closes [OF assms] CloseExpired_releases [OF assms] by blast

theorem CloseExpired_exact_witness:
  "hold_at held_manager (ident_of 7) \<noteq> None \<and> hold_at (CloseExpired held_manager) (ident_of 7) = None \<and>
   (\<exists>a a'. account_at held_manager (ident_of 1) = Some a \<and> account_at (CloseExpired held_manager) (ident_of 1) = Some a' \<and>
      int (val (PendingDebits a')) = int (val (PendingDebits a)) - expired_sum DebitAccountID (ident_of 1) held_manager)"
proof -
  have "hold_at held_manager (ident_of 7) = Some sample_hold \<and> expired (clock held_manager) sample_hold" by code_simp
  moreover obtain a where "account_at held_manager (ident_of 1) = Some a"
  proof -
    have "account_at held_manager (ident_of 1) \<noteq> None" by code_simp
    then show thesis using that by blast
  qed
  moreover note c = CloseExpired_exact [OF am_inv_held]
  ultimately have "\<exists>a'. account_at (CloseExpired held_manager) (ident_of 1) = Some a' \<and>
      int (val (PendingDebits a')) = int (val (PendingDebits a)) - expired_sum DebitAccountID (ident_of 1) held_manager"
    by blast
  with \<open>account_at held_manager (ident_of 1) = Some a\<close> \<open>_ \<and> expired _ _\<close> c show ?thesis by simp
qed

text \<open>C29: An open hold can always be voided: the release never underflows a pending balance,
  so no hold can get stuck, and afterwards the hold is gone.\<close>

theorem hold_can_be_voided:
  assumes "am_inv m" "hold_at m (tr_ID t) = Some p" "flags_ok t" "isVoid t" "tr_Ledger t = 0 \<or> tr_Ledger t = tr_Ledger p"
  shows "\<exists>m'. ApplyTransferState m t = (m', None) \<and> hold_at m' (tr_ID t) = None"
proof -
  have ok: "am_ok m" and binv: "book_inv (book_of m)" using assms(1) by (simp_all add: am_inv_def)
  with spec_void_live [of "book_of m" t p] assms obtain s' where s': "spec_step (book_of m) t = Some s'" by auto
  with manager.run_complete [OF ok, of "[t]" s'] obtain m' where "ApplyTransferState m t = (m', None)" "book_of m' = s'"
    by (auto split: prod.splits option.splits)
  moreover have "hold s' (tr_ID t) = None"
    using s' binv assms(4) by (auto simp: book_inv_def elim!: spec_step_cases)
  ultimately show ?thesis by auto
qed

theorem hold_can_be_voided_witness:
  "\<exists>m'. ApplyTransferState held_manager (sample_transfer 7 1 2 0 4) = (m', None) \<and> hold_at m' (ident_of 7) = None"
proof -
  have "hold_at held_manager (tr_ID (sample_transfer 7 1 2 0 4)) = Some sample_hold" by code_simp
  moreover have "flags_ok (sample_transfer 7 1 2 0 4) \<and> isVoid (sample_transfer 7 1 2 0 4) \<and>
     tr_Ledger (sample_transfer 7 1 2 0 4) = tr_Ledger sample_hold \<and> tr_ID (sample_transfer 7 1 2 0 4) = ident_of 7" by code_simp
  ultimately show ?thesis using hold_can_be_voided [OF am_inv_held, of "sample_transfer 7 1 2 0 4" sample_hold] by auto
qed

text \<open>C30: A transfer that fails leaves the state untouched and reports the error of the
  pre-flight check, except when one of the 128-bit totals would overflow.\<close>

theorem failed_transfer_changes_nothing:
  assumes "am_inv m" "ApplyTransferState m t = (m', Some e)" "\<And>j. e \<noteq> ErrBalanceOverflow j"
  shows "m' = m \<and> checkTransfer m t = Inl e"
  using ApplyTransferState_errors [OF assms(1,2)] assms(3) by blast

theorem failed_transfer_changes_nothing_witness:
  "ApplyTransferState sample_manager (sample_transfer 7 1 2 300 0) =
     (sample_manager, Some (ErrInsufficientFunds (ident_of 1) (FromUint64 100) (FromUint64 300)))"
proof -
  let ?r = "ApplyTransferState sample_manager (sample_transfer 7 1 2 300 0)"
  have "snd ?r = Some (ErrInsufficientFunds (ident_of 1) (FromUint64 100) (FromUint64 300))" by code_simp
  then have r: "?r = (fst ?r, Some (ErrInsufficientFunds (ident_of 1) (FromUint64 100) (FromUint64 300)))" by (simp add: prod_eq_iff)
  with failed_transfer_changes_nothing [OF am_inv_sample r] show ?thesis by (simp add: prod_eq_iff)
qed

text \<open>C31: The documented non-negative-balance invariant (posted debits never exceed posted
  credits) survives every transfer that does not settle a hold.\<close>

theorem solvency_without_settlement:
  assumes "am_ok m" "holds_ok (book_of m)" "solvent (book_of m)" "\<not> isPost t" "ApplyTransferState m t = (m', None)"
  shows "solvent (book_of m')"
  using solvent_spec_step [OF manager.step_sound [OF assms(1,5)]] assms by simp

theorem solvency_without_settlement_witness:
  "solvent (book_of (fst (ApplyTransferState sample_manager (sample_transfer 7 1 2 30 0))))"
proof -
  let ?r = "ApplyTransferState sample_manager (sample_transfer 7 1 2 30 0)"
  have "snd ?r = None" by code_simp
  then have r: "?r = (fst ?r, None)" by (simp add: prod_eq_iff)
  have "solvent (book_of sample_manager)"
    by (auto simp: solvent_def sample_manager_def account_at_def Create_def NewAccountManager_def sample_account_def ident_of_def
        account0_def val_def FromUint64_def split: if_splits)
  moreover have "holds_ok (book_of sample_manager)" using am_inv_sample by (simp add: am_inv_def book_inv_def)
  moreover have "\<not> isPost (sample_transfer 7 1 2 30 0)" by code_simp
  ultimately show ?thesis using solvency_without_settlement [OF am_ok_sample _ _ _ r] by blast
qed

text \<open>C32: Settlement is the exception. Settling an amount \<open>x\<close> of an open hold (all of it when the
  settling transfer has amount zero) always succeeds, unless a posted total would exceed 128 bits:
  on both accounts \<open>x\<close> moves from the pending to the posted balance, and what is not settled stays
  on hold. No balance is checked, so the debited account ends with a balance if and only if its
  posted credits still covered \<open>x\<close>; otherwise it is overdrawn, which a plain transfer of the held
  funds in between is enough to bring about.\<close>

theorem settlement_checks_no_balance:
  assumes "am_inv m" "hold_at m (tr_ID t) = Some p" "flags_ok t" "isPost t" "tr_Ledger t = 0 \<or> tr_Ledger t = tr_Ledger p"
    and x: "x = (if IsZero (Amount t) then Amount p else Amount t)" "val x \<le> val (Amount p)"
    and ab: "account_at m (DebitAccountID p) = Some a" "account_at m (CreditAccountID p) = Some b"
    and room: "val (PostedDebits a) + val x < 2 ^ 128" "val (PostedCredits b) + val x < 2 ^ 128"
  shows "\<exists>m' a' b'. ApplyTransferState m t = (m', None) \<and>
      account_at m' (DebitAccountID p) = Some a' \<and> account_at m' (CreditAccountID p) = Some b' \<and>
      val (PendingDebits a') + val x = val (PendingDebits a) \<and> val (PostedDebits a') = val (PostedDebits a) + val x \<and>
      val (PendingCredits b') + val x = val (PendingCredits b) \<and> val (PostedCredits b') = val (PostedCredits b) + val x \<and>
      (case hold_at m' (tr_ID t) of None \<Rightarrow> x = Amount p
         | Some q \<Rightarrow> x \<noteq> Amount p \<and> val (Amount q) + val x = val (Amount p)) \<and>
      (isOk (Balance a') \<longleftrightarrow> val (PostedDebits a) + val x \<le> val (PostedCredits a))"
proof -
  have ok: "am_ok m" and binv: "book_inv (book_of m)" using assms(1) by (simp_all add: am_inv_def)
  have x': "x = post_amount t p" using x(1) by (simp add: post_amount_def)
  have live: "\<exists>s'. spec_step (book_of m) t = Some s'"
    by (rule spec_post_live [OF binv _ assms(3-5) x' x(2), of a b]) (use assms(2) ab room in simp_all)
  then obtain s' where s': "spec_step (book_of m) t = Some s'" ..
  with manager.run_complete [OF ok, of "[t]" s'] obtain m' where m': "ApplyTransferState m t = (m', None)" "book_of m' = s'"
    by (auto split: prod.splits option.splits)
  obtain a' b' where e: "debit_settle x a = Some a'" "credit_settle x b = Some b'"
    "acct s' (DebitAccountID p) = Some a'" "acct s' (CreditAccountID p) = Some b'"
    "hold s' (tr_ID t) = (if x = Amount p then None else Some (reduce_hold p x))"
    using spec_post_effect [OF s' binv assms(4), of p a b] assms(2) ab unfolding x' by auto
  then show ?thesis using m' val_reduce_hold [OF x(2)]
    by (intro exI [of _ m'] exI [of _ a'] exI [of _ b']) (auto simp: settle_Some_iff isOk_Balance)
qed

definition spent_manager :: account_manager where
  "spent_manager = fst (ApplyTransferState held_manager (sample_transfer 8 1 2 100 0))"

lemma am_inv_spent: "am_inv spent_manager"
proof -
  have "snd (ApplyTransferState held_manager (sample_transfer 8 1 2 100 0)) = None" by code_simp
  then have r: "ApplyTransferState held_manager (sample_transfer 8 1 2 100 0) = (spent_manager, None)"
    by (simp add: prod_eq_iff spent_manager_def)
  have "pending held_manager (tr_ID (sample_transfer 8 1 2 100 0)) = None" by code_simp
  with am_inv_ApplyTransferState [OF am_inv_held _ r] show ?thesis by simp
qed

theorem settlement_checks_no_balance_witness:
  "\<exists>m' a'. ApplyTransferState spent_manager (sample_transfer 7 1 2 0 2) = (m', None) \<and>
     account_at m' (ident_of 1) = Some a' \<and> \<not> isOk (Balance a')"
proof -
  let ?t = "sample_transfer 7 1 2 0 2" and ?a = "accounts spent_manager ! 0" and ?b = "accounts spent_manager ! 1"
  have h: "hold_at spent_manager (tr_ID ?t) = Some sample_hold" by code_simp
  have f: "flags_ok ?t" "isPost ?t" "IsZero (Amount ?t)" "tr_Ledger ?t = tr_Ledger sample_hold"
    "DebitAccountID sample_hold = ident_of 1" by code_simp+
  have ab: "account_at spent_manager (DebitAccountID sample_hold) = Some ?a"
    "account_at spent_manager (CreditAccountID sample_hold) = Some ?b" by code_simp+
  have "PostedDebits ?a = FromUint64 100" "PostedCredits ?a = FromUint64 100" "PostedCredits ?b = FromUint64 100"
    "Amount sample_hold = FromUint64 60" by code_simp+
  then have "val (PostedDebits ?a) = 100" "val (PostedCredits ?a) = 100" "val (PostedCredits ?b) = 100" "val (Amount sample_hold) = 60"
    by (simp_all add: val_FromUint64)
  then show ?thesis using settlement_checks_no_balance [OF am_inv_spent h f(1,2) _ refl _ ab] f(3-5) by auto
qed

text \<open>A timeout of \<open>2 ^ 63\<close> nanoseconds or more wraps to a negative deadline: the hold is
  closed by the very next \<^verbatim>\<open>CloseExpired\<close>, on the clock it was created at.\<close>

theorem huge_timeout_expires_at_once:
  assumes "9223372036854775808 \<le> uint (Timeout p)" "Timestamp p = 0" "0 \<le> sint c"
  shows "expired c p"
proof -
  have "sint (Timeout p) < 0"
  proof (rule ccontr)
    assume "\<not> sint (Timeout p) < 0"
    moreover have lt: "sint (Timeout p) < 9223372036854775808" using sint_lt [of "Timeout p"] by simp
    ultimately have "take_bit 64 (sint (Timeout p)) = sint (Timeout p)" by (intro take_bit_int_eq_self) simp_all
    then have "uint (Timeout p) = sint (Timeout p)" by (simp add: uint_sint)
    with lt assms(1) show False by simp
  qed
  moreover have "Timeout p \<noteq> 0" using assms(1) by auto
  ultimately show ?thesis using assms(2,3) by (simp add: expired_def deadline_def)
qed

theorem huge_timeout_expires_at_once_witness:
  "expired 0 (sample_hold\<lparr>Timeout := 9223372036854775808\<rparr>)"
  by (rule huge_timeout_expires_at_once) (simp_all add: sample_hold_def sample_transfer_def transfer0_def)

text \<open>The cursor of \<^verbatim>\<open>AccountTransfers\<close>: starting after a transfer ID returns exactly the
  recorded transfers that follow its first occurrence, up to the limit.\<close>

theorem AccountTransfers_after_cursor:
  assumes "history m acc = xs @ c # ys" "c \<notin> set xs" "c \<noteq> zeros 16"
  shows "AccountTransfers m acc c limit =
     List.map_filter (transfers m) (take (if limit \<le> 0 \<or> limit > int (length ys) then length ys else nat limit) ys)"
  by (rule AccountTransfers_cursor [OF assms refl])

theorem AccountTransfers_after_cursor_witness:
  "AccountTransfers (fst (run_steps ApplyTransferState sample_manager [sample_transfer 7 1 2 30 0, sample_transfer 8 2 1 10 0]))
     (ident_of 1) (ident_of 7) 0 = [sample_transfer 8 2 1 10 0]"
proof -
  let ?m = "fst (run_steps ApplyTransferState sample_manager [sample_transfer 7 1 2 30 0, sample_transfer 8 2 1 10 0])"
  have "history ?m (ident_of 1) = [] @ ident_of 7 # [ident_of 8]" by code_simp
  moreover have "ident_of 7 \<noteq> zeros 16" by code_simp
  moreover have "transfers ?m (ident_of 8) = Some (sample_transfer 8 2 1 10 0)" by code_simp
  ultimately show ?thesis using AccountTransfers_after_cursor [of ?m "ident_of 1" "[]" "ident_of 7" "[ident_of 8]" 0]
    by (simp add: List.map_filter_simps)
qed

text \<open>Settling or voiding a hold records a second entry under the hold's ID, so the cursor
  cannot get past it one transfer at a time: the page after the hold is the hold again, and a
  later transfer is never reached.\<close>

theorem cursor_stuck_at_settled_hold:
  "let m = fst (run_steps ApplyTransferState sample_manager
       [sample_transfer 7 1 2 30 1, sample_transfer 7 1 2 0 4, sample_transfer 8 1 2 10 0])
   in AccountTransfers m (ident_of 1) (zeros 16) 1 = [sample_transfer 7 1 2 0 4] \<and>
      AccountTransfers m (ident_of 1) (ident_of 7) 1 = [sample_transfer 7 1 2 0 4]"
  by code_simp

end
