(* ===== verification/Batch_Validator.thy ===== *)
theory Batch_Validator
  imports Account_Manager
begin

text \<open>
  \<^verbatim>\<open>internal/engine/transfers.go\<close>: the batch validator that decides, before anything is
  written to the log, which transfers of a batch will commit. It runs the batch against
  staged copies of the accounts and holds, and undoes a linked chain when one of its
  members fails. A staged account is a heap cell the code reaches through \<^verbatim>\<open>v.staged[id]\<close>;
  the pointer obtained for \<^verbatim>\<open>id\<close> is represented by the key \<^verbatim>\<open>id\<close>, and reading or writing
  through it reads or writes \<open>staged id\<close>. Of a \<^verbatim>\<open>TransferEvent\<close> only its \<^verbatim>\<open>Transfer\<close> is used here.

  The validator is a second implementation of the book: it refines \<open>spec_step\<close>, rollback
  restores the state at the start of the chain exactly, and therefore every transfer that
  \<open>ValidateBatch\<close> accepts is applied by \<open>ApplyBatch\<close> without an error.
\<close>

record pendingState =
  ps_transfer :: transfer
  ps_deleted :: bool

record accountSnapshot =
  as_id :: ident
  as_account :: account
  as_loaded :: bool

record pendingSnapshot =
  pn_id :: ident
  pn_state :: pendingState
  pn_loaded :: bool

record batchValidator =
  v_accounts :: account_manager
  staged :: "ident \<rightharpoonup> account"
  v_pending :: "ident \<rightharpoonup> pendingState"
  seenIDs :: "ident \<rightharpoonup> nat"
  accSnaps :: "accountSnapshot list"
  pendSnaps :: "pendingSnapshot list"
  accSeen :: "ident \<Rightarrow> bool"
  pendSeen :: "ident \<Rightarrow> bool"

type_synonym val_result = "batchValidator \<times> ledger_error option"

definition newBatchValidator :: "account_manager \<Rightarrow> batchValidator" where
  "newBatchValidator m = \<lparr>v_accounts = m, staged = Map.empty, v_pending = Map.empty, seenIDs = Map.empty,
     accSnaps = [], pendSnaps = [], accSeen = (\<lambda>_. False), pendSeen = (\<lambda>_. False)\<rparr>"

definition beginChain :: "batchValidator \<Rightarrow> batchValidator" where
  "beginChain v = v\<lparr>accSnaps := [], pendSnaps := [], accSeen := (\<lambda>_. False), pendSeen := (\<lambda>_. False)\<rparr>"

definition undo_account :: "accountSnapshot \<Rightarrow> batchValidator \<Rightarrow> batchValidator" where
  "undo_account s v =
     (if \<not> as_loaded s then v\<lparr>staged := (staged v)(as_id s := None)\<rparr>
      else v\<lparr>staged := (staged v)(as_id s \<mapsto> as_account s)\<rparr>)"

definition undo_pending :: "pendingSnapshot \<Rightarrow> batchValidator \<Rightarrow> batchValidator" where
  "undo_pending s v =
     (if \<not> pn_loaded s then v\<lparr>v_pending := (v_pending v)(pn_id s := None)\<rparr>
      else v\<lparr>v_pending := (v_pending v)(pn_id s \<mapsto> pn_state s)\<rparr>)"

text \<open>The loops run from the last snapshot to the first, which is \<open>foldr\<close>.\<close>

definition rollbackChain :: "batchValidator \<Rightarrow> batchValidator" where
  "rollbackChain v = foldr undo_pending (pendSnaps v) (foldr undo_account (accSnaps v) v)"

definition getAccount :: "batchValidator \<Rightarrow> ident \<Rightarrow> val_result" where
  "getAccount v i =
     (case staged v i of
        Some _ \<Rightarrow> (v, None)
      | None \<Rightarrow>
          (case Get (v_accounts v) i of
             Inl e \<Rightarrow> (v, Some e)
           | Inr k \<Rightarrow> (v\<lparr>staged := (staged v)(i \<mapsto> accounts (v_accounts v) ! k)\<rparr>, None)))"

definition snapshotAccount :: "ident \<Rightarrow> batchValidator \<Rightarrow> batchValidator" where
  "snapshotAccount i v =
     (if accSeen v i then v
      else v\<lparr>accSeen := (accSeen v)(i := True),
             accSnaps := accSnaps v @
               [(case staged v i of
                   Some a \<Rightarrow> \<lparr>as_id = i, as_account = a, as_loaded = True\<rparr>
                 | None \<Rightarrow> \<lparr>as_id = i, as_account = account0, as_loaded = False\<rparr>)]\<rparr>)"

definition snapshotPending :: "ident \<Rightarrow> batchValidator \<Rightarrow> batchValidator" where
  "snapshotPending i v =
     (if pendSeen v i then v
      else v\<lparr>pendSeen := (pendSeen v)(i := True),
             pendSnaps := pendSnaps v @
               [(case v_pending v i of
                   Some p \<Rightarrow> \<lparr>pn_id = i, pn_state = p, pn_loaded = True\<rparr>
                 | None \<Rightarrow> \<lparr>pn_id = i, pn_state = \<lparr>ps_transfer = transfer0, ps_deleted = False\<rparr>, pn_loaded = False\<rparr>)]\<rparr>)"

text \<open>Access through a staged pointer, and \<^verbatim>\<open>v.staged[acc.ID] = acc\<close>.\<close>

definition update_staged :: "batchValidator \<Rightarrow> ident \<Rightarrow> (account \<Rightarrow> account \<times> ledger_error option) \<Rightarrow> val_result" where
  "update_staged v i f =
     (case staged v i of
        None \<Rightarrow> (v, Some GoPanic)
      | Some a \<Rightarrow> (let (a', e) = f a in (v\<lparr>staged := (staged v)(i \<mapsto> a')\<rparr>, e)))"

definition restage :: "ident \<Rightarrow> batchValidator \<Rightarrow> batchValidator" where
  "restage i v = (case staged v i of None \<Rightarrow> v | Some a \<Rightarrow> v\<lparr>staged := (staged v)(acc_ID a \<mapsto> a)\<rparr>)"

definition set_pending :: "ident \<Rightarrow> transfer \<Rightarrow> bool \<Rightarrow> batchValidator \<Rightarrow> batchValidator" where
  "set_pending i t del v = v\<lparr>v_pending := (v_pending v)(i \<mapsto> \<lparr>ps_transfer = t, ps_deleted = del\<rparr>)\<rparr>"

definition lookupPending :: "batchValidator \<Rightarrow> ident \<Rightarrow> transfer option" where
  "lookupPending v i =
     (case v_pending v i of
        Some st \<Rightarrow> if ps_deleted st then None else Some (ps_transfer st)
      | None \<Rightarrow> hold_at (v_accounts v) i)"

definition stageAccounts :: "batchValidator \<Rightarrow> ident \<Rightarrow> ident \<Rightarrow> val_result" where
  "stageAccounts v d c =
     andThen (getAccount (snapshotAccount c (snapshotAccount d v)) d) (\<lambda>v1. getAccount v1 c)"

subsection \<open>Settling a hold\<close>

definition newPend :: "transfer \<Rightarrow> uint128 \<Rightarrow> transfer" where
  "newPend p amount = p\<lparr>Amount := (case Sub (Amount p) amount of Inl _ \<Rightarrow> u128_zero | Inr rest \<Rightarrow> rest)\<rparr>"

definition validateSettlement :: "batchValidator \<Rightarrow> transfer \<Rightarrow> val_result" where
  "validateSettlement v t =
     (case lookupPending v (tr_ID t) of
        None \<Rightarrow> (v, Some (ErrPendingNotFound (tr_ID t)))
      | Some p \<Rightarrow>
          if tr_Ledger t \<noteq> 0 \<and> tr_Ledger t \<noteq> tr_Ledger p
          then (v, Some (ErrLedgerMismatch (tr_Ledger t) (tr_Ledger p) (tr_Ledger p)))
          else if isPost t \<and> \<not> IsZero (Amount t) \<and> Cmp (Amount t) (Amount p) > 0
          then (v, Some (ErrOverTransfer (tr_ID t) (Amount p) (Amount t)))
          else
            let amount = (if isPost t \<and> \<not> IsZero (Amount t) then Amount t else Amount p);
                d = DebitAccountID p; c = CreditAccountID p
            in andThen (stageAccounts (snapshotPending (tr_ID t) v) d c) (\<lambda>v1.
               if isPost t
               then andThen (update_staged v1 d (settle_debit amount)) (\<lambda>v2.
                    andThen (update_staged v2 c (settle_credit amount)) (\<lambda>v3.
                    (let v4 = restage c (restage d v3)
                     in if Cmp (Amount p) amount = 0 then set_pending (tr_ID t) transfer0 True v4
                        else set_pending (tr_ID t) (newPend p amount) False v4, None)))
               else andThen (update_staged v1 d (release_debit (Amount p))) (\<lambda>v2.
                    andThen (update_staged v2 c (release_credit (Amount p))) (\<lambda>v3.
                    (set_pending (tr_ID t) transfer0 True (restage c (restage d v3)), None)))))"

subsection \<open>New transfers\<close>

text \<open>Both sums are computed before either account is written.\<close>

definition stage_hold :: "batchValidator \<Rightarrow> account \<Rightarrow> account \<Rightarrow> transfer \<Rightarrow> val_result" where
  "stage_hold v deb cred t =
     (case Add (PendingDebits deb) (Amount t) of
        Inl _ \<Rightarrow> (v, Some (ErrBalanceOverflow (acc_ID deb)))
      | Inr nextDeb \<Rightarrow>
          (case Add (PendingCredits cred) (Amount t) of
             Inl _ \<Rightarrow> (v, Some (ErrBalanceOverflow (acc_ID cred)))
           | Inr nextCred \<Rightarrow>
               let d = DebitAccountID t; c = CreditAccountID t;
                   v1 = v\<lparr>staged := (staged v)(d \<mapsto> deb\<lparr>PendingDebits := nextDeb\<rparr>, c \<mapsto> cred\<lparr>PendingCredits := nextCred\<rparr>)\<rparr>
               in (set_pending (tr_ID t) t False (snapshotPending (tr_ID t) (restage c (restage d v1))), None)))"

definition stage_plain :: "batchValidator \<Rightarrow> account \<Rightarrow> account \<Rightarrow> transfer \<Rightarrow> val_result" where
  "stage_plain v deb cred t =
     (case Add (PostedDebits deb) (Amount t) of
        Inl _ \<Rightarrow> (v, Some (ErrBalanceOverflow (acc_ID deb)))
      | Inr nextDeb \<Rightarrow>
          (case Add (PostedCredits cred) (Amount t) of
             Inl _ \<Rightarrow> (v, Some (ErrBalanceOverflow (acc_ID cred)))
           | Inr nextCred \<Rightarrow>
               let d = DebitAccountID t; c = CreditAccountID t;
                   v1 = v\<lparr>staged := (staged v)(d \<mapsto> deb\<lparr>PostedDebits := nextDeb\<rparr>, c \<mapsto> cred\<lparr>PostedCredits := nextCred\<rparr>)\<rparr>
               in (restage c (restage d v1), None)))"

definition validateNew :: "batchValidator \<Rightarrow> transfer \<Rightarrow> val_result" where
  "validateNew v t =
     (if IsZero (Amount t) then (v, Some ErrZeroAmount)
      else if DebitAccountID t = CreditAccountID t then (v, Some (ErrSelfTransfer (DebitAccountID t)))
      else andThen (stageAccounts v (DebitAccountID t) (CreditAccountID t)) (\<lambda>v1.
        (case (staged v1 (DebitAccountID t), staged v1 (CreditAccountID t)) of
           (Some deb, Some cred) \<Rightarrow>
             (case checkParties deb cred t of
                Some e \<Rightarrow> (v1, Some e)
              | None \<Rightarrow>
                  (case checkFunds deb t of
                     Inl e \<Rightarrow> (v1, Some e)
                   | Inr _ \<Rightarrow> if isPending t then stage_hold v1 deb cred t else stage_plain v1 deb cred t))
         | _ \<Rightarrow> (v1, Some GoPanic))))"

definition validateAndApply :: "nat \<Rightarrow> batchValidator \<Rightarrow> transfer \<Rightarrow> val_result" where
  "validateAndApply k v t =
     (if hasUnknownFlags t then (v, Some (ErrInvalidTransferFlags (tr_Flags t)))
      else if invalidFlags t then (v, Some (ErrInvalidTransferFlags (tr_Flags t)))
      else if isPost t \<or> isVoid t then validateSettlement v t
      else if seenIDs v (tr_ID t) \<noteq> None then (v, Some (ErrDuplicateTransferID (tr_ID t)))
      else if GetTransfer (v_accounts v) (tr_ID t) \<noteq> None then (v, Some (ErrDuplicateTransferID (tr_ID t)))
      else validateNew (v\<lparr>seenIDs := (seenIDs v)(tr_ID t \<mapsto> k)\<rparr>) t)"

subsection \<open>The batch\<close>

text \<open>\<open>chainEnd_from\<close>: the scan forward while the transfers are linked, capped at the last
  index.\<close>

function chainEnd_from :: "transfer list \<Rightarrow> nat \<Rightarrow> nat" where
  "chainEnd_from events i =
     (if i < length events \<and> isLinked (events ! i) then chainEnd_from events (i + 1)
      else if length events \<le> i then length events - 1 else i)"
  by pat_completeness auto
termination
  by (relation "measure (\<lambda>(events, i). length events - i)") auto

declare chainEnd_from.simps [simp del]

definition mark_range :: "nat \<Rightarrow> nat \<Rightarrow> (nat \<Rightarrow> ledger_error option) \<Rightarrow> ledger_error option list \<Rightarrow> ledger_error option list" where
  "mark_range a b f outs = map (\<lambda>k. if a \<le> k \<and> k < b then f k else outs ! k) [0..<length outs]"

lemma chainEnd_from_bounds: "i < length events \<Longrightarrow> i \<le> chainEnd_from events i \<and> chainEnd_from events i < length events"
proof (induction events i rule: chainEnd_from.induct)
  case (1 events i)
  then show ?case
    by (cases "i + 1 < length events") (auto simp: chainEnd_from.simps [of events i] chainEnd_from.simps [of events "Suc i"])
qed

function validate_loop :: "transfer list \<Rightarrow> nat \<Rightarrow> nat \<Rightarrow> batchValidator \<Rightarrow> ledger_error option list \<Rightarrow> ledger_error option list" where
  "validate_loop events chainStart i v outs =
     (if length events \<le> i then outs
      else
        let t = events ! i;
            v0 = (if i = chainStart then beginChain v else v);
            (v1, r) = validateAndApply i v0 t
        in (case r of
              Some e \<Rightarrow>
                let chainEnd = chainEnd_from events i;
                    outs' = mark_range chainStart (chainEnd + 1)
                      (\<lambda>k. if k = i then Some e else Some (ErrLinkedChainFailed (tr_ID t) (int i) e)) outs
                in validate_loop events (chainEnd + 1) (chainEnd + 1) (rollbackChain v1) outs'
            | None \<Rightarrow>
                if \<not> isLinked t
                then validate_loop events (i + 1) (i + 1) v1 (mark_range chainStart (i + 1) (\<lambda>_. None) outs)
                else if i = length events - 1
                then
                  let e = ErrLinkedChainOpen (tr_ID t) (int i)
                  in mark_range chainStart (i + 1)
                       (\<lambda>k. if k = i then Some e else Some (ErrLinkedChainFailed (tr_ID t) (int i) e)) outs
                else validate_loop events chainStart (i + 1) v1 outs))"
  by pat_completeness auto
termination
proof (relation "measure (\<lambda>(events, cs, i, v, outs). length events - i)", simp, goal_cases)
  case (1 events chainStart i)
  then have "i < length events" by simp
  then show ?case by simp
next
  case (2 events chainStart i)
  then have "i < length events" by simp
  then show ?case by simp
next
  case (3 events chainStart i)
  then have "i < length events" by simp
  with chainEnd_from_bounds [OF this] 3 show ?case by (simp add: diff_less_mono2)
qed

declare validate_loop.simps [simp del]

definition ValidateBatch :: "transfer list \<Rightarrow> account_manager \<Rightarrow> ledger_error option list" where
  "ValidateBatch events m =
     (let outcomes = replicate (length events) None
      in if events = [] then outcomes
         else validate_loop events 0 0 (newBatchValidator m) outcomes)"

fun ApplyBatch :: "transfer list \<Rightarrow> ledger_error option list \<Rightarrow> account_manager \<Rightarrow> account_manager \<times> ledger_error option list" where
  "ApplyBatch (t # ts) (Some e # outs) m = (let (m', outs') = ApplyBatch ts outs m in (m', Some e # outs'))"
| "ApplyBatch (t # ts) (None # outs) m =
     (let (m1, r) = ApplyTransferState m t; (m', outs') = ApplyBatch ts outs m1 in (m', r # outs'))"
| "ApplyBatch _ outs m = (m, outs)"

subsection \<open>The book a validator represents\<close>

definition staged_at :: "batchValidator \<Rightarrow> ident \<Rightarrow> account option" where
  "staged_at v = account_at (v_accounts v) ++ staged v"

definition vbook :: "batchValidator \<Rightarrow> book" where
  "vbook v = \<lparr>acct = staged_at v, hold = lookupPending v\<rparr>"

definition val_ok :: "batchValidator \<Rightarrow> bool" where
  "val_ok v \<longleftrightarrow> index_ok (v_accounts v) \<and> (\<forall>i a. staged v i = Some a \<longrightarrow> acc_ID a = i)"

lemma vbook_simps [simp]: "acct (vbook v) = staged_at v" "hold (vbook v) = lookupPending v"
  by (simp_all add: vbook_def)

lemma lookup_cong:
  "\<lbrakk> v_accounts v' = v_accounts v; v_pending v' = v_pending v \<rbrakk> \<Longrightarrow> lookupPending v' = lookupPending v"
  by (rule ext) (simp add: lookupPending_def cong: option.case_cong)

lemma vbook_cong:
  "\<lbrakk> v_accounts v' = v_accounts v; staged v' = staged v; v_pending v' = v_pending v \<rbrakk> \<Longrightarrow> vbook v' = vbook v"
  "\<lbrakk> v_accounts v' = v_accounts v; staged v' = staged v \<rbrakk> \<Longrightarrow> val_ok v' = val_ok v"
  "\<lbrakk> v_accounts v' = v_accounts v; staged v' = staged v \<rbrakk> \<Longrightarrow> staged_at v' = staged_at v"
  "\<lbrakk> v_accounts v' = v_accounts v; v_pending v' = v_pending v \<rbrakk> \<Longrightarrow> lookupPending v' = lookupPending v"
  by (simp_all add: vbook_def staged_at_def val_ok_def) (rule lookup_cong; simp)+

lemma snapshot_frame [simp]:
  "v_accounts (snapshotAccount i v) = v_accounts v" "staged (snapshotAccount i v) = staged v"
  "v_pending (snapshotAccount i v) = v_pending v" "seenIDs (snapshotAccount i v) = seenIDs v"
  "pendSnaps (snapshotAccount i v) = pendSnaps v" "pendSeen (snapshotAccount i v) = pendSeen v"
  "v_accounts (snapshotPending i v) = v_accounts v" "staged (snapshotPending i v) = staged v"
  "v_pending (snapshotPending i v) = v_pending v" "seenIDs (snapshotPending i v) = seenIDs v"
  "accSnaps (snapshotPending i v) = accSnaps v" "accSeen (snapshotPending i v) = accSeen v"
  by (simp_all add: snapshotAccount_def snapshotPending_def)

text \<open>Staging makes an account readable through its pointer without changing the book.\<close>

lemma getAccount_spec:
  assumes ok: "val_ok v"
  shows "case staged_at v i of
      None \<Rightarrow> getAccount v i = (v, Some (ErrAccountNotFound i))
    | Some a \<Rightarrow> getAccount v i = (v\<lparr>staged := (staged v)(i \<mapsto> a)\<rparr>, None) \<and> acc_ID a = i"
proof (cases "staged v i")
  case None
  have idx: "index_ok (v_accounts v)" using ok by (simp add: val_ok_def)
  show ?thesis
  proof (cases "account_at (v_accounts v) i")
    case Some': (Some a)
    then have "accounts (v_accounts v) ! the (index (v_accounts v) i) = a" by (auto simp: account_at_def)
    with None Some' account_at_ID [OF idx Some'] show ?thesis
      by (simp add: getAccount_def staged_at_def Get_account_at [OF idx] map_add_def)
  qed (use None in \<open>simp add: getAccount_def staged_at_def Get_account_at [OF idx] map_add_def\<close>)
next
  case (Some a)
  with ok show ?thesis by (auto simp: getAccount_def staged_at_def val_ok_def fun_upd_idem)
qed

lemma stage_same:
  assumes "val_ok v" "staged_at v i = Some a"
  shows "val_ok (v\<lparr>staged := (staged v)(i \<mapsto> a)\<rparr>)" "staged_at (v\<lparr>staged := (staged v)(i \<mapsto> a)\<rparr>) = staged_at v"
proof -
  have "acc_ID a = i" using getAccount_spec [OF assms(1), of i] assms(2) by simp
  with assms(1) show "val_ok (v\<lparr>staged := (staged v)(i \<mapsto> a)\<rparr>)" by (auto simp: val_ok_def)
  show "staged_at (v\<lparr>staged := (staged v)(i \<mapsto> a)\<rparr>) = staged_at v"
    using assms(2) by (simp add: staged_at_def fun_upd_idem)
qed

lemma stageAccounts_spec:
  assumes vok: "val_ok v"
  obtains (ok) a b v1 where "staged_at v d = Some a" "staged_at v c = Some b" "stageAccounts v d c = (v1, None)"
      "val_ok v1" "staged_at v1 = staged_at v" "lookupPending v1 = lookupPending v" "v_accounts v1 = v_accounts v"
      "staged v1 d = Some a" "staged v1 c = Some b"
    | (err) v1 e where "stageAccounts v d c = (v1, Some e)" "staged_at v d = None \<or> staged_at v c = None"
proof -
  let ?v = "snapshotAccount c (snapshotAccount d v)"
  have ok': "val_ok ?v" "staged_at ?v = staged_at v" "lookupPending ?v = lookupPending v"
    using vok vbook_cong(2-4) [of ?v v] by simp_all
  note g = getAccount_spec [OF ok'(1), of d]
  show thesis
  proof (cases "staged_at v d")
    case None
    with g ok' show thesis by (intro err [of ?v]) (simp_all add: stageAccounts_def)
  next
    case (Some a)
    let ?v1 = "?v\<lparr>staged := (staged ?v)(d \<mapsto> a)\<rparr>"
    have v1: "val_ok ?v1" "staged_at ?v1 = staged_at v" "lookupPending ?v1 = lookupPending v"
      using stage_same [OF ok'(1), of d a] Some ok' vbook_cong(4) [of ?v1 ?v] by simp_all
    note g2 = getAccount_spec [OF v1(1), of c]
    show thesis
    proof (cases "staged_at v c")
      case None
      with g g2 Some ok' v1 show thesis by (intro err [of ?v1]) (simp_all add: stageAccounts_def)
    next
      case Some': (Some b)
      let ?v2 = "?v1\<lparr>staged := (staged ?v1)(c \<mapsto> b)\<rparr>"
      have v2: "val_ok ?v2" "staged_at ?v2 = staged_at v" "lookupPending ?v2 = lookupPending v"
        using stage_same [OF v1(1), of c b] Some' v1 vbook_cong(4) [of ?v2 ?v1] by simp_all
      have "stageAccounts v d c = (?v2, None)" using g g2 Some Some' ok' v1 by (simp add: stageAccounts_def)
      moreover have "staged ?v2 d = Some a" "staged ?v2 c = Some b" using Some Some' by auto
      ultimately show thesis using Some Some' v2 by (intro ok [of a b ?v2]) simp_all
    qed
  qed
qed

lemma restage_id: "val_ok v \<Longrightarrow> restage i v = v"
  by (auto simp: restage_def val_ok_def fun_upd_idem split: option.split)

lemma update_staged_upd_acct:
  assumes ok: "val_ok v" and st: "staged v i = Some a" and id: "\<And>a. acc_ID (fst (f a)) = acc_ID a"
    and ref: "refines_at f g a"
  shows "case upd_acct i g (vbook v) of
      None \<Rightarrow> snd (update_staged v i f) \<noteq> None
    | Some s \<Rightarrow> \<exists>a'. update_staged v i f = (v\<lparr>staged := (staged v)(i \<mapsto> a')\<rparr>, None) \<and>
        val_ok (v\<lparr>staged := (staged v)(i \<mapsto> a')\<rparr>) \<and> vbook (v\<lparr>staged := (staged v)(i \<mapsto> a')\<rparr>) = s"
proof -
  have at: "staged_at v i = Some a" using st by (simp add: staged_at_def)
  have "acc_ID (fst (f a)) = i" using ok st id by (auto simp: val_ok_def)
  then have vok: "val_ok (v\<lparr>staged := (staged v)(i \<mapsto> fst (f a))\<rparr>)" using ok by (auto simp: val_ok_def)
  have l: "lookupPending (v\<lparr>staged := X\<rparr>) = lookupPending v" for X by (rule lookup_cong) simp_all
  have vb: "vbook (v\<lparr>staged := (staged v)(i \<mapsto> a')\<rparr>) = (vbook v)\<lparr>acct := (staged_at v)(i \<mapsto> a')\<rparr>" for a'
    unfolding vbook_def l by (simp add: staged_at_def)
  show ?thesis
  proof (cases "g a")
    case None
    with ref st at show ?thesis by (auto simp: upd_acct_def refines_at_def update_staged_def split: prod.splits)
  next
    case (Some a')
    with ref have "f a = (a', None)" by (simp add: refines_at_def)
    with Some st at vok vb show ?thesis by (auto simp: upd_acct_def update_staged_def)
  qed
qed

lemma lookup_set_pending: "lookupPending (set_pending i t del v) = (lookupPending v)(i := (if del then None else Some t))"
  by (auto simp: lookupPending_def set_pending_def fun_eq_iff cong: option.case_cong)

lemma set_pending_frame [simp]:
  "v_accounts (set_pending i t del v) = v_accounts v" "staged (set_pending i t del v) = staged v"
  by (simp_all add: set_pending_def)

lemma vbook_set_pending:
  "vbook (set_pending i t del v) = (vbook v)\<lparr>hold := (lookupPending v)(i := (if del then None else Some t))\<rparr>"
  "val_ok (set_pending i t del v) = val_ok v"
  using vbook_cong(2,3) [of "set_pending i t del v" v] by (simp_all add: vbook_def lookup_set_pending)

text \<open>Two staged updates in a row, as the settlement branches perform them.\<close>

definition v_implements :: "val_result \<Rightarrow> book option \<Rightarrow> bool" where
  "v_implements r s \<longleftrightarrow> (case s of None \<Rightarrow> snd r \<noteq> None | Some s' \<Rightarrow> \<exists>v'. r = (v', None) \<and> val_ok v' \<and> vbook v' = s')"

lemma staged_pair:
  assumes ok: "val_ok v" and d: "staged v d = Some a" and c: "staged v c = Some b"
    and fid: "\<And>a. acc_ID (fst (f a)) = acc_ID a" and gid: "\<And>a. acc_ID (fst (g a)) = acc_ID a"
    and fr: "\<And>a. refines_at f f' a" and gr: "\<And>a. refines_at g g' a"
    and F: "\<And>v3. val_ok v3 \<Longrightarrow> val_ok (F v3) \<and> vbook (F v3) = (vbook v3)\<lparr>hold := H (hold (vbook v3))\<rparr>"
  shows "v_implements (andThen (update_staged v d f) (\<lambda>v2. andThen (update_staged v2 c g) (\<lambda>v3. (F v3, None))))
     (Option.bind (upd_pair d f' c g' (vbook v)) (\<lambda>s. Some (s\<lparr>hold := H (hold s)\<rparr>)))"
proof (cases "upd_acct d f' (vbook v)")
  case None
  with update_staged_upd_acct [OF ok d fid fr] have "snd (update_staged v d f) \<noteq> None" by simp
  then show ?thesis using None by (cases "update_staged v d f") (auto simp: v_implements_def upd_pair_def)
next
  case (Some s1)
  with update_staged_upd_acct [OF ok d fid fr] obtain a' where
    v1: "update_staged v d f = (v\<lparr>staged := (staged v)(d \<mapsto> a')\<rparr>, None)" "val_ok (v\<lparr>staged := (staged v)(d \<mapsto> a')\<rparr>)"
      "vbook (v\<lparr>staged := (staged v)(d \<mapsto> a')\<rparr>) = s1" by auto
  obtain b' where "staged (v\<lparr>staged := (staged v)(d \<mapsto> a')\<rparr>) c = Some b'" using c by (cases "c = d") auto
  note 2 = update_staged_upd_acct [OF v1(2) this gid gr]
  show ?thesis
  proof (cases "upd_acct c g' s1")
    case None
    with 2 v1 Some show ?thesis
      by (cases "update_staged (v\<lparr>staged := (staged v)(d \<mapsto> a')\<rparr>) c g") (auto simp: v_implements_def upd_pair_def)
  next
    case Some': (Some s2)
    with 2 v1(3) obtain v2 where "update_staged (v\<lparr>staged := (staged v)(d \<mapsto> a')\<rparr>) c g = (v2, None)" "val_ok v2" "vbook v2 = s2"
      by auto
    with v1 Some Some' F [of v2] show ?thesis by (simp add: v_implements_def upd_pair_def)
  qed
qed

lemma newPend_reduce: "val x \<le> val (Amount p) \<Longrightarrow> newPend p x = reduce_hold p x"
  using Sub_ok [of x "Amount p"] by (auto simp: newPend_def reduce_hold_def)

subsection \<open>The validator implements the specification\<close>

lemma upd_pair_missing: "acct s d = None \<or> acct s c = None \<Longrightarrow> upd_pair d f c g s = None"
  by (cases "c = d") (auto simp: upd_pair_def upd_acct_def split: option.splits bind_splits)

text \<open>The settlement of hold \<open>p\<close> by \<open>t\<close>: which requests are refused outright, the amount that
  moves, and the specification's step in those terms.\<close>

definition refused :: "transfer \<Rightarrow> transfer \<Rightarrow> bool" where
  "refused t p \<longleftrightarrow> tr_Ledger t \<noteq> 0 \<and> tr_Ledger t \<noteq> tr_Ledger p \<or>
     isPost t \<and> \<not> IsZero (Amount t) \<and> Cmp (Amount t) (Amount p) > 0"

definition settled_hold :: "transfer \<Rightarrow> uint128 \<Rightarrow> transfer option" where
  "settled_hold p x = (if Cmp (Amount p) x = 0 then None else Some (reduce_hold p x))"

lemma spec_step_settle:
  assumes "isPost t \<or> isVoid t" "flags_ok t" "hold s (tr_ID t) = Some p"
  shows "refused t p \<Longrightarrow> spec_step s t = None"
    "\<lbrakk> \<not> refused t p; isPost t \<rbrakk> \<Longrightarrow> spec_step s t =
       Option.bind (upd_pair (DebitAccountID p) (debit_settle (post_amount t p)) (CreditAccountID p) (credit_settle (post_amount t p)) s)
         (\<lambda>s1. Some (s1\<lparr>hold := (hold s1)(tr_ID t := settled_hold p (post_amount t p))\<rparr>))"
    "\<lbrakk> \<not> refused t p; \<not> isPost t \<rbrakk> \<Longrightarrow> spec_step s t =
       Option.bind (upd_pair (DebitAccountID p) (debit_release (Amount p)) (CreditAccountID p) (credit_release (Amount p)) s)
         (\<lambda>s1. Some (s1\<lparr>hold := (hold s1)(tr_ID t := None)\<rparr>))"
  using assms
  by (auto simp: refused_def settled_hold_def spec_step_def spec_post_def spec_void_def spec_release_def post_amount_def
      Let_def Cmp_greater)

definition finish_post :: "transfer \<Rightarrow> transfer \<Rightarrow> uint128 \<Rightarrow> batchValidator \<Rightarrow> batchValidator" where
  "finish_post t p x v3 =
     (let v4 = restage (CreditAccountID p) (restage (DebitAccountID p) v3)
      in if Cmp (Amount p) x = 0 then set_pending (tr_ID t) transfer0 True v4
         else set_pending (tr_ID t) (newPend p x) False v4)"

definition settle_staged :: "transfer \<Rightarrow> transfer \<Rightarrow> batchValidator \<Rightarrow> val_result" where
  "settle_staged t p v1 =
     (let x = post_amount t p; d = DebitAccountID p; c = CreditAccountID p
      in if isPost t
         then andThen (update_staged v1 d (settle_debit x)) (\<lambda>v2.
              andThen (update_staged v2 c (settle_credit x)) (\<lambda>v3. (finish_post t p x v3, None)))
         else andThen (update_staged v1 d (release_debit (Amount p))) (\<lambda>v2.
              andThen (update_staged v2 c (release_credit (Amount p))) (\<lambda>v3.
              (set_pending (tr_ID t) transfer0 True (restage c (restage d v3)), None))))"

lemma validateSettlement_staged:
  assumes p: "lookupPending v (tr_ID t) = Some p" and r: "\<not> refused t p"
  shows "validateSettlement v t = andThen (stageAccounts (snapshotPending (tr_ID t) v) (DebitAccountID p) (CreditAccountID p))
     (settle_staged t p)"
proof -
  have 1: "\<not> (tr_Ledger t \<noteq> 0 \<and> tr_Ledger t \<noteq> tr_Ledger p)"
    and 2: "\<not> (isPost t \<and> \<not> IsZero (Amount t) \<and> Cmp (Amount t) (Amount p) > 0)"
    using r by (auto simp: refused_def)
  show ?thesis
    unfolding validateSettlement_def p option.case settle_staged_def finish_post_def if_not_P [OF 1] if_not_P [OF 2]
    by (cases "isPost t") (simp_all add: post_amount_def Let_def)
qed

lemma post_amount_le: "\<lbrakk> isPost t; \<not> refused t p \<rbrakk> \<Longrightarrow> val (post_amount t p) \<le> val (Amount p)"
  by (auto simp: refused_def post_amount_def Cmp_greater)

lemma settle_staged_implements:
  assumes ok: "val_ok v1" and st: "staged v1 (DebitAccountID p) = Some a" "staged v1 (CreditAccountID p) = Some b"
    and t: "isPost t \<or> isVoid t" "flags_ok t" and p: "lookupPending v1 (tr_ID t) = Some p" and r: "\<not> refused t p"
  shows "v_implements (settle_staged t p v1) (spec_step (vbook v1) t)"
proof (cases "isPost t")
  case True
  have "v_implements (settle_staged t p v1)
     (Option.bind (upd_pair (DebitAccountID p) (debit_settle (post_amount t p)) (CreditAccountID p) (credit_settle (post_amount t p)) (vbook v1))
        (\<lambda>s1. Some (s1\<lparr>hold := (hold s1)(tr_ID t := settled_hold p (post_amount t p))\<rparr>)))"
    unfolding settle_staged_def Let_def if_P [OF True]
    by (rule staged_pair [OF ok st, where H = "\<lambda>h. h(tr_ID t := settled_hold p (post_amount t p))"])
       (auto simp: effect_IDs refines_at_effects finish_post_def restage_id vbook_set_pending
          newPend_reduce [OF post_amount_le [OF True r]] settled_hold_def Let_def)
  then show ?thesis using spec_step_settle(2) [OF t _ r True, of "vbook v1"] p by simp
next
  case False
  have "v_implements (settle_staged t p v1)
     (Option.bind (upd_pair (DebitAccountID p) (debit_release (Amount p)) (CreditAccountID p) (credit_release (Amount p)) (vbook v1))
        (\<lambda>s1. Some (s1\<lparr>hold := (hold s1)(tr_ID t := None)\<rparr>)))"
    unfolding settle_staged_def Let_def if_not_P [OF False]
    by (rule staged_pair [OF ok st, where H = "\<lambda>h. h(tr_ID t := None)"]) (auto simp: effect_IDs refines_at_effects restage_id vbook_set_pending)
  then show ?thesis using spec_step_settle(3) [OF t _ r False, of "vbook v1"] p by simp
qed

lemma validateSettlement_implements:
  assumes vok: "val_ok v" and t: "isPost t \<or> isVoid t" "flags_ok t"
  shows "v_implements (validateSettlement v t) (spec_step (vbook v) t)"
proof (cases "lookupPending v (tr_ID t)")
  case None
  with t show ?thesis by (simp add: v_implements_def validateSettlement_def spec_step_def)
next
  case (Some p)
  then have h: "hold (vbook v) (tr_ID t) = Some p" by simp
  show ?thesis
  proof (cases "refused t p")
    case True
    with Some spec_step_settle(1) [OF t h True] show ?thesis
      by (auto simp: v_implements_def validateSettlement_def refused_def)
  next
    case False
    let ?v = "snapshotPending (tr_ID t) v" and ?d = "DebitAccountID p" and ?c = "CreditAccountID p"
    have same: "val_ok ?v" "staged_at ?v = staged_at v" "lookupPending ?v = lookupPending v"
      using vok vbook_cong(2-4) [of ?v v] by simp_all
    show ?thesis
    proof (cases rule: stageAccounts_spec [OF same(1), of ?d ?c, case_names ok err])
      case (ok a b v1)
      then have "vbook v1 = vbook v" using same by (simp add: vbook_def)
      moreover have "v_implements (settle_staged t p v1) (spec_step (vbook v1) t)"
        by (rule settle_staged_implements [OF ok(4,8,9) t _ False]) (use ok same Some in simp)
      ultimately show ?thesis using ok(3) by (simp add: validateSettlement_staged [OF Some False])
    next
      case (err v1 e)
      with same have "acct (vbook v) ?d = None \<or> acct (vbook v) ?c = None" by simp
      with h have "spec_step (vbook v) t = None"
        using spec_step_settle(2,3) [OF t h False] upd_pair_missing by (cases "isPost t") auto
      with err show ?thesis by (simp add: validateSettlement_staged [OF Some False] v_implements_def)
    qed
  qed
qed

lemma restage_two:
  assumes ok: "val_ok v" and a: "acc_ID a = d" and b: "acc_ID b = c"
  defines "v1 \<equiv> v\<lparr>staged := (staged v)(d \<mapsto> a, c \<mapsto> b)\<rparr>"
  shows "restage c (restage d v1) = v1" "val_ok v1" "staged_at v1 = (staged_at v)(d \<mapsto> a, c \<mapsto> b)"
    "lookupPending v1 = lookupPending v"
proof -
  show vok: "val_ok v1" using ok a b by (auto simp: v1_def val_ok_def)
  show "restage c (restage d v1) = v1" by (simp add: restage_id vok)
  show "staged_at v1 = (staged_at v)(d \<mapsto> a, c \<mapsto> b)" by (simp add: v1_def staged_at_def)
  show "lookupPending v1 = lookupPending v" by (rule lookup_cong) (simp_all add: v1_def)
qed

lemma stage_plain_implements:
  assumes ok: "val_ok v1" and st: "staged v1 (DebitAccountID t) = Some a" "staged v1 (CreditAccountID t) = Some b"
    and dc: "DebitAccountID t \<noteq> CreditAccountID t"
  shows "v_implements (stage_plain v1 a b t)
     (upd_pair (DebitAccountID t) (debit_posted (Amount t)) (CreditAccountID t) (credit_posted (Amount t)) (vbook v1))"
proof -
  have at: "staged_at v1 (DebitAccountID t) = Some a" "staged_at v1 (CreditAccountID t) = Some b"
    "acc_ID a = DebitAccountID t" "acc_ID b = CreditAccountID t"
    using st ok by (auto simp: staged_at_def val_ok_def)
  show ?thesis
  proof (cases "debit_posted (Amount t) a = None \<or> credit_posted (Amount t) b = None")
    case True
    then have "upd_pair (DebitAccountID t) (debit_posted (Amount t)) (CreditAccountID t) (credit_posted (Amount t)) (vbook v1) = None"
      using at dc by (auto simp: upd_pair_def upd_acct_def split: option.splits)
    with True show ?thesis
      by (auto simp: v_implements_def stage_plain_def debit_posted_def credit_posted_def split: sum.splits)
  next
    case False
    then obtain x y where xy: "Add (PostedDebits a) (Amount t) = Inr x" "Add (PostedCredits b) (Amount t) = Inr y"
      by (auto simp: debit_posted_def credit_posted_def split: sum.splits)
    note r = restage_two [OF ok, of "a\<lparr>PostedDebits := x\<rparr>" "DebitAccountID t" "b\<lparr>PostedCredits := y\<rparr>" "CreditAccountID t"]
    from xy at dc r show ?thesis
      by (simp add: v_implements_def stage_plain_def debit_posted_def credit_posted_def upd_pair_def upd_acct_def Let_def vbook_def)
  qed
qed

lemma stage_hold_implements:
  assumes ok: "val_ok v1" and st: "staged v1 (DebitAccountID t) = Some a" "staged v1 (CreditAccountID t) = Some b"
    and dc: "DebitAccountID t \<noteq> CreditAccountID t"
  shows "v_implements (stage_hold v1 a b t)
     (Option.bind (upd_pair (DebitAccountID t) (debit_hold (Amount t)) (CreditAccountID t) (credit_hold (Amount t)) (vbook v1))
        (\<lambda>s. Some (s\<lparr>hold := (hold s)(tr_ID t \<mapsto> t)\<rparr>)))"
proof -
  have at: "staged_at v1 (DebitAccountID t) = Some a" "staged_at v1 (CreditAccountID t) = Some b"
    "acc_ID a = DebitAccountID t" "acc_ID b = CreditAccountID t"
    using st ok by (auto simp: staged_at_def val_ok_def)
  show ?thesis
  proof (cases "debit_hold (Amount t) a = None \<or> credit_hold (Amount t) b = None")
    case True
    then have "upd_pair (DebitAccountID t) (debit_hold (Amount t)) (CreditAccountID t) (credit_hold (Amount t)) (vbook v1) = None"
      using at dc by (auto simp: upd_pair_def upd_acct_def split: option.splits)
    with True show ?thesis
      by (auto simp: v_implements_def stage_hold_def debit_hold_def credit_hold_def split: sum.splits)
  next
    case False
    then obtain x y where xy: "Add (PendingDebits a) (Amount t) = Inr x" "Add (PendingCredits b) (Amount t) = Inr y"
      by (auto simp: debit_hold_def credit_hold_def split: sum.splits)
    define v2 where "v2 = v1\<lparr>staged := (staged v1)(DebitAccountID t \<mapsto> a\<lparr>PendingDebits := x\<rparr>, CreditAccountID t \<mapsto> b\<lparr>PendingCredits := y\<rparr>)\<rparr>"
    have r: "restage (CreditAccountID t) (restage (DebitAccountID t) v2) = v2" "val_ok v2"
      "staged_at v2 = (staged_at v1)(DebitAccountID t \<mapsto> a\<lparr>PendingDebits := x\<rparr>, CreditAccountID t \<mapsto> b\<lparr>PendingCredits := y\<rparr>)"
      "lookupPending v2 = lookupPending v1"
      using restage_two [OF ok, of "a\<lparr>PendingDebits := x\<rparr>" "DebitAccountID t" "b\<lparr>PendingCredits := y\<rparr>" "CreditAccountID t"] at
      by (simp_all add: v2_def)
    let ?v = "snapshotPending (tr_ID t) v2"
    have s: "val_ok ?v" "vbook ?v = vbook v2" "lookupPending ?v = lookupPending v2"
      using r vbook_cong [of ?v v2] by simp_all
    have "stage_hold v1 a b t = (set_pending (tr_ID t) t False ?v, None)"
      using xy r(1) by (simp add: stage_hold_def Let_def v2_def)
    moreover have "Option.bind (upd_pair (DebitAccountID t) (debit_hold (Amount t)) (CreditAccountID t) (credit_hold (Amount t)) (vbook v1))
        (\<lambda>s. Some (s\<lparr>hold := (hold s)(tr_ID t \<mapsto> t)\<rparr>)) = Some ((vbook v2)\<lparr>hold := (lookupPending v2)(tr_ID t \<mapsto> t)\<rparr>)"
      using xy at dc r by (simp add: debit_hold_def credit_hold_def upd_pair_def upd_acct_def vbook_def)
    ultimately show ?thesis using s by (simp add: v_implements_def vbook_set_pending)
  qed
qed

lemma validateNew_implements:
  assumes vok: "val_ok v" and t: "\<not> isPost t" "\<not> isVoid t" "flags_ok t"
  shows "v_implements (validateNew v t) (spec_step (vbook v) t)"
proof (cases "IsZero (Amount t) \<or> DebitAccountID t = CreditAccountID t")
  case True
  then show ?thesis using t
    by (auto simp: v_implements_def validateNew_def spec_step_def spec_new_def split: option.splits)
next
  case False
  let ?d = "DebitAccountID t" and ?c = "CreditAccountID t"
  show ?thesis
  proof (cases rule: stageAccounts_spec [OF vok, of ?d ?c, case_names ok err])
    case (err v1 e)
    then have "spec_step (vbook v) t = None" using t by (auto simp: spec_step_def spec_new_def split: option.splits)
    with err False show ?thesis by (simp add: v_implements_def validateNew_def)
  next
    case (ok a b v1)
    have vb: "vbook v1 = vbook v" using ok by (simp add: vbook_def)
    have spec: "spec_step (vbook v) t = (if \<not> can_move a b t \<or> \<not> funds_ok a t then None
       else if isPending t
       then Option.bind (upd_pair ?d (debit_hold (Amount t)) ?c (credit_hold (Amount t)) (vbook v1)) (\<lambda>s. Some (s\<lparr>hold := (hold s)(tr_ID t \<mapsto> t)\<rparr>))
       else upd_pair ?d (debit_posted (Amount t)) ?c (credit_posted (Amount t)) (vbook v1))"
      using ok(1,2) False t by (simp add: spec_step_def spec_new_def vb)
    have run: "validateNew v t = (case checkParties a b t of Some e \<Rightarrow> (v1, Some e)
       | None \<Rightarrow> (case checkFunds a t of Inl e \<Rightarrow> (v1, Some e)
           | Inr _ \<Rightarrow> if isPending t then stage_hold v1 a b t else stage_plain v1 a b t))"
      using ok False by (simp add: validateNew_def)
    consider "checkParties a b t \<noteq> None" | "checkParties a b t = None" "\<not> isOk (checkFunds a t)"
      | "checkParties a b t = None" "isOk (checkFunds a t)" by blast
    then show ?thesis
    proof cases
      case 1
      with spec run show ?thesis by (auto simp: v_implements_def simp flip: checkParties_can_move)
    next
      case 2
      then have "spec_step (vbook v) t = None" by (simp add: spec flip: checkFunds_funds_ok)
      with 2 run show ?thesis by (cases "checkFunds a t") (auto simp: v_implements_def)
    next
      case 3
      then have "can_move a b t" "funds_ok a t" by (simp_all only: checkParties_can_move checkFunds_funds_ok)
      with 3 False show ?thesis unfolding spec run
        using stage_hold_implements [OF ok(4,8,9)] stage_plain_implements [OF ok(4,8,9)]
        by (cases "checkFunds a t") auto
    qed
  qed
qed

lemma val_ok_seen: "val_ok (v\<lparr>seenIDs := X\<rparr>) = val_ok v" "vbook (v\<lparr>seenIDs := X\<rparr>) = vbook v"
  by (rule vbook_cong; simp)+

text \<open>The validator accepts a transfer only with the specification's effect, and refuses one
  the specification admits only as a duplicate.\<close>

lemma validateAndApply_implements:
  assumes "val_ok v"
  shows "v_implements (validateAndApply k v t) (spec_step (vbook v) t) \<or>
     validateAndApply k v t = (v, Some (ErrDuplicateTransferID (tr_ID t)))"
proof (cases "flags_ok t")
  case False
  then have "snd (validateAndApply k v t) \<noteq> None" "spec_step (vbook v) t = None"
    by (auto simp: validateAndApply_def invalidFlags_flags_ok spec_step_def)
  then show ?thesis by (simp add: v_implements_def)
next
  case True
  then have "\<not> hasUnknownFlags t" "\<not> invalidFlags t" by (simp_all add: invalidFlags_flags_ok)
  with assms True show ?thesis
    using validateSettlement_implements [of v t] validateNew_implements [of "v\<lparr>seenIDs := (seenIDs v)(tr_ID t \<mapsto> k)\<rparr>" t]
    by (auto simp: validateAndApply_def val_ok_seen)
qed

interpretation validator: ledger_impl vbook val_ok "validateAndApply k" for k
proof
  fix v t v' assume a: "val_ok v" "validateAndApply k v t = (v', None)"
  with validateAndApply_implements [OF a(1), of k t]
  show "val_ok v'" "spec_step (vbook v) t = Some (vbook v')"
    by (auto simp: v_implements_def split: option.splits)
qed

subsection \<open>Rollback\<close>

text \<open>\<open>chain_of v0 v\<close>: \<open>v\<close> arose from \<open>v0\<close> within one chain, and the snapshots taken since
  then remember everything that may have changed.\<close>

definition acc_chain :: "batchValidator \<Rightarrow> batchValidator \<Rightarrow> bool" where
  "acc_chain v0 v \<longleftrightarrow> (\<forall>i. \<not> accSeen v i \<longrightarrow> staged v i = staged v0 i) \<and>
     (\<forall>i. accSeen v i \<longrightarrow> i \<in> as_id ` set (accSnaps v)) \<and>
     (\<forall>s\<in>set (accSnaps v). staged v0 (as_id s) = (if as_loaded s then Some (as_account s) else None))"

definition pend_chain :: "batchValidator \<Rightarrow> batchValidator \<Rightarrow> bool" where
  "pend_chain v0 v \<longleftrightarrow> (\<forall>i. \<not> pendSeen v i \<longrightarrow> v_pending v i = v_pending v0 i) \<and>
     (\<forall>i. pendSeen v i \<longrightarrow> i \<in> pn_id ` set (pendSnaps v)) \<and>
     (\<forall>s\<in>set (pendSnaps v). v_pending v0 (pn_id s) = (if pn_loaded s then Some (pn_state s) else None))"

definition chain_of :: "batchValidator \<Rightarrow> batchValidator \<Rightarrow> bool" where
  "chain_of v0 v \<longleftrightarrow> v_accounts v = v_accounts v0 \<and> acc_chain v0 v \<and> pend_chain v0 v"

lemma undo_frame [simp]:
  "v_accounts (foldr undo_account ss v) = v_accounts v" "v_pending (foldr undo_account ss v) = v_pending v"
  "v_accounts (foldr undo_pending ps v) = v_accounts v" "staged (foldr undo_pending ps v) = staged v"
  by (induction ss; simp add: undo_account_def)+ (induction ps; simp add: undo_pending_def)+

lemma staged_undo:
  "(\<forall>s\<in>set ss. S (as_id s) = (if as_loaded s then Some (as_account s) else None)) \<Longrightarrow>
     staged (foldr undo_account ss v) i = (if i \<in> as_id ` set ss then S i else staged v i)"
  by (induction ss) (auto simp: undo_account_def)

lemma pending_undo:
  "(\<forall>s\<in>set ss. S (pn_id s) = (if pn_loaded s then Some (pn_state s) else None)) \<Longrightarrow>
     v_pending (foldr undo_pending ss v) i = (if i \<in> pn_id ` set ss then S i else v_pending v i)"
  by (induction ss) (auto simp: undo_pending_def)

lemma rollback_exact:
  assumes c: "chain_of v0 v"
  shows "staged (rollbackChain v) = staged v0" "v_pending (rollbackChain v) = v_pending v0"
    "v_accounts (rollbackChain v) = v_accounts v0"
proof -
  have a: "acc_chain v0 v" and p: "pend_chain v0 v" using c by (simp_all add: chain_of_def)
  have "staged (rollbackChain v) i = staged v0 i" for i
    using a staged_undo [of "accSnaps v" "staged v0" v i] by (auto simp: acc_chain_def rollbackChain_def)
  then show "staged (rollbackChain v) = staged v0" by (rule ext)
  have "v_pending (rollbackChain v) i = v_pending v0 i" for i
    using p pending_undo [of "pendSnaps v" "v_pending v0" "foldr undo_account (accSnaps v) v" i]
    by (auto simp: pend_chain_def rollbackChain_def)
  then show "v_pending (rollbackChain v) = v_pending v0" by (rule ext)
  show "v_accounts (rollbackChain v) = v_accounts v0" using c by (simp add: rollbackChain_def chain_of_def)
qed

lemma rollback_book:
  assumes "chain_of v0 v"
  shows "vbook (rollbackChain v) = vbook v0" "val_ok (rollbackChain v) = val_ok v0"
  using vbook_cong(1,2) [of "rollbackChain v" v0] rollback_exact [OF assms] by simp_all

lemma chain_begin: "chain_of v (beginChain v)"
  by (simp add: chain_of_def acc_chain_def pend_chain_def beginChain_def)

lemma beginChain_book [simp]: "vbook (beginChain v) = vbook v" "val_ok (beginChain v) = val_ok v"
  "v_accounts (beginChain v) = v_accounts v"
  by (rule vbook_cong; simp add: beginChain_def)+ (simp add: beginChain_def)

subsubsection \<open>Every step stays within its snapshots\<close>

lemma chain_snapshotAccount: "chain_of v0 v \<Longrightarrow> chain_of v0 (snapshotAccount i v) \<and> accSeen (snapshotAccount i v) i"
  by (auto simp: chain_of_def acc_chain_def pend_chain_def snapshotAccount_def split: option.splits)

lemma accSeen_snapshotAccount: "accSeen v i \<Longrightarrow> accSeen (snapshotAccount j v) i"
  by (simp add: snapshotAccount_def)

lemma chain_snapshotPending: "chain_of v0 v \<Longrightarrow> chain_of v0 (snapshotPending i v) \<and> pendSeen (snapshotPending i v) i"
  by (auto simp: chain_of_def acc_chain_def pend_chain_def snapshotPending_def split: option.splits)

lemma chain_stage: "\<lbrakk> chain_of v0 v; accSeen v i \<rbrakk> \<Longrightarrow> chain_of v0 (v\<lparr>staged := (staged v)(i \<mapsto> a)\<rparr>)"
  by (simp add: chain_of_def acc_chain_def pend_chain_def)

lemma chain_set_pending: "\<lbrakk> chain_of v0 v; pendSeen v i \<rbrakk> \<Longrightarrow> chain_of v0 (set_pending i t del v)"
  by (simp add: chain_of_def acc_chain_def pend_chain_def set_pending_def)

lemma chain_seenIDs: "chain_of v0 (v\<lparr>seenIDs := X\<rparr>) = chain_of v0 v"
  by (simp add: chain_of_def acc_chain_def pend_chain_def)

text \<open>\<open>inside v0 D P v\<close>: within the chain begun at \<open>v0\<close>, with the accounts in \<open>D\<close> and the holds
  in \<open>P\<close> already remembered.\<close>

definition inside :: "batchValidator \<Rightarrow> ident set \<Rightarrow> ident set \<Rightarrow> batchValidator \<Rightarrow> bool" where
  "inside v0 D P v \<longleftrightarrow> chain_of v0 v \<and> val_ok v \<and> (\<forall>i\<in>D. accSeen v i) \<and> (\<forall>i\<in>P. pendSeen v i)"

lemma inside_mono: "\<lbrakk> inside v0 D P v; D' \<subseteq> D; P' \<subseteq> P \<rbrakk> \<Longrightarrow> inside v0 D' P' v"
  by (auto simp: inside_def)

lemma inside_snapshotAccount: "inside v0 D P v \<Longrightarrow> inside v0 (insert i D) P (snapshotAccount i v)"
  using vbook_cong(2) [of "snapshotAccount i v" v] chain_snapshotAccount [of v0 v i]
  by (auto simp: inside_def accSeen_snapshotAccount)

lemma inside_snapshotPending: "inside v0 D P v \<Longrightarrow> inside v0 D (insert i P) (snapshotPending i v)"
  using vbook_cong(2) [of "snapshotPending i v" v] chain_snapshotPending [of v0 v i]
  by (auto simp: inside_def snapshotPending_def)

lemma inside_stage: "\<lbrakk> inside v0 D P v; i \<in> D; acc_ID a = i \<rbrakk> \<Longrightarrow> inside v0 D P (v\<lparr>staged := (staged v)(i \<mapsto> a)\<rparr>)"
  using chain_stage [of v0 v i a] by (auto simp: inside_def val_ok_def)

lemma inside_getAccount: "\<lbrakk> inside v0 D P v; i \<in> D \<rbrakk> \<Longrightarrow> inside v0 D P (fst (getAccount v i))"
  using getAccount_spec [of v i] inside_stage [of v0 D P v i]
  by (cases "staged_at v i") (auto simp: inside_def [of v0 D P v])

lemma inside_update_staged:
  "\<lbrakk> inside v0 D P v; i \<in> D; \<And>a. acc_ID (fst (f a)) = acc_ID a \<rbrakk> \<Longrightarrow> inside v0 D P (fst (update_staged v i f))"
proof (cases "staged v i")
  case (Some a)
  assume a: "inside v0 D P v" "i \<in> D" "\<And>a. acc_ID (fst (f a)) = acc_ID a"
  then have "acc_ID (fst (f a)) = i" using Some by (auto simp: inside_def val_ok_def)
  from inside_stage [OF a(1,2) this] Some show ?thesis by (cases "f a") (simp add: update_staged_def)
qed (simp add: update_staged_def)

lemma inside_restage: "inside v0 D P v \<Longrightarrow> inside v0 D P (restage i v)"
  by (simp add: restage_id inside_def)

lemma inside_set_pending: "\<lbrakk> inside v0 D P v; i \<in> P \<rbrakk> \<Longrightarrow> inside v0 D P (set_pending i t del v)"
  using chain_set_pending [of v0 v i t del] by (auto simp: inside_def vbook_set_pending) (auto simp: set_pending_def)

lemma inside_andThen:
  "\<lbrakk> inside v0 D P (fst r); \<And>v. inside v0 D P v \<Longrightarrow> inside v0 D P (fst (f v)) \<rbrakk> \<Longrightarrow> inside v0 D P (fst (andThen r f))"
  by (cases r; cases "snd r") auto

lemmas inside_intros = inside_andThen inside_update_staged inside_set_pending inside_restage inside_getAccount
  inside_stage

lemma inside_stageAccounts:
  assumes "inside v0 D P v"
  shows "inside v0 (insert c (insert d D)) P (fst (stageAccounts v d c))"
  unfolding stageAccounts_def using inside_snapshotAccount [OF inside_snapshotAccount [OF assms]]
  by (intro inside_andThen inside_getAccount) auto

lemma inside_settle_staged:
  assumes "inside v0 (insert (CreditAccountID p) (insert (DebitAccountID p) D)) (insert (tr_ID t) P) v"
  shows "inside v0 (insert (CreditAccountID p) (insert (DebitAccountID p) D)) (insert (tr_ID t) P) (fst (settle_staged t p v))"
  using assms unfolding settle_staged_def finish_post_def Let_def
  by (auto intro!: inside_intros simp: effect_IDs)

lemma inside_validateSettlement:
  assumes ins: "inside v0 {} {} v"
  shows "inside v0 {} {} (fst (validateSettlement v t))"
proof (cases "lookupPending v (tr_ID t)")
  case (Some p)
  show ?thesis
  proof (cases "refused t p")
    case True
    with Some ins show ?thesis by (auto simp: validateSettlement_def refused_def)
  next
    case False
    have "inside v0 {CreditAccountID p, DebitAccountID p} {tr_ID t} (fst (validateSettlement v t))"
      unfolding validateSettlement_staged [OF Some False]
      by (rule inside_andThen) (use inside_stageAccounts [OF inside_snapshotPending [OF ins]] inside_settle_staged [of v0 p "{}" t "{}"] in auto)
    then show ?thesis by (rule inside_mono) auto
  qed
qed (use ins in \<open>simp add: validateSettlement_def\<close>)

lemma inside_stage_new:
  assumes ins: "inside v0 D P v" and st: "staged v (DebitAccountID t) = Some a" "staged v (CreditAccountID t) = Some b"
    and D: "DebitAccountID t \<in> D" "CreditAccountID t \<in> D"
  shows "inside v0 D P (fst (stage_plain v a b t))" "inside v0 D P (fst (stage_hold v a b t))"
proof -
  have id: "acc_ID a = DebitAccountID t" "acc_ID b = CreditAccountID t" using ins st by (auto simp: inside_def val_ok_def)
  have two: "inside v0 D P (v\<lparr>staged := (staged v)(DebitAccountID t \<mapsto> a', CreditAccountID t \<mapsto> b')\<rparr>)"
    if "acc_ID a' = acc_ID a" "acc_ID b' = acc_ID b" for a' b'
    using inside_stage [OF inside_stage [OF ins D(1)] D(2), of a' b'] that id by simp
  show "inside v0 D P (fst (stage_plain v a b t))"
    by (auto simp: stage_plain_def Let_def ins intro!: inside_restage two split: sum.split)
  have pend: "inside v0 D P (set_pending (tr_ID t) t False (snapshotPending (tr_ID t) w))" if "inside v0 D P w" for w
    using inside_set_pending [OF inside_snapshotPending [OF that]] by (rule inside_mono) auto
  show "inside v0 D P (fst (stage_hold v a b t))"
    by (auto simp: stage_hold_def Let_def ins intro!: pend inside_restage two split: sum.split)
qed

lemma inside_validateNew:
  assumes ins: "inside v0 {} {} v"
  shows "inside v0 {} {} (fst (validateNew v t))"
proof -
  let ?D = "{CreditAccountID t, DebitAccountID t}"
  have "inside v0 ?D {} (fst (andThen (stageAccounts v (DebitAccountID t) (CreditAccountID t)) (\<lambda>v1.
        (case (staged v1 (DebitAccountID t), staged v1 (CreditAccountID t)) of
           (Some deb, Some cred) \<Rightarrow>
             (case checkParties deb cred t of
                Some e \<Rightarrow> (v1, Some e)
              | None \<Rightarrow>
                  (case checkFunds deb t of
                     Inl e \<Rightarrow> (v1, Some e)
                   | Inr _ \<Rightarrow> if isPending t then stage_hold v1 deb cred t else stage_plain v1 deb cred t))
         | _ \<Rightarrow> (v1, Some GoPanic)))))"
    by (rule inside_andThen [OF inside_stageAccounts [OF ins]])
       (auto simp: inside_stage_new split: option.split sum.split)
  then have "inside v0 {} {} (fst (validateNew v t))" if "\<not> IsZero (Amount t)" "DebitAccountID t \<noteq> CreditAccountID t"
    using that by (simp add: validateNew_def inside_mono)
  then show ?thesis using ins by (auto simp: validateNew_def)
qed

lemma validateAndApply_chain:
  assumes "chain_of v0 v" "val_ok v"
  shows "chain_of v0 (fst (validateAndApply k v t)) \<and> val_ok (fst (validateAndApply k v t))"
proof -
  have "inside v0 {} {} v" "inside v0 {} {} (v\<lparr>seenIDs := X\<rparr>)" for X
    using assms by (simp_all add: inside_def chain_seenIDs val_ok_seen)
  then have "inside v0 {} {} (fst (validateAndApply k v t))"
    by (simp add: validateAndApply_def inside_validateSettlement inside_validateNew)
  then show ?thesis by (simp add: inside_def)
qed

subsection \<open>The loop over the batch\<close>

definition accepted :: "transfer list \<Rightarrow> ledger_error option list \<Rightarrow> transfer list" where
  "accepted events outs = map fst (filter (\<lambda>(t, r). r = None) (zip events outs))"

lemma accepted_append:
  "length xs = length os \<Longrightarrow> accepted (xs @ ys) (os @ ps) = accepted xs os @ accepted ys ps"
  by (simp add: accepted_def)

lemma accepted_None: "length xs = n \<Longrightarrow> accepted xs (replicate n None) = xs"
  by (induction xs arbitrary: n) (auto simp: accepted_def)

lemma accepted_Some: "\<forall>r\<in>set os. r \<noteq> None \<Longrightarrow> accepted xs os = []"
  by (auto simp: accepted_def filter_empty_conv dest: set_zip_rightD)

lemma length_mark_range [simp]: "length (mark_range a b f outs) = length outs"
  by (simp add: mark_range_def)

lemma nth_mark_range [simp]:
  "k < length outs \<Longrightarrow> mark_range a b f outs ! k = (if a \<le> k \<and> k < b then f k else outs ! k)"
  by (simp add: mark_range_def)

lemma take_mark_range: "take a (mark_range a b f outs) = take a outs"
  by (rule nth_equalityI) auto

lemma slice_mark_range: "b \<le> length outs \<Longrightarrow> slice a b (mark_range a b f outs) = map f [a..<b]"
  by (rule nth_equalityI) (auto simp: slice_def)

lemma accepted_mark_range:
  assumes "a \<le> b" "b \<le> length events" "length outs = length events"
  shows "accepted (take b events) (take b (mark_range a b f outs)) =
     accepted (take a events) (take a outs) @ accepted (slice a b events) (map f [a..<b])"
proof -
  have s: "take b xs = take a xs @ slice a b xs" for xs :: "'x list"
    using slice_split [of 0 a b xs] assms(1) by (simp add: slice_def)
  show ?thesis
    unfolding s using assms by (subst accepted_append) (simp_all add: take_mark_range slice_mark_range)
qed

text \<open>The invariant of the loop: \<open>vc\<close> is the validator at the start of the open chain; what
  was accepted before leads the specification there, and the open chain leads it on to the
  current validator.\<close>

definition loop_inv :: "book \<Rightarrow> transfer list \<Rightarrow> nat \<Rightarrow> nat \<Rightarrow> batchValidator \<Rightarrow> ledger_error option list \<Rightarrow> batchValidator \<Rightarrow> bool" where
  "loop_inv s0 events cs i v outs vc \<longleftrightarrow>
     length outs = length events \<and> cs \<le> i \<and> val_ok vc \<and> val_ok v \<and>
     spec_run s0 (accepted (take cs events) (take cs outs)) = Some (vbook vc) \<and>
     (if i = cs then v = vc else chain_of vc v \<and> spec_run (vbook vc) (slice cs i events) = Some (vbook v))"

lemma loop_inv_step:
  assumes inv: "loop_inv s0 events cs i v outs vc" and i: "i < length events"
    and step: "validateAndApply i (if i = cs then beginChain v else v) (events ! i) = (v1, r)"
  shows "chain_of vc v1" "val_ok v1" "r = None \<Longrightarrow> spec_run (vbook vc) (slice cs (i + 1) events) = Some (vbook v1)"
proof -
  let ?v = "if i = cs then beginChain v else v"
  have v: "chain_of vc ?v" "val_ok ?v" "vbook ?v = vbook v" using inv by (auto simp: loop_inv_def chain_begin)
  from validateAndApply_chain [OF v(1,2), of i "events ! i"] step show "chain_of vc v1" "val_ok v1" by simp_all
  assume "r = None"
  with validator.step_sound [OF v(2)] step v(3) have s: "spec_step (vbook v) (events ! i) = Some (vbook v1)" by auto
  have "slice cs (i + 1) events = slice cs i events @ [events ! i]"
    using slice_split [of cs i "i + 1" events] inv i by (simp add: loop_inv_def slice_def take_Suc_conv_app_nth Cons_nth_drop_Suc [symmetric])
  moreover have "spec_run (vbook vc) (slice cs i events) = Some (vbook v)"
    using inv by (cases "i = cs") (auto simp: loop_inv_def slice_def)
  ultimately show "spec_run (vbook vc) (slice cs (i + 1) events) = Some (vbook v1)"
    using s by (simp add: spec_run_append)
qed

lemma loop_inv_commit:
  assumes inv: "loop_inv s0 events cs i v outs vc" and i: "i < length events" and ok: "val_ok v1"
    and run: "spec_run (vbook vc) (slice cs (i + 1) events) = Some (vbook v1)"
  shows "loop_inv s0 events (i + 1) (i + 1) v1 (mark_range cs (i + 1) (\<lambda>_. None) outs) v1"
proof -
  have len: "length outs = length events" "cs \<le> i" using inv by (auto simp: loop_inv_def)
  then have "accepted (slice cs (i + 1) events) (map (\<lambda>_. None) [cs..<i + 1]) = slice cs (i + 1) events"
    using i accepted_None [of "slice cs (i + 1) events"] by (simp add: map_replicate_const del: upt_Suc)
  with inv i ok run len show ?thesis
    by (simp add: loop_inv_def accepted_mark_range spec_run_append del: upt_Suc take_Suc)
qed

lemma loop_inv_abort:
  assumes inv: "loop_inv s0 events cs i v outs vc" and b: "cs \<le> b" "b \<le> length events"
    and v': "vbook v' = vbook vc" "val_ok v'" and f: "\<And>k. f k \<noteq> None"
  shows "loop_inv s0 events b b v' (mark_range cs b f outs) v'"
proof -
  have "accepted (slice cs b events) (map f [cs..<b]) = []" by (rule accepted_Some) (use f in auto)
  with inv b v' show ?thesis by (simp add: loop_inv_def accepted_mark_range)
qed

text \<open>The rule by which properties of the loop are proved: an invariant \<open>I\<close> that each of its
  five branches keeps, or turns into the postcondition \<open>Q\<close>.\<close>

definition mark_failed :: "transfer \<Rightarrow> nat \<Rightarrow> ledger_error \<Rightarrow> nat \<Rightarrow> ledger_error option" where
  "mark_failed t i e k = (if k = i then Some e else Some (ErrLinkedChainFailed (tr_ID t) (int i) e))"

lemma validate_loop_rule:
  fixes I :: "nat \<Rightarrow> nat \<Rightarrow> batchValidator \<Rightarrow> ledger_error option list \<Rightarrow> bool"
  assumes init: "I cs i v outs" "i < length events \<or> i = cs \<and> i = length events"
    and fin: "\<And>v outs. I (length events) (length events) v outs \<Longrightarrow> Q outs"
    and abort: "\<And>cs i v outs v1 e. \<lbrakk> I cs i v outs; i < length events;
        validateAndApply i (if i = cs then beginChain v else v) (events ! i) = (v1, Some e) \<rbrakk> \<Longrightarrow>
        I (chainEnd_from events i + 1) (chainEnd_from events i + 1) (rollbackChain v1)
          (mark_range cs (chainEnd_from events i + 1) (mark_failed (events ! i) i e) outs)"
    and commit: "\<And>cs i v outs v1. \<lbrakk> I cs i v outs; i < length events; \<not> isLinked (events ! i);
        validateAndApply i (if i = cs then beginChain v else v) (events ! i) = (v1, None) \<rbrakk> \<Longrightarrow>
        I (i + 1) (i + 1) v1 (mark_range cs (i + 1) (\<lambda>_. None) outs)"
    and dangle: "\<And>cs i v outs v1. \<lbrakk> I cs i v outs; i + 1 = length events; isLinked (events ! i);
        validateAndApply i (if i = cs then beginChain v else v) (events ! i) = (v1, None) \<rbrakk> \<Longrightarrow>
        Q (mark_range cs (i + 1) (mark_failed (events ! i) i (ErrLinkedChainOpen (tr_ID (events ! i)) (int i))) outs)"
    and cont: "\<And>cs i v outs v1. \<lbrakk> I cs i v outs; i + 1 < length events; isLinked (events ! i);
        validateAndApply i (if i = cs then beginChain v else v) (events ! i) = (v1, None) \<rbrakk> \<Longrightarrow> I cs (i + 1) v1 outs"
  shows "Q (validate_loop events cs i v outs)"
  using init
proof (induction "length events - i" arbitrary: cs i v outs rule: less_induct)
  case less
  note unf = validate_loop.simps [of events cs i v outs]
  show ?case
  proof (cases "length events \<le> i")
    case True
    with less.prems have "i = length events" "cs = length events" by auto
    moreover have "validate_loop events cs i v outs = outs" using True by (simp add: unf)
    ultimately show ?thesis using less.prems(1) fin by simp
  next
    case False
    then have i: "i < length events" by simp
    obtain v1 r where step: "validateAndApply i (if i = cs then beginChain v else v) (events ! i) = (v1, r)" by fastforce
    consider e where "r = Some e" | "r = None" "\<not> isLinked (events ! i)"
      | "r = None" "isLinked (events ! i)" "i + 1 = length events" | "r = None" "isLinked (events ! i)" "i + 1 < length events"
      using i by (cases r) fastforce+
    then show ?thesis
    proof cases
      case (1 e)
      note b = chainEnd_from_bounds [OF i]
      have "Q (validate_loop events (chainEnd_from events i + 1) (chainEnd_from events i + 1) (rollbackChain v1)
          (mark_range cs (chainEnd_from events i + 1) (mark_failed (events ! i) i e) outs))"
        by (rule less.hyps) (use b i abort [OF less.prems(1) i] step 1 in auto)
      then show ?thesis using i step 1 by (simp add: unf mark_failed_def [abs_def] Let_def)
    next
      case 2
      have "Q (validate_loop events (i + 1) (i + 1) v1 (mark_range cs (i + 1) (\<lambda>_. None) outs))"
        by (rule less.hyps) (use i commit [OF less.prems(1) i] step 2 in auto)
      then show ?thesis using i step 2 by (simp add: unf)
    next
      case 3
      with dangle [OF less.prems(1)] step i show ?thesis
        by (simp add: unf mark_failed_def [abs_def] Let_def flip: 3(3))
    next
      case 4
      have "Q (validate_loop events cs (i + 1) v1 outs)"
        by (rule less.hyps) (use i cont [OF less.prems(1)] step 4 in auto)
      moreover have "i \<noteq> length events - 1" using 4 by simp
      ultimately show ?thesis using i step 4 by (simp add: unf Let_def)
    qed
  qed
qed

lemma mark_failed_not_None [simp]: "mark_failed t i e k \<noteq> None"
  by (simp add: mark_failed_def)

lemma validate_loop_sound:
  assumes "loop_inv s0 events cs i v outs vc" "i < length events \<or> i = cs \<and> i = length events"
  shows "length (validate_loop events cs i v outs) = length events \<and>
     (\<exists>s'. spec_run s0 (accepted events (validate_loop events cs i v outs)) = Some s')"
proof (rule validate_loop_rule [where I = "\<lambda>cs i v outs. \<exists>vc. loop_inv s0 events cs i v outs vc"], goal_cases)
  case (3 v outs)
  then show ?case by (auto simp: loop_inv_def)
next
  case (4 cs i v outs v1 e)
  then obtain vc where inv: "loop_inv s0 events cs i v outs vc" by blast
  then have "cs \<le> chainEnd_from events i + 1" "chainEnd_from events i + 1 \<le> length events"
    using chainEnd_from_bounds [OF 4(2)] by (auto simp: loop_inv_def)
  from loop_inv_abort [OF inv this, of "rollbackChain v1" "mark_failed (events ! i) i e"]
    rollback_book [OF loop_inv_step(1) [OF inv 4(2,3)]] inv
  show ?case by (auto simp: loop_inv_def [of _ _ cs])
next
  case (5 cs i v outs v1)
  then obtain vc where inv: "loop_inv s0 events cs i v outs vc" by blast
  from loop_inv_commit [OF inv 5(2)] loop_inv_step [OF inv 5(2,4)] show ?case by blast
next
  case (6 cs i v outs v1)
  then obtain vc where inv: "loop_inv s0 events cs i v outs vc" by blast
  have "loop_inv s0 events (i + 1) (i + 1) vc (mark_range cs (i + 1)
      (mark_failed (events ! i) i (ErrLinkedChainOpen (tr_ID (events ! i)) (int i))) outs) vc"
    by (rule loop_inv_abort [OF inv]) (use inv 6(2) in \<open>auto simp: loop_inv_def\<close>)
  with 6(2) show ?case by (auto simp: loop_inv_def)
next
  case (7 cs i v outs v1)
  then obtain vc where inv: "loop_inv s0 events cs i v outs vc" by blast
  have "i < length events" using 7(2) by simp
  note st = loop_inv_step [OF inv this 7(4)]
  have "loop_inv s0 events cs (i + 1) v1 outs vc" using inv st by (simp add: loop_inv_def)
  then show ?case by blast
qed (use assms in auto)

subsection \<open>Linked chains are all or nothing\<close>

text \<open>A linked transfer has the same fate as its successor; one that no transfer follows
  fails. Read along a chain, either every member is accepted or none is.\<close>

definition chain_atomic :: "nat \<Rightarrow> transfer list \<Rightarrow> ledger_error option list \<Rightarrow> bool" where
  "chain_atomic n events outs \<longleftrightarrow>
     (\<forall>k<n. isLinked (events ! k) \<longrightarrow>
        (if k + 1 < length events then k + 1 < n \<and> (outs ! k = None \<longleftrightarrow> outs ! (k + 1) = None) else outs ! k \<noteq> None))"

lemma chainEnd_unlinked: "i < length events \<Longrightarrow> isLinked (events ! chainEnd_from events i) \<Longrightarrow> chainEnd_from events i + 1 = length events"
proof (induction events i rule: chainEnd_from.induct)
  case (1 events i)
  show ?case
  proof (cases "isLinked (events ! i) \<and> i + 1 < length events")
    case True
    with 1 show ?thesis by (simp add: chainEnd_from.simps [of events i])
  next
    case False
    with 1 show ?thesis
      by (cases "i + 1 < length events")
         (auto simp: chainEnd_from.simps [of events i] chainEnd_from.simps [of events "Suc i"] split: if_splits)
  qed
qed

definition link_inv :: "transfer list \<Rightarrow> nat \<Rightarrow> nat \<Rightarrow> ledger_error option list \<Rightarrow> bool" where
  "link_inv events cs i outs \<longleftrightarrow> length outs = length events \<and> cs \<le> i \<and> chain_atomic cs events outs \<and>
     (\<forall>k. cs \<le> k \<longrightarrow> k < i \<longrightarrow> isLinked (events ! k))"

lemma chain_atomic_mark:
  assumes "chain_atomic cs events outs" "length outs = length events" "cs \<le> b" "b \<le> length events"
    and same: "\<And>j k. (f j = None) = (f k = None)"
    and last: "\<lbrakk> cs < b; isLinked (events ! (b - 1)) \<rbrakk> \<Longrightarrow> b = length events \<and> f (b - 1) \<noteq> None"
  shows "chain_atomic b events (mark_range cs b f outs)"
  unfolding chain_atomic_def
proof (intro allI impI)
  fix k assume k: "k < b" "isLinked (events ! k)"
  show "if k + 1 < length events then k + 1 < b \<and> (mark_range cs b f outs ! k = None \<longleftrightarrow> mark_range cs b f outs ! (k + 1) = None)
     else mark_range cs b f outs ! k \<noteq> None"
  proof (cases "k < cs")
    case True
    with assms k show ?thesis by (auto simp: chain_atomic_def split: if_splits)
  next
    case False
    with k assms(2-4) last same [of k "k + 1"] show ?thesis
      by (cases "k = b - 1") (auto split: if_splits)
  qed
qed

lemma validate_loop_links:
  assumes "link_inv events cs i outs" "i < length events \<or> i = cs \<and> i = length events"
  shows "chain_atomic (length events) events (validate_loop events cs i v outs)"
proof (rule validate_loop_rule [where I = "\<lambda>cs i v outs. link_inv events cs i outs"], goal_cases)
  case (4 cs i v outs v1 e)
  note b = chainEnd_from_bounds [OF 4(2)]
  have "chain_atomic (chainEnd_from events i + 1) events (mark_range cs (chainEnd_from events i + 1) (mark_failed (events ! i) i e) outs)"
    by (rule chain_atomic_mark) (use 4 b chainEnd_unlinked [OF 4(2)] in \<open>auto simp: link_inv_def\<close>)
  with 4 show ?case by (simp add: link_inv_def)
next
  case (5 cs i v outs v1)
  have "chain_atomic (i + 1) events (mark_range cs (i + 1) (\<lambda>_. None) outs)"
    by (rule chain_atomic_mark) (use 5 in \<open>auto simp: link_inv_def\<close>)
  with 5 show ?case by (simp add: link_inv_def)
next
  case (6 cs i v outs v1)
  have "chain_atomic (i + 1) events (mark_range cs (i + 1) (mark_failed (events ! i) i (ErrLinkedChainOpen (tr_ID (events ! i)) (int i))) outs)"
    by (rule chain_atomic_mark) (use 6 in \<open>auto simp: link_inv_def\<close>)
  with 6(2) show ?case by simp
next
  case (7 cs i v outs v1)
  then show ?case by (auto simp: link_inv_def less_Suc_eq)
qed (use assms in \<open>auto simp: link_inv_def\<close>)

subsection \<open>Validation and application agree\<close>

lemma ApplyBatch_accepted:
  "\<lbrakk> length outs = length events; am_ok m; spec_run (book_of m) (accepted events outs) = Some s' \<rbrakk> \<Longrightarrow>
     \<exists>m'. ApplyBatch events outs m = (m', outs) \<and> am_ok m' \<and> book_of m' = s'"
proof (induction outs events arbitrary: m rule: list_induct2)
  case (Cons r outs t events)
  show ?case
  proof (cases r)
    case (Some e)
    with Cons show ?thesis by (fastforce simp: accepted_def)
  next
    case None
    with Cons.prems(2) obtain s1 where s1: "spec_step (book_of m) t = Some s1" "spec_run s1 (accepted events outs) = Some s'"
      by (auto simp: accepted_def bind_eq_Some_conv)
    with Cons.prems(1) manager.step_iff [of m t] obtain m1 where "ApplyTransferState m t = (m1, None)"
      by (cases "ApplyTransferState m t") auto
    with Cons.prems(1) s1 manager.step_sound [of m t m1] manager.step_inv [of m t m1] Cons.IH [of m1] None
    show ?thesis by auto
  qed
qed (simp add: accepted_def)

lemma vbook_new: "vbook (newBatchValidator m) = book_of m"
  by (auto simp: vbook_def book_of_def staged_at_def newBatchValidator_def lookupPending_def)

lemma ValidateBatch_sound:
  assumes "am_ok m"
  shows "length (ValidateBatch events m) = length events \<and>
     (\<exists>s'. spec_run (book_of m) (accepted events (ValidateBatch events m)) = Some s')"
proof (cases "events = []")
  case False
  let ?v = "newBatchValidator m"
  have "val_ok ?v" using assms by (simp add: val_ok_def newBatchValidator_def am_ok_def)
  then have "loop_inv (book_of m) events 0 0 ?v (replicate (length events) None) ?v"
    by (simp add: loop_inv_def accepted_def vbook_new)
  from validate_loop_sound [OF this] False show ?thesis by (simp add: ValidateBatch_def)
qed (simp add: ValidateBatch_def accepted_def)

subsection \<open>Transfer IDs are used once\<close>

definition same_ids :: "batchValidator \<Rightarrow> batchValidator \<Rightarrow> bool" where
  "same_ids v v' \<longleftrightarrow> seenIDs v' = seenIDs v \<and> v_accounts v' = v_accounts v"

lemma same_ids_refl [simp]: "same_ids v v"
  by (simp add: same_ids_def)

lemma same_ids_prims [simp]:
  "same_ids w (snapshotAccount i v) = same_ids w v" "same_ids w (snapshotPending i v) = same_ids w v"
  "same_ids w (fst (getAccount v i)) = same_ids w v" "same_ids w (fst (update_staged v i f)) = same_ids w v"
  "same_ids w (restage i v) = same_ids w v" "same_ids w (set_pending i t del v) = same_ids w v"
  "same_ids w (beginChain v) = same_ids w v"
  by (simp_all add: same_ids_def snapshotAccount_def snapshotPending_def getAccount_def update_staged_def restage_def
      set_pending_def beginChain_def split: option.split sum.split prod.split)

lemma same_ids_undo [simp]:
  "same_ids w (foldr undo_account ss v) = same_ids w v" "same_ids w (foldr undo_pending ps v) = same_ids w v"
  by (induction ss; simp add: undo_account_def same_ids_def) (induction ps; simp add: undo_pending_def same_ids_def)

lemma same_ids_rollback [simp]: "same_ids w (rollbackChain v) = same_ids w v"
  by (simp add: rollbackChain_def)

lemma same_ids_andThen:
  "\<lbrakk> same_ids w (fst r); \<And>v. same_ids w v \<Longrightarrow> same_ids w (fst (f v)) \<rbrakk> \<Longrightarrow> same_ids w (fst (andThen r f))"
  by (cases r; cases "snd r") auto

lemma same_ids_stageAccounts: "same_ids w v \<Longrightarrow> same_ids w (fst (stageAccounts v d c))"
  unfolding stageAccounts_def by (rule same_ids_andThen) simp_all

lemma same_ids_settlement: "same_ids v (fst (validateSettlement v t))"
proof (cases "lookupPending v (tr_ID t)")
  case (Some p)
  show ?thesis
  proof (cases "refused t p")
    case True
    with Some show ?thesis by (auto simp: validateSettlement_def refused_def)
  next
    case False
    then show ?thesis unfolding validateSettlement_staged [OF Some False] settle_staged_def finish_post_def Let_def
      by (auto intro!: same_ids_andThen same_ids_stageAccounts)
  qed
qed (simp add: validateSettlement_def)

lemma same_ids_validateNew: "same_ids v (fst (validateNew v t))"
proof -
  have st: "same_ids v w \<Longrightarrow> same_ids v (fst (stage_plain w a b t)) \<and> same_ids v (fst (stage_hold w a b t))" for w a b
    by (auto simp: stage_plain_def stage_hold_def Let_def split: sum.split) (simp_all add: same_ids_def)
  show ?thesis unfolding validateNew_def
    by (auto intro!: same_ids_andThen same_ids_stageAccounts simp: st split: option.split sum.split)
qed

definition isNew :: "transfer \<Rightarrow> bool" where
  "isNew t \<longleftrightarrow> \<not> isPost t \<and> \<not> isVoid t"

lemma validateAndApply_ids:
  assumes r: "validateAndApply k v t = (v', r)"
  shows "v_accounts v' = v_accounts v" "dom (seenIDs v) \<subseteq> dom (seenIDs v')"
    "\<lbrakk> r = None; isNew t \<rbrakk> \<Longrightarrow> seenIDs v (tr_ID t) = None \<and> transfers (v_accounts v) (tr_ID t) = None \<and> seenIDs v' (tr_ID t) \<noteq> None"
proof -
  let ?w = "v\<lparr>seenIDs := (seenIDs v)(tr_ID t \<mapsto> k)\<rparr>"
  have "same_ids v v' \<and> (isNew t \<longrightarrow> r \<noteq> None) \<or>
     same_ids ?w v' \<and> isNew t \<and> seenIDs v (tr_ID t) = None \<and> transfers (v_accounts v) (tr_ID t) = None \<or>
     same_ids v v' \<and> \<not> isNew t"
    using same_ids_settlement [of v t] same_ids_validateNew [of ?w t] r
    by (auto simp: validateAndApply_def isNew_def GetTransfer_def split: if_splits)
  then show "v_accounts v' = v_accounts v" "dom (seenIDs v) \<subseteq> dom (seenIDs v')"
    "\<lbrakk> r = None; isNew t \<rbrakk> \<Longrightarrow> seenIDs v (tr_ID t) = None \<and> transfers (v_accounts v) (tr_ID t) = None \<and> seenIDs v' (tr_ID t) \<noteq> None"
    by (auto simp: same_ids_def)
qed

abbreviation new_ids :: "transfer list \<Rightarrow> ident list" where
  "new_ids ts \<equiv> map tr_ID (filter isNew ts)"

definition fresh_ids :: "account_manager \<Rightarrow> batchValidator \<Rightarrow> ident list \<Rightarrow> bool" where
  "fresh_ids m v xs \<longleftrightarrow> distinct xs \<and> set xs \<subseteq> dom (seenIDs v) \<and> set xs \<inter> dom (transfers m) = {}"

lemma fresh_ids_prefix:
  "\<lbrakk> fresh_ids m v (xs @ ys); dom (seenIDs v) \<subseteq> dom (seenIDs v') \<rbrakk> \<Longrightarrow> fresh_ids m v' xs"
  unfolding fresh_ids_def by (simp add: subset_iff) blast

lemma fresh_ids_snoc:
  "\<lbrakk> fresh_ids m v xs; dom (seenIDs v) \<subseteq> dom (seenIDs v'); x \<notin> dom (seenIDs v); x \<in> dom (seenIDs v'); x \<notin> dom (transfers m) \<rbrakk>
     \<Longrightarrow> fresh_ids m v' (xs @ [x])"
  unfolding fresh_ids_def by (simp add: subset_iff) blast

definition ids_inv :: "account_manager \<Rightarrow> transfer list \<Rightarrow> nat \<Rightarrow> nat \<Rightarrow> batchValidator \<Rightarrow> ledger_error option list \<Rightarrow> bool" where
  "ids_inv m events cs i v outs \<longleftrightarrow> length outs = length events \<and> cs \<le> i \<and> v_accounts v = m \<and>
     fresh_ids m v (new_ids (accepted (take cs events) (take cs outs) @ slice cs i events))"

lemma ids_inv_step:
  assumes inv: "ids_inv m events cs i v outs" and i: "i < length events"
    and step: "validateAndApply i (if i = cs then beginChain v else v) (events ! i) = (v1, None)"
  shows "ids_inv m events cs (i + 1) v1 outs"
proof -
  let ?v = "if i = cs then beginChain v else v"
  have v: "seenIDs ?v = seenIDs v" "v_accounts ?v = v_accounts v" by (simp_all add: beginChain_def)
  have "slice cs (i + 1) events = slice cs i events @ [events ! i]"
    using slice_split [of cs i "i + 1" events] inv i by (simp add: ids_inv_def slice_def take_Suc_conv_app_nth Cons_nth_drop_Suc [symmetric])
  then have "new_ids (accepted (take cs events) (take cs outs) @ slice cs (i + 1) events) =
     new_ids (accepted (take cs events) (take cs outs) @ slice cs i events) @ (if isNew (events ! i) then [tr_ID (events ! i)] else [])"
    by simp
  moreover note ids = validateAndApply_ids [OF step, unfolded v]
  moreover have f: "fresh_ids m v (new_ids (accepted (take cs events) (take cs outs) @ slice cs i events))"
    using inv by (simp add: ids_inv_def)
  moreover have "fresh_ids m v1 (new_ids (accepted (take cs events) (take cs outs) @ slice cs i events))"
    using fresh_ids_prefix [of m v _ "[]"] f ids(2) by simp
  ultimately show ?thesis
    using inv fresh_ids_snoc [OF f ids(2), of "tr_ID (events ! i)"] by (auto simp: ids_inv_def)
qed

lemma ids_inv_abort:
  assumes inv: "ids_inv m events cs i v outs" and b: "cs \<le> b" "b \<le> length events" and f: "\<And>k. f k \<noteq> None"
    and v': "v_accounts v' = m" "dom (seenIDs v) \<subseteq> dom (seenIDs v')"
  shows "ids_inv m events b b v' (mark_range cs b f outs)"
proof -
  have e: "accepted (slice cs b events) (map f [cs..<b]) = []" by (rule accepted_Some) (use f in auto)
  have "slice b b events = []" by (simp add: slice_def)
  moreover have "fresh_ids m v' (new_ids (accepted (take cs events) (take cs outs)))"
    using inv v'(2) fresh_ids_prefix [of m v "new_ids (accepted (take cs events) (take cs outs))"] by (auto simp: ids_inv_def)
  ultimately show ?thesis using e inv b v'(1) by (simp add: ids_inv_def accepted_mark_range)
qed

lemma ids_inv_commit:
  assumes inv: "ids_inv m events cs (i + 1) v1 outs" and i: "i < length events" "cs \<le> i"
  shows "ids_inv m events (i + 1) (i + 1) v1 (mark_range cs (i + 1) (\<lambda>_. None) outs)"
proof -
  have len: "length outs = length events" using inv by (simp add: ids_inv_def)
  have "accepted (slice cs (i + 1) events) (map (\<lambda>_. None) [cs..<i + 1]) = slice cs (i + 1) events"
    using i len accepted_None [of "slice cs (i + 1) events"] by (simp add: map_replicate_const del: upt_Suc)
  moreover have "slice (i + 1) (i + 1) events = []" by (simp add: slice_def)
  ultimately show ?thesis using inv i len unfolding ids_inv_def
    by (simp add: accepted_mark_range del: upt_Suc take_Suc)
qed

lemma ids_inv_done:
  assumes "ids_inv m events (length events) (length events) v outs"
  shows "distinct (new_ids (accepted events outs)) \<and> set (new_ids (accepted events outs)) \<inter> dom (transfers m) = {}"
proof -
  have "take (length events) outs = outs" using assms by (simp add: ids_inv_def)
  with assms show ?thesis by (simp add: ids_inv_def fresh_ids_def slice_def)
qed

lemma validate_loop_ids:
  assumes "ids_inv m events cs i v outs" "i < length events \<or> i = cs \<and> i = length events"
  defines "acc \<equiv> accepted events (validate_loop events cs i v outs)"
  shows "distinct (new_ids acc) \<and> set (new_ids acc) \<inter> dom (transfers m) = {}"
  unfolding acc_def
proof (rule validate_loop_rule [where I = "ids_inv m events"], goal_cases)
  case (3 v outs)
  then show ?case by (rule ids_inv_done)
next
  case (4 cs i v outs v1 e)
  have v: "seenIDs (if i = cs then beginChain v else v) = seenIDs v" "v_accounts (if i = cs then beginChain v else v) = v_accounts v"
    by (simp_all add: beginChain_def)
  note ids = validateAndApply_ids(1,2) [OF 4(3), unfolded v]
  have "same_ids v1 (rollbackChain v1)" by simp
  then show ?case using chainEnd_from_bounds [OF 4(2)] 4(1) ids
    by (intro ids_inv_abort [OF 4(1)]) (auto simp: same_ids_def ids_inv_def)
next
  case (5 cs i v outs v1)
  then show ?case using ids_inv_commit [OF ids_inv_step [OF 5(1,2,4)] 5(2)] by (simp add: ids_inv_def [of m events cs i])
next
  case (6 cs i v outs v1)
  have "ids_inv m events (i + 1) (i + 1) v (mark_range cs (i + 1) (mark_failed (events ! i) i (ErrLinkedChainOpen (tr_ID (events ! i)) (int i))) outs)"
    by (rule ids_inv_abort [OF 6(1)]) (use 6(1,2) in \<open>auto simp: ids_inv_def\<close>)
  with 6(2) ids_inv_done [of m events v "mark_range cs (i + 1) (mark_failed (events ! i) i (ErrLinkedChainOpen (tr_ID (events ! i)) (int i))) outs"]
  show ?case by simp
next
  case (7 cs i v outs v1)
  then show ?case using ids_inv_step [of m events cs i v outs v1] by simp
qed (use assms in auto)

lemma ValidateBatch_ids:
  fixes events :: "transfer list" and m :: account_manager
  defines "acc \<equiv> accepted events (ValidateBatch events m)"
  shows "distinct (new_ids acc) \<and> set (new_ids acc) \<inter> dom (transfers m) = {}"
proof (cases "events = []")
  case False
  have "ids_inv m events 0 0 (newBatchValidator m) (replicate (length events) None)"
    by (simp add: ids_inv_def fresh_ids_def accepted_def slice_def newBatchValidator_def)
  from validate_loop_ids [OF this] False show ?thesis by (simp add: acc_def ValidateBatch_def)
qed (simp add: acc_def ValidateBatch_def accepted_def)

text \<open>\<open>hist_ok\<close>: every open hold is in the recorded history. It holds of a ledger that has not
  been restored from a snapshot, and makes the duplicate check protect open holds.\<close>

definition hist_ok :: "account_manager \<Rightarrow> bool" where
  "hist_ok m \<longleftrightarrow> dom (pending m) \<subseteq> dom (transfers m)"

lemma hist_okD: "\<lbrakk> hist_ok m; transfers m i = None \<rbrakk> \<Longrightarrow> pending m i = None"
  by (auto simp: hist_ok_def subset_iff dom_def)

lemma fill_from_ID [simp]: "tr_ID (fill_from p t) = tr_ID t"
  by (simp add: fill_from_def Let_def)

lemma refines_pair_transfers: "\<lbrakk> refines_pair m r s; r = (m1, None) \<rbrakk> \<Longrightarrow> transfers m1 = transfers m \<and> pending m1 = pending m"
  using refines_pair_frame same_but_accountsD by metis

lemma update_account_transfers: "update_account m i f = (m', e) \<Longrightarrow> transfers m' = transfers m \<and> pending m' = pending m"
  by (auto simp: update_account_def split: sum.splits prod.splits)

lemma two_updates_transfers:
  "andThen (update_account m d f) (\<lambda>m1. update_account m1 c g) = (m', e) \<Longrightarrow> transfers m' = transfers m \<and> pending m' = pending m"
  by (auto simp: andThen_def split: prod.splits option.splits dest!: update_account_transfers)

lemma ApplyTransferState_transfers:
  assumes r: "ApplyTransferState m t = (m', None)"
  shows "dom (transfers m') = insert (tr_ID t) (dom (transfers m)) \<and> dom (pending m') \<subseteq> insert (tr_ID t) (dom (pending m))"
proof -
  from r obtain x where chk: "checkTransfer m t = Inr x" by (auto simp: ApplyTransferState_def split: sum.splits)
  note effects = movePending_def releasePending_def reservePending_def applyPendingDebit_def applyPendingCredit_def
    postImmediate_def ApplyDebit_def ApplyCredit_def
  show ?thesis
    using r chk
    by (auto simp: ApplyTransferState_def effects settle_hold_def Let_def simp flip: andThen_assoc
        split: if_splits option.splits elim!: andThen_SomeE dest!: two_updates_transfers)
qed

lemma ApplyTransferState_keeps:
  assumes inv: "am_inv m" and hist: "hist_ok m" and m1: "ApplyTransferState m t = (m1, None)"
    and ids: "distinct (new_ids (t # ts))" "set (new_ids (t # ts)) \<inter> dom (transfers m) = {}"
  shows "am_inv m1" "hist_ok m1" "distinct (new_ids ts)" "set (new_ids ts) \<inter> dom (transfers m1) = {}"
proof -
  have "am_ok m" using inv by (simp add: am_inv_def)
  from manager.step_sound [OF this m1] obtain s1 where s1: "spec_step (book_of m) t = Some s1" by blast
  note tr = ApplyTransferState_transfers [OF m1]
  have "flags_ok t" using s1 by (auto simp: spec_step_def split: if_splits)
  then have "isPending t \<longrightarrow> isNew t" by (auto simp: flags_ok_def isNew_def)
  with ids have fresh: "isPending t \<longrightarrow> pending m (tr_ID t) = None" by (auto intro!: hist_okD [OF hist])
  have settles: "\<not> isNew t \<longrightarrow> tr_ID t \<in> dom (transfers m)"
    using s1 hist_okD [OF hist, of "tr_ID t"]
    by (cases "transfers m (tr_ID t)") (auto simp: spec_step_def isNew_def hold_at_def split: if_splits)
  show "am_inv m1" by (rule am_inv_ApplyTransferState [OF inv fresh m1])
  show "hist_ok m1"
    using order_trans [OF conjunct2 [OF tr] insert_mono [OF hist [unfolded hist_ok_def]]] conjunct1 [OF tr] by (simp add: hist_ok_def)
  show "distinct (new_ids ts)" using ids by (auto split: if_splits)
  show "set (new_ids ts) \<inter> dom (transfers m1) = {}" using ids tr settles by (cases "isNew t") auto
qed

lemma run_keeps_inv:
  "\<lbrakk> am_inv m; hist_ok m; run_steps ApplyTransferState m ts = (m', None); distinct (new_ids ts); set (new_ids ts) \<inter> dom (transfers m) = {} \<rbrakk> \<Longrightarrow>
     am_inv m' \<and> hist_ok m'"
proof (induction ts arbitrary: m)
  case (Cons t ts)
  from Cons.prems(3) obtain m1 where m1: "ApplyTransferState m t = (m1, None)" "run_steps ApplyTransferState m1 ts = (m', None)"
    by (auto split: prod.splits option.splits)
  with Cons.IH [of m1] ApplyTransferState_keeps [OF Cons.prems(1,2) m1(1) Cons.prems(4,5)] show ?case by blast
qed simp

text \<open>Applying a batch is running its accepted transfers.\<close>

lemma ApplyBatch_run:
  "\<lbrakk> length outs = length events; ApplyBatch events outs m = (m', outs) \<rbrakk> \<Longrightarrow>
     run_steps ApplyTransferState m (accepted events outs) = (m', None)"
proof (induction outs events arbitrary: m rule: list_induct2)
  case (Cons r outs t events)
  then show ?case
    by (cases r) (auto simp: accepted_def split: prod.splits)
qed (simp add: accepted_def)

lemma batch_runs:
  assumes "am_ok m"
  obtains m' where "ApplyBatch events (ValidateBatch events m) m = (m', ValidateBatch events m)"
    "run_steps ApplyTransferState m (accepted events (ValidateBatch events m)) = (m', None)"
    "length (ValidateBatch events m) = length events"
  using ValidateBatch_sound [OF assms, of events] ApplyBatch_accepted [OF _ assms] ApplyBatch_run by blast

subsection \<open>Properties of batches\<close>

text \<open>C1: Validation before the write-ahead log and application after it agree: every transfer
  of the batch that \<^verbatim>\<open>ValidateBatch\<close> accepts is applied by \<^verbatim>\<open>ApplyBatch\<close> without an error
  (the outcomes it returns are those of validation), rejected ones have no effect, and the
  resulting book is the one the specification reaches on the accepted transfers.\<close>

theorem accepted_transfers_apply:
  assumes "am_ok m"
  shows "\<exists>m'. ApplyBatch events (ValidateBatch events m) m = (m', ValidateBatch events m) \<and> am_ok m' \<and>
     spec_run (book_of m) (accepted events (ValidateBatch events m)) = Some (book_of m')"
  using ValidateBatch_sound [OF assms, of events] ApplyBatch_accepted [OF _ assms] by blast

theorem accepted_transfers_apply_witness:
  "snd (ApplyBatch [sample_transfer 7 1 2 30 0, sample_transfer 8 1 2 300 0, sample_transfer 9 1 2 70 0]
      [None, Some (ErrInsufficientFunds (ident_of 1) (FromUint64 70) (FromUint64 300)), None] sample_manager) =
     [None, Some (ErrInsufficientFunds (ident_of 1) (FromUint64 70) (FromUint64 300)), None]"
proof -
  let ?ev = "[sample_transfer 7 1 2 30 0, sample_transfer 8 1 2 300 0, sample_transfer 9 1 2 70 0]"
  have "ValidateBatch ?ev sample_manager = [None, Some (ErrInsufficientFunds (ident_of 1) (FromUint64 70) (FromUint64 300)), None]"
    by code_simp
  with accepted_transfers_apply [OF am_ok_sample, of ?ev] show ?thesis by auto
qed

text \<open>C25: A whole batch keeps the invariant of the ledger: accounts, holds, their coverage by
  pending balances, the expiry heap and the record of used IDs. In particular an open hold is
  never overwritten by a new one of the same ID.\<close>

theorem batch_keeps_invariant:
  assumes "am_inv m" "hist_ok m"
  shows "am_inv (fst (ApplyBatch events (ValidateBatch events m) m)) \<and>
     hist_ok (fst (ApplyBatch events (ValidateBatch events m) m))"
proof -
  have "am_ok m" using assms(1) by (simp add: am_inv_def)
  from batch_runs [OF this] run_keeps_inv [OF assms] ValidateBatch_ids [of events m] show ?thesis by (metis fst_conv)
qed

theorem batch_keeps_invariant_witness:
  "am_inv (fst (ApplyBatch [sample_transfer 7 1 2 30 1, sample_transfer 7 1 2 10 1]
     (ValidateBatch [sample_transfer 7 1 2 30 1, sample_transfer 7 1 2 10 1] sample_manager) sample_manager))"
proof -
  have "pending sample_manager = Map.empty"
    by (simp add: sample_manager_def Create_def NewAccountManager_def split: option.split)
  then have "hist_ok sample_manager" by (simp add: hist_ok_def)
  from batch_keeps_invariant [OF am_inv_sample this] show ?thesis by blast
qed

text \<open>C6: Linked chains are all or nothing: in the outcomes of a batch a linked transfer is
  accepted exactly when its successor is, and a linked transfer at the end of the batch is
  never accepted.\<close>

theorem linked_chains_are_atomic:
  "chain_atomic (length events) events (ValidateBatch events m)"
proof (cases "events = []")
  case False
  have "link_inv events 0 0 (replicate (length events) None)" by (simp add: link_inv_def chain_atomic_def)
  from validate_loop_links [OF this] False show ?thesis by (simp add: ValidateBatch_def)
qed (simp add: chain_atomic_def)

text \<open>C26: Rolling back restores the validator's accounts and holds to what they were when the
  chain began, whatever transfers were tried since and wherever they failed.\<close>

theorem rollback_restores:
  assumes "val_ok v"
  shows "let v' = rollbackChain (fst (run_steps (validateAndApply k) (beginChain v) ts))
     in staged v' = staged v \<and> v_pending v' = v_pending v \<and> v_accounts v' = v_accounts v"
proof -
  have "chain_of v (fst (run_steps (validateAndApply k) w ts))" if "chain_of v w" "val_ok w" for w
    using that
  proof (induction ts arbitrary: w)
    case (Cons t ts)
    obtain w' r where w': "validateAndApply k w t = (w', r)" by fastforce
    with validateAndApply_chain [OF Cons.prems, of k t] Cons.IH [of w'] show ?case by (cases r) simp_all
  qed simp
  with chain_begin [of v] assms rollback_exact show ?thesis by (simp add: Let_def)
qed

theorem rollback_restores_witness:
  "staged (rollbackChain (fst (run_steps (validateAndApply 0) (beginChain (newBatchValidator sample_manager))
     [sample_transfer 7 1 2 30 8, sample_transfer 8 1 2 300 0]))) = Map.empty"
proof -
  have "val_ok (newBatchValidator sample_manager)"
    using am_ok_sample by (simp add: val_ok_def newBatchValidator_def am_ok_def)
  from rollback_restores [OF this, of 0 "[sample_transfer 7 1 2 30 8, sample_transfer 8 1 2 300 0]"] show ?thesis
    by (simp add: Let_def newBatchValidator_def del: run_steps.simps)
qed

text \<open>C27: Transfer IDs are used once: the new (plain or pending) transfers a batch accepts have
  pairwise different IDs, none of which was recorded before.\<close>

theorem accepted_ids_are_fresh:
  "distinct (new_ids (accepted events (ValidateBatch events m))) \<and>
   set (new_ids (accepted events (ValidateBatch events m))) \<inter> dom (transfers m) = {}"
  by (rule ValidateBatch_ids)

end
