(* ===== verification/Event_Loop.thy ===== *)
theory Event_Loop
  imports Batch_Validator Wal_Log
begin

text \<open>
  The single-writer event loop (\<^verbatim>\<open>internal/engine/loop.go\<close>, with the event types of
  \<^verbatim>\<open>event.go\<close>). A batch of transfers is timestamped, validated, logged, synced and applied; a
  batch of account creations is filtered, logged, synced and applied. Channels are replaced by
  results: the acknowledgements of a batch are returned in the order of its events. The wall
  clock is an argument. Metrics are left out, as are errors of \<^verbatim>\<open>Sync\<close>, which come from the
  operating system only.
\<close>

datatype engine_error = LedgerErr ledger_error | WalErr wal_error

record transferAck =
  ack_Transfer :: transfer
  ack_Err :: "engine_error option"

record eventLoop =
  el_accounts :: account_manager
  el_wal :: wal
  el_currentLSN :: i64
  el_clock :: i64

definition NewEventLoop :: "account_manager \<Rightarrow> wal \<Rightarrow> eventLoop" where
  "NewEventLoop a w = \<lparr>el_accounts = a, el_wal = w, el_currentLSN = wal_currentLSN w, el_clock = 0\<rparr>"

subsection \<open>Reads\<close>

definition handleRead :: "eventLoop \<Rightarrow> ident \<Rightarrow> account \<times> ledger_error option" where
  "handleRead l i =
     (case Get (el_accounts l) i of
        Inl e \<Rightarrow> (account0, Some e)
      | Inr idx \<Rightarrow> (accounts (el_accounts l) ! idx, None))"

definition handleReadTransfer :: "eventLoop \<Rightarrow> ident \<Rightarrow> transfer option" where
  "handleReadTransfer l i = GetTransfer (el_accounts l) i"

definition handleReadAccountTransfers :: "eventLoop \<Rightarrow> ident \<Rightarrow> ident \<Rightarrow> int \<Rightarrow> transfer list" where
  "handleReadAccountTransfers l accountID afterID limit = AccountTransfers (el_accounts l) accountID afterID limit"

record snapshotView =
  sv_Accounts :: "account list"
  sv_Pendings :: "transfer list"
  sv_LSN :: i64

definition snapshot_view :: "ident list \<Rightarrow> eventLoop \<Rightarrow> snapshotView" where
  "snapshot_view ks l = \<lparr>sv_Accounts = Snapshot (el_accounts l), sv_Pendings = PendingTransfers ks (el_accounts l), sv_LSN = el_currentLSN l\<rparr>"

subsection \<open>Transfers\<close>

text \<open>\<^verbatim>\<open>makeWALRecords\<close>: the payloads are appended to one buffer, and each record holds the part from
  its mark on.\<close>

fun make_records :: "transfer list \<Rightarrow> ledger_error option list \<Rightarrow> bytes \<Rightarrow> wal_record list" where
  "make_records (t # ts) (Some e # outs) payloadBuf = make_records ts outs payloadBuf"
| "make_records (t # ts) (None # outs) payloadBuf =
     (let mark = length payloadBuf;
          payloadBuf' = AppendTransferPayload payloadBuf t
      in \<lparr>rec_LSN = 0, rec_Type = RecordTypeTransfer, rec_Payload = drop mark payloadBuf'\<rparr> # make_records ts outs payloadBuf')"
| "make_records _ _ payloadBuf = []"

definition makeWALRecords :: "transfer list \<Rightarrow> ledger_error option list \<Rightarrow> wal_record list" where
  "makeWALRecords events outcomes = make_records events outcomes []"

text \<open>The part of \<^verbatim>\<open>processBatch\<close> before the log: the clock of the batch, expired holds, time stamps
  and validation.\<close>

definition batch_time :: "i64 \<Rightarrow> eventLoop \<Rightarrow> i64" where
  "batch_time wallClock l = (if sint wallClock \<le> sint (el_clock l) then el_clock l + 1 else wallClock)"

definition open_batch :: "i64 \<Rightarrow> eventLoop \<Rightarrow> transfer list \<Rightarrow> eventLoop \<times> transfer list \<times> ledger_error option list" where
  "open_batch wallClock l events =
     (let now = batch_time wallClock l;
          l1 = l\<lparr>el_clock := now, el_accounts := CloseExpired (SetClock (el_accounts l) now)\<rparr>;
          events' = map (\<lambda>t. t\<lparr>Timestamp := now\<rparr>) events
      in (l1, events', ValidateBatch events' (el_accounts l1)))"

text \<open>The part after the log: application and acknowledgements.\<close>

definition finish_batch :: "eventLoop \<Rightarrow> transfer list \<Rightarrow> ledger_error option list \<Rightarrow> eventLoop \<times> transferAck list" where
  "finish_batch l events outcomes =
     (let (accounts2, outcomes2) = ApplyBatch events outcomes (el_accounts l)
      in (l\<lparr>el_accounts := accounts2\<rparr>, map2 (\<lambda>t r. \<lparr>ack_Transfer = t, ack_Err = map_option LedgerErr r\<rparr>) events outcomes2))"

definition processBatch :: "i64 \<Rightarrow> eventLoop \<Rightarrow> transfer list \<Rightarrow> eventLoop \<times> transferAck list" where
  "processBatch wallClock l events =
     (let (l1, events', outcomes) = open_batch wallClock l events;
          records = makeWALRecords events' outcomes
      in if records = [] then finish_batch l1 events' outcomes
         else
           (case AppendBatch (el_wal l1) records of
              (w, Inl e) \<Rightarrow> (l1\<lparr>el_wal := w\<rparr>, map (\<lambda>_. \<lparr>ack_Transfer = transfer0, ack_Err = Some (WalErr e)\<rparr>) events')
            | (w, Inr _) \<Rightarrow>
                let w' = Sync w
                in finish_batch (l1\<lparr>el_wal := w', el_currentLSN := wal_currentLSN w'\<rparr>) events' outcomes))"

subsection \<open>Accounts\<close>

text \<open>The first loop of \<^verbatim>\<open>processAccountCreate\<close>: refused accounts get their error, the others a
  record; \<open>None\<close> marks the positions of the latter (\<^verbatim>\<open>walIdx\<close>).\<close>

fun scan_creates :: "account_manager \<Rightarrow> account list \<Rightarrow> bytes \<Rightarrow> ledger_error option list \<times> wal_record list" where
  "scan_creates m [] payloadBuf = ([], [])"
| "scan_creates m (a # as) payloadBuf =
     (case ValidateAccount a of
        Some e \<Rightarrow> (let (results, recs) = scan_creates m as payloadBuf in (Some e # results, recs))
      | None \<Rightarrow>
          (case Get m (acc_ID a) of
             Inr _ \<Rightarrow> (let (results, recs) = scan_creates m as payloadBuf in (Some (ErrDuplicateAccountID (acc_ID a)) # results, recs))
           | Inl _ \<Rightarrow>
               let mark = length payloadBuf;
                   payloadBuf' = AppendAccountPayload payloadBuf a;
                   (results, recs) = scan_creates m as payloadBuf'
               in (None # results, \<lparr>rec_LSN = 0, rec_Type = RecordTypeAccount, rec_Payload = drop mark payloadBuf'\<rparr> # recs)))"

fun create_all :: "account_manager \<Rightarrow> account list \<Rightarrow> ledger_error option list \<Rightarrow> account_manager \<times> engine_error option list" where
  "create_all m (a # as) (Some e # results) = (let (m', rs) = create_all m as results in (m', Some (LedgerErr e) # rs))"
| "create_all m (a # as) (None # results) =
     (let (m1, r) = Create m a; (m', rs) = create_all m1 as results in (m', map_option LedgerErr r # rs))"
| "create_all m _ _ = (m, [])"

definition processAccountCreate :: "eventLoop \<Rightarrow> account list \<Rightarrow> eventLoop \<times> engine_error option list" where
  "processAccountCreate l accs =
     (let (results, recs) = scan_creates (el_accounts l) accs []
      in if recs = [] then (l, map (map_option LedgerErr) results)
         else
           (case AppendBatch (el_wal l) recs of
              (w, Inl e) \<Rightarrow> (l\<lparr>el_wal := w\<rparr>, map (\<lambda>r. case r of Some x \<Rightarrow> Some (LedgerErr x) | None \<Rightarrow> Some (WalErr e)) results)
            | (w, Inr _) \<Rightarrow>
                let w' = Sync w;
                    l1 = l\<lparr>el_wal := w', el_currentLSN := wal_currentLSN w'\<rparr>;
                    (m', out) = create_all (el_accounts l1) accs results
                in (l1\<lparr>el_accounts := m'\<rparr>, out)))"

subsection \<open>What is logged\<close>

lemma make_records_payloads:
  "\<lbrakk> length outs = length ts; \<forall>t\<in>set ts. wf_transfer t \<rbrakk> \<Longrightarrow>
     make_records ts outs buf =
       map (\<lambda>t. \<lparr>rec_LSN = 0, rec_Type = RecordTypeTransfer, rec_Payload = EncodeTransferPayload t\<rparr>) (accepted ts outs)"
proof (induction outs ts arbitrary: buf rule: list_induct2)
  case (Cons r outs t ts)
  show ?case
  proof (cases r)
    case None
    have "AppendTransferPayload buf t = buf @ transfer_layout t" using Cons.prems by (intro AppendTransferPayload_layout) simp
    moreover have "EncodeTransferPayload t = transfer_layout t"
      using AppendTransferPayload_layout [of t "[]"] Cons.prems by (simp add: EncodeTransferPayload_def)
    ultimately show ?thesis using None Cons by (simp add: accepted_def Let_def)
  qed (use Cons in \<open>simp add: accepted_def\<close>)
qed (simp add: accepted_def)

lemma scan_creates_payloads:
  "\<forall>a\<in>set as. wf_account a \<Longrightarrow> scan_creates m as buf = (results, recs) \<Longrightarrow> length results = length as \<and>
     recs = map (\<lambda>a. \<lparr>rec_LSN = 0, rec_Type = RecordTypeAccount, rec_Payload = EncodeAccountPayload a\<rparr>) (map fst (filter (\<lambda>(a, r). r = None) (zip as results)))"
proof (induction as arbitrary: buf results recs)
  case (Cons a as)
  have lay: "AppendAccountPayload b a = b @ account_layout a" for b using Cons.prems by (intro AppendAccountPayload_layout) simp
  then have enc: "EncodeAccountPayload a = account_layout a" by (simp add: EncodeAccountPayload_def)
  have "\<forall>a\<in>set as. wf_account a" using Cons.prems by simp
  note ih = Cons.IH [OF this]
  show ?case
    using Cons.prems(2) ih lay enc
    by (auto simp: Let_def split: option.splits sum.splits prod.splits)
qed simp

end
