(* ===== verification/Idempotency_Store.thy ===== *)
theory Idempotency_Store
  imports Core_Model
begin

text \<open>
  The idempotency store (\<^verbatim>\<open>internal/engine/idempotency.go\<close>): a hash map from keys to entries
  which also form a doubly linked list in order of use. Entries live in a store addressed by
  references, and the list operations write the \<^verbatim>\<open>prev\<close> and \<^verbatim>\<open>next\<close> pointers as the code does.
  Times are integers in nanoseconds, and the reading of \<^verbatim>\<open>time.Now()\<close> is an argument. Loops
  along the pointers and the eviction loop of \<^verbatim>\<open>Commit\<close> return an option, \<open>None\<close> when they do not
  end.

  The pointer structure is shown to implement a list of entries. On that list: a reservation
  excludes others until it is committed or rolled back, a committed result is found again until
  it expires, and \<^verbatim>\<open>Commit\<close> ends exactly when no more than \<^verbatim>\<open>maxSize\<close> reservations are open.
\<close>

record idEntry =
  e_key :: bytes
  e_transfer :: transfer
  e_pending :: bool
  e_expiresAt :: int
  e_prev :: "nat option"
  e_next :: "nat option"

record idStore =
  is_maxSize :: int
  is_ttl :: int
  is_entries :: "bytes \<rightharpoonup> nat"
  is_head :: "nat option"
  is_tail :: "nat option"
  is_size :: int
  is_heap :: "nat \<Rightarrow> idEntry"
  is_fresh :: nat

definition idEntry0 :: idEntry where
  "idEntry0 = \<lparr>e_key = zeros 32, e_transfer = transfer0, e_pending = False, e_expiresAt = 0, e_prev = None, e_next = None\<rparr>"

definition NewIdempotencyStore :: "int \<Rightarrow> int \<Rightarrow> idStore" where
  "NewIdempotencyStore mx ttl =
     \<lparr>is_maxSize = (if mx \<le> 0 then 100000 else mx), is_ttl = (if ttl \<le> 0 then 900000000000 else ttl),
      is_entries = Map.empty, is_head = None, is_tail = None, is_size = 0, is_heap = (\<lambda>_. idEntry0), is_fresh = 0\<rparr>"

subsection \<open>The linked list\<close>

definition upd_entry :: "nat \<Rightarrow> (idEntry \<Rightarrow> idEntry) \<Rightarrow> idStore \<Rightarrow> idStore" where
  "upd_entry r f s = s\<lparr>is_heap := (is_heap s)(r := f (is_heap s r))\<rparr>"

definition insertHeadLocked :: "idStore \<Rightarrow> nat \<Rightarrow> idStore" where
  "insertHeadLocked s r =
     (let s1 = upd_entry r (\<lambda>e. e\<lparr>e_prev := None, e_next := is_head s\<rparr>) s;
          s2 = (case is_head s1 of Some h \<Rightarrow> upd_entry h (\<lambda>e. e\<lparr>e_prev := Some r\<rparr>) s1 | None \<Rightarrow> s1);
          s3 = s2\<lparr>is_head := Some r\<rparr>
      in if is_tail s3 = None then s3\<lparr>is_tail := Some r\<rparr> else s3)"

definition unlinkLocked :: "idStore \<Rightarrow> nat \<Rightarrow> idStore" where
  "unlinkLocked s r =
     (let s1 = (case e_prev (is_heap s r) of
                  Some p \<Rightarrow> upd_entry p (\<lambda>e. e\<lparr>e_next := e_next (is_heap s r)\<rparr>) s
                | None \<Rightarrow> s\<lparr>is_head := e_next (is_heap s r)\<rparr>);
          s2 = (case e_next (is_heap s1 r) of
                  Some n \<Rightarrow> upd_entry n (\<lambda>e. e\<lparr>e_prev := e_prev (is_heap s1 r)\<rparr>) s1
                | None \<Rightarrow> s1\<lparr>is_tail := e_prev (is_heap s1 r)\<rparr>)
      in upd_entry r (\<lambda>e. e\<lparr>e_prev := None, e_next := None\<rparr>) s2)"

definition removeLocked :: "idStore \<Rightarrow> nat \<Rightarrow> idStore" where
  "removeLocked s r =
     (let s1 = unlinkLocked s r
      in s1\<lparr>is_entries := (is_entries s1)(e_key (is_heap s1 r) := None), is_size := is_size s1 - 1\<rparr>)"

definition touchLocked :: "idStore \<Rightarrow> nat \<Rightarrow> idStore" where
  "touchLocked s r = (if is_head s = Some r then s else insertHeadLocked (unlinkLocked s r) r)"

subsection \<open>Eviction\<close>

partial_function (option) evict_expired :: "int \<Rightarrow> nat option \<Rightarrow> idStore \<Rightarrow> idStore option" where
  "evict_expired now e s =
     (case e of
        None \<Rightarrow> Some s
      | Some r \<Rightarrow>
          if now < e_expiresAt (is_heap s r) then Some s
          else evict_expired now (e_prev (is_heap s r)) (removeLocked s r))"

definition evictExpiredLocked :: "int \<Rightarrow> idStore \<Rightarrow> idStore option" where
  "evictExpiredLocked now s = evict_expired now (is_tail s) s"

partial_function (option) evict_lru :: "nat option \<Rightarrow> idStore \<Rightarrow> idStore option" where
  "evict_lru e s =
     (case e of
        None \<Rightarrow> Some s
      | Some r \<Rightarrow> if e_pending (is_heap s r) then evict_lru (e_prev (is_heap s r)) s else Some (removeLocked s r))"

definition evictLRULocked :: "idStore \<Rightarrow> idStore option" where
  "evictLRULocked s = evict_lru (is_tail s) s"

partial_function (option) shrink :: "idStore \<Rightarrow> idStore option" where
  "shrink s =
     (if is_size s > is_maxSize s
      then (case evictLRULocked s of None \<Rightarrow> None | Some s' \<Rightarrow> shrink s')
      else Some s)"

subsection \<open>Operations\<close>

text \<open>The answer of \<^verbatim>\<open>CheckAndReserve\<close>: the result of an earlier transfer, a fresh reservation, or
  the conflict error. \<open>check_fast\<close> is the part under the read lock; between it and the rest another
  call may run.\<close>

datatype reservation = Found transfer | Reserved | Conflict ledger_error

definition check_fast :: "int \<Rightarrow> idStore \<Rightarrow> bytes \<Rightarrow> reservation option" where
  "check_fast now s key =
     (case is_entries s key of
        None \<Rightarrow> None
      | Some r \<Rightarrow>
          if e_pending (is_heap s r) then Some (Conflict (ErrIdempotencyConflict key))
          else if now < e_expiresAt (is_heap s r) then Some (Found (e_transfer (is_heap s r)))
          else None)"

definition alloc :: "idEntry \<Rightarrow> idStore \<Rightarrow> idStore" where
  "alloc e s =
     (let r = is_fresh s;
          s1 = s\<lparr>is_heap := (is_heap s)(r := e), is_fresh := Suc r, is_entries := (is_entries s)(e_key e \<mapsto> r)\<rparr>;
          s2 = insertHeadLocked s1 r
      in s2\<lparr>is_size := is_size s2 + 1\<rparr>)"

definition reserve_slow :: "int \<Rightarrow> idStore \<Rightarrow> bytes \<Rightarrow> (idStore \<times> reservation) option" where
  "reserve_slow now s key =
     (case evictExpiredLocked now s of
        None \<Rightarrow> None
      | Some s0 \<Rightarrow>
          let insert = (\<lambda>s. (alloc (idEntry0\<lparr>e_key := key, e_pending := True, e_expiresAt := now + is_ttl s\<rparr>) s, Reserved))
          in Some (case is_entries s0 key of
               None \<Rightarrow> insert s0
             | Some r \<Rightarrow>
                 if e_pending (is_heap s0 r) then (s0, Conflict (ErrIdempotencyConflict key))
                 else if now < e_expiresAt (is_heap s0 r) then (touchLocked s0 r, Found (e_transfer (is_heap s0 r)))
                 else insert (removeLocked s0 r)))"

definition CheckAndReserve :: "int \<Rightarrow> idStore \<Rightarrow> bytes \<Rightarrow> (idStore \<times> reservation) option" where
  "CheckAndReserve now s key =
     (case check_fast now s key of
        Some ans \<Rightarrow> Some (s, ans)
      | None \<Rightarrow> reserve_slow now s key)"

definition Commit :: "int \<Rightarrow> idStore \<Rightarrow> bytes \<Rightarrow> transfer \<Rightarrow> idStore option" where
  "Commit now s key result =
     (case evictExpiredLocked now s of
        None \<Rightarrow> None
      | Some s0 \<Rightarrow>
          let s1 = (case is_entries s0 key of None \<Rightarrow> alloc (idEntry0\<lparr>e_key := key\<rparr>) s0 | Some _ \<Rightarrow> s0);
              r = the (is_entries s1 key);
              s2 = upd_entry r (\<lambda>e. e\<lparr>e_pending := False, e_transfer := result, e_expiresAt := now + is_ttl s1\<rparr>) s1
          in shrink (touchLocked s2 r))"

definition Rollback :: "idStore \<Rightarrow> bytes \<Rightarrow> idStore" where
  "Rollback s key =
     (case is_entries s key of
        Some r \<Rightarrow> if e_pending (is_heap s r) then removeLocked s r else s
      | None \<Rightarrow> s)"

subsection \<open>The list the pointers represent\<close>

fun hd_or :: "'a list \<Rightarrow> 'a option \<Rightarrow> 'a option" where
  "hd_or [] n = n"
| "hd_or (x # xs) n = Some x"

definition last_or :: "'a list \<Rightarrow> 'a option \<Rightarrow> 'a option" where
  "last_or xs p = (if xs = [] then p else Some (last xs))"

text \<open>\<open>lseg h p rs n\<close>: the references \<open>rs\<close> are chained by their pointers, with \<open>p\<close> before and \<open>n\<close>
  behind them.\<close>

fun lseg :: "(nat \<Rightarrow> idEntry) \<Rightarrow> nat option \<Rightarrow> nat list \<Rightarrow> nat option \<Rightarrow> bool" where
  "lseg h p [] n \<longleftrightarrow> True"
| "lseg h p (r # rs) n \<longleftrightarrow> e_prev (h r) = p \<and> e_next (h r) = hd_or rs n \<and> lseg h (Some r) rs n"

definition store_inv :: "idStore \<Rightarrow> nat list \<Rightarrow> bool" where
  "store_inv s rs \<longleftrightarrow> distinct rs \<and> lseg (is_heap s) None rs None \<and> is_head s = hd_or rs None \<and> is_tail s = last_or rs None \<and>
     is_size s = int (length rs) \<and> (\<forall>r\<in>set rs. r < is_fresh s) \<and>
     (\<forall>k r. is_entries s k = Some r \<longleftrightarrow> r \<in> set rs \<and> e_key (is_heap s r) = k)"

lemma or_simps [simp]: "last_or [] p = p" "last_or (xs @ [x]) p = Some x" "last_or (x # xs) p = last_or xs (Some x)"
  "hd_or (xs @ ys) n = hd_or xs (hd_or ys n)" "last_or xs (last_or ys p) = last_or (ys @ xs) p"
  by (simp_all add: last_or_def) (cases xs; simp)

lemma lseg_append [simp]: "lseg h p (xs @ ys) n \<longleftrightarrow> lseg h p xs (hd_or ys n) \<and> lseg h (last_or xs p) ys n"
  by (induction xs arbitrary: p) auto

lemma lseg_cong:
  "(\<And>r. r \<in> set rs \<Longrightarrow> e_prev (h' r) = e_prev (h r) \<and> e_next (h' r) = e_next (h r)) \<Longrightarrow> lseg h' p rs n = lseg h p rs n"
  by (induction rs arbitrary: p) auto

lemma lseg_set_next:
  assumes "lseg h p (xs @ [x]) n" and "x \<notin> set xs"
  shows "lseg (h(x := (h x)\<lparr>e_next := n'\<rparr>)) p (xs @ [x]) n'"
proof -
  have "lseg (h(x := (h x)\<lparr>e_next := n'\<rparr>)) p xs (Some x) = lseg h p xs (Some x)"
    by (rule lseg_cong) (use assms(2) in auto)
  with assms(1) show ?thesis by simp
qed

lemma lseg_set_prev:
  assumes "lseg h p (y # ys) n" and "y \<notin> set ys"
  shows "lseg (h(y := (h y)\<lparr>e_prev := p'\<rparr>)) p' (y # ys) n"
proof -
  have "lseg (h(y := (h y)\<lparr>e_prev := p'\<rparr>)) (Some y) ys n = lseg h (Some y) ys n"
    by (rule lseg_cong) (use assms(2) in auto)
  with assms(1) show ?thesis by simp
qed

lemma lseg_outside: "r \<notin> set rs \<Longrightarrow> lseg (h(r := e)) p rs n = lseg h p rs n"
  by (rule lseg_cong) auto

text \<open>The data of an entry, without the pointers.\<close>

definition same_data :: "idEntry \<Rightarrow> idEntry \<Rightarrow> bool" where
  "same_data e e' \<longleftrightarrow> e_key e' = e_key e \<and> e_transfer e' = e_transfer e \<and> e_pending e' = e_pending e \<and> e_expiresAt e' = e_expiresAt e"

definition same_store :: "idStore \<Rightarrow> idStore \<Rightarrow> bool" where
  "same_store s s' \<longleftrightarrow> is_maxSize s' = is_maxSize s \<and> is_ttl s' = is_ttl s \<and> is_entries s' = is_entries s \<and> is_size s' = is_size s \<and>
     is_fresh s' = is_fresh s \<and> (\<forall>r. same_data (is_heap s r) (is_heap s' r))"

definition list_of :: "idStore \<Rightarrow> nat list \<Rightarrow> bool" where
  "list_of s rs \<longleftrightarrow> distinct rs \<and> lseg (is_heap s) None rs None \<and> is_head s = hd_or rs None \<and> is_tail s = last_or rs None"

lemma unlink_frame: "same_store s (unlinkLocked s r)"
  by (auto simp: same_store_def same_data_def unlinkLocked_def upd_entry_def Let_def split: option.split)

lemma insertHead_frame: "same_store s (insertHeadLocked s r)"
  by (auto simp: same_store_def same_data_def insertHeadLocked_def upd_entry_def Let_def split: option.split)

lemma unlink_list:
  assumes l: "list_of s (xs @ r # ys)"
  shows "list_of (unlinkLocked s r) (xs @ ys)"
proof -
  let ?h = "is_heap s"
  have d: "distinct (xs @ r # ys)" using l by (simp add: list_of_def)
  have p: "e_prev (?h r) = last_or xs None" "e_next (?h r) = hd_or ys None" and x: "lseg ?h None xs (Some r)" and y: "lseg ?h (Some r) ys None"
    using l by (simp_all add: list_of_def)
  define h1 where "h1 = (case last_or xs None of None \<Rightarrow> ?h | Some q \<Rightarrow> ?h(q := (?h q)\<lparr>e_next := hd_or ys None\<rparr>))"
  define h2 where "h2 = (case hd_or ys None of None \<Rightarrow> h1 | Some q \<Rightarrow> h1(q := (h1 q)\<lparr>e_prev := last_or xs None\<rparr>))"
  have r1: "e_prev (h1 r) = last_or xs None" "e_next (h1 r) = hd_or ys None"
    using d p by (cases xs rule: rev_cases; simp add: h1_def)+
  have x1: "lseg h1 None xs (hd_or ys None)"
  proof (cases xs rule: rev_cases)
    case (snoc xs' q)
    with x d lseg_set_next [of ?h None xs' q "Some r" "hd_or ys None"] show ?thesis by (auto simp: h1_def)
  qed simp
  have y1: "lseg h1 (Some r) ys None"
    using y d by (cases xs rule: rev_cases) (auto simp: h1_def lseg_outside)
  have x2: "lseg h2 None xs (hd_or ys None)"
    using x1 d by (cases ys) (auto simp: h2_def lseg_outside)
  have y2: "lseg h2 (last_or xs None) ys None"
  proof (cases ys)
    case (Cons q ys')
    with y1 d lseg_set_prev [of h1 "Some r" q ys' None "last_or xs None"] show ?thesis by (auto simp: h2_def)
  qed simp
  have heap: "is_heap (unlinkLocked s r) = h2(r := (h2 r)\<lparr>e_prev := None, e_next := None\<rparr>)"
    using d p r1 by (cases xs rule: rev_cases; cases ys) (auto simp: unlinkLocked_def upd_entry_def h1_def h2_def Let_def fun_eq_iff)
  have ends: "is_head (unlinkLocked s r) = hd_or (xs @ ys) None" "is_tail (unlinkLocked s r) = last_or (xs @ ys) None"
  proof -
    have q: "last_or xs None = Some q \<Longrightarrow> q \<noteq> r" for q using d by (auto simp: last_or_def split: if_splits)
    have "is_head (unlinkLocked s r) = (if xs = [] then hd_or ys None else is_head s)"
      using p by (auto simp: unlinkLocked_def upd_entry_def last_or_def Let_def split: option.split)
    then show "is_head (unlinkLocked s r) = hd_or (xs @ ys) None" using l by (cases xs) (simp_all add: list_of_def)
    have "is_tail (unlinkLocked s r) = (if ys = [] then last_or xs None else is_tail s)"
      using p q by (cases "last_or xs None"; cases ys) (auto simp: unlinkLocked_def upd_entry_def Let_def)
    then show "is_tail (unlinkLocked s r) = last_or (xs @ ys) None" using l by (auto simp: list_of_def last_or_def)
  qed
  have "r \<notin> set xs" "r \<notin> set ys" using d by auto
  with x2 y2 ends d show ?thesis by (simp add: list_of_def heap lseg_outside)
qed

lemma insertHead_list:
  assumes l: "list_of s rs" and r: "r \<notin> set rs"
  shows "list_of (insertHeadLocked s r) (r # rs)"
proof (cases rs)
  case Nil
  with l show ?thesis by (simp add: list_of_def insertHeadLocked_def upd_entry_def Let_def)
next
  case (Cons q qs)
  let ?h = "is_heap s"
  let ?h1 = "?h(r := (?h r)\<lparr>e_prev := None, e_next := Some q\<rparr>)"
  have "lseg ?h1 None rs None" using l r by (simp add: list_of_def lseg_outside)
  moreover have "distinct rs" using l by (simp add: list_of_def)
  ultimately have "lseg (?h1(q := (?h1 q)\<lparr>e_prev := Some r\<rparr>)) (Some r) rs None"
    using lseg_set_prev [of ?h1 None q qs None "Some r"] Cons by simp
  with l r Cons show ?thesis by (auto simp: list_of_def insertHeadLocked_def upd_entry_def last_or_def Let_def)
qed

lemma same_dataD: "same_data e e' \<Longrightarrow> e_key e' = e_key e \<and> e_transfer e' = e_transfer e \<and> e_pending e' = e_pending e \<and> e_expiresAt e' = e_expiresAt e"
  by (simp add: same_data_def)

lemma same_store_refl: "same_store s s"
  by (simp add: same_store_def same_data_def)

lemma same_store_trans: "same_store a b \<Longrightarrow> same_store b c \<Longrightarrow> same_store a c"
  by (auto simp: same_store_def same_data_def)

subsection \<open>The list of entries\<close>

text \<open>What a store holds, most recently used first: the data of the entries.\<close>

record item =
  it_key :: bytes
  it_pending :: bool
  it_expires :: int
  it_transfer :: transfer

definition item_of :: "idEntry \<Rightarrow> item" where
  "item_of e = \<lparr>it_key = e_key e, it_pending = e_pending e, it_expires = e_expiresAt e, it_transfer = e_transfer e\<rparr>"

definition items :: "idStore \<Rightarrow> nat list \<Rightarrow> item list" where
  "items s rs = map (\<lambda>r. item_of (is_heap s r)) rs"

definition represents :: "idStore \<Rightarrow> item list \<Rightarrow> bool" where
  "represents s xs \<longleftrightarrow> (\<exists>rs. store_inv s rs \<and> items s rs = xs)"

lemma item_of_simps [simp]: "it_key (item_of e) = e_key e" "it_pending (item_of e) = e_pending e"
  "it_expires (item_of e) = e_expiresAt e" "it_transfer (item_of e) = e_transfer e"
  by (simp_all add: item_of_def)

lemma items_simps [simp]: "items s [] = []" "items s (r # rs) = item_of (is_heap s r) # items s rs" "items s (rs @ qs) = items s rs @ items s qs"
  by (simp_all add: items_def)

lemma same_store_items: "same_store s s' \<Longrightarrow> items s' rs = items s rs"
  by (auto simp: same_store_def same_data_def items_def item_of_def)

lemma store_inv_list: "store_inv s rs \<Longrightarrow> list_of s rs"
  by (simp add: store_inv_def list_of_def)

lemma store_inv_keys: "store_inv s rs \<Longrightarrow> distinct (map it_key (items s rs))"
proof -
  assume inv: "store_inv s rs"
  have "inj_on (\<lambda>r. e_key (is_heap s r)) (set rs)"
  proof (rule inj_onI)
    fix r q assume "r \<in> set rs" "q \<in> set rs" and k: "e_key (is_heap s r) = e_key (is_heap s q)"
    then have "is_entries s (e_key (is_heap s r)) = Some r" "is_entries s (e_key (is_heap s r)) = Some q"
      using inv by (auto simp: store_inv_def)
    then show "r = q" by simp
  qed
  then show ?thesis using inv by (simp add: items_def store_inv_def distinct_map comp_def)
qed

lemma remove_inv:
  assumes inv: "store_inv s (xs @ r # ys)"
  shows "store_inv (removeLocked s r) (xs @ ys)" "items (removeLocked s r) qs = items s qs"
    "is_maxSize (removeLocked s r) = is_maxSize s" "is_ttl (removeLocked s r) = is_ttl s"
proof -
  let ?s1 = "unlinkLocked s r"
  note fr = unlink_frame [of s r]
  have l: "list_of ?s1 (xs @ ys)" using unlink_list store_inv_list [OF inv] by blast
  have key: "e_key (is_heap ?s1 q) = e_key (is_heap s q)" for q using fr by (simp add: same_store_def same_data_def)
  have ents: "is_entries ?s1 = is_entries s" "is_fresh ?s1 = is_fresh s" "is_size ?s1 = is_size s" using fr by (simp_all add: same_store_def)
  have e: "is_entries s k = Some q \<longleftrightarrow> q \<in> set (xs @ r # ys) \<and> e_key (is_heap s q) = k" for k q using inv by (simp add: store_inv_def)
  have "((is_entries s)(e_key (is_heap s r) := None)) k = Some q \<longleftrightarrow> q \<in> set (xs @ ys) \<and> e_key (is_heap s q) = k" for k q
  proof (cases "k = e_key (is_heap s r)")
    case True
    have "is_entries s k = Some r" using e True by simp
    then have "e_key (is_heap s q) = k \<and> q \<in> set (xs @ r # ys) \<longrightarrow> q = r" using e by (metis option.inject)
    moreover have "r \<notin> set (xs @ ys)" using inv by (simp add: store_inv_def)
    ultimately show ?thesis using True by auto
  next
    case False
    with e [of k q] show ?thesis by auto
  qed
  with l inv show "store_inv (removeLocked s r) (xs @ ys)"
    by (auto simp: store_inv_def removeLocked_def list_of_def ents key Let_def)
  show "items (removeLocked s r) qs = items s qs"
    using same_store_items [OF fr] by (simp add: items_def removeLocked_def Let_def)
  show "is_maxSize (removeLocked s r) = is_maxSize s" "is_ttl (removeLocked s r) = is_ttl s"
    using fr by (simp_all add: removeLocked_def same_store_def Let_def)
qed

lemma touch_inv:
  assumes inv: "store_inv s (xs @ r # ys)"
  shows "store_inv (touchLocked s r) (r # xs @ ys)" "items (touchLocked s r) qs = items s qs"
    "is_maxSize (touchLocked s r) = is_maxSize s" "is_ttl (touchLocked s r) = is_ttl s"
proof -
  have fr: "same_store s (touchLocked s r)"
    unfolding touchLocked_def using same_store_trans [OF unlink_frame insertHead_frame] same_store_refl by simp
  have r: "r \<notin> set (xs @ ys)" using inv by (simp add: store_inv_def)
  have "list_of (touchLocked s r) (r # xs @ ys)"
  proof (cases "is_head s = Some r")
    case True
    then have "xs = []" using inv by (cases xs) (auto simp: store_inv_def)
    with True store_inv_list [OF inv] show ?thesis by (simp add: touchLocked_def)
  next
    case False
    with insertHead_list [OF unlink_list [OF store_inv_list [OF inv]] r] show ?thesis by (simp add: touchLocked_def)
  qed
  with inv fr show "store_inv (touchLocked s r) (r # xs @ ys)"
    by (auto simp: store_inv_def list_of_def same_store_def same_data_def)
  show "items (touchLocked s r) qs = items s qs" by (rule same_store_items [OF fr])
  show "is_maxSize (touchLocked s r) = is_maxSize s" "is_ttl (touchLocked s r) = is_ttl s" using fr by (simp_all add: same_store_def)
qed

lemma alloc_inv:
  assumes inv: "store_inv s rs" and new: "is_entries s (e_key e) = None"
  shows "store_inv (alloc e s) (is_fresh s # rs)" "items (alloc e s) (is_fresh s # rs) = item_of e # items s rs"
    "is_maxSize (alloc e s) = is_maxSize s" "is_ttl (alloc e s) = is_ttl s"
proof -
  let ?r = "is_fresh s"
  let ?s1 = "s\<lparr>is_heap := (is_heap s)(?r := e), is_fresh := Suc ?r, is_entries := (is_entries s)(e_key e \<mapsto> ?r)\<rparr>"
  have r: "?r \<notin> set rs" using inv by (auto simp: store_inv_def)
  have "list_of ?s1 rs" using store_inv_list [OF inv] r by (simp add: list_of_def lseg_outside)
  then have l: "list_of (insertHeadLocked ?s1 ?r) (?r # rs)" by (rule insertHead_list [OF _ r])
  note fr = insertHead_frame [of ?s1 ?r]
  have ents: "is_entries s k = Some q \<longleftrightarrow> q \<in> set rs \<and> e_key (is_heap s q) = k" for k q using inv by (simp add: store_inv_def)
  have key: "e_key (is_heap s q) \<noteq> e_key e" if "q \<in> set rs" for q using ents [of "e_key e" q] new that by auto
  show "store_inv (alloc e s) (is_fresh s # rs)"
    using l fr inv r ents key
    by (auto simp: store_inv_def list_of_def alloc_def same_store_def same_data_def Let_def less_Suc_eq)
  show "items (alloc e s) (is_fresh s # rs) = item_of e # items s rs"
    using fr r by (auto simp: items_def alloc_def same_store_def same_data_def item_of_def Let_def)
  show "is_maxSize (alloc e s) = is_maxSize s" "is_ttl (alloc e s) = is_ttl s"
    using fr by (simp_all add: alloc_def same_store_def Let_def)
qed

subsection \<open>Eviction on the list\<close>

definition l_evict :: "int \<Rightarrow> item list \<Rightarrow> item list" where
  "l_evict now xs = rev (dropWhile (\<lambda>x. it_expires x \<le> now) (rev xs))"

fun drop_first :: "('a \<Rightarrow> bool) \<Rightarrow> 'a list \<Rightarrow> 'a list" where
  "drop_first P [] = []"
| "drop_first P (x # xs) = (if P x then xs else x # drop_first P xs)"

definition l_lru :: "item list \<Rightarrow> item list" where
  "l_lru xs = rev (drop_first (\<lambda>x. \<not> it_pending x) (rev xs))"

definition open_count :: "item list \<Rightarrow> nat" where
  "open_count xs = length (filter it_pending xs)"

lemma evict_expired_list:
  "store_inv s rs \<Longrightarrow> \<exists>s' rs'. evict_expired now (last_or rs None) s = Some s' \<and> store_inv s' rs' \<and>
     items s' rs' = l_evict now (items s rs) \<and> is_maxSize s' = is_maxSize s \<and> is_ttl s' = is_ttl s"
proof (induction rs arbitrary: s rule: rev_induct)
  case Nil
  then show ?case by (intro exI [of _ s] exI [of _ "[]"]) (simp add: evict_expired.simps l_evict_def items_def)
next
  case (snoc r rs)
  have prev: "e_prev (is_heap s r) = last_or rs None" using snoc.prems by (simp add: store_inv_def)
  show ?case
  proof (cases "now < e_expiresAt (is_heap s r)")
    case True
    with snoc.prems show ?thesis
      by (intro exI [of _ s] exI [of _ "rs @ [r]"]) (simp add: evict_expired.simps [of now "Some r"] l_evict_def items_def)
  next
    case False
    note rm = remove_inv [of s rs r "[]", OF snoc.prems]
    have "store_inv (removeLocked s r) rs" using rm(1) by simp
    from snoc.IH [OF this] obtain s' rs' where "evict_expired now (last_or rs None) (removeLocked s r) = Some s'" "store_inv s' rs'"
      "items s' rs' = l_evict now (items (removeLocked s r) rs)" "is_maxSize s' = is_maxSize (removeLocked s r)" "is_ttl s' = is_ttl (removeLocked s r)" by blast
    with rm False prev show ?thesis
      by (intro exI [of _ s'] exI [of _ rs']) (simp add: evict_expired.simps [of now "Some r"] l_evict_def)
  qed
qed

lemma evict_lru_list:
  "\<lbrakk> store_inv s (rs @ qs); \<forall>q\<in>set qs. e_pending (is_heap s q) \<rbrakk> \<Longrightarrow>
     \<exists>s' rs'. evict_lru (last_or rs None) s = Some s' \<and> store_inv s' rs' \<and>
       items s' rs' = l_lru (items s (rs @ qs)) \<and> is_maxSize s' = is_maxSize s \<and> is_ttl s' = is_ttl s"
proof (induction rs arbitrary: qs rule: rev_induct)
  case Nil
  have skip: "drop_first P xs = xs" if "\<forall>x\<in>set xs. \<not> P x" for P and xs :: "item list"
    using that by (induction xs) auto
  have "l_lru (items s qs) = items s qs" unfolding l_lru_def using Nil(2) by (subst skip) (auto simp: items_def)
  with Nil show ?case by (intro exI [of _ s] exI [of _ qs]) (simp add: evict_lru.simps)
next
  case (snoc r rs)
  have prev: "e_prev (is_heap s r) = last_or rs None" using snoc.prems by (simp add: store_inv_def)
  show ?case
  proof (cases "e_pending (is_heap s r)")
    case True
    from snoc.IH [of "r # qs"] snoc.prems True prev show ?thesis
      by (simp add: evict_lru.simps [of "Some r"])
  next
    case False
    have app: "drop_first P (xs @ y # ys) = xs @ ys" if "\<forall>x\<in>set xs. \<not> P x" "P y" for P and xs ys :: "item list" and y
      using that by (induction xs) auto
    have "l_lru (items s ((rs @ [r]) @ qs)) = items s (rs @ qs)"
      unfolding l_lru_def items_def using False snoc.prems(2) by (simp add: app)
    with remove_inv [of s rs r qs] snoc.prems False show ?thesis
      by (intro exI [of _ "removeLocked s r"] exI [of _ "rs @ qs"]) (simp add: evict_lru.simps [of "Some r"])
  qed
qed

lemma evictExpired_list:
  assumes "store_inv s rs"
  obtains s' rs' where "evictExpiredLocked now s = Some s'" "store_inv s' rs'" "items s' rs' = l_evict now (items s rs)"
    "is_maxSize s' = is_maxSize s" "is_ttl s' = is_ttl s"
  using evict_expired_list [OF assms, of now] assms that by (auto simp: evictExpiredLocked_def store_inv_def)

lemma evictLRU_list:
  assumes "store_inv s rs"
  obtains s' rs' where "evictLRULocked s = Some s'" "store_inv s' rs'" "items s' rs' = l_lru (items s rs)"
    "is_maxSize s' = is_maxSize s" "is_ttl s' = is_ttl s"
  using evict_lru_list [of s rs "[]"] assms that by (auto simp: evictLRULocked_def store_inv_def)

subsection \<open>The eviction loop of Commit\<close>

lemma drop_first_props:
  "filter (\<lambda>x. \<not> P x) (drop_first P xs) = filter (\<lambda>x. \<not> P x) xs"
  "(\<exists>x\<in>set xs. P x) \<Longrightarrow> Suc (length (drop_first P xs)) = length xs"
  "(\<exists>x\<in>set xs. P x) \<Longrightarrow> \<exists>as y bs. xs = as @ y # bs \<and> P y \<and> drop_first P xs = as @ bs \<and> (\<forall>a\<in>set as. \<not> P a)"
proof -
  show "filter (\<lambda>x. \<not> P x) (drop_first P xs) = filter (\<lambda>x. \<not> P x) xs" by (induction xs) auto
  show *: "(\<exists>x\<in>set xs. P x) \<Longrightarrow> \<exists>as y bs. xs = as @ y # bs \<and> P y \<and> drop_first P xs = as @ bs \<and> (\<forall>a\<in>set as. \<not> P a)"
  proof (induction xs)
    case (Cons x xs)
    show ?case
    proof (cases "P x")
      case True
      then show ?thesis by (intro exI [of _ "[]"]) auto
    next
      case False
      with Cons obtain as y bs where "xs = as @ y # bs \<and> P y \<and> drop_first P xs = as @ bs \<and> (\<forall>a\<in>set as. \<not> P a)" by auto
      with False show ?thesis by (intro exI [of _ "x # as"]) auto
    qed
  qed simp
  then show "(\<exists>x\<in>set xs. P x) \<Longrightarrow> Suc (length (drop_first P xs)) = length xs" by fastforce
qed

lemma open_count_lru: "open_count (l_lru xs) = open_count xs"
proof -
  have "filter it_pending (l_lru xs) = filter it_pending xs"
    using drop_first_props(1) [of "\<lambda>x. \<not> it_pending x" "rev xs"] by (simp add: l_lru_def rev_filter [symmetric])
  then show ?thesis by (simp add: open_count_def)
qed

lemma closed_exists: "open_count xs < length xs \<Longrightarrow> \<exists>x\<in>set xs. \<not> it_pending x"
  by (metis open_count_def filter_True nat_neq_iff)

lemma length_lru: "open_count xs < length xs \<Longrightarrow> Suc (length (l_lru xs)) = length xs"
  using closed_exists [of xs] drop_first_props(2) [of "rev xs" "\<lambda>x. \<not> it_pending x"] by (simp add: l_lru_def)

text \<open>The loop ends when the open reservations fit; then it keeps the most recent entry unless every
  other entry is open.\<close>

lemma shrink_ends:
  "\<lbrakk> store_inv s rs; items s rs = xs; int (open_count xs) \<le> is_maxSize s \<rbrakk> \<Longrightarrow>
     \<exists>s' rs'. shrink s = Some s' \<and> store_inv s' rs' \<and> int (length rs') \<le> is_maxSize s \<and>
       is_maxSize s' = is_maxSize s \<and> is_ttl s' = is_ttl s \<and> filter it_pending (items s' rs') = filter it_pending xs \<and> set (items s' rs') \<subseteq> set xs \<and>
       (\<forall>y ys. xs = y # ys \<and> int (open_count ys) < is_maxSize s \<longrightarrow> (\<exists>zs. items s' rs' = y # zs))"
proof (induction "length rs" arbitrary: s rs xs)
  case 0
  then show ?case by (intro exI [of _ s] exI [of _ rs]) (simp add: shrink.simps [of s] store_inv_def open_count_def)
next
  case (Suc n)
  have size: "is_size s = int (length rs)" "length xs = length rs" using Suc.prems by (auto simp: store_inv_def items_def)
  show ?case
  proof (cases "is_size s > is_maxSize s")
    case False
    with Suc.prems size show ?thesis by (intro exI [of _ s] exI [of _ rs]) (auto simp: shrink.simps [of s])
  next
    case True
    then have less: "open_count xs < length xs" using Suc.prems size by simp
    obtain s1 rs1 where s1: "evictLRULocked s = Some s1" "store_inv s1 rs1" "items s1 rs1 = l_lru xs" "is_maxSize s1 = is_maxSize s" "is_ttl s1 = is_ttl s"
      using evictLRU_list [OF Suc.prems(1)] Suc.prems(2) by metis
    have len1: "n = length rs1" using length_lru [OF less] s1(3) size Suc(2) by (metis Suc_inject items_def length_map)
    have "int (open_count (l_lru xs)) \<le> is_maxSize s1" using Suc.prems(3) s1(4) by (simp add: open_count_lru)
    from Suc.hyps(1) [OF len1 s1(2,3) this] obtain s' rs' where s': "shrink s1 = Some s'" "store_inv s' rs'" "int (length rs') \<le> is_maxSize s1"
      "is_maxSize s' = is_maxSize s1" "is_ttl s' = is_ttl s1" "filter it_pending (items s' rs') = filter it_pending (l_lru xs)" "set (items s' rs') \<subseteq> set (l_lru xs)"
      "\<And>y ys. l_lru xs = y # ys \<and> int (open_count ys) < is_maxSize s1 \<Longrightarrow> \<exists>zs. items s' rs' = y # zs" by blast
    obtain as y bs where cut: "rev xs = as @ y # bs" "\<not> it_pending y" "l_lru xs = rev bs @ rev as" "\<forall>a\<in>set as. it_pending a"
      using drop_first_props(3) [of "rev xs" "\<lambda>x. \<not> it_pending x"] closed_exists [OF less] by (auto simp: l_lru_def)
    then have xs: "xs = rev bs @ y # rev as" by (metis rev.simps(2) rev_append rev_rev_ident append.assoc append_Cons append_Nil)
    have head: "\<exists>zs. items s' rs' = z # zs" if z: "xs = z # zs" "int (open_count zs) < is_maxSize s" for z zs
    proof -
      have "rev bs \<noteq> []"
      proof
        assume "rev bs = []"
        with xs z have "zs = rev as" by simp
        with cut(4) have "open_count zs = length zs" by (simp add: open_count_def)
        with True size z show False by simp
      qed
      then obtain bs' where bs': "rev bs = z # bs'" using xs z by (cases "rev bs") auto
      with xs z have "zs = bs' @ y # rev as" by simp
      then have "open_count (bs' @ rev as) = open_count zs" using cut(2) by (simp add: open_count_def)
      with s'(8) [of z "bs' @ rev as"] cut(3) bs' z s1(4) show ?thesis by simp
    qed
    have "filter it_pending (l_lru xs) = filter it_pending xs" "set (l_lru xs) \<subseteq> set xs" using xs cut(2,3) by auto
    with s' s1 True head show ?thesis by (intro exI [of _ s'] exI [of _ rs']) (simp add: shrink.simps [of s])
  qed
qed

text \<open>A run of the loop that ends has found the open reservations to fit: evicting never removes an
  open one.\<close>

lemma shrink_returns_only:
  assumes "shrink s = Some s'" and "store_inv s rs"
  shows "int (open_count (items s rs)) \<le> is_maxSize s"
proof -
  have "\<forall>rs. store_inv s rs \<longrightarrow> int (open_count (items s rs)) \<le> is_maxSize s"
  proof (rule shrink.raw_induct [OF _ assms(1), where P = "\<lambda>s _. \<forall>rs. store_inv s rs \<longrightarrow> int (open_count (items s rs)) \<le> is_maxSize s"], intro allI impI)
  fix shrink' s s' rs
  assume ih: "\<And>s s'. shrink' s = Some s' \<Longrightarrow> \<forall>rs. store_inv s rs \<longrightarrow> int (open_count (items s rs)) \<le> is_maxSize s"
    and step: "(if is_maxSize s < is_size s then case evictLRULocked s of None \<Rightarrow> None | Some x \<Rightarrow> shrink' x else Some s) = Some s'"
    and inv: "store_inv s rs"
  show "int (open_count (items s rs)) \<le> is_maxSize s"
  proof (cases "is_size s > is_maxSize s")
    case True
    obtain s1 rs1 where s1: "evictLRULocked s = Some s1" "store_inv s1 rs1" "items s1 rs1 = l_lru (items s rs)" "is_maxSize s1 = is_maxSize s"
      using evictLRU_list [OF inv] by metis
    with step True have "shrink' s1 = Some s'" by simp
    with ih s1 show ?thesis by (metis open_count_lru)
  next
    case False
    have "open_count (items s rs) \<le> length rs" by (metis items_def length_filter_le length_map open_count_def)
    with inv False show ?thesis by (simp add: store_inv_def)
  qed
  qed
  with assms(2) show ?thesis by blast
qed

subsection \<open>Operations on the list\<close>

definition l_others :: "bytes \<Rightarrow> item list \<Rightarrow> item list" where
  "l_others k xs = filter (\<lambda>x. it_key x \<noteq> k) xs"

lemma entries_items:
  assumes "store_inv s rs"
  shows "is_entries s k = None \<longleftrightarrow> k \<notin> it_key ` set (items s rs)"
    "is_entries s k = Some r \<Longrightarrow> \<exists>xs ys. rs = xs @ r # ys \<and> e_key (is_heap s r) = k \<and> l_others k (items s rs) = items s (xs @ ys)"
proof -
  have e: "is_entries s k = Some r \<longleftrightarrow> r \<in> set rs \<and> e_key (is_heap s r) = k" for k r using assms by (simp add: store_inv_def)
  then have "k \<in> it_key ` set (items s rs) \<longleftrightarrow> (\<exists>r. is_entries s k = Some r)" by (auto simp: items_def image_iff)
  then show "is_entries s k = None \<longleftrightarrow> k \<notin> it_key ` set (items s rs)" by (metis not_None_eq)
  assume k: "is_entries s k = Some r"
  with e obtain xs ys where rs: "rs = xs @ r # ys" and key: "e_key (is_heap s r) = k" by (meson split_list)
  have "distinct (map it_key (items s rs))" using store_inv_keys [OF assms] .
  then have "k \<notin> set (map it_key (items s (xs @ ys)))" using key by (auto simp: rs)
  then have "\<forall>x\<in>set (items s (xs @ ys)). it_key x \<noteq> k" by (metis image_eqI set_map)
  then have "l_others k (items s rs) = items s (xs @ ys)" using key by (auto simp: l_others_def rs filter_id_conv)
  with rs key show "\<exists>xs ys. rs = xs @ r # ys \<and> e_key (is_heap s r) = k \<and> l_others k (items s rs) = items s (xs @ ys)" by blast
qed

lemma upd_data_inv:
  assumes inv: "store_inv s rs" and f: "e_key (f (is_heap s r)) = e_key (is_heap s r)" "e_prev (f (is_heap s r)) = e_prev (is_heap s r)"
    "e_next (f (is_heap s r)) = e_next (is_heap s r)"
  shows "store_inv (upd_entry r f s) rs" "q \<notin> set [r] \<Longrightarrow> is_heap (upd_entry r f s) q = is_heap s q"
proof -
  have "lseg (is_heap (upd_entry r f s)) None rs None = lseg (is_heap s) None rs None"
    by (rule lseg_cong) (use f in \<open>auto simp: upd_entry_def\<close>)
  with inv f show "store_inv (upd_entry r f s) rs" by (auto simp: store_inv_def upd_entry_def)
qed (simp add: upd_entry_def)

lemma items_upd_other: "r \<notin> set rs \<Longrightarrow> items (upd_entry r f s) rs = items s rs"
  by (auto simp: items_def upd_entry_def)

definition committed :: "int \<Rightarrow> idStore \<Rightarrow> bytes \<Rightarrow> transfer \<Rightarrow> item" where
  "committed now s k t = \<lparr>it_key = k, it_pending = False, it_expires = now + is_ttl s, it_transfer = t\<rparr>"

lemma commit_staged:
  fixes key :: bytes and t :: transfer and now :: int
  assumes inv: "store_inv s0 rs0"
  defines "s1 \<equiv> (case is_entries s0 key of None \<Rightarrow> alloc (idEntry0\<lparr>e_key := key\<rparr>) s0 | Some _ \<Rightarrow> s0)"
  defines "r \<equiv> the (is_entries s1 key)"
  defines "s2 \<equiv> upd_entry r (\<lambda>e. e\<lparr>e_pending := False, e_transfer := t, e_expiresAt := now + is_ttl s1\<rparr>) s1"
  shows "\<exists>qs. store_inv (touchLocked s2 r) qs \<and> items (touchLocked s2 r) qs = committed now s0 key t # l_others key (items s0 rs0) \<and>
    is_maxSize (touchLocked s2 r) = is_maxSize s0 \<and> is_ttl (touchLocked s2 r) = is_ttl s0"
proof -
  obtain xs ys where s1: "store_inv s1 (xs @ r # ys)" "e_key (is_heap s1 r) = key" "items s1 (xs @ ys) = l_others key (items s0 rs0)"
    "is_maxSize s1 = is_maxSize s0" "is_ttl s1 = is_ttl s0"
  proof (cases "is_entries s0 key")
    case (Some q)
    with entries_items(2) [OF inv Some] inv show ?thesis by (auto simp: s1_def r_def intro: that)
  next
    case None
    then have s1: "s1 = alloc (idEntry0\<lparr>e_key := key\<rparr>) s0" by (simp add: s1_def)
    note al = alloc_inv [OF inv, of "idEntry0\<lparr>e_key := key\<rparr>"]
    have inv1: "store_inv s1 (is_fresh s0 # rs0)" and it: "items s1 (is_fresh s0 # rs0) = item_of (idEntry0\<lparr>e_key := key\<rparr>) # items s0 rs0"
      using al None by (simp_all add: s1)
    then have k: "e_key (is_heap s1 (is_fresh s0)) = key" "items s1 rs0 = items s0 rs0" by (auto simp: item_of_def)
    then have "is_entries s1 key = Some (is_fresh s0)" using inv1 by (simp add: store_inv_def)
    then have r: "r = is_fresh s0" by (simp add: r_def)
    have "l_others key (items s0 rs0) = items s0 rs0"
      using None entries_items(1) [OF inv, of key] by (auto simp: l_others_def filter_id_conv)
    with that [of "[]" rs0] inv1 k r al None show ?thesis by (simp add: s1)
  qed
  have nr: "r \<notin> set (xs @ ys)" using s1(1) by (simp add: store_inv_def)
  have inv2: "store_inv s2 (xs @ r # ys)" unfolding s2_def by (rule upd_data_inv [OF s1(1)]) simp_all
  have "items s2 (r # xs @ ys) = committed now s0 key t # l_others key (items s0 rs0)"
    using items_upd_other [OF nr, of _ s1] s1 by (simp add: s2_def upd_entry_def committed_def item_of_def)
  moreover have "is_maxSize s2 = is_maxSize s0" "is_ttl s2 = is_ttl s0" using s1 by (simp_all add: s2_def upd_entry_def)
  ultimately show ?thesis using touch_inv(1,3,4) [OF inv2] touch_inv(2) [OF inv2, of "r # xs @ ys"]
    by (intro exI [of _ "r # xs @ ys"]) (simp del: items_simps)
qed

lemma Commit_list:
  fixes k :: bytes and now :: int
  assumes inv: "store_inv s rs"
  defines "ys \<equiv> l_others k (l_evict now (items s rs))"
  shows "int (open_count ys) \<le> is_maxSize s \<Longrightarrow>
      \<exists>s' rs'. Commit now s k t = Some s' \<and> store_inv s' rs' \<and> int (length rs') \<le> is_maxSize s \<and> is_maxSize s' = is_maxSize s \<and> is_ttl s' = is_ttl s \<and>
        filter it_pending (items s' rs') = filter it_pending ys \<and> set (items s' rs') \<subseteq> insert (committed now s k t) (set ys) \<and>
        (int (open_count ys) < is_maxSize s \<longrightarrow> (\<exists>zs. items s' rs' = committed now s k t # zs))"
    and "Commit now s k t = Some s' \<Longrightarrow> int (open_count ys) \<le> is_maxSize s"
proof -
  obtain s0 rs0 where s0: "evictExpiredLocked now s = Some s0" "store_inv s0 rs0" "items s0 rs0 = l_evict now (items s rs)"
    "is_maxSize s0 = is_maxSize s" "is_ttl s0 = is_ttl s"
    using evictExpired_list [OF inv] by metis
  from commit_staged [OF s0(2), where key = k and t = t and now = now] s0 obtain s3 qs where s3: "Commit now s k t = shrink s3" "store_inv s3 qs"
    "items s3 qs = committed now s k t # ys" "is_maxSize s3 = is_maxSize s" "is_ttl s3 = is_ttl s"
    by (auto simp: Commit_def Let_def ys_def committed_def)
  have oc: "open_count (committed now s k t # ys) = open_count ys" "filter it_pending (committed now s k t # ys) = filter it_pending ys"
    by (simp_all add: open_count_def committed_def)
  show "Commit now s k t = Some s' \<Longrightarrow> int (open_count ys) \<le> is_maxSize s"
    using shrink_returns_only [OF _ s3(2), of s'] s3 oc by simp
  show "int (open_count ys) \<le> is_maxSize s \<Longrightarrow>
      \<exists>s' rs'. Commit now s k t = Some s' \<and> store_inv s' rs' \<and> int (length rs') \<le> is_maxSize s \<and> is_maxSize s' = is_maxSize s \<and> is_ttl s' = is_ttl s \<and>
        filter it_pending (items s' rs') = filter it_pending ys \<and> set (items s' rs') \<subseteq> insert (committed now s k t) (set ys) \<and>
        (int (open_count ys) < is_maxSize s \<longrightarrow> (\<exists>zs. items s' rs' = committed now s k t # zs))"
    using shrink_ends [OF s3(2,3)] oc s3 by auto
qed

definition reserved_item :: "int \<Rightarrow> idStore \<Rightarrow> bytes \<Rightarrow> item" where
  "reserved_item now s k = \<lparr>it_key = k, it_pending = True, it_expires = now + is_ttl s, it_transfer = transfer0\<rparr>"

definition lookup :: "idStore \<Rightarrow> bytes \<Rightarrow> item option" where
  "lookup s k = map_option (\<lambda>r. item_of (is_heap s r)) (is_entries s k)"

definition answer :: "int \<Rightarrow> bytes \<Rightarrow> item option \<Rightarrow> reservation" where
  "answer now k x =
     (case x of
        None \<Rightarrow> Reserved
      | Some i \<Rightarrow> if it_pending i then Conflict (ErrIdempotencyConflict k) else if now < it_expires i then Found (it_transfer i) else Reserved)"

lemma lookup_items: "store_inv s rs \<Longrightarrow> lookup s k = Some x \<longleftrightarrow> x \<in> set (items s rs) \<and> it_key x = k"
  by (auto simp: lookup_def store_inv_def items_def)

lemma set_l_evict: "set (l_evict now xs) \<subseteq> set xs"
  using set_dropWhileD [of _ "\<lambda>x. it_expires x \<le> now" "rev xs"] by (auto simp: l_evict_def)

lemma insert_reservation:
  fixes now :: int and k :: bytes
  assumes "store_inv s rs" and "is_entries s k = None"
  defines "e \<equiv> idEntry0\<lparr>e_key := k, e_pending := True, e_expiresAt := now + is_ttl s\<rparr>"
  shows "store_inv (alloc e s) (is_fresh s # rs)" "items (alloc e s) (is_fresh s # rs) = reserved_item now s k # items s rs"
    "is_maxSize (alloc e s) = is_maxSize s" "is_ttl (alloc e s) = is_ttl s"
  using alloc_inv [OF assms(1), of e] assms(2)
  by (simp_all add: e_def reserved_item_def item_of_def idEntry0_def del: items_simps)

lemma CheckAndReserve_list:
  assumes inv: "store_inv s rs"
  obtains s' rs' where "CheckAndReserve now s k = Some (s', answer now k (lookup s k))" "store_inv s' rs'"
    "is_maxSize s' = is_maxSize s" "is_ttl s' = is_ttl s"
    "answer now k (lookup s k) = Reserved \<Longrightarrow> items s' rs' = reserved_item now s k # l_others k (l_evict now (items s rs))"
    "answer now k (lookup s k) \<noteq> Reserved \<Longrightarrow> s' = s"
proof (cases "answer now k (lookup s k) = Reserved")
  case False
  then have "CheckAndReserve now s k = Some (s, answer now k (lookup s k))"
    by (auto simp: CheckAndReserve_def check_fast_def answer_def lookup_def split: option.splits if_splits)
  with False inv show ?thesis by (intro that) simp_all
next
  case True
  then have fast: "check_fast now s k = None"
    by (auto simp: check_fast_def answer_def lookup_def split: option.splits if_splits)
  obtain s0 rs0 where s0: "evictExpiredLocked now s = Some s0" "store_inv s0 rs0" "items s0 rs0 = l_evict now (items s rs)"
    "is_maxSize s0 = is_maxSize s" "is_ttl s0 = is_ttl s"
    using evictExpired_list [OF inv] by metis
  have old: "answer now k (lookup s0 k) = Reserved"
  proof (cases "lookup s0 k")
    case (Some x)
    then have "x \<in> set (items s rs) \<and> it_key x = k" using lookup_items [OF s0(2)] s0(3) set_l_evict by (metis subsetD)
    then have "lookup s k = Some x" using lookup_items [OF inv] by simp
    with True Some show ?thesis by simp
  qed (simp add: answer_def)
  let ?ins = "\<lambda>s. alloc (idEntry0\<lparr>e_key := k, e_pending := True, e_expiresAt := now + is_ttl s\<rparr>) s"
  show ?thesis
  proof (cases "is_entries s0 k")
    case None
    have "l_others k (items s0 rs0) = items s0 rs0"
      using None entries_items(1) [OF s0(2), of k] by (auto simp: l_others_def filter_id_conv)
    moreover have "CheckAndReserve now s k = Some (?ins s0, Reserved)"
      using fast None s0 by (simp add: CheckAndReserve_def reserve_slow_def Let_def)
    ultimately show ?thesis
      using insert_reservation [OF s0(2) None, of now] s0 True
      by (intro that [of "?ins s0" "is_fresh s0 # rs0"]) (simp_all add: reserved_item_def del: items_simps)
  next
    case (Some r)
    obtain xs ys where r: "rs0 = xs @ r # ys" "e_key (is_heap s0 r) = k" "l_others k (items s0 rs0) = items s0 (xs @ ys)"
      using entries_items(2) [OF s0(2) Some] by blast
    let ?s1 = "removeLocked s0 r"
    have rm: "store_inv ?s1 (xs @ ys)" "items ?s1 (xs @ ys) = items s0 (xs @ ys)" "is_maxSize ?s1 = is_maxSize s0" "is_ttl ?s1 = is_ttl s0"
      using remove_inv [of s0 xs r ys] s0(2) r(1) by blast+
    have "\<forall>x\<in>set (items s0 (xs @ ys)). it_key x \<noteq> k" unfolding r(3) [symmetric] by (auto simp: l_others_def)
    then have none: "is_entries ?s1 k = None" unfolding entries_items(1) [OF rm(1)] rm(2) by blast
    have "CheckAndReserve now s k = Some (?ins ?s1, Reserved)"
      using fast Some s0 old by (auto simp: CheckAndReserve_def reserve_slow_def lookup_def answer_def Let_def split: if_splits)
    then show ?thesis
      using insert_reservation [OF rm(1) none, of now] s0 rm r(3) True
      by (intro that [of "?ins ?s1" "is_fresh ?s1 # xs @ ys"]) (simp_all add: reserved_item_def del: items_simps)
  qed
qed

lemma Rollback_list:
  assumes inv: "store_inv s rs"
  obtains rs' where "store_inv (Rollback s k) rs'"
    "items (Rollback s k) rs' = (case lookup s k of Some x \<Rightarrow> if it_pending x then l_others k (items s rs) else items s rs | None \<Rightarrow> items s rs)"
    "is_maxSize (Rollback s k) = is_maxSize s" "is_ttl (Rollback s k) = is_ttl s"
proof (cases "\<exists>r. is_entries s k = Some r \<and> e_pending (is_heap s r)")
  case True
  then obtain r where r: "is_entries s k = Some r" "e_pending (is_heap s r)" by blast
  obtain xs ys where xy: "rs = xs @ r # ys" "l_others k (items s rs) = items s (xs @ ys)" using entries_items(2) [OF inv r(1)] by blast
  have rb: "Rollback s k = removeLocked s r" using r by (simp add: Rollback_def)
  show ?thesis
    by (rule that [of "xs @ ys"]; unfold rb) (use remove_inv [of s xs r ys] inv xy r in \<open>simp_all add: lookup_def del: items_simps\<close>)
next
  case False
  then have "Rollback s k = s" by (auto simp: Rollback_def split: option.split)
  with False inv show ?thesis by (intro that [of rs]) (auto simp: lookup_def split: option.split)
qed

subsection \<open>The interface the engine relies on\<close>

locale reservation_store =
  fixes ok :: "'s \<Rightarrow> bool"
    and look :: "'s \<Rightarrow> bytes \<Rightarrow> item option"
    and room :: "int \<Rightarrow> 's \<Rightarrow> bytes \<Rightarrow> bool"
    and deadline :: "int \<Rightarrow> 's \<Rightarrow> int"
    and reserve :: "int \<Rightarrow> 's \<Rightarrow> bytes \<Rightarrow> ('s \<times> reservation) option"
    and commit :: "int \<Rightarrow> 's \<Rightarrow> bytes \<Rightarrow> transfer \<Rightarrow> 's option"
    and rollback :: "'s \<Rightarrow> bytes \<Rightarrow> 's"
  assumes reserve_answers: "ok s \<Longrightarrow> \<exists>s'. reserve now s k = Some (s', answer now k (look s k)) \<and> ok s'"
    and reserve_marks: "\<lbrakk> ok s; reserve now s k = Some (s', Reserved) \<rbrakk> \<Longrightarrow> \<exists>x. look s' k = Some x \<and> it_pending x"
    and commit_stores: "\<lbrakk> ok s; room now s k \<rbrakk> \<Longrightarrow> \<exists>s'. commit now s k t = Some s' \<and> ok s' \<and>
       (\<exists>x. look s' k = Some x \<and> \<not> it_pending x \<and> it_transfer x = t \<and> it_expires x = deadline now s)"
    and rollback_frees: "ok s \<Longrightarrow> ok (rollback s k) \<and> (\<forall>x. look (rollback s k) k = Some x \<longrightarrow> \<not> it_pending x)"
begin

text \<open>A second request with the same key is refused while the first one is under way.\<close>

lemma excludes:
  assumes "ok s" and "reserve now s k = Some (s', Reserved)"
  shows "\<exists>s''. reserve now' s' k = Some (s'', Conflict (ErrIdempotencyConflict k))"
proof -
  have "ok s'" using reserve_answers [OF assms(1)] assms(2) by (metis option.inject prod.inject)
  with reserve_marks [OF assms] reserve_answers [of s' now' k] show ?thesis by (auto simp: answer_def)
qed

text \<open>A repeated request gets the stored result until it expires.\<close>

lemma retries:
  assumes "ok s" and "room now s k" and "now' < deadline now s"
  shows "\<exists>s' s''. commit now s k t = Some s' \<and> reserve now' s' k = Some (s'', Found t)"
proof -
  obtain s' x where s': "commit now s k t = Some s'" "ok s'" "look s' k = Some x" "\<not> it_pending x" "it_transfer x = t" "it_expires x = deadline now s"
    using commit_stores [OF assms(1,2)] by blast
  with reserve_answers [OF s'(2), of now' k] assms(3) show ?thesis by (auto simp: answer_def)
qed

text \<open>After a rollback the key is never refused.\<close>

lemma retries_after_rollback:
  assumes "ok s"
  shows "\<exists>s' a. reserve now (rollback s k) k = Some (s', a) \<and> a \<noteq> Conflict (ErrIdempotencyConflict k)"
  using rollback_frees [OF assms, of k] reserve_answers [of "rollback s k" now k]
  by (cases "look (rollback s k) k") (auto simp: answer_def)

end

definition idstore_ok :: "idStore \<Rightarrow> bool" where
  "idstore_ok s \<longleftrightarrow> (\<exists>rs. store_inv s rs)"

definition open_others :: "int \<Rightarrow> idStore \<Rightarrow> bytes \<Rightarrow> nat" where
  "open_others now s k = card {k'. k' \<noteq> k \<and> (\<exists>x. lookup s k' = Some x \<and> it_pending x \<and> (\<exists>s'. evictExpiredLocked now s = Some s' \<and> lookup s' k' = Some x))}"

lemma open_others_count:
  assumes "store_inv s rs"
  shows "open_others now s k = open_count (l_others k (l_evict now (items s rs)))"
proof -
  obtain s0 rs0 where s0: "evictExpiredLocked now s = Some s0" "store_inv s0 rs0" "items s0 rs0 = l_evict now (items s rs)"
    using evictExpired_list [OF assms] by metis
  let ?ys = "filter it_pending (l_others k (items s0 rs0))"
  have "{k'. k' \<noteq> k \<and> (\<exists>x. lookup s k' = Some x \<and> it_pending x \<and> (\<exists>s'. evictExpiredLocked now s = Some s' \<and> lookup s' k' = Some x))} = it_key ` set ?ys"
    using s0 lookup_items [OF s0(2)] lookup_items [OF assms] set_l_evict [of now "items s rs"] by (auto simp: l_others_def image_iff)
  moreover have "distinct (map it_key ?ys)" using store_inv_keys [OF s0(2)] by (simp add: l_others_def distinct_map_filter)
  then have "card (it_key ` set ?ys) = length ?ys" using distinct_card [of "map it_key ?ys"] by simp
  ultimately show ?thesis using s0(3) by (simp add: open_others_def open_count_def)
qed

interpretation idem: reservation_store idstore_ok lookup "\<lambda>now s k. int (open_others now s k) < is_maxSize s" "\<lambda>now s. now + is_ttl s"
  CheckAndReserve Commit Rollback
proof unfold_locales
  fix s now k assume "idstore_ok s"
  then obtain rs where inv: "store_inv s rs" by (auto simp: idstore_ok_def)
  then show "\<exists>s'. CheckAndReserve now s k = Some (s', answer now k (lookup s k)) \<and> idstore_ok s'"
    using CheckAndReserve_list [OF inv, of now k] by (metis idstore_ok_def)
next
  fix s now k s' assume "idstore_ok s" and r: "CheckAndReserve now s k = Some (s', Reserved)"
  then obtain rs where inv: "store_inv s rs" by (auto simp: idstore_ok_def)
  obtain rs' where s': "store_inv s' rs'" "items s' rs' = reserved_item now s k # l_others k (l_evict now (items s rs))"
    using CheckAndReserve_list [OF inv, of now k] r by (metis option.inject prod.inject)
  have "lookup s' k = Some (reserved_item now s k)" unfolding lookup_items [OF s'(1)] s'(2) by (simp add: reserved_item_def)
  then show "\<exists>x. lookup s' k = Some x \<and> it_pending x" by (simp add: reserved_item_def)
next
  fix s now k t assume "idstore_ok s" and room: "int (open_others now s k) < is_maxSize s"
  then obtain rs where inv: "store_inv s rs" by (auto simp: idstore_ok_def)
  have oc: "int (open_count (l_others k (l_evict now (items s rs)))) < is_maxSize s" using room open_others_count [OF inv] by simp
  obtain s' rs' zs where s': "Commit now s k t = Some s'" "store_inv s' rs'" "items s' rs' = committed now s k t # zs"
    using Commit_list(1) [OF inv, where k = k and now = now and t = t] oc by auto
  have "lookup s' k = Some (committed now s k t)" unfolding lookup_items [OF s'(2)] s'(3) by (simp add: committed_def)
  with s' show "\<exists>s'. Commit now s k t = Some s' \<and> idstore_ok s' \<and>
       (\<exists>x. lookup s' k = Some x \<and> \<not> it_pending x \<and> it_transfer x = t \<and> it_expires x = now + is_ttl s)"
    by (auto simp: idstore_ok_def committed_def)
next
  fix s k assume "idstore_ok s"
  then obtain rs where inv: "store_inv s rs" by (auto simp: idstore_ok_def)
  from Rollback_list [OF inv, of k] obtain rs' where rs': "store_inv (Rollback s k) rs'"
    "items (Rollback s k) rs' = (case lookup s k of Some x \<Rightarrow> if it_pending x then l_others k (items s rs) else items s rs | None \<Rightarrow> items s rs)" by metis
  have "\<not> it_pending x" if x: "lookup (Rollback s k) k = Some x" for x
  proof
    assume p: "it_pending x"
    have in': "x \<in> set (items (Rollback s k) rs')" "it_key x = k" using x lookup_items [OF rs'(1)] by simp_all
    then have "x \<in> set (items s rs)" using rs'(2) by (auto simp: l_others_def split: option.splits if_splits)
    then have "lookup s k = Some x" using lookup_items [OF inv] in'(2) by simp
    with in' p rs'(2) show False by (simp add: l_others_def)
  qed
  with rs'(1) show "idstore_ok (Rollback s k) \<and> (\<forall>x. lookup (Rollback s k) k = Some x \<longrightarrow> \<not> it_pending x)"
    by (auto simp: idstore_ok_def)
qed

subsection \<open>Properties\<close>

lemma store_inv_new: "store_inv (NewIdempotencyStore mx ttl) []"
  by (simp add: store_inv_def NewIdempotencyStore_def)

text \<open>C38: The linked list is kept intact: from a store whose pointers, map and size agree, every
  operation that returns leads to such a store again, and all of them return except \<^verbatim>\<open>Commit\<close>,
  which returns exactly when the reservations still open, not counting the committed key, number
  at most \<^verbatim>\<open>maxSize\<close>; then the store has at most \<^verbatim>\<open>maxSize\<close> entries.\<close>

theorem Commit_ends_iff:
  assumes "idstore_ok s"
  shows "idstore_ok (Rollback s k) \<and> (\<exists>s' a. CheckAndReserve now s k = Some (s', a) \<and> idstore_ok s') \<and>
    ((\<exists>s'. Commit now s k t = Some s') \<longleftrightarrow> int (open_others now s k) \<le> is_maxSize s) \<and>
    (\<forall>s'. Commit now s k t = Some s' \<longrightarrow> idstore_ok s' \<and> is_size s' \<le> is_maxSize s)"
proof -
  obtain rs where inv: "store_inv s rs" using assms by (auto simp: idstore_ok_def)
  have iff: "(\<exists>s'. Commit now s k t = Some s') \<longleftrightarrow> int (open_others now s k) \<le> is_maxSize s"
    using Commit_list [OF inv, where k = k and now = now] open_others_count [OF inv] by metis
  have bound: "idstore_ok s' \<and> is_size s' \<le> is_maxSize s" if "Commit now s k t = Some s'" for s'
  proof -
    have "int (open_count (l_others k (l_evict now (items s rs)))) \<le> is_maxSize s" using that iff open_others_count [OF inv] by auto
    with Commit_list(1) [OF inv, where k = k and now = now and t = t] that obtain rs' where "store_inv s' rs'" "int (length rs') \<le> is_maxSize s" by auto
    then show ?thesis by (auto simp: idstore_ok_def store_inv_def)
  qed
  show ?thesis using idem.rollback_frees [OF assms] idem.reserve_answers [OF assms] iff bound by blast
qed

text \<open>Witness: a store for one entry in which two keys are reserved: committing a third key never
  returns.\<close>

definition sample_store :: idStore where
  "sample_store = alloc (idEntry0\<lparr>e_key := [2], e_pending := True, e_expiresAt := 100\<rparr>)
     (alloc (idEntry0\<lparr>e_key := [1], e_pending := True, e_expiresAt := 100\<rparr>) (NewIdempotencyStore 1 50))"

lemma sample_store_items:
  "\<exists>rs. store_inv sample_store rs \<and> is_maxSize sample_store = 1 \<and>
     items sample_store rs = [\<lparr>it_key = [2], it_pending = True, it_expires = 100, it_transfer = transfer0\<rparr>,
       \<lparr>it_key = [1], it_pending = True, it_expires = 100, it_transfer = transfer0\<rparr>]"
proof -
  let ?e1 = "idEntry0\<lparr>e_key := [1], e_pending := True, e_expiresAt := 100\<rparr>" and ?e2 = "idEntry0\<lparr>e_key := [2], e_pending := True, e_expiresAt := 100\<rparr>"
  let ?s0 = "NewIdempotencyStore 1 50"
  have "is_entries ?s0 [1] = None" "is_maxSize ?s0 = 1" by (simp_all add: NewIdempotencyStore_def)
  then have a1: "store_inv (alloc ?e1 ?s0) [is_fresh ?s0]" "items (alloc ?e1 ?s0) [is_fresh ?s0] = [item_of ?e1]" "is_maxSize (alloc ?e1 ?s0) = 1"
    using alloc_inv [OF store_inv_new [of 1 50], of ?e1] by (simp_all del: items_simps(2))
  have "is_entries (alloc ?e1 ?s0) [2] = None" unfolding entries_items(1) [OF a1(1)] a1(2) by simp
  with alloc_inv [OF a1(1), of ?e2] a1 show ?thesis
    by (intro exI [of _ "is_fresh (alloc ?e1 ?s0) # [is_fresh ?s0]"]) (simp add: sample_store_def item_of_def idEntry0_def del: items_simps)
qed

theorem Commit_ends_iff_witness: "Commit 10 sample_store [3] transfer0 = None"
proof -
  obtain rs where rs: "store_inv sample_store rs" "is_maxSize sample_store = 1"
     "items sample_store rs = [\<lparr>it_key = [2], it_pending = True, it_expires = 100, it_transfer = transfer0\<rparr>,
       \<lparr>it_key = [1], it_pending = True, it_expires = 100, it_transfer = transfer0\<rparr>]" using sample_store_items by blast
  have "open_others 10 sample_store [3] = 2"
    unfolding open_others_count [OF rs(1)] rs(3) by (simp add: l_evict_def l_others_def open_count_def)
  moreover have "idstore_ok sample_store" using rs(1) by (auto simp: idstore_ok_def)
  ultimately show ?thesis using Commit_ends_iff [of sample_store "[3]" 10 transfer0] rs(2) by (cases "Commit 10 sample_store [3] transfer0") auto
qed

text \<open>A key is executed at most once at a time: after a successful reservation every further
  request with this key is refused with a conflict, at whatever time it comes.\<close>

theorem reservation_is_exclusive:
  assumes "idstore_ok s" and "CheckAndReserve now s k = Some (s', Reserved)"
  shows "\<exists>s''. CheckAndReserve now' s' k = Some (s'', Conflict (ErrIdempotencyConflict k))"
  by (rule idem.excludes [OF assms])

text \<open>Once a result is committed while fewer than \<^verbatim>\<open>maxSize\<close> other keys are reserved, a repeated
  request gets that result back until its time to live has passed.\<close>

theorem retry_gets_result:
  assumes "idstore_ok s" and "int (open_others now s k) < is_maxSize s" and "now' < now + is_ttl s"
  shows "\<exists>s' s''. Commit now s k t = Some s' \<and> CheckAndReserve now' s' k = Some (s'', Found t)"
  by (rule idem.retries [OF assms])

lemma new_store_ok: "idstore_ok (NewIdempotencyStore 10 50)"
  using store_inv_new idstore_ok_def by blast

lemma new_store_empty: "open_others now (NewIdempotencyStore 10 50) k = 0"
  using open_others_count [OF store_inv_new, of now 10 50 k] by (simp add: l_evict_def l_others_def open_count_def)

theorem reservation_is_exclusive_witness:
  "\<exists>s' s''. CheckAndReserve 5 (NewIdempotencyStore 10 50) [1] = Some (s', Reserved) \<and>
     CheckAndReserve 7 s' [1] = Some (s'', Conflict (ErrIdempotencyConflict [1]))"
proof -
  obtain s' where r: "CheckAndReserve 5 (NewIdempotencyStore 10 50) [1] = Some (s', Reserved)"
    using idem.reserve_answers [OF new_store_ok, of 5 "[1]"] by (auto simp: answer_def lookup_def NewIdempotencyStore_def)
  with reservation_is_exclusive [OF new_store_ok r, of 7] show ?thesis by blast
qed

theorem retry_gets_result_witness:
  "\<exists>s' s''. Commit 5 (NewIdempotencyStore 10 50) [1] transfer0 = Some s' \<and> CheckAndReserve 54 s' [1] = Some (s'', Found transfer0)"
  using retry_gets_result [OF new_store_ok, of 5 "[1]" 54 transfer0] by (simp add: new_store_empty, simp add: NewIdempotencyStore_def)

end
