(* ===== verification/Replay.thy ===== *)
theory Replay
  imports Event_Loop Idempotency_Store
begin

text \<open>
  Replaying the log (\<^verbatim>\<open>RecoverFromSnapshot\<close> of \<^verbatim>\<open>internal/engine/ledger.go\<close>): the handler that
  turns log records back into state, and its agreement with the live event loop.

  The live loop closes expired holds once per batch, replay before every transfer; batches of
  which nothing was accepted leave no record. The lemmas show that these differences do not
  matter: closing expired holds in two steps is closing them in one, it commutes with creating
  accounts, and within a batch nothing is left to close.
\<close>

subsection \<open>The recovery handler\<close>

datatype replay_error = BadPayload payload_error | Refused ledger_error | NeverReturns

definition advance_clock :: "account_manager \<Rightarrow> transfer \<Rightarrow> account_manager" where
  "advance_clock m t = (if sint (Timestamp t) > sint (clock m) then m\<lparr>clock := Timestamp t\<rparr> else m)"

definition replay_transfer :: "account_manager \<Rightarrow> transfer \<Rightarrow> am_result" where
  "replay_transfer m t =
     (let m1 = advance_clock m t
      in ApplyTransferState (CloseExpired (SetClock m1 (clock m1))) t)"

definition replay_account :: "account_manager \<Rightarrow> account \<Rightarrow> am_result" where
  "replay_account m a =
     (case Create m a of
        (m', Some (ErrDuplicateAccountID _)) \<Rightarrow> (m', None)
      | (m', r) \<Rightarrow> (m', r))"

text \<open>\<open>now r\<close> is the wall clock while record \<open>r\<close> is replayed.\<close>

definition replay_record :: "(wal_record \<Rightarrow> int) \<Rightarrow> (account_manager \<times> idStore, replay_error) handler" where
  "replay_record now ms r =
     (case ms of (m, s) \<Rightarrow>
        if rec_Type r = RecordTypeAccount then
          (case DecodeAccountPayload (rec_Payload r) of
             Inl e \<Rightarrow> ((m, s), Some (BadPayload e))
           | Inr a \<Rightarrow> (let (m', e) = replay_account m a in ((m', s), map_option Refused e)))
        else if rec_Type r = RecordTypeTransfer then
          (case DecodeTransferPayload (rec_Payload r) of
             Inl e \<Rightarrow> ((m, s), Some (BadPayload e))
           | Inr t \<Rightarrow>
               (case replay_transfer m t of
                  (m', Some e) \<Rightarrow> ((m', s), Some (Refused e))
                | (m', None) \<Rightarrow>
                    if IdempotencyKey t \<noteq> zeros 32
                    then (case Commit (now r) s (IdempotencyKey t) t of
                            None \<Rightarrow> ((m', s), Some NeverReturns)
                          | Some s' \<Rightarrow> ((m', s'), None))
                    else ((m', s), None)))
        else ((m, s), None))"

subsection \<open>Closing expired holds\<close>

definition close_top :: "account_manager \<Rightarrow> account_manager" where
  "close_top m = fst (releasePending (fst (pop_top m)) (snd (pop_top m)))"

definition due :: "i64 \<Rightarrow> account_manager \<Rightarrow> bool" where
  "due c m \<longleftrightarrow> expiry m \<noteq> [] \<and> sint (pe_expires (entries m (expiry m ! 0))) \<le> sint c"

lemma CloseExpired_step: "CloseExpired m = (if due (clock m) m then CloseExpired (close_top m) else m)"
  using CloseExpired_pop [of m] by (auto simp: due_def close_top_def)

lemma SetClock_simps [simp]:
  "clock (SetClock m c) = c" "SetClock (SetClock m c) d = SetClock m d" "due c (SetClock m d) = due c m" "SetClock m (clock m) = m"
  "expiry (SetClock m c) = expiry m" "accounts (SetClock m c) = accounts m" "index (SetClock m c) = index m"
  by (simp_all add: SetClock_def due_def)

lemma update_account_SetClock: "update_account (SetClock m c) i f = map_prod (\<lambda>m. SetClock m c) id (update_account m i f)"
  by (simp add: update_account_def Get_def SetClock_def split: sum.splits option.splits prod.splits)

lemma andThen_map: "(\<And>m. g (h m) = map_prod h id (f m)) \<Longrightarrow> andThen (map_prod h id r) g = map_prod h id (andThen r f)"
  by (cases r; cases "snd r") auto

lemma close_top_SetClock: "close_top (SetClock m c) = SetClock (close_top m) c"
proof -
  have "pop_top (SetClock m c) = map_prod (\<lambda>m. SetClock m c) id (pop_top m)"
    by (simp add: pop_top_def SetClock_def Let_def split: prod.split)
  moreover have "releasePending (SetClock m c) t = map_prod (\<lambda>m. SetClock m c) id (releasePending m t)" for m t
    unfolding releasePending_def update_account_SetClock by (rule andThen_map) (rule update_account_SetClock)
  ultimately show ?thesis by (simp add: close_top_def)
qed

lemma length_close_top: "expiry m \<noteq> [] \<Longrightarrow> length (expiry (close_top m)) < length (expiry m)"
  using length_heap_Pop [of "(expiry m, entries m)"]
  by (cases "heap_Pop (expiry m, entries m)") (simp add: close_top_def pop_top_def Let_def)

text \<open>Two rounds of closing, at an earlier and at a later time, are one.\<close>

lemma CloseExpired_twice:
  "sint c \<le> sint d \<Longrightarrow> CloseExpired (SetClock (CloseExpired (SetClock m c)) d) = CloseExpired (SetClock m d)"
proof (induction "length (expiry m)" arbitrary: m rule: less_induct)
  case less
  show ?case
  proof (cases "due c m")
    case True
    then have "due d m" "expiry m \<noteq> []" using less.prems by (auto simp: due_def)
    with True have "CloseExpired (SetClock m c) = CloseExpired (SetClock (close_top m) c)"
      "CloseExpired (SetClock m d) = CloseExpired (SetClock (close_top m) d)"
      using CloseExpired_step [of "SetClock m c"] CloseExpired_step [of "SetClock m d"] by (simp_all add: close_top_SetClock)
    with less.hyps [OF length_close_top less.prems] \<open>expiry m \<noteq> []\<close> show ?thesis by simp
  next
    case False
    then have "CloseExpired (SetClock m c) = SetClock m c" using CloseExpired_step [of "SetClock m c"] by simp
    then show ?thesis by simp
  qed
qed

text \<open>When no open hold has expired there is nothing to do.\<close>

definition unexpired :: "account_manager \<Rightarrow> bool" where
  "unexpired m \<longleftrightarrow> (\<forall>i p. hold_at m i = Some p \<longrightarrow> \<not> expired (clock m) p)"

lemma CloseExpired_idle:
  assumes q: "queue_ok m" and u: "unexpired m"
  shows "CloseExpired m = m"
proof (cases "expiry m = []")
  case False
  let ?r = "expiry m ! 0"
  have "?r \<in> set (expiry m)" using False by simp
  with q obtain i where "pending m i = Some ?r" "Timeout (pe_transfer (entries m ?r)) \<noteq> 0"
    and e: "pe_expires (entries m ?r) = deadline (pe_transfer (entries m ?r))"
    by (auto simp: queue_ok_def ran_def)
  moreover from this have "hold_at m i = Some (pe_transfer (entries m ?r))" by (simp add: hold_at_def)
  with u have "\<not> expired (clock m) (pe_transfer (entries m ?r))" unfolding unexpired_def by blast
  ultimately have "sint (clock m) < sint (deadline (pe_transfer (entries m ?r)))" by (simp add: expired_def)
  then show ?thesis using e by (subst CloseExpired_step) (simp add: due_def)
qed (subst CloseExpired_step, simp add: due_def)

lemma CloseExpired_unexpired: "am_inv m \<Longrightarrow> unexpired (CloseExpired m)"
  using CloseExpired_closes [of m] by (auto simp: unexpired_def split: option.splits if_splits)

subsection \<open>Creating accounts\<close>

definition add_account :: "account \<Rightarrow> account_manager \<Rightarrow> account_manager" where
  "add_account a m = m\<lparr>accounts := accounts m @ [a], index := (index m)(acc_ID a \<mapsto> length (accounts m))\<rparr>"

lemma Create_add: "Create m a = (if index m (acc_ID a) = None then (add_account a m, None) else (m, Some (ErrDuplicateAccountID (acc_ID a))))"
  by (auto simp: Create_def add_account_def Let_def split: option.splits)

lemma update_account_add:
  assumes "account_at m i \<noteq> None" and "index_ok m" and "index m (acc_ID a) = None"
  shows "update_account (add_account a m) i f = map_prod (add_account a) id (update_account m i f)"
proof -
  obtain k where k: "index m i = Some k" "k < length (accounts m)"
    using assms(1) index_okD [OF assms(2)] by (auto simp: account_at_def)
  then have "i \<noteq> acc_ID a" using assms(3) by auto
  with k show ?thesis
    by (simp add: update_account_def Get_def add_account_def nth_append list_update_append1 split: prod.split)
qed

lemma releasePending_add:
  assumes "account_at m (DebitAccountID t) \<noteq> None" "account_at m (CreditAccountID t) \<noteq> None" "index_ok m" "index m (acc_ID a) = None"
  shows "releasePending (add_account a m) t = map_prod (add_account a) id (releasePending m t)"
proof -
  let ?r = "update_account m (DebitAccountID t) (release_debit (Amount t))"
  have "index_ok (fst ?r) \<and> account_at (fst ?r) (CreditAccountID t) \<noteq> None \<and> index (fst ?r) = index m"
    using update_account_spec [OF assms(3), of "release_debit (Amount t)" "DebitAccountID t"] assms(1,2) effect_IDs
    by (auto split: option.splits dest: same_but_accountsD)
  then show ?thesis
    unfolding releasePending_def update_account_add [OF assms(1,3,4)]
    using assms(4) by (cases ?r; cases "snd ?r") (simp_all add: update_account_add)
qed

lemma index_update_account [simp]: "index (fst (update_account m i f)) = index m"
  by (simp add: update_account_def split: sum.splits prod.splits)

lemma index_close_top: "index (close_top m) = index m"
proof -
  have "index (fst (releasePending m t)) = index m" for m t
    using index_update_account [of m "DebitAccountID t" "release_debit (Amount t)"]
    by (cases "update_account m (DebitAccountID t) (release_debit (Amount t))"; cases "snd (update_account m (DebitAccountID t) (release_debit (Amount t)))")
       (simp_all add: releasePending_def)
  then show ?thesis by (simp add: close_top_def pop_top_def Let_def split: prod.split)
qed

lemma close_top_add:
  assumes inv: "am_inv m" and ne: "expiry m \<noteq> []" and new: "index m (acc_ID a) = None"
  shows "close_top (add_account a m) = add_account a (close_top m)"
proof -
  note top = pop_top_ok [OF inv ne]
  let ?m = "fst (pop_top m)" and ?p = "snd (pop_top m)"
  have "pop_top (add_account a m) = map_prod (add_account a) id (pop_top m)"
    by (simp add: pop_top_def add_account_def Let_def split: prod.split)
  moreover have "index ?m = index m" by (simp add: pop_top_def Let_def split: prod.split)
  moreover have "account_at ?m = account_at m" using top(7) by (metis book_of_simps(1) book.select_convs(1) book.update_convs(2) book.surjective)
  moreover have "book_inv (book_of m)" using inv by (simp add: am_inv_def)
  then have "account_at m (DebitAccountID ?p) \<noteq> None" "account_at m (CreditAccountID ?p) \<noteq> None"
    using hold_covered [of "book_of m" "tr_ID ?p" ?p] top(1,2) by auto
  moreover have "index_ok ?m" using top(6) by (simp add: am_ok_def)
  ultimately show ?thesis using releasePending_add [of ?m ?p a] new by (simp add: close_top_def)
qed

lemma CloseExpired_add:
  "\<lbrakk> am_inv m; index m (acc_ID a) = None \<rbrakk> \<Longrightarrow> CloseExpired (add_account a m) = add_account a (CloseExpired m)"
proof (induction "length (expiry m)" arbitrary: m rule: less_induct)
  case less
  have due: "due (clock (add_account a m)) (add_account a m) = due (clock m) m" by (simp add: due_def add_account_def)
  show ?case
  proof (cases "due (clock m) m")
    case True
    then have ne: "expiry m \<noteq> []" by (simp add: due_def)
    obtain m2 where "releasePending (fst (pop_top m)) (snd (pop_top m)) = (m2, None)" "am_inv m2"
      using close_one [OF less.prems(1) ne] by blast
    then have "am_inv (close_top m)" by (simp add: close_top_def)
    with less.hyps [OF length_close_top [OF ne]] less.prems close_top_add [OF less.prems(1) ne less.prems(2)] True due
      CloseExpired_step [of m] CloseExpired_step [of "add_account a m"] show ?thesis by (simp add: index_close_top)
  next
    case False
    with due CloseExpired_step [of m] CloseExpired_step [of "add_account a m"] show ?thesis by simp
  qed
qed

lemma index_CloseExpired: "index (CloseExpired m) = index m"
proof (induction "length (expiry m)" arbitrary: m rule: less_induct)
  case less
  show ?case
  proof (cases "due (clock m) m")
    case True
    then have "expiry m \<noteq> []" by (simp add: due_def)
    from less.hyps [OF length_close_top [OF this]] True CloseExpired_step [of m] show ?thesis by (simp add: index_close_top)
  qed (simp add: CloseExpired_step [of m])
qed

subsection \<open>Live and replayed state\<close>

text \<open>\<open>lags m n\<close>: the manager \<open>m\<close> rebuilt from the log and the live one \<open>n\<close> differ at most in the
  clock and in the holds that expired since the last record.\<close>

definition lags :: "account_manager \<Rightarrow> account_manager \<Rightarrow> bool" where
  "lags m n \<longleftrightarrow> am_inv m \<and> hist_ok m \<and> sint (clock m) \<le> sint (clock n) \<and> n = CloseExpired (SetClock m (clock n))"

lemma hist_ok_close: "am_inv m \<Longrightarrow> hist_ok m \<Longrightarrow> hist_ok (CloseExpired m)"
proof -
  assume m: "am_inv m" "hist_ok m"
  have "pending (CloseExpired m) i = None" if "pending m i = None" for i
    using CloseExpired_closes [OF m(1)] that by (auto simp: hold_at_def dest!: spec [of _ i])
  then have "dom (pending (CloseExpired m)) \<subseteq> dom (pending m)" by (metis domIff subsetI)
  with m(2) CloseExpired_closes [OF m(1)] show "hist_ok (CloseExpired m)" by (auto simp: hist_ok_def)
qed

lemma lags_live:
  assumes "lags m n"
  shows "am_inv n" "hist_ok n" "unexpired n"
proof -
  have "am_inv (SetClock m (clock n))" "hist_ok (SetClock m (clock n))"
    using assms by (simp_all add: lags_def am_inv_SetClock hist_ok_def) (simp add: SetClock_def)
  moreover have "n = CloseExpired (SetClock m (clock n))" using assms by (simp add: lags_def)
  ultimately show "am_inv n" "hist_ok n" "unexpired n"
    using CloseExpired_closes hist_ok_close CloseExpired_unexpired by metis+
qed

lemma lags_tick: "lags m n \<Longrightarrow> sint (clock n) \<le> sint c \<Longrightarrow> lags m (CloseExpired (SetClock n c))"
proof -
  assume l: "lags m n" and c: "sint (clock n) \<le> sint c"
  then have "clock (CloseExpired (SetClock n c)) = c"
    using lags_live(1) [OF l] CloseExpired_closes [of "SetClock n c"] by (simp add: am_inv_SetClock)
  moreover have "CloseExpired (SetClock n c) = CloseExpired (SetClock m c)"
    using l CloseExpired_twice [OF c, of m] unfolding lags_def by simp
  ultimately show ?thesis using l c unfolding lags_def by auto
qed

lemma lags_create:
  assumes "lags m n" and "Create n a = (n', None)"
  shows "Create m a = (add_account a m, None) \<and> lags (add_account a m) n'"
proof -
  have nm: "n = CloseExpired (SetClock m (clock n))" using assms(1) by (simp add: lags_def)
  then have idx: "index n = index m" using index_CloseExpired by (metis SetClock_simps(7))
  have new: "index m (acc_ID a) = None" and n': "n' = add_account a n"
    using assms(2) idx by (simp_all add: Create_add split: if_splits)
  then have cm: "Create m a = (add_account a m, None)" by (simp add: Create_add)
  have "am_inv m" using assms(1) by (simp add: lags_def)
  then have "am_inv (add_account a m)" using am_inv_Create cm by blast
  moreover have "SetClock (add_account a m) c = add_account a (SetClock m c)" for c by (simp add: SetClock_def add_account_def)
  moreover have "CloseExpired (add_account a (SetClock m (clock n))) = n'"
    using CloseExpired_add [of "SetClock m (clock n)" a] \<open>am_inv m\<close> new nm n' by (simp add: am_inv_SetClock)
  ultimately show ?thesis
    using assms(1) cm n' by (simp add: lags_def hist_ok_def) (simp add: add_account_def)
qed

lemma clock_update_account: "update_account m i f = (m', e) \<Longrightarrow> clock m' = clock m"
  by (auto simp: update_account_def split: sum.splits prod.splits)

lemma clock_two_updates: "andThen (update_account m d f) (\<lambda>m1. update_account m1 c g) = (m', e) \<Longrightarrow> clock m' = clock m"
  by (auto simp: andThen_def split: prod.splits option.splits dest!: clock_update_account)

lemma clock_holds [simp]: "clock (removePending m i) = clock m" "clock (register_hold m t) = clock m" "clock (recordTransfer m t) = clock m"
  "clock (settle_hold m i r x) = clock m"
  by (simp_all add: removePending_def register_hold_def recordTransfer_def settle_hold_def Let_def split: option.split prod.split)

lemma ApplyTransferState_clock:
  assumes r: "ApplyTransferState m t = (m', None)"
  shows "clock m' = clock m"
proof -
  from r obtain x where chk: "checkTransfer m t = Inr x" by (auto simp: ApplyTransferState_def split: sum.splits)
  note effects = movePending_def releasePending_def reservePending_def applyPendingDebit_def applyPendingCredit_def
    postImmediate_def ApplyDebit_def ApplyCredit_def
  show ?thesis
    using r chk
    by (auto simp: ApplyTransferState_def effects Let_def simp flip: andThen_assoc
        split: if_splits option.splits elim!: andThen_SomeE dest!: clock_two_updates)
qed

lemma run_clock: "run_steps ApplyTransferState m ts = (m', None) \<Longrightarrow> clock m' = clock m"
  by (induction ts arbitrary: m) (auto split: prod.splits option.splits dest: ApplyTransferState_clock)

lemma ApplyTransferState_unexpired:
  assumes inv: "am_inv m" and u: "unexpired m" and r: "ApplyTransferState m t = (m', None)" and t: "isPending t \<longrightarrow> \<not> expired (clock m) t"
  shows "unexpired m'"
proof -
  have "am_ok m" and ho: "holds_ok (book_of m)" using inv by (simp_all add: am_inv_def book_inv_def)
  then have "spec_step (book_of m) t = Some (book_of m')" using manager.step_sound r by blast
  from this ho have "hold_at m' = hold_at m \<or> isPending t \<and> hold_at m' = (hold_at m)(tr_ID t \<mapsto> t) \<or> hold_at m' = (hold_at m)(tr_ID t := None) \<or>
      (\<exists>p x. hold_at m (tr_ID t) = Some p \<and> hold_at m' = (hold_at m)(tr_ID t \<mapsto> reduce_hold p x))"
    by (cases rule: spec_step_cases) (auto split: if_splits)
  moreover have "expired c (reduce_hold p x) = expired c p" for c p x by (simp add: expired_def deadline_def)
  ultimately show ?thesis using u t ApplyTransferState_clock [OF r] by (auto simp: unexpired_def split: if_splits)
qed

text \<open>The first transfer of a batch closes what has expired; the others find nothing to close.\<close>

lemma replay_first:
  assumes "lags m n" and "Timestamp t = clock n"
  shows "replay_transfer m t = ApplyTransferState n t"
proof -
  have n: "n = CloseExpired (SetClock m (clock n))" and le: "sint (clock m) \<le> sint (clock n)" using assms(1) by (simp_all add: lags_def)
  have "advance_clock m t = SetClock m (clock n)"
  proof (cases "sint (clock n) = sint (clock m)")
    case True
    then have "clock n = clock m" by (rule signed_word_eqI)
    then show ?thesis using assms(2) by (simp add: advance_clock_def)
  qed (use assms(2) le in \<open>simp add: advance_clock_def SetClock_def\<close>)
  with n show ?thesis by (simp add: replay_transfer_def Let_def)
qed

lemma lags_refl: "\<lbrakk> am_inv m; hist_ok m; unexpired m \<rbrakk> \<Longrightarrow> lags m m"
  using CloseExpired_idle [of m] by (simp add: lags_def am_inv_def)

definition holds_last :: "i64 \<Rightarrow> transfer \<Rightarrow> bool" where
  "holds_last c t \<longleftrightarrow> (isPending t \<longrightarrow> Timeout t \<noteq> 0 \<longrightarrow> sint c < sint (c + Timeout t))"

lemma replay_run:
  "\<lbrakk> lags m n; \<forall>t\<in>set ts. Timestamp t = clock n \<and> holds_last (clock n) t; run_steps ApplyTransferState n ts = (n', None);
     distinct (new_ids ts); set (new_ids ts) \<inter> dom (transfers n) = {} \<rbrakk> \<Longrightarrow>
     \<exists>m'. run_steps replay_transfer m ts = (m', None) \<and> lags m' n'"
proof (induction ts arbitrary: m n)
  case (Cons t ts)
  from Cons.prems(3) obtain n1 where n1: "ApplyTransferState n t = (n1, None)" "run_steps ApplyTransferState n1 ts = (n', None)"
    by (auto split: prod.splits option.splits)
  note live = lags_live [OF Cons.prems(1)]
  note keep = ApplyTransferState_keeps [OF live(1,2) n1(1) Cons.prems(4,5)]
  have ck: "clock n1 = clock n" by (rule ApplyTransferState_clock [OF n1(1)])
  have "isPending t \<longrightarrow> \<not> expired (clock n) t" using Cons.prems(2) by (auto simp: holds_last_def expired_def deadline_def)
  from ApplyTransferState_unexpired [OF live(1,3) n1(1) this] have "lags n1 n1" using lags_refl keep(1,2) by blast
  from Cons.IH [OF this _ n1(2) keep(3,4)] ck Cons.prems(2) obtain m' where
    "run_steps replay_transfer n1 ts = (m', None)" "lags m' n'" by auto
  moreover have "replay_transfer m t = (n1, None)" using replay_first [OF Cons.prems(1), of t] Cons.prems(2) n1(1) by simp
  ultimately show ?case by simp
qed auto

lemma lags_Create:
  assumes "lags m n"
  shows "replay_account m a = (fst (Create m a), None)" "lags (fst (Create m a)) (fst (Create n a))"
proof -
  have "n = CloseExpired (SetClock m (clock n))" using assms by (simp add: lags_def)
  then have idx: "index n = index m" using index_CloseExpired by (metis SetClock_simps(7))
  show "replay_account m a = (fst (Create m a), None)" by (simp add: replay_account_def Create_add)
  show "lags (fst (Create m a)) (fst (Create n a))"
  proof (cases "index n (acc_ID a) = None")
    case True
    then have "Create n a = (add_account a n, None)" by (simp add: Create_add)
    from lags_create [OF assms this] True show ?thesis by (simp add: Create_add)
  qed (use assms idx in \<open>auto simp: Create_add\<close>)
qed

subsection \<open>The handler on logged batches\<close>

text \<open>A store in which no key is reserved, as recovery builds it.\<close>

definition settled :: "idStore \<Rightarrow> bool" where
  "settled s \<longleftrightarrow> 0 < is_maxSize s \<and> (\<exists>rs. store_inv s rs \<and> (\<forall>x\<in>set (items s rs). \<not> it_pending x))"

lemma settled_new: "settled (NewIdempotencyStore mx ttl)"
  using store_inv_new [of mx ttl] unfolding settled_def by (fastforce simp: NewIdempotencyStore_def)

lemma settled_Commit:
  assumes "settled s"
  obtains s' where "Commit now s k t = Some s'" "settled s'"
proof -
  obtain rs where rs: "store_inv s rs" "\<forall>x\<in>set (items s rs). \<not> it_pending x" "0 < is_maxSize s" using assms by (auto simp: settled_def)
  let ?ys = "l_others k (l_evict now (items s rs))"
  have none: "\<forall>x\<in>set ?ys. \<not> it_pending x" using rs(2) set_l_evict [of now "items s rs"] by (auto simp: l_others_def)
  then have "open_count ?ys = 0" by (simp add: open_count_def filter_empty_conv)
  with Commit_list(1) [OF rs(1), where k = k and now = now and t = t] rs(3) obtain s' rs' where s': "Commit now s k t = Some s'"
    "store_inv s' rs'" "is_maxSize s' = is_maxSize s" "set (items s' rs') \<subseteq> insert (committed now s k t) (set ?ys)" by auto
  have "\<forall>x\<in>set (items s' rs'). \<not> it_pending x" using s'(4) none by (auto simp: committed_def)
  with s' rs(3) that show ?thesis unfolding settled_def by metis
qed

definition carries_transfer :: "wal_record \<Rightarrow> transfer \<Rightarrow> bool" where
  "carries_transfer r t \<longleftrightarrow> rec_Type r = RecordTypeTransfer \<and> rec_Payload r = EncodeTransferPayload t \<and> wf_transfer t"

definition carries_account :: "wal_record \<Rightarrow> account \<Rightarrow> bool" where
  "carries_account r a \<longleftrightarrow> rec_Type r = RecordTypeAccount \<and> rec_Payload r = EncodeAccountPayload a \<and> wf_account a"

lemma replay_record_transfer:
  assumes "carries_transfer r t" and "settled s" and "replay_transfer m t = (m', None)"
  obtains s' where "replay_record now (m, s) r = ((m', s'), None)" "settled s'"
proof (cases "IdempotencyKey t = zeros 32")
  case True
  with assms that [of s] show ?thesis by (simp add: replay_record_def carries_transfer_def transfer_codec.dec_enc)
next
  case False
  obtain s' where "Commit (now r) s (IdempotencyKey t) t = Some s'" "settled s'" using settled_Commit [OF assms(2)] by blast
  with False assms that [of s'] show ?thesis by (simp add: replay_record_def carries_transfer_def transfer_codec.dec_enc)
qed

lemma replay_transfers:
  "\<lbrakk> list_all2 carries_transfer recs ts; settled s; run_steps replay_transfer m ts = (m', None) \<rbrakk> \<Longrightarrow>
     \<exists>s'. run_handler (replay_record now) (m, s) recs = ((m', s'), None) \<and> settled s'"
proof (induction recs ts arbitrary: m s rule: list_all2_induct)
  case (Cons r recs t ts)
  from Cons.prems(2) obtain m1 where m1: "replay_transfer m t = (m1, None)" "run_steps replay_transfer m1 ts = (m', None)"
    by (auto split: prod.splits option.splits)
  from replay_record_transfer [OF Cons.hyps(1) Cons.prems(1) m1(1)] obtain s1 where
    "replay_record now (m, s) r = ((m1, s1), None)" "settled s1" by metis
  with Cons.IH [OF _ m1(2)] show ?case by simp
qed simp

lemma replay_accounts:
  "\<lbrakk> list_all2 carries_account recs as; lags m n \<rbrakk> \<Longrightarrow>
     \<exists>m'. run_handler (replay_record now) (m, s) recs = ((m', s), None) \<and> lags m' (foldl (\<lambda>n a. fst (Create n a)) n as)"
proof (induction recs as arbitrary: m n rule: list_all2_induct)
  case (Cons r recs a as)
  have "replay_record now (m, s) r = ((fst (Create m a), s), None)"
    using Cons.hyps(1) lags_Create(1) [OF Cons.prems]
    by (simp add: replay_record_def carries_account_def account_codec.dec_enc)
  with Cons.IH [OF lags_Create(2) [OF Cons.prems]] show ?case by simp
qed auto

lemma stamp_list_all2:
  "(\<And>r x l. P (r\<lparr>rec_LSN := l\<rparr>) x = P r x) \<Longrightarrow> list_all2 P (stamp lsn rs) xs = list_all2 P rs xs"
  by (induction lsn rs arbitrary: xs rule: stamp.induct) (auto simp: list_all2_Cons1)

lemma carries_LSN: "carries_transfer (r\<lparr>rec_LSN := l\<rparr>) t = carries_transfer r t" "carries_account (r\<lparr>rec_LSN := l\<rparr>) a = carries_account r a"
  by (simp_all add: carries_transfer_def carries_account_def)

lemma set_accepted: "set (accepted ts outs) \<subseteq> set ts"
  by (auto simp: accepted_def dest: set_zip_leftD)

lemma makeWALRecords_carries:
  assumes "length outs = length ts" and "\<forall>t\<in>set ts. wf_transfer t"
  shows "list_all2 carries_transfer (stamp lsn (makeWALRecords ts outs)) (accepted ts outs)"
proof -
  have "\<forall>t\<in>set (accepted ts outs). wf_transfer t" using assms(2) set_accepted by blast
  then have "list_all2 carries_transfer (makeWALRecords ts outs) (accepted ts outs)"
    unfolding makeWALRecords_def make_records_payloads [OF assms]
    by (auto simp: list_all2_map1 carries_transfer_def intro!: list.rel_refl_strong)
  then show ?thesis using carries_LSN by (simp add: stamp_list_all2)
qed

definition created :: "account list \<Rightarrow> ledger_error option list \<Rightarrow> account list" where
  "created as results = map fst (filter (\<lambda>(a, r). r = None) (zip as results))"

lemma scan_creates_carries:
  assumes "scan_creates m as [] = (results, recs)" and "\<forall>a\<in>set as. wf_account a"
  shows "list_all2 carries_account (stamp lsn recs) (created as results)" "length results = length as"
proof -
  note sc = scan_creates_payloads [OF assms(2,1)]
  have "\<forall>a\<in>set (created as results). wf_account a" using assms(2) by (auto simp: created_def dest: set_zip_leftD)
  then have "list_all2 carries_account recs (created as results)"
    using sc by (auto simp: list_all2_map1 carries_account_def created_def [symmetric] intro!: list.rel_refl_strong)
  then show "list_all2 carries_account (stamp lsn recs) (created as results)" using carries_LSN by (simp add: stamp_list_all2)
  show "length results = length as" using sc by simp
qed

lemma create_all_run: "length results = length as \<Longrightarrow> fst (create_all m as results) = foldl (\<lambda>n a. fst (Create n a)) m (created as results)"
proof (induction results as arbitrary: m rule: list_induct2)
  case (Cons r results a as)
  then show ?case by (cases r) (simp_all add: created_def case_prod_beta Let_def)
qed (simp add: created_def)

lemma length_carried:
  "carries_transfer r t \<Longrightarrow> wf_record r \<and> rec_Type r \<noteq> RecordTypeBatchCommit \<and> length (frame_of r) = 161"
  "carries_account r a \<Longrightarrow> wf_record r \<and> rec_Type r \<noteq> RecordTypeBatchCommit \<and> length (frame_of r) = 145"
  using transfer_codec.enc_width [of t] account_codec.enc_width [of a]
  by (auto simp: carries_transfer_def carries_account_def wf_record_def length_frame_of)

subsection \<open>Runs of the event loop\<close>

text \<open>\<open>room l n\<close>: the segments hold a frame, \<open>n\<close> of them make less than two gigabytes, and the LSN
  counter does not overflow.\<close>

definition room :: "eventLoop \<Rightarrow> nat \<Rightarrow> bool" where
  "room l n \<longleftrightarrow> 161 \<le> segmentSize (el_wal l) \<and> n * 161 + 29 < 2147483648 \<and>
     sint (wal_currentLSN (el_wal l)) + int n + 1 < 9223372036854775808"

definition batch_log :: "i64 \<Rightarrow> eventLoop \<Rightarrow> transfer list \<Rightarrow> wal_record list" where
  "batch_log wallClock l events = (case open_batch wallClock l events of (_, events', outcomes) \<Rightarrow> makeWALRecords events' outcomes)"

definition create_log :: "eventLoop \<Rightarrow> account list \<Rightarrow> wal_record list" where
  "create_log l accs = snd (scan_creates (el_accounts l) accs [])"

definition logs :: "wal \<Rightarrow> wal_record list \<Rightarrow> batch list" where
  "logs w records = (if records = [] then [] else [appended w records])"

text \<open>A run of a ledger that starts empty: the loop state and the batches it has logged. The
  transfers of a batch have fields of the right widths and no hold expires at once.\<close>

inductive runs :: "eventLoop \<Rightarrow> batch list \<Rightarrow> bool" where
  start: "runs (NewEventLoop NewAccountManager (OpenWAL [] mx False)) []"
| transfers: "\<lbrakk> runs l bs; \<forall>t\<in>set events. wf_transfer t \<and> holds_last (batch_time wallClock l) t; sint (el_clock l) < 9223372036854775807;
     room l (length events) \<rbrakk> \<Longrightarrow>
     runs (fst (processBatch wallClock l events)) (bs @ logs (el_wal l) (batch_log wallClock l events))"
| creates: "\<lbrakk> runs l bs; \<forall>a\<in>set accs. wf_account a; room l (length accs) \<rbrakk> \<Longrightarrow>
     runs (fst (processAccountCreate l accs)) (bs @ logs (el_wal l) (create_log l accs))"

definition replays :: "batch list \<Rightarrow> account_manager \<Rightarrow> bool" where
  "replays bs n \<longleftrightarrow> (\<forall>now s. settled s \<longrightarrow> (\<exists>m s'. run_handler (replay_record now) (NewAccountManager, s) (concat (map fst bs)) = ((m, s'), None) \<and>
     settled s' \<and> lags m n))"

definition run_inv :: "eventLoop \<Rightarrow> batch list \<Rightarrow> bool" where
  "run_inv l bs \<longleftrightarrow> wal_reach (el_wal l) bs (length bs) \<and> el_clock l = clock (el_accounts l) \<and> replays bs (el_accounts l)"

lemma run_handler_append:
  "run_handler h x (rs @ qs) = (case run_handler h x rs of (y, None) \<Rightarrow> run_handler h y qs | (y, Some e) \<Rightarrow> (y, Some e))"
  by (induction rs arbitrary: x) (auto split: prod.splits option.splits)

lemma batch_time_later: "sint (el_clock l) < 9223372036854775807 \<Longrightarrow> sint (el_clock l) \<le> sint (batch_time c l)"
proof -
  assume less: "sint (el_clock l) < 9223372036854775807"
  have "- 9223372036854775808 \<le> sint (el_clock l)" using sint_greater_eq [of "el_clock l"] by simp
  with less have "sint (el_clock l + 1) = sint (el_clock l) + 1"
    by (simp add: signed_word_eqI sint_word_ariths(1) signed_take_bit_int_eq_self)
  then show ?thesis by (simp add: batch_time_def)
qed

lemma appendable_carried:
  assumes "room l n" and "recs \<noteq> []" and "length recs \<le> n"
    and "\<forall>r\<in>set recs. wf_record r \<and> rec_Type r \<noteq> RecordTypeBatchCommit \<and> length (frame_of r) \<le> 161"
  shows "appendable (el_wal l) recs"
proof -
  have "length (frames rs) \<le> length rs * 161" if "\<forall>r\<in>set rs. length (frame_of r) \<le> 161" for rs
    using that by (induction rs) (auto simp: frames_def)
  then have "length (frames recs) \<le> length recs * 161" using assms(4) by blast
  moreover have "length recs * 161 \<le> n * 161" using assms(3) by simp
  ultimately show ?thesis using assms by (auto simp: appendable_def room_def)
qed

lemma append_synced:
  assumes "wal_reach w bs d" and "appendable w recs"
  obtains w' x where "AppendBatch w recs = (w', Inr x)" "wal_reach w' (bs @ [appended w recs]) d"
    "wal_reach (Sync w') (bs @ [appended w recs]) (Suc (length bs))"
proof -
  obtain parts rs where "log_state w parts rs" using reach_history [OF assms(1)] by (auto simp: history_ok_def)
  from AppendBatch_appends [OF this assms(2)] obtain w' x where w': "AppendBatch w recs = (w', Inr x)" by metis
  have "wal_reach w' (bs @ [appended w recs]) d" using wal_reach.append [OF assms] w' by simp
  with w' wal_reach.sync [OF this] that show ?thesis by simp
qed

lemma replays_tick: "replays bs n \<Longrightarrow> sint (clock n) \<le> sint c \<Longrightarrow> replays bs (CloseExpired (SetClock n c))"
  unfolding replays_def using lags_tick by meson

lemma replays_transfers:
  assumes "replays bs n" and "list_all2 carries_transfer (fst b) ts" and "\<forall>t\<in>set ts. Timestamp t = clock n \<and> holds_last (clock n) t"
    and "run_steps ApplyTransferState n ts = (n', None)" and "distinct (new_ids ts)" and "set (new_ids ts) \<inter> dom (transfers n) = {}"
  shows "replays (bs @ [b]) n'"
  unfolding replays_def
proof (intro allI impI)
  fix now s assume "settled s"
  with assms(1) obtain m s1 where m: "run_handler (replay_record now) (NewAccountManager, s) (concat (map fst bs)) = ((m, s1), None)" "settled s1" "lags m n"
    unfolding replays_def by blast
  from replay_run [OF m(3) assms(3-6)] obtain m' where m': "run_steps replay_transfer m ts = (m', None)" "lags m' n'" by blast
  from replay_transfers [OF assms(2) m(2) m'(1), of now] m m'(2)
  show "\<exists>m s'. run_handler (replay_record now) (NewAccountManager, s) (concat (map fst (bs @ [b]))) = ((m, s'), None) \<and> settled s' \<and> lags m n'"
    by (auto simp: run_handler_append)
qed

lemma replays_accounts:
  assumes "replays bs n" and "list_all2 carries_account (fst b) as"
  shows "replays (bs @ [b]) (foldl (\<lambda>n a. fst (Create n a)) n as)"
  unfolding replays_def
proof (intro allI impI)
  fix now s assume "settled s"
  with assms(1) obtain m s1 where m: "run_handler (replay_record now) (NewAccountManager, s) (concat (map fst bs)) = ((m, s1), None)" "settled s1" "lags m n"
    unfolding replays_def by blast
  from replay_accounts [OF assms(2) m(3), of now s1] m
  show "\<exists>m s'. run_handler (replay_record now) (NewAccountManager, s) (concat (map fst (bs @ [b]))) = ((m, s'), None) \<and> settled s' \<and>
     lags m (foldl (\<lambda>n a. fst (Create n a)) n as)"
    by (auto simp: run_handler_append)
qed

lemma replays_live: "replays bs n \<Longrightarrow> am_inv n \<and> hist_ok n \<and> unexpired n"
  unfolding replays_def using settled_new lags_live by meson

text \<open>One batch of transfers, with the log before and after it.\<close>

lemma transfers_step:
  assumes inv: "run_inv l bs" and ev: "\<forall>t\<in>set events. wf_transfer t \<and> holds_last (batch_time c l) t"
    and ck: "sint (el_clock l) < 9223372036854775807" and rm: "room l (length events)"
  defines "l' \<equiv> fst (processBatch c l events)" and "recs \<equiv> batch_log c l events"
  shows "recs \<noteq> [] \<Longrightarrow> appendable (el_wal l) recs" "run_inv l' (bs @ logs (el_wal l) recs)"
    "\<exists>n us. n = CloseExpired (SetClock (el_accounts l) (batch_time c l)) \<and> am_inv n \<and> hist_ok n \<and> list_all2 carries_transfer recs us \<and>
       run_steps ApplyTransferState n us = (el_accounts l', None) \<and> distinct (new_ids us) \<and> set (new_ids us) \<inter> dom (transfers n) = {}"
proof -
  let ?now = "batch_time c l" and ?w = "el_wal l"
  let ?n = "CloseExpired (SetClock (el_accounts l) ?now)" and ?ev = "map (\<lambda>t. t\<lparr>Timestamp := ?now\<rparr>) events"
  let ?outs = "ValidateBatch ?ev ?n"
  let ?l1 = "l\<lparr>el_clock := ?now, el_accounts := ?n\<rparr>"
  have op: "open_batch c l events = (?l1, ?ev, ?outs)" by (simp add: open_batch_def Let_def)
  have reach: "wal_reach ?w bs (length bs)" and el: "el_clock l = clock (el_accounts l)" and rp: "replays bs (el_accounts l)"
    using inv by (simp_all add: run_inv_def)
  have rn: "replays bs ?n" using replays_tick [OF rp] batch_time_later [OF ck, of c] el by simp
  have live: "am_inv ?n" "hist_ok ?n" using replays_live [OF rn] by simp_all
  have cn: "clock ?n = ?now" using replays_live [OF rp] CloseExpired_closes [of "SetClock (el_accounts l) ?now"] by (simp add: am_inv_SetClock)
  have "am_ok ?n" using live by (simp add: am_inv_def)
  from batch_runs [OF this] obtain n' where n': "ApplyBatch ?ev ?outs ?n = (n', ?outs)"
    "run_steps ApplyTransferState ?n (accepted ?ev ?outs) = (n', None)" "length ?outs = length ?ev" by metis
  have wf: "\<forall>t\<in>set ?ev. wf_transfer t" using ev by (auto simp: wf_transfer_def)
  have recs: "recs = makeWALRecords ?ev ?outs" by (simp add: recs_def batch_log_def op)
  have car: "list_all2 carries_transfer (stamp lsn recs) (accepted ?ev ?outs)" for lsn unfolding recs by (rule makeWALRecords_carries [OF n'(3) wf])
  have car0: "list_all2 carries_transfer recs (accepted ?ev ?outs)" using car [of 0] carries_LSN by (simp add: stamp_list_all2)
  have len: "length recs \<le> length events" using list_all2_lengthD [OF car0] by (auto simp: accepted_def intro: order_trans [OF length_filter_le])
  have fr: "\<forall>r\<in>set recs. wf_record r \<and> rec_Type r \<noteq> RecordTypeBatchCommit \<and> length (frame_of r) \<le> 161"
    using car0 length_carried(1) by (fastforce simp: list_all2_conv_all_nth in_set_conv_nth)
  have ts: "\<forall>t\<in>set (accepted ?ev ?outs). Timestamp t = clock ?n \<and> holds_last (clock ?n) t"
  proof -
    have "\<forall>t\<in>set ?ev. Timestamp t = ?now \<and> holds_last ?now t" using ev by (auto simp: holds_last_def isPending_def)
    then show ?thesis unfolding cn using set_accepted by blast
  qed
  show ap: "recs \<noteq> [] \<Longrightarrow> appendable (el_wal l) recs" using appendable_carried [OF rm _ len fr] by blast
  have cl: "clock n' = ?now" using run_clock [OF n'(2)] cn by simp
  have res: "run_inv l' (bs @ logs (el_wal l) recs) \<and> el_accounts l' = n'"
  proof (cases "recs = []")
    case True
    then have "accepted ?ev ?outs = []" using car0 by simp
    then have "n' = ?n" using n'(2) by simp
    then show ?thesis using True rn reach cn n'(1) by (simp add: l'_def processBatch_def op recs [symmetric] finish_batch_def run_inv_def logs_def)
  next
    case False
    have "replays (bs @ [appended ?w recs]) n'"
      by (rule replays_transfers [OF rn _ ts n'(2)]) (use car ValidateBatch_ids [of ?ev ?n] in \<open>simp_all add: appended_def\<close>)
    moreover obtain w' x where "AppendBatch ?w recs = (w', Inr x)" "wal_reach (Sync w') (bs @ [appended ?w recs]) (Suc (length bs))"
      using append_synced [OF reach ap [OF False]] by metis
    ultimately show ?thesis using False n'(1) cl
      by (simp add: l'_def processBatch_def op recs [symmetric] finish_batch_def run_inv_def logs_def Let_def)
  qed
  then show "run_inv l' (bs @ logs (el_wal l) recs)" by blast
  show "\<exists>n us. n = CloseExpired (SetClock (el_accounts l) (batch_time c l)) \<and> am_inv n \<and> hist_ok n \<and> list_all2 carries_transfer recs us \<and>
       run_steps ApplyTransferState n us = (el_accounts l', None) \<and> distinct (new_ids us) \<and> set (new_ids us) \<inter> dom (transfers n) = {}"
    using live car0 n'(2) res ValidateBatch_ids [of ?ev ?n] by blast
qed

lemma created_valid: "scan_creates m as buf = (results, recs) \<Longrightarrow> a \<in> set (created as results) \<Longrightarrow> ValidateAccount a = None"
proof (induction as arbitrary: buf results recs)
  case (Cons b as)
  then show ?case
    by (fastforce simp: created_def Let_def split: option.splits sum.splits prod.splits if_splits)
qed (simp add: created_def)

lemma foldl_Create_clock: "clock (foldl (\<lambda>n a. fst (Create n a)) n as) = clock n"
  by (induction as arbitrary: n) (simp_all add: Create_add add_account_def)

lemma creates_step:
  assumes inv: "run_inv l bs" and accs: "\<forall>a\<in>set accs. wf_account a" and rm: "room l (length accs)"
  defines "recs \<equiv> create_log l accs"
  shows "recs \<noteq> [] \<Longrightarrow> appendable (el_wal l) recs" "run_inv (fst (processAccountCreate l accs)) (bs @ logs (el_wal l) recs)"
    "\<exists>as. list_all2 carries_account recs as \<and> el_accounts (fst (processAccountCreate l accs)) = foldl (\<lambda>n a. fst (Create n a)) (el_accounts l) as \<and>
       (\<forall>a\<in>set as. ValidateAccount a = None)"
proof -
  let ?w = "el_wal l" and ?n = "el_accounts l"
  obtain results where sc: "scan_creates ?n accs [] = (results, recs)" by (metis create_log_def prod.collapse recs_def)
  have reach: "wal_reach ?w bs (length bs)" and el: "el_clock l = clock ?n" and rp: "replays bs ?n" using inv by (simp_all add: run_inv_def)
  note car = scan_creates_carries [OF sc accs]
  have car0: "list_all2 carries_account recs (created accs results)" using car(1) [of 0] carries_LSN by (simp add: stamp_list_all2)
  have len: "length recs \<le> length accs" using list_all2_lengthD [OF car0] car(2) by (auto simp: created_def intro: order_trans [OF length_filter_le])
  have fr: "\<forall>r\<in>set recs. wf_record r \<and> rec_Type r \<noteq> RecordTypeBatchCommit \<and> length (frame_of r) \<le> 161"
    using car0 length_carried(2) by (fastforce simp: list_all2_conv_all_nth in_set_conv_nth)
  show ap: "recs \<noteq> [] \<Longrightarrow> appendable ?w recs" using appendable_carried [OF rm _ len fr] by blast
  have res: "run_inv (fst (processAccountCreate l accs)) (bs @ logs ?w recs) \<and>
      el_accounts (fst (processAccountCreate l accs)) = foldl (\<lambda>n a. fst (Create n a)) ?n (created accs results)"
  proof (cases "recs = []")
    case True
    then show ?thesis using inv sc car0 by (simp add: processAccountCreate_def logs_def)
  next
    case False
    have "replays (bs @ [appended ?w recs]) (foldl (\<lambda>n a. fst (Create n a)) ?n (created accs results))"
      by (rule replays_accounts [OF rp]) (simp add: appended_def car)
    moreover obtain w' x where "AppendBatch ?w recs = (w', Inr x)" "wal_reach (Sync w') (bs @ [appended ?w recs]) (Suc (length bs))"
      using append_synced [OF reach ap [OF False]] by metis
    ultimately show ?thesis using False sc create_all_run [OF car(2), of ?n] el foldl_Create_clock [of ?n]
      by (simp add: processAccountCreate_def run_inv_def logs_def Let_def case_prod_beta)
  qed
  then show "run_inv (fst (processAccountCreate l accs)) (bs @ logs ?w recs)" by blast
  show "\<exists>as. list_all2 carries_account recs as \<and> el_accounts (fst (processAccountCreate l accs)) = foldl (\<lambda>n a. fst (Create n a)) (el_accounts l) as \<and>
       (\<forall>a\<in>set as. ValidateAccount a = None)"
    using car0 res created_valid [OF sc] by blast
qed

lemma runs_inv: "runs l bs \<Longrightarrow> run_inv l bs"
proof (induction rule: runs.induct)
  case (start mx)
  have "lags NewAccountManager NewAccountManager"
    by (rule lags_refl [OF am_inv_new]) (simp_all add: hist_ok_def unexpired_def hold_at_def NewAccountManager_def)
  then have "replays [] NewAccountManager" by (auto simp: replays_def)
  then show ?case using wal_reach.opened [of mx] by (simp add: run_inv_def NewEventLoop_def) (simp add: NewAccountManager_def)
qed (auto intro: transfers_step(2) creates_step(2))

subsection \<open>Recovery with a handler that can fail\<close>

text \<open>A handler that keeps going in the state \<open>None\<close> after an error. Recovery with it is recovery
  with the original handler as long as no error occurs.\<close>

definition persevering :: "('h, 'e) handler \<Rightarrow> ('h option, 'e) handler" where
  "persevering handler x r = (case x of None \<Rightarrow> (None, None) | Some h \<Rightarrow> (case handler h r of (h', None) \<Rightarrow> (Some h', None) | (h', Some e) \<Rightarrow> (None, None)))"

lemma total_persevering: "total_handler (persevering handler)"
  by (auto simp: total_handler_def persevering_def split: option.split prod.split)

lemma run_persevering_None: "run_handler (persevering handler) None rs = (None, None)"
  by (induction rs) (simp_all add: persevering_def)

lemma run_persevering:
  "run_handler (persevering handler) (Some h) rs = (case run_handler handler h rs of (h', None) \<Rightarrow> (Some h', None) | (h', Some e) \<Rightarrow> (None, None))"
  by (induction rs arbitrary: h) (auto simp: persevering_def run_persevering_None split: prod.splits option.splits)

lemma filter_persevering: "filterHandler from (persevering handler) = persevering (filterHandler from handler)"
  by (intro ext) (auto simp: filterHandler_def persevering_def split: option.splits)

definition with_handler :: "('h option, 'e) replay_result \<Rightarrow> 'h \<Rightarrow> ('h, 'e) replay_result" where
  "with_handler r h = \<lparr>rr_stop = rr_stop r, rr_committedOffset = rr_committedOffset r, rr_err = None, rr_handler = h, rr_state = rr_state r\<rparr>"

text \<open>The next frame at an offset, or whether reading stops there with an error.\<close>

definition frame_at :: "bytes \<Rightarrow> nat \<Rightarrow> bool + wal_record \<times> nat" where
  "frame_at data off =
     (let n = 13 + unat (be_word (slice (off + 9) (off + 13) data) :: u32) + 4
      in if length data \<le> off then Inl False
         else if length data - off < 17 \<or> length data < off + n then Inl True
         else (case DecodeRecord (slice off (off + n) data) of Inl _ \<Rightarrow> Inl True | Inr r \<Rightarrow> Inr (r, off + n)))"

lemma frame_at_later: "frame_at data off = Inr (r, off') \<Longrightarrow> length data - off' < length data - off"
  by (auto simp: frame_at_def Let_def split: if_splits sum.splits)

lemma replay_loop_frame:
  "replay_loop handler data off co h st =
     (case frame_at data off of
        Inl stop \<Rightarrow> \<lparr>rr_stop = stop, rr_committedOffset = co, rr_err = None, rr_handler = h, rr_state = st\<rparr>
      | Inr (r, off') \<Rightarrow>
          if rec_Type r = RecordTypeBatchCommit
          then if length (rs_pending st) = unat (expectedCount r)
               then (case run_handler handler h (rs_pending st) of
                       (h', Some e) \<Rightarrow> \<lparr>rr_stop = False, rr_committedOffset = co, rr_err = Some e, rr_handler = h', rr_state = st\<rparr>
                     | (h', None) \<Rightarrow> replay_loop handler data off' off' h' (st\<lparr>highestLSN := rec_LSN r, rs_pending := []\<rparr>))
               else replay_loop handler data off' co h (st\<lparr>rs_pending := []\<rparr>)
          else replay_loop handler data off' co h (st\<lparr>rs_pending := rs_pending st @ [r]\<rparr>))"
  by (subst replay_loop.simps;
      cases "DecodeRecord (slice off (off + (13 + unat (be_word (slice (off + 9) (off + 13) data) :: u32) + 4)) data)")
     (simp_all add: frame_at_def Let_def)

lemma replay_persevering_None: "rr_handler (replay_loop (persevering handler) data off co None st) = None"
proof (induction "length data - off" arbitrary: off co st rule: less_induct)
  case less
  show ?case
  proof (cases "frame_at data off")
    case (Inr x)
    then obtain r off' where x: "frame_at data off = Inr (r, off')" by (cases x) simp
    with less [OF frame_at_later [OF x]] show ?thesis by (subst replay_loop_frame) (simp add: run_persevering_None)
  qed (subst replay_loop_frame, simp)
qed

lemma replay_persevering:
  "rr_handler (replay_loop (persevering handler) data off co (Some h) st) = Some h' \<Longrightarrow>
     replay_loop handler data off co h st = with_handler (replay_loop (persevering handler) data off co (Some h) st) h' \<and>
     rr_err (replay_loop (persevering handler) data off co (Some h) st) = None"
proof (induction "length data - off" arbitrary: off co h st rule: less_induct)
  case less
  note L = replay_loop_frame [of handler data off co h st] and R = replay_loop_frame [of "persevering handler" data off co "Some h" st]
  show ?case
  proof (cases "frame_at data off")
    case (Inl stop)
    with less.prems show ?thesis unfolding L R by (simp add: with_handler_def)
  next
    case (Inr x)
    then obtain r off' where x: "frame_at data off = Inr (r, off')" by (cases x) simp
    note ih = less.hyps [OF frame_at_later [OF x]]
    obtain h1 e where run: "run_handler handler h (rs_pending st) = (h1, e)" by fastforce
    show ?thesis
      using less.prems ih unfolding L R
      by (cases e) (auto simp: x run run_persevering replay_persevering_None split: if_splits)
  qed
qed

lemma segment_persevering:
  assumes "rr_handler (replaySegment (persevering handler) data (Some h) st) = Some h'"
  shows "replaySegment handler data h st = with_handler (replaySegment (persevering handler) data (Some h) st) h'"
    "rr_err (replaySegment (persevering handler) data (Some h) st) = None"
  using assms replay_persevering [of handler data 0 0 h st h'] by (auto simp: replaySegment_def with_handler_def split: if_splits)

lemma segment_persevering_None: "rr_handler (replaySegment (persevering handler) data None st) = None"
  by (simp add: replaySegment_def replay_persevering_None)

definition with_scan :: "('h option, 'e) scan \<Rightarrow> 'h \<Rightarrow> ('h, 'e) scan" where
  "with_scan s h = \<lparr>sc_handler = h, sc_state = sc_state s, sc_processed = sc_processed s, sc_last = sc_last s, sc_stop = sc_stop s, sc_err = sc_err s\<rparr>"

lemma scan_persevering_None:
  "sc_handler s = None \<Longrightarrow> sc_handler (scan_segments (persevering handler) lo idx files s) = None"
  by (induction "persevering handler" lo idx files s rule: scan_segments.induct)
     (auto simp: Let_def segment_persevering_None split: option.split)

lemma scan_persevering:
  "\<lbrakk> sc_handler s = Some h; sc_handler (scan_segments (persevering handler) lo idx files s) = Some h' \<rbrakk> \<Longrightarrow>
     scan_segments handler lo idx files (with_scan s h) = with_scan (scan_segments (persevering handler) lo idx files s) h'"
proof (induction files arbitrary: idx s h)
  case (Cons f files)
  obtain k data where f: "f = (k, data)" by fastforce
  let ?skip = "sint lo > 0 \<and> files \<noteq> [] \<and> sint (peekSegmentMaxLSN data) \<le> sint lo"
  let ?r = "replaySegment (persevering handler) data (Some h) (sc_state s)"
  let ?s2 = "s\<lparr>sc_last := k, sc_handler := rr_handler ?r, sc_state := rr_state ?r, sc_processed := sc_processed s @ [(k, rr_committedOffset ?r)]\<rparr>"
  show ?case
  proof (cases ?skip)
    case True
    have "with_scan s h\<lparr>sc_last := k\<rparr> = with_scan (s\<lparr>sc_last := k\<rparr>) h" by (simp add: with_scan_def)
    with True Cons.IH [of "s\<lparr>sc_last := k\<rparr>" h "idx + 1"] Cons.prems show ?thesis by (simp add: f)
  next
    case False
    have "rr_handler ?r \<noteq> None"
    proof
      assume "rr_handler ?r = None"
      with Cons.prems False scan_persevering_None [of ?s2 handler lo "idx + 1" files] show False
        by (auto simp: f Let_def split: option.splits if_splits)
    qed
    then obtain h1 where h1: "rr_handler ?r = Some h1" by blast
    note sg = segment_persevering [OF h1]
    have seg: "replaySegment handler data h (sc_state s) = with_handler ?r h1" by (rule sg)
    show ?thesis
    proof (cases "rr_stop ?r")
      case True
      then show ?thesis using Cons.prems False h1 sg(2) seg by (auto simp: f Let_def with_scan_def with_handler_def)
    next
      case go: False
      have "sc_handler (scan_segments (persevering handler) lo (idx + 1) files ?s2) = Some h'"
        using Cons.prems False go sg(2) by (auto simp: f Let_def)
      from Cons.IH [OF _ this, of h1] h1
      have "scan_segments handler lo (idx + 1) files (with_scan ?s2 h1) =
         with_scan (scan_segments (persevering handler) lo (idx + 1) files ?s2) h'" by simp
      then show ?thesis using Cons.prems(1) False go sg(2) seg by (auto simp: f Let_def with_scan_def with_handler_def)
    qed
  qed
qed (simp add: with_scan_def)

lemma recover_persevering:
  assumes "rc_handler (recoverSegments files lo (persevering handler) (Some h)) = Some h'"
    and "rc_err (recoverSegments files lo (persevering handler) (Some h)) = None"
  shows "recoverSegments files lo handler h =
    (let rc = recoverSegments files lo (persevering handler) (Some h)
     in \<lparr>rc_LSN = rc_LSN rc, rc_lastSegment = rc_lastSegment rc, rc_files = rc_files rc, rc_handler = h', rc_err = None\<rparr>)"
proof (cases "files = []")
  case False
  let ?init = "\<lparr>sc_handler = Some h, sc_state = replayState0, sc_processed = [], sc_last = 0, sc_stop = None, sc_err = None\<rparr>"
  let ?s = "scan_segments (persevering handler) lo 0 files ?init"
  have err: "sc_err ?s = None" and h': "sc_handler ?s = Some h'"
    using assms False by (auto simp: recoverSegments_def Let_def case_prod_beta split: option.splits)
  have run: "scan_segments handler lo 0 files (with_scan ?init h) = with_scan ?s h'" by (rule scan_persevering [OF _ h']) simp
  have "with_scan ?init h = \<lparr>sc_handler = h, sc_state = replayState0, sc_processed = [], sc_last = 0, sc_stop = None, sc_err = None\<rparr>"
    by (simp add: with_scan_def)
  note run [unfolded this]
  then show ?thesis using False err by (cases "sc_stop ?s") (simp_all add: recoverSegments_def with_scan_def Let_def case_prod_beta)
qed (use assms in \<open>simp add: recoverSegments_def\<close>)

lemma Recover_persevering:
  assumes "Recover w (persevering handler) (Some h) = (w', Some h', None)"
  shows "Recover w handler h = (w', h', None)"
proof -
  let ?rc = "recoverSegments (wal_files w) 0 (persevering (filterHandler 0 handler)) (Some h)"
  have rc: "rc_handler ?rc = Some h'" "rc_err ?rc = None"
    using assms by (auto simp: Recover_def RecoverFromLSN_def filter_persevering Let_def split: option.splits prod.splits)
  from recover_persevering [OF this] assms show ?thesis
    by (auto simp: Recover_def RecoverFromLSN_def filter_persevering rc Let_def split: prod.splits)
qed

subsection \<open>Restarting after a crash\<close>

lemma restart_replays:
  assumes "wal_reach w bs d" and "syncedOffset (wal_current w) \<le> n" and "settled s"
    and "\<And>j. d \<le> j \<Longrightarrow> j \<le> length bs \<Longrightarrow> \<exists>k. replays (take j bs) k \<and> P k"
  shows "\<exists>w' m s' k. Recover (OpenWAL (crash w n) mx False) (replay_record now) (NewAccountManager, s) = (w', (m, s'), None) \<and> lags m k \<and> P k"
proof -
  let ?h = "persevering (replay_record now)"
  obtain j w' where j: "d \<le> j" "j \<le> length bs"
    and rec: "Recover (OpenWAL (crash w n) mx False) ?h (Some (NewAccountManager, s)) =
       (w', handled ?h (Some (NewAccountManager, s)) (concat (map fst (take j bs))), None)"
    using recover_after_crash [OF assms(1,2) total_persevering] by metis
  obtain k where k: "replays (take j bs) k" "P k" using assms(4) [OF j] by blast
  then obtain m s' where "run_handler (replay_record now) (NewAccountManager, s) (concat (map fst (take j bs))) = ((m, s'), None)" "lags m k"
    using assms(3) unfolding replays_def by blast
  then have "handled ?h (Some (NewAccountManager, s)) (concat (map fst (take j bs))) = Some (m, s')" by (simp add: handled_def run_persevering)
  with rec Recover_persevering have "Recover (OpenWAL (crash w n) mx False) (replay_record now) (NewAccountManager, s) = (w', (m, s'), None)" by metis
  with \<open>lags m k\<close> k(2) show ?thesis by blast
qed

lemma restart_recovers:
  assumes "runs l bs" and "syncedOffset (wal_current (el_wal l)) \<le> n"
  shows "\<exists>w' m s. Recover (OpenWAL (crash (el_wal l) n) mx False) (replay_record now) (NewAccountManager, NewIdempotencyStore keys ttl) = (w', (m, s), None) \<and>
    el_accounts l = CloseExpired (SetClock m (clock (el_accounts l)))"
proof -
  have "wal_reach (el_wal l) bs (length bs)" "replays bs (el_accounts l)" using runs_inv [OF assms(1)] by (simp_all add: run_inv_def)
  from restart_replays [OF this(1) assms(2) settled_new, where P = "\<lambda>k. k = el_accounts l"] this(2)
  show ?thesis by (fastforce simp: lags_def)
qed

text \<open>A ledger in which two accounts were created.\<close>

definition sample_loop :: eventLoop where
  "sample_loop = NewEventLoop NewAccountManager (OpenWAL [] 1000 False)"

definition served_loop :: eventLoop where
  "served_loop = fst (processAccountCreate sample_loop [sample_account 1 100, sample_account 2 0])"

lemma sample_loop_wal [simp]: "el_wal sample_loop = OpenWAL [] 1000 False" "el_accounts sample_loop = NewAccountManager"
  "segmentSize (OpenWAL [] 1000 False) = 1000" "wal_currentLSN (OpenWAL [] 1000 False) = 0"
  by (simp_all add: sample_loop_def NewEventLoop_def OpenWAL_def openSegment_def Let_def)

lemma sample_accounts_wf: "\<forall>a\<in>set [sample_account 1 100, sample_account 2 0]. wf_account a" "room sample_loop (length [sample_account 1 100, sample_account 2 0])"
  by (simp_all add: wf_account_def sample_account_def ident_of_def account0_def room_def)

lemma served_runs: "runs served_loop (logs (el_wal sample_loop) (create_log sample_loop [sample_account 1 100, sample_account 2 0]))"
  using runs.creates [OF runs.start [of 1000, folded sample_loop_def] sample_accounts_wf] by (simp add: served_loop_def)

lemma served_state:
  "el_accounts served_loop = fst (Create (fst (Create NewAccountManager (sample_account 1 100))) (sample_account 2 0))"
  "el_clock served_loop = 0" "segmentSize (el_wal served_loop) = 1000" "wal_currentLSN (el_wal served_loop) = 3"
proof -
  let ?accs = "[sample_account 1 100, sample_account 2 0]"
  have "fst (scan_creates NewAccountManager ?accs []) = [None, None]" "length (snd (scan_creates NewAccountManager ?accs [])) = 2" by code_simp+
  then obtain recs where sc: "scan_creates NewAccountManager ?accs [] = ([None, None], recs)" "length recs = 2" by (metis prod.collapse)
  have ne: "recs \<noteq> []" using sc(2) by auto
  have ap: "appendable (OpenWAL [] 1000 False) recs"
    using creates_step(1) [OF runs_inv [OF runs.start [of 1000, folded sample_loop_def]] sample_accounts_wf] sc ne
    by (auto simp: create_log_def simp del: scan_creates.simps)
  obtain parts rs where "log_state (OpenWAL [] 1000 False) parts rs" using reach_history [OF wal_reach.opened [of 1000]] by (auto simp: history_ok_def)
  from AppendBatch_appends [OF this ap] obtain w' where w': "AppendBatch (OpenWAL [] 1000 False) recs = (w', Inr (wal_currentLSN (OpenWAL [] 1000 False) + 1))"
    "wal_currentLSN w' = snd (appended (OpenWAL [] 1000 False) recs)" "segmentSize w' = 1000" by auto
  show "el_accounts served_loop = fst (Create (fst (Create NewAccountManager (sample_account 1 100))) (sample_account 2 0))"
    "el_clock served_loop = 0" "segmentSize (el_wal served_loop) = 1000" "wal_currentLSN (el_wal served_loop) = 3"
    using w' sc ne by (simp_all add: served_loop_def processAccountCreate_def Let_def case_prod_beta appended_def del: scan_creates.simps)
      (simp add: sample_loop_def NewEventLoop_def)
qed

text \<open>C3: atomicity of a batch. A crash after the records of a batch were written but before they were
  synced, which loses any part of them, leaves a ledger that restarts either in the state before
  the batch or in the state after it.\<close>

theorem crash_during_batch:
  assumes "runs l bs" and "\<forall>t\<in>set events. wf_transfer t \<and> holds_last (batch_time wallClock l) t" and "sint (el_clock l) < 9223372036854775807"
    and "room l (length events)" and "batch_log wallClock l events \<noteq> []"
  defines "w \<equiv> fst (AppendBatch (el_wal l) (batch_log wallClock l events))"
  assumes "syncedOffset (wal_current w) \<le> n"
  shows "\<exists>w' m s. Recover (OpenWAL (crash w n) mx False) (replay_record now) (NewAccountManager, NewIdempotencyStore keys ttl) = (w', (m, s), None) \<and>
    (\<exists>live \<in> {el_accounts l, el_accounts (fst (processBatch wallClock l events))}. live = CloseExpired (SetClock m (clock live)))"
proof -
  let ?recs = "batch_log wallClock l events" and ?l' = "fst (processBatch wallClock l events)"
  have inv: "run_inv l bs" by (rule runs_inv [OF assms(1)])
  note st = transfers_step [OF inv assms(2-4)]
  have reach: "wal_reach w (bs @ [appended (el_wal l) ?recs]) (length bs)"
    unfolding w_def using wal_reach.append [OF _ st(1) [OF assms(5)]] inv by (simp add: run_inv_def)
  have "replays bs (el_accounts l)" "replays (bs @ [appended (el_wal l) ?recs]) (el_accounts ?l')"
    using inv st(2) assms(5) by (simp_all add: run_inv_def logs_def)
  then have "\<exists>k. replays (take j (bs @ [appended (el_wal l) ?recs])) k \<and> k \<in> {el_accounts l, el_accounts ?l'}"
    if "length bs \<le> j" "j \<le> length (bs @ [appended (el_wal l) ?recs])" for j
    using that by (cases "j = length bs") (auto simp: le_Suc_eq)
  from restart_replays [OF reach assms(7) settled_new this] show ?thesis unfolding lags_def by meson
qed

theorem crash_during_batch_witness:
  "let w = fst (AppendBatch (el_wal served_loop) (batch_log 5 served_loop [sample_transfer 7 1 2 30 0]))
   in \<exists>w' m s. Recover (OpenWAL (crash w (syncedOffset (wal_current w))) 1000 False)
      (replay_record (\<lambda>_. 5)) (NewAccountManager, NewIdempotencyStore 10 50) = (w', (m, s), None) \<and>
      (\<exists>live \<in> {el_accounts served_loop, el_accounts (fst (processBatch 5 served_loop [sample_transfer 7 1 2 30 0]))}. live = CloseExpired (SetClock m (clock live)))"
proof -
  let ?ev = "[sample_transfer 7 1 2 30 0]"
  have acc: "el_accounts served_loop = sample_manager" by (simp add: served_state sample_manager_def)
  have bt: "batch_time 5 served_loop = 5" by (simp add: batch_time_def served_state)
  have "ValidateBatch [sample_transfer 7 1 2 30 0\<lparr>Timestamp := 5\<rparr>] (CloseExpired (SetClock sample_manager 5)) = [None]" by code_simp
  then have ne: "batch_log 5 served_loop ?ev \<noteq> []"
    by (simp add: batch_log_def open_batch_def bt acc makeWALRecords_def Let_def)
  have ev: "\<forall>t\<in>set ?ev. wf_transfer t \<and> holds_last (batch_time 5 served_loop) t"
    by (simp add: wf_transfer_def sample_transfer_def transfer0_def ident_of_def holds_last_def isPending_def)
  have "room served_loop (length ?ev)" "sint (el_clock served_loop) < 9223372036854775807" by (simp_all add: room_def served_state)
  from crash_during_batch [OF served_runs ev this(2,1) ne order_refl] show ?thesis unfolding Let_def .
qed

text \<open>A deadline that wraps around can make a ledger impossible to restart. A batch that reserves a hold
  with a timeout of \<open>2\<^sup>6\<^sup>3\<close> nanoseconds and settles it is accepted and logged by the live loop, which
  closes expired holds only between batches; replay closes the hold before the settlement, which
  then fails, so that recovery reports an error.\<close>

theorem wrapped_timeout_stops_restart:
  "let hold = sample_transfer 7 1 2 30 TransferFlagPending\<lparr>Timestamp := 5, Timeout := 9223372036854775808\<rparr>;
       post = sample_transfer 7 1 2 30 TransferFlagPostPending\<lparr>Timestamp := 5\<rparr>;
       live = CloseExpired (SetClock sample_manager 5)
   in ValidateBatch [hold, post] live = [None, None] \<and>
      snd (ApplyBatch [hold, post] [None, None] live) = [None, None] \<and>
      snd (run_steps replay_transfer sample_manager [hold, post]) = Some (ErrPendingNotFound (ident_of 7))"
  by code_simp

end
