(* ===== verification/Snapshot_File.thy ===== *)
theory Snapshot_File
  imports Wal_Record Payload_Codec "HOL-Library.Sublist"
begin

text \<open>
  Snapshot files (\<^verbatim>\<open>internal/snapshot/snapshot.go\<close>): the file format with its checksum, writing
  through a temporary file, finding the latest valid snapshot of a directory and removing old
  ones. A directory is the list of its entries as \<^verbatim>\<open>os.ReadDir\<close> delivers them. The sizes read
  from a file are 64-bit words whose products wrap around as in the code. Errors of the operating
  system are not modelled.

  The theorems show that a snapshot is read back as it was written, that one damaged byte is
  always noticed, and that a freshly written snapshot is the one found afterwards, while a crash
  during writing leaves the earlier ones in place.
\<close>

datatype snapshot_error = ErrInvalidSnapshotMagic | ErrSnapshotCorrupted | ErrInvalidSnapshotSize
  | ErrSnapshotPayload payload_error | MakeSlicePanic

abbreviation AccountSize :: nat where "AccountSize \<equiv> 128"

definition ascii_bytes :: "string \<Rightarrow> bytes" where
  "ascii_bytes s = map of_char s"

definition MagicHeader :: bytes where
  "MagicHeader = ascii_bytes ''LEDGER03''"

subsection \<open>The file format\<close>

definition snapshot_content :: "i64 \<Rightarrow> account list \<Rightarrow> transfer list \<Rightarrow> bytes" where
  "snapshot_content lsn accs pendings =
     MagicHeader @ be_bytes 8 lsn @ be_bytes 8 (of_nat (length accs) :: u64) @
     concat (map EncodeAccountPayload accs) @ be_bytes 8 (of_nat (length pendings) :: u64) @
     concat (map EncodeTransferPayload pendings)"

definition snapshot_bytes :: "i64 \<Rightarrow> account list \<Rightarrow> transfer list \<Rightarrow> bytes" where
  "snapshot_bytes lsn accs pendings =
     (let content = snapshot_content lsn accs pendings in content @ be_bytes 4 (ChecksumIEEE content))"

text \<open>The two decoding loops of \<^verbatim>\<open>Read\<close>.\<close>

fun decode_chunks :: "(bytes \<Rightarrow> payload_error + 'a) \<Rightarrow> nat \<Rightarrow> bytes \<Rightarrow> nat \<Rightarrow> nat \<Rightarrow> snapshot_error + 'a list" where
  "decode_chunks dec width data off 0 = Inr []"
| "decode_chunks dec width data off (Suc n) =
     (case dec (slice off (off + width) data) of
        Inl e \<Rightarrow> Inl (ErrSnapshotPayload e)
      | Inr x \<Rightarrow> (case decode_chunks dec width data (off + width) n of Inl e \<Rightarrow> Inl e | Inr xs \<Rightarrow> Inr (x # xs)))"

text \<open>\<^verbatim>\<open>make\<close> panics for a length beyond the address space. When one of the products wraps around,
  the count is that large.\<close>

abbreviation max_slice :: nat where "max_slice \<equiv> 281474976710656"

definition snapshot_Read :: "bytes \<Rightarrow> snapshot_error + account list \<times> transfer list \<times> i64" where
  "snapshot_Read data =
     (if length data < 8 + 8 + 8 + 8 + 4 then Inl ErrInvalidSnapshotSize
      else
        let content = take (length data - 4) data;
            expectedCRC = (be_word (drop (length data - 4) data) :: u32)
        in if expectedCRC \<noteq> ChecksumIEEE content then Inl ErrSnapshotCorrupted
           else if take 8 data \<noteq> MagicHeader then Inl ErrInvalidSnapshotMagic
           else
             let lsn = (be_word (slice 8 16 data) :: i64);
                 count = (be_word (slice 16 24 data) :: u64);
                 pendCountOff = 24 + count * 128
             in if (of_nat (length content) :: u64) < pendCountOff + 8 then Inl ErrInvalidSnapshotSize
                else
                  let off = unat pendCountOff;
                      pendingCount = (be_word (slice off (off + 8) data) :: u64);
                      expectedPayloadLen = pendCountOff + 8 + pendingCount * 144
                  in if (of_nat (length content) :: u64) \<noteq> expectedPayloadLen then Inl ErrInvalidSnapshotSize
                     else if unat count \<ge> max_slice then Inl MakeSlicePanic
                     else
                       (case decode_chunks DecodeAccountPayload AccountSize data 24 (unat count) of
                          Inl e \<Rightarrow> Inl e
                        | Inr accs \<Rightarrow>
                            if unat pendingCount \<ge> max_slice then Inl MakeSlicePanic
                            else
                              (case decode_chunks DecodeTransferPayload TransferPayloadSize data (off + 8) (unat pendingCount) of
                                 Inl e \<Rightarrow> Inl e
                               | Inr pendings \<Rightarrow> Inr (accs, pendings, lsn))))"

subsection \<open>The snapshot directory\<close>

datatype dir_entry = Subdirectory | File bytes

type_synonym directory = "(string \<times> dir_entry) list"

text \<open>\<^verbatim>\<open>strconv.ParseInt(s, 10, 64)\<close>: an optional sign, decimal digits, the range of 64 bits.\<close>

definition ParseInt :: "string \<Rightarrow> int option" where
  "ParseInt s =
     (let neg = (s \<noteq> [] \<and> hd s = CHR ''-'');
          digits = (if s \<noteq> [] \<and> hd s \<in> {CHR ''+'', CHR ''-''} then tl s else s);
          n = int (dec_value 0 digits)
      in if digits = [] \<or> \<not> (\<forall>c\<in>set digits. is_digit c) then None
         else if neg then (if n \<le> 9223372036854775808 then Some (- n) else None)
         else (if n < 9223372036854775808 then Some n else None))"

definition snapshot_lsn :: "string \<Rightarrow> int option" where
  "snapshot_lsn entry =
     (if \<not> suffix ''.snap'' entry then None
      else
        let name = take (length entry - 5) entry
        in if CHR ''-'' \<notin> set name then None
           else ParseInt (rev (takeWhile (\<lambda>c. c \<noteq> CHR ''-'') (rev name))))"

fun latest_loop :: "directory \<Rightarrow> string \<times> int \<Rightarrow> string \<times> int" where
  "latest_loop [] best = best"
| "latest_loop ((name, Subdirectory) # es) best = latest_loop es best"
| "latest_loop ((name, File data) # es) best =
     (case snapshot_lsn name of
        None \<Rightarrow> latest_loop es best
      | Some lsn \<Rightarrow>
          if lsn > snd best
          then (case snapshot_Read data of
                  Inr (_, _, lsnRead) \<Rightarrow> latest_loop es (if sint lsnRead = lsn then (name, lsn) else best)
                | Inl _ \<Rightarrow> latest_loop es best)
          else latest_loop es best)"

definition Latest :: "directory \<Rightarrow> string \<times> int" where
  "Latest dir = (let (path, maxLSN) = latest_loop dir ('''', -1) in if maxLSN = -1 then ('''', 0) else (path, maxLSN))"

fun snap_files :: "directory \<Rightarrow> (string \<times> int) list" where
  "snap_files [] = []"
| "snap_files ((name, Subdirectory) # es) = snap_files es"
| "snap_files ((name, File data) # es) =
     (case snapshot_lsn name of None \<Rightarrow> snap_files es | Some lsn \<Rightarrow> (name, lsn) # snap_files es)"

text \<open>Files with the same LSN keep their order here; \<^verbatim>\<open>sort.Slice\<close> may exchange them.\<close>

definition CleanupOldSnapshots :: "directory \<Rightarrow> int \<Rightarrow> directory" where
  "CleanupOldSnapshots dir maxKept =
     (if maxKept \<le> 0 then dir
      else
        let snaps = snap_files dir
        in if int (length snaps) \<le> maxKept then dir
           else
             let old = map fst (drop (nat maxKept) (sort_key (\<lambda>s. - snd s) snaps))
             in filter (\<lambda>(name, e). name \<notin> set old) dir)"

subsection \<open>Writing\<close>

fun put_entry :: "string \<Rightarrow> dir_entry \<Rightarrow> directory \<Rightarrow> directory" where
  "put_entry name e [] = [(name, e)]"
| "put_entry name e ((n, x) # es) = (if n = name then (name, e) # es else (n, x) # put_entry name e es)"

text \<open>\<^verbatim>\<open>Write\<close> fills a temporary file and renames it; \<open>partial_Write\<close> is what a crash before the renaming
  leaves, with \<open>n\<close> bytes of the temporary file on disk.\<close>

definition tmp_name :: "string \<Rightarrow> nat \<Rightarrow> string" where
  "tmp_name path nanos = path @ ''.tmp-'' @ dec_string nanos"

definition partial_Write :: "directory \<Rightarrow> nat \<Rightarrow> string \<Rightarrow> i64 \<Rightarrow> account list \<Rightarrow> transfer list \<Rightarrow> nat \<Rightarrow> directory" where
  "partial_Write dir nanos path lsn accs pendings n =
     put_entry (tmp_name path nanos) (File (take n (snapshot_bytes lsn accs pendings))) dir"

definition snapshot_Write :: "directory \<Rightarrow> nat \<Rightarrow> string \<Rightarrow> i64 \<Rightarrow> account list \<Rightarrow> transfer list \<Rightarrow> directory" where
  "snapshot_Write dir nanos path lsn accs pendings =
     (let data = snapshot_bytes lsn accs pendings;
          dir1 = partial_Write dir nanos path lsn accs pendings (length data)
      in put_entry path (File data) (filter (\<lambda>(name, e). name \<noteq> tmp_name path nanos) dir1))"

definition snapshot_name :: "nat \<Rightarrow> string" where
  "snapshot_name lsn = ''snapshot-'' @ dec_string lsn @ ''.snap''"

subsection \<open>Reading what was written\<close>

lemma decode_chunks_enc:
  "\<lbrakk> \<forall>x\<in>set xs. dec (enc x) = Inr x \<and> length (enc x) = w; data = pre @ concat (map enc xs) @ post \<rbrakk> \<Longrightarrow>
     decode_chunks dec w data (length pre) (length xs) = Inr xs"
proof (induction xs arbitrary: pre)
  case (Cons x xs)
  have "slice (length pre) (length pre + w) data = enc x" using Cons.prems by (simp add: slice_def)
  moreover have "decode_chunks dec w data (length (pre @ enc x)) (length xs) = Inr xs"
    by (rule Cons.IH) (use Cons.prems in simp_all)
  ultimately show ?case using Cons.prems(1) by simp
qed simp

lemma length_MagicHeader [simp]: "length MagicHeader = 8"
  by (simp add: MagicHeader_def ascii_bytes_def)

definition snapshot_wf :: "account list \<Rightarrow> transfer list \<Rightarrow> bool" where
  "snapshot_wf accs pendings \<longleftrightarrow> (\<forall>a\<in>set accs. wf_account a) \<and> (\<forall>t\<in>set pendings. wf_transfer t) \<and>
     length accs < max_slice \<and> length pendings < max_slice"

lemma length_snapshot_content:
  "snapshot_wf accs pendings \<Longrightarrow> length (snapshot_content lsn accs pendings) = 32 + length accs * 128 + length pendings * 144"
  using account_codec.concat_width [of accs] transfer_codec.concat_width [of pendings]
  by (simp add: snapshot_content_def snapshot_wf_def)

lemma unat_of_nat_64: "n < 18446744073709551616 \<Longrightarrow> unat (of_nat n :: u64) = n"
  by (simp add: unat_of_nat take_bit_nat_eq_self)

lemma snapshot_Read_bytes:
  assumes wf: "snapshot_wf accs pendings"
  shows "snapshot_Read (snapshot_bytes lsn accs pendings) = Inr (accs, pendings, lsn)"
proof -
  let ?A = "concat (map EncodeAccountPayload accs)" and ?P = "concat (map EncodeTransferPayload pendings)"
  let ?na = "length accs" and ?np = "length pendings"
  define content where "content = snapshot_content lsn accs pendings"
  define data where "data = content @ be_bytes 4 (ChecksumIEEE content)"
  have na: "?na < max_slice" and np: "?np < max_slice" using wf by (simp_all add: snapshot_wf_def)
  have A: "length ?A = ?na * 128" using wf account_codec.concat_width [of accs] by (simp add: snapshot_wf_def)
  have len: "length content = 32 + ?na * 128 + ?np * 144" using length_snapshot_content [OF wf] by (simp add: content_def)
  have dl: "length data = length content + 4" by (simp add: data_def)
  have parts: "data = MagicHeader @ be_bytes 8 lsn @ be_bytes 8 (of_nat ?na :: u64) @ ?A @ be_bytes 8 (of_nat ?np :: u64) @ ?P @ be_bytes 4 (ChecksumIEEE content)"
    by (simp add: data_def content_def snapshot_content_def)
  have content': "take (length content) data = content" "(be_word (drop (length content) data) :: u32) = ChecksumIEEE content" by (simp_all add: data_def)
  have magic: "take 8 data = MagicHeader" by (simp add: parts)
  have s1: "(be_word (slice 8 16 data) :: i64) = lsn" "(be_word (slice 16 24 data) :: u64) = of_nat ?na"
    by (simp_all add: parts slice_def)
  have off: "24 + of_nat ?na * 128 = (of_nat (24 + ?na * 128) :: u64)" by simp
  have uoff: "unat (24 + of_nat ?na * 128 :: u64) = 24 + ?na * 128" unfolding off by (rule unat_of_nat_64) (use na in simp)
  have s2: "(be_word (slice (24 + ?na * 128) (24 + ?na * 128 + 8) data) :: u64) = of_nat ?np"
    by (simp add: parts slice_def A)
  have una: "unat (of_nat ?na :: u64) = ?na" "unat (of_nat ?np :: u64) = ?np" using na np by (simp_all add: unat_of_nat_64)
  have le: "\<not> (of_nat (length content) :: u64) < 24 + of_nat ?na * 128 + 8"
  proof -
    have "24 + of_nat ?na * 128 + 8 = (of_nat (32 + ?na * 128) :: u64)" by simp
    moreover have "unat (of_nat (32 + ?na * 128) :: u64) = 32 + ?na * 128" by (rule unat_of_nat_64) (use na in simp)
    moreover have "unat (of_nat (length content) :: u64) = length content" by (rule unat_of_nat_64) (use na np len in simp)
    ultimately show ?thesis using len by (simp add: word_less_nat_alt)
  qed
  have eq: "(of_nat (length content) :: u64) = 24 + of_nat ?na * 128 + 8 + of_nat ?np * 144" by (simp add: len)
  have dA: "decode_chunks DecodeAccountPayload AccountSize data 24 ?na = Inr accs"
    using decode_chunks_enc [of accs DecodeAccountPayload EncodeAccountPayload AccountSize data
        "MagicHeader @ be_bytes 8 lsn @ be_bytes 8 (of_nat ?na :: u64)" "be_bytes 8 (of_nat ?np :: u64) @ ?P @ be_bytes 4 (ChecksumIEEE content)"]
      wf account_codec.dec_enc account_codec.enc_width by (simp add: parts snapshot_wf_def)
  have dP: "decode_chunks DecodeTransferPayload TransferPayloadSize data (24 + ?na * 128 + 8) ?np = Inr pendings"
    using decode_chunks_enc [of pendings DecodeTransferPayload EncodeTransferPayload TransferPayloadSize data
        "MagicHeader @ be_bytes 8 lsn @ be_bytes 8 (of_nat ?na :: u64) @ ?A @ be_bytes 8 (of_nat ?np :: u64)" "be_bytes 4 (ChecksumIEEE content)"]
      wf transfer_codec.dec_enc transfer_codec.enc_width A by (simp add: parts snapshot_wf_def)
  have "snapshot_Read data = Inr (accs, pendings, lsn)"
    unfolding snapshot_Read_def Let_def
    by (simp only: dl diff_add_inverse2 content' magic s1 uoff s2 una le eq [symmetric] dA dP sum.case if_False) (use na np len in simp)
  then show ?thesis by (simp add: snapshot_bytes_def content_def data_def Let_def)
qed

lemma be_word_4_inject: "\<lbrakk> length xs = 4; (be_word xs :: u32) = c \<rbrakk> \<Longrightarrow> xs = be_bytes 4 c"
  using be_bytes_be_word [of xs 4, where 'a = 32] by simp

lemma damaged_checksum:
  assumes i: "i < length (c @ be_bytes 4 (ChecksumIEEE c))" and b: "b \<noteq> (c @ be_bytes 4 (ChecksumIEEE c)) ! i"
  defines "d \<equiv> (c @ be_bytes 4 (ChecksumIEEE c))[i := b]"
  shows "(be_word (drop (length d - 4) d) :: u32) \<noteq> ChecksumIEEE (take (length d - 4) d)"
proof (cases "i < length c")
  case True
  then have "d = c[i := b] @ be_bytes 4 (ChecksumIEEE c)" by (simp add: d_def list_update_append1)
  moreover have "ChecksumIEEE (c[i := b]) \<noteq> ChecksumIEEE c"
    by (rule Checksum_one_byte [OF True]) (use b True in \<open>simp add: nth_append\<close>)
  ultimately show ?thesis by simp
next
  case False
  let ?k = "be_bytes 4 (ChecksumIEEE c)" and ?j = "i - length c"
  have d: "d = c @ ?k[?j := b]" using False by (simp add: d_def list_update_append)
  show ?thesis
  proof
    assume "(be_word (drop (length d - 4) d) :: u32) = ChecksumIEEE (take (length d - 4) d)"
    then have "?k[?j := b] = ?k" by (intro be_word_4_inject) (simp_all add: d)
    moreover have "?j < length ?k" using i False by simp
    ultimately have "b = ?k ! ?j" by (metis nth_list_update_eq)
    with b False show False by (simp add: nth_append)
  qed
qed

subsection \<open>Finding the latest snapshot\<close>

lemma is_digit_chars: "\<not> is_digit CHR ''-''" "\<not> is_digit CHR ''+''" "\<not> is_digit CHR ''p''"
  by (simp_all add: is_digit_def)

lemma ParseInt_dec_string: "n < 9223372036854775808 \<Longrightarrow> ParseInt (dec_string n) = Some (int n)"
proof -
  assume n: "n < 9223372036854775808"
  have "hd (dec_string n) \<in> set (dec_string n)" using dec_string_nonempty by simp
  then have "is_digit (hd (dec_string n))" using dec_string_digits by blast
  then have "hd (dec_string n) \<notin> {CHR ''+'', CHR ''-''}" using is_digit_chars by auto
  then show ?thesis using n dec_string_digits [of n] dec_string_nonempty [of n] by (auto simp: ParseInt_def dec_value_dec_string Let_def)
qed

lemma snapshot_lsn_name: "n < 9223372036854775808 \<Longrightarrow> snapshot_lsn (snapshot_name n) = Some (int n)"
proof -
  assume n: "n < 9223372036854775808"
  have "\<forall>c\<in>set (rev (dec_string n)). c \<noteq> CHR ''-''" using dec_string_digits [of n] is_digit_chars(1) by auto
  then have "takeWhile (\<lambda>c. c \<noteq> CHR ''-'') (rev (''snapshot-'' @ dec_string n)) = rev (dec_string n)"
    by (simp add: takeWhile_append)
  moreover have "take (length (snapshot_name n) - 5) (snapshot_name n) = ''snapshot-'' @ dec_string n" by (simp add: snapshot_name_def)
  moreover have "suffix ''.snap'' (snapshot_name n)" by (simp add: snapshot_name_def suffix_def)
  ultimately show ?thesis using ParseInt_dec_string [OF n] by (simp add: snapshot_lsn_def)
qed

lemma snapshot_lsn_tmp: "snapshot_lsn (tmp_name path k) = None"
proof -
  have "is_digit (last (dec_string k))" using dec_string_digits [of k] dec_string_nonempty [of k] by simp
  then have "last (tmp_name path k) \<noteq> CHR ''p''" using is_digit_chars(3) dec_string_nonempty [of k] by (auto simp: tmp_name_def)
  then have "\<not> suffix ''.snap'' (tmp_name path k)" by (auto simp: suffix_def)
  then show ?thesis by (simp add: snapshot_lsn_def)
qed

lemma put_entry_set:
  "distinct (map fst dir) \<Longrightarrow> set (put_entry n e dir) = insert (n, e) {x \<in> set dir. fst x \<noteq> n} \<and> distinct (map fst (put_entry n e dir))"
  by (induction n e dir rule: put_entry.induct) (auto simp: image_iff)

lemma latest_loop_ignored: "snapshot_lsn n = None \<Longrightarrow> latest_loop (put_entry n e dir) best = latest_loop dir best"
proof (induction dir arbitrary: best)
  case (Cons x dir)
  obtain m y where "x = (m, y)" by fastforce
  with Cons show ?case by (cases y; cases e) (auto split: option.splits sum.splits)
next
  case Nil
  then show ?case by (cases e) simp_all
qed

lemma latest_loop_max:
  "\<lbrakk> (n, File d) \<in> set dir \<and> snd best < L \<or> best = (n, L); snapshot_lsn n = Some L; snapshot_Read d = Inr (as, ps, l); sint l = L;
     \<forall>(m, e)\<in>set dir. if m = n then e = File d else (\<forall>k. snapshot_lsn m = Some k \<longrightarrow> k < L) \<rbrakk> \<Longrightarrow>
     latest_loop dir best = (n, L)"
proof (induction dir arbitrary: best)
  case (Cons x dir)
  obtain m e where x: "x = (m, e)" by fastforce
  show ?case
  proof (cases "m = n")
    case True
    then have "e = File d" using Cons.prems(5) x by auto
    then show ?thesis using Cons.IH [of "(n, L)"] Cons.prems True x by auto
  next
    case False
    then have "(n, File d) \<in> set dir \<and> snd best < L \<or> best = (n, L)" using Cons.prems(1) x by auto
    moreover have "\<forall>k. snapshot_lsn m = Some k \<longrightarrow> k < L" using Cons.prems(5) x False by auto
    ultimately show ?thesis
      using Cons.IH [OF _ Cons.prems(2-4)] Cons.prems(5) x
      by (cases e) (auto split: option.splits sum.splits)
  qed
qed auto

lemma snap_files_set: "(m, k) \<in> set (snap_files dir) \<longleftrightarrow> (\<exists>d. (m, File d) \<in> set dir) \<and> snapshot_lsn m = Some k"
  by (induction dir rule: snap_files.induct) (auto split: option.splits)

lemma snap_files_distinct: "distinct (map fst dir) \<Longrightarrow> distinct (map fst (snap_files dir))"
proof (induction dir rule: snap_files.induct)
  case (3 name data es)
  have "fst ` set (snap_files es) \<subseteq> fst ` set es" using snap_files_set [of _ _ es] by force
  with 3 show ?case by (auto split: option.splits)
qed auto

text \<open>Sorting by descending LSN puts the largest one first, so cleaning up keeps it.\<close>

lemma sorted_max_first:
  assumes "(n, L) \<in> set snaps" and "distinct (map fst snaps)" and "\<forall>(m, k)\<in>set snaps. m \<noteq> n \<longrightarrow> k < (L :: int)" and "0 < c"
  shows "n \<notin> set (map fst (drop c (sort_key (\<lambda>s. - snd s) snaps)))"
proof -
  define xs where "xs = sort_key (\<lambda>s. - snd s) snaps"
  have xs: "set xs = set snaps" "distinct (map fst xs)" "sorted (map (\<lambda>s. - snd s) xs)"
    using assms(2) by (simp_all add: xs_def distinct_map)
  then obtain y ys where ys: "xs = y # ys" using assms(1) by (cases xs) auto
  have "fst y = n"
  proof (rule ccontr)
    assume "fst y \<noteq> n"
    have "(n, L) \<in> set xs" using assms(1) xs(1) by simp
    moreover have "y \<in> set xs" by (simp add: ys)
    ultimately have "(n, L) \<in> set ys" using \<open>fst y \<noteq> n\<close> by (auto simp: ys)
    then have "L \<le> snd y" using xs(3) by (force simp: ys)
    moreover have "snd y < L" using \<open>y \<in> set xs\<close> \<open>fst y \<noteq> n\<close> assms(3) by (simp add: xs(1) split_beta)
    ultimately show False by simp
  qed
  with xs(2) ys have "n \<notin> set (map fst ys)" by auto
  moreover have "set (map fst (drop c xs)) \<subseteq> set (map fst ys)" using assms(4) ys by (cases c) (auto dest: in_set_dropD)
  ultimately show ?thesis unfolding xs_def [symmetric] by blast
qed

lemma cleanup_keeps:
  assumes "(n, File d) \<in> set dir" and "snapshot_lsn n = Some L" and "distinct (map fst dir)"
    and "\<forall>(m, e)\<in>set dir. m \<noteq> n \<longrightarrow> (\<forall>k. snapshot_lsn m = Some k \<longrightarrow> k < L)"
  shows "(n, File d) \<in> set (CleanupOldSnapshots dir c)" "set (CleanupOldSnapshots dir c) \<subseteq> set dir"
proof -
  have "n \<notin> set (map fst (drop (nat c) (sort_key (\<lambda>s. - snd s) (snap_files dir))))" if "0 < c"
  proof (rule sorted_max_first)
    show "(n, L) \<in> set (snap_files dir)" "distinct (map fst (snap_files dir))" "0 < nat c"
      using assms that by (auto simp: snap_files_set snap_files_distinct)
    show "\<forall>(m, k)\<in>set (snap_files dir). m \<noteq> n \<longrightarrow> k < L" using assms(4) by (fastforce simp: snap_files_set)
  qed
  with assms(1) show "(n, File d) \<in> set (CleanupOldSnapshots dir c)" by (auto simp: CleanupOldSnapshots_def Let_def)
  show "set (CleanupOldSnapshots dir c) \<subseteq> set dir" by (auto simp: CleanupOldSnapshots_def Let_def)
qed

lemma written_entries:
  fixes nanos :: nat and path :: string and lsn :: i64 and accs :: "account list" and pendings :: "transfer list"
  assumes "distinct (map fst dir)" and "\<forall>(m, e)\<in>set dir. \<forall>k. snapshot_lsn m = Some k \<longrightarrow> k < L"
  defines "dir' \<equiv> snapshot_Write dir nanos path lsn accs pendings"
  shows "(path, File (snapshot_bytes lsn accs pendings)) \<in> set dir'" "distinct (map fst dir')"
    "\<forall>(m, e)\<in>set dir'. if m = path then e = File (snapshot_bytes lsn accs pendings) else (\<forall>k. snapshot_lsn m = Some k \<longrightarrow> k < L)"
proof -
  let ?dir1 = "filter (\<lambda>(name, e). name \<noteq> tmp_name path nanos) (partial_Write dir nanos path lsn accs pendings (length (snapshot_bytes lsn accs pendings)))"
  note tmp = put_entry_set [OF assms(1), of "tmp_name path nanos" "File (snapshot_bytes lsn accs pendings)"]
  have d1: "distinct (map fst ?dir1)" "set ?dir1 \<subseteq> set dir" using tmp by (auto simp: partial_Write_def distinct_map_filter)
  have "dir' = put_entry path (File (snapshot_bytes lsn accs pendings)) ?dir1" by (simp add: dir'_def snapshot_Write_def Let_def)
  with put_entry_set [OF d1(1), of path "File (snapshot_bytes lsn accs pendings)"] d1(2) assms(2)
  show "(path, File (snapshot_bytes lsn accs pendings)) \<in> set dir'" "distinct (map fst dir')"
    "\<forall>(m, e)\<in>set dir'. if m = path then e = File (snapshot_bytes lsn accs pendings) else (\<forall>k. snapshot_lsn m = Some k \<longrightarrow> k < L)"
    by (auto simp: split_beta)
qed

lemma latest_written:
  fixes nanos :: nat and c :: int
  assumes "snapshot_wf accs pendings" and "n < 9223372036854775808" and "distinct (map fst dir)"
    and "\<forall>(m, e)\<in>set dir. \<forall>k. snapshot_lsn m = Some k \<longrightarrow> k < int n"
  defines "dir' \<equiv> CleanupOldSnapshots (snapshot_Write dir nanos (snapshot_name n) (of_nat n) accs pendings) c"
  shows "Latest dir' = (snapshot_name n, int n)" "map_of dir' (snapshot_name n) = Some (File (snapshot_bytes (of_nat n) accs pendings))"
proof -
  let ?dir = "snapshot_Write dir nanos (snapshot_name n) (of_nat n) accs pendings"
  note w = written_entries [OF assms(3,4), where nanos = nanos and path = "snapshot_name n" and lsn = "of_nat n" and accs = accs and pendings = pendings]
  have lsn: "snapshot_lsn (snapshot_name n) = Some (int n)" by (rule snapshot_lsn_name [OF assms(2)])
  have sint: "sint (of_nat n :: i64) = int n" using assms(2) by (simp add: signed_of_nat signed_take_bit_int_eq_self)
  have keep: "(snapshot_name n, File (snapshot_bytes (of_nat n) accs pendings)) \<in> set (dir')"
    "set (dir') \<subseteq> set ?dir"
    unfolding dir'_def using cleanup_keeps [OF w(1) lsn w(2)] w(3) by (auto simp: split_beta)
  have "latest_loop (dir') ('''', - 1) = (snapshot_name n, int n)"
    using latest_loop_max [OF _ lsn snapshot_Read_bytes [OF assms(1)] sint, of "dir'" "('''', - 1)"] keep(1) subsetD [OF keep(2)] w(3)
    by auto
  then show "Latest dir' = (snapshot_name n, int n)" by (simp add: Latest_def)
  have "distinct (map fst dir')" using w(2) by (simp add: dir'_def CleanupOldSnapshots_def Let_def distinct_map_filter)
  with keep(1) show "map_of dir' (snapshot_name n) = Some (File (snapshot_bytes (of_nat n) accs pendings))" by simp
qed

subsection \<open>Properties\<close>

text \<open>A snapshot is read back as it was written: the accounts, the open holds and the LSN.\<close>

theorem snapshot_roundtrip:
  assumes "snapshot_wf accs pendings"
  shows "snapshot_Read (snapshot_bytes lsn accs pendings) = Inr (accs, pendings, lsn)"
  by (rule snapshot_Read_bytes [OF assms])

theorem snapshot_roundtrip_witness: "snapshot_Read (snapshot_bytes 7 [account0] [transfer0]) = Inr ([account0], [transfer0], 7)"
proof -
  have "snapshot_wf [account0] [transfer0]" by (simp add: snapshot_wf_def wf_account_def wf_transfer_def account0_def transfer0_def)
  then show ?thesis by (rule snapshot_roundtrip)
qed

text \<open>A snapshot in which one byte was changed, wherever it is, is refused as corrupted.\<close>

theorem damaged_snapshot_is_refused:
  assumes "i < length (snapshot_bytes lsn accs pendings)" and "b \<noteq> snapshot_bytes lsn accs pendings ! i"
  shows "snapshot_Read ((snapshot_bytes lsn accs pendings)[i := b]) = Inl ErrSnapshotCorrupted"
proof -
  have "36 \<le> length (snapshot_bytes lsn accs pendings)" by (simp add: snapshot_bytes_def snapshot_content_def Let_def)
  with damaged_checksum [of i "snapshot_content lsn accs pendings" b] assms show ?thesis
    by (simp add: snapshot_Read_def snapshot_bytes_def Let_def)
qed

theorem damaged_snapshot_is_refused_witness: "snapshot_Read ((snapshot_bytes 7 [] [])[15 := 9]) = Inl ErrSnapshotCorrupted"
proof -
  have "snapshot_bytes 7 [] [] ! 15 = 7" "15 < length (snapshot_bytes 7 [] [])"
    by (simp_all add: snapshot_bytes_def snapshot_content_def nth_append be_bytes_numeral Let_def)
  then show ?thesis using damaged_snapshot_is_refused [of 15 7 "[]" "[]" 9] by simp
qed

text \<open>Writing a snapshot is atomic and takes effect. A crash at any point before the final renaming
  leaves the latest snapshot what it was; afterwards, also after the clean-up of old snapshots,
  the new one is the latest, if it has the largest LSN in the directory.\<close>

theorem written_snapshot_is_latest:
  assumes "snapshot_wf accs pendings" and "n < 9223372036854775808" and "distinct (map fst dir)"
    and "\<forall>(m, e)\<in>set dir. \<forall>k. snapshot_lsn m = Some k \<longrightarrow> k < int n"
  shows "Latest (partial_Write dir nanos (snapshot_name n) (of_nat n) accs pendings p) = Latest dir \<and>
    Latest (CleanupOldSnapshots (snapshot_Write dir nanos (snapshot_name n) (of_nat n) accs pendings) c) = (snapshot_name n, int n)"
proof
  show "Latest (partial_Write dir nanos (snapshot_name n) (of_nat n) accs pendings p) = Latest dir"
    by (simp add: Latest_def partial_Write_def latest_loop_ignored [OF snapshot_lsn_tmp])
  show "Latest (CleanupOldSnapshots (snapshot_Write dir nanos (snapshot_name n) (of_nat n) accs pendings) c) = (snapshot_name n, int n)"
    by (rule latest_written(1) [OF assms])
qed

theorem written_snapshot_is_latest_witness:
  "Latest (CleanupOldSnapshots (snapshot_Write [(''snapshot-5.snap'', File [])] 0 (snapshot_name 8) (of_nat 8) [] []) 3) = (snapshot_name 8, 8)"
proof -
  have "snapshot_lsn ''snapshot-5.snap'' = Some 5" by code_simp
  then show ?thesis
    using written_snapshot_is_latest [of "[]" "[]" 8 "[(''snapshot-5.snap'', File [])]" 0 0 3] by (simp add: snapshot_wf_def)
qed

end
