(* ===== verification/Ring_Buffer.thy ===== *)
theory Ring_Buffer
  imports Core_Model
begin

text \<open>
  The ring buffer between submitters and the event loop (\<^verbatim>\<open>internal/engine/ring_buffer.go\<close>).
  Sequence numbers are 64-bit words, slots are addressed with the mask. Many producers share
  the buffer: a submission first claims a sequence number by a compare-and-swap and later
  publishes its slot, and other producers and the consumer may act in between. The step relation
  has these two actions apart. Channels of the arrival signal are numbers; the closed ones are
  remembered.

  A claim, that is the loads of head and tail and the successful compare-and-swap, is one step. This leaves out
  one behaviour of the code: a producer that loaded an old head and then a newer tail computes a
  difference that wraps around and reports a full buffer that is not full; such a call
  changes nothing. Draining is one step as well: a publication that overlaps it counts as before or
  after it.

  In every interleaving the consumer receives the events in the order of the claimed numbers,
  each once; a slot is never overwritten before it was read. A consumer that waits on the
  arrival channel is woken by the next submission.
\<close>

record 'e ring =
  rb_buf :: "'e list"
  rb_ready :: "u64 list"
  rb_mask :: u64
  rb_cap :: u64
  rb_head :: u64
  rb_tail :: u64
  rb_tailShared :: u64
  rb_arrive :: "nat option"
  rb_waiting :: bool
  rb_closed :: "nat set"
  rb_nextChan :: nat

definition NewRingBuffer :: "'e \<Rightarrow> int \<Rightarrow> ledger_error + 'e ring" where
  "NewRingBuffer ev0 size' =
     (if size' \<le> 0 \<or> size' AND (size' - 1) \<noteq> 0 then Inl (ErrInvalidRingBufferSize size')
      else Inr \<lparr>rb_buf = replicate (nat size') ev0, rb_ready = replicate (nat size') 0, rb_mask = of_int (size' - 1), rb_cap = of_int size',
                rb_head = 0, rb_tail = 0, rb_tailShared = 0, rb_arrive = None, rb_waiting = False, rb_closed = {}, rb_nextChan = 0\<rparr>)"

definition slot_of :: "'e ring \<Rightarrow> u64 \<Rightarrow> nat" where
  "slot_of rb h = unat (h AND rb_mask rb)"

definition signalArrived :: "'e ring \<Rightarrow> 'e ring" where
  "signalArrived rb =
     (let rb1 = (case rb_arrive rb of Some c \<Rightarrow> rb\<lparr>rb_closed := insert c (rb_closed rb), rb_arrive := None\<rparr> | None \<Rightarrow> rb)
      in rb1\<lparr>rb_waiting := False\<rparr>)"

definition arriveChan :: "'e ring \<Rightarrow> 'e ring \<times> nat" where
  "arriveChan rb =
     (if rb_head rb > rb_tailShared rb
      then
        let rb1 = (case rb_arrive rb of Some c \<Rightarrow> rb\<lparr>rb_closed := insert c (rb_closed rb), rb_arrive := None\<rparr> | None \<Rightarrow> rb);
            c = rb_nextChan rb1
        in (rb1\<lparr>rb_waiting := False, rb_nextChan := Suc c, rb_closed := insert c (rb_closed rb1)\<rparr>, c)
      else
        (case rb_arrive rb of
           Some c \<Rightarrow> (rb\<lparr>rb_waiting := True\<rparr>, c)
         | None \<Rightarrow> (rb\<lparr>rb_arrive := Some (rb_nextChan rb), rb_nextChan := Suc (rb_nextChan rb), rb_waiting := True\<rparr>, rb_nextChan rb)))"

text \<open>The two halves of \<^verbatim>\<open>Submit\<close>: the claim, with the check for a full buffer, and the
  publication.\<close>

definition claim :: "'e ring \<Rightarrow> ledger_error + 'e ring \<times> u64" where
  "claim rb =
     (if rb_head rb - rb_tailShared rb \<ge> rb_cap rb then Inl ErrBufferFull
      else Inr (rb\<lparr>rb_head := rb_head rb + 1\<rparr>, rb_head rb))"

definition publish :: "'e ring \<Rightarrow> u64 \<Rightarrow> 'e \<Rightarrow> 'e ring" where
  "publish rb h ev =
     (let idx = slot_of rb h;
          rb1 = rb\<lparr>rb_buf := (rb_buf rb)[idx := ev]\<rparr>;
          rb2 = rb1\<lparr>rb_ready := (rb_ready rb1)[idx := h + 1]\<rparr>
      in signalArrived rb2)"

definition Submit :: "'e ring \<Rightarrow> 'e \<Rightarrow> ledger_error + 'e ring" where
  "Submit rb ev = (case claim rb of Inl e \<Rightarrow> Inl e | Inr (rb', h) \<Rightarrow> Inr (publish rb' h ev))"

fun drain_loop :: "nat \<Rightarrow> u64 \<Rightarrow> 'e ring \<Rightarrow> 'e ring \<times> 'e list" where
  "drain_loop 0 head rb = (rb, [])"
| "drain_loop (Suc n) head rb =
     (if \<not> rb_tail rb < head then (rb, [])
      else
        let idx = slot_of rb (rb_tail rb); wantReady = rb_tail rb + 1
        in if rb_ready rb ! idx \<noteq> wantReady then (rb, [])
           else
             let (rb', out) = drain_loop n head (rb\<lparr>rb_tail := rb_tail rb + 1\<rparr>)
             in (rb', (rb_buf rb ! idx) # out))"

definition DrainBatch :: "'e ring \<Rightarrow> int \<Rightarrow> 'e ring \<times> 'e list" where
  "DrainBatch rb max' =
     (if max' \<le> 0 then (rb, [])
      else
        let head = rb_head rb
        in if head = rb_tail rb then (rb, [])
           else
             let pending = head - rb_tail rb;
                 n = (if of_int max' > pending then unat pending else nat max');
                 (rb1, out) = drain_loop n head rb
             in (rb1\<lparr>rb_tailShared := rb_tail rb1\<rparr>, out))"

definition ring_Len :: "'e ring \<Rightarrow> int" where
  "ring_Len rb =
     (if rb_head rb < rb_tailShared rb then 0 else sint (rb_head rb - rb_tailShared rb))"

subsection \<open>Sizes\<close>

lemma and_pred_zero_iff: "0 < n \<Longrightarrow> n AND (n - 1) = 0 \<longleftrightarrow> (\<exists>k. n = 2 ^ k)" for n :: nat
proof (induction n rule: less_induct)
  case (less n)
  show ?case
  proof (cases "even n")
    case True
    then obtain m where m: "n = 2 * m" by blast
    with less.prems have pos: "0 < m" by simp
    have "n - 1 = 1 + 2 * (m - 1)" using pos m by simp
    then have "n AND (n - 1) = 2 * (m AND (m - 1))" unfolding m by (simp add: and_rec [of "2 * m"])
    then have "n AND (n - 1) = 0 \<longleftrightarrow> (\<exists>k. m = 2 ^ k)" using less.IH [of m] pos m by simp
    also have "\<dots> \<longleftrightarrow> (\<exists>k. n = 2 ^ k)"
    proof
      assume "\<exists>k. m = 2 ^ k"
      then obtain k where "m = 2 ^ k" ..
      then have "n = 2 ^ Suc k" using m by simp
      then show "\<exists>k. n = 2 ^ k" ..
    next
      assume "\<exists>k. n = 2 ^ k"
      then obtain k where k: "n = 2 ^ k" ..
      with True obtain j where "k = Suc j" by (cases k) auto
      with k m have "m = 2 ^ j" by simp
      then show "\<exists>k. m = 2 ^ k" ..
    qed
    finally show ?thesis .
  next
    case False
    then obtain m where m: "n = 2 * m + 1" using oddE by blast
    then have "n AND (n - 1) = 2 * m" by (simp add: and_rec [of "Suc (2 * m)"])
    moreover have "m = 0 \<longleftrightarrow> (\<exists>k. n = 2 ^ k)"
    proof
      assume "m = 0" then have "n = 2 ^ 0" using m by simp
      then show "\<exists>k. n = 2 ^ k" ..
    next
      assume "\<exists>k. n = 2 ^ k"
      then obtain k where "n = 2 ^ k" ..
      with m have "2 ^ k = Suc (2 * m)" by simp
      then show "m = 0" by (cases k) (simp_all, presburger)
    qed
    ultimately show ?thesis by simp
  qed
qed

lemma ring_size_iff: "size' > 0 \<Longrightarrow> size' AND (size' - 1) = 0 \<longleftrightarrow> (\<exists>k. size' = 2 ^ k)" for size' :: int
proof -
  assume pos: "size' > 0"
  define n where "n = nat size'"
  have s: "size' = int n" and n: "0 < n" using pos by (simp_all add: n_def)
  have "size' - 1 = int (n - 1)" using n s by simp
  then have "size' AND (size' - 1) = int (n AND (n - 1))" by (simp only: s of_nat_and_eq)
  then have "size' AND (size' - 1) = 0 \<longleftrightarrow> (\<exists>k. n = 2 ^ k)" using and_pred_zero_iff [OF n] by simp
  also have "\<dots> \<longleftrightarrow> (\<exists>k. size' = 2 ^ k)" unfolding s by (metis of_nat_eq_iff of_nat_numeral of_nat_power)
  finally show ?thesis .
qed

lemma and_mask_mod: "unat (h AND (2 ^ k - 1 :: u64)) = unat h mod 2 ^ k" if "k < 64"
proof -
  have "h AND (2 ^ k - 1) = take_bit k h" by (simp add: take_bit_eq_mask mask_eq_exp_minus_1)
  then have "unat (h AND (2 ^ k - 1)) = take_bit k (unat h)" by (simp only: unsigned_take_bit_eq)
  then show ?thesis by (simp only: take_bit_eq_mod)
qed

subsection \<open>Interleaved producers and the consumer\<close>

text \<open>The system: the buffer, the numbers claimed by producers that have not published yet, and two
  history variables, the event published under each number and the events handed to the
  consumer. A producer that loaded an older tail sees the buffer fuller than it is, so its claim
  is one of those below.\<close>

record 'e rb_sys =
  sys_ring :: "'e ring"
  claims :: "nat \<rightharpoonup> u64"
  sent :: "nat \<rightharpoonup> 'e"
  got :: "'e list"

inductive rb_step :: "'e rb_sys \<Rightarrow> 'e rb_sys \<Rightarrow> bool" where
  claims_slot: "\<lbrakk> claims s p = None; claim (sys_ring s) = Inr (rb', h); unat (rb_head (sys_ring s)) + 1 < 18446744073709551616 \<rbrakk> \<Longrightarrow>
     rb_step s (s\<lparr>sys_ring := rb', claims := (claims s)(p \<mapsto> h)\<rparr>)"
| publishes: "claims s p = Some h \<Longrightarrow>
     rb_step s (s\<lparr>sys_ring := publish (sys_ring s) h ev, claims := (claims s)(p := None), sent := (sent s)(unat h \<mapsto> ev)\<rparr>)"
| drains: "DrainBatch (sys_ring s) n = (rb', out) \<Longrightarrow> rb_step s (s\<lparr>sys_ring := rb', got := got s @ out\<rparr>)"
| waits: "rb_step s (s\<lparr>sys_ring := fst (arriveChan (sys_ring s))\<rparr>)"

definition ring_shape :: "nat \<Rightarrow> 'e ring \<Rightarrow> bool" where
  "ring_shape k rb \<longleftrightarrow> k < 64 \<and> rb_cap rb = 2 ^ k \<and> rb_mask rb = 2 ^ k - 1 \<and> length (rb_buf rb) = 2 ^ k \<and> length (rb_ready rb) = 2 ^ k \<and>
     rb_tailShared rb = rb_tail rb \<and> unat (rb_tail rb) \<le> unat (rb_head rb) \<and> unat (rb_head rb) \<le> unat (rb_tail rb) + 2 ^ k"

definition slots_ok :: "nat \<Rightarrow> 'e ring \<Rightarrow> (nat \<rightharpoonup> 'e) \<Rightarrow> bool" where
  "slots_ok k rb sn \<longleftrightarrow>
     (\<forall>i e. unat (rb_tail rb) \<le> i \<and> i < unat (rb_head rb) \<and> sn i = Some e \<longrightarrow>
        rb_buf rb ! (i mod 2 ^ k) = e \<and> unat (rb_ready rb ! (i mod 2 ^ k)) = i + 1) \<and>
     (\<forall>j<2 ^ k. rb_ready rb ! j = 0 \<or> (\<exists>i. sn i \<noteq> None \<and> i mod 2 ^ k = j \<and> unat (rb_ready rb ! j) = i + 1)) \<and>
     (\<forall>i. sn i \<noteq> None \<longrightarrow> i < unat (rb_head rb))"

definition rb_inv :: "nat \<Rightarrow> 'e rb_sys \<Rightarrow> bool" where
  "rb_inv k s \<longleftrightarrow> ring_shape k (sys_ring s) \<and> slots_ok k (sys_ring s) (sent s) \<and>
     (\<forall>p h. claims s p = Some h \<longrightarrow> unat (rb_tail (sys_ring s)) \<le> unat h \<and> unat h < unat (rb_head (sys_ring s)) \<and> sent s (unat h) = None) \<and>
     (\<forall>p q h. claims s p = Some h \<and> claims s q = Some h \<longrightarrow> p = q) \<and>
     (\<forall>i<unat (rb_tail (sys_ring s)). sent s i \<noteq> None) \<and>
     got s = map (\<lambda>i. the (sent s i)) [0..<unat (rb_tail (sys_ring s))]"

lemma signal_frame [simp]:
  "rb_buf (signalArrived rb) = rb_buf rb" "rb_ready (signalArrived rb) = rb_ready rb" "rb_mask (signalArrived rb) = rb_mask rb"
  "rb_cap (signalArrived rb) = rb_cap rb" "rb_head (signalArrived rb) = rb_head rb" "rb_tail (signalArrived rb) = rb_tail rb"
  "rb_tailShared (signalArrived rb) = rb_tailShared rb"
  by (simp_all add: signalArrived_def Let_def split: option.split)

lemma arrive_frame [simp]:
  "rb_buf (fst (arriveChan rb)) = rb_buf rb" "rb_ready (fst (arriveChan rb)) = rb_ready rb" "rb_mask (fst (arriveChan rb)) = rb_mask rb"
  "rb_cap (fst (arriveChan rb)) = rb_cap rb" "rb_head (fst (arriveChan rb)) = rb_head rb" "rb_tail (fst (arriveChan rb)) = rb_tail rb"
  "rb_tailShared (fst (arriveChan rb)) = rb_tailShared rb"
  by (simp_all add: arriveChan_def Let_def split: option.split)

lemma slot_mod: "ring_shape k rb \<Longrightarrow> slot_of rb h = unat h mod 2 ^ k"
  by (simp add: slot_of_def ring_shape_def and_mask_mod)

lemma window_slots:
  fixes i j a b n :: nat
  assumes "a \<le> i" "i < b" "a \<le> j" "j < b" "b \<le> a + n" "i mod n = j mod n"
  shows "i = j"
proof -
  have "\<not> (i < j)" and "\<not> (j < i)"
    using assms mod_eq_dvd_iff_nat [of j i n] mod_eq_dvd_iff_nat [of i j n] by (auto dest!: dvd_imp_le)
  then show ?thesis by simp
qed

lemma unat_succ: "unat a + 1 < 18446744073709551616 \<Longrightarrow> unat (a + 1 :: u64) = unat a + 1"
  using unat_add_lem [of a 1] by simp

lemma unat_exp: "k < 64 \<Longrightarrow> unat (2 ^ k :: u64) = 2 ^ k"
proof -
  assume k: "k < 64"
  have "(2 :: nat) ^ k < 2 ^ 64" using k by (intro power_strict_increasing) simp_all
  then have "unat (of_nat (2 ^ k) :: u64) = 2 ^ k" by (simp only: unat_of_nat) (simp add: mod_less)
  then show ?thesis by simp
qed

lemma below_head:
  assumes "unat (a :: u64) < unat (b :: u64)"
  shows "unat (a + 1) = unat a + 1"
  by (rule unat_succ) (use assms unsigned_less [of b, where 'a = nat] in simp)

lemma ready_iff:
  assumes sh: "ring_shape k rb" and sl: "slots_ok k rb sn" and t: "unat (rb_tail rb) < unat (rb_head rb)"
  shows "rb_ready rb ! slot_of rb (rb_tail rb) = rb_tail rb + 1 \<longleftrightarrow> sn (unat (rb_tail rb)) \<noteq> None"
proof -
  let ?T = "unat (rb_tail rb)"
  have succ: "unat (rb_tail rb + 1) = ?T + 1" by (rule below_head [OF t])
  have j: "slot_of rb (rb_tail rb) = ?T mod 2 ^ k" "?T mod 2 ^ k < 2 ^ k" using slot_mod [OF sh] by simp_all
  show ?thesis
  proof
    assume eq: "rb_ready rb ! slot_of rb (rb_tail rb) = rb_tail rb + 1"
    then have "unat (rb_ready rb ! (?T mod 2 ^ k)) = ?T + 1" using succ j by simp
    then have "rb_ready rb ! (?T mod 2 ^ k) \<noteq> 0" by auto
    moreover have "\<forall>j<2 ^ k. rb_ready rb ! j = 0 \<or> (\<exists>i. sn i \<noteq> None \<and> i mod 2 ^ k = j \<and> unat (rb_ready rb ! j) = i + 1)"
      using sl unfolding slots_ok_def by blast
    ultimately obtain i where "sn i \<noteq> None" "unat (rb_ready rb ! (?T mod 2 ^ k)) = i + 1" using j(2) by blast
    with \<open>unat (rb_ready rb ! (?T mod 2 ^ k)) = ?T + 1\<close> show "sn ?T \<noteq> None" by simp
  next
    assume "sn ?T \<noteq> None"
    then have "unat (rb_ready rb ! (?T mod 2 ^ k)) = ?T + 1" using sl t by (auto simp: slots_ok_def)
    then have "unat (rb_ready rb ! (?T mod 2 ^ k)) = unat (rb_tail rb + 1)" using succ by simp
    then show "rb_ready rb ! slot_of rb (rb_tail rb) = rb_tail rb + 1" using j(1) by (simp add: word_unat_eq_iff)
  qed
qed

text \<open>Draining takes the published events in order, up to the first number that is claimed but not
  yet published. The shared tail is updated only at the end; \<open>t0\<close> is its value.\<close>

definition drained :: "nat \<Rightarrow> 'e ring \<Rightarrow> (nat \<rightharpoonup> 'e) \<Rightarrow> nat \<Rightarrow> 'e ring \<times> 'e list \<Rightarrow> bool" where
  "drained k rb sn n r \<longleftrightarrow> (\<exists>m\<le>n. r = (rb\<lparr>rb_tail := rb_tail rb + of_nat m\<rparr>, map (\<lambda>i. the (sn i)) [unat (rb_tail rb)..<unat (rb_tail rb) + m]) \<and>
     unat (rb_tail rb + of_nat m) = unat (rb_tail rb) + m \<and> unat (rb_tail rb) + m \<le> unat (rb_head rb) \<and>
     (\<forall>i. unat (rb_tail rb) \<le> i \<and> i < unat (rb_tail rb) + m \<longrightarrow> sn i \<noteq> None) \<and>
     (m = n \<or> unat (rb_tail rb) + m = unat (rb_head rb) \<or> sn (unat (rb_tail rb) + m) = None))"

lemma drain_loop_drains:
  "\<lbrakk> ring_shape k (rb\<lparr>rb_tailShared := rb_tail rb\<rparr>); slots_ok k rb sn; head = rb_head rb \<rbrakk> \<Longrightarrow> drained k rb sn n (drain_loop n head rb)"
proof (induction n arbitrary: rb)
  case 0
  then show ?case by (auto simp: drained_def ring_shape_def)
next
  case (Suc n)
  let ?T = "unat (rb_tail rb)"
  have sl: "slots_ok k (rb\<lparr>rb_tailShared := rb_tail rb\<rparr>) sn" using Suc.prems(2) by (simp add: slots_ok_def)
  have le: "?T \<le> unat (rb_head rb)" using Suc.prems(1) by (simp add: ring_shape_def)
  show ?case
  proof (cases "?T < unat (rb_head rb) \<and> sn ?T \<noteq> None")
    case False
    have "drain_loop (Suc n) head rb = (rb, [])"
    proof (cases "?T < unat (rb_head rb)")
      case True
      with False ready_iff [OF Suc.prems(1) sl] Suc.prems(3) show ?thesis by (auto simp: slot_of_def Let_def)
    qed (use Suc.prems(3) in \<open>simp add: word_less_nat_alt\<close>)
    with False le show ?thesis by (auto simp: drained_def intro!: exI [of _ 0])
  next
    case True
    let ?rb = "rb\<lparr>rb_tail := rb_tail rb + 1\<rparr>"
    have succ: "unat (rb_tail rb + 1) = ?T + 1" using True below_head by blast
    have sh1: "ring_shape k (?rb\<lparr>rb_tailShared := rb_tail ?rb\<rparr>)" and sl1: "slots_ok k ?rb sn"
      using Suc.prems succ True by (auto simp: ring_shape_def slots_ok_def)
    obtain e where e: "sn ?T = Some e" using True by blast
    have buf: "rb_buf rb ! slot_of rb (rb_tail rb) = e"
      using e True Suc.prems(2) slot_mod [OF Suc.prems(1)] by (auto simp: slots_ok_def slot_of_def)
    have step: "drain_loop (Suc n) head rb = (let (rb', out) = drain_loop n head ?rb in (rb', e # out))"
      using True buf ready_iff [OF Suc.prems(1) sl] Suc.prems(3) by (auto simp: slot_of_def word_less_nat_alt Let_def)
    have "drained k ?rb sn n (drain_loop n head ?rb)" by (rule Suc.IH) (use sh1 sl1 Suc.prems(3) in simp_all)
    then obtain m where m: "m \<le> n" "drain_loop n head ?rb = (?rb\<lparr>rb_tail := rb_tail rb + 1 + of_nat m\<rparr>, map (\<lambda>i. the (sn i)) [?T + 1..<?T + 1 + m])"
      "unat (rb_tail rb + 1 + of_nat m) = ?T + 1 + m" "?T + 1 + m \<le> unat (rb_head rb)"
      "\<forall>i. ?T + 1 \<le> i \<and> i < ?T + 1 + m \<longrightarrow> sn i \<noteq> None" "m = n \<or> ?T + 1 + m = unat (rb_head rb) \<or> sn (?T + 1 + m) = None"
      by (auto simp: drained_def succ)
    have upt: "[?T..<?T + Suc m] = ?T # [?T + 1..<?T + 1 + m]" by (simp add: upt_conv_Cons)
    have "sn i \<noteq> None" if "?T \<le> i" "i < ?T + Suc m" for i using that m(5) True by (cases "i = ?T") auto
    moreover have "rb_tail rb + of_nat (Suc m) = rb_tail rb + 1 + of_nat m" by simp
    ultimately show ?thesis
      unfolding drained_def step using m e upt
      by (intro exI [of _ "Suc m"]) (simp only: Let_def, auto simp: algebra_simps)
  qed
qed

lemma publish_slots:
  assumes sh: "ring_shape k rb" and sl: "slots_ok k rb sn" and h: "unat (rb_tail rb) \<le> unat h" "unat h < unat (rb_head rb)"
  shows "slots_ok k (publish rb h ev) (sn(unat h \<mapsto> ev))"
proof -
  let ?i = "unat h" and ?j = "unat h mod 2 ^ k"
  have len: "length (rb_buf rb) = 2 ^ k" "length (rb_ready rb) = 2 ^ k" and win: "unat (rb_head rb) \<le> unat (rb_tail rb) + 2 ^ k"
    using sh by (simp_all add: ring_shape_def)
  have succ: "unat (h + 1) = ?i + 1" by (rule below_head [OF h(2)])
  have new: "rb_buf (publish rb h ev) = (rb_buf rb)[?j := ev]" "rb_ready (publish rb h ev) = (rb_ready rb)[?j := h + 1]"
    "rb_tail (publish rb h ev) = rb_tail rb" "rb_head (publish rb h ev) = rb_head rb"
    using slot_mod [OF sh, of h] by (simp_all add: publish_def Let_def)
  have j: "?j < 2 ^ k" by simp
  have "(rb_buf rb)[?j := ev] ! (i mod 2 ^ k) = e \<and> unat ((rb_ready rb)[?j := h + 1] ! (i mod 2 ^ k)) = i + 1"
    if i: "unat (rb_tail rb) \<le> i" "i < unat (rb_head rb)" "(sn(?i \<mapsto> ev)) i = Some e" for i e
  proof (cases "i = ?i")
    case True
    with i(3) len succ j show ?thesis by simp
  next
    case False
    then have "i mod 2 ^ k \<noteq> ?j" using window_slots [of "unat (rb_tail rb)" i "unat (rb_head rb)" ?i "2 ^ k"] i h win by blast
    with False i sl len show ?thesis by (auto simp: slots_ok_def)
  qed
  moreover have "(rb_ready rb)[?j := h + 1] ! j = 0 \<or> (\<exists>i. (sn(?i \<mapsto> ev)) i \<noteq> None \<and> i mod 2 ^ k = j \<and> unat ((rb_ready rb)[?j := h + 1] ! j) = i + 1)"
    if "j < 2 ^ k" for j
  proof (cases "j = ?j")
    case True
    with len succ j show ?thesis by (intro disjI2 exI [of _ ?i]) simp
  next
    case False
    have "rb_ready rb ! j = 0 \<or> (\<exists>i. sn i \<noteq> None \<and> i mod 2 ^ k = j \<and> unat (rb_ready rb ! j) = i + 1)"
      using sl that unfolding slots_ok_def by blast
    then show ?thesis
    proof
      assume "\<exists>i. sn i \<noteq> None \<and> i mod 2 ^ k = j \<and> unat (rb_ready rb ! j) = i + 1"
      then obtain i where "sn i \<noteq> None \<and> i mod 2 ^ k = j \<and> unat (rb_ready rb ! j) = i + 1" ..
      with False show ?thesis by (intro disjI2 exI [of _ i]) auto
    qed (use False in simp)
  qed
  moreover have "\<forall>i. (sn(?i \<mapsto> ev)) i \<noteq> None \<longrightarrow> i < unat (rb_head rb)" using sl h by (auto simp: slots_ok_def)
  ultimately show ?thesis unfolding slots_ok_def new by blast
qed

lemma DrainBatch_drains:
  assumes sh: "ring_shape k rb" and sl: "slots_ok k rb sn" and d: "DrainBatch rb n = (rb', out)"
  shows "\<exists>m. rb' = rb\<lparr>rb_tail := rb_tail rb + of_nat m, rb_tailShared := rb_tail rb + of_nat m\<rparr> \<and>
     out = map (\<lambda>i. the (sn i)) [unat (rb_tail rb)..<unat (rb_tail rb) + m] \<and> unat (rb_tail rb + of_nat m) = unat (rb_tail rb) + m \<and>
     unat (rb_tail rb) + m \<le> unat (rb_head rb) \<and> (\<forall>i. unat (rb_tail rb) \<le> i \<and> i < unat (rb_tail rb) + m \<longrightarrow> sn i \<noteq> None)"
proof (cases "n \<le> 0 \<or> rb_head rb = rb_tail rb")
  case True
  then have "DrainBatch rb n = (rb, [])" by (auto simp: DrainBatch_def)
  moreover have "rb\<lparr>rb_tail := rb_tail rb, rb_tailShared := rb_tail rb\<rparr> = rb" using sh by (simp add: ring_shape_def)
  ultimately show ?thesis using d sh by (intro exI [of _ 0]) (auto simp: ring_shape_def)
next
  case False
  obtain c where c: "DrainBatch rb n = (let (rb1, out) = drain_loop c (rb_head rb) rb in (rb1\<lparr>rb_tailShared := rb_tail rb1\<rparr>, out))"
    using False by (auto simp: DrainBatch_def Let_def)
  have "rb\<lparr>rb_tailShared := rb_tail rb\<rparr> = rb" using sh by (simp add: ring_shape_def)
  then have "drained k rb sn c (drain_loop c (rb_head rb) rb)" using drain_loop_drains [of k rb sn "rb_head rb" c] sh sl by simp
  with c d show ?thesis by (auto simp: drained_def)
qed

lemma rb_step_inv:
  assumes "rb_step s s'" and inv: "rb_inv k s"
  shows "rb_inv k s'"
  using assms(1)
proof cases
  case (claims_slot p rb' h)
  let ?rb = "sys_ring s"
  have sh: "ring_shape k ?rb" and sl: "slots_ok k ?rb (sent s)" using inv by (simp_all add: rb_inv_def)
  have rb': "rb' = ?rb\<lparr>rb_head := rb_head ?rb + 1\<rparr>" "h = rb_head ?rb" "rb_head ?rb - rb_tail ?rb < rb_cap ?rb"
    using claims_slot(3) sh by (auto simp: claim_def ring_shape_def split: if_splits)
  have succ: "unat (rb_head ?rb + 1) = unat (rb_head ?rb) + 1" by (rule unat_succ) (use claims_slot(4) in simp)
  have "unat (rb_head ?rb - rb_tail ?rb) = unat (rb_head ?rb) - unat (rb_tail ?rb)"
    using sh by (intro unat_sub) (simp add: ring_shape_def word_le_nat_alt)
  moreover have "unat (rb_cap ?rb) = 2 ^ k" using sh by (simp add: ring_shape_def unat_exp)
  ultimately have "unat (rb_head ?rb) - unat (rb_tail ?rb) < 2 ^ k" using rb'(3) by (simp add: word_less_nat_alt)
  then have "ring_shape k rb'" using sh succ by (simp add: rb'(1) ring_shape_def)
  moreover have "sent s (unat (rb_head ?rb)) = None" using sl by (auto simp: slots_ok_def)
  moreover have "slots_ok k rb' (sent s)" using sl succ by (auto simp: rb'(1) slots_ok_def less_Suc_eq)
  moreover have "claims s q \<noteq> Some (rb_head ?rb)" for q using inv by (auto simp: rb_inv_def)
  ultimately show ?thesis
    using inv sh succ by (auto simp: claims_slot(1) rb_inv_def rb'(1,2) ring_shape_def less_Suc_eq)
next
  case (publishes p h ev)
  let ?rb = "sys_ring s"
  have sh: "ring_shape k ?rb" and sl: "slots_ok k ?rb (sent s)" using inv by (simp_all add: rb_inv_def)
  have h: "unat (rb_tail ?rb) \<le> unat h" "unat h < unat (rb_head ?rb)" using inv publishes(2) by (simp_all add: rb_inv_def)
  have frame: "rb_tail (publish ?rb h ev) = rb_tail ?rb" "rb_head (publish ?rb h ev) = rb_head ?rb" "ring_shape k (publish ?rb h ev)"
    using sh by (simp_all add: publish_def ring_shape_def Let_def)
  have other: "unat h' \<noteq> unat h" if "claims s q = Some h'" "q \<noteq> p" for q h'
  proof
    assume "unat h' = unat h"
    then have "h' = h" by (simp add: word_unat_eq_iff)
    with inv publishes(2) that show False by (auto simp: rb_inv_def)
  qed
  have "got s = map (\<lambda>i. the (((sent s)(unat h \<mapsto> ev)) i)) [0..<unat (rb_tail ?rb)]"
    using inv h(1) by (auto simp: rb_inv_def)
  with inv publish_slots [OF sh sl h, of ev] frame other show ?thesis by (auto simp: publishes(1) rb_inv_def)
next
  case (drains n rb' out)
  let ?rb = "sys_ring s"
  have sh: "ring_shape k ?rb" and sl: "slots_ok k ?rb (sent s)" using inv by (simp_all add: rb_inv_def)
  obtain m where m: "rb' = ?rb\<lparr>rb_tail := rb_tail ?rb + of_nat m, rb_tailShared := rb_tail ?rb + of_nat m\<rparr>"
     "out = map (\<lambda>i. the (sent s i)) [unat (rb_tail ?rb)..<unat (rb_tail ?rb) + m]" "unat (rb_tail ?rb + of_nat m) = unat (rb_tail ?rb) + m"
     "unat (rb_tail ?rb) + m \<le> unat (rb_head ?rb)" "\<forall>i. unat (rb_tail ?rb) \<le> i \<and> i < unat (rb_tail ?rb) + m \<longrightarrow> sent s i \<noteq> None"
    using DrainBatch_drains [OF sh sl drains(2)] by blast
  have "sent s (unat h) = None \<and> unat (rb_tail ?rb) + m \<le> unat h" if "claims s p = Some h" for p h
  proof -
    have "unat (rb_tail ?rb) \<le> unat h" "sent s (unat h) = None" using inv that by (simp_all add: rb_inv_def)
    with m(5) show ?thesis using not_le by blast
  qed
  moreover have "got s @ out = map (\<lambda>i. the (sent s i)) [0..<unat (rb_tail ?rb) + m]"
    using inv m(2) upt_add_eq_append [of 0 "unat (rb_tail ?rb)" m] by (simp add: rb_inv_def)
  moreover have "sent s i \<noteq> None" if "i < unat (rb_tail ?rb) + m" for i
    using inv m(5) that by (cases "i < unat (rb_tail ?rb)") (auto simp: rb_inv_def)
  ultimately show ?thesis using inv m sh sl by (auto simp: drains(1) rb_inv_def ring_shape_def slots_ok_def)
next
  case waits
  with inv show ?thesis by (simp add: rb_inv_def ring_shape_def slots_ok_def)
qed

definition rb_init :: "'e ring \<Rightarrow> 'e rb_sys" where
  "rb_init rb = \<lparr>sys_ring = rb, claims = Map.empty, sent = Map.empty, got = []\<rparr>"

lemma NewRingBuffer_inv:
  assumes "NewRingBuffer ev0 n = Inr rb" and "n < 18446744073709551616"
  shows "\<exists>k. n = 2 ^ k \<and> rb_inv k (rb_init rb)"
proof -
  have pos: "0 < n" "n AND (n - 1) = 0" using assms(1) by (auto simp: NewRingBuffer_def split: if_splits)
  then obtain k where k: "n = 2 ^ k" using ring_size_iff by blast
  have "(2 :: int) ^ k < 2 ^ 64" using assms(2) k by simp
  then have "k < 64" by (simp only: power_strict_increasing_iff)
  then show ?thesis
    using assms(1) pos k by (intro exI [of _ k]) (auto simp: NewRingBuffer_def rb_inv_def rb_init_def ring_shape_def slots_ok_def nat_power_eq)
qed

text \<open>C33: the ring buffer is a queue under every interleaving of producers and the consumer. After any
  number of steps the consumer has received exactly the events published under the numbers
  below the tail, in the order of the numbers and each once, and the numbers between tail and
  head are no more than the capacity.\<close>

theorem ring_delivers_in_order:
  assumes "NewRingBuffer ev0 n = Inr rb" and "n < 18446744073709551616" and "rb_step\<^sup>*\<^sup>* (rb_init rb) s"
  shows "got s = map (\<lambda>i. the (sent s i)) [0..<unat (rb_tail (sys_ring s))] \<and>
    (\<forall>i<unat (rb_tail (sys_ring s)). sent s i \<noteq> None) \<and>
    unat (rb_tail (sys_ring s)) \<le> unat (rb_head (sys_ring s)) \<and> int (unat (rb_head (sys_ring s)) - unat (rb_tail (sys_ring s))) \<le> n"
proof -
  obtain k where k: "n = 2 ^ k" "rb_inv k (rb_init rb)" using NewRingBuffer_inv [OF assms(1,2)] by blast
  from assms(3) have "rb_inv k s" by (induction rule: rtranclp_induct) (auto intro: k(2) rb_step_inv)
  then have sh: "ring_shape k (sys_ring s)" and g: "got s = map (\<lambda>i. the (sent s i)) [0..<unat (rb_tail (sys_ring s))]"
    "\<forall>i<unat (rb_tail (sys_ring s)). sent s i \<noteq> None" by (simp_all add: rb_inv_def)
  have "unat (rb_head (sys_ring s)) - unat (rb_tail (sys_ring s)) \<le> 2 ^ k" using sh unfolding ring_shape_def by linarith
  then have "int (unat (rb_head (sys_ring s)) - unat (rb_tail (sys_ring s))) \<le> int (2 ^ k)" by (simp only: of_nat_le_iff)
  then have "int (unat (rb_head (sys_ring s)) - unat (rb_tail (sys_ring s))) \<le> n" by (simp only: k(1) of_nat_power of_nat_numeral)
  with sh g show ?thesis unfolding ring_shape_def by blast
qed

text \<open>A producer alone: claim, publish, then the consumer drains.\<close>

definition sample_ring :: "nat ring" where
  "sample_ring = (case NewRingBuffer 0 4 of Inr rb \<Rightarrow> rb | Inl _ \<Rightarrow> undefined)"

lemma sample_ring_new: "NewRingBuffer 0 4 = Inr sample_ring"
  by (simp add: sample_ring_def NewRingBuffer_def)

lemma sample_ring_eq: "sample_ring = \<lparr>rb_buf = [0, 0, 0, 0], rb_ready = [0, 0, 0, 0], rb_mask = 3, rb_cap = 4, rb_head = 0, rb_tail = 0,
    rb_tailShared = 0, rb_arrive = None, rb_waiting = False, rb_closed = {}, rb_nextChan = 0\<rparr>"
  by (simp add: sample_ring_def NewRingBuffer_def numeral_eq_Suc)

theorem ring_delivers_in_order_witness:
  "\<exists>s. rb_step\<^sup>*\<^sup>* (rb_init sample_ring) s \<and> got s = [7]"
proof -
  let ?s0 = "rb_init sample_ring"
  let ?rb1 = "sample_ring\<lparr>rb_head := 1\<rparr>"
  let ?s1 = "?s0\<lparr>sys_ring := ?rb1, claims := [0 \<mapsto> 0]\<rparr>"
  let ?rb2 = "publish ?rb1 0 7"
  let ?s2 = "?s1\<lparr>sys_ring := ?rb2, claims := ([0 \<mapsto> 0])(0 := None), sent := (sent ?s1)(unat (0 :: u64) \<mapsto> 7)\<rparr>"
  have 1: "rb_step ?s0 ?s1"
    using rb_step.claims_slot [of ?s0 0 ?rb1 0] by (simp add: claim_def sample_ring_eq rb_init_def)
  have 2: "rb_step ?s1 ?s2" using rb_step.publishes [of ?s1 0 0 7] by (simp add: rb_init_def)
  obtain rb3 where d: "DrainBatch ?rb2 1 = (rb3, [7])"
    by (simp add: sample_ring_eq publish_def slot_of_def signalArrived_def DrainBatch_def Let_def numeral_eq_Suc)
  let ?s3 = "?s2\<lparr>sys_ring := rb3, got := got ?s2 @ [7]\<rparr>"
  have 3: "rb_step ?s2 ?s3" using rb_step.drains [of ?s2 1 rb3 "[7]"] d by simp
  have reach: "rb_step\<^sup>*\<^sup>* ?s0 ?s3" using 1 2 3 by (meson converse_rtranclp_into_rtranclp r_into_rtranclp)
  moreover have "got ?s3 = [7]" by (simp add: rb_init_def)
  moreover note ring_delivers_in_order [OF sample_ring_new _ reach]
  ultimately show ?thesis by blast
qed

text \<open>No wake-up is lost. The channel \<^verbatim>\<open>arriveChan\<close> returns is closed already when events are
  waiting; otherwise the next submission that is published closes it.\<close>

theorem arrival_is_signalled:
  assumes "arriveChan rb = (rb', c)"
  shows "(if rb_tailShared rb < rb_head rb then c \<in> rb_closed rb' else rb_arrive rb' = Some c \<and> c \<in> rb_closed (publish rb' h ev))"
  using assms by (auto simp: arriveChan_def publish_def signalArrived_def Let_def split: if_splits option.splits)

theorem arrival_is_signalled_witness: "snd (arriveChan sample_ring) \<in> rb_closed (publish (fst (arriveChan sample_ring)) 0 7)"
proof -
  have "rb_tailShared sample_ring = 0" "rb_head sample_ring = 0" by (simp_all add: sample_ring_eq)
  with arrival_is_signalled [of sample_ring "fst (arriveChan sample_ring)" "snd (arriveChan sample_ring)" 0 7] show ?thesis by simp
qed

text \<open>A ring buffer is created exactly for the sizes that are powers of two; for every other size
  the call fails with the size in the error.\<close>

theorem ring_sizes:
  "case NewRingBuffer ev0 n of Inr rb \<Rightarrow> (\<exists>k. n = 2 ^ k) | Inl e \<Rightarrow> e = ErrInvalidRingBufferSize n \<and> (\<nexists>k. n = 2 ^ k)"
proof (cases "0 < n")
  case True
  with ring_size_iff [OF True] show ?thesis by (auto simp: NewRingBuffer_def)
next
  case False
  then have "n \<noteq> 2 ^ k" for k using zero_less_power [of "2 :: int" k] by linarith
  with False show ?thesis by (simp add: NewRingBuffer_def)
qed

end
