(* ===== verification/Ledger_Engine.thy ===== *)
theory Ledger_Engine
  imports Replay Snapshot_File Ring_Buffer
begin

text \<open>
  The ledger (\<^verbatim>\<open>internal/engine/ledger.go\<close>): start-up from snapshot and log, taking snapshots, and
  the client operations with their idempotency keys. A request runs concurrently with the event
  loop and with other requests; what it does before its events are queued and after their
  acknowledgements have arrived are separate definitions, over the store as it is at that
  moment. Loops that wait for another request take the list of what they observe, attempt by
  attempt.
\<close>

subsection \<open>Restoring a snapshot\<close>

definition restore_accounts :: "account_manager \<Rightarrow> account list \<Rightarrow> account_manager" where
  "restore_accounts m accs = foldl (\<lambda>m a. fst (Create m a)) m accs"

fun restore_pendings :: "account_manager \<Rightarrow> transfer list \<Rightarrow> account_manager \<times> restore_error option" where
  "restore_pendings m [] = (m, None)"
| "restore_pendings m (p # ps) =
     (case RestorePending m p of
        (m', Some e) \<Rightarrow> (m', Some e)
      | (m', None) \<Rightarrow> restore_pendings (if sint (Timestamp p) > sint (clock m') then m'\<lparr>clock := Timestamp p\<rparr> else m') ps)"

lemma index_unique:
  assumes "index_ok m" "index_ok m'" "accounts m' = accounts m"
  shows "index m' = index m"
proof
  fix i
  show "index m' i = index m i"
  proof (cases "index m i")
    case (Some k)
    then have "k < length (accounts m)" "acc_ID (accounts m ! k) = i" using index_okD [OF assms(1)] by auto
    then have "index m' i = Some k" using assms(2,3) by (auto simp: index_ok_def)
    with Some show ?thesis by simp
  next
    case None
    show ?thesis
    proof (cases "index m' i")
      case (Some k)
      then have "k < length (accounts m)" "acc_ID (accounts m ! k) = i" using index_okD [OF assms(2)] assms(3) by auto
      then have "index m i = Some k" using assms(1) by (auto simp: index_ok_def)
      with None show ?thesis by simp
    qed (use None in simp)
  qed
qed

lemma index_ok_distinct: "index_ok m \<Longrightarrow> distinct (map acc_ID (accounts m))"
  unfolding distinct_conv_nth index_ok_def by (metis length_map nth_map option.inject)

lemma restore_accounts_all:
  "\<lbrakk> am_inv m; distinct (map acc_ID as); \<forall>a\<in>set as. index m (acc_ID a) = None \<rbrakk> \<Longrightarrow>
     am_inv (restore_accounts m as) \<and> accounts (restore_accounts m as) = accounts m @ as \<and>
     pending (restore_accounts m as) = pending m \<and> transfers (restore_accounts m as) = transfers m"
proof (induction as arbitrary: m)
  case (Cons a as)
  then have c: "Create m a = (add_account a m, None)" by (simp add: Create_add)
  have "am_inv (add_account a m)" by (rule am_inv_Create [OF Cons.prems(1) c])
  moreover have "\<forall>b\<in>set as. index (add_account a m) (acc_ID b) = None" using Cons.prems(2,3) by (auto simp: add_account_def) (metis image_eqI)
  ultimately have "am_inv (restore_accounts (add_account a m) as) \<and> accounts (restore_accounts (add_account a m) as) = accounts (add_account a m) @ as \<and>
     pending (restore_accounts (add_account a m) as) = pending (add_account a m) \<and> transfers (restore_accounts (add_account a m) as) = transfers (add_account a m)"
    using Cons by (intro Cons.IH) simp_all
  with c show ?case by (simp add: restore_accounts_def) (simp add: add_account_def)
qed (simp add: restore_accounts_def)

lemma pend_queue_clock: "pend_ok (m\<lparr>clock := c\<rparr>) = pend_ok m" "queue_ok (m\<lparr>clock := c\<rparr>) = queue_ok m" "hold_at (m\<lparr>clock := c\<rparr>) = hold_at m"
  by (simp_all add: pend_ok_def queue_ok_def hold_at_def fun_eq_iff)

definition holds_of :: "transfer list \<Rightarrow> ident \<rightharpoonup> transfer" where
  "holds_of ps = map_of (map (\<lambda>p. (tr_ID p, p)) ps)"

lemma restore_pendings_all:
  "\<lbrakk> pend_ok m; queue_ok m; distinct (map tr_ID ps); \<forall>p\<in>set ps. pending m (tr_ID p) = None \<rbrakk> \<Longrightarrow>
     \<exists>m'. restore_pendings m ps = (m', None) \<and> pend_ok m' \<and> queue_ok m' \<and> hold_at m' = hold_at m ++ holds_of ps \<and>
       accounts m' = accounts m \<and> index m' = index m \<and> transfers m' = transfers m"
proof (induction ps arbitrary: m)
  case (Cons p ps)
  let ?m = "register_hold m p"
  let ?m1 = "if sint (Timestamp p) > sint (clock ?m) then ?m\<lparr>clock := Timestamp p\<rparr> else ?m"
  have new: "pending m (tr_ID p) = None" using Cons.prems by simp
  have m1: "pend_ok ?m1" "queue_ok ?m1" "hold_at ?m1 = (hold_at m)(tr_ID p \<mapsto> p)" "pending ?m1 = (pending m)(tr_ID p \<mapsto> next_ref m)"
    "accounts ?m1 = accounts m" "index ?m1 = index m" "transfers ?m1 = transfers m"
    using pend_ok_register_hold [OF Cons.prems(1)] queue_ok_register_hold [OF Cons.prems(2,1) new] hold_register_hold [OF Cons.prems(1), of p]
    by (simp_all add: pend_queue_clock)
  have nd: "\<forall>q\<in>set ps. tr_ID q \<noteq> tr_ID p" using Cons.prems(3) by (auto simp: image_iff)
  then have "\<forall>q\<in>set ps. pending ?m1 (tr_ID q) = None" using Cons.prems(4) m1(4) by simp
  with Cons.IH [OF m1(1,2)] Cons.prems(3) obtain m' where m': "restore_pendings ?m1 ps = (m', None)" "pend_ok m'" "queue_ok m'"
    "hold_at m' = hold_at ?m1 ++ holds_of ps" "accounts m' = accounts ?m1" "index m' = index ?m1" "transfers m' = transfers ?m1" by auto
  have "holds_of ps (tr_ID p) = None" using nd by (auto simp: holds_of_def map_of_eq_None_iff)
  then have "hold_at m' = hold_at m ++ holds_of (p # ps)"
    unfolding m'(4) m1(3) by (auto simp: holds_of_def map_add_def fun_eq_iff split: option.split)
  moreover have "restore_pendings m (p # ps) = (m', None)" using new m'(1) by (simp add: RestorePending_def)
  ultimately show ?case using m' m1(5-7) by simp
qed (simp add: holds_of_def)

lemma holds_of_PendingTransfers:
  assumes "pend_ok m" and "set ks = dom (pending m)"
  shows "holds_of (PendingTransfers ks m) = hold_at m" "map tr_ID (PendingTransfers ks m) = ks"
proof -
  have id: "tr_ID (pe_transfer (entries m (the (pending m k)))) = k" if "k \<in> set ks" for k
    using assms that by (auto simp: pend_ok_def)
  then show ids: "map tr_ID (PendingTransfers ks m) = ks" by (simp add: PendingTransfers_def map_idI)
  have "map (\<lambda>p. (tr_ID p, p)) (PendingTransfers ks m) = map (\<lambda>k. (k, pe_transfer (entries m (the (pending m k))))) ks"
    using id by (simp add: PendingTransfers_def)
  then have "holds_of (PendingTransfers ks m) i = (if i \<in> set ks then Some (pe_transfer (entries m (the (pending m i)))) else None)" for i
    by (simp add: holds_of_def map_of_map_restrict restrict_map_def)
  then show "holds_of (PendingTransfers ks m) = hold_at m" using assms(2) by (auto simp: hold_at_def fun_eq_iff)
qed

definition restored :: "account list \<Rightarrow> transfer list \<Rightarrow> account_manager \<times> restore_error option" where
  "restored accs pendings = restore_pendings (restore_accounts NewAccountManager accs) pendings"

lemma restored_book:
  assumes inv: "am_inv m" and ks: "set ks = dom (pending m)" "distinct ks"
  shows "\<exists>m'. restored (Snapshot m) (PendingTransfers ks m) = (m', None) \<and> am_inv m' \<and> book_of m' = book_of m \<and> transfers m' = Map.empty"
proof -
  have ok: "index_ok m" "pend_ok m" "book_inv (book_of m)" using inv by (simp_all add: am_inv_def am_ok_def)
  let ?a = "restore_accounts NewAccountManager (accounts m)"
  have a: "am_inv ?a" "accounts ?a = accounts m" "pending ?a = Map.empty" "transfers ?a = Map.empty"
    using restore_accounts_all [OF am_inv_new, of "accounts m"] index_ok_distinct [OF ok(1)] by (simp_all add: NewAccountManager_def)
  then have aok: "index_ok ?a" "pend_ok ?a" "queue_ok ?a" by (simp_all add: am_inv_def am_ok_def)
  have idx: "index ?a = index m" by (rule index_unique [OF ok(1) aok(1) a(2)])
  note h = holds_of_PendingTransfers [OF ok(2) ks(1)]
  from restore_pendings_all [OF aok(2,3), of "PendingTransfers ks m"] a h ks(2) obtain m' where m': "restore_pendings ?a (PendingTransfers ks m) = (m', None)"
    "pend_ok m'" "queue_ok m'" "hold_at m' = hold_at ?a ++ hold_at m" "accounts m' = accounts ?a" "index m' = index ?a" "transfers m' = Map.empty" by auto
  have "hold_at ?a = Map.empty" using a(3) by (simp add: hold_at_def fun_eq_iff)
  then have "hold_at m' = hold_at m" using m'(4) by simp
  then have book: "book_of m' = book_of m" using m'(5,6) a(2) idx by (simp add: book_of_def account_at_def [abs_def])
  have "index_ok m'" using aok(1) m'(5,6) by (simp add: index_ok_def)
  then have "am_inv m'" using m' book ok(3) by (simp add: am_inv_def am_ok_def)
  with m' book show ?thesis by (simp add: restored_def Snapshot_def)
qed

subsection \<open>Configuration and state\<close>

record config =
  RingBufferSize :: int
  MaxBatchSize :: int
  BatchTimeout :: int
  IdempotencyMaxSize :: int
  IdempotencyTTL :: int
  InitialAccounts :: "account list"
  IsFollower :: bool
  SnapshotInterval :: int

definition DefaultConfig :: config where
  "DefaultConfig = \<lparr>RingBufferSize = 65536, MaxBatchSize = 10000, BatchTimeout = 1000000, IdempotencyMaxSize = 100000,
     IdempotencyTTL = 900000000000, InitialAccounts = [], IsFollower = False, SnapshotInterval = 0\<rparr>"

text \<open>The accounts and the log are reached through the event loop, which shares the pointers.\<close>

record ledger =
  ld_loop :: eventLoop
  ld_rb :: "transfer ring"
  ld_idempKey :: idStore
  ld_snapshots :: directory
  ld_isFollower :: bool
  ld_recovered :: bool
  ld_checkpointOn :: bool
  ld_snapshotCycleOK :: bool
  ld_lastSnapshotLSN :: i64

datatype start_error = BadInitialAccount ident ledger_error | InitialWalError wal_error | RestoreFailed restore_error
  | InvalidConfig ledger_error | RecoveryFailed replay_error

definition Ready :: "ledger \<Rightarrow> bool" where
  "Ready l = (if \<not> ld_recovered l then False else if ld_checkpointOn l \<and> \<not> ld_snapshotCycleOK l then False else True)"

subsection \<open>Taking snapshots\<close>

text \<open>\<open>ks\<close> is the order in which Go visits the map of open holds, \<open>nanos\<close> the time that names the
  temporary file.\<close>

definition TriggerSnapshot :: "ident list \<Rightarrow> nat \<Rightarrow> ledger \<Rightarrow> ledger \<times> i64" where
  "TriggerSnapshot ks nanos l =
     (let view = snapshot_view ks (ld_loop l);
          lsn = sv_LSN view
      in if sint lsn \<le> 0 then (l, 0)
         else
           let dir = snapshot_Write (ld_snapshots l) nanos (snapshot_name (nat (sint lsn))) lsn (sv_Accounts view) (sv_Pendings view);
               dir' = CleanupOldSnapshots dir 3
           in (l\<lparr>ld_snapshots := dir', ld_loop := (ld_loop l)\<lparr>el_wal := TruncateBefore (el_wal (ld_loop l)) lsn\<rparr>\<rparr>, lsn))"

text \<open>One cycle of the background checkpointer.\<close>

definition takeSnapshot :: "ident list \<Rightarrow> nat \<Rightarrow> ledger \<Rightarrow> ledger" where
  "takeSnapshot ks nanos l =
     (let (l', lsn) = TriggerSnapshot ks nanos l;
          l'' = (if sint lsn > 0 then l'\<lparr>ld_lastSnapshotLSN := lsn\<rparr> else l')
      in l''\<lparr>ld_snapshotCycleOK := True\<rparr>)"

definition StartCheckpointer :: "ident list \<Rightarrow> nat \<Rightarrow> int \<Rightarrow> ledger \<Rightarrow> ledger" where
  "StartCheckpointer ks nanos interval l =
     (if interval \<le> 0 then l
      else if ld_checkpointOn l then l\<lparr>ld_checkpointOn := True\<rparr>
      else takeSnapshot ks nanos (l\<lparr>ld_checkpointOn := True\<rparr>))"

subsection \<open>Starting a ledger\<close>

definition RecoverFromSnapshot :: "(wal_record \<Rightarrow> int) \<Rightarrow> i64 \<Rightarrow> wal \<Rightarrow> account_manager \<times> idStore \<Rightarrow> wal \<times> (account_manager \<times> idStore) \<times> replay_error option" where
  "RecoverFromSnapshot now fromLSN w ms = RecoverFromLSN w fromLSN (replay_record now) ms"

text \<open>The initial accounts, written when the LSN counter is zero.\<close>

fun initial_records :: "account list \<Rightarrow> start_error + wal_record list" where
  "initial_records [] = Inr []"
| "initial_records (a # as) =
     (case ValidateAccount a of
        Some e \<Rightarrow> Inl (BadInitialAccount (acc_ID a) e)
      | None \<Rightarrow> (case initial_records as of
                  Inl e \<Rightarrow> Inl e
                | Inr rs \<Rightarrow> Inr (\<lparr>rec_LSN = 0, rec_Type = RecordTypeAccount, rec_Payload = EncodeAccountPayload a\<rparr> # rs)))"

definition write_initial :: "account list \<Rightarrow> wal \<Rightarrow> start_error + wal" where
  "write_initial accs w =
     (if wal_currentLSN w = 0 \<and> accs \<noteq> [] then
        (case initial_records accs of
           Inl e \<Rightarrow> Inl e
         | Inr recs \<Rightarrow> (case AppendBatch w recs of (w', Inl e) \<Rightarrow> Inl (InitialWalError e) | (w', Inr _) \<Rightarrow> Inr (Sync w')))
      else Inr w)"

text \<open>The state to recover on: that of the latest snapshot, or an empty one.\<close>

definition load_snapshot :: "directory \<Rightarrow> start_error + account_manager \<times> i64" where
  "load_snapshot dir =
     (let path = fst (Latest dir)
      in if path = '''' then Inr (NewAccountManager, 0)
         else
           (case map_of dir path of
              Some (File data) \<Rightarrow>
                (case snapshot_Read data of
                   Inl _ \<Rightarrow> Inr (NewAccountManager, 0)
                 | Inr (accs, pendings, lsn) \<Rightarrow>
                     (case restored accs pendings of (m, Some e) \<Rightarrow> Inl (RestoreFailed e) | (m, None) \<Rightarrow> Inr (m, lsn)))
            | _ \<Rightarrow> Inr (NewAccountManager, 0)))"

definition NewLedger :: "(wal_record \<Rightarrow> int) \<Rightarrow> ident list \<Rightarrow> nat \<Rightarrow> config \<Rightarrow> directory \<Rightarrow> wal \<Rightarrow> start_error + ledger" where
  "NewLedger now ks nanos cfg0 dir w0 =
     (let cfg = (if RingBufferSize cfg0 = 0 then DefaultConfig else cfg0)
      in case write_initial (InitialAccounts cfg) w0 of
           Inl e \<Rightarrow> Inl e
         | Inr w \<Rightarrow>
             (case load_snapshot dir of
                Inl e \<Rightarrow> Inl e
              | Inr (m, snapshotLSN) \<Rightarrow>
                  (case NewRingBuffer transfer0 (RingBufferSize cfg) of
                     Inl e \<Rightarrow> Inl (InvalidConfig e)
                   | Inr rb \<Rightarrow>
                       (case RecoverFromSnapshot now snapshotLSN w (m, NewIdempotencyStore (IdempotencyMaxSize cfg) (IdempotencyTTL cfg)) of
                          (w1, ms, Some e) \<Rightarrow> Inl (RecoveryFailed e)
                        | (w1, (m', s), None) \<Rightarrow>
                            let w2 = (if sint snapshotLSN > 0 then AdvanceLSNTo w1 snapshotLSN else w1);
                                l = \<lparr>ld_loop = NewEventLoop m' w2, ld_rb = rb, ld_idempKey = s, ld_snapshots = dir,
                                     ld_isFollower = IsFollower cfg, ld_recovered = True, ld_checkpointOn = False,
                                     ld_snapshotCycleOK = False, ld_lastSnapshotLSN = 0\<rparr>
                            in Inr (if SnapshotInterval cfg > 0 then StartCheckpointer ks nanos (SnapshotInterval cfg) l else l)))))"

subsection \<open>Client operations\<close>

datatype client_error = EngineErr engine_error | ContextDone

abbreviation noKey :: bytes where "noKey \<equiv> zeros 32"

text \<open>\<^verbatim>\<open>reserveKey\<close> waits while another request holds the key. Each element of the list is one attempt:
  the store, the time and whether the context is done. \<open>None\<close> means that the loop is still waiting
  after these attempts.\<close>

datatype key_state = Existing transfer | Fresh

fun reserveKey :: "(idStore \<times> int \<times> bool) list \<Rightarrow> bytes \<Rightarrow> (idStore \<times> (client_error + key_state)) option" where
  "reserveKey [] k = None"
| "reserveKey ((s, now, done) # attempts) k =
     (case CheckAndReserve now s k of
        None \<Rightarrow> None
      | Some (s', Found t) \<Rightarrow> Some (s', Inr (Existing t))
      | Some (s', Reserved) \<Rightarrow> Some (s', Inr Fresh)
      | Some (s', Conflict e) \<Rightarrow> if done then Some (s', Inl ContextDone) else reserveKey attempts k)"

text \<open>\<^verbatim>\<open>CreateTransfer\<close> up to the submission: the request is answered at once, or its event is queued.\<close>

datatype 'a started = Answered "client_error + 'a" | Queued

definition begin_transfer :: "(idStore \<times> int \<times> bool) list \<Rightarrow> ledger \<Rightarrow> transfer \<Rightarrow> (ledger \<times> transfer started) option" where
  "begin_transfer attempts l t =
     (if ld_isFollower l then Some (l, Answered (Inl (EngineErr (LedgerErr ErrNotLeader))))
      else if IdempotencyKey t \<noteq> noKey then
        (case reserveKey attempts (IdempotencyKey t) of
           None \<Rightarrow> None
         | Some (s, Inl e) \<Rightarrow> Some (l\<lparr>ld_idempKey := s\<rparr>, Answered (Inl e))
         | Some (s, Inr (Existing x)) \<Rightarrow> Some (l\<lparr>ld_idempKey := s\<rparr>, Answered (Inr x))
         | Some (s, Inr Fresh) \<Rightarrow>
             (case Submit (ld_rb l) t of
                Inl e \<Rightarrow> Some (l\<lparr>ld_idempKey := Rollback s (IdempotencyKey t)\<rparr>, Answered (Inl (EngineErr (LedgerErr e))))
              | Inr rb \<Rightarrow> Some (l\<lparr>ld_idempKey := s, ld_rb := rb\<rparr>, Queued)))
      else
        (case Submit (ld_rb l) t of
           Inl e \<Rightarrow> Some (l, Answered (Inl (EngineErr (LedgerErr e))))
         | Inr rb \<Rightarrow> Some (l\<lparr>ld_rb := rb\<rparr>, Queued)))"

text \<open>\<^verbatim>\<open>CreateTransfer\<close> after the submission: the acknowledgement arrived, or the context was done first
  (\<open>None\<close>). \<open>s\<close> is the store at that time.\<close>

definition end_transfer :: "int \<Rightarrow> idStore \<Rightarrow> transfer \<Rightarrow> transferAck option \<Rightarrow> (idStore \<times> (client_error + transfer)) option" where
  "end_transfer now s t ack =
     (if IdempotencyKey t \<noteq> noKey then
        (case ack of
           None \<Rightarrow> Some (Rollback s (IdempotencyKey t), Inl ContextDone)
         | Some a \<Rightarrow>
             (case ack_Err a of
                Some e \<Rightarrow> Some (Rollback s (IdempotencyKey t), Inl (EngineErr e))
              | None \<Rightarrow> map_option (\<lambda>s'. (s', Inr (ack_Transfer a))) (Commit now s (IdempotencyKey t) (ack_Transfer a))))
      else
        (case ack of
           None \<Rightarrow> Some (s, Inl ContextDone)
         | Some a \<Rightarrow> Some (s, case ack_Err a of Some e \<Rightarrow> Inl (EngineErr e) | None \<Rightarrow> Inr (ack_Transfer a))))"

text \<open>\<^verbatim>\<open>CreateTransfers\<close>. Phase 1 walks over the batch: it answers the items whose key repeats an earlier
  one of the batch or was seen before, and collects the others with their positions. Each item
  with a key comes with the attempts of its \<^verbatim>\<open>reserveKey\<close>, given the store the walk has reached.\<close>

record transferOutcome =
  out_Transfer :: transfer
  out_Err :: "client_error option"

definition outcome0 :: transferOutcome where
  "outcome0 = \<lparr>out_Transfer = transfer0, out_Err = None\<rparr>"

record phase1 =
  p1_store :: idStore
  p1_outcomes :: "transferOutcome list"
  p1_events :: "(nat \<times> transfer) list"
  p1_reserved :: "bytes list"
  p1_seen :: "bytes set"

abbreviation MaxTransferBatchSize :: nat where "MaxTransferBatchSize \<equiv> 8192"
abbreviation MaxAccountBatchSize :: nat where "MaxAccountBatchSize \<equiv> 8192"

fun reserve_items :: "(nat \<Rightarrow> idStore \<Rightarrow> (idStore \<times> int \<times> bool) list) \<Rightarrow> nat \<Rightarrow> transfer list \<Rightarrow> phase1 \<Rightarrow> (phase1 \<times> client_error option) option" where
  "reserve_items attempts i [] p = Some (p, None)"
| "reserve_items attempts i (t # ts) p =
     (let k = IdempotencyKey t
      in if k \<noteq> noKey then
           if k \<in> p1_seen p
           then reserve_items attempts (i + 1) ts
                  (p\<lparr>p1_outcomes := (p1_outcomes p)[i := \<lparr>out_Transfer = transfer0, out_Err = Some (EngineErr (LedgerErr (ErrIdempotencyConflict k)))\<rparr>]\<rparr>)
           else
             (case reserveKey (attempts i (p1_store p)) k of
                None \<Rightarrow> None
              | Some (s, Inl e) \<Rightarrow> Some (p\<lparr>p1_store := foldl Rollback s (p1_reserved p)\<rparr>, Some e)
              | Some (s, Inr (Existing x)) \<Rightarrow>
                  reserve_items attempts (i + 1) ts
                    (p\<lparr>p1_store := s, p1_outcomes := (p1_outcomes p)[i := \<lparr>out_Transfer = x, out_Err = None\<rparr>]\<rparr>)
              | Some (s, Inr Fresh) \<Rightarrow>
                  reserve_items attempts (i + 1) ts
                    (p\<lparr>p1_store := s, p1_seen := insert k (p1_seen p), p1_reserved := p1_reserved p @ [k],
                        p1_events := p1_events p @ [(i, t)]\<rparr>))
         else reserve_items attempts (i + 1) ts (p\<lparr>p1_events := p1_events p @ [(i, t)]\<rparr>))"

definition begin_transfers :: "(nat \<Rightarrow> idStore \<Rightarrow> (idStore \<times> int \<times> bool) list) \<Rightarrow> ledger \<Rightarrow> transfer list \<Rightarrow>
    (client_error + phase1 \<times> client_error option) option" where
  "begin_transfers attempts l batch =
     (let p0 = \<lparr>p1_store = ld_idempKey l, p1_outcomes = replicate (length batch) outcome0, p1_events = [], p1_reserved = [], p1_seen = {}\<rparr>
      in if ld_isFollower l then Some (Inl (EngineErr (LedgerErr ErrNotLeader)))
         else if batch = [] then Some (Inr (p0, None))
         else if length batch > MaxTransferBatchSize
         then Some (Inl (EngineErr (LedgerErr (ErrBatchTooLarge (int (length batch)) (int MaxTransferBatchSize)))))
         else map_option Inr (reserve_items attempts 0 batch p0))"

text \<open>\<^verbatim>\<open>materialize\<close>: the acknowledgements of the events in order, with their positions; each commit
  reads the clock.\<close>

fun materialize :: "(nat \<Rightarrow> int) \<Rightarrow> (nat \<times> transferAck) list \<Rightarrow> idStore \<Rightarrow> transferOutcome list \<Rightarrow> (idStore \<times> transferOutcome list) option" where
  "materialize now [] s outs = Some (s, outs)"
| "materialize now ((pos, ack) # acks) s outs =
     (let outs' = outs[pos := \<lparr>out_Transfer = ack_Transfer ack, out_Err = map_option EngineErr (ack_Err ack)\<rparr>];
          k = IdempotencyKey (ack_Transfer ack)
      in if k = noKey then materialize now acks s outs'
         else
           (case ack_Err ack of
              Some _ \<Rightarrow> materialize now acks (Rollback s k) outs'
            | None \<Rightarrow> (case Commit (now pos) s k (ack_Transfer ack) of
                        None \<Rightarrow> None
                      | Some s' \<Rightarrow> materialize now acks s' outs')))"

text \<open>Shutdown while the events from index \<open>j\<close> on are not yet queued: they are completed here and
  their keys rolled back.\<close>

definition close_tail :: "(nat \<times> transfer) list \<Rightarrow> nat \<Rightarrow> idStore \<Rightarrow> idStore \<times> transferAck list" where
  "close_tail events j s =
     (foldl (\<lambda>s (pos, t). if IdempotencyKey t \<noteq> noKey then Rollback s (IdempotencyKey t) else s) s (drop j events),
      map (\<lambda>_. \<lparr>ack_Transfer = transfer0, ack_Err = Some (LedgerErr ErrLedgerClosed)\<rparr>) (drop j events))"

subsection \<open>Accounts and queries\<close>

record accountOutcome =
  aout_Account :: account
  aout_Err :: "engine_error option"

text \<open>\<^verbatim>\<open>CreateAccounts\<close> with the event loop's service of the request.\<close>

definition CreateAccounts :: "ledger \<Rightarrow> account list \<Rightarrow> ledger \<times> (engine_error + accountOutcome list)" where
  "CreateAccounts l accs =
     (if ld_isFollower l then (l, Inl (LedgerErr ErrNotLeader))
      else if accs = [] then (l, Inr [])
      else if length accs > MaxAccountBatchSize
      then (l, Inl (LedgerErr (ErrBatchTooLarge (int (length accs)) (int MaxAccountBatchSize))))
      else
        let (loop', results) = processAccountCreate (ld_loop l) accs
        in (l\<lparr>ld_loop := loop'\<rparr>, Inr (map2 (\<lambda>a r. \<lparr>aout_Account = a, aout_Err = r\<rparr>) accs results)))"

definition CreateAccount :: "ledger \<Rightarrow> account \<Rightarrow> ledger \<times> (engine_error + account)" where
  "CreateAccount l a =
     (if ld_isFollower l then (l, Inl (LedgerErr ErrNotLeader))
      else
        (case CreateAccounts l [a] of
           (l', Inl e) \<Rightarrow> (l', Inl e)
         | (l', Inr outs) \<Rightarrow> (l', case aout_Err (outs ! 0) of Some e \<Rightarrow> Inl e | None \<Rightarrow> Inr (aout_Account (outs ! 0)))))"

definition GetAccount :: "ledger \<Rightarrow> ident \<Rightarrow> account \<times> ledger_error option" where
  "GetAccount l i = handleRead (ld_loop l) i"

definition GetBalance :: "ledger \<Rightarrow> ident \<Rightarrow> ledger_error + uint128" where
  "GetBalance l i =
     (case GetAccount l i of
        (_, Some e) \<Rightarrow> Inl e
      | (acc, None) \<Rightarrow> Balance acc)"

definition ledger_GetTransfer :: "ledger \<Rightarrow> ident \<Rightarrow> ledger_error + transfer" where
  "ledger_GetTransfer l i =
     (case handleReadTransfer (ld_loop l) i of None \<Rightarrow> Inl (ErrTransferNotFound i) | Some t \<Rightarrow> Inr t)"

definition GetAccountTransfers :: "ledger \<Rightarrow> ident \<Rightarrow> ident \<Rightarrow> int \<Rightarrow> transfer list" where
  "GetAccountTransfers l accountID afterID limit = handleReadAccountTransfers (ld_loop l) accountID afterID limit"

subsection \<open>Properties\<close>

text \<open>C2: durability of the ledger without snapshots. Let an empty ledger serve any sequence of transfer batches and account
  creations, with the checkpointer off, and then crash, losing any part of what was not synced. Starting a new ledger
  on the log files that are left, with an empty snapshot directory, the checkpointer off (\<^verbatim>\<open>SnapshotInterval\<close> at most 0), no initial
  accounts and a valid ring size, succeeds; it is ready to serve, and its accounts, holds, expiry heap and transfer history are those
  of the live ledger, up to the holds that expired since the last logged batch: setting the clock
  and closing expired holds gives literally the live state. The transfers of a batch must have
  fields of the right widths, holds must not have a deadline that wraps around, and the clock,
  the log and its sequence numbers must not overflow.\<close>

theorem restart_restores_ledger:
  assumes "runs l bs" and "syncedOffset (wal_current (el_wal l)) \<le> n" and "InitialAccounts cfg = []" and "SnapshotInterval cfg \<le> 0"
    and "NewRingBuffer transfer0 (RingBufferSize cfg) = Inr rb"
  shows "\<exists>l'. NewLedger now ks nanos cfg [] (OpenWAL (crash (el_wal l) n) mx False) = Inr l' \<and> Ready l' \<and>
    el_accounts l = CloseExpired (SetClock (el_accounts (ld_loop l')) (clock (el_accounts l)))"
proof -
  obtain w' m s where rec: "Recover (OpenWAL (crash (el_wal l) n) mx False) (replay_record now)
      (NewAccountManager, NewIdempotencyStore (IdempotencyMaxSize cfg) (IdempotencyTTL cfg)) = (w', (m, s), None)"
    and m: "el_accounts l = CloseExpired (SetClock m (clock (el_accounts l)))" using restart_recovers [OF assms(1,2)] by blast
  have "RingBufferSize cfg \<noteq> 0" using assms(5) by (auto simp: NewRingBuffer_def)
  with rec assms(3-5) have "\<exists>l'. NewLedger now ks nanos cfg [] (OpenWAL (crash (el_wal l) n) mx False) = Inr l' \<and> Ready l' \<and> el_accounts (ld_loop l') = m"
    by (simp add: NewLedger_def write_initial_def load_snapshot_def Latest_def RecoverFromSnapshot_def Recover_def Ready_def NewEventLoop_def Let_def)
  with m show ?thesis by auto
qed

theorem restart_restores_ledger_witness:
  "\<exists>l'. NewLedger (\<lambda>_. 5) [] 0 DefaultConfig [] (OpenWAL (crash (el_wal served_loop) (syncedOffset (wal_current (el_wal served_loop)))) 1000 False) = Inr l' \<and>
     Ready l' \<and> sample_manager = CloseExpired (SetClock (el_accounts (ld_loop l')) 0)"
proof -
  obtain rb where "NewRingBuffer transfer0 (RingBufferSize DefaultConfig) = Inr rb" by (simp add: NewRingBuffer_def DefaultConfig_def)
  moreover have "InitialAccounts DefaultConfig = []" "SnapshotInterval DefaultConfig \<le> 0" by (simp_all add: DefaultConfig_def)
  moreover have "el_accounts served_loop = sample_manager" "clock sample_manager = 0"
    by (simp_all add: served_state sample_manager_def Create_def NewAccountManager_def sample_account_def ident_of_def)
  ultimately show ?thesis using restart_restores_ledger [OF served_runs order_refl, of DefaultConfig rb "\<lambda>_. 5" "[]" 0 1000] by simp
qed

text \<open>C28: taking a snapshot and starting from it. The snapshot the ledger writes is the one a new ledger
  loads, with the LSN at which it was taken, and it brings back the whole book: every account
  with its balances and every open hold, with a well-formed expiry heap. The history of transfers
  is not part of a snapshot and is empty afterwards.\<close>

theorem snapshot_reload:
  assumes "am_inv m" and "el_accounts (ld_loop l) = m" and "set ks = dom (pending m)" and "distinct ks"
    and "snapshot_wf (Snapshot m) (PendingTransfers ks m)" and "0 < sint (el_currentLSN (ld_loop l))"
    and "distinct (map fst (ld_snapshots l))"
    and "\<forall>(name, e)\<in>set (ld_snapshots l). \<forall>k. snapshot_lsn name = Some k \<longrightarrow> k < sint (el_currentLSN (ld_loop l))"
  shows "\<exists>m'. load_snapshot (ld_snapshots (fst (TriggerSnapshot ks nanos l))) = Inr (m', el_currentLSN (ld_loop l)) \<and>
    am_inv m' \<and> book_of m' = book_of m \<and> transfers m' = Map.empty"
proof -
  let ?lsn = "el_currentLSN (ld_loop l)"
  define n where "n = nat (sint ?lsn)"
  have n: "int n = sint ?lsn" using assms(6) by (simp add: n_def)
  have "(of_nat n :: i64) = of_int (int n)" by simp
  then have w: "(of_nat n :: i64) = ?lsn" by (simp only: n of_int_sint scast_id)
  have bound: "n < 9223372036854775808" using sint_less [of ?lsn] n by simp
  let ?dir = "CleanupOldSnapshots (snapshot_Write (ld_snapshots l) nanos (snapshot_name n) (of_nat n) (Snapshot m) (PendingTransfers ks m)) 3"
  have dir: "ld_snapshots (fst (TriggerSnapshot ks nanos l)) = ?dir"
    using assms(2,6) w by (simp add: TriggerSnapshot_def snapshot_view_def n_def Let_def)
  note lw = latest_written [OF assms(5) bound assms(7), of nanos 3]
  obtain m' where m': "restored (Snapshot m) (PendingTransfers ks m) = (m', None)" "am_inv m'" "book_of m' = book_of m" "transfers m' = Map.empty"
    using restored_book [OF assms(1,3,4)] by blast
  have "load_snapshot ?dir = Inr (m', ?lsn)"
    using lw assms(8) m'(1) snapshot_Read_bytes [OF assms(5), of "of_nat n"] w
    by (simp add: load_snapshot_def n) (simp add: snapshot_name_def)
  with dir m' show ?thesis by auto
qed

definition sample_ledger :: ledger where
  "sample_ledger = \<lparr>ld_loop = (NewEventLoop sample_manager (OpenWAL [] 1000 False))\<lparr>el_currentLSN := 3\<rparr>, ld_rb = projr (NewRingBuffer transfer0 4),
     ld_idempKey = NewIdempotencyStore 10 50, ld_snapshots = [], ld_isFollower = False, ld_recovered = True, ld_checkpointOn = False,
     ld_snapshotCycleOK = False, ld_lastSnapshotLSN = 0\<rparr>"

theorem snapshot_reload_witness:
  "\<exists>m'. load_snapshot (ld_snapshots (fst (TriggerSnapshot [] 0 sample_ledger))) = Inr (m', 3) \<and> am_inv m' \<and> book_of m' = book_of sample_manager"
proof -
  have p: "pending sample_manager = Map.empty" and a: "accounts sample_manager = [sample_account 1 100, sample_account 2 0]"
    by (simp_all add: sample_manager_def Create_def NewAccountManager_def sample_account_def ident_of_def)
  have "snapshot_wf (Snapshot sample_manager) (PendingTransfers [] sample_manager)"
    by (simp add: snapshot_wf_def Snapshot_def PendingTransfers_def a) (simp add: wf_account_def sample_account_def ident_of_def account0_def)
  with snapshot_reload [OF am_inv_sample, of sample_ledger "[]" 0] p show ?thesis by (auto simp: sample_ledger_def NewEventLoop_def)
qed

text \<open>What a snapshot does not keep: a transfer that was applied is refused when it is sent again, but
  accepted and applied a second time by the ledger restored from a snapshot.\<close>

theorem restored_ledger_forgets_transfers:
  "let m = fst (ApplyTransferState sample_manager (sample_transfer 7 1 2 30 0));
       m' = fst (restored (Snapshot m) (PendingTransfers [] m))
   in ValidateBatch [sample_transfer 7 1 2 30 0] m = [Some (ErrDuplicateTransferID (ident_of 7))] \<and>
      ValidateBatch [sample_transfer 7 1 2 30 0] m' = [None]"
  by code_simp

text \<open>A request is executed at most once. When a transfer with an idempotency key was acknowledged, every
  later request with the same key is answered with the transfer that was applied, without
  queueing anything, until the time to live has passed.\<close>

theorem retry_is_answered:
  assumes "idstore_ok s" and "IdempotencyKey t \<noteq> noKey" and "int (open_others now s (IdempotencyKey t)) < is_maxSize s"
    and "now' < now + is_ttl s" and "\<not> ld_isFollower l" and "IdempotencyKey t' = IdempotencyKey t" and "ack_Err ack = None"
  shows "\<exists>s' s''. end_transfer now s t (Some ack) = Some (s', Inr (ack_Transfer ack)) \<and>
    begin_transfer [(s', now', dn)] l t' = Some (l\<lparr>ld_idempKey := s''\<rparr>, Answered (Inr (ack_Transfer ack)))"
proof -
  obtain s' s'' where "Commit now s (IdempotencyKey t) (ack_Transfer ack) = Some s'" "CheckAndReserve now' s' (IdempotencyKey t) = Some (s'', Found (ack_Transfer ack))"
    using idem.retries [OF assms(1,3,4)] by blast
  with assms show ?thesis by (auto simp: end_transfer_def begin_transfer_def)
qed

theorem retry_is_answered_witness:
  "\<exists>s' s''. end_transfer 5 (NewIdempotencyStore 10 50) (transfer0\<lparr>IdempotencyKey := replicate 32 1\<rparr>) (Some \<lparr>ack_Transfer = transfer0\<lparr>Timestamp := 4\<rparr>, ack_Err = None\<rparr>) =
      Some (s', Inr (transfer0\<lparr>Timestamp := 4\<rparr>)) \<and>
    begin_transfer [(s', 54, False)] sample_ledger (transfer0\<lparr>IdempotencyKey := replicate 32 1\<rparr>) =
      Some (sample_ledger\<lparr>ld_idempKey := s''\<rparr>, Answered (Inr (transfer0\<lparr>Timestamp := 4\<rparr>)))"
proof -
  have "int (open_others 5 (NewIdempotencyStore 10 50) (replicate 32 1)) < is_maxSize (NewIdempotencyStore 10 50)" "54 < 5 + is_ttl (NewIdempotencyStore 10 50)"
    by (simp_all add: new_store_empty) (simp_all add: NewIdempotencyStore_def)
  moreover have "replicate 32 1 \<noteq> noKey" "\<not> ld_isFollower sample_ledger" by (simp_all add: sample_ledger_def)
  ultimately show ?thesis
    using retry_is_answered [OF new_store_ok, of "transfer0\<lparr>IdempotencyKey := replicate 32 1\<rparr>" 5 54 sample_ledger "transfer0\<lparr>IdempotencyKey := replicate 32 1\<rparr>"
        "\<lparr>ack_Transfer = transfer0\<lparr>Timestamp := 4\<rparr>, ack_Err = None\<rparr>" False]
    by simp
qed

text \<open>A failed write to the log leaves the keys of a batch reserved. The acknowledgements then carry an
  empty transfer, so \<^verbatim>\<open>materialize\<close> finds no key to roll back, and a retry of the batch is refused
  as a conflict; the same failure of a single transfer releases its key.\<close>

theorem wal_error_leaks_keys:
  assumes "idstore_ok s" and "CheckAndReserve now s k = Some (s', Reserved)" and "\<forall>a\<in>set acks. snd a = \<lparr>ack_Transfer = transfer0, ack_Err = Some (WalErr e)\<rparr>"
  shows "(\<exists>outs'. materialize nows acks s' outs = Some (s', outs')) \<and>
    (\<exists>s''. CheckAndReserve now' s' k = Some (s'', Conflict (ErrIdempotencyConflict k))) \<and>
    (k \<noteq> noKey \<longrightarrow> end_transfer now s' (transfer0\<lparr>IdempotencyKey := k\<rparr>) (Some \<lparr>ack_Transfer = transfer0, ack_Err = Some (WalErr e)\<rparr>) =
       Some (Rollback s' k, Inl (EngineErr (WalErr e))))"
proof -
  have "\<exists>outs'. materialize nows acks s' outs = Some (s', outs')" for outs
    using assms(3) by (induction acks arbitrary: outs) (auto simp: transfer0_def Let_def)
  moreover have "end_transfer now s' (transfer0\<lparr>IdempotencyKey := k\<rparr>) (Some \<lparr>ack_Transfer = transfer0, ack_Err = Some (WalErr e)\<rparr>) =
       Some (Rollback s' k, Inl (EngineErr (WalErr e)))" if "k \<noteq> noKey" using that by (simp add: end_transfer_def)
  ultimately show ?thesis using idem.excludes [OF assms(1,2)] by blast
qed

theorem wal_error_leaks_keys_witness:
  "\<exists>s' s''. CheckAndReserve 5 (NewIdempotencyStore 10 50) [1] = Some (s', Reserved) \<and>
     materialize (\<lambda>_. 6) [(0, \<lparr>ack_Transfer = transfer0, ack_Err = Some (WalErr ErrSegmentFull)\<rparr>)] s' [outcome0] =
       Some (s', [\<lparr>out_Transfer = transfer0, out_Err = Some (EngineErr (WalErr ErrSegmentFull))\<rparr>]) \<and>
     CheckAndReserve 7 s' [1] = Some (s'', Conflict (ErrIdempotencyConflict [1]))"
proof -
  obtain s' where r: "CheckAndReserve 5 (NewIdempotencyStore 10 50) [1] = Some (s', Reserved)"
    using idem.reserve_answers [OF new_store_ok, of 5 "[1]"] by (auto simp: answer_def lookup_def NewIdempotencyStore_def)
  have "materialize (\<lambda>_. 6) [(0, \<lparr>ack_Transfer = transfer0, ack_Err = Some (WalErr ErrSegmentFull)\<rparr>)] s' [outcome0] =
       Some (s', [\<lparr>out_Transfer = transfer0, out_Err = Some (EngineErr (WalErr ErrSegmentFull))\<rparr>])"
    by (simp add: transfer0_def)
  with r wal_error_leaks_keys [OF new_store_ok r, of "[(0, \<lparr>ack_Transfer = transfer0, ack_Err = Some (WalErr ErrSegmentFull)\<rparr>)]" ErrSegmentFull "\<lambda>_. 6" "[outcome0]" 7]
  show ?thesis by auto
qed

end
