(* ===== verification/Replication.thy ===== *)
theory Replication
  imports Wal_Stream Ledger_Engine
begin

text \<open>
  Replication (\<^verbatim>\<open>internal/replication\<close>): leader terms, the frames on the wire, the primary's side
  of a connection, the follower and its promotion.

  A connection is the sequence of bytes the primary sends before it breaks; a cancelled context
  ends the loop like a connection that ends there. The follower's directory holds its log and
  two term files. TLS, sockets, sleeping and metrics are not modelled.

  The lemmas show that a frame is read back as it was written, that a follower refuses frames below
  the highest term it has accepted, also after a restart, and that a follower which receives
  what a primary streams holds the same log and the state that recovery of the primary would
  reach.
\<close>

subsection \<open>Terms\<close>

record term_files =
  primaryTermFile :: "bytes option"
  followerTermFile :: "bytes option"

definition loadTermUint :: "bytes option \<Rightarrow> u64" where
  "loadTermUint file = (case file of Some data \<Rightarrow> (if length data \<noteq> 8 then 0 else be_word data) | None \<Rightarrow> 0)"

definition storeTermUint :: "u64 \<Rightarrow> bytes option" where
  "storeTermUint term = Some (be_bytes 8 term)"

definition PrimaryTerm :: "term_files \<Rightarrow> term_files \<times> u64" where
  "PrimaryTerm d =
     (let term = loadTermUint (primaryTermFile d)
      in if term > 0 then (d, term) else (d\<lparr>primaryTermFile := storeTermUint 1\<rparr>, 1))"

definition BumpTerm :: "term_files \<Rightarrow> term_files \<times> u64" where
  "BumpTerm d = (let term = loadTermUint (primaryTermFile d) + 1 in (d\<lparr>primaryTermFile := storeTermUint term\<rparr>, term))"

subsection \<open>Frames\<close>

abbreviation frameHeaderSize :: nat where "frameHeaderSize \<equiv> 21"

definition writeFrame :: "u64 \<Rightarrow> wal_record \<Rightarrow> bytes" where
  "writeFrame term r =
     (let buf = be_bytes 8 term @ be_bytes 8 (rec_LSN r) @ [rec_Type r] @ be_bytes 4 (of_nat (length (rec_Payload r)) :: u32) @ rec_Payload r
      in buf @ be_bytes 4 (ChecksumIEEE buf))"

datatype repl_error =
    ConnError \<comment> \<open>dialling, writing or reading failed\<close>
  | CRCMismatch u64
  | StalePrimary
  | FlushFailed wal_error
  | ApplyFailed replay_error
  | FramePanic \<comment> \<open>run-time panic of a slice expression\<close>

text \<open>One turn of the read loop. Lengths are 32-bit: \<^verbatim>\<open>payloadLen+4\<close> and
  \<^verbatim>\<open>frameHeaderSize+payloadLen\<close> wrap around.\<close>

definition recv_frame :: "bytes \<Rightarrow> repl_error + (u64 \<times> wal_record) \<times> bytes" where
  "recv_frame conn =
     (if length conn < frameHeaderSize then Inl ConnError
      else
        let hdr = take frameHeaderSize conn; rest = drop frameHeaderSize conn;
            frameTerm = be_word (slice 0 8 hdr) :: u64;
            lsn = be_word (slice 8 16 hdr) :: u64;
            recType = hdr ! 16;
            payloadLen = be_word (slice 17 21 hdr) :: u32;
            bodyLen = unat (payloadLen + 4)
        in if length rest < bodyLen then Inl ConnError
           else
             let body = take bodyLen rest
             in if bodyLen < unat payloadLen then Inl FramePanic
                else
                  let payload = take (unat payloadLen) body;
                      expectedCRC = be_word (drop (unat payloadLen) body) :: u32
                  in if unat (of_nat frameHeaderSize + payloadLen) < frameHeaderSize then Inl FramePanic
                     else if ChecksumIEEE (hdr @ payload) \<noteq> expectedCRC then Inl (CRCMismatch lsn)
                     else Inr ((frameTerm, \<lparr>rec_LSN = lsn, rec_Type = recType, rec_Payload = payload\<rparr>), drop bodyLen rest))"

subsection \<open>The primary\<close>

text \<open>One round of \<^verbatim>\<open>handleConn\<close>: everything the reader delivers, then the announcement of the head
  once it has caught up.\<close>

definition head_record :: "wal \<Rightarrow> wal_record" where
  "head_record w = \<lparr>rec_LSN = 0, rec_Type = RecordTypeHead, rec_Payload = be_bytes 8 (wal_currentLSN w)\<rparr>"

definition serve_round :: "u64 \<Rightarrow> wal \<Rightarrow> streamReader \<Rightarrow> streamReader \<times> bytes \<times> stream_error option" where
  "serve_round term w sr =
     (case poll w sr of
        (sr', rs, None) \<Rightarrow> (sr', concat (map (writeFrame term) (rs @ [head_record w])), None)
      | (sr', rs, Some e) \<Rightarrow> (sr', concat (map (writeFrame term) rs), Some e))"

text \<open>The handshake: resume LSN in, leader term out, then the first round.\<close>

definition handleConn :: "u64 \<Rightarrow> wal \<Rightarrow> bytes \<Rightarrow> streamReader option \<times> bytes" where
  "handleConn term w request =
     (if length request < 8 then (None, [])
      else
        let startLSN = be_word (take 8 request) :: i64;
            (sr, sent, err) = serve_round term w (NewStreamReader startLSN)
        in (if err = None then Some sr else None, be_bytes 8 term @ sent))"

subsection \<open>The follower\<close>

record follower =
  fo_accounts :: account_manager
  fo_wal :: wal
  fo_lastLSN :: i64
  fo_lastTerm :: u64
  fo_terms :: term_files
  fo_primaryHead :: i64
  fo_connected :: bool
  fo_failures :: i64
  fo_BackoffBase :: i64
  fo_BackoffMax :: i64
  fo_BreakerLimit :: i64
  fo_pending :: "wal_record list"

abbreviation followerBackoffBase :: i64 where "followerBackoffBase \<equiv> 100000000"
abbreviation followerBackoffMax :: i64 where "followerBackoffMax \<equiv> 5000000000"
abbreviation followerBreakerLimit :: i64 where "followerBreakerLimit \<equiv> 8"
abbreviation followerFlushThreshold :: nat where "followerFlushThreshold \<equiv> 4096"

definition NewFollower :: "term_files \<Rightarrow> wal \<Rightarrow> account list \<Rightarrow> follower" where
  "NewFollower d w initialAccounts =
     \<lparr>fo_accounts = foldl (\<lambda>m a. fst (Create m a)) NewAccountManager initialAccounts, fo_wal = w, fo_lastLSN = 0,
      fo_lastTerm = loadTermUint (followerTermFile d), fo_terms = d, fo_primaryHead = 0, fo_connected = False, fo_failures = 0,
      fo_BackoffBase = 0, fo_BackoffMax = 0, fo_BreakerLimit = 0, fo_pending = []\<rparr>"

definition backoffBase :: "follower \<Rightarrow> i64" where
  "backoffBase f = (if sint (fo_BackoffBase f) > 0 then fo_BackoffBase f else followerBackoffBase)"

definition backoffMax :: "follower \<Rightarrow> i64" where
  "backoffMax f = (if sint (fo_BackoffMax f) > 0 then fo_BackoffMax f else followerBackoffMax)"

definition breakerLimit :: "follower \<Rightarrow> i64" where
  "breakerLimit f = (if sint (fo_BreakerLimit f) > 0 then fo_BreakerLimit f else followerBreakerLimit)"

definition min64 :: "i64 \<Rightarrow> i64 \<Rightarrow> i64" where
  "min64 a b = (if sint a < sint b then a else b)"

definition LastLSN :: "follower \<Rightarrow> i64" where
  "LastLSN f = fo_lastLSN f"

definition Lag :: "follower \<Rightarrow> i64" where
  "Lag f = fo_primaryHead f - LastLSN f"

definition Connected :: "follower \<Rightarrow> bool" where
  "Connected f = fo_connected f"

definition follower_GetAccount :: "follower \<Rightarrow> ident \<Rightarrow> ledger_error + account" where
  "follower_GetAccount f i = (case Get (fo_accounts f) i of Inl e \<Rightarrow> Inl e | Inr k \<Rightarrow> Inr (accounts (fo_accounts f) ! k))"

definition follower_Accounts :: "follower \<Rightarrow> account list" where
  "follower_Accounts f = Snapshot (fo_accounts f)"

definition applyRecord :: "(account_manager, replay_error) handler" where
  "applyRecord m r =
     (if rec_Type r = RecordTypeAccount then
        (case DecodeAccountPayload (rec_Payload r) of
           Inl e \<Rightarrow> (m, Some (BadPayload e))
         | Inr acc \<Rightarrow>
             (case Get m (acc_ID acc) of
                Inr _ \<Rightarrow> (m, None)
              | Inl _ \<Rightarrow> (let (m', e) = Create m acc in (m', map_option Refused e))))
      else if rec_Type r = RecordTypeTransfer then
        (case DecodeTransferPayload (rec_Payload r) of
           Inl e \<Rightarrow> (m, Some (BadPayload e))
         | Inr t \<Rightarrow>
             let m1 = (if sint (Timestamp t) > sint (clock m) then SetClock m (Timestamp t) else m);
                 m2 = CloseExpired (SetClock m1 (clock m1));
                 (m3, e) = ApplyTransferState m2 t
             in (m3, map_option Refused e))
      else (m, None))"

text \<open>The local replay keeps the largest LSN of a data record beside the accounts.\<close>

definition local_handler :: "(account_manager \<times> i64, replay_error) handler" where
  "local_handler s r =
     (case s of (m, maxDataLSN) \<Rightarrow>
        if rec_Type r = RecordTypeBatchCommit \<or> rec_Type r = RecordTypeHead then (s, None)
        else
          let maxDataLSN' = (if sint (rec_LSN r) > sint maxDataLSN then rec_LSN r else maxDataLSN);
              (m', e) = applyRecord m r
          in ((m', maxDataLSN'), e))"

definition recoverLocalState :: "follower \<Rightarrow> follower \<times> replay_error option" where
  "recoverLocalState f =
     (case Recover (fo_wal f) local_handler (fo_accounts f, 0) of
        (w, (m, _), Some e) \<Rightarrow> (f\<lparr>fo_wal := w, fo_accounts := m\<rparr>, Some e)
      | (w, (m, maxDataLSN), None) \<Rightarrow>
          let applied = (if sint maxDataLSN > 0 then maxDataLSN + 1 else maxDataLSN)
          in (f\<lparr>fo_wal := w, fo_accounts := m, fo_lastLSN := applied\<rparr>, None))"

definition fullResync :: "follower \<Rightarrow> follower" where
  "fullResync f = f\<lparr>fo_accounts := NewAccountManager, fo_lastLSN := 0, fo_pending := [], fo_wal := Reset (fo_wal f)\<rparr>"

definition fo_flush :: "follower \<Rightarrow> follower \<times> repl_error option" where
  "fo_flush f =
     (if fo_pending f = [] then (f, None)
      else
        let batch = fo_pending f; f0 = f\<lparr>fo_pending := []\<rparr>
        in (case AppendBatch (fo_wal f0) batch of
              (w, Inl e) \<Rightarrow> (f0\<lparr>fo_wal := w\<rparr>, Some (FlushFailed e))
            | (w, Inr _) \<Rightarrow>
                let (m, err) = run_handler applyRecord (fo_accounts f0) batch
                in (f0\<lparr>fo_wal := Sync w, fo_accounts := m\<rparr>, map_option ApplyFailed err)))"

definition handle_frame :: "follower \<Rightarrow> u64 \<Rightarrow> wal_record \<Rightarrow> follower \<times> repl_error option" where
  "handle_frame f frameTerm r =
     (let lsn = rec_LSN r
      in if frameTerm < fo_lastTerm f then (f, Some StalePrimary)
         else if rec_Type r = RecordTypeHead then
           (if length (rec_Payload r) \<ge> 8 then (f\<lparr>fo_primaryHead := be_word (take 8 (rec_Payload r))\<rparr>, None) else (f, None))
         else if rec_Type r = RecordTypeBatchCommit then
           (case fo_flush f of
              (f', Some e) \<Rightarrow> (f', Some e)
            | (f', None) \<Rightarrow> ((if sint lsn > sint (fo_lastLSN f') then f'\<lparr>fo_lastLSN := lsn\<rparr> else f'), None))
         else if sint lsn \<le> sint (fo_lastLSN f) then (f, None)
         else
           let f1 = f\<lparr>fo_pending := fo_pending f @ [r]\<rparr>
           in if length (fo_pending f1) \<ge> followerFlushThreshold then fo_flush f1 else (f1, None))"

lemma recv_frame_shorter: "recv_frame conn = Inr (x, rest) \<Longrightarrow> length rest < length conn"
  by (auto simp: recv_frame_def Let_def split: if_splits)

function receive :: "follower \<Rightarrow> bytes \<Rightarrow> follower \<times> repl_error" where
  "receive f conn =
     (case recv_frame conn of
        Inl e \<Rightarrow> (f, e)
      | Inr ((frameTerm, r), rest) \<Rightarrow>
          (case handle_frame f frameTerm r of
             (f', Some e) \<Rightarrow> (f', e)
           | (f', None) \<Rightarrow> receive f' rest))"
  by pat_completeness auto
termination
  by (relation "measure (\<lambda>(f, conn). length conn)") (auto dest: recv_frame_shorter)

declare receive.simps [simp del]

definition handshake :: "follower \<Rightarrow> bytes" where
  "handshake f = be_bytes 8 (fo_lastLSN f + 1)"

text \<open>\<open>None\<close>: no connection, or the handshake cannot be sent.\<close>

definition syncLoop :: "bytes option \<Rightarrow> follower \<Rightarrow> follower \<times> repl_error" where
  "syncLoop conn f =
     (let f0 = f\<lparr>fo_pending := []\<rparr>
      in case conn of
           None \<Rightarrow> (f0, ConnError)
         | Some received \<Rightarrow>
             if length received < 8 then (f0, ConnError)
             else
               let term = be_word (take 8 received) :: u64
               in if fo_lastTerm f0 \<noteq> 0 \<and> term < fo_lastTerm f0 then (f0, StalePrimary)
                  else
                    let f1 = (if term > fo_lastTerm f0
                              then f0\<lparr>fo_lastTerm := term, fo_terms := (fo_terms f0)\<lparr>followerTermFile := storeTermUint term\<rparr>\<rparr>
                              else f0);
                        f2 = f1\<lparr>fo_failures := 0, fo_connected := True\<rparr>;
                        (f3, e) = receive f2 (drop 8 received)
                    in (f3\<lparr>fo_pending := []\<rparr>, e))"

text \<open>The loop of \<^verbatim>\<open>Start\<close> after an attempt that ended with an error: the follower and the time it
  sleeps. A shift by a count of 64 or more gives zero; the count is unsigned.\<close>

definition shift_left :: "i64 \<Rightarrow> u64 \<Rightarrow> i64" where
  "shift_left x n = (if unat n < 64 then push_bit (unat n) x else 0)"

definition after_error :: "follower \<Rightarrow> repl_error \<Rightarrow> follower \<times> i64" where
  "after_error f e =
     (if e = StalePrimary then (f, 500000000)
      else
        let f1 = f\<lparr>fo_failures := fo_failures f + 1\<rparr>;
            f2 = (if sint (fo_failures f1) \<ge> sint (breakerLimit f1) then (fullResync f1)\<lparr>fo_failures := 0\<rparr> else f1);
            backoff = shift_left (backoffBase f2) (min64 (fo_failures f2 - 1) 6)
        in (f2, if sint backoff > sint (backoffMax f2) then backoffMax f2 else backoff))"

definition PromoteToPrimary :: "(wal_record \<Rightarrow> int) \<Rightarrow> ident list \<Rightarrow> nat \<Rightarrow> config \<Rightarrow> directory \<Rightarrow> follower \<Rightarrow> term_files \<times> (start_error + ledger)" where
  "PromoteToPrimary now ks nanos cfg dir f =
     (let (d, term) = BumpTerm (fo_terms f)
      in (d, NewLedger now ks nanos (cfg\<lparr>InitialAccounts := []\<rparr>) dir (fo_wal f)))"

subsection \<open>Round trip of frames\<close>

definition sendable :: "wal_record \<Rightarrow> bool" where
  "sendable r \<longleftrightarrow> length (rec_Payload r) + frameHeaderSize < 4294967296"

lemma unat_of_nat_32: "n < 4294967296 \<Longrightarrow> unat (of_nat n :: u32) = n"
  by (simp add: unat_of_nat take_bit_nat_eq_self)

lemma recv_writeFrame:
  assumes "sendable r"
  shows "recv_frame (writeFrame t r @ rest) = Inr ((t, r), rest)"
proof -
  let ?p = "rec_Payload r"
  let ?len = "of_nat (length ?p) :: u32"
  let ?hdr = "be_bytes 8 t @ be_bytes 8 (rec_LSN r) @ [rec_Type r] @ be_bytes 4 ?len"
  let ?crc = "be_bytes 4 (ChecksumIEEE (?hdr @ ?p))"
  have fr: "writeFrame t r @ rest = ?hdr @ (?p @ ?crc) @ rest" by (simp add: writeFrame_def)
  have hdr: "take 21 (writeFrame t r @ rest) = ?hdr" "drop 21 (writeFrame t r @ rest) = (?p @ ?crc) @ rest"
    unfolding fr by simp_all
  have s: "slice 0 8 ?hdr = be_bytes 8 t" "slice 8 16 ?hdr = be_bytes 8 (rec_LSN r)" "?hdr ! 16 = rec_Type r" "slice 17 21 ?hdr = be_bytes 4 ?len"
    by (simp_all add: slice_def nth_append)
  have w: "?len + 4 = of_nat (length ?p + 4)" "of_nat 21 + ?len = of_nat (21 + length ?p)" by simp_all
  have n: "unat ?len = length ?p" "unat (?len + 4) = length ?p + 4" "unat (of_nat 21 + ?len) = 21 + length ?p"
    unfolding w using assms by (simp_all only: unat_of_nat_32 sendable_def)
  have c: "be_word (slice 17 21 ?hdr) = ?len" "be_word (slice 0 8 ?hdr) = t" "be_word (slice 8 16 ?hdr) = rec_LSN r"
    unfolding s by simp_all
  have long: "\<not> length (writeFrame t r @ rest) < 21" unfolding fr by simp
  show ?thesis
    unfolding recv_frame_def Let_def hdr c s(3) n using long by simp
qed

text \<open>What the primary writes for a list of records.\<close>

definition wire :: "u64 \<Rightarrow> wal_record list \<Rightarrow> bytes" where
  "wire t rs = concat (map (writeFrame t) rs)"

lemma wire_simps [simp]: "wire t [] = []" "wire t (r # rs) = writeFrame t r @ wire t rs" "wire t (rs @ qs) = wire t rs @ wire t qs"
  by (simp_all add: wire_def)

lemma receive_end: "receive f [] = (f, ConnError)"
  by (simp add: receive.simps recv_frame_def)

lemma receive_frame:
  assumes "sendable r"
  shows "receive f (writeFrame t r @ rest) = (case handle_frame f t r of (f', Some e) \<Rightarrow> (f', e) | (f', None) \<Rightarrow> receive f' rest)"
  by (subst receive.simps) (simp add: recv_writeFrame [OF assms])

subsection \<open>Applying records\<close>

text \<open>Every operation but the creation of an account keeps the index and the number of accounts.\<close>

definition shape :: "account_manager \<Rightarrow> (ident \<rightharpoonup> nat) \<times> nat" where
  "shape m = (index m, length (accounts m))"

lemma shape_simps [simp]: "shape (SetClock m c) = shape m" "shape (removePending m i) = shape m" "shape (register_hold m t) = shape m"
  "shape (recordTransfer m t) = shape m" "shape (settle_hold m i r x) = shape m"
  by (simp_all add: shape_def SetClock_def removePending_def register_hold_def recordTransfer_def settle_hold_def Let_def split: option.split prod.split)

lemma shape_update: "update_account m i f = (m', e) \<Longrightarrow> shape m' = shape m"
  by (auto simp: shape_def update_account_def split: sum.splits prod.splits)

lemma shape_two_updates: "andThen (update_account m d f) (\<lambda>m1. update_account m1 c g) = (m', e) \<Longrightarrow> shape m' = shape m"
  by (auto simp: andThen_def split: prod.splits option.splits dest!: shape_update)

lemma shape_ApplyTransferState:
  assumes r: "ApplyTransferState m t = (m', None)"
  shows "shape m' = shape m"
proof -
  from r obtain x where chk: "checkTransfer m t = Inr x" by (auto simp: ApplyTransferState_def split: sum.splits)
  note effects = movePending_def releasePending_def reservePending_def applyPendingDebit_def applyPendingCredit_def
    postImmediate_def ApplyDebit_def ApplyCredit_def
  show ?thesis
    using r chk
    by (auto simp: ApplyTransferState_def effects Let_def simp flip: andThen_assoc
        split: if_splits option.splits elim!: andThen_SomeE dest!: shape_two_updates)
qed

lemma shape_close_top: "shape (close_top m) = shape m"
proof -
  have "shape (fst (releasePending m t)) = shape m" for m t
    using shape_two_updates unfolding releasePending_def by (metis prod.collapse)
  moreover have "shape (fst (pop_top m)) = shape m" by (simp add: pop_top_def shape_def Let_def split: prod.split)
  ultimately show ?thesis by (simp add: close_top_def)
qed

lemma shape_CloseExpired: "shape (CloseExpired m) = shape m"
proof (induction "length (expiry m)" arbitrary: m rule: less_induct)
  case less
  show ?case
  proof (cases "due (clock m) m")
    case True
    then have "expiry m \<noteq> []" by (simp add: due_def)
    from less.hyps [OF length_close_top [OF this]] True CloseExpired_step [of m] show ?thesis by (simp add: shape_close_top)
  qed (simp add: CloseExpired_step [of m])
qed

definition indexed :: "account_manager \<Rightarrow> bool" where
  "indexed m \<longleftrightarrow> (\<forall>i k. index m i = Some k \<longrightarrow> k < length (accounts m))"

lemma indexed_shape: "shape m' = shape m \<Longrightarrow> indexed m' = indexed m"
  by (simp add: shape_def indexed_def)

lemma indexed_new: "indexed NewAccountManager"
  by (simp add: indexed_def NewAccountManager_def)

text \<open>The follower applies a record as recovery of a ledger does.\<close>

lemma applyRecord_replays:
  assumes ix: "indexed m" and r: "replay_record now (m, s) r = ((m', s'), None)"
  shows "applyRecord m r = (m', None)" "indexed m'"
proof -
  have acc: "applyRecord m r = (m', None) \<and> indexed m'" if ty: "rec_Type r = RecordTypeAccount"
  proof -
    obtain a where a: "DecodeAccountPayload (rec_Payload r) = Inr a" "m' = fst (Create m a)"
      using r ty by (auto simp: replay_record_def replay_account_def Create_add split: sum.splits prod.splits if_splits)
    have "(\<exists>k. Get m (acc_ID a) = Inr k) \<longleftrightarrow> index m (acc_ID a) \<noteq> None" using ix by (auto simp: Get_def indexed_def split: option.split)
    with a ty show ?thesis using ix
      by (cases "Get m (acc_ID a)") (auto simp: applyRecord_def Create_add add_account_def indexed_def less_Suc_eq split: option.splits)
  qed
  have tr: "applyRecord m r = (m', None) \<and> indexed m'" if ty: "rec_Type r = RecordTypeTransfer"
  proof -
    obtain t where t: "DecodeTransferPayload (rec_Payload r) = Inr t" "replay_transfer m t = (m', None)"
      using r ty by (auto simp: replay_record_def split: sum.splits prod.splits option.splits if_splits)
    let ?m = "advance_clock m t"
    have m: "shape ?m = shape m" "(if sint (Timestamp t) > sint (clock m) then SetClock m (Timestamp t) else m) = ?m"
      by (simp_all add: advance_clock_def SetClock_def shape_def)
    have ap: "ApplyTransferState (CloseExpired (SetClock ?m (clock ?m))) t = (m', None)" using t(2) by (simp add: replay_transfer_def Let_def)
    then have "shape m' = shape m" using shape_ApplyTransferState [OF ap] by (simp add: shape_CloseExpired m)
    then have "indexed m'" using indexed_shape ix by blast
    moreover have "applyRecord m r = (m', None)" using ty unfolding applyRecord_def t(1) by (simp add: m(2) ap Let_def del: SetClock_simps)
    ultimately show ?thesis by blast
  qed
  show "applyRecord m r = (m', None)" "indexed m'"
    using acc tr r ix by (cases "rec_Type r = RecordTypeAccount"; cases "rec_Type r = RecordTypeTransfer";
        simp add: replay_record_def applyRecord_def)+
qed

lemma run_applyRecord:
  "\<lbrakk> indexed m; run_handler (replay_record now) (m, s) rs = ((m', s'), None) \<rbrakk> \<Longrightarrow> run_handler applyRecord m rs = (m', None)"
proof (induction rs arbitrary: m s)
  case (Cons r rs)
  obtain m1 s1 where r: "replay_record now (m, s) r = ((m1, s1), None)" and rs: "run_handler (replay_record now) (m1, s1) rs = ((m', s'), None)"
    using Cons.prems(2) by (auto split: prod.splits option.splits)
  from applyRecord_replays [OF Cons.prems(1) r] Cons.IH [OF _ rs] show ?case by simp
qed simp

subsection \<open>Batches a follower can take over\<close>

text \<open>A batch numbered from \<open>l + 1\<close> on, of fewer records than the flush threshold, that fits into a
  log with segments of size \<open>mx\<close>.\<close>

definition shippable :: "int \<Rightarrow> i64 \<Rightarrow> batch \<Rightarrow> bool" where
  "shippable mx l b \<longleftrightarrow> fst b \<noteq> [] \<and> length (fst b) < followerFlushThreshold \<and> fst b = stamp l (fst b) \<and>
     snd b = l + of_nat (length (fst b)) + 1 \<and> 0 \<le> sint l \<and> sint l + int (length (fst b)) + 1 < 9223372036854775808 \<and> 29 \<le> mx \<and>
     length (frames (fst b)) + 29 < 2147483648 \<and>
     (\<forall>r\<in>set (fst b). wf_record r \<and> rec_Type r \<noteq> RecordTypeBatchCommit \<and> rec_Type r \<noteq> RecordTypeHead \<and> int (length (frame_of r)) \<le> mx)"

fun ships :: "int \<Rightarrow> i64 \<Rightarrow> batch list \<Rightarrow> bool" where
  "ships mx l [] \<longleftrightarrow> True"
| "ships mx l (b # bs) \<longleftrightarrow> shippable mx l b \<and> ships mx (snd b) bs"

lemma shippable_LSN:
  assumes "shippable mx l b"
  shows "sint (snd b) = sint l + int (length (fst b)) + 1" "r \<in> set (fst b) \<Longrightarrow> sint l < sint (rec_LSN r) \<and> sint (rec_LSN r) < sint (snd b)"
proof -
  have l: "0 \<le> sint l" "sint l + int (length (fst b)) + 1 < 9223372036854775808" and st: "fst b = stamp l (fst b)"
    and b: "snd b = l + of_nat (Suc (length (fst b)))"
    using assms by (simp_all add: shippable_def algebra_simps)
  show lsn: "sint (snd b) = sint l + int (length (fst b)) + 1" using sint_add_nat [OF l(1), of "Suc (length (fst b))"] l(2) b by simp
  assume "r \<in> set (fst b)"
  then obtain i where i: "i < length (fst b)" "r = fst b ! i" by (auto simp: in_set_conv_nth)
  then have "r = (fst b ! i)\<lparr>rec_LSN := l + of_nat (Suc i)\<rparr>" using st stamp_nth [OF i(1), of l] by metis
  from arg_cong [OF this, of rec_LSN] have "rec_LSN r = l + of_nat (Suc i)" by simp
  then show "sint l < sint (rec_LSN r) \<and> sint (rec_LSN r) < sint (snd b)"
    using sint_add_nat [OF l(1), of "Suc i"] l(2) i(1) lsn by simp
qed

lemma ships_append: "ships mx l (bs @ cs) \<longleftrightarrow> ships mx l bs \<and> ships mx (if bs = [] then l else snd (last bs)) cs"
  by (induction bs arbitrary: l) auto

lemma ships_each: "ships mx l bs \<Longrightarrow> b \<in> set bs \<Longrightarrow> \<exists>l. shippable mx l b"
  by (induction bs arbitrary: l) auto

lemma last_LSN_append [simp]: "last_LSN (bs @ [b]) = snd b"
  by (simp add: last_LSN_def)

lemma ships_last: "ships mx 0 (bs @ cs) \<longleftrightarrow> ships mx 0 bs \<and> ships mx (last_LSN bs) cs"
  by (simp add: ships_append last_LSN_def)

lemma ships_LSN:
  "ships mx l bs \<Longrightarrow> bs \<noteq> [] \<Longrightarrow> sint l < sint (snd (last bs)) \<and>
     (\<forall>b\<in>set bs. sint (snd b) \<le> sint (snd (last bs)) \<and> (\<forall>r\<in>set (fst b). sint (rec_LSN r) < sint (snd (last bs))))"
proof (induction bs arbitrary: l)
  case (Cons b bs)
  have b: "sint l < sint (snd b)" "\<forall>r\<in>set (fst b). sint (rec_LSN r) < sint (snd b)" using shippable_LSN [of mx l b] Cons.prems by auto
  then show ?case using Cons.IH [of "snd b"] Cons.prems by (cases "bs = []") force+
qed simp

lemma small_sendable: "wf_record r \<Longrightarrow> int (length (frame_of r)) \<le> mx \<Longrightarrow> length (frames (r # rs)) < 2147483648 \<Longrightarrow> sendable r"
  by (simp add: sendable_def frames_def length_frame_of)

lemma length_frame_le: "r \<in> set rs \<Longrightarrow> length (frame_of r) \<le> length (frames rs)"
  by (induction rs) (auto simp: frames_def)

lemma shippable_sendable:
  assumes "shippable mx l b" and "r \<in> set (batch_records b)"
  shows "sendable r"
  using assms length_frame_le [of r "fst b"]
  by (auto simp: batch_records_def shippable_def sendable_def length_frame_of commit_record_def commit_payload_layout)

subsection \<open>Receiving batches\<close>

text \<open>A follower that has taken over the batches \<open>bs\<close>: its log holds them, synced, under the same
  LSNs, and its accounts are the result of applying them.\<close>

definition replica :: "follower \<Rightarrow> batch list \<Rightarrow> bool" where
  "replica f bs \<longleftrightarrow> (\<exists>d parts rs. history_ok (fo_wal f) bs d parts rs) \<and> all_synced (fo_wal f) \<and> ascending (fo_wal f) \<and>
     wal_currentLSN (fo_wal f) = last_LSN bs \<and> fo_lastLSN f = last_LSN bs \<and> fo_pending f = [] \<and>
     run_handler applyRecord NewAccountManager (concat (map fst bs)) = (fo_accounts f, None)"

lemma history_append:
  assumes h: "history_ok w bs d parts rs" and ok: "appendable w records"
  obtains w' x d' parts' rs' where "AppendBatch w records = (w', Inr x)" "history_ok (Sync w') (bs @ [appended w records]) d' parts' rs'"
    "all_synced (Sync w')" "wal_currentLSN (Sync w') = snd (appended w records)" "segmentSize (Sync w') = segmentSize w"
proof -
  have st: "log_state w parts rs" using h by (simp add: history_ok_def)
  from AppendBatch_appends [OF st ok] obtain w' parts' rs' where w': "AppendBatch w records = (w', Inr (wal_currentLSN w + 1))" "log_state w' parts' rs'"
    "parts_records parts' @ rs' = parts_records parts @ rs @ batch_records (appended w records)" "wal_currentLSN w' = snd (appended w records)" "segmentSize w' = segmentSize w"
    by metis
  note s = Sync_synced [OF w'(2)]
  have recs: "parts_records parts' @ rs' = log_records (bs @ [appended w records])" using w'(3) h by (simp add: history_ok_def log_records_def)
  have "history_ok (Sync w') (bs @ [appended w records]) 0 parts' rs'"
    using h s appended_ok [OF ok] recs w'(4) by (auto simp: history_ok_def positive_LSNs_def frames_def log_records_def)
  with w' s that show ?thesis by simp
qed

lemma receive_data:
  "\<lbrakk> \<forall>r\<in>set qs. sendable r \<and> rec_Type r \<noteq> RecordTypeBatchCommit \<and> rec_Type r \<noteq> RecordTypeHead \<and> sint (fo_lastLSN f) < sint (rec_LSN r);
     length (fo_pending f) + length qs < followerFlushThreshold; \<not> t < fo_lastTerm f \<rbrakk> \<Longrightarrow>
   receive f (wire t qs @ rest) = receive (f\<lparr>fo_pending := fo_pending f @ qs\<rparr>) rest"
proof (induction qs arbitrary: f)
  case (Cons q qs)
  have "handle_frame f t q = (f\<lparr>fo_pending := fo_pending f @ [q]\<rparr>, None)"
    using Cons.prems by (simp add: handle_frame_def Let_def)
  then show ?case using Cons.prems receive_frame [of q f t "wire t qs @ rest"] Cons.IH [of "f\<lparr>fo_pending := fo_pending f @ [q]\<rparr>"] by simp
qed simp

lemma receive_batch:
  assumes rep: "replica f bs" and ship: "shippable (segmentSize (fo_wal f)) (last_LSN bs) b" and fresh: "\<not> t < fo_lastTerm f"
    and run: "run_handler applyRecord (fo_accounts f) (fst b) = (m, None)"
  obtains f' where "receive f (wire t (batch_records b) @ rest) = receive f' rest" "replica f' (bs @ [b])" "fo_accounts f' = m"
    "fo_lastTerm f' = fo_lastTerm f" "fo_terms f' = fo_terms f" "segmentSize (fo_wal f') = segmentSize (fo_wal f)"
proof -
  let ?w = "fo_wal f" and ?c = "commit_record (snd b) (length (fst b))" and ?f = "f\<lparr>fo_pending := fst b\<rparr>"
  obtain d parts rs where h: "history_ok ?w bs d parts rs" and asc: "ascending ?w" and lsn: "wal_currentLSN ?w = last_LSN bs" "fo_lastLSN f = last_LSN bs"
    and pend: "fo_pending f = []" and old: "run_handler applyRecord NewAccountManager (concat (map fst bs)) = (fo_accounts f, None)"
    using rep by (auto simp: replica_def)
  have ap: "appendable ?w (fst b)" using ship lsn by (auto simp: shippable_def appendable_def)
  have same: "appended ?w (fst b) = b" using ship lsn by (auto simp: shippable_def appended_def prod_eq_iff)
  from history_append [OF h ap, unfolded same] obtain w' x d' parts' rs' where w': "AppendBatch ?w (fst b) = (w', Inr x)"
    "history_ok (Sync w') (bs @ [b]) d' parts' rs'" "all_synced (Sync w')" "wal_currentLSN (Sync w') = snd b" "segmentSize (Sync w') = segmentSize ?w" by metis
  have ne: "fst b \<noteq> []" using ship by (simp add: shippable_def)
  let ?g = "f\<lparr>fo_pending := [], fo_wal := Sync w', fo_accounts := m\<rparr>"
  have flush: "fo_flush ?f = (?g, None)" using w'(1) run ne by (simp add: fo_flush_def Let_def)
  have lt: "sint (last_LSN bs) < sint (snd b)" using shippable_LSN(1) [OF ship] by simp
  have "receive f (wire t (fst b) @ wire t [?c] @ rest) = receive ?f (wire t [?c] @ rest)"
    using receive_data [of "fst b" f t "wire t [?c] @ rest"] shippable_sendable [OF ship] shippable_LSN(2) [OF ship] ship lsn pend fresh
    by (simp add: batch_records_def shippable_def)
  also have "\<dots> = receive (?g\<lparr>fo_lastLSN := snd b\<rparr>) rest"
    using receive_frame [of ?c ?f t rest] shippable_sendable [OF ship, of ?c] flush lt lsn fresh
    by (simp add: handle_frame_def batch_records_def Let_def)
  finally have eq: "receive f (wire t (batch_records b) @ rest) = receive (?g\<lparr>fo_lastLSN := snd b\<rparr>) rest"
    by (simp add: batch_records_def)
  have "ascending (Sync w')" using AppendBatch_ascending [OF asc, of "fst b"] w'(1) by (simp add: Sync_ascending)
  then have "replica (?g\<lparr>fo_lastLSN := snd b\<rparr>) (bs @ [b])"
    using w' old run by (auto simp: replica_def run_handler_append)
  with eq w'(5) that show ?thesis by simp
qed

lemma receive_batches:
  "\<lbrakk> replica f bs; ships (segmentSize (fo_wal f)) (last_LSN bs) cs; \<not> t < fo_lastTerm f;
     run_handler applyRecord (fo_accounts f) (concat (map fst cs)) = (m, None) \<rbrakk> \<Longrightarrow>
   \<exists>f'. receive f (wire t (log_records cs) @ rest) = receive f' rest \<and> replica f' (bs @ cs) \<and> fo_accounts f' = m \<and>
     fo_lastTerm f' = fo_lastTerm f \<and> fo_terms f' = fo_terms f"
proof (induction cs arbitrary: f bs)
  case (Cons b cs)
  obtain m1 where m1: "run_handler applyRecord (fo_accounts f) (fst b) = (m1, None)" "run_handler applyRecord m1 (concat (map fst cs)) = (m, None)"
    using Cons.prems(4) by (auto simp: run_handler_append split: prod.splits option.splits)
  obtain f1 where f1: "receive f (wire t (batch_records b) @ (wire t (log_records cs) @ rest)) = receive f1 (wire t (log_records cs) @ rest)"
    "replica f1 (bs @ [b])" "fo_accounts f1 = m1" "fo_lastTerm f1 = fo_lastTerm f" "fo_terms f1 = fo_terms f" "segmentSize (fo_wal f1) = segmentSize (fo_wal f)"
    using receive_batch [OF Cons.prems(1) _ Cons.prems(3) m1(1), of "wire t (log_records cs) @ rest"] Cons.prems(2) by (metis ships.simps(2))
  from Cons.IH [OF f1(2)] f1 m1(2) Cons.prems show ?case by (auto simp: log_records_def)
qed (auto simp: log_records_def)

text \<open>What a follower has already is skipped.\<close>

lemma receive_old:
  "\<lbrakk> \<forall>r\<in>set rs. sendable r \<and> rec_Type r \<noteq> RecordTypeHead \<and> sint (rec_LSN r) \<le> sint (fo_lastLSN f); fo_pending f = []; \<not> t < fo_lastTerm f \<rbrakk> \<Longrightarrow>
   receive f (wire t rs @ rest) = receive f rest"
proof (induction rs)
  case (Cons r rs)
  have "handle_frame f t r = (f, None)"
    using Cons.prems by (simp add: handle_frame_def fo_flush_def Let_def)
  then show ?case using Cons.prems receive_frame [of r f t "wire t rs @ rest"] Cons.IH by simp
qed simp

lemma replica_old_records:
  assumes rep: "replica f bs" and ship: "ships mx 0 bs"
  shows "\<forall>r\<in>set (log_records bs). sendable r \<and> rec_Type r \<noteq> RecordTypeHead \<and> sint (rec_LSN r) \<le> sint (fo_lastLSN f)"
proof (cases "bs = []")
  case False
  have last: "fo_lastLSN f = snd (last bs)" using rep False by (simp add: replica_def last_LSN_def)
  have "sendable r \<and> rec_Type r \<noteq> RecordTypeHead \<and> sint (rec_LSN r) \<le> sint (snd (last bs))" if mem: "r \<in> set (batch_records b)" "b \<in> set bs" for r b
  proof -
    obtain l where l: "shippable mx l b" using ships_each [OF ship mem(2)] by blast
    then show ?thesis
      using shippable_sendable [OF l mem(1)] ships_LSN [OF ship False] mem by (fastforce simp: batch_records_def shippable_def)
  qed
  then show ?thesis using last by (auto simp: log_records_def)
qed (simp add: log_records_def)

lemma replica_old:
  assumes rep: "replica f bs" and ship: "ships mx 0 bs" and t: "\<not> t < fo_lastTerm f"
  shows "receive f (wire t (log_records bs) @ rest) = receive f rest"
  by (rule receive_old [OF replica_old_records [OF rep ship] _ t]) (use rep in \<open>simp add: replica_def\<close>)

lemma receive_head:
  assumes "\<not> t < fo_lastTerm f"
  shows "receive f (wire t [head_record w]) = (f\<lparr>fo_primaryHead := wal_currentLSN w\<rparr>, ConnError)"
  using assms receive_frame [of "head_record w" f t "[]"] receive_end
  by (simp add: head_record_def sendable_def handle_frame_def Let_def)

subsection \<open>Following a ledger\<close>

lemma numbered_append:
  assumes "wal_currentLSN w = last_LSN bs" and "appendable w recs" and "0 \<le> sint (wal_currentLSN w)"
    and "length recs < followerFlushThreshold" and "161 \<le> mx"
    and "\<forall>r\<in>set recs. rec_Type r \<noteq> RecordTypeHead \<and> length (frame_of r) \<le> 161"
  shows "shippable mx (last_LSN bs) (appended w recs)"
proof -
  have "stamp l (stamp l rs) = stamp l rs" for l and rs :: "wal_record list" by (induction l rs rule: stamp.induct) simp_all
  moreover have "\<forall>r\<in>set (stamp (wal_currentLSN w) recs). (rec_Type r \<noteq> 0 \<and> length (rec_Payload r) \<le> 4294967295) \<and> rec_Type r \<noteq> RecordTypeBatchCommit \<and>
      rec_Type r \<noteq> RecordTypeHead \<and> 13 + length (rec_Payload r) + 4 \<le> 161"
    by (rule stamp_all) (use assms in \<open>auto simp: appendable_def wf_record_def length_frame_of\<close>)
  ultimately show ?thesis
    using assms by (auto simp: shippable_def appended_def appendable_def wf_record_def length_frame_of) (metis length_0_conv length_stamp)
qed

lemma batch_log_records:
  assumes inv: "run_inv l bs" and ev: "\<forall>t\<in>set events. wf_transfer t" and ck: "sint (el_clock l) < 9223372036854775807"
    and r: "r \<in> set (batch_log c l events)"
  shows "rec_Type r \<noteq> RecordTypeHead" "length (frame_of r) \<le> 161"
proof -
  let ?now = "batch_time c l"
  let ?n = "CloseExpired (SetClock (el_accounts l) ?now)" and ?ev = "map (\<lambda>t. t\<lparr>Timestamp := ?now\<rparr>) events"
  have "replays bs ?n" using inv replays_tick [of bs "el_accounts l" ?now] batch_time_later [OF ck, of c] by (simp add: run_inv_def)
  then have "am_ok ?n" using replays_live by (simp add: am_inv_def)
  from batch_runs [OF this] have len: "length (ValidateBatch ?ev ?n) = length ?ev" by metis
  have wf: "\<forall>t\<in>set ?ev. wf_transfer t" using ev by (auto simp: wf_transfer_def)
  have "batch_log c l events = makeWALRecords ?ev (ValidateBatch ?ev ?n)" by (simp add: batch_log_def open_batch_def Let_def)
  moreover have "list_all2 carries_transfer (makeWALRecords ?ev (ValidateBatch ?ev ?n)) (accepted ?ev (ValidateBatch ?ev ?n))"
    using makeWALRecords_carries [OF len wf, of 0] carries_LSN by (simp add: stamp_list_all2)
  ultimately obtain t where "carries_transfer r t" using r by (metis in_set_conv_nth list_all2_conv_all_nth)
  then show "rec_Type r \<noteq> RecordTypeHead" "length (frame_of r) \<le> 161" using length_carried(1) [of r t] by (simp_all add: carries_transfer_def)
qed

lemma create_log_records:
  assumes accs: "\<forall>a\<in>set accs. wf_account a" and r: "r \<in> set (create_log l accs)"
  shows "rec_Type r \<noteq> RecordTypeHead" "length (frame_of r) \<le> 161"
proof -
  obtain results recs where sc: "scan_creates (el_accounts l) accs [] = (results, recs)" by fastforce
  have "list_all2 carries_account recs (created accs results)"
    using scan_creates_carries(1) [OF sc accs, of 0] carries_LSN by (simp add: stamp_list_all2)
  moreover have "r \<in> set recs" using r sc by (simp add: create_log_def)
  ultimately obtain a where "carries_account r a" by (metis in_set_conv_nth list_all2_conv_all_nth)
  then show "rec_Type r \<noteq> RecordTypeHead" "length (frame_of r) \<le> 161" using length_carried(2) [of r a] by (simp_all add: carries_account_def)
qed

lemma processBatch_wal:
  assumes "AppendBatch (el_wal l) (batch_log c l events) = (w, Inr x) \<or> batch_log c l events = []"
  shows "el_wal (fst (processBatch c l events)) = (if batch_log c l events = [] then el_wal l else Sync w)"
  using assms by (auto simp: processBatch_def batch_log_def open_batch_def finish_batch_def Let_def case_prod_beta)

lemma processAccountCreate_wal:
  assumes "AppendBatch (el_wal l) (create_log l accs) = (w, Inr x) \<or> create_log l accs = []"
  shows "el_wal (fst (processAccountCreate l accs)) = (if create_log l accs = [] then el_wal l else Sync w)"
  using assms by (auto simp: processAccountCreate_def create_log_def Let_def case_prod_beta)

lemma append_or_empty:
  assumes "wal_reach w bs d" and "recs \<noteq> [] \<Longrightarrow> appendable w recs"
  shows "\<exists>w' x. AppendBatch w recs = (w', Inr x) \<or> recs = []"
proof (cases "recs = []")
  case False
  then show ?thesis using append_synced [OF assms(1) assms(2)] by metis
qed simp

text \<open>What a ledger logs can be shipped.\<close>

lemma logged_ships:
  assumes reach: "wal_reach w bs d" and lsn: "wal_currentLSN w = last_LSN bs" and sh: "ships mx 0 bs" and mx: "161 \<le> mx"
    and ap: "recs \<noteq> [] \<Longrightarrow> appendable w recs" and small: "length recs < followerFlushThreshold"
    and recs: "\<forall>r\<in>set recs. rec_Type r \<noteq> RecordTypeHead \<and> length (frame_of r) \<le> 161"
  shows "ships mx 0 (bs @ logs w recs)"
    "AppendBatch w recs = (w', Inr x) \<or> recs = [] \<Longrightarrow> wal_currentLSN (if recs = [] then w else Sync w') = last_LSN (bs @ logs w recs)"
    "AppendBatch w recs = (w', Inr x) \<or> recs = [] \<Longrightarrow> all_synced w \<Longrightarrow> all_synced (if recs = [] then w else Sync w')"
proof -
  obtain parts rs where h: "history_ok w bs d parts rs" using reach_history [OF reach] by blast
  show "ships mx 0 (bs @ logs w recs)"
    using numbered_append [OF lsn ap _ small mx recs] h sh by (auto simp: ships_last logs_def history_ok_def)
  assume a: "AppendBatch w recs = (w', Inr x) \<or> recs = []"
  moreover have "wal_currentLSN (Sync w') = snd (appended w recs) \<and> all_synced (Sync w')" if "AppendBatch w recs = (w', Inr x)" "recs \<noteq> []"
    using history_append [OF h ap [OF that(2)]] that(1) by (metis prod.inject)
  ultimately show "wal_currentLSN (if recs = [] then w else Sync w') = last_LSN (bs @ logs w recs)"
    "all_synced w \<Longrightarrow> all_synced (if recs = [] then w else Sync w')" using lsn by (auto simp: logs_def)
qed

lemma runs_ships:
  assumes "runs l bs" and mx: "161 \<le> mx" and "\<forall>b\<in>set bs. length (fst b) < followerFlushThreshold"
  shows "ships mx 0 bs \<and> wal_currentLSN (el_wal l) = last_LSN bs \<and> all_synced (el_wal l)"
  using assms(1,3)
proof (induction rule: runs.induct)
  case (start mx)
  then show ?case by (simp add: NewEventLoop_def OpenWAL_def openSegment_def all_synced_def last_LSN_def Let_def)
next
  case (transfers l bs events c)
  let ?w = "el_wal l" and ?recs = "batch_log c l events"
  have inv: "run_inv l bs" by (rule runs_inv [OF transfers.hyps(1)])
  note st = transfers_step [OF inv transfers.hyps(2-4)]
  have reach: "wal_reach ?w bs (length bs)" using inv by (simp add: run_inv_def)
  have IH: "ships mx 0 bs" "wal_currentLSN ?w = last_LSN bs" "all_synced ?w" using transfers.IH transfers.prems by auto
  have small: "length ?recs < followerFlushThreshold" using transfers.prems by (cases "?recs = []") (auto simp: logs_def appended_def)
  have recs: "\<forall>r\<in>set ?recs. rec_Type r \<noteq> RecordTypeHead \<and> length (frame_of r) \<le> 161"
    using batch_log_records [OF inv _ transfers.hyps(3)] transfers.hyps(2) by blast
  obtain w x where wx: "AppendBatch ?w ?recs = (w, Inr x) \<or> ?recs = []" using append_or_empty [OF reach st(1)] by blast
  from logged_ships [OF reach IH(2,1) mx st(1) small recs] wx processBatch_wal [OF wx] IH(3) show ?case by auto
next
  case (creates l bs accs)
  let ?w = "el_wal l" and ?recs = "create_log l accs"
  have inv: "run_inv l bs" by (rule runs_inv [OF creates.hyps(1)])
  note st = creates_step [OF inv creates.hyps(2,3)]
  have reach: "wal_reach ?w bs (length bs)" using inv by (simp add: run_inv_def)
  have IH: "ships mx 0 bs" "wal_currentLSN ?w = last_LSN bs" "all_synced ?w" using creates.IH creates.prems by auto
  have small: "length ?recs < followerFlushThreshold" using creates.prems by (cases "?recs = []") (auto simp: logs_def appended_def)
  have recs: "\<forall>r\<in>set ?recs. rec_Type r \<noteq> RecordTypeHead \<and> length (frame_of r) \<le> 161"
    using create_log_records [OF creates.hyps(2)] by blast
  obtain w x where wx: "AppendBatch ?w ?recs = (w, Inr x) \<or> ?recs = []" using append_or_empty [OF reach st(1)] by blast
  from logged_ships [OF reach IH(2,1) mx st(1) small recs] wx processAccountCreate_wal [OF wx] IH(3) show ?case by auto
qed

lemma shipped_small: "\<lbrakk> ships mx l bs; mx \<le> 1048576 \<rbrakk> \<Longrightarrow> small_records bs"
  by (induction bs arbitrary: l) (auto simp: small_records_def shippable_def length_frame_of)

lemma runs_small: "runs l bs \<Longrightarrow> \<forall>b\<in>set bs. length (fst b) < followerFlushThreshold \<Longrightarrow> small_records bs"
  using runs_ships [of l bs 161] shipped_small [of 161 0 bs] by simp

text \<open>Applying what a ledger has logged gives its state, up to holds that expired since.\<close>

lemma runs_apply:
  assumes "runs l bs"
  obtains m where "run_handler applyRecord NewAccountManager (concat (map fst bs)) = (m, None)"
    "el_accounts l = CloseExpired (SetClock m (clock (el_accounts l)))"
proof -
  have "replays bs (el_accounts l)" using runs_inv [OF assms] by (simp add: run_inv_def)
  then obtain m s' where "run_handler (replay_record (\<lambda>_. 0)) (NewAccountManager, NewIdempotencyStore 1 1) (concat (map fst bs)) = ((m, s'), None)" "lags m (el_accounts l)"
    using settled_new [of 1 1] unfolding replays_def by blast
  with run_applyRecord [OF indexed_new this(1)] that show ?thesis by (simp add: lags_def)
qed

lemma serve_all:
  fixes "from" :: i64
  assumes run: "runs l bs" and few: "\<forall>b\<in>set bs. length (fst b) < followerFlushThreshold"
    and none: "\<forall>f\<in>set (wal_files (el_wal l)). sint from < sint (peekSegmentMaxLSN (snd f))"
  shows "snd (handleConn t (el_wal l) (be_bytes 8 from)) = be_bytes 8 t @ wire t (log_records bs) @ wire t [head_record (el_wal l)]"
proof -
  let ?w = "el_wal l"
  have reach: "wal_reach ?w bs (length bs)" using runs_inv [OF run] by (simp add: run_inv_def)
  obtain parts rs where h: "history_ok ?w bs (length bs) parts rs" using reach_history [OF reach] by blast
  have syn: "all_synced ?w" using runs_ships [OF run, of 161] few by simp
  obtain sr' where "poll ?w (NewStreamReader from) = (sr', log_records bs, None)"
    using stream_all [OF h reach_ascending [OF reach] syn runs_small [OF run few] none] by blast
  then show ?thesis by (simp add: handleConn_def serve_round_def wire_def)
qed

subsection \<open>Restarting a follower\<close>

lemma handled_local:
  assumes "run_handler applyRecord m rs = (m', None)" and "\<forall>r\<in>set rs. rec_Type r \<noteq> RecordTypeBatchCommit \<and> rec_Type r \<noteq> RecordTypeHead"
  shows "run_handler local_handler (m, x) rs = ((m', foldl (\<lambda>x r. if sint (rec_LSN r) > sint x then rec_LSN r else x) x rs), None)"
  using assms
proof (induction rs arbitrary: m x)
  case (Cons r rs)
  obtain m1 where m1: "applyRecord m r = (m1, None)" "run_handler applyRecord m1 rs = (m', None)"
    using Cons.prems(1) by (auto split: prod.splits option.splits)
  then have "local_handler (m, x) r = ((m1, if sint (rec_LSN r) > sint x then rec_LSN r else x), None)"
    using Cons.prems(2) by (simp add: local_handler_def Let_def)
  with Cons.IH [OF m1(2)] Cons.prems(2) show ?case by simp
qed simp

lemma foldl_max_LSN:
  "\<lbrakk> rs \<noteq> []; \<forall>r\<in>set rs. sint (rec_LSN r) \<le> sint (rec_LSN (last rs)); sint x < sint (rec_LSN (last rs)) \<rbrakk> \<Longrightarrow>
     foldl (\<lambda>x r. if sint (rec_LSN r) > sint x then rec_LSN r else x) x rs = rec_LSN (last rs)"
proof (induction rs rule: rev_induct)
  case (snoc r rs)
  let ?g = "\<lambda>x r. if sint (rec_LSN r) > sint x then rec_LSN r else x"
  have "sint (foldl ?g x rs) \<le> sint (rec_LSN r)"
    using snoc.prems(2,3) by (induction rs rule: rev_induct) auto
  then show ?case by (auto simp: not_less dest: signed_word_eqI)
qed simp

text \<open>Recovering a log that is complete: nothing is lost and the log can be extended.\<close>

lemma recover_log:
  assumes h: "history_ok w bs d parts rs" and asc: "ascending w" and run: "run_handler handler x (concat (map fst bs)) = (y, None)"
    and v: "wal_files v = wal_files w" "wal_currentLSN v = 0 \<or> wal_currentLSN v = last_LSN bs" "segmentSize v = segmentSize w" "\<not> directIO v"
  obtains w' where "Recover v handler x = (w', y, None)" "history_ok w' bs (length bs) parts rs" "all_synced w'" "wal_currentLSN w' = last_LSN bs"
    "segmentSize w' = segmentSize w" "ascending w'"
proof -
  have st: "log_state w parts rs" and bs: "\<forall>b\<in>set bs. wf_batch b" and recs: "concat (map snd parts) @ rs = log_records bs" and pos: "positive_LSNs bs"
    using h by (simp_all add: history_ok_def parts_records_def)
  let ?files = "map segment_of parts @ [(currentID w, frames rs)]"
  have files: "wal_files v = ?files" using st v(1) by (simp add: log_state_def)
  have "handled (filterHandler 0 (persevering handler)) (Some x) (concat (map fst bs)) = Some y"
    using run pos by (subst handled_filter [OF total_persevering]) (auto simp: handled_def run_persevering positive_LSNs_def)
  then have rc: "recoverSegments ?files 0 (filterHandler 0 (persevering handler)) (Some x) =
      \<lparr>rc_LSN = last_LSN bs, rc_lastSegment = currentID w, rc_files = ?files, rc_handler = Some y, rc_err = None\<rparr>"
    by (subst recover_clean [OF total_filterHandler [OF total_persevering] bs recs]) simp
  have below: "\<forall>p\<in>set (map segment_of parts). fst p < currentID w" using st by (auto simp: log_state_def segment_of_def)
  have put: "put_file (currentID w) (frames rs) ?files = ?files" "file_bytes ?files (currentID w) = frames rs"
    using put_file_last(1) [OF below] map_of_last [OF below] by (simp_all add: file_bytes_def)
  have id: "0 < currentID w" and sz: "0 < segmentSize w" using asc st by (simp_all add: ascending_def log_state_def)
  have lsn: "last_LSN bs = 0 \<or> 0 < sint (last_LSN bs)" using pos by (auto simp: last_LSN_def positive_LSNs_def)
  let ?w = "v\<lparr>wal_files := ?files, wal_currentLSN := last_LSN bs, currentID := currentID w,
      wal_current := \<lparr>seg_id = currentID w, maxSize = segmentSize w, writeOffset = length (frames rs), syncedOffset = length (frames rs), directBuf = None\<rparr>\<rparr>"
  have "Recover v (persevering handler) (Some x) = (?w, Some y, None)"
    using id sz lsn v(2) unfolding Recover_def RecoverFromLSN_def files rc Let_def by (auto simp: v(3) openSegment_def put Let_def)
  from Recover_persevering [OF this] have rec: "Recover v handler x = (?w, y, None)" .
  have "log_state ?w parts rs" using st v(3,4) by (simp add: log_state_def)
  moreover have "length (frames (log_records bs)) = durable ?w parts" by (simp add: durable_def parts_records_def frames_append flip: recs)
  ultimately have "history_ok ?w bs (length bs) parts rs" using h lsn by (auto simp: history_ok_def)
  moreover have "ascending ?w" using asc st id by (simp add: ascending_def log_state_def)
  ultimately show ?thesis using rec v(3) by (intro that [of ?w]) (simp_all add: all_synced_def)
qed

lemma reopen:
  assumes h: "history_ok w bs d parts rs" and syn: "all_synced w" and n: "syncedOffset (wal_current w) \<le> n" and asc: "ascending w"
    and run: "run_handler handler x (concat (map fst bs)) = (y, None)"
  obtains w' where "Recover (OpenWAL (crash w n) (segmentSize w) False) handler x = (w', y, None)"
    "history_ok w' bs (length bs) parts rs" "all_synced w'" "wal_currentLSN w' = last_LSN bs" "segmentSize w' = segmentSize w" "ascending w'"
proof (rule recover_log [OF h asc run])
  have st: "log_state w parts rs" using h by (simp add: history_ok_def)
  have "length (frames rs) \<le> n" using st syn n by (simp add: log_state_def all_synced_def)
  then have "crash w n = wal_files w" using crash_files [OF st, of n] st by (simp add: log_state_def)
  then show "wal_files (OpenWAL (crash w n) (segmentSize w) False) = wal_files w" "segmentSize (OpenWAL (crash w n) (segmentSize w) False) = segmentSize w"
    "wal_currentLSN (OpenWAL (crash w n) (segmentSize w) False) = 0 \<or> wal_currentLSN (OpenWAL (crash w n) (segmentSize w) False) = last_LSN bs"
    "\<not> directIO (OpenWAL (crash w n) (segmentSize w) False)"
    using open_crashed [OF st, of n "segmentSize w"] st by (simp_all add: log_state_def OpenWAL_def Let_def split: prod.split)
qed

lemma shippable_last:
  assumes "shippable mx l b"
  shows "rec_LSN (last (fst b)) + 1 = snd b"
proof -
  have ne: "fst b \<noteq> []" and st: "fst b = stamp l (fst b)" and b: "snd b = l + of_nat (length (fst b)) + 1" using assms by (simp_all add: shippable_def)
  let ?i = "length (fst b) - 1"
  have "last (fst b) = fst b ! ?i" using ne by (rule last_conv_nth)
  also have "\<dots> = (fst b ! ?i)\<lparr>rec_LSN := l + of_nat (Suc ?i)\<rparr>" using stamp_nth [of ?i "fst b" l] st ne by (metis diff_less length_greater_0_conv zero_less_one)
  finally have "last (fst b) = (fst b ! ?i)\<lparr>rec_LSN := l + of_nat (length (fst b))\<rparr>" using ne by simp
  from arg_cong [OF this, of rec_LSN] b show ?thesis by simp
qed

lemma max_data_LSN:
  assumes ship: "ships mx 0 bs"
  shows "(let x = foldl (\<lambda>x r. if sint (rec_LSN r) > sint x then rec_LSN r else x) 0 (concat (map fst bs))
          in if sint x > 0 then x + 1 else x) = last_LSN bs"
proof (cases "bs = []")
  case False
  let ?b = "last bs" and ?rs = "concat (map fst bs)"
  have bs: "bs = butlast bs @ [?b]" using False by simp
  obtain l where l: "shippable mx l ?b" using ships_each [OF ship last_in_set [OF False]] by blast
  then have ne: "fst ?b \<noteq> []" "0 \<le> sint l" by (simp_all add: shippable_def)
  then have last: "?rs \<noteq> []" "last ?rs = last (fst ?b)" by (subst bs; simp)+
  have mem: "last (fst ?b) \<in> set (fst ?b)" using ne by simp
  note lt = shippable_LSN [OF l] and one = shippable_last [OF l]
  have pos: "0 < sint (rec_LSN (last (fst ?b)))" using lt(2) [OF mem] ne by simp
  have "sint (rec_LSN (last (fst ?b)) + 1) = sint (rec_LSN (last (fst ?b))) + 1"
    using sint_add_nat [of "rec_LSN (last (fst ?b))" 1] pos lt(2) [OF mem] sint_less [of "snd ?b"] by simp
  then have "sint (snd ?b) = sint (rec_LSN (last (fst ?b))) + 1" using one by simp
  then have "\<forall>r\<in>set ?rs. sint (rec_LSN r) \<le> sint (rec_LSN (last ?rs))" using ships_LSN [OF ship False] last(2) by fastforce
  from foldl_max_LSN [OF last(1) this] pos last one False show ?thesis by (simp add: last_LSN_def)
qed (simp add: last_LSN_def)

lemma restarted:
  assumes rep: "replica f bs" and ship: "ships mx 0 bs" and n: "syncedOffset (wal_current (fo_wal f)) \<le> n"
  defines "f0 \<equiv> NewFollower (fo_terms f) (OpenWAL (crash (fo_wal f) n) (segmentSize (fo_wal f)) False) []"
  obtains w' where "recoverLocalState f0 = (f0\<lparr>fo_wal := w', fo_accounts := fo_accounts f, fo_lastLSN := fo_lastLSN f\<rparr>, None)"
    "replica (f0\<lparr>fo_wal := w', fo_accounts := fo_accounts f, fo_lastLSN := fo_lastLSN f\<rparr>) bs" "segmentSize w' = segmentSize (fo_wal f)"
proof -
  let ?g = "\<lambda>x r. if sint (rec_LSN r) > sint x then rec_LSN r else x"
  let ?x = "foldl ?g 0 (concat (map fst bs))"
  obtain d parts rs where h: "history_ok (fo_wal f) bs d parts rs" "all_synced (fo_wal f)" "ascending (fo_wal f)" "fo_lastLSN f = last_LSN bs"
    and run: "run_handler applyRecord NewAccountManager (concat (map fst bs)) = (fo_accounts f, None)"
    using rep by (auto simp: replica_def)
  have "\<forall>r\<in>set (concat (map fst bs)). rec_Type r \<noteq> RecordTypeBatchCommit \<and> rec_Type r \<noteq> RecordTypeHead"
    using ships_each [OF ship] by (fastforce simp: shippable_def)
  from handled_local [OF run this, of 0]
  have "run_handler local_handler (NewAccountManager, 0) (concat (map fst bs)) = ((fo_accounts f, ?x), None)" .
  then obtain w' where w': "Recover (OpenWAL (crash (fo_wal f) n) (segmentSize (fo_wal f)) False) local_handler (NewAccountManager, 0) = (w', (fo_accounts f, ?x), None)"
    "history_ok w' bs (length bs) parts rs" "all_synced w'" "wal_currentLSN w' = last_LSN bs" "segmentSize w' = segmentSize (fo_wal f)" "ascending w'"
    by (rule reopen [OF h(1,2) n h(3)])
  have "recoverLocalState f0 = (f0\<lparr>fo_wal := w', fo_accounts := fo_accounts f, fo_lastLSN := fo_lastLSN f\<rparr>, None)"
    using w'(1) max_data_LSN [OF ship] h(4) by (simp add: recoverLocalState_def f0_def NewFollower_def Let_def)
  moreover have "replica (f0\<lparr>fo_wal := w', fo_accounts := fo_accounts f, fo_lastLSN := fo_lastLSN f\<rparr>) bs"
    using w' h(4) run by (auto simp: replica_def f0_def NewFollower_def)
  ultimately show ?thesis using that w'(5) by blast
qed

subsection \<open>Claims\<close>

text \<open>C10: A replica follows its primary. Take a ledger that has served any run, every batch of which has fewer records
  than the flush threshold of 4096, and a follower that has taken over the first batches of its log.
  When the follower connects and every segment of the primary's log ends above the LSN the follower asks for (its last
  LSN plus one), so that the reader skips none, the follower receives what it is
  missing and nothing twice: afterwards its own log holds all batches of the primary, synced
  and under the same LSNs, it reports no lag, and its accounts, holds and history are those of the
  live ledger, up to the holds that expired since the last logged batch.\<close>

theorem replica_follows_primary:
  assumes run: "runs l (bs @ cs)" and few: "\<forall>b\<in>set (bs @ cs). length (fst b) < followerFlushThreshold"
    and rep: "replica f bs" and mx: "161 \<le> segmentSize (fo_wal f)" and t: "fo_lastTerm f \<le> t"
    and none: "\<forall>f\<in>set (wal_files (el_wal l)). sint (last_LSN bs + 1) < sint (peekSegmentMaxLSN (snd f))"
  shows "\<exists>f'. syncLoop (Some (snd (handleConn t (el_wal l) (handshake f)))) f = (f', ConnError) \<and> replica f' (bs @ cs) \<and> Lag f' = 0 \<and>
    el_accounts l = CloseExpired (SetClock (fo_accounts f') (clock (el_accounts l)))"
proof -
  let ?mx = "segmentSize (fo_wal f)" and ?w = "el_wal l"
  note sh = runs_ships [OF run mx few]
  obtain m where m: "run_handler applyRecord NewAccountManager (concat (map fst (bs @ cs))) = (m, None)"
    "el_accounts l = CloseExpired (SetClock m (clock (el_accounts l)))" using runs_apply [OF run] by blast
  have req: "handshake f = be_bytes 8 (last_LSN bs + 1)" using rep by (simp add: handshake_def replica_def)
  note conn = serve_all [OF run few none, of t]
  define g where "g = (if t > fo_lastTerm f
      then f\<lparr>fo_pending := [], fo_lastTerm := t, fo_terms := (fo_terms f)\<lparr>followerTermFile := storeTermUint t\<rparr>\<rparr>
      else f\<lparr>fo_pending := []\<rparr>)\<lparr>fo_failures := 0, fo_connected := True\<rparr>"
  have g: "replica g bs" "\<not> t < fo_lastTerm g" "segmentSize (fo_wal g) = ?mx" "fo_accounts g = fo_accounts f" using rep t by (auto simp: g_def replica_def)
  have mcs: "run_handler applyRecord (fo_accounts g) (concat (map fst cs)) = (m, None)"
    using m(1) rep g(4) by (simp add: replica_def run_handler_append)
  obtain f' where f': "receive g (wire t (log_records cs) @ wire t [head_record ?w]) = receive f' (wire t [head_record ?w])"
    "replica f' (bs @ cs)" "fo_accounts f' = m" "fo_lastTerm f' = fo_lastTerm g"
    using receive_batches [OF g(1) _ g(2) mcs, of "wire t [head_record ?w]"] sh g(3) by (auto simp: ships_last)
  have "receive g (wire t (log_records (bs @ cs)) @ wire t [head_record ?w]) = receive g (wire t (log_records cs) @ wire t [head_record ?w])"
    using replica_old [OF g(1) _ g(2), of ?mx "wire t (log_records cs) @ wire t [head_record ?w]"] sh by (simp add: ships_last log_records_def)
  also have "\<dots> = (f'\<lparr>fo_primaryHead := wal_currentLSN ?w\<rparr>, ConnError)"
    using f'(1) receive_head [of t f' ?w] f'(4) g(2) by simp
  finally have "syncLoop (Some (snd (handleConn t ?w (handshake f)))) f = (f'\<lparr>fo_primaryHead := wal_currentLSN ?w, fo_pending := []\<rparr>, ConnError)"
    using t unfolding req conn syncLoop_def Let_def g_def by (auto simp: not_less le_less)
  moreover have "fo_lastLSN f' = last_LSN (bs @ cs)" "replica (f'\<lparr>fo_primaryHead := wal_currentLSN ?w, fo_pending := []\<rparr>) (bs @ cs)"
    using f'(2) by (simp_all add: replica_def)
  ultimately show ?thesis using f'(3) m(2) sh by (simp add: Lag_def LastLSN_def)
qed

text \<open>C12: A restarted follower resumes where it was. A crash of a follower that has taken over the
  batches \<open>bs\<close>, each of fewer records than the flush threshold of 4096 and numbered without gaps from 1 on,
  after any loss of unsynced bytes, leaves a log from which the follower
  restores its accounts and its position in the primary's log, and it again refuses every
  primary it had refused before.\<close>

theorem follower_restart_resumes:
  assumes "replica f bs" and "ships mx 0 bs" and "syncedOffset (wal_current (fo_wal f)) \<le> n"
    and "loadTermUint (followerTermFile (fo_terms f)) = fo_lastTerm f"
  shows "\<exists>f'. recoverLocalState (NewFollower (fo_terms f) (OpenWAL (crash (fo_wal f) n) (segmentSize (fo_wal f)) False) []) = (f', None) \<and>
    replica f' bs \<and> fo_accounts f' = fo_accounts f \<and> LastLSN f' = LastLSN f \<and> fo_lastTerm f' = fo_lastTerm f"
  using restarted [OF assms(1-3)] assms(4) by (force simp: LastLSN_def NewFollower_def)

subsection \<open>Terms\<close>

lemma load_store [simp]: "loadTermUint (storeTermUint t) = t"
  by (simp add: loadTermUint_def storeTermUint_def)

lemma fo_flush_terms: "fo_flush f = (f', e) \<Longrightarrow> fo_lastTerm f' = fo_lastTerm f \<and> fo_terms f' = fo_terms f"
  by (auto simp: fo_flush_def Let_def split: if_splits sum.splits prod.splits)

lemma handle_frame_terms: "handle_frame f t r = (f', e) \<Longrightarrow> fo_lastTerm f' = fo_lastTerm f \<and> fo_terms f' = fo_terms f"
  by (auto simp: handle_frame_def Let_def split: if_splits prod.splits option.splits dest: fo_flush_terms)

lemma receive_terms: "receive f conn = (f', e) \<Longrightarrow> fo_lastTerm f' = fo_lastTerm f \<and> fo_terms f' = fo_terms f"
proof (induction f conn arbitrary: f' e rule: receive.induct)
  case (1 f conn)
  show ?case
  proof (cases "recv_frame conn")
    case (Inl x)
    then show ?thesis using 1(2) by (simp add: receive.simps)
  next
    case (Inr x)
    obtain t r rest where x: "x = ((t, r), rest)" by (metis prod.collapse)
    obtain g ge where g: "handle_frame f t r = (g, ge)" by fastforce
    show ?thesis
    proof (cases ge)
      case None
      then have "receive g rest = (f', e)" using 1(2) Inr x g by (simp add: receive.simps [of f conn])
      from 1(1) [OF Inr [unfolded x] refl refl g [symmetric, unfolded None] refl this] show ?thesis using handle_frame_terms [OF g] by simp
    next
      case (Some y)
      then show ?thesis using 1(2) Inr x g handle_frame_terms [OF g] by (simp add: receive.simps [of f conn])
    qed
  qed
qed

text \<open>C15: Fencing. Whatever a follower receives on a connection, the highest term it has accepted never
  decreases, and the file it would read after a restart holds it. A stream with a lower term is
  refused before anything of it is read, a frame with a lower term changes nothing, and
  a refusal does not count towards the circuit breaker, so it never costs the follower its state.\<close>

theorem stale_primary_is_refused:
  assumes "loadTermUint (followerTermFile (fo_terms f)) = fo_lastTerm f"
  shows "let f' = fst (syncLoop conn f) in
    fo_lastTerm f \<le> fo_lastTerm f' \<and> loadTermUint (followerTermFile (fo_terms f')) = fo_lastTerm f' \<and>
    fo_lastTerm (NewFollower (fo_terms f') w accs) = fo_lastTerm f' \<and>
    (t < fo_lastTerm f \<longrightarrow> syncLoop (Some (be_bytes 8 t @ rest)) f = (f\<lparr>fo_pending := []\<rparr>, StalePrimary) \<and>
       handle_frame f t r = (f, Some StalePrimary)) \<and>
    after_error f StalePrimary = (f, 500000000)"
proof -
  define f' where "f' = fst (syncLoop conn f)"
  have terms: "fo_lastTerm f \<le> fo_lastTerm f' \<and> loadTermUint (followerTermFile (fo_terms f')) = fo_lastTerm f'"
  proof (cases conn)
    case None
    then show ?thesis using assms(1) by (simp add: f'_def syncLoop_def)
  next
    case (Some received)
    have "fo_lastTerm (fst (receive g xs)) = fo_lastTerm g" "fo_terms (fst (receive g xs)) = fo_terms g" for g xs
      using receive_terms [of g xs] by (metis prod.collapse)+
    with Some assms(1) show ?thesis
      by (auto simp: f'_def syncLoop_def Let_def case_prod_beta)
  qed
  have "t < fo_lastTerm f \<longrightarrow> fo_lastTerm f \<noteq> 0" by auto
  with terms show ?thesis unfolding Let_def f'_def [symmetric]
    by (auto simp: syncLoop_def handle_frame_def after_error_def NewFollower_def Let_def)
qed

text \<open>A promoted follower does not outrank its old primary. \<^verbatim>\<open>BumpTerm\<close> counts from the follower's own
  primary-term file and not from the highest term it has accepted. A node that has only
  been a follower has no such file, so it is promoted to term 1, the term every first
  primary has: followers that have accepted term 1 take frames of both, and followers
  that have accepted a higher term refuse the new primary.\<close>

theorem promotion_does_not_outrank:
  assumes "primaryTermFile (fo_terms f) = None" and "primaryTermFile d = None"
  shows "snd (PrimaryTerm (fst (PromoteToPrimary now ks nanos cfg dir f))) = snd (PrimaryTerm d) \<and>
    (1 < fo_lastTerm g \<longrightarrow> syncLoop (Some (be_bytes 8 (snd (PrimaryTerm (fst (PromoteToPrimary now ks nanos cfg dir f)))) @ rest)) g = (g\<lparr>fo_pending := []\<rparr>, StalePrimary))"
proof -
  have "snd (PrimaryTerm (fst (PromoteToPrimary now ks nanos cfg dir f))) = 1" "snd (PrimaryTerm d) = 1"
    using assms by (simp_all add: PromoteToPrimary_def BumpTerm_def PrimaryTerm_def loadTermUint_def storeTermUint_def)
  then show ?thesis by (auto simp: syncLoop_def Let_def)
qed

subsection \<open>The circuit breaker\<close>

lemma replica_fresh:
  assumes "history_ok w bs d parts rs" and "fo_wal f = Reset w" and "fo_lastLSN f = 0" and "fo_pending f = []" and "fo_accounts f = NewAccountManager"
  shows "replica f []"
proof -
  have "0 < segmentSize w" "\<not> directIO w" using assms(1) by (simp_all add: history_ok_def log_state_def)
  then have "log_state (Reset w) [] []" "all_synced (Reset w)" "ascending (Reset w)" "wal_currentLSN (Reset w) = 0"
    by (simp_all add: log_state_def all_synced_def ascending_def Reset_def openSegment_def file_bytes_def frames_def Let_def)
  moreover from this have "history_ok (Reset w) [] 0 [] []"
    by (simp add: history_ok_def log_records_def parts_records_def frames_def positive_LSNs_def)
  ultimately show ?thesis using assms by (auto simp: replica_def last_LSN_def)
qed

lemma small_word: "sint k \<in> {0, 1, 2, 3, 4, 5, 6} \<Longrightarrow> k \<in> {0, 1, 2, 3, 4, 5, 6}" for k :: i64
proof -
  have "k = n" if "sint k = sint n" for n :: i64 using that by (rule signed_word_eqI)
  from this [of 0] this [of 1] this [of 2] this [of 3] this [of 4] this [of 5] this [of 6]
  show "sint k \<in> {0, 1, 2, 3, 4, 5, 6} \<Longrightarrow> k \<in> {0, 1, 2, 3, 4, 5, 6}" by auto
qed

lemma default_backoff:
  fixes k :: i64
  assumes "0 \<le> sint k" and "sint k < 7"
  shows "sint (let b = shift_left 100000000 (min64 k 6) in if sint b > sint (5000000000 :: i64) then 5000000000 else b) =
    min (100000000 * 2 ^ nat (sint k)) 5000000000"
proof -
  have "sint k \<in> {0, 1, 2, 3, 4, 5, 6}" using assms by auto
  from small_word [OF this] show ?thesis by (auto simp: shift_left_def min64_def push_bit_eq_mult Let_def)
qed

text \<open>C16: The circuit breaker. With the default settings a failed connection keeps the follower's state
  and makes it wait 100 ms, doubled for each further failure up to 5 s, until the eighth failure
  in a row: then it drops its accounts and its log and starts again from the beginning, without
  waiting at all, because the shift count of the pause is then minus one.\<close>

theorem circuit_breaker:
  assumes "history_ok (fo_wal f) bs d parts rs" and "e \<noteq> StalePrimary"
    and "fo_BackoffBase f = 0" and "fo_BackoffMax f = 0" and "fo_BreakerLimit f = 0"
    and "0 \<le> sint (fo_failures f)" and "sint (fo_failures f) < 9223372036854775807"
  shows "case after_error f e of (f', pause) \<Rightarrow>
    if sint (fo_failures f) < 7
    then f' = f\<lparr>fo_failures := fo_failures f + 1\<rparr> \<and> sint pause = min (100000000 * 2 ^ nat (sint (fo_failures f))) 5000000000
    else replica f' [] \<and> fo_failures f' = 0 \<and> pause = 0"
proof -
  have inc: "sint (fo_failures f + 1) = sint (fo_failures f) + 1" using sint_add_nat [of "fo_failures f" 1] assms(6,7) by simp
  have reset: "replica ((fullResync g)\<lparr>fo_failures := 0\<rparr>) []" if "fo_wal g = fo_wal f" for g
    by (rule replica_fresh [OF assms(1)]) (simp_all add: fullResync_def that)
  show ?thesis
  proof (cases "sint (fo_failures f) < 7")
    case True
    with default_backoff [OF assms(6)] assms(2-5) inc show ?thesis
      by (auto simp: after_error_def breakerLimit_def backoffBase_def backoffMax_def Let_def split: if_splits)
  next
    case False
    have "\<not> unat (- 1 :: u64) < 64" by (simp add: unsigned_minus_1_eq_mask mask_eq_exp_minus_1)
    with False assms(2-5) inc reset show ?thesis
      by (simp add: after_error_def breakerLimit_def backoffBase_def backoffMax_def fullResync_def shift_left_def min64_def Let_def)
  qed
qed

subsection \<open>Large batches\<close>

lemma applyRecord_LSN: "applyRecord m (r\<lparr>rec_LSN := l\<rparr>) = applyRecord m r"
  by (simp add: applyRecord_def)

lemma run_apply_stamp: "run_handler applyRecord m (stamp l rs) = run_handler applyRecord m rs"
  by (induction l rs arbitrary: m rule: stamp.induct) (auto simp: applyRecord_LSN split: prod.split option.split)

lemma receive_up_to_threshold:
  assumes "\<forall>r\<in>set qs. sendable r \<and> rec_Type r \<noteq> RecordTypeBatchCommit \<and> rec_Type r \<noteq> RecordTypeHead \<and> sint (fo_lastLSN f) < sint (rec_LSN r)"
    and "length qs = followerFlushThreshold" and "fo_pending f = []" and "\<not> t < fo_lastTerm f"
    and "fo_flush (f\<lparr>fo_pending := qs\<rparr>) = (g, None)"
  shows "receive f (wire t qs @ rest) = receive g rest"
proof -
  have "qs \<noteq> []" using assms(2) by auto
  then have qs: "qs = butlast qs @ [last qs]" and lq: "last qs \<in> set qs" by simp_all
  let ?f = "f\<lparr>fo_pending := butlast qs\<rparr>"
  have "receive f (wire t (butlast qs) @ (wire t [last qs] @ rest)) = receive ?f (wire t [last qs] @ rest)"
    using receive_data [of "butlast qs" f t "wire t [last qs] @ rest"] assms by (auto dest: in_set_butlastD)
  moreover have "handle_frame ?f t (last qs) = (g, None)"
    using assms lq qs by (auto simp: handle_frame_def Let_def)
  moreover have "wire t qs @ rest = wire t (butlast qs) @ (wire t [last qs] @ rest)" by (subst qs) (simp del: append_butlast_last_id)
  ultimately show ?thesis using receive_frame [of "last qs" ?f t rest] assms(1) lq by simp
qed

lemma flush_batch:
  assumes h: "history_ok (fo_wal f) bs d parts rs" and ap: "appendable (fo_wal f) (fo_pending f)" and asc: "ascending (fo_wal f)"
    and run: "run_handler applyRecord (fo_accounts f) (fo_pending f) = (m, None)"
  shows "\<exists>w' d' parts' rs'. fo_flush f = (f\<lparr>fo_pending := [], fo_wal := w', fo_accounts := m\<rparr>, None) \<and>
    history_ok w' (bs @ [appended (fo_wal f) (fo_pending f)]) d' parts' rs' \<and> all_synced w' \<and> ascending w' \<and>
    wal_currentLSN w' = snd (appended (fo_wal f) (fo_pending f)) \<and> segmentSize w' = segmentSize (fo_wal f)"
proof -
  obtain w x d' parts' rs' where w: "AppendBatch (fo_wal f) (fo_pending f) = (w, Inr x)"
    "history_ok (Sync w) (bs @ [appended (fo_wal f) (fo_pending f)]) d' parts' rs'"
    "all_synced (Sync w)" "wal_currentLSN (Sync w) = snd (appended (fo_wal f) (fo_pending f))" "segmentSize (Sync w) = segmentSize (fo_wal f)"
    by (rule history_append [OF h ap])
  have "ascending (Sync w)" using AppendBatch_ascending [OF asc, of "fo_pending f"] w(1) by (simp add: Sync_ascending)
  moreover have "fo_flush f = (f\<lparr>fo_pending := [], fo_wal := Sync w, fo_accounts := m\<rparr>, None)"
    using ap w(1) run by (simp add: fo_flush_def appendable_def Let_def)
  ultimately show ?thesis using w by blast
qed

text \<open>A batch of more records than the flush threshold, numbered from 1 on.\<close>

definition large_batch :: "int \<Rightarrow> batch \<Rightarrow> bool" where
  "large_batch mx b \<longleftrightarrow> followerFlushThreshold < length (fst b) \<and> length (fst b) < 2 * followerFlushThreshold \<and> fst b = stamp 0 (fst b) \<and>
     snd b = of_nat (length (fst b)) + 1 \<and> 29 \<le> mx \<and> length (frames (fst b)) + 29 < 2147483648 \<and>
     (\<forall>r\<in>set (fst b). wf_record r \<and> rec_Type r \<noteq> RecordTypeBatchCommit \<and> rec_Type r \<noteq> RecordTypeHead \<and> int (length (frame_of r)) \<le> mx)"

lemma stamp_append: "stamp l (rs @ qs) = stamp l rs @ stamp (l + of_nat (length rs)) qs"
  by (induction l rs rule: stamp.induct) (simp_all add: add.assoc)

lemma large_batch_parts:
  assumes b: "large_batch mx b"
  defines "p \<equiv> take followerFlushThreshold (fst b)" and "q \<equiv> drop followerFlushThreshold (fst b)"
  shows "fst b = p @ q" "p = stamp 0 p" "length p = followerFlushThreshold" "0 < length q" "length q < followerFlushThreshold"
    "r \<in> set (fst b) \<Longrightarrow> sendable r \<and> 0 < sint (rec_LSN r)"
proof -
  have len: "followerFlushThreshold < length (fst b)" "length (fst b) < 2 * followerFlushThreshold" using b by (simp_all add: large_batch_def)
  show pq: "fst b = p @ q" "length p = followerFlushThreshold" "0 < length q" "length q < followerFlushThreshold"
    using len by (auto simp: p_def q_def)
  have st: "fst b = stamp 0 (fst b)" using b by (simp add: large_batch_def)
  then have "p @ q = stamp 0 p @ stamp (of_nat (length p)) q" using pq(1) stamp_append [of 0 p q] by simp
  then show "p = stamp 0 p" by (simp add: append_eq_append_conv)
  assume r: "r \<in> set (fst b)"
  then obtain i where i: "i < length (fst b)" "r = fst b ! i" by (auto simp: in_set_conv_nth)
  then have "r = (fst b ! i)\<lparr>rec_LSN := 0 + of_nat (Suc i)\<rparr>" using st stamp_nth [OF i(1), of 0] by metis
  from arg_cong [OF this, of rec_LSN] have "rec_LSN r = 0 + of_nat (Suc i)" by simp
  then have "0 < sint (rec_LSN r)" using sint_add_nat [of 0 "Suc i"] i(1) len(2) by (simp del: of_nat_Suc)
  moreover have "sendable r" using b length_frame_le [OF r] by (auto simp: large_batch_def sendable_def length_frame_of)
  ultimately show "sendable r \<and> 0 < sint (rec_LSN r)" by blast
qed

lemma stamp_bounds:
  assumes "0 \<le> sint l" and "sint l + int (length rs) < 9223372036854775808"
  shows "r \<in> set (stamp l rs) \<Longrightarrow> sint l < sint (rec_LSN r) \<and> sint (rec_LSN r) \<le> sint l + int (length rs)"
    "rs \<noteq> [] \<Longrightarrow> sint (rec_LSN (last (stamp l rs))) = sint l + int (length rs)"
proof -
  have nth: "sint (rec_LSN (stamp l rs ! i)) = sint l + int (Suc i)" if "i < length rs" for i
    using stamp_nth [OF that, of l] sint_add_nat [OF assms(1), of "Suc i"] assms(2) that by (simp del: of_nat_Suc)
  then show "r \<in> set (stamp l rs) \<Longrightarrow> sint l < sint (rec_LSN r) \<and> sint (rec_LSN r) \<le> sint l + int (length rs)"
    by (auto simp: in_set_conv_nth)
  show "rs \<noteq> [] \<Longrightarrow> sint (rec_LSN (last (stamp l rs))) = sint l + int (length rs)"
    using nth [of "length rs - 1"] last_conv_nth [of "stamp l rs"] by (cases rs) auto
qed

lemma receive_large:
  assumes rep: "replica f []" and b: "large_batch (segmentSize (fo_wal f)) b" and fresh: "\<not> t < fo_lastTerm f"
    and run: "run_handler applyRecord NewAccountManager (fst b) = (m, None)"
  defines "q \<equiv> stamp 4097 (drop followerFlushThreshold (fst b))"
  obtains f' d parts rs where "receive f (wire t (batch_records b)) = (f', ConnError)" "fo_lastLSN f' = snd b" "fo_lastTerm f' = fo_lastTerm f"
    "history_ok (fo_wal f') [(take followerFlushThreshold (fst b), 4097), (q, snd b + 1)] d parts rs" "all_synced (fo_wal f')" "ascending (fo_wal f')"
    "run_handler applyRecord NewAccountManager (take followerFlushThreshold (fst b) @ q) = (m, None)"
proof -
  define p where "p = take followerFlushThreshold (fst b)"
  define q0 where "q0 = drop followerFlushThreshold (fst b)"
  note lb = large_batch_parts [OF b, folded p_def q0_def]
  let ?w = "fo_wal f" and ?c = "commit_record (snd b) (length (fst b))"
  obtain d parts rs where h: "history_ok ?w [] d parts rs" and asc: "ascending ?w" and lsn: "wal_currentLSN ?w = 0" "fo_lastLSN f = 0" "fo_pending f = []"
    "fo_accounts f = NewAccountManager" using rep by (auto simp: replica_def last_LSN_def)
  obtain m1 where m1: "run_handler applyRecord NewAccountManager p = (m1, None)" "run_handler applyRecord m1 q0 = (m, None)"
    using run unfolding lb(1) by (auto simp: run_handler_append split: prod.splits option.splits)
  have len: "length (frames p) + 29 < 2147483648" "length (frames q0) + 29 < 2147483648" "29 \<le> segmentSize ?w"
    using b lb(1) by (auto simp: large_batch_def frames_append)
  have recs: "\<forall>r\<in>set (fst b). wf_record r \<and> rec_Type r \<noteq> RecordTypeBatchCommit \<and> rec_Type r \<noteq> RecordTypeHead \<and> int (length (frame_of r)) \<le> segmentSize ?w"
    using b by (simp add: large_batch_def)
  have ok: "\<forall>r\<in>set p. r \<in> set (fst b)" "\<forall>r\<in>set q0. r \<in> set (fst b)" using lb(1) by auto
  have app: "appended ?w p = (p, 4097)" using lb(2,3) lsn(1) by (simp add: appended_def)
  let ?f1 = "f\<lparr>fo_pending := p\<rparr>"
  have "appendable ?w p" using len recs ok lb(3) lsn(1) by (auto simp: appendable_def)
  then obtain w1 d1 parts1 rs1 where w1: "fo_flush ?f1 = (?f1\<lparr>fo_pending := [], fo_wal := w1, fo_accounts := m1\<rparr>, None)"
    "history_ok w1 [(p, 4097)] d1 parts1 rs1" "ascending w1" "wal_currentLSN w1 = 4097" "segmentSize w1 = segmentSize ?w"
    using flush_batch [of ?f1 "[]" d parts rs m1] h asc m1(1) lsn(4) by (auto simp: app)
  let ?g = "f\<lparr>fo_pending := [], fo_wal := w1, fo_accounts := m1\<rparr>" and ?g1 = "f\<lparr>fo_wal := w1, fo_accounts := m1, fo_pending := q0\<rparr>"
  have app2: "appended w1 q0 = (q, snd b + 1)"
  proof -
    have "length (fst b) = 4096 + length q0" using lb(1,3) by simp
    then have "snd b = of_nat (4096 + length q0) + 1" using b by (simp add: large_batch_def)
    then show ?thesis by (simp add: appended_def w1(4) q_def q0_def)
  qed
  have "appendable w1 q0" using len recs ok lb(4,5) w1(4,5) by (auto simp: appendable_def)
  then obtain w2 d2 parts2 rs2 where w2: "fo_flush ?g1 = (?g1\<lparr>fo_pending := [], fo_wal := w2, fo_accounts := m\<rparr>, None)"
    "history_ok w2 [(p, 4097), (q, snd b + 1)] d2 parts2 rs2" "all_synced w2" "ascending w2"
    using flush_batch [of ?g1 "[(p, 4097)]" d1 parts1 rs1 m] w1 m1(2) by (auto simp: app2)
  have "receive f (wire t p @ (wire t q0 @ wire t [?c])) = receive ?g (wire t q0 @ wire t [?c])"
    using lb(3,6) recs ok lsn fresh w1(1) by (intro receive_up_to_threshold) auto
  also have "\<dots> = receive ?g1 (wire t [?c])"
    using receive_data [of q0 ?g t "wire t [?c]"] lb(5,6) recs ok lsn fresh by simp
  also have "\<dots> = ((?g1\<lparr>fo_pending := [], fo_wal := w2, fo_accounts := m\<rparr>)\<lparr>fo_lastLSN := snd b\<rparr>, ConnError)"
  proof -
    have "sendable ?c" by (simp add: sendable_def commit_record_def commit_payload_layout)
    moreover have "0 < sint (snd b)"
      using b sint_add_nat [of 0 "Suc (length (fst b))"] by (simp add: large_batch_def add.commute)
    ultimately show ?thesis
      using receive_frame [of ?c ?g1 t "[]"] w2(1) lsn(2) fresh receive_end by (simp add: handle_frame_def Let_def)
  qed
  finally have "receive f (wire t (batch_records b)) = ((?g1\<lparr>fo_pending := [], fo_wal := w2, fo_accounts := m\<rparr>)\<lparr>fo_lastLSN := snd b\<rparr>, ConnError)"
    using lb(1) by (simp add: batch_records_def)
  moreover have "run_handler applyRecord NewAccountManager (p @ q) = (m, None)"
    using m1 by (simp add: run_handler_append run_apply_stamp q_def q0_def)
  ultimately show ?thesis using w2 that unfolding p_def by fastforce
qed

text \<open>A large batch and a restart lose a record. A follower writes a batch of more records than its
  flush threshold as two local batches, with one more commit marker and hence one more LSN
  than the primary. As long as it runs its position is right; after a restart it takes the
  position from its own LSNs, is ahead of the primary by one, and discards the next
  record of the primary's log as a duplicate.\<close>

theorem large_batch_shifts_position:
  assumes rep: "replica f []" and b: "large_batch (segmentSize (fo_wal f)) b" and fresh: "\<not> t < fo_lastTerm f"
    and run: "run_handler applyRecord NewAccountManager (fst b) = (m, None)"
    and r: "rec_LSN r = snd b + 1" "rec_Type r = RecordTypeTransfer" and d: "loadTermUint (followerTermFile d) \<le> t"
  shows "\<exists>f' f''. receive f (wire t (batch_records b)) = (f', ConnError) \<and> LastLSN f' = snd b \<and>
    recoverLocalState (NewFollower d (OpenWAL (crash (fo_wal f') (syncedOffset (wal_current (fo_wal f')))) (segmentSize (fo_wal f')) False) []) = (f'', None) \<and>
    LastLSN f'' = snd b + 1 \<and> handle_frame f'' t r = (f'', None)"
proof -
  define p where "p = take followerFlushThreshold (fst b)"
  define q0 where "q0 = drop followerFlushThreshold (fst b)"
  define q where "q = stamp 4097 q0"
  note lb = large_batch_parts [OF b, folded p_def q0_def]
  obtain f' dd parts rs where f': "receive f (wire t (batch_records b)) = (f', ConnError)" "fo_lastLSN f' = snd b" "fo_lastTerm f' = fo_lastTerm f"
    "history_ok (fo_wal f') [(p, 4097), (q, snd b + 1)] dd parts rs" "all_synced (fo_wal f')" "ascending (fo_wal f')"
    "run_handler applyRecord NewAccountManager (p @ q) = (m, None)"
    using receive_large [OF rep b fresh run, folded p_def q0_def q_def] by blast
  let ?g = "\<lambda>x r. if sint (rec_LSN r) > sint x then rec_LSN r else x"
  have n: "length (fst b) = 4096 + length q0" "snd b = of_nat (4097 + length q0)" using lb(1,3) b by (simp_all add: large_batch_def)
  have p: "sint (rec_LSN r) \<le> 4096" if "r \<in> set p" for r using stamp_bounds(1) [of 0 p r] lb(2,3) that by simp
  have s4097: "sint (4097 :: i64) = 4097" by simp
  have q: "sint (rec_LSN r) \<le> 4097 + int (length q0)" if "r \<in> set q" for r
    using stamp_bounds(1) [of 4097 q0 r] lb(5) that by (simp add: q_def)
  have q0: "q0 \<noteq> []" using lb(4) by auto
  then have qne: "q \<noteq> []" unfolding q_def by (metis length_0_conv length_stamp)
  with q0 have last: "sint (rec_LSN (last (p @ q))) = 4097 + int (length q0)"
    using stamp_bounds(2) [of 4097 q0] lb(5) by (simp add: q_def)
  have types: "\<forall>r\<in>set (p @ q). rec_Type r \<noteq> RecordTypeBatchCommit \<and> rec_Type r \<noteq> RecordTypeHead"
  proof -
    have "\<forall>r\<in>set (fst b). rec_Type r \<noteq> RecordTypeBatchCommit \<and> rec_Type r \<noteq> RecordTypeHead" using b by (simp add: large_batch_def)
    then show ?thesis using stamp_all [of q0 "\<lambda>t p. t \<noteq> RecordTypeBatchCommit \<and> t \<noteq> RecordTypeHead" 4097] lb(1) by (auto simp: q_def)
  qed
  have "foldl ?g 0 (p @ q) = rec_LSN (last (p @ q))"
    using p q last qne by (intro foldl_max_LSN) force+
  moreover have "rec_LSN (last (p @ q)) = of_nat (4097 + length q0)"
  proof -
    have "sint (rec_LSN (last (p @ q))) = sint (of_nat (4097 + length q0) :: i64)" using last sint_add_nat [of 0 "4097 + length q0"] lb(5) by simp
    then show ?thesis by (rule signed_word_eqI)
  qed
  ultimately have run': "run_handler local_handler (NewAccountManager, 0) (concat (map fst [(p, 4097), (q, snd b + 1)])) = ((m, of_nat (4097 + length q0)), None)"
    using handled_local [OF f'(7) types, of 0] by simp
  obtain w' where w': "Recover (OpenWAL (crash (fo_wal f') (syncedOffset (wal_current (fo_wal f')))) (segmentSize (fo_wal f')) False) local_handler (NewAccountManager, 0) =
      (w', (m, of_nat (4097 + length q0)), None)"
    using reopen [OF f'(4,5) order_refl f'(6) run'] by blast
  let ?f = "NewFollower d (OpenWAL (crash (fo_wal f') (syncedOffset (wal_current (fo_wal f')))) (segmentSize (fo_wal f')) False) []"
  have pos: "0 < sint (of_nat (4097 + length q0) :: i64)" using sint_add_nat [of 0 "4097 + length q0"] lb(5) by simp
  then have "recoverLocalState ?f = (?f\<lparr>fo_wal := w', fo_accounts := m, fo_lastLSN := snd b + 1\<rparr>, None)"
    using w' n(2) by (simp add: recoverLocalState_def NewFollower_def Let_def del: of_nat_add)
  moreover have "handle_frame (?f\<lparr>fo_wal := w', fo_accounts := m, fo_lastLSN := snd b + 1\<rparr>) t r = (?f\<lparr>fo_wal := w', fo_accounts := m, fo_lastLSN := snd b + 1\<rparr>, None)"
    using r d by (auto simp: handle_frame_def NewFollower_def Let_def)
  ultimately show ?thesis using f'(1,2) by (auto simp: LastLSN_def)
qed

subsection \<open>Promotion\<close>

lemma BumpTerm_stores:
  "loadTermUint (primaryTermFile (fst (BumpTerm d))) = loadTermUint (primaryTermFile d) + 1"
  "followerTermFile (fst (BumpTerm d)) = followerTermFile d"
  by (simp_all add: BumpTerm_def Let_def loadTermUint_def storeTermUint_def)

text \<open>C14: A promoted follower takes over. If a follower has taken over the whole log of a ledger, then promoting
  it, with no snapshot in its directory, the checkpointer off (\<^verbatim>\<open>SnapshotInterval\<close> at most 0) and a
  valid ring size, starts a ledger that is ready to serve, continues the sequence numbers of the log,
  and has exactly the accounts, holds, heap, clock and history the follower had; these are the
  old primary's, up to the holds that expired since the last logged batch. The node's own primary term
  grows by one and is stored, the term it accepted as a follower stays stored, and initial accounts
  in the configuration are ignored.\<close>

theorem promotion_takes_over:
  assumes run: "runs l bs" and rep: "replica f bs" and cfg: "SnapshotInterval cfg \<le> 0" "NewRingBuffer transfer0 (RingBufferSize cfg) = Inr rb"
  shows "\<exists>d ld. PromoteToPrimary now ks nanos cfg [] f = (d, Inr ld) \<and> Ready ld \<and> wal_currentLSN (el_wal (ld_loop ld)) = last_LSN bs \<and>
    el_accounts (ld_loop ld) = fo_accounts f \<and>
    el_accounts l = CloseExpired (SetClock (el_accounts (ld_loop ld)) (clock (el_accounts l))) \<and>
    loadTermUint (primaryTermFile d) = loadTermUint (primaryTermFile (fo_terms f)) + 1 \<and>
    followerTermFile d = followerTermFile (fo_terms f)"
proof -
  let ?store = "NewIdempotencyStore (IdempotencyMaxSize cfg) (IdempotencyTTL cfg)"
  obtain d0 parts rs where h: "history_ok (fo_wal f) bs d0 parts rs" and asc: "ascending (fo_wal f)" and lsn: "wal_currentLSN (fo_wal f) = last_LSN bs"
    using rep by (auto simp: replica_def)
  have "replays bs (el_accounts l)" using runs_inv [OF run] by (simp add: run_inv_def)
  then obtain m s where m: "run_handler (replay_record now) (NewAccountManager, ?store) (concat (map fst bs)) = ((m, s), None)" "lags m (el_accounts l)"
    using settled_new unfolding replays_def by blast
  have same: "m = fo_accounts f" using run_applyRecord [OF indexed_new m(1)] rep by (simp add: replica_def)
  have dir: "\<not> directIO (fo_wal f)" using h by (simp add: history_ok_def log_state_def)
  obtain w' where w': "Recover (fo_wal f) (replay_record now) (NewAccountManager, ?store) = (w', (m, s), None)" "wal_currentLSN w' = last_LSN bs"
    using recover_log [OF h asc m(1) refl disjI2 [OF lsn] refl dir] by blast
  have "RingBufferSize cfg \<noteq> 0" using cfg(2) by (auto simp: NewRingBuffer_def)
  with w' cfg have "\<exists>d ld. PromoteToPrimary now ks nanos cfg [] f = (d, Inr ld) \<and> Ready ld \<and> wal_currentLSN (el_wal (ld_loop ld)) = last_LSN bs \<and>
      el_accounts (ld_loop ld) = m \<and> d = fst (BumpTerm (fo_terms f))"
    by (simp add: PromoteToPrimary_def BumpTerm_def NewLedger_def write_initial_def load_snapshot_def Latest_def RecoverFromSnapshot_def Recover_def Ready_def NewEventLoop_def Let_def)
  with m(2) same show ?thesis by (auto simp: lags_def BumpTerm_stores)
qed

subsection \<open>A sample follower\<close>

definition sample_follower :: follower where
  "sample_follower = NewFollower \<lparr>primaryTermFile = None, followerTermFile = None\<rparr> (OpenWAL [] 1000 False) []"

abbreviation sample_log :: "batch list" where
  "sample_log \<equiv> logs (el_wal sample_loop) (create_log sample_loop [sample_account 1 100, sample_account 2 0])"

lemma sample_follower_fresh:
  "replica sample_follower []" "segmentSize (fo_wal sample_follower) = 1000" "fo_lastTerm sample_follower = 0"
  "history_ok (fo_wal sample_follower) [] 0 [] []"
proof -
  have w: "fo_wal sample_follower = OpenWAL [] 1000 False" "fo_pending sample_follower = []" "fo_accounts sample_follower = NewAccountManager" "fo_lastLSN sample_follower = 0"
    by (simp_all add: sample_follower_def NewFollower_def)
  have "log_state (OpenWAL [] 1000 False) [] []" by (simp add: log_state_def OpenWAL_def openSegment_def file_bytes_def frames_def Let_def)
  then show h: "history_ok (fo_wal sample_follower) [] 0 [] []"
    by (simp add: w history_ok_def log_records_def parts_records_def frames_def positive_LSNs_def)
  have "all_synced (OpenWAL [] 1000 False)" by (simp add: all_synced_def OpenWAL_def openSegment_def file_bytes_def Let_def)
  with h w reach_ascending [OF wal_reach.opened [of 1000]] show "replica sample_follower []" by (auto simp: replica_def last_LSN_def)
  show "segmentSize (fo_wal sample_follower) = 1000" "fo_lastTerm sample_follower = 0"
    by (simp_all add: w) (simp add: sample_follower_def NewFollower_def loadTermUint_def)
qed

abbreviation sample_recs :: "wal_record list" where
  "sample_recs \<equiv> create_log sample_loop [sample_account 1 100, sample_account 2 0]"

abbreviation sample_entry :: batch where
  "sample_entry \<equiv> appended (OpenWAL [] 1000 False) sample_recs"

lemma sample_log_batch:
  "sample_log = [sample_entry]" "length sample_recs = 2" "snd sample_entry = 3" "appendable (OpenWAL [] 1000 False) sample_recs"
  "length (fst sample_entry) = 2" "r \<in> set sample_recs \<Longrightarrow> length (frame_of r) \<le> 161"
proof -
  show len: "length sample_recs = 2" unfolding create_log_def sample_loop_wal by code_simp
  then have ne: "sample_recs \<noteq> []" by auto
  then show "sample_log = [sample_entry]" by (simp add: logs_def)
  show "appendable (OpenWAL [] 1000 False) sample_recs"
    using creates_step(1) [OF runs_inv [OF runs.start [of 1000, folded sample_loop_def]] sample_accounts_wf] ne by simp
  show "snd sample_entry = 3" "length (fst sample_entry) = 2" using len by (simp_all add: appended_def)
  show "r \<in> set sample_recs \<Longrightarrow> length (frame_of r) \<le> 161" by (rule create_log_records(2) [OF sample_accounts_wf(1)])
qed

lemma served_files:
  "wal_files (el_wal served_loop) = [(1, frames (batch_records sample_entry))]" "peekSegmentMaxLSN (frames (batch_records sample_entry)) = 3"
proof -
  let ?w = "OpenWAL [] 1000 False"
  note sl = sample_log_batch
  have lens: "length (frames sample_recs) \<le> 322"
  proof -
    have "length (frames rs) \<le> 161 * length rs" if "\<forall>r\<in>set rs. length (frame_of r) \<le> 161" for rs
      using that by (induction rs) (auto simp: frames_def)
    from this [of sample_recs] sl(2,6) show ?thesis by simp
  qed
  have st: "log_state ?w [] []" using sample_follower_fresh(4) by (simp add: history_ok_def sample_follower_def NewFollower_def)
  have fits: "fits ?w sample_recs" using lens st by (simp add: fits_def log_state_def frames_def [of "[]"])
  obtain w' x where w': "AppendBatch ?w sample_recs = (w', Inr x)" using append_synced [OF wal_reach.opened sl(4)] by blast
  have "currentID ?w = 1" by (simp add: OpenWAL_def openSegment_def Let_def)
  with append_fits [OF st sl(4) fits] w' have w1: "log_state w' [] (batch_records sample_entry)" "currentID w' = 1" by simp_all
  have "el_wal served_loop = Sync w'"
    using processAccountCreate_wal [of sample_loop "[sample_account 1 100, sample_account 2 0]" w' x] w' sl(2) unfolding served_loop_def by auto
  then show "wal_files (el_wal served_loop) = [(1, frames (batch_records sample_entry))]"
    using Sync_synced [OF w1(1)] w1(2) by (simp add: log_state_def)
  have "wf_batch sample_entry" "positive_LSNs [sample_entry]" using appended_ok [OF sl(4)] by simp_all
  moreover have "length (rec_Payload r) \<le> peekMaxPayload" if "r \<in> set (fst sample_entry)" for r
    using stamp_all [of sample_recs "\<lambda>t p. 13 + length p + 4 \<le> 161" 0] sl(6) that by (fastforce simp: appended_def length_frame_of)
  moreover have "length (rec_Payload (commit_record l n)) = 12" for l n by (simp add: commit_record_def commit_payload_layout)
  ultimately have "\<forall>r\<in>set (batch_records sample_entry). peekable r"
    using wf_batch_records [of sample_entry] by (simp add: peekable_def positive_LSNs_def batch_records_def)
  moreover have "length (frames (batch_records sample_entry)) \<le> peekTailChunk" using AppendBatch_encoded(2) [OF sl(4)] lens by simp
  ultimately show "peekSegmentMaxLSN (frames (batch_records sample_entry)) = 3"
    using peek_last [of "batch_records sample_entry"] sl(3) by (simp add: batch_records_def)
qed

lemma sample_replica:
  obtains f where "replica f sample_log" "ships 1000 0 sample_log" "fo_lastTerm f = 0" "fo_terms f = \<lparr>primaryTermFile = None, followerTermFile = None\<rparr>"
    "run_handler applyRecord NewAccountManager (concat (map fst sample_log)) = (fo_accounts f, None)"
proof -
  have few: "\<forall>b\<in>set sample_log. length (fst b) < followerFlushThreshold" using sample_log_batch by simp
  have sh: "ships 1000 0 sample_log" using runs_ships [OF served_runs _ few, of 1000] by simp
  obtain m where m: "run_handler applyRecord NewAccountManager (concat (map fst sample_log)) = (m, None)" using runs_apply [OF served_runs] by blast
  have "fo_accounts sample_follower = NewAccountManager" "fo_terms sample_follower = \<lparr>primaryTermFile = None, followerTermFile = None\<rparr>"
    by (simp_all add: sample_follower_def NewFollower_def)
  with receive_batches [OF sample_follower_fresh(1), of sample_log 1 m "[]"] sh m sample_follower_fresh(2,3) that
  show ?thesis by (auto simp: last_LSN_def)
qed

subsection \<open>Witnesses\<close>

theorem replica_follows_primary_witness:
  "\<exists>f'. syncLoop (Some (snd (handleConn 1 (el_wal served_loop) (handshake sample_follower)))) sample_follower = (f', ConnError) \<and>
     replica f' sample_log \<and> el_accounts served_loop = CloseExpired (SetClock (fo_accounts f') (clock (el_accounts served_loop)))"
proof -
  have "\<forall>b\<in>set ([] @ sample_log). length (fst b) < followerFlushThreshold" using sample_log_batch by simp
  moreover have "\<forall>f\<in>set (wal_files (el_wal served_loop)). sint (last_LSN [] + 1) < sint (peekSegmentMaxLSN (snd f))"
    using served_files by (simp add: last_LSN_def)
  moreover have "runs served_loop ([] @ sample_log)" using served_runs by simp
  ultimately show ?thesis
    using replica_follows_primary [of served_loop "[]" sample_log sample_follower 1] sample_follower_fresh(1-3) by auto
qed

theorem follower_restart_resumes_witness:
  "\<exists>f f'. replica f sample_log \<and>
     recoverLocalState (NewFollower (fo_terms f) (OpenWAL (crash (fo_wal f) (syncedOffset (wal_current (fo_wal f)))) (segmentSize (fo_wal f)) False) []) = (f', None) \<and>
     fo_accounts f' = fo_accounts f \<and> LastLSN f' = 3"
proof -
  obtain f where f: "replica f sample_log" "ships 1000 0 sample_log" "fo_lastTerm f = 0" "fo_terms f = \<lparr>primaryTermFile = None, followerTermFile = None\<rparr>"
    by (rule sample_replica)
  have "loadTermUint (followerTermFile (fo_terms f)) = fo_lastTerm f" using f(3,4) by (simp add: loadTermUint_def)
  moreover have "LastLSN f = 3" using f(1) sample_log_batch by (simp add: LastLSN_def replica_def last_LSN_def)
  ultimately show ?thesis using follower_restart_resumes [OF f(1,2) order_refl] f(1) by metis
qed

theorem promotion_takes_over_witness:
  "\<exists>f d ld. replica f sample_log \<and> PromoteToPrimary (\<lambda>_. 5) [] 0 DefaultConfig [] f = (d, Inr ld) \<and> Ready ld \<and>
     el_accounts (ld_loop ld) = fo_accounts f \<and> sample_manager = CloseExpired (SetClock (el_accounts (ld_loop ld)) 0)"
proof -
  obtain f where f: "replica f sample_log" by (rule sample_replica)
  obtain rb where rb: "NewRingBuffer transfer0 (RingBufferSize DefaultConfig) = Inr rb" by (simp add: NewRingBuffer_def DefaultConfig_def)
  have "SnapshotInterval DefaultConfig \<le> 0" by (simp add: DefaultConfig_def)
  moreover have "el_accounts served_loop = sample_manager" "clock sample_manager = 0"
    by (simp_all add: served_state sample_manager_def Create_def NewAccountManager_def sample_account_def ident_of_def)
  ultimately show ?thesis using promotion_takes_over [OF served_runs f _ rb, of "\<lambda>_. 5" "[]" 0] f by auto
qed

theorem stale_primary_is_refused_witness:
  "let f = NewFollower \<lparr>primaryTermFile = None, followerTermFile = Some (be_bytes 8 (5 :: u64))\<rparr> (OpenWAL [] 1000 False) []
   in handle_frame f 3 (sample_record 1) = (f, Some StalePrimary)"
proof -
  let ?f = "NewFollower \<lparr>primaryTermFile = None, followerTermFile = Some (be_bytes 8 (5 :: u64))\<rparr> (OpenWAL [] 1000 False) []"
  have "fo_lastTerm ?f = 5" "loadTermUint (followerTermFile (fo_terms ?f)) = fo_lastTerm ?f" by (simp_all add: NewFollower_def loadTermUint_def)
  with stale_primary_is_refused [of ?f None "OpenWAL [] 1000 False" "[]" 3 "[]" "sample_record 1"] show ?thesis by (simp add: Let_def)
qed

theorem promotion_does_not_outrank_witness:
  "snd (PrimaryTerm (fst (PromoteToPrimary (\<lambda>_. 5) [] 0 DefaultConfig [] sample_follower))) =
   snd (PrimaryTerm \<lparr>primaryTermFile = None, followerTermFile = None\<rparr>)"
  using promotion_does_not_outrank [of sample_follower "\<lparr>primaryTermFile = None, followerTermFile = None\<rparr>" "\<lambda>_. 5" "[]" 0 DefaultConfig "[]"]
  by (simp add: sample_follower_def NewFollower_def)

theorem circuit_breaker_witness:
  "sint (snd (after_error sample_follower ConnError)) = 100000000 \<and> replica (fst (after_error (sample_follower\<lparr>fo_failures := 7\<rparr>) ConnError)) []"
proof -
  have "fo_BackoffBase sample_follower = 0" "fo_BackoffMax sample_follower = 0" "fo_BreakerLimit sample_follower = 0" "fo_failures sample_follower = 0"
    by (simp_all add: sample_follower_def NewFollower_def)
  with circuit_breaker [of sample_follower "[]" 0 "[]" "[]" ConnError] circuit_breaker [of "sample_follower\<lparr>fo_failures := 7\<rparr>" "[]" 0 "[]" "[]" ConnError]
    sample_follower_fresh(4) show ?thesis by (simp add: case_prod_beta)
qed

definition marks :: batch where
  "marks = (stamp 0 (replicate 4097 \<lparr>rec_LSN = 0, rec_Type = RecordTypeCheckpoint, rec_Payload = []\<rparr>), 4098)"

lemma marks_large: "large_batch 1000 marks"
proof -
  let ?c = "\<lparr>rec_LSN = 0, rec_Type = RecordTypeCheckpoint, rec_Payload = []\<rparr> :: wal_record"
  have "stamp l (stamp l rs) = stamp l rs" for l and rs :: "wal_record list" by (induction l rs rule: stamp.induct) simp_all
  moreover have "\<forall>r\<in>set (stamp 0 (replicate 4097 ?c)). rec_Type r = RecordTypeCheckpoint \<and> rec_Payload r = []"
    by (rule stamp_all) simp
  moreover have "length (frames (replicate n ?c)) = 17 * n" for n by (induction n) (simp_all add: frames_def length_frame_of)
  ultimately show ?thesis by (simp add: large_batch_def marks_def wf_record_def length_frame_of)
qed

theorem large_batch_shifts_position_witness:
  "\<exists>f' f''. receive sample_follower (wire 1 (batch_records marks)) = (f', ConnError) \<and> LastLSN f' = 4098 \<and>
     recoverLocalState (NewFollower \<lparr>primaryTermFile = None, followerTermFile = None\<rparr>
       (OpenWAL (crash (fo_wal f') (syncedOffset (wal_current (fo_wal f')))) (segmentSize (fo_wal f')) False) []) = (f'', None) \<and>
     LastLSN f'' = 4099"
proof -
  have "run_handler applyRecord m rs = (m, None)" if "\<forall>r\<in>set rs. rec_Type r = RecordTypeCheckpoint" for m rs
    using that by (induction rs) (simp_all add: applyRecord_def)
  moreover have "\<forall>r\<in>set (fst marks). rec_Type r = RecordTypeCheckpoint"
    unfolding marks_def fst_conv by (rule stamp_all) simp
  ultimately have "run_handler applyRecord NewAccountManager (fst marks) = (NewAccountManager, None)" by blast
  with large_batch_shifts_position [OF sample_follower_fresh(1), of marks 1 NewAccountManager "sample_record 4099"
      "\<lparr>primaryTermFile = None, followerTermFile = None\<rparr>"] marks_large sample_follower_fresh(2,3)
  show ?thesis by (simp add: marks_def sample_record_def loadTermUint_def) blast
qed

end
