(* ===== verification/Log_Audit.thy ===== *)
theory Log_Audit
  imports Replication
begin

text \<open>
  The independent auditor (\<^verbatim>\<open>internal/audit/audit.go\<close>): it walks the segment files of a log, checks
  checksums, sequence numbers and batch counts, and replays the records with 64-bit balances of
  its own. The names of the segments are their numbers and the texts of the findings are left
  out; Go ranges over maps in an unspecified order, so the orders in which the balances and
  the ledgers are visited at the end are arguments.

  The log of a ledger passes the audit, damage to a frame is reported, and a batch without its
  commit marker at the end of the log is not noticed.
\<close>

subsection \<open>The report\<close>

datatype violationKind =
    ViolationCorruptFrame
  | ViolationTornTail
  | ViolationBatchCount
  | ViolationLSNOrder
  | ViolationConservation
  | ViolationDuplicateKey
  | ViolationUnknownRecord

record violation =
  v_Kind :: violationKind
  v_Segment :: "nat option"
  v_LSN :: u64

record report =
  rp_Segments :: nat
  rp_Records :: nat
  rp_Batches :: nat
  rp_Accounts :: nat
  rp_Transfers :: nat
  rp_TornTail :: "violation option"
  rp_Violations :: "violation list"

definition Valid :: "report \<Rightarrow> bool" where
  "Valid r \<longleftrightarrow> rp_Violations r = []"

record audit_bal =
  ab_credits :: u64
  ab_debits :: u64
  ab_ledger :: u32

record auditor =
  au_rep :: report
  au_balances :: "ident \<rightharpoonup> audit_bal"
  au_injected :: "u32 \<rightharpoonup> u64"
  au_keys :: "bytes \<rightharpoonup> ident"
  au_transferIDs :: "ident \<rightharpoonup> nat"
  au_pendings :: "ident \<rightharpoonup> transfer"
  au_pendingCount :: nat
  au_prevLSN :: u64

definition auditor0 :: "nat \<Rightarrow> auditor" where
  "auditor0 segments =
     \<lparr>au_rep = \<lparr>rp_Segments = segments, rp_Records = 0, rp_Batches = 0, rp_Accounts = 0, rp_Transfers = 0, rp_TornTail = None, rp_Violations = []\<rparr>,
      au_balances = Map.empty, au_injected = Map.empty, au_keys = Map.empty, au_transferIDs = Map.empty, au_pendings = Map.empty,
      au_pendingCount = 0, au_prevLSN = 0\<rparr>"

definition violate :: "violationKind \<Rightarrow> nat option \<Rightarrow> u64 \<Rightarrow> auditor \<Rightarrow> auditor" where
  "violate kind seg lsn a =
     a\<lparr>au_rep := (au_rep a)\<lparr>rp_Violations := rp_Violations (au_rep a) @ [\<lparr>v_Kind = kind, v_Segment = seg, v_LSN = lsn\<rparr>]\<rparr>\<rparr>"

definition torn :: "nat option \<Rightarrow> u64 \<Rightarrow> auditor \<Rightarrow> auditor" where
  "torn seg lsn a =
     (let v = \<lparr>v_Kind = ViolationTornTail, v_Segment = seg, v_LSN = lsn\<rparr>
      in a\<lparr>au_rep := (au_rep a)\<lparr>rp_Violations := rp_Violations (au_rep a) @ [v], rp_TornTail := Some v\<rparr>\<rparr>)"

text \<open>Reading a missing key of a Go map gives zero.\<close>

definition at0 :: "('k \<rightharpoonup> 'w::len word) \<Rightarrow> 'k \<Rightarrow> 'w word" where
  "at0 m k = (case m k of None \<Rightarrow> 0 | Some v \<Rightarrow> v)"

subsection \<open>Transfers\<close>

definition add_debit :: "ident \<Rightarrow> u64 \<Rightarrow> (ident \<rightharpoonup> audit_bal) \<Rightarrow> ident \<rightharpoonup> audit_bal" where
  "add_debit i x bs = (case bs i of None \<Rightarrow> bs | Some b \<Rightarrow> bs(i \<mapsto> b\<lparr>ab_debits := ab_debits b + x\<rparr>))"

definition add_credit :: "ident \<Rightarrow> u64 \<Rightarrow> (ident \<rightharpoonup> audit_bal) \<Rightarrow> ident \<rightharpoonup> audit_bal" where
  "add_credit i x bs = (case bs i of None \<Rightarrow> bs | Some b \<Rightarrow> bs(i \<mapsto> b\<lparr>ab_credits := ab_credits b + x\<rparr>))"

text \<open>The flag is \<open>False\<close> when the record is abandoned by a \<^verbatim>\<open>continue\<close> after a finding.\<close>

definition audit_post :: "nat \<Rightarrow> u64 \<Rightarrow> transfer \<Rightarrow> auditor \<Rightarrow> auditor \<times> bool" where
  "audit_post seg lsn tr a =
     (case au_pendings a (tr_ID tr) of
        None \<Rightarrow> (violate ViolationConservation (Some seg) lsn a, False)
      | Some pend \<Rightarrow>
          if Lo (Amount tr) > 0 \<and> Lo (Amount tr) > Lo (Amount pend) then (violate ViolationConservation (Some seg) lsn a, False)
          else
            let settleAmt = (if Lo (Amount tr) > 0 then Lo (Amount tr) else Lo (Amount pend));
                bs = add_credit (CreditAccountID pend) settleAmt (add_debit (DebitAccountID pend) settleAmt (au_balances a));
                rest = Lo (Amount pend) - settleAmt;
                pend' = pend\<lparr>Amount := Uint128 rest (Hi (Amount pend))\<rparr>
            in (a\<lparr>au_balances := bs, au_pendings := (au_pendings a)(tr_ID tr := (if rest = 0 then None else Some pend'))\<rparr>, True))"

definition audit_void :: "nat \<Rightarrow> u64 \<Rightarrow> transfer \<Rightarrow> auditor \<Rightarrow> auditor \<times> bool" where
  "audit_void seg lsn tr a =
     (case au_pendings a (tr_ID tr) of
        None \<Rightarrow> (violate ViolationConservation (Some seg) lsn a, False)
      | Some _ \<Rightarrow> (a\<lparr>au_pendings := (au_pendings a)(tr_ID tr := None)\<rparr>, True))"

definition only_if :: "bool \<Rightarrow> ('a \<Rightarrow> 'a) \<Rightarrow> 'a \<Rightarrow> 'a" where
  "only_if c f x = (if c then f x else x)"

definition wrong_ledger :: "transfer \<Rightarrow> audit_bal option \<Rightarrow> audit_bal option \<Rightarrow> bool" where
  "wrong_ledger tr deb cred =
     (case (deb, cred) of (Some d, Some c) \<Rightarrow> ab_ledger d \<noteq> tr_Ledger tr \<or> ab_ledger c \<noteq> tr_Ledger tr | _ \<Rightarrow> False)"

definition audit_hold :: "nat \<Rightarrow> u64 \<Rightarrow> transfer \<Rightarrow> auditor \<Rightarrow> auditor" where
  "audit_hold seg lsn tr a =
     (let deb = au_balances a (DebitAccountID tr); cred = au_balances a (CreditAccountID tr);
          a1 = only_if (deb = None) (violate ViolationConservation (Some seg) lsn) a;
          a2 = only_if (cred = None) (violate ViolationConservation (Some seg) lsn) a1;
          a3 = only_if (wrong_ledger tr deb cred) (violate ViolationConservation (Some seg) lsn) a2
      in case au_transferIDs a3 (tr_ID tr) of
           Some _ \<Rightarrow> violate ViolationDuplicateKey (Some seg) lsn a3
         | None \<Rightarrow> a3\<lparr>au_transferIDs := (au_transferIDs a3)(tr_ID tr \<mapsto> seg), au_pendings := (au_pendings a3)(tr_ID tr \<mapsto> tr)\<rparr>)"

definition audit_plain :: "nat \<Rightarrow> u64 \<Rightarrow> transfer \<Rightarrow> auditor \<Rightarrow> auditor" where
  "audit_plain seg lsn tr a =
     (let deb = au_balances a (DebitAccountID tr); cred = au_balances a (CreditAccountID tr); x = Lo (Amount tr);
          a1 = (if deb \<noteq> None then a\<lparr>au_balances := add_debit (DebitAccountID tr) x (au_balances a)\<rparr>
                else violate ViolationConservation (Some seg) lsn a);
          a2 = (if cred \<noteq> None then a1\<lparr>au_balances := add_credit (CreditAccountID tr) x (au_balances a1)\<rparr>
                else violate ViolationConservation (Some seg) lsn a1);
          a3 = only_if (wrong_ledger tr deb cred) (violate ViolationConservation (Some seg) lsn) a2
      in case au_transferIDs a3 (tr_ID tr) of
           Some _ \<Rightarrow> violate ViolationDuplicateKey (Some seg) lsn a3
         | None \<Rightarrow> a3\<lparr>au_transferIDs := (au_transferIDs a3)(tr_ID tr \<mapsto> seg)\<rparr>)"

definition audit_key :: "nat \<Rightarrow> u64 \<Rightarrow> transfer \<Rightarrow> auditor \<Rightarrow> auditor" where
  "audit_key seg lsn tr a =
     (if IdempotencyKey tr = zeros 32 then a
      else
        (case au_keys a (IdempotencyKey tr) of
           Some prev \<Rightarrow> only_if (prev \<noteq> tr_ID tr) (violate ViolationDuplicateKey (Some seg) lsn) a
         | None \<Rightarrow> a\<lparr>au_keys := (au_keys a)(IdempotencyKey tr \<mapsto> tr_ID tr)\<rparr>))"

definition count_pending :: "auditor \<Rightarrow> auditor" where
  "count_pending a = a\<lparr>au_pendingCount := au_pendingCount a + 1\<rparr>"

definition audit_kind :: "nat \<Rightarrow> u64 \<Rightarrow> transfer \<Rightarrow> auditor \<Rightarrow> auditor \<times> bool" where
  "audit_kind seg lsn tr a =
     (if isPost tr then audit_post seg lsn tr a
      else if isVoid tr then audit_void seg lsn tr a
      else if isPending tr then (audit_hold seg lsn tr a, True)
      else (audit_plain seg lsn tr a, True))"

definition audit_transfer :: "nat \<Rightarrow> u64 \<Rightarrow> bytes \<Rightarrow> auditor \<Rightarrow> auditor" where
  "audit_transfer seg lsn payload a0 =
     (let a = a0\<lparr>au_rep := (au_rep a0)\<lparr>rp_Transfers := rp_Transfers (au_rep a0) + 1\<rparr>\<rparr>
      in case DecodeTransferPayload payload of
           Inl _ \<Rightarrow> violate ViolationCorruptFrame (Some seg) lsn a
         | Inr tr \<Rightarrow>
             let (a1, go) = audit_kind seg lsn tr a
             in if go then count_pending (audit_key seg lsn tr a1) else a1)"

subsection \<open>Accounts, markers and segments\<close>

definition audit_account :: "nat \<Rightarrow> u64 \<Rightarrow> bytes \<Rightarrow> auditor \<Rightarrow> auditor" where
  "audit_account seg lsn payload a0 =
     (let a = a0\<lparr>au_rep := (au_rep a0)\<lparr>rp_Accounts := rp_Accounts (au_rep a0) + 1\<rparr>\<rparr>
      in case DecodeAccountPayload payload of
           Inl _ \<Rightarrow> violate ViolationCorruptFrame (Some seg) lsn a
         | Inr acc \<Rightarrow>
             if au_balances a (acc_ID acc) \<noteq> None then count_pending a
             else
               let cr = Lo (PostedCredits acc); de = Lo (PostedDebits acc);
                   a1 = a\<lparr>au_balances := (au_balances a)(acc_ID acc \<mapsto> \<lparr>ab_credits = cr, ab_debits = de, ab_ledger = acc_Ledger acc\<rparr>)\<rparr>;
                   a2 = only_if (de > cr) (violate ViolationConservation (Some seg) lsn) a1
               in count_pending (a2\<lparr>au_injected := (au_injected a2)(acc_Ledger acc \<mapsto> at0 (au_injected a2) (acc_Ledger acc) + (cr - de))\<rparr>))"

definition audit_commit :: "nat \<Rightarrow> u64 \<Rightarrow> bytes \<Rightarrow> auditor \<Rightarrow> auditor" where
  "audit_commit seg lsn payload a0 =
     (let a = a0\<lparr>au_rep := (au_rep a0)\<lparr>rp_Batches := rp_Batches (au_rep a0) + 1\<rparr>\<rparr>;
          expected = (if length payload \<ge> 12 then be_word (slice 8 12 payload) else 0) :: u32;
          a1 = only_if ((of_nat (au_pendingCount a) :: u32) \<noteq> expected) (violate ViolationBatchCount (Some seg) lsn) a
      in a1\<lparr>au_pendingCount := 0\<rparr>)"

definition audit_record :: "nat \<Rightarrow> wal_record \<Rightarrow> auditor \<Rightarrow> auditor" where
  "audit_record seg r a0 =
     (let lsn = rec_LSN r; typ = rec_Type r; payload = rec_Payload r;
          a = a0\<lparr>au_rep := (au_rep a0)\<lparr>rp_Records := rp_Records (au_rep a0) + 1\<rparr>\<rparr>;
          a1 = only_if (au_prevLSN a > 0 \<and> lsn \<le> au_prevLSN a) (violate ViolationLSNOrder (Some seg) lsn) a;
          a2 = a1\<lparr>au_prevLSN := lsn\<rparr>
      in if typ = 1 then audit_transfer seg lsn payload a2
         else if typ = 2 then audit_account seg lsn payload a2
         else if typ = 4 then audit_commit seg lsn payload a2
         else if typ = 3 then count_pending a2
         else violate ViolationUnknownRecord (Some seg) lsn a2)"

definition corrupt :: "nat \<Rightarrow> u64 \<Rightarrow> auditor \<Rightarrow> auditor" where
  "corrupt seg lsn a0 =
     (let a = violate ViolationCorruptFrame (Some seg) lsn a0
      in a\<lparr>au_rep := (au_rep a)\<lparr>rp_Records := rp_Records (au_rep a) + 1\<rparr>\<rparr>)"

function audit_segment :: "nat \<Rightarrow> bytes \<Rightarrow> nat \<Rightarrow> auditor \<Rightarrow> auditor" where
  "audit_segment seg data off a =
     (if off + RecordHeaderSize \<le> length data then
        let lsn = be_word (slice off (off + 8) data) :: u64;
            typ = data ! (off + 8);
            plen = unat (be_word (slice (off + 9) (off + 13) data) :: u32);
            frameLen = RecordHeaderSize + plen + RecordCRCSize
        in if off + frameLen > length data then torn (Some seg) lsn a
           else
             let frame = slice off (off + frameLen) data
             in if ChecksumIEEE (take (RecordHeaderSize + plen) frame) \<noteq> be_word (drop (RecordHeaderSize + plen) frame)
                then audit_segment seg data (off + frameLen) (corrupt seg lsn a)
                else audit_segment seg data (off + frameLen)
                       (audit_record seg \<lparr>rec_LSN = lsn, rec_Type = typ, rec_Payload = slice RecordHeaderSize (RecordHeaderSize + plen) frame\<rparr> a)
      else a)"
  by pat_completeness auto
termination
  by (relation "measure (\<lambda>(seg, data, off, a). length data - off)") auto

declare audit_segment.simps [simp del]

subsection \<open>The final balance\<close>

fun audit_balances :: "ident list \<Rightarrow> (u32 \<rightharpoonup> u64) \<Rightarrow> auditor \<Rightarrow> (u32 \<rightharpoonup> u64) \<times> auditor" where
  "audit_balances [] totals a = (totals, a)"
| "audit_balances (i # ks) totals a =
     (case au_balances a i of
        None \<Rightarrow> audit_balances ks totals a
      | Some b \<Rightarrow>
          if ab_debits b > ab_credits b then audit_balances ks totals (violate ViolationConservation None 0 a)
          else audit_balances ks (totals(ab_ledger b \<mapsto> at0 totals (ab_ledger b) + (ab_credits b - ab_debits b))) a)"

fun audit_ledgers :: "u32 list \<Rightarrow> (u32 \<rightharpoonup> u64) \<Rightarrow> auditor \<Rightarrow> auditor" where
  "audit_ledgers [] totals a = a"
| "audit_ledgers (l # ls) totals a =
     (case au_injected a l of
        None \<Rightarrow> audit_ledgers ls totals a
      | Some injected \<Rightarrow> audit_ledgers ls totals (only_if (at0 totals l \<noteq> injected) (violate ViolationConservation None 0) a))"

text \<open>\<open>ks\<close> and \<open>ls\<close>: the orders in which the balances and the ledgers are visited.\<close>

definition audit_end :: "ident list \<Rightarrow> u32 list \<Rightarrow> auditor \<Rightarrow> auditor" where
  "audit_end ks ls a = (case audit_balances ks Map.empty a of (totals, a') \<Rightarrow> audit_ledgers ls totals a')"

definition Audit_dir :: "ident list \<Rightarrow> u32 list \<Rightarrow> segment_files \<Rightarrow> report" where
  "Audit_dir ks ls files =
     au_rep (audit_end ks ls (foldl (\<lambda>a (seg, data). audit_segment seg data 0 a) (auditor0 (length files)) (sort_key fst files)))"

subsection \<open>Reading the frames of a log\<close>

lemma audit_segment_frame:
  assumes "length (rec_Payload r) \<le> 4294967295" and "data = pre @ frame_of r @ post"
  shows "audit_segment seg data (length pre) a = audit_segment seg data (length pre + length (frame_of r)) (audit_record seg r a)"
proof -
  let ?p = "rec_Payload r" and ?n = "length (rec_Payload r)"
  have d: "data = pre @ be_bytes 8 (rec_LSN r) @ [rec_Type r] @ be_bytes 4 (of_nat ?n :: u32) @ ?p @ be_bytes 4 (ChecksumIEEE (body r)) @ post"
    by (simp add: assms(2) frame_of_def body_def)
  have s: "slice (length pre) (length pre + 8) data = be_bytes 8 (rec_LSN r)" "data ! (length pre + 8) = rec_Type r"
    "slice (length pre + 9) (length pre + 13) data = be_bytes 4 (of_nat ?n :: u32)"
    by (simp_all add: d slice_def nth_append)
  have f: "slice (length pre) (length pre + length (frame_of r)) data = frame_of r" by (simp add: assms(2) slice_def)
  have t: "take (13 + ?n) (frame_of r) = body r" "drop (13 + ?n) (frame_of r) = be_bytes 4 (ChecksumIEEE (body r))"
    "slice 13 (13 + ?n) (frame_of r) = ?p"
    by (simp_all add: frame_of_def length_body) (simp add: body_def slice_def)
  have l: "length (frame_of r) = 13 + ?n + 4" "length pre + length (frame_of r) \<le> length data"
    by (simp_all add: length_frame_of assms(2))
  show ?thesis
    using unat_payload_length [OF assms(1)] s t f l
    by (subst audit_segment.simps) (cases r, simp add: Let_def add.assoc)
qed

lemma audit_segment_frames:
  assumes "\<forall>r\<in>set rs. length (rec_Payload r) \<le> 4294967295" and "data = pre @ frames rs @ post"
  shows "audit_segment seg data (length pre) a =
    audit_segment seg data (length pre + length (frames rs)) (foldl (\<lambda>a r. audit_record seg r a) a rs)"
  using assms
proof (induction rs arbitrary: pre a)
  case (Cons r rs)
  then have "data = (pre @ frame_of r) @ frames rs @ post" by (simp add: frames_def)
  with Cons.IH [OF _ this] Cons.prems(1) audit_segment_frame [of r data pre "frames rs @ post"]
  show ?case by (simp add: frames_def add.assoc)
qed (simp add: frames_def)

lemma audit_segment_short: "length data < off + RecordHeaderSize \<Longrightarrow> audit_segment seg data off a = a"
  by (subst audit_segment.simps) simp

lemma audit_segment_all:
  assumes "\<forall>r\<in>set rs. length (rec_Payload r) \<le> 4294967295" and "length tail < RecordHeaderSize"
  shows "audit_segment seg (frames rs @ tail) 0 a = foldl (\<lambda>a r. audit_record seg r a) a rs"
  using audit_segment_frames [OF assms(1), of "frames rs @ tail" "[]" tail seg a] assms(2) by (simp add: audit_segment_short)

text \<open>The records of the segments, each with the number of its segment.\<close>

definition audit_records :: "auditor \<Rightarrow> (nat \<times> wal_record) list \<Rightarrow> auditor" where
  "audit_records a krs = foldl (\<lambda>a (k, r). audit_record k r a) a krs"

lemma audit_records_simps [simp]:
  "audit_records a [] = a" "audit_records a ((k, r) # krs) = audit_records (audit_record k r a) krs"
  "audit_records a (krs @ krs') = audit_records (audit_records a krs) krs'"
  by (simp_all add: audit_records_def)

definition numbered :: "(nat \<times> wal_record list) list \<Rightarrow> (nat \<times> wal_record) list" where
  "numbered parts = concat (map (\<lambda>(k, rs). map (Pair k) rs) parts)"

lemma snd_numbered: "map snd (numbered parts) = concat (map snd parts)"
  by (induction parts) (auto simp: numbered_def comp_def)

lemma audit_files:
  assumes "\<forall>p\<in>set parts. \<forall>r\<in>set (snd p). length (rec_Payload r) \<le> 4294967295"
  shows "foldl (\<lambda>a (seg, data). audit_segment seg data 0 a) a (map segment_of parts) = audit_records a (numbered parts)"
  using assms
proof (induction parts arbitrary: a)
  case (Cons p parts)
  have "foldl (\<lambda>a r. audit_record k r a) a rs = audit_records a (map (Pair k) rs)" for k rs and a
    by (induction rs arbitrary: a) simp_all
  with Cons.IH Cons.prems audit_segment_all [of "snd p" "[]"] show ?case
    by (cases p) (simp add: segment_of_def numbered_def)
qed (simp add: numbered_def)

subsection \<open>Sequence numbers of a log\<close>

definition LSNs_rise :: "batch list \<Rightarrow> bool" where
  "LSNs_rise bs \<longleftrightarrow> sorted_wrt (<) (0 # map rec_LSN (log_records bs))"

lemma LSNs_stamp: "map rec_LSN (stamp l rs) = map (\<lambda>i. l + of_nat (Suc i)) [0..<length rs]"
  by (rule nth_equalityI) (simp_all add: stamp_nth)

lemma LSNs_appended:
  "map rec_LSN (batch_records (appended w records)) = map (\<lambda>i. wal_currentLSN w + of_nat (Suc i)) [0..<Suc (length records)]"
  by (simp add: batch_records_def appended_def LSNs_stamp add.commute)

lemma sint_positive: "0 \<le> sint x \<Longrightarrow> int (unat x) = sint (x :: i64)"
  using sint_less [of x] by (simp add: uint_sint [of x] take_bit_int_eq_self)

lemma positive_less: "\<lbrakk> 0 \<le> sint x; 0 \<le> sint y \<rbrakk> \<Longrightarrow> x < y \<longleftrightarrow> sint x < sint (y :: i64)" "\<lbrakk> 0 \<le> sint x; 0 \<le> sint y \<rbrakk> \<Longrightarrow> x \<le> y \<longleftrightarrow> sint x \<le> sint (y :: i64)"
  using sint_positive [of x] sint_positive [of y] by (simp_all add: word_less_def word_le_def)

lemma rising_append:
  fixes xs :: "'w::len word list"
  assumes "sorted_wrt (<) (0 # xs)" and "\<forall>x\<in>set xs. x \<le> c" and "sorted_wrt (<) ys" and "\<forall>y\<in>set ys. c < y \<and> y \<le> c'" and "c \<le> c'"
  shows "sorted_wrt (<) (0 # xs @ ys) \<and> (\<forall>x\<in>set (xs @ ys). x \<le> c')"
proof -
  have "x < y" if "x \<in> set xs" "y \<in> set ys" for x y using that assms(2,4) by (meson order.strict_trans1)
  moreover have "0 < y" if "y \<in> set ys" for y using that assms(4) word_coorder.not_eq_extremum not_less_zero by fastforce
  ultimately show ?thesis using assms by (auto simp: sorted_wrt_append intro: order_trans)
qed

lemma reach_LSNs:
  "wal_reach w bs d \<Longrightarrow> LSNs_rise bs \<and> (\<forall>x\<in>set (map rec_LSN (log_records bs)). x \<le> wal_currentLSN w) \<and> 0 \<le> sint (wal_currentLSN w)"
proof (induction rule: wal_reach.induct)
  case (opened mx)
  then show ?case by (simp add: LSNs_rise_def log_records_def OpenWAL_def Let_def split: prod.split)
next
  case (append w bs d records)
  let ?c = "wal_currentLSN w" and ?n = "length records" and ?w = "fst (AppendBatch w records)"
  define new where "new = map (\<lambda>i. ?c + of_nat (Suc i)) [0..<Suc ?n]"
  obtain parts rs where "log_state w parts rs" using reach_history [OF append(1)] by (auto simp: history_ok_def)
  from AppendBatch_appends [OF this append(2)] obtain w' where w': "?w = w'" "wal_currentLSN w' = snd (appended w records)"
    by (metis fst_conv)
  have cur: "wal_currentLSN ?w = ?c + of_nat (Suc ?n)" using w' by (simp add: appended_def)
  have s: "sint (?c + of_nat i) = sint ?c + int i" if "i \<le> Suc ?n" for i
    using that append by (intro sint_add_nat) (auto simp: appendable_def)
  have less: "?c + of_nat i < ?c + of_nat j" if "i < j" "j \<le> Suc ?n" for i j
    using that append.IH s [of i] s [of j] by (simp add: positive_less)
  have "sorted_wrt (<) new"
    unfolding new_def sorted_wrt_map
    by (rule sorted_wrt_mono_rel [OF _ sorted_wrt_upt]) (auto intro!: less simp del: of_nat_Suc)
  moreover have "\<forall>x\<in>set new. ?c < x \<and> x \<le> wal_currentLSN ?w"
  proof
    fix x assume "x \<in> set new"
    then obtain i where i: "i \<le> ?n" "x = ?c + of_nat (Suc i)" by (auto simp only: new_def set_map image_iff set_upt atLeastLessThan_iff less_Suc_eq_le)
    then show "?c < x \<and> x \<le> wal_currentLSN ?w"
      unfolding cur using less [of 0 "Suc i"] less [of "Suc i" "Suc ?n"] by (cases "i = ?n") (simp_all del: of_nat_Suc)
  qed
  moreover have "0 \<le> sint (wal_currentLSN ?w)" using append.IH s [of "Suc ?n"] cur by simp
  moreover have "map rec_LSN (log_records (bs @ [appended w records])) = map rec_LSN (log_records bs) @ new"
    by (simp add: log_records_def LSNs_appended new_def del: upt_Suc)
  moreover have "?c \<le> wal_currentLSN ?w" using less [of 0 "Suc ?n"] unfolding cur by simp
  ultimately show ?case
    using append.IH rising_append [of "map rec_LSN (log_records bs)" ?c new "wal_currentLSN ?w"] unfolding LSNs_rise_def by simp
next
  case (advance w bs d lsn)
  then show ?case by (auto simp: AdvanceLSNTo_def positive_less intro: order_trans)
qed (simp_all add: Sync_def Rotate_def rotateLocked_def Let_def case_prod_beta)

subsection \<open>The auditor's books and the ledger's\<close>

text \<open>The auditor counts in the low 64 bits of the amounts.\<close>

definition bal_of :: "account \<Rightarrow> audit_bal" where
  "bal_of a = \<lparr>ab_credits = Lo (PostedCredits a), ab_debits = Lo (PostedDebits a), ab_ledger = acc_Ledger a\<rparr>"

definition net :: "u32 \<Rightarrow> audit_bal \<Rightarrow> u64" where
  "net L b = (if ab_ledger b = L then ab_credits b - ab_debits b else 0)"

definition net_sum :: "u32 \<Rightarrow> (ident \<rightharpoonup> audit_bal) \<Rightarrow> u64" where
  "net_sum L bs = (\<Sum>i\<in>dom bs. net L (the (bs i)))"

definition same_hold :: "transfer \<Rightarrow> transfer \<Rightarrow> bool" where
  "same_hold p q \<longleftrightarrow> DebitAccountID q = DebitAccountID p \<and> CreditAccountID q = CreditAccountID p \<and> Amount q = Amount p \<and> Hi (Amount p) = 0"

text \<open>\<open>ts\<close>: the transfers of the whole log; \<open>seen\<close>: the IDs recorded so far.\<close>

definition agrees :: "transfer set \<Rightarrow> book \<Rightarrow> ident set \<Rightarrow> auditor \<Rightarrow> bool" where
  "agrees ts s seen a \<longleftrightarrow> rp_Violations (au_rep a) = [] \<and> finite (dom (acct s)) \<and> au_balances a = map_option bal_of \<circ> acct s \<and>
     (\<forall>h p. hold s h = Some p \<longrightarrow> (\<exists>q. au_pendings a h = Some q \<and> same_hold p q)) \<and> dom (au_transferIDs a) \<subseteq> seen \<and>
     (\<forall>L. at0 (au_injected a) L = net_sum L (au_balances a)) \<and>
     (\<forall>k i. au_keys a k = Some i \<longrightarrow> (\<exists>t\<in>ts. IdempotencyKey t = k \<and> tr_ID t = i))"

definition keys_once :: "transfer set \<Rightarrow> bool" where
  "keys_once ts \<longleftrightarrow> (\<forall>t\<in>ts. \<forall>u\<in>ts. IdempotencyKey t = IdempotencyKey u \<and> IdempotencyKey t \<noteq> zeros 32 \<longrightarrow> tr_ID t = tr_ID u)"

lemma Lo_small: "Lo x = of_nat (val x)"
proof -
  have "(2 :: u64) ^ 64 = 0" by (subst exp_eq_zero_iff) simp
  then show ?thesis by (simp only: val_def of_nat_add of_nat_mult of_nat_power of_nat_numeral) simp
qed

lemma net_sum_upd:
  assumes "finite (dom bs)"
  shows "bs i = Some b \<Longrightarrow> net_sum L (bs(i \<mapsto> b')) = net_sum L bs - net L b + net L b'"
    "bs i = None \<Longrightarrow> net_sum L (bs(i \<mapsto> b')) = net_sum L bs + net L b'"
proof -
  have "(\<Sum>j\<in>dom bs - {i}. net L (the ((bs(i \<mapsto> b')) j))) = (\<Sum>j\<in>dom bs - {i}. net L (the (bs j)))" by (intro sum.cong) auto
  moreover have "net_sum L (bs(i \<mapsto> b')) = net L b' + (\<Sum>j\<in>dom bs - {i}. net L (the ((bs(i \<mapsto> b')) j)))"
    unfolding net_sum_def using assms by (simp add: sum.insert_remove)
  moreover have "bs i = Some b \<Longrightarrow> net_sum L bs = net L b + (\<Sum>j\<in>dom bs - {i}. net L (the (bs j)))"
    unfolding net_sum_def using assms by (subst sum.remove [of _ i]) auto
  moreover have "bs i = None \<Longrightarrow> dom bs - {i} = dom bs" by auto
  ultimately show "bs i = Some b \<Longrightarrow> net_sum L (bs(i \<mapsto> b')) = net_sum L bs - net L b + net L b'"
    "bs i = None \<Longrightarrow> net_sum L (bs(i \<mapsto> b')) = net_sum L bs + net L b'"
    by (simp_all add: net_sum_def)
qed

text \<open>Debiting one account and crediting another of the same ledger.\<close>

lemma move_sum:
  assumes "finite (dom bs)" and "d \<noteq> c" and "bs d = Some b" and "bs c = Some e" and "ab_ledger b = ab_ledger e"
  shows "net_sum L (add_credit c x (add_debit d x bs)) = net_sum L bs"
proof -
  let ?b = "b\<lparr>ab_debits := ab_debits b + x\<rparr>" and ?e = "e\<lparr>ab_credits := ab_credits e + x\<rparr>"
  have "add_credit c x (add_debit d x bs) = bs(d \<mapsto> ?b, c \<mapsto> ?e)" using assms by (simp add: add_credit_def add_debit_def)
  moreover have "net_sum L (bs(d \<mapsto> ?b, c \<mapsto> ?e)) = net_sum L bs - net L b + net L ?b - net L e + net L ?e"
    using net_sum_upd(1) [of "bs(d \<mapsto> ?b)" c e L ?e] net_sum_upd(1) [of bs d b L ?b] assms by simp
  ultimately show ?thesis using assms(5) by (simp add: net_def)
qed

lemma bal_of_posted:
  "debit_posted x a = Some a' \<Longrightarrow> bal_of a' = (bal_of a)\<lparr>ab_debits := ab_debits (bal_of a) + Lo x\<rparr>"
  "credit_posted x a = Some a' \<Longrightarrow> bal_of a' = (bal_of a)\<lparr>ab_credits := ab_credits (bal_of a) + Lo x\<rparr>"
  "debit_settle x a = Some a' \<Longrightarrow> bal_of a' = (bal_of a)\<lparr>ab_debits := ab_debits (bal_of a) + Lo x\<rparr>"
  "credit_settle x a = Some a' \<Longrightarrow> bal_of a' = (bal_of a)\<lparr>ab_credits := ab_credits (bal_of a) + Lo x\<rparr>"
  by (auto simp: grow_Some_iff settle_Some_iff bal_of_def Lo_small)

lemma bal_of_held:
  "debit_hold x a = Some a' \<Longrightarrow> bal_of a' = bal_of a" "credit_hold x a = Some a' \<Longrightarrow> bal_of a' = bal_of a"
  "debit_release x a = Some a' \<Longrightarrow> bal_of a' = bal_of a" "credit_release x a = Some a' \<Longrightarrow> bal_of a' = bal_of a"
  by (auto simp: posted_Some_iff bal_of_def)

text \<open>What a data record leaves alone.\<close>

definition same_counts :: "auditor \<Rightarrow> auditor \<Rightarrow> bool" where
  "same_counts a a' \<longleftrightarrow> au_rep a' = au_rep a \<and> au_pendingCount a' = au_pendingCount a \<and> au_prevLSN a' = au_prevLSN a"

lemma agrees_moved:
  assumes ag: "agrees ts s seen a" and mv: "moved s d f c g e e' b b' s'"
    and f: "bal_of e' = (bal_of e)\<lparr>ab_debits := ab_debits (bal_of e) + x\<rparr>" and g: "bal_of b' = (bal_of b)\<lparr>ab_credits := ab_credits (bal_of b) + x\<rparr>"
  shows "add_credit c x (add_debit d x (au_balances a)) = map_option bal_of \<circ> acct s'"
    "net_sum L (add_credit c x (add_debit d x (au_balances a))) = net_sum L (au_balances a)" "finite (dom (acct s'))"
proof -
  have dc: "d \<noteq> c" and s: "acct s d = Some e" "acct s c = Some b" "acc_Ledger e = acc_Ledger b" "acct s' = (acct s)(d \<mapsto> e', c \<mapsto> b')"
    using mv by (auto simp: moved_def)
  have bs: "au_balances a = map_option bal_of \<circ> acct s" "finite (dom (acct s))" using ag by (simp_all add: agrees_def)
  show "add_credit c x (add_debit d x (au_balances a)) = map_option bal_of \<circ> acct s'"
    using dc s f g by (auto simp: bs add_credit_def add_debit_def fun_eq_iff)
  show "net_sum L (add_credit c x (add_debit d x (au_balances a))) = net_sum L (au_balances a)"
    by (rule move_sum [where b = "bal_of e" and e = "bal_of b"]) (use dc s bs in \<open>simp_all add: bal_of_def dom_map_option_comp\<close>)
  show "finite (dom (acct s'))" using bs s by simp
qed

lemma agrees_frozen:
  assumes "agrees ts s seen a" and "moved s d f c g e e' b b' s'" and "bal_of e' = bal_of e" and "bal_of b' = bal_of b"
  shows "au_balances a = map_option bal_of \<circ> acct s'" "finite (dom (acct s'))"
proof -
  show "au_balances a = map_option bal_of \<circ> acct s'" using assms by (auto simp: agrees_def moved_def)
  show "finite (dom (acct s'))" using assms(1,2) by (simp add: agrees_def moved_def)
qed

lemma moved_balances:
  assumes "agrees ts s seen a" and "moved s d f c g e e' b b' s'"
  shows "au_balances a d = Some (bal_of e)" "au_balances a c = Some (bal_of b)"
  using assms by (simp_all add: agrees_def moved_def)

lemma moved_effects: "moved s d f c g e e' b b' s' \<Longrightarrow> f e = Some e'" "moved s d f c g e e' b b' s' \<Longrightarrow> g b = Some b'"
  by (simp_all add: moved_def)

lemma agrees_hold: "\<lbrakk> agrees ts s seen a; hold s h = Some p \<rbrakk> \<Longrightarrow> \<exists>q. au_pendings a h = Some q \<and> same_hold p q"
  unfolding agrees_def by blast

lemma reduced_amount:
  assumes "Hi (Amount p) = 0" and "val x \<le> val (Amount p)"
  shows "Amount (reduce_hold p x) = Uint128 (Lo (Amount p) - Lo x) 0"
proof -
  let ?y = "Amount (reduce_hold p x)"
  have v: "val ?y + val x = val (Amount p)" by (rule val_reduce_hold [OF assms(2)])
  have "val (Amount p) < 2 ^ 64" using assms(1) unsigned_less [of "Lo (Amount p)"] by (simp add: val_def)
  with v have "2 ^ 64 * unat (Hi ?y) < 2 ^ 64" unfolding val_def by linarith
  then have "Hi ?y = 0" by (simp add: unat_eq_zero)
  moreover have "Lo ?y + Lo x = Lo (Amount p)" unfolding Lo_small by (metis v of_nat_add)
  ultimately show ?thesis by (metis add_diff_cancel uint128.exhaust_sel)
qed

text \<open>A change of the auditor's books that follows the ledger's.\<close>

lemma agrees_change:
  assumes "agrees ts s seen a" and "bs = map_option bal_of \<circ> acct s'" and "finite (dom (acct s'))" and "\<And>L. net_sum L bs = net_sum L (au_balances a)"
    and "\<And>h p. hold s' h = Some p \<Longrightarrow> \<exists>q. ps h = Some q \<and> same_hold p q" and "dom ids \<subseteq> insert i (dom (au_transferIDs a))"
  shows "agrees ts s' (insert i seen) (a\<lparr>au_balances := bs, au_transferIDs := ids, au_pendings := ps\<rparr>)"
proof -
  have "dom ids \<subseteq> insert i seen" using assms(1,6) unfolding agrees_def by blast
  then show ?thesis using assms(1,3,4,5) unfolding agrees_def by (simp add: assms(2))
qed

lemma holds_upd:
  assumes "agrees ts s seen a" and "hold s' = (hold s)(i := x)" and "\<And>p. x = Some p \<Longrightarrow> \<exists>q. y = Some q \<and> same_hold p q" and "hold s' h = Some p"
  shows "\<exists>q. ((au_pendings a)(i := y)) h = Some q \<and> same_hold p q"
  using assms(2-4) agrees_hold [OF assms(1), of h p] by (cases "h = i") auto

lemma audit_new:
  assumes ag: "agrees ts s seen a" and new: "\<not> isPost t" "\<not> isVoid t" "tr_ID t \<notin> seen"
    and mv: "moved s (DebitAccountID t) f (CreditAccountID t) g e e' b b' s'" and cm: "can_move e b t"
  shows "audit_kind seg lsn t a =
    ((if isPending t then a\<lparr>au_transferIDs := (au_transferIDs a)(tr_ID t \<mapsto> seg), au_pendings := (au_pendings a)(tr_ID t \<mapsto> t)\<rparr>
      else a\<lparr>au_balances := add_credit (CreditAccountID t) (Lo (Amount t)) (add_debit (DebitAccountID t) (Lo (Amount t)) (au_balances a)),
             au_transferIDs := (au_transferIDs a)(tr_ID t \<mapsto> seg)\<rparr>), True)"
proof -
  have "au_transferIDs a (tr_ID t) = None" using ag new(3) by (auto simp: agrees_def)
  moreover have "\<not> wrong_ledger t (Some (bal_of e)) (Some (bal_of b))" using cm by (simp add: wrong_ledger_def can_move_def bal_of_def)
  ultimately show ?thesis
    using new(1,2) moved_balances [OF ag mv] by (simp add: audit_kind_def audit_plain_def audit_hold_def only_if_def Let_def)
qed

lemma audit_settles:
  assumes ag: "agrees ts s seen a" and t: "isPost t" "hold s (tr_ID t) = Some p" "x = post_amount t p" "val x \<le> val (Amount p)" "Hi (Amount t) = 0"
  obtains q where "same_hold p q" "same_hold (reduce_hold p x) (q\<lparr>Amount := Uint128 (Lo (Amount q) - Lo x) (Hi (Amount q))\<rparr>)"
    "audit_kind seg lsn t a =
     (a\<lparr>au_balances := add_credit (CreditAccountID p) (Lo x) (add_debit (DebitAccountID p) (Lo x) (au_balances a)),
        au_pendings := (au_pendings a)(tr_ID t := (if x = Amount p then None else Some (q\<lparr>Amount := Uint128 (Lo (Amount q) - Lo x) (Hi (Amount q))\<rparr>)))\<rparr>, True)"
proof -
  obtain q where q: "au_pendings a (tr_ID t) = Some q" "same_hold p q" using agrees_hold [OF ag t(2)] by blast
  have h: "Hi (Amount p) = 0" "Amount q = Amount p" "DebitAccountID q = DebitAccountID p" "CreditAccountID q = CreditAccountID p"
    using q(2) by (simp_all add: same_hold_def)
  have x: "(if Lo (Amount t) > 0 then Lo (Amount t) else Lo (Amount q)) = Lo x" "Hi x = 0"
    using t(3,5) h by (auto simp: post_amount_def IsZero_def word_gt_0)
  have le: "\<not> Lo (Amount q) < Lo x" using t(4) h x(2) by (simp add: val_def word_le_nat_alt not_less)
  then have guard: "\<not> (Lo (Amount t) > 0 \<and> Lo (Amount t) > Lo (Amount q))" using x(1) by auto
  have zero: "Lo (Amount p) = Lo x \<longleftrightarrow> x = Amount p" using h x(2) by (cases x; cases "Amount p") auto
  show thesis
  proof (rule that [of q])
    show "same_hold p q" by (rule q(2))
    show "same_hold (reduce_hold p x) (q\<lparr>Amount := Uint128 (Lo (Amount q) - Lo x) (Hi (Amount q))\<rparr>)"
      using q(2) h t(4) by (simp add: same_hold_def reduced_amount)
    show "audit_kind seg lsn t a = (a\<lparr>au_balances := add_credit (CreditAccountID p) (Lo x) (add_debit (DebitAccountID p) (Lo x) (au_balances a)),
        au_pendings := (au_pendings a)(tr_ID t := (if x = Amount p then None else Some (q\<lparr>Amount := Uint128 (Lo (Amount q) - Lo x) (Hi (Amount q))\<rparr>)))\<rparr>, True)"
      using t(1) q(1) by (simp only: audit_kind_def audit_post_def option.case x(1) Let_def if_not_P [OF guard]) (simp add: zero h)
  qed
qed

lemma audit_step_kind:
  assumes ag: "agrees ts s seen a" and step: "spec_step s t = Some s'" and ok: "holds_ok s" and hi: "Hi (Amount t) = 0"
    and new: "isNew t \<longrightarrow> tr_ID t \<notin> seen"
  shows "\<exists>a'. audit_kind seg lsn t a = (a', True) \<and> agrees ts s' (insert (tr_ID t) seen) a' \<and> same_counts a a'"
  using step ok
proof (cases rule: spec_step_cases)
  case (plain e e' b b')
  note eff = bal_of_posted(1) [OF moved_effects(1) [OF plain(8)]] bal_of_posted(2) [OF moved_effects(2) [OF plain(8)]]
  note bk = agrees_moved [OF ag plain(8) eff]
  have f: "tr_ID t \<notin> seen" using new plain(1,2) by (simp add: isNew_def)
  have "agrees ts s' (insert (tr_ID t) seen) (a\<lparr>au_balances := add_credit (CreditAccountID t) (Lo (Amount t)) (add_debit (DebitAccountID t) (Lo (Amount t)) (au_balances a)),
      au_transferIDs := (au_transferIDs a)(tr_ID t \<mapsto> seg), au_pendings := au_pendings a\<rparr>)"
    by (rule agrees_change [OF ag bk(1,3,2)]) (use agrees_hold [OF ag] plain(7) in auto)
  then show ?thesis using audit_new [OF ag plain(1,2) f plain(8,5), of seg lsn] plain(3) by (simp add: same_counts_def)
next
  case (reserve e e' b b')
  note eff = bal_of_held(1) [OF moved_effects(1) [OF reserve(8)]] bal_of_held(2) [OF moved_effects(2) [OF reserve(8)]]
  have f: "tr_ID t \<notin> seen" using new reserve(1,2) by (simp add: isNew_def)
  have "agrees ts s' (insert (tr_ID t) seen) (a\<lparr>au_balances := au_balances a, au_transferIDs := (au_transferIDs a)(tr_ID t \<mapsto> seg),
      au_pendings := (au_pendings a)(tr_ID t \<mapsto> t)\<rparr>)"
    by (rule agrees_change [OF ag agrees_frozen [OF ag reserve(8) eff] refl holds_upd [OF ag reserve(7)]]) (use hi in \<open>auto simp: same_hold_def\<close>)
  then show ?thesis using audit_new [OF ag reserve(1,2) f reserve(8,5), of seg lsn] reserve(3) by (simp add: same_counts_def)
next
  case (post p x e e' b b')
  note eff = bal_of_posted(3) [OF moved_effects(1) [OF post(9)]] bal_of_posted(4) [OF moved_effects(2) [OF post(9)]]
  note bk = agrees_moved [OF ag post(9) eff]
  from audit_settles [OF ag post(1,4,6,7) hi, of seg lsn] obtain q where q: "same_hold p q"
    "same_hold (reduce_hold p x) (q\<lparr>Amount := Uint128 (Lo (Amount q) - Lo x) (Hi (Amount q))\<rparr>)"
    "audit_kind seg lsn t a =
     (a\<lparr>au_balances := add_credit (CreditAccountID p) (Lo x) (add_debit (DebitAccountID p) (Lo x) (au_balances a)),
        au_pendings := (au_pendings a)(tr_ID t := (if x = Amount p then None else Some (q\<lparr>Amount := Uint128 (Lo (Amount q) - Lo x) (Hi (Amount q))\<rparr>)))\<rparr>, True)"
    by blast
  have "agrees ts s' (insert (tr_ID t) seen) (a\<lparr>au_balances := add_credit (CreditAccountID p) (Lo x) (add_debit (DebitAccountID p) (Lo x) (au_balances a)),
      au_transferIDs := au_transferIDs a,
      au_pendings := (au_pendings a)(tr_ID t := (if x = Amount p then None else Some (q\<lparr>Amount := Uint128 (Lo (Amount q) - Lo x) (Hi (Amount q))\<rparr>)))\<rparr>)"
    by (rule agrees_change [OF ag bk(1,3,2) holds_upd [OF ag post(8)]]) (use q(2) in \<open>auto split: if_splits\<close>)
  then show ?thesis using q(3) by (simp add: same_counts_def)
next
  case (void p e e' b b')
  note eff = bal_of_held(3) [OF moved_effects(1) [OF void(7)]] bal_of_held(4) [OF moved_effects(2) [OF void(7)]]
  obtain q where q: "au_pendings a (tr_ID t) = Some q" using agrees_hold [OF ag void(4)] by blast
  have "agrees ts s' (insert (tr_ID t) seen) (a\<lparr>au_balances := au_balances a, au_transferIDs := au_transferIDs a, au_pendings := (au_pendings a)(tr_ID t := None)\<rparr>)"
    by (rule agrees_change [OF ag agrees_frozen [OF ag void(7) eff] refl holds_upd [OF ag void(6)]]) auto
  then show ?thesis using void(1-3) q by (simp add: audit_kind_def audit_void_def same_counts_def)
qed

subsection \<open>Records of a log\<close>

text \<open>\<open>n\<close> data records with the last LSN \<open>l\<close> have been read.\<close>

definition counted :: "nat \<Rightarrow> u64 \<Rightarrow> auditor \<Rightarrow> auditor \<Rightarrow> bool" where
  "counted n l a a' \<longleftrightarrow> au_pendingCount a' = au_pendingCount a + n \<and> au_prevLSN a' = l \<and>
     rp_Records (au_rep a') = rp_Records (au_rep a) + n \<and> rp_Batches (au_rep a') = rp_Batches (au_rep a) \<and>
     rp_Transfers (au_rep a') + rp_Accounts (au_rep a') = rp_Transfers (au_rep a) + rp_Accounts (au_rep a) + n \<and>
     rp_Segments (au_rep a') = rp_Segments (au_rep a) \<and> rp_TornTail (au_rep a') = rp_TornTail (au_rep a)"

lemma counted_Cons:
  assumes "counted 1 (rec_LSN r) a (audit_record k r a)"
    and "counted (length krs) (last (rec_LSN r # map (rec_LSN \<circ> snd) krs)) (audit_record k r a) (audit_records (audit_record k r a) krs)"
  shows "counted (length ((k, r) # krs)) (last (l # map (rec_LSN \<circ> snd) ((k, r) # krs))) a (audit_records a ((k, r) # krs))"
  using assms by (simp add: counted_def)

lemma agrees_counts [simp]:
  "agrees ts s seen (a\<lparr>au_pendingCount := n\<rparr>) = agrees ts s seen a" "agrees ts s seen (a\<lparr>au_prevLSN := l\<rparr>) = agrees ts s seen a"
  "rp_Violations rp = rp_Violations (au_rep a) \<Longrightarrow> agrees ts s seen (a\<lparr>au_rep := rp\<rparr>) = agrees ts s seen a"
  by (simp_all add: agrees_def)

lemma keys_onceD: "\<lbrakk> keys_once ts; t \<in> ts; u \<in> ts; IdempotencyKey t = IdempotencyKey u; IdempotencyKey t \<noteq> zeros 32 \<rbrakk> \<Longrightarrow> tr_ID t = tr_ID u"
  unfolding keys_once_def by blast

lemma audit_key_ok:
  assumes "agrees ts s seen a" and "t \<in> ts" and "keys_once ts"
  shows "agrees ts s seen (audit_key seg lsn t a) \<and> same_counts a (audit_key seg lsn t a)"
proof (cases "IdempotencyKey t = zeros 32")
  case False
  have same: "i = tr_ID t" if key: "au_keys a (IdempotencyKey t) = Some i" for i
  proof -
    have "\<forall>k i. au_keys a k = Some i \<longrightarrow> (\<exists>t\<in>ts. IdempotencyKey t = k \<and> tr_ID t = i)" using assms(1) by (simp add: agrees_def)
    with key obtain u where "u \<in> ts" "IdempotencyKey u = IdempotencyKey t" "tr_ID u = i" by metis
    with keys_onceD [OF assms(3) this(1) assms(2) this(2)] False show ?thesis by argo
  qed
  show ?thesis
  proof (cases "au_keys a (IdempotencyKey t)")
    case None
    then have eq: "audit_key seg lsn t a = a\<lparr>au_keys := (au_keys a)(IdempotencyKey t \<mapsto> tr_ID t)\<rparr>" using False by (simp add: audit_key_def)
    have "\<forall>k i. ((au_keys a)(IdempotencyKey t \<mapsto> tr_ID t)) k = Some i \<longrightarrow> (\<exists>u\<in>ts. IdempotencyKey u = k \<and> tr_ID u = i)"
      using assms(1,2) by (auto simp: agrees_def)
    with assms(1) show ?thesis unfolding eq agrees_def same_counts_def by simp
  next
    case (Some i)
    then have "audit_key seg lsn t a = a" using False same by (simp add: audit_key_def only_if_def)
    with assms(1) show ?thesis by (simp add: same_counts_def)
  qed
qed (use assms in \<open>simp add: audit_key_def same_counts_def\<close>)

lemma audit_one_transfer:
  assumes ag: "agrees ts s seen a" and r: "carries_transfer r t" and step: "spec_step s t = Some s'" and ok: "holds_ok s"
    and ts: "t \<in> ts" "keys_once ts" "Hi (Amount t) = 0" and new: "isNew t \<longrightarrow> tr_ID t \<notin> seen" and lsn: "au_prevLSN a < rec_LSN r"
  shows "agrees ts s' (insert (tr_ID t) seen) (audit_record seg r a) \<and> counted 1 (rec_LSN r) a (audit_record seg r a)"
proof -
  let ?rep = "(au_rep a)\<lparr>rp_Records := Suc (rp_Records (au_rep a)), rp_Transfers := Suc (rp_Transfers (au_rep a))\<rparr>"
  define a1 where "a1 = a\<lparr>au_prevLSN := rec_LSN r, au_rep := ?rep\<rparr>"
  have "agrees ts s seen a1" using ag by (simp add: a1_def)
  from audit_step_kind [OF this step ok ts(3) new, of seg "rec_LSN r"] obtain a2 where
    a2: "audit_kind seg (rec_LSN r) t a1 = (a2, True)" "agrees ts s' (insert (tr_ID t) seen) a2" "same_counts a1 a2" by blast
  note k = audit_key_ok [OF a2(2) ts(1,2), of seg "rec_LSN r"]
  have "audit_record seg r a = count_pending (audit_key seg (rec_LSN r) t a2)"
    using r a2(1) lsn [folded not_le] by (simp add: audit_record_def audit_transfer_def carries_transfer_def transfer_codec.dec_enc only_if_def a1_def Let_def)
  with k a2(3) show ?thesis by (simp add: count_pending_def counted_def same_counts_def a1_def)
qed

lemma audit_transfers:
  assumes "list_all2 carries_transfer (map snd krs) us" and "run_steps ApplyTransferState m us = (m', None)" and "agrees ts (book_of m) (dom (transfers m)) a"
    and "am_inv m" "hist_ok m" and "distinct (new_ids us)" "set (new_ids us) \<inter> dom (transfers m) = {}"
    and "set us \<subseteq> ts" "keys_once ts" "\<forall>t\<in>ts. Hi (Amount t) = 0" and "sorted_wrt (<) (au_prevLSN a # map (rec_LSN \<circ> snd) krs)"
  shows "agrees ts (book_of m') (dom (transfers m')) (audit_records a krs) \<and>
    counted (length krs) (last (au_prevLSN a # map (rec_LSN \<circ> snd) krs)) a (audit_records a krs)"
  using assms
proof (induction us arbitrary: krs m a rule: list.induct)
  case Nil
  from Nil.prems(1) have "krs = []" by simp
  with Nil.prems(2,3) show ?case by (simp add: counted_def)
next
  case (Cons t us)
  from Cons.prems(1) obtain k r krs' where krs: "krs = (k, r) # krs'" "carries_transfer r t" "list_all2 carries_transfer (map snd krs') us"
    by (cases krs) auto
  from Cons.prems(2) obtain m1 where m1: "ApplyTransferState m t = (m1, None)" "run_steps ApplyTransferState m1 us = (m', None)"
    by (auto split: prod.splits option.splits)
  have am: "am_ok m" "holds_ok (book_of m)" using Cons.prems(4) by (auto simp: am_inv_def book_inv_def)
  from manager.step_sound [OF am(1) m1(1)] have st: "spec_step (book_of m) t = Some (book_of m1)" by blast
  note keeps = ApplyTransferState_keeps [OF Cons.prems(4,5) m1(1) Cons.prems(6,7)]
  let ?a = "audit_record k r a"
  have new: "isNew t \<longrightarrow> tr_ID t \<notin> dom (transfers m)" using Cons.prems(7) by auto
  have one: "agrees ts (book_of m1) (dom (transfers m1)) ?a" "counted 1 (rec_LSN r) a ?a"
    using audit_one_transfer [OF Cons.prems(3) krs(2) st am(2) _ _ _ new, of k] Cons.prems(8-11) ApplyTransferState_transfers [OF m1(1)] krs(1) by auto
  have prev: "au_prevLSN ?a = rec_LSN r" using one(2) by (simp add: counted_def)
  have "agrees ts (book_of m') (dom (transfers m')) (audit_records ?a krs') \<and>
      counted (length krs') (last (au_prevLSN ?a # map (rec_LSN \<circ> snd) krs')) ?a (audit_records ?a krs')"
    by (rule Cons.IH [OF krs(3) m1(2) one(1) keeps]) (use Cons.prems(8-11) krs(1) prev in auto)
  with counted_Cons [OF one(2), of krs' "au_prevLSN a"] show ?case unfolding prev krs(1) audit_records_simps(2) by blast
qed

lemma valid_account_Lo:
  assumes "ValidateAccount c = None" and "Hi (PostedCredits c) = 0"
  shows "\<not> Lo (PostedDebits c) > Lo (PostedCredits c)"
proof -
  have le: "val (PostedDebits c) \<le> val (PostedCredits c)"
    using assms(1) by (auto simp: ValidateAccount_def Balance_Inr_iff split: sum.splits)
  have "val (PostedCredits c) < 2 ^ 64" using assms(2) unsigned_less [of "Lo (PostedCredits c)"] by (simp add: val_def)
  with le have "2 ^ 64 * unat (Hi (PostedDebits c)) < 2 ^ 64" unfolding val_def by linarith
  then have "Hi (PostedDebits c) = 0" by (simp add: unat_eq_zero)
  with le assms(2) show ?thesis by (simp add: val_def word_le_nat_alt not_less)
qed

lemma agrees_create:
  assumes ag: "agrees ts s seen a" and new: "acct s i = None"
  shows "agrees ts (s\<lparr>acct := (acct s)(i \<mapsto> c)\<rparr>) seen
    (a\<lparr>au_balances := (au_balances a)(i \<mapsto> bal_of c),
       au_injected := (au_injected a)(acc_Ledger c \<mapsto> at0 (au_injected a) (acc_Ledger c) + (Lo (PostedCredits c) - Lo (PostedDebits c)))\<rparr>)"
proof -
  have b: "au_balances a = map_option bal_of \<circ> acct s" "finite (dom (acct s))" "\<And>L. at0 (au_injected a) L = net_sum L (au_balances a)"
    using ag by (simp_all add: agrees_def)
  have "at0 ((au_injected a)(acc_Ledger c \<mapsto> at0 (au_injected a) (acc_Ledger c) + (Lo (PostedCredits c) - Lo (PostedDebits c)))) L =
      net_sum L ((au_balances a)(i \<mapsto> bal_of c))" for L
    using net_sum_upd(2) [of "au_balances a" i L "bal_of c"] b new
    by (simp add: at0_def net_def bal_of_def dom_map_option_comp)
  moreover have "(au_balances a)(i \<mapsto> bal_of c) = map_option bal_of \<circ> (acct s)(i \<mapsto> c)" by (auto simp: b)
  ultimately show ?thesis using ag by (simp add: agrees_def)
qed

lemma audit_one_account:
  assumes ag: "agrees ts (book_of m) seen a" and r: "carries_account r c" and c: "ValidateAccount c = None" "Hi (PostedCredits c) = 0"
    and m: "index_ok m" and lsn: "au_prevLSN a < rec_LSN r"
  shows "agrees ts (book_of (fst (Create m c))) seen (audit_record seg r a) \<and> counted 1 (rec_LSN r) a (audit_record seg r a)"
proof -
  let ?rep = "(au_rep a)\<lparr>rp_Records := Suc (rp_Records (au_rep a)), rp_Accounts := Suc (rp_Accounts (au_rep a))\<rparr>"
  define a1 where "a1 = a\<lparr>au_prevLSN := rec_LSN r, au_rep := ?rep\<rparr>"
  have a1: "agrees ts (book_of m) seen a1" using ag by (simp add: a1_def)
  have bal: "au_balances a (acc_ID c) = map_option bal_of (account_at m (acc_ID c))" using ag by (simp add: agrees_def)
  show ?thesis
  proof (cases "account_at m (acc_ID c)")
    case None
    then obtain m' where m': "Create m c = (m', None)" using Create_fresh by blast
    have "book_of m' = (book_of m)\<lparr>acct := (acct (book_of m))(acc_ID c \<mapsto> c)\<rparr>"
      using Create_ok [OF m m'] view_cong(3) [of m' m] by (simp add: book_of_def)
    moreover have "audit_record seg r a = count_pending
      (a1\<lparr>au_balances := (au_balances a1)(acc_ID c \<mapsto> bal_of c),
          au_injected := (au_injected a1)(acc_Ledger c \<mapsto> at0 (au_injected a1) (acc_Ledger c) + (Lo (PostedCredits c) - Lo (PostedDebits c)))\<rparr>)"
      using r lsn [folded not_le] bal None valid_account_Lo [OF c]
      by (simp add: audit_record_def audit_account_def carries_account_def account_codec.dec_enc only_if_def a1_def bal_of_def Let_def)
    ultimately show ?thesis
      using agrees_create [OF a1, of "acc_ID c" c] None m' by (simp add: count_pending_def counted_def a1_def)
  next
    case (Some b)
    then have "fst (Create m c) = m" by (auto simp: Create_add account_at_def)
    moreover have "audit_record seg r a = count_pending a1"
      using r lsn [folded not_le] bal Some
      by (simp add: audit_record_def audit_account_def carries_account_def account_codec.dec_enc only_if_def a1_def Let_def)
    ultimately show ?thesis using a1 by (simp add: count_pending_def counted_def a1_def)
  qed
qed

lemma audit_accounts:
  assumes "list_all2 carries_account (map snd krs) cs" and "agrees ts (book_of m) (dom (transfers m)) a" and "am_inv m"
    and "\<forall>c\<in>set cs. ValidateAccount c = None \<and> Hi (PostedCredits c) = 0" and "sorted_wrt (<) (au_prevLSN a # map (rec_LSN \<circ> snd) krs)"
  defines "m' \<equiv> foldl (\<lambda>n c. fst (Create n c)) m cs"
  shows "agrees ts (book_of m') (dom (transfers m')) (audit_records a krs) \<and>
    counted (length krs) (last (au_prevLSN a # map (rec_LSN \<circ> snd) krs)) a (audit_records a krs)"
  using assms(1-5) unfolding m'_def
proof (induction cs arbitrary: krs m a rule: list.induct)
  case Nil
  from Nil.prems(1) have "krs = []" by simp
  with Nil.prems(2) show ?case by (simp add: counted_def)
next
  case (Cons c cs)
  from Cons.prems(1) obtain k r krs' where krs: "krs = (k, r) # krs'" "carries_account r c" "list_all2 carries_account (map snd krs') cs"
    by (cases krs) auto
  let ?a = "audit_record k r a" and ?m = "fst (Create m c)"
  have m: "am_inv ?m" using Cons.prems(3) am_inv_Create [of m c] by (auto simp: Create_add)
  have tr: "transfers ?m = transfers m" by (simp add: Create_add add_account_def)
  have "index_ok m" using Cons.prems(3) by (simp add: am_inv_def am_ok_def)
  with audit_one_account [OF Cons.prems(2) krs(2), of k] Cons.prems(4,5) krs(1)
  have one: "agrees ts (book_of ?m) (dom (transfers ?m)) ?a" "counted 1 (rec_LSN r) a ?a" by (auto simp: tr)
  have prev: "au_prevLSN ?a = rec_LSN r" using one(2) by (simp add: counted_def)
  have "agrees ts (book_of (foldl (\<lambda>n c. fst (Create n c)) ?m cs)) (dom (transfers (foldl (\<lambda>n c. fst (Create n c)) ?m cs))) (audit_records ?a krs') \<and>
      counted (length krs') (last (au_prevLSN ?a # map (rec_LSN \<circ> snd) krs')) ?a (audit_records ?a krs')"
    by (rule Cons.IH [OF krs(3) one(1) m]) (use Cons.prems(4,5) krs(1) prev in auto)
  with counted_Cons [OF one(2), of krs' "au_prevLSN a"] show ?case unfolding prev krs(1) audit_records_simps(2) foldl_Cons by blast
qed

subsection \<open>Batches and runs\<close>

lemma audit_marker:
  assumes ag: "agrees ts s seen a" and n: "au_pendingCount a = n" and lsn: "au_prevLSN a < l"
  shows "audit_record seg (commit_record l n) a =
    a\<lparr>au_prevLSN := l, au_rep := (au_rep a)\<lparr>rp_Records := Suc (rp_Records (au_rep a)), rp_Batches := Suc (rp_Batches (au_rep a))\<rparr>, au_pendingCount := 0\<rparr>"
  using n lsn [folded not_le]
  by (simp add: audit_record_def audit_commit_def commit_record_def commit_payload_layout slice_def only_if_def Let_def)

text \<open>The auditor after a whole log: its books agree with those of the ledger.\<close>

definition audited :: "nat \<Rightarrow> transfer set \<Rightarrow> account_manager \<Rightarrow> batch list \<Rightarrow> auditor \<Rightarrow> bool" where
  "audited n ts m bs a \<longleftrightarrow> agrees ts (book_of m) (dom (transfers m)) a \<and> au_pendingCount a = 0 \<and>
     au_prevLSN a = last (0 # map rec_LSN (log_records bs)) \<and> rp_Segments (au_rep a) = n \<and> rp_TornTail (au_rep a) = None \<and>
     rp_Records (au_rep a) = length (log_records bs) \<and> rp_Batches (au_rep a) = length bs \<and>
     rp_Transfers (au_rep a) + rp_Accounts (au_rep a) = length (concat (map fst bs))"

lemma LSNs_split:
  assumes "LSNs_rise (bs @ [b])" and "p = last (0 # map rec_LSN (log_records bs))"
  shows "LSNs_rise bs" "sorted_wrt (<) (p # map rec_LSN (fst b))" "last (p # map rec_LSN (fst b)) < snd b"
proof -
  let ?old = "map rec_LSN (log_records bs)"
  have s: "sorted_wrt (<) ((0 # ?old) @ map rec_LSN (fst b) @ [snd b])"
    using assms(1) by (simp add: LSNs_rise_def log_records_def batch_records_def)
  then show "LSNs_rise bs" by (simp add: LSNs_rise_def sorted_wrt_append)
  have "p \<in> set (0 # ?old)" unfolding assms(2) by (rule last_in_set) simp
  then have "\<forall>x\<in>set (map rec_LSN (fst b) @ [snd b]). p < x" "sorted_wrt (<) (map rec_LSN (fst b) @ [snd b])"
    using s unfolding sorted_wrt_append by blast+
  then have "sorted_wrt (<) (p # map rec_LSN (fst b) @ [snd b])" by simp
  then show "sorted_wrt (<) (p # map rec_LSN (fst b))" "last (p # map rec_LSN (fst b)) < snd b"
    by (auto simp: sorted_wrt_append last_map)
qed

lemma audited_batch:
  assumes a: "audited n ts m bs a" and rise: "LSNs_rise (bs @ [b])" and krs: "map snd krs = fst b"
    and data: "agrees ts (book_of m') (dom (transfers m')) (audit_records a krs) \<and>
      counted (length krs) (last (au_prevLSN a # map (rec_LSN \<circ> snd) krs)) a (audit_records a krs)"
  shows "audited n ts m' (bs @ [b]) (audit_records a (krs @ [(k, commit_record (snd b) (length (fst b)))]))"
proof -
  have len: "length (fst b) = length krs" using krs by (metis length_map)
  have ls: "map (rec_LSN \<circ> snd) krs = map rec_LSN (fst b)" using krs by (metis map_map)
  have p: "au_prevLSN a = last (0 # map rec_LSN (log_records bs))" and c: "au_pendingCount a = 0" using a by (simp_all add: audited_def)
  have "au_prevLSN (audit_records a krs) < snd b" using data LSNs_split(3) [OF rise p] by (simp add: counted_def ls)
  moreover have "au_pendingCount (audit_records a krs) = length (fst b)" using data c len by (simp add: counted_def)
  ultimately show ?thesis
    using audit_marker [OF conjunct1 [OF data]] data a len
    by (simp add: audited_def counted_def log_records_def batch_records_def)
qed

lemma book_of_SetClock: "book_of (SetClock m c) = book_of m"
  by (simp add: book_of_def account_at_def hold_at_def fun_eq_iff SetClock_def)

lemma bal_of_posted_part: "bal_of (posted_part c) = bal_of c"
  by (simp add: bal_of_def posted_part_def)

lemma agrees_close:
  assumes ag: "agrees ts (book_of m) seen a" and inv: "am_inv m"
  shows "agrees ts (book_of (CloseExpired (SetClock m c))) seen a"
proof -
  let ?m = "CloseExpired (SetClock m c)"
  have ag': "agrees ts (book_of (SetClock m c)) seen a" using ag by (simp add: book_of_SetClock)
  note cl = CloseExpired_closes [of "SetClock m c", unfolded am_inv_SetClock, OF inv]
  have post: "map_option posted_part (account_at ?m i) = map_option posted_part (account_at (SetClock m c) i)" for i using cl by simp
  have "map_option bal_of (account_at ?m i) = map_option bal_of (account_at (SetClock m c) i)" for i
    using arg_cong [OF post [of i], of "map_option bal_of"] by (simp add: option.map_comp comp_def bal_of_posted_part)
  moreover have "dom (account_at ?m) = dom (account_at (SetClock m c))" using arg_cong [OF ext [OF post], of dom] by (simp add: dom_map_option)
  moreover have "hold_at (SetClock m c) i = Some p" if "hold_at ?m i = Some p" for i p using that cl by (auto split: option.splits if_splits)
  ultimately show ?thesis using ag' by (simp add: agrees_def comp_def)
qed

lemma audited_close: "\<lbrakk> audited n ts m bs a; am_inv m \<rbrakk> \<Longrightarrow> audited n ts (CloseExpired (SetClock m c)) bs a"
proof -
  assume a: "audited n ts m bs a" and inv: "am_inv m"
  have "transfers (CloseExpired (SetClock m c)) = transfers (SetClock m c)"
    using CloseExpired_closes [of "SetClock m c", unfolded am_inv_SetClock, OF inv] by blast
  also have "\<dots> = transfers m" by (simp add: SetClock_def)
  finally show ?thesis using a agrees_close [OF _ inv] by (simp add: audited_def)
qed

definition log_transfers :: "batch list \<Rightarrow> transfer set" where
  "log_transfers bs = {t. \<exists>r\<in>set (concat (map fst bs)). carries_transfer r t}"

definition log_accounts :: "batch list \<Rightarrow> account set" where
  "log_accounts bs = {c. \<exists>r\<in>set (concat (map fst bs)). carries_account r c}"

lemma map_append_split: "map f xs = ys @ zs \<Longrightarrow> \<exists>us vs. xs = us @ vs \<and> map f us = ys \<and> map f vs = zs"
  by (auto simp: map_eq_append_conv)

lemma split_batch:
  assumes "map snd krs = log_records (bs @ [b])"
  obtains krs0 krs1 k where "krs = krs0 @ krs1 @ [(k, commit_record (snd b) (length (fst b)))]" "map snd krs0 = log_records bs" "map snd krs1 = fst b"
proof -
  have "map snd krs = log_records bs @ fst b @ [commit_record (snd b) (length (fst b))]"
    using assms by (simp add: log_records_def batch_records_def)
  from map_append_split [OF this] obtain krs0 vs where 0: "krs = krs0 @ vs" "map snd krs0 = log_records bs" "map snd vs = fst b @ [commit_record (snd b) (length (fst b))]"
    by blast
  from map_append_split [OF 0(3)] obtain krs1 krs2 where 1: "vs = krs1 @ krs2" "map snd krs1 = fst b" "map snd krs2 = [commit_record (snd b) (length (fst b))]"
    by (elim exE conjE) (rule that)
  from 1(3) obtain k where "krs2 = [(k, commit_record (snd b) (length (fst b)))]" by (cases krs2) auto
  with 0 1 show ?thesis by (intro that [of krs0 krs1 k]) simp_all
qed

lemma list_all2_ex: "list_all2 P xs ys \<Longrightarrow> y \<in> set ys \<Longrightarrow> \<exists>x\<in>set xs. P x y"
  by (induction rule: list_all2_induct) auto

lemma carried_transfers: "list_all2 carries_transfer (fst b) us \<Longrightarrow> set us \<subseteq> log_transfers (bs @ [b])"
  using list_all2_ex [of carries_transfer] by (fastforce simp: log_transfers_def)

lemma carried_accounts: "list_all2 carries_account (fst b) cs \<Longrightarrow> set cs \<subseteq> log_accounts (bs @ [b])"
  using list_all2_ex [of carries_account] by (fastforce simp: log_accounts_def)

lemma log_prefix: "log_transfers bs \<subseteq> log_transfers (bs @ bs')" "log_accounts bs \<subseteq> log_accounts (bs @ bs')"
  by (auto simp: log_transfers_def log_accounts_def)

lemma audit_run:
  assumes "runs l bs" and "log_transfers bs \<subseteq> ts" and "keys_once ts" and "\<forall>t\<in>ts. Hi (Amount t) = 0"
    and "\<forall>c\<in>log_accounts bs. Hi (PostedCredits c) = 0" and "map snd krs = log_records bs"
  shows "audited n ts (el_accounts l) bs (audit_records (auditor0 n) krs)"
  using assms
proof (induction arbitrary: krs rule: runs.induct)
  case (start mx)
  have "map_option bal_of \<circ> account_at NewAccountManager = Map.empty" by (auto simp: account_at_def NewAccountManager_def)
  then have "agrees ts (book_of NewAccountManager) (dom (transfers NewAccountManager)) (auditor0 n)"
    by (auto simp: agrees_def auditor0_def hold_at_def at0_def net_sum_def) (auto simp: account_at_def [abs_def] NewAccountManager_def)
  then show ?case using start by (simp add: audited_def log_records_def auditor0_def NewEventLoop_def)
next
  case (transfers l bs events wallClock)
  let ?l = "fst (processBatch wallClock l events)" and ?recs = "batch_log wallClock l events" and ?w = "el_wal l"
  have inv: "run_inv l bs" by (rule runs_inv [OF transfers.hyps(1)])
  note ts = transfers_step [OF inv transfers.hyps(2-4)]
  obtain m us where m: "m = CloseExpired (SetClock (el_accounts l) (batch_time wallClock l))" "am_inv m" "hist_ok m" "list_all2 carries_transfer ?recs us"
    "run_steps ApplyTransferState m us = (el_accounts ?l, None)" "distinct (new_ids us)" "set (new_ids us) \<inter> dom (transfers m) = {}"
    using ts(3) by blast
  have live: "am_inv (el_accounts l)" using inv replays_live by (auto simp: run_inv_def)
  have closed: "audited n ts m bs a" if "audited n ts (el_accounts l) bs a" for a
    unfolding m(1) by (rule audited_close [OF that live])
  show ?case
  proof (cases "?recs = []")
    case True
    then show ?thesis using m(4,5) transfers.prems closed [OF transfers.IH] by (simp add: logs_def)
  next
    case False
    let ?b = "appended ?w ?recs"
    have bs: "logs ?w ?recs = [?b]" using False by (simp add: logs_def)
    obtain krs0 krs1 k where k: "krs = krs0 @ krs1 @ [(k, commit_record (snd ?b) (length (fst ?b)))]" "map snd krs0 = log_records bs" "map snd krs1 = fst ?b"
      using split_batch transfers.prems(5) unfolding bs by metis
    have rise: "LSNs_rise (bs @ [?b])" using ts(2) reach_LSNs unfolding bs run_inv_def by blast
    have car: "list_all2 carries_transfer (map snd krs1) us"
      using m(4) carries_LSN(1) by (simp add: k(3) appended_def stamp_list_all2)
    have us: "set us \<subseteq> log_transfers (bs @ [?b])" by (rule carried_transfers) (use car k(3) in simp)
    have sub: "log_transfers bs \<subseteq> ts" "set us \<subseteq> ts" "\<forall>c\<in>log_accounts bs. Hi (PostedCredits c) = 0"
      using transfers.prems(1,4) us log_prefix [of bs "[?b]"] unfolding bs by blast+
    have a0: "audited n ts m bs (audit_records (auditor0 n) krs0)"
      by (rule closed [OF transfers.IH [OF sub(1) transfers.prems(2,3) sub(3) k(2)]])
    then have ag: "agrees ts (book_of m) (dom (transfers m)) (audit_records (auditor0 n) krs0)"
      and lsn: "sorted_wrt (<) (au_prevLSN (audit_records (auditor0 n) krs0) # map (rec_LSN \<circ> snd) krs1)"
      using LSNs_split(2) [OF rise] k(3) by (simp_all add: audited_def flip: map_map)
    from audited_batch [OF a0 rise k(3) audit_transfers [OF car m(5) ag m(2,3,6,7) sub(2) transfers.prems(2,3) lsn], of k]
    show ?thesis unfolding bs k(1) audit_records_simps(3) .
  qed
next
  case (creates l bs accs)
  let ?l = "fst (processAccountCreate l accs)" and ?recs = "create_log l accs" and ?w = "el_wal l"
  have inv: "run_inv l bs" by (rule runs_inv [OF creates.hyps(1)])
  note cs = creates_step [OF inv creates.hyps(2,3)]
  obtain as where m: "list_all2 carries_account ?recs as" "el_accounts ?l = foldl (\<lambda>n a. fst (Create n a)) (el_accounts l) as"
    "\<forall>a\<in>set as. ValidateAccount a = None"
    using cs(3) by blast
  have live: "am_inv (el_accounts l)" using inv replays_live by (auto simp: run_inv_def)
  show ?case
  proof (cases "?recs = []")
    case True
    then show ?thesis using m(1,2) creates.prems creates.IH by (simp add: logs_def)
  next
    case False
    let ?b = "appended ?w ?recs"
    have bs: "logs ?w ?recs = [?b]" using False by (simp add: logs_def)
    obtain krs0 krs1 k where k: "krs = krs0 @ krs1 @ [(k, commit_record (snd ?b) (length (fst ?b)))]" "map snd krs0 = log_records bs" "map snd krs1 = fst ?b"
      using split_batch creates.prems(5) unfolding bs by metis
    have rise: "LSNs_rise (bs @ [?b])" using cs(2) reach_LSNs unfolding bs run_inv_def by blast
    have car: "list_all2 carries_account (map snd krs1) as"
      using m(1) carries_LSN(2) by (simp add: k(3) appended_def stamp_list_all2)
    have as: "set as \<subseteq> log_accounts (bs @ [?b])" by (rule carried_accounts) (use car k(3) in simp)
    have sub: "log_transfers bs \<subseteq> ts" "\<forall>c\<in>log_accounts bs. Hi (PostedCredits c) = 0" "\<forall>c\<in>set as. ValidateAccount c = None \<and> Hi (PostedCredits c) = 0"
      using creates.prems(1,4) as m(3) log_prefix [of bs "[?b]"] unfolding bs by blast+
    have a0: "audited n ts (el_accounts l) bs (audit_records (auditor0 n) krs0)"
      by (rule creates.IH [OF sub(1) creates.prems(2,3) sub(2) k(2)])
    then have ag: "agrees ts (book_of (el_accounts l)) (dom (transfers (el_accounts l))) (audit_records (auditor0 n) krs0)"
      and lsn: "sorted_wrt (<) (au_prevLSN (audit_records (auditor0 n) krs0) # map (rec_LSN \<circ> snd) krs1)"
      using LSNs_split(2) [OF rise] k(3) by (simp_all add: audited_def flip: map_map)
    from audited_batch [OF a0 rise k(3) audit_accounts [OF car ag live sub(3) lsn], of k]
    show ?thesis unfolding bs k(1) m(2) audit_records_simps(3) .
  qed
qed

subsection \<open>The final balance\<close>

lemma audit_balances_sum:
  assumes "\<forall>i b. au_balances a i = Some b \<longrightarrow> ab_debits b \<le> ab_credits b" and "distinct ks"
  shows "\<exists>totals'. audit_balances ks totals a = (totals', a) \<and>
    (\<forall>L. at0 totals' L = at0 totals L + (\<Sum>i\<in>set ks \<inter> dom (au_balances a). net L (the (au_balances a i))))"
  using assms(2)
proof (induction ks arbitrary: totals)
  case (Cons i ks)
  show ?case
  proof (cases "au_balances a i")
    case None
    then have "set (i # ks) \<inter> dom (au_balances a) = set ks \<inter> dom (au_balances a)" by auto
    with None Cons show ?thesis by simp
  next
    case (Some b)
    define t where "t = totals(ab_ledger b \<mapsto> at0 totals (ab_ledger b) + (ab_credits b - ab_debits b))"
    have "\<not> ab_debits b > ab_credits b" using Some assms(1) by (simp add: not_less)
    then have eq: "audit_balances (i # ks) totals a = audit_balances ks t a" using Some by (simp add: t_def)
    have "set (i # ks) \<inter> dom (au_balances a) = insert i (set ks \<inter> dom (au_balances a))" "i \<notin> set ks \<inter> dom (au_balances a)"
      using Some Cons.prems by auto
    then have sum: "(\<Sum>j\<in>set (i # ks) \<inter> dom (au_balances a). net L (the (au_balances a j))) =
        net L b + (\<Sum>j\<in>set ks \<inter> dom (au_balances a). net L (the (au_balances a j)))" for L using Some by simp
    have "at0 t L = at0 totals L + net L b" for L by (simp add: at0_def net_def t_def)
    with Cons.IH [of t] Cons.prems show ?thesis unfolding eq sum by (simp add: add.assoc)
  qed
qed simp

lemma audit_ledgers_ok: "\<forall>L v. au_injected a L = Some v \<longrightarrow> at0 totals L = v \<Longrightarrow> audit_ledgers ls totals a = a"
  by (induction ls) (auto simp: only_if_def split: option.split)

text \<open>All accounts are solvent in 64 bits, and \<open>ks\<close> visits them all.\<close>

definition solvent64 :: "account \<Rightarrow> bool" where
  "solvent64 c \<longleftrightarrow> val (PostedDebits c) \<le> val (PostedCredits c) \<and> val (PostedCredits c) < 2 ^ 64"

lemma solvent64_Lo: "solvent64 c \<Longrightarrow> Lo (PostedDebits c) \<le> Lo (PostedCredits c)"
proof -
  assume c: "solvent64 c"
  have "unat (Lo x) = val x" if "val x < 2 ^ 64" for x
  proof -
    have "2 ^ 64 * unat (Hi x) < 2 ^ 64" using that unfolding val_def by linarith
    then show ?thesis by (simp add: val_def)
  qed
  with c show ?thesis by (simp add: solvent64_def word_le_nat_alt)
qed

lemma account_at_member: "\<lbrakk> index_ok m; account_at m i = Some c \<rbrakk> \<Longrightarrow> c \<in> set (accounts m) \<and> acc_ID c = i"
  by (auto simp: account_at_def dest: index_okD)

lemma audit_end_ok:
  assumes ag: "agrees ts (book_of m) seen a" and m: "index_ok m" and ok: "\<forall>c\<in>set (accounts m). solvent64 c"
    and ks: "distinct ks" "set (map acc_ID (accounts m)) \<subseteq> set ks"
  shows "audit_end ks ls a = a"
proof -
  have b: "au_balances a = map_option bal_of \<circ> account_at m" and inj: "\<And>L. at0 (au_injected a) L = net_sum L (au_balances a)"
    using ag by (simp_all add: agrees_def)
  have "\<forall>i b. au_balances a i = Some b \<longrightarrow> ab_debits b \<le> ab_credits b"
    using account_at_member [OF m] ok solvent64_Lo by (fastforce simp: b bal_of_def)
  from audit_balances_sum [OF this ks(1), of Map.empty] obtain totals where t: "audit_balances ks Map.empty a = (totals, a)"
    "\<And>L. at0 totals L = (\<Sum>i\<in>set ks \<inter> dom (au_balances a). net L (the (au_balances a i)))" by (auto simp: at0_def)
  have "dom (au_balances a) \<subseteq> set ks" using account_at_member [OF m] ks(2) by (fastforce simp: b)
  then have "set ks \<inter> dom (au_balances a) = dom (au_balances a)" by blast
  then have "at0 totals L = at0 (au_injected a) L" for L using t(2) inj by (simp add: net_sum_def)
  then show ?thesis using t(1) by (simp add: audit_end_def audit_ledgers_ok at0_def)
qed

subsection \<open>The files of a log\<close>

definition auditable :: "batch list \<Rightarrow> bool" where
  "auditable bs \<longleftrightarrow> keys_once (log_transfers bs) \<and> (\<forall>t\<in>log_transfers bs. Hi (Amount t) = 0) \<and> (\<forall>c\<in>log_accounts bs. Hi (PostedCredits c) = 0)"

lemma wf_log: "\<lbrakk> \<forall>b\<in>set bs. wf_batch b; r \<in> set (log_records bs) \<rbrakk> \<Longrightarrow> length (rec_Payload r) \<le> 4294967295"
  by (auto simp: log_records_def batch_records_def wf_batch_def wf_record_def commit_record_def commit_payload_layout)

lemma audit_dir_records:
  assumes files: "files = map segment_of parts" "sorted_wrt (<) (map fst parts)" and recs: "\<forall>p\<in>set parts. \<forall>r\<in>set (snd p). length (rec_Payload r) \<le> 4294967295"
  shows "Audit_dir ks ls files = au_rep (audit_end ks ls (audit_records (auditor0 (length parts)) (numbered parts)))"
proof -
  have "map fst files = map fst parts" by (simp add: files(1) segment_of_def)
  then have "sort_key fst files = files" using files(2) by (intro sort_key_id_if_sorted) (simp add: strict_sorted_imp_sorted)
  then show ?thesis using audit_files [OF recs] by (simp add: Audit_dir_def files(1))
qed

lemma run_files:
  assumes "runs l bs"
  obtains parts where "wal_files (el_wal l) = map segment_of parts" "sorted_wrt (<) (map fst parts)" "parts_records parts = log_records bs"
    "\<forall>p\<in>set parts. \<forall>r\<in>set (snd p). length (rec_Payload r) \<le> 4294967295" "parts \<noteq> []" "fst (last parts) = currentID (el_wal l)"
proof -
  have w: "wal_reach (el_wal l) bs (length bs)" using runs_inv [OF assms] by (simp add: run_inv_def)
  obtain parts rs where h: "history_ok (el_wal l) bs (length bs) parts rs" using reach_history [OF w] by blast
  let ?ps = "parts @ [(currentID (el_wal l), rs)]"
  have f: "wal_files (el_wal l) = map segment_of ?ps" "parts_records ?ps = log_records bs" "\<forall>b\<in>set bs. wf_batch b"
    using h by (auto simp: history_ok_def log_state_def parts_records_def segment_of_def)
  have "map fst (wal_files (el_wal l)) = map fst ?ps" unfolding f(1) by (simp add: segment_of_def)
  then have "sorted_wrt (<) (map fst ?ps)" using reach_ascending [OF w] by (simp add: ascending_def)
  moreover have "\<forall>p\<in>set ?ps. \<forall>r\<in>set (snd p). length (rec_Payload r) \<le> 4294967295"
  proof (intro ballI)
    fix p r assume "p \<in> set ?ps" "r \<in> set (snd p)"
    then have "r \<in> set (parts_records ?ps)" unfolding parts_records_def set_concat set_map by blast
    then show "length (rec_Payload r) \<le> 4294967295" unfolding f(2) by (rule wf_log [OF f(3)])
  qed
  ultimately show ?thesis using f by (intro that [of ?ps]) simp_all
qed

text \<open>C17: The log of a ledger passes the audit. Take a ledger that has served any run, whose amounts and totals
  fit in 64 bits, whose keys were each used by one transfer, and whose accounts are not overdrawn at the end. The last two are
  conditions the auditor checks itself and the engine does not enforce in every case (settlements can overdraw, and a
  key is forgotten after its time to live); for a ledger that meets them, no other check of the auditor fires.
  Whatever the order in which the auditor visits accounts and ledgers, it reads every record and batch of
  the files, finds no violation and no torn tail.\<close>

theorem ledger_log_passes_audit:
  assumes run: "runs l bs" and ok: "auditable bs" "\<forall>c\<in>set (accounts (el_accounts l)). solvent64 c"
    and ks: "distinct ks" "set (map acc_ID (accounts (el_accounts l))) \<subseteq> set ks"
  shows "let r = Audit_dir ks ls (wal_files (el_wal l)) in
    Valid r \<and> rp_TornTail r = None \<and> rp_Segments r = length (wal_files (el_wal l)) \<and> rp_Records r = length (log_records bs) \<and>
    rp_Batches r = length bs \<and> rp_Transfers r + rp_Accounts r = length (concat (map fst bs))"
proof -
  obtain parts where p: "wal_files (el_wal l) = map segment_of parts" "sorted_wrt (<) (map fst parts)" "parts_records parts = log_records bs"
    "\<forall>p\<in>set parts. \<forall>r\<in>set (snd p). length (rec_Payload r) \<le> 4294967295" by (rule run_files [OF run])
  let ?a = "audit_records (auditor0 (length parts)) (numbered parts)"
  have "map snd (numbered parts) = log_records bs" using p(3) by (simp add: snd_numbered parts_records_def)
  from audit_run [OF run order.refl _ _ _ this] ok(1) have a: "audited (length parts) (log_transfers bs) (el_accounts l) bs ?a"
    by (simp add: auditable_def)
  then have ag: "agrees (log_transfers bs) (book_of (el_accounts l)) (dom (transfers (el_accounts l))) ?a" by (simp add: audited_def)
  have "index_ok (el_accounts l)" using runs_inv [OF run] replays_live by (auto simp: run_inv_def am_inv_def am_ok_def)
  from audit_end_ok [OF ag this ok(2) ks, of ls] audit_dir_records [OF p(1,2,4), of ks ls]
  have "Audit_dir ks ls (wal_files (el_wal l)) = au_rep ?a" by simp
  with a p(1) show ?thesis by (simp add: audited_def agrees_def Valid_def)
qed

subsection \<open>A concrete run\<close>

text \<open>Two accounts and one transfer between them.\<close>

definition paid_loop :: eventLoop where
  "paid_loop = fst (processBatch 5 served_loop [sample_transfer 7 1 2 30 0])"

abbreviation paid_log :: "batch list" where
  "paid_log \<equiv> sample_log @ logs (el_wal served_loop) (batch_log 5 served_loop [sample_transfer 7 1 2 30 0])"

abbreviation paid_transfer :: transfer where
  "paid_transfer \<equiv> (sample_transfer 7 1 2 30 0)\<lparr>Timestamp := 5\<rparr>"

lemma carries_unique:
  "carries_transfer r t \<Longrightarrow> carries_transfer r u \<Longrightarrow> t = u" "carries_account r c \<Longrightarrow> carries_account r d \<Longrightarrow> c = d"
  "carries_transfer r t \<Longrightarrow> \<not> carries_account r c"
  by (auto simp: carries_transfer_def carries_account_def dest: transfer_codec.dec_enc account_codec.dec_enc)
     (metis transfer_codec.dec_enc sum.inject(2) account_codec.dec_enc)+

lemma served_manager: "el_accounts served_loop = sample_manager" "batch_time 5 served_loop = 5"
  by (simp_all add: served_state sample_manager_def batch_time_def)

lemma paid_outcomes: "ValidateBatch [paid_transfer] (CloseExpired (SetClock sample_manager 5)) = [None]"
  by code_simp

lemma paid_conditions:
  "\<forall>t\<in>set [sample_transfer 7 1 2 30 0]. wf_transfer t \<and> holds_last (batch_time 5 served_loop) t" "sint (el_clock served_loop) < 9223372036854775807"
  "room served_loop (length [sample_transfer 7 1 2 30 0])"
  by (simp_all add: room_def served_state served_manager wf_transfer_def holds_last_def sample_transfer_def ident_of_def transfer0_def isPending_def)

lemma paid_runs: "runs paid_loop paid_log"
  unfolding paid_loop_def by (rule runs.transfers [OF served_runs paid_conditions])

lemma paid_records:
  "batch_log 5 served_loop [sample_transfer 7 1 2 30 0] = makeWALRecords [paid_transfer] [None]"
  using paid_outcomes by (simp add: batch_log_def open_batch_def served_manager Let_def)

lemma paid_carries: "list_all2 carries_transfer (batch_log 5 served_loop [sample_transfer 7 1 2 30 0]) [paid_transfer]"
proof -
  have "\<forall>t\<in>set [paid_transfer]. wf_transfer t" using paid_conditions(1) by (simp add: wf_transfer_def)
  from makeWALRecords_carries [OF _ this, of "[None]" 0] show ?thesis
    unfolding paid_records using carries_LSN by (simp add: stamp_list_all2 accepted_def)
qed

lemma paid_accounts: "map acc_ID (accounts (el_accounts paid_loop)) = [ident_of 1, ident_of 2]" "\<forall>c\<in>set (accounts (el_accounts paid_loop)). solvent64 c"
proof -
  obtain n us where n: "n = CloseExpired (SetClock sample_manager 5)" "list_all2 carries_transfer (batch_log 5 served_loop [sample_transfer 7 1 2 30 0]) us"
    "run_steps ApplyTransferState n us = (el_accounts paid_loop, None)"
    using transfers_step(3) [OF runs_inv [OF served_runs] paid_conditions] unfolding served_manager paid_loop_def by blast
  from n(2) paid_carries have "us = [paid_transfer]" using carries_unique(1) by (auto simp: list_all2_Cons2 list_all2_Cons1)
  with n have "el_accounts paid_loop = fst (ApplyTransferState (CloseExpired (SetClock sample_manager 5)) paid_transfer)"
    by (auto split: prod.splits option.splits)
  moreover have "map acc_ID (accounts (fst (ApplyTransferState (CloseExpired (SetClock sample_manager 5)) paid_transfer))) = [ident_of 1, ident_of 2]"
    by code_simp
  moreover have "map (\<lambda>c. (PostedDebits c, PostedCredits c)) (accounts (fst (ApplyTransferState (CloseExpired (SetClock sample_manager 5)) paid_transfer))) =
      [(Uint128 30 0, Uint128 100 0), (Uint128 0 0, Uint128 30 0)]"
    by code_simp
  ultimately have ids: "map acc_ID (accounts (el_accounts paid_loop)) = [ident_of 1, ident_of 2]"
    and bal: "map (\<lambda>c. (PostedDebits c, PostedCredits c)) (accounts (el_accounts paid_loop)) = [(Uint128 30 0, Uint128 100 0), (Uint128 0 0, Uint128 30 0)]"
    by simp_all
  show "map acc_ID (accounts (el_accounts paid_loop)) = [ident_of 1, ident_of 2]" by (rule ids)
  from bal show "\<forall>c\<in>set (accounts (el_accounts paid_loop)). solvent64 c" by (auto simp: solvent64_def val_def map_eq_Cons_conv)
qed

lemma list_all2_ex2: "list_all2 P xs ys \<Longrightarrow> x \<in> set xs \<Longrightarrow> \<exists>y\<in>set ys. P x y"
  by (induction rule: list_all2_induct) auto

lemma logged_transfers:
  assumes "list_all2 carries_transfer (fst b) us"
  shows "log_transfers (bs @ [b]) = log_transfers bs \<union> set us" "log_accounts (bs @ [b]) = log_accounts bs"
proof -
  have r: "\<exists>u\<in>set us. carries_transfer r u" if "r \<in> set (fst b)" for r
    by (rule list_all2_ex2 [OF assms that])
  then have "t \<in> set us" if "r \<in> set (fst b)" "carries_transfer r t" for r t using that carries_unique(1) by blast
  then have "log_transfers (bs @ [b]) \<subseteq> log_transfers bs \<union> set us" by (auto simp: log_transfers_def)
  then show "log_transfers (bs @ [b]) = log_transfers bs \<union> set us" using carried_transfers [OF assms, of bs] log_prefix(1) [of bs "[b]"] by blast
  have "\<not> carries_account r c" if "r \<in> set (fst b)" for r c using r [OF that] carries_unique(3) by blast
  then show "log_accounts (bs @ [b]) = log_accounts bs" by (auto simp: log_accounts_def)
qed

lemma logged_accounts:
  assumes "list_all2 carries_account (fst b) cs"
  shows "log_transfers [b] = {}" "log_accounts [b] = set cs"
proof -
  have r: "\<exists>c\<in>set cs. carries_account r c" if "r \<in> set (fst b)" for r
    by (rule list_all2_ex2 [OF assms that])
  then have "c \<in> set cs" if "r \<in> set (fst b)" "carries_account r c" for r c using that carries_unique(2) by blast
  then show "log_accounts [b] = set cs" using carried_accounts [OF assms, of "[]"] by (auto simp: log_accounts_def)
  show "log_transfers [b] = {}" using r carries_unique(3) by (fastforce simp: log_transfers_def)
qed

lemma paid_auditable: "auditable paid_log"
proof -
  let ?recs = "batch_log 5 served_loop [sample_transfer 7 1 2 30 0]"
  obtain results where "scan_creates NewAccountManager [sample_account 1 100, sample_account 2 0] [] = (results, sample_recs)"
    by (metis create_log_def prod.collapse sample_loop_wal(2))
  from scan_creates_carries(1) [OF this sample_accounts_wf(1)]
  have as: "list_all2 carries_account (fst sample_entry) (created [sample_account 1 100, sample_account 2 0] results)" by (simp add: appended_def)
  have "?recs \<noteq> []" using paid_carries by auto
  then have b: "logs (el_wal served_loop) ?recs = [appended (el_wal served_loop) ?recs]" by (simp add: logs_def)
  have "list_all2 carries_transfer (fst (appended (el_wal served_loop) ?recs)) [paid_transfer]"
    using paid_carries carries_LSN(1) by (simp add: appended_def stamp_list_all2)
  from logged_transfers [OF this, of sample_log] logged_accounts [OF as]
  have "log_transfers paid_log = {paid_transfer}" "log_accounts paid_log = set (created [sample_account 1 100, sample_account 2 0] results)"
    unfolding b sample_log_batch(1) by simp_all
  moreover have "set (created [sample_account 1 100, sample_account 2 0] results) \<subseteq> {sample_account 1 100, sample_account 2 0}"
    by (auto simp: created_def dest: set_zip_leftD)
  ultimately show ?thesis by (auto simp: auditable_def keys_once_def sample_transfer_def sample_account_def FromUint64_def)
qed

theorem ledger_log_passes_audit_witness:
  "let r = Audit_dir [ident_of 2, ident_of 1] [1] (wal_files (el_wal paid_loop)) in Valid r \<and> rp_Batches r = 2 \<and> rp_Records r = 5"
proof -
  have "length sample_recs = 2" "length (batch_log 5 served_loop [sample_transfer 7 1 2 30 0]) = 1"
    using sample_log_batch(2) list_all2_lengthD [OF paid_carries] by simp_all
  then have "length (log_records paid_log) = 5" "length paid_log = 2"
    by (auto simp: sample_log_batch(1) logs_def log_records_def batch_records_def appended_def)
  with ledger_log_passes_audit [OF paid_runs paid_auditable paid_accounts(2), of "[ident_of 2, ident_of 1]" "[1]"] paid_accounts(1)
  show ?thesis by (simp add: Let_def ident_of_def)
qed

subsection \<open>What the auditor does not notice\<close>

lemma audit_marker_before:
  assumes "agrees ts s seen (audit_record k (commit_record l n) a)"
  shows "agrees ts s seen a"
  using assms
  by (auto simp: agrees_def audit_record_def audit_commit_def only_if_def violate_def Let_def split: if_splits)

lemma marker_counts:
  "rp_Batches (au_rep (audit_record k (commit_record l n) a)) = Suc (rp_Batches (au_rep a))"
  "rp_Transfers (au_rep (audit_record k (commit_record l n) a)) = rp_Transfers (au_rep a)"
  "rp_Accounts (au_rep (audit_record k (commit_record l n) a)) = rp_Accounts (au_rep a)"
  "rp_TornTail (au_rep (audit_record k (commit_record l n) a)) = rp_TornTail (au_rep a)"
  by (simp_all add: audit_record_def audit_commit_def only_if_def violate_def Let_def)

lemma file_bytes_last: "\<forall>p\<in>set fs. fst p < k \<Longrightarrow> file_bytes (fs @ [(k, d)]) k = d"
  by (induction fs) (auto simp: file_bytes_def)

lemma frames_single: "frames [r] = frame_of r"
  by (simp add: frames_def)

lemma lost_marker_files:
  assumes reach: "wal_reach w bs d" and ne: "bs \<noteq> []" "file_bytes (wal_files w) (currentID w) \<noteq> []"
  obtains ps where "crash w (length (file_bytes (wal_files w) (currentID w)) - 29) = map segment_of ps" "sorted_wrt (<) (map fst ps)"
    "\<forall>p\<in>set ps. \<forall>r\<in>set (snd p). length (rec_Payload r) \<le> 4294967295"
    "map snd (numbered ps @ [(currentID w, commit_record (snd (last bs)) (length (fst (last bs))))]) = log_records bs"
proof -
  let ?b = "last bs" and ?k = "currentID w"
  let ?c = "commit_record (snd ?b) (length (fst ?b))"
  obtain parts rs where h: "history_ok w bs d parts rs" using reach_history [OF reach] by blast
  then have st: "log_state w parts rs" and recs: "parts_records parts @ rs = log_records bs" and wf: "\<forall>b\<in>set bs. wf_batch b"
    by (simp_all add: history_ok_def)
  have "\<forall>p\<in>set (map segment_of parts). fst p < ?k" "wal_files w = map segment_of parts @ [(?k, frames rs)]"
    using st by (auto simp: log_state_def segment_of_def)
  then have data: "file_bytes (wal_files w) ?k = frames rs" by (simp add: file_bytes_last)
  have "log_records bs = log_records (butlast bs) @ fst ?b @ [?c]"
    using arg_cong [OF append_butlast_last_id [OF ne(1)], of log_records] by (simp add: log_records_def batch_records_def)
  with recs have lst: "last (parts_records parts @ rs) = ?c" by simp
  have "rs \<noteq> []" using ne(2) data by (auto simp: frames_def)
  with lst have rs: "rs = butlast rs @ [?c]" by (metis append_butlast_last_id last_appendR)
  then have fr: "frames rs = frames (butlast rs) @ frame_of ?c" by (metis frames_append frames_single)
  let ?ps = "parts @ [(?k, butlast rs)]"
  have "length (frame_of ?c) = 29" by (simp add: length_frame_of commit_record_def commit_payload_layout)
  then have files: "crash w (length (file_bytes (wal_files w) ?k) - 29) = map segment_of ?ps"
    unfolding data crash_files [OF st] by (simp add: fr segment_of_def)
  have keys: "sorted_wrt (<) (map fst ?ps)" using reach_ascending [OF reach] st by (simp add: ascending_def log_state_def segment_of_def comp_def)
  have small: "\<forall>p\<in>set ?ps. \<forall>r\<in>set (snd p). length (rec_Payload r) \<le> 4294967295"
  proof (intro ballI)
    fix p r assume "p \<in> set ?ps" "r \<in> set (snd p)"
    then have "r \<in> set (parts_records parts @ rs)" by (auto simp: parts_records_def dest: in_set_butlastD)
    then show "length (rec_Payload r) \<le> 4294967295" unfolding recs by (rule wf_log [OF wf])
  qed
  have "parts_records parts @ butlast rs @ [?c] = log_records bs" using recs rs by simp
  then have "map snd (numbered ?ps @ [(?k, ?c)]) = log_records bs" by (simp add: snd_numbered parts_records_def)
  then show ?thesis using that [OF files keys small] by blast
qed

text \<open>A batch without its commit marker. If a crash loses exactly the last commit marker of a log, recovery
  discards the records of the last batch, but the auditor counts them among its transfers and accounts and
  reports neither a violation nor a torn tail.\<close>

theorem audit_misses_lost_marker:
  assumes run: "runs l bs" and ne: "bs \<noteq> []" "file_bytes (wal_files (el_wal l)) (currentID (el_wal l)) \<noteq> []"
    and ok: "auditable bs" "\<forall>c\<in>set (accounts (el_accounts l)). solvent64 c"
    and ks: "distinct ks" "set (map acc_ID (accounts (el_accounts l))) \<subseteq> set ks"
  shows "let r = Audit_dir ks ls (crash (el_wal l) (length (file_bytes (wal_files (el_wal l)) (currentID (el_wal l))) - 29)) in
    Valid r \<and> rp_TornTail r = None \<and> rp_Batches r + 1 = length bs \<and> rp_Transfers r + rp_Accounts r = length (concat (map fst bs))"
proof -
  let ?w = "el_wal l" and ?k = "currentID (el_wal l)" and ?c = "commit_record (snd (last bs)) (length (fst (last bs)))"
  have "wal_reach ?w bs (length bs)" using runs_inv [OF run] by (simp add: run_inv_def)
  from lost_marker_files [OF this ne] obtain ps where ps: "crash ?w (length (file_bytes (wal_files ?w) ?k) - 29) = map segment_of ps" "sorted_wrt (<) (map fst ps)"
    "\<forall>p\<in>set ps. \<forall>r\<in>set (snd p). length (rec_Payload r) \<le> 4294967295" "map snd (numbered ps @ [(?k, ?c)]) = log_records bs" by metis
  let ?a = "audit_records (auditor0 (length ps)) (numbered ps)"
  from audit_run [OF run order.refl _ _ _ ps(4), of "length ps"] ok(1)
  have a: "audited (length ps) (log_transfers bs) (el_accounts l) bs (audit_record ?k ?c ?a)" by (simp add: auditable_def)
  then have ag: "agrees (log_transfers bs) (book_of (el_accounts l)) (dom (transfers (el_accounts l))) ?a"
    by (auto simp: audited_def intro: audit_marker_before)
  have "index_ok (el_accounts l)" using runs_inv [OF run] replays_live by (auto simp: run_inv_def am_inv_def am_ok_def)
  from audit_end_ok [OF ag this ok(2) ks, of ls] audit_dir_records [OF ps(1-3), of ks ls]
  have "Audit_dir ks ls (crash ?w (length (file_bytes (wal_files ?w) ?k) - 29)) = au_rep ?a" by simp
  moreover have "rp_Violations (au_rep ?a) = []" using ag by (simp add: agrees_def)
  ultimately show ?thesis using a by (simp add: audited_def marker_counts Valid_def)
qed

lemma sample_audit: "auditable sample_log" "\<forall>c\<in>set (accounts sample_manager). solvent64 c" "map acc_ID (accounts sample_manager) = [ident_of 1, ident_of 2]"
proof -
  have t: "log_transfers sample_log \<subseteq> log_transfers paid_log" "log_accounts sample_log \<subseteq> log_accounts paid_log" by (rule log_prefix)+
  with paid_auditable show "auditable sample_log" unfolding auditable_def keys_once_def by blast
  have "map (\<lambda>c. (PostedDebits c, PostedCredits c)) (accounts sample_manager) = [(Uint128 0 0, Uint128 100 0), (Uint128 0 0, Uint128 0 0)]" by code_simp
  then show "\<forall>c\<in>set (accounts sample_manager). solvent64 c" by (auto simp: solvent64_def val_def map_eq_Cons_conv)
  show "map acc_ID (accounts sample_manager) = [ident_of 1, ident_of 2]" by code_simp
qed

theorem audit_misses_lost_marker_witness:
  "let w = el_wal served_loop; r = Audit_dir [ident_of 1, ident_of 2] [1] (crash w (length (file_bytes (wal_files w) (currentID w)) - 29))
   in Valid r \<and> rp_TornTail r = None \<and> rp_Batches r = 0 \<and> rp_Transfers r + rp_Accounts r = 2"
proof -
  obtain parts where p: "wal_files (el_wal served_loop) = map segment_of parts" "parts \<noteq> []" "fst (last parts) = currentID (el_wal served_loop)"
    by (rule run_files [OF served_runs])
  then have "currentID (el_wal served_loop) = 1" unfolding served_files(1) by (cases parts) (auto simp: segment_of_def)
  then have "file_bytes (wal_files (el_wal served_loop)) (currentID (el_wal served_loop)) \<noteq> []"
    unfolding served_files(1) by (simp add: file_bytes_def frames_def batch_records_def frame_of_def body_def)
  from audit_misses_lost_marker [OF served_runs _ this sample_audit(1), of "[ident_of 1, ident_of 2]" "[1]"] sample_audit(2,3) sample_log_batch(1,5)
  show ?thesis by (simp add: Let_def served_manager(1) ident_of_def)
qed

subsection \<open>Damaged frames\<close>

text \<open>A finding is never withdrawn.\<close>

abbreviation found :: "auditor \<Rightarrow> violation set" where
  "found a \<equiv> set (rp_Violations (au_rep a))"

lemma found_violate [simp]: "found (violate kind seg lsn a) = insert \<lparr>v_Kind = kind, v_Segment = seg, v_LSN = lsn\<rparr> (found a)"
  by (simp add: violate_def)

lemma found_only_if: "found a \<subseteq> found (only_if c (violate kind seg lsn) a)"
  by (auto simp: only_if_def)

lemma found_count [simp]: "found (count_pending a) = found a"
  by (simp add: count_pending_def)

lemma found_hold: "found a \<subseteq> found (audit_hold seg lsn t a)"
proof -
  define a3 where "a3 = only_if (wrong_ledger t (au_balances a (DebitAccountID t)) (au_balances a (CreditAccountID t))) (violate ViolationConservation (Some seg) lsn)
    (only_if (au_balances a (CreditAccountID t) = None) (violate ViolationConservation (Some seg) lsn)
    (only_if (au_balances a (DebitAccountID t) = None) (violate ViolationConservation (Some seg) lsn) a))"
  have "found a \<subseteq> found a3" unfolding a3_def by (meson found_only_if order_trans)
  moreover have "found a3 \<subseteq> found (audit_hold seg lsn t a)"
    by (auto simp: audit_hold_def Let_def simp flip: a3_def split: option.split)
  ultimately show ?thesis by (rule order_trans)
qed

lemma found_plain: "found a \<subseteq> found (audit_plain seg lsn t a)"
proof -
  define a1 where "a1 = (if au_balances a (DebitAccountID t) \<noteq> None then a\<lparr>au_balances := add_debit (DebitAccountID t) (Lo (Amount t)) (au_balances a)\<rparr>
    else violate ViolationConservation (Some seg) lsn a)"
  define a2 where "a2 = (if au_balances a (CreditAccountID t) \<noteq> None then a1\<lparr>au_balances := add_credit (CreditAccountID t) (Lo (Amount t)) (au_balances a1)\<rparr>
    else violate ViolationConservation (Some seg) lsn a1)"
  define a3 where "a3 = only_if (wrong_ledger t (au_balances a (DebitAccountID t)) (au_balances a (CreditAccountID t))) (violate ViolationConservation (Some seg) lsn) a2"
  have "found a \<subseteq> found a1" "found a1 \<subseteq> found a2" by (auto simp: a1_def a2_def)
  moreover have "found a2 \<subseteq> found a3" unfolding a3_def by (rule found_only_if)
  moreover have "found a3 \<subseteq> found (audit_plain seg lsn t a)"
    unfolding audit_plain_def Let_def a1_def [symmetric] a2_def [symmetric] a3_def [symmetric] by (auto split: option.split)
  ultimately show ?thesis by blast
qed

lemma found_kind: "found a \<subseteq> found (fst (audit_kind seg lsn t a))"
  using found_hold [of a seg lsn t] found_plain [of a seg lsn t]
  by (auto simp: audit_kind_def audit_post_def audit_void_def Let_def split: option.split)

lemma found_record: "found a \<subseteq> found (audit_record seg r a)"
proof -
  have t: "found b \<subseteq> found (audit_transfer seg lsn p b)" for lsn p b
    using found_kind [of "b\<lparr>au_rep := (au_rep b)\<lparr>rp_Transfers := rp_Transfers (au_rep b) + 1\<rparr>\<rparr>" seg lsn]
    by (auto simp: audit_transfer_def audit_key_def only_if_def Let_def case_prod_beta split: sum.split option.split)
  have c: "found b \<subseteq> found (audit_account seg lsn p b)" "found b \<subseteq> found (audit_commit seg lsn p b)" for lsn p b
    by (auto simp: audit_account_def audit_commit_def only_if_def Let_def split: sum.split)
  define b where "b = (only_if (au_prevLSN a > 0 \<and> rec_LSN r \<le> au_prevLSN a) (violate ViolationLSNOrder (Some seg) (rec_LSN r))
     (a\<lparr>au_rep := (au_rep a)\<lparr>rp_Records := rp_Records (au_rep a) + 1\<rparr>\<rparr>))\<lparr>au_prevLSN := rec_LSN r\<rparr>"
  have rec: "audit_record seg r a =
      (if rec_Type r = 1 then audit_transfer seg (rec_LSN r) (rec_Payload r) b
       else if rec_Type r = 2 then audit_account seg (rec_LSN r) (rec_Payload r) b
       else if rec_Type r = 4 then audit_commit seg (rec_LSN r) (rec_Payload r) b
       else if rec_Type r = 3 then count_pending b else violate ViolationUnknownRecord (Some seg) (rec_LSN r) b)"
    by (simp add: audit_record_def b_def Let_def)
  have "found a \<subseteq> found b" by (auto simp: b_def only_if_def)
  then show ?thesis unfolding rec using t [of b "rec_LSN r" "rec_Payload r"] c [of b "rec_LSN r" "rec_Payload r"] by auto
qed

lemma found_corrupt: "found (corrupt seg lsn a) = insert \<lparr>v_Kind = ViolationCorruptFrame, v_Segment = Some seg, v_LSN = lsn\<rparr> (found a)"
  by (simp add: corrupt_def Let_def)

lemma found_segment: "found a \<subseteq> found (audit_segment seg data off a)"
proof (induction seg data off a rule: audit_segment.induct)
  case (1 seg data off a)
  show ?case
    by (subst audit_segment.simps)
       (use 1 found_record found_corrupt in \<open>auto simp: Let_def torn_def; blast\<close>)
qed

lemma found_end: "found a \<subseteq> found (audit_end ks ls a)"
proof -
  have "found a \<subseteq> found (snd (audit_balances ks totals a))" for totals
    by (induction ks totals a rule: audit_balances.induct) (auto simp del: fun_upd_apply split: option.split)
  moreover have "found b \<subseteq> found (audit_ledgers ls totals b)" for totals b
    by (induction ls totals b rule: audit_ledgers.induct) (auto simp: only_if_def split: option.split)
  ultimately show ?thesis by (simp add: audit_end_def case_prod_beta) blast
qed

lemma found_files: "found a \<subseteq> found (foldl (\<lambda>a (seg, data). audit_segment seg data 0 a) a files)"
  by (induction files arbitrary: a) (use found_segment in \<open>fastforce simp: subset_iff\<close>)+

lemma damaged_checksum_differs:
  assumes i: "i < length (frame_of r)" "i < 9 \<or> 13 \<le> i" and x: "x \<noteq> frame_of r ! i" and n: "n = length (rec_Payload r)"
  shows "ChecksumIEEE (take (13 + n) ((frame_of r)[i := x])) \<noteq> be_word (drop (13 + n) ((frame_of r)[i := x]))"
proof (cases "i < 13 + n")
  case True
  then have "take (13 + n) ((frame_of r)[i := x]) = (body r)[i := x]" "drop (13 + n) ((frame_of r)[i := x]) = be_bytes 4 (ChecksumIEEE (body r))"
    by (simp_all add: frame_of_def list_update_append length_body n)
  moreover have "x \<noteq> body r ! i" "i < length (body r)" using x True by (simp_all add: frame_of_def nth_append length_body n)
  ultimately show ?thesis using Checksum_one_byte [of i "body r" x] by simp
next
  case False
  let ?j = "i - (13 + n)" and ?c = "be_bytes 4 (ChecksumIEEE (body r))"
  have eq: "take (13 + n) ((frame_of r)[i := x]) = body r" "drop (13 + n) ((frame_of r)[i := x]) = ?c[?j := x]"
    using False by (simp_all add: frame_of_def list_update_append length_body n)
  have j: "?j < 4" "x \<noteq> ?c ! ?j" using False i x by (simp_all add: length_frame_of frame_of_def nth_append length_body n)
  show ?thesis
  proof
    assume "ChecksumIEEE (take (13 + n) ((frame_of r)[i := x])) = be_word (drop (13 + n) ((frame_of r)[i := x]))"
    then have "?c[?j := x] = ?c" unfolding eq by (intro be_word_4_inject) simp_all
    then show False using j by (metis length_be_bytes nth_list_update_eq)
  qed
qed

lemma audit_damaged_frame:
  assumes r: "length (rec_Payload r) \<le> 4294967295" and i: "i < length (frame_of r)" "i < 9 \<or> 13 \<le> i" and x: "x \<noteq> frame_of r ! i"
    and data: "data = pre @ (frame_of r)[i := x] @ post"
  shows "\<exists>lsn. audit_segment seg data (length pre) a = audit_segment seg data (length pre + length (frame_of r)) (corrupt seg lsn a)"
proof -
  let ?f = "(frame_of r)[i := x]" and ?n = "length (rec_Payload r)"
  have l: "length ?f = 13 + ?n + 4" by (simp add: length_frame_of)
  have "slice (length pre + 9) (length pre + 13) data = slice 9 13 ?f"
    using l by (simp add: data slice_def)
  also have "\<dots> = slice 9 13 (frame_of r)" using i(2) by (auto simp: slice_def drop_update_swap)
  also have "\<dots> = be_bytes 4 (of_nat ?n :: u32)" by (simp add: frame_of_def body_def slice_def)
  finally have len: "unat (be_word (slice (length pre + 9) (length pre + 13) data) :: u32) = ?n" using unat_payload_length [OF r] by simp
  have f: "slice (length pre) (length pre + (13 + ?n + 4)) data = ?f" using l by (simp add: data slice_def)
  have "length pre + 13 \<le> length data" "\<not> length pre + (13 + ?n + 4) > length data" using l by (simp_all add: data)
  then have "audit_segment seg data (length pre) a =
      audit_segment seg data (length pre + (13 + ?n + 4)) (corrupt seg (be_word (slice (length pre) (length pre + 8) data)) a)"
    using damaged_checksum_differs [OF i x refl] by (subst audit_segment.simps) (simp only: len f Let_def if_True if_False not_False_eq_True simp_thms)
  then show ?thesis using l by (auto simp: length_frame_of)
qed

lemma damage_found:
  assumes files: "sorted_wrt (<) (map fst (fs @ (k, data) # fs'))" "data = frames rs @ (frame_of r)[i := x] @ tail"
    and recs: "\<forall>q\<in>set (rs @ [r]). length (rec_Payload q) \<le> 4294967295"
    and i: "i < length (frame_of r)" "i < 9 \<or> 13 \<le> i" and x: "x \<noteq> frame_of r ! i"
  shows "let rep = Audit_dir ks ls (fs @ (k, data) # fs') in
    \<not> Valid rep \<and> (\<exists>v\<in>set (rp_Violations rep). v_Kind v = ViolationCorruptFrame \<and> v_Segment v = Some k)"
proof -
  let ?read = "foldl (\<lambda>a (seg, data). audit_segment seg data 0 a)"
  let ?a = "?read (auditor0 (length (fs @ (k, data) # fs'))) fs"
  let ?b = "foldl (\<lambda>a r. audit_record k r a) ?a rs"
  have "audit_segment k data 0 ?a = audit_segment k data (length (frames rs)) ?b"
    using audit_segment_frames [of rs data "[]" "(frame_of r)[i := x] @ tail" k ?a] recs files(2) by simp
  moreover obtain lsn where "audit_segment k data (length (frames rs)) ?b = audit_segment k data (length (frames rs) + length (frame_of r)) (corrupt k lsn ?b)"
    using audit_damaged_frame [OF _ i x files(2)] recs by fastforce
  ultimately have "\<lparr>v_Kind = ViolationCorruptFrame, v_Segment = Some k, v_LSN = lsn\<rparr> \<in> found (audit_segment k data 0 ?a)" (is "?v \<in> _")
    using found_segment [of "corrupt k lsn ?b"] by (auto simp: found_corrupt)
  then have "?v \<in> found (audit_end ks ls (?read (audit_segment k data 0 ?a) fs'))" using found_files found_end by blast
  moreover have "sort_key fst (fs @ (k, data) # fs') = fs @ (k, data) # fs'"
    using files(1) by (intro sort_key_id_if_sorted strict_sorted_imp_sorted)
  ultimately have "?v \<in> set (rp_Violations (Audit_dir ks ls (fs @ (k, data) # fs')))" by (simp add: Audit_dir_def)
  then show ?thesis unfolding Let_def Valid_def by force
qed

text \<open>C18: Damage is reported. If one byte of a frame is changed, other than the four bytes of its length, and the
  frames before it in its segment are intact, the auditor reports a corrupt frame in that segment, whatever the
  rest of the segment and the other segments hold.\<close>

theorem audit_reports_damage:
  assumes files: "sorted_wrt (<) (map fst (fs @ (k, data) # fs'))" "data = frames rs @ (frame_of r)[i := x] @ tail"
    and recs: "\<forall>q\<in>set (rs @ [r]). length (rec_Payload q) \<le> 4294967295"
    and i: "i < length (frame_of r)" "i < 9 \<or> 13 \<le> i" and x: "x \<noteq> frame_of r ! i"
  shows "let rep = Audit_dir ks ls (fs @ (k, data) # fs') in
    \<not> Valid rep \<and> (\<exists>v\<in>set (rp_Violations rep). v_Kind v = ViolationCorruptFrame \<and> v_Segment v = Some k)"
  using damage_found [OF assms] .

theorem audit_reports_damage_witness:
  "let r = \<lparr>rec_LSN = 1, rec_Type = RecordTypeCheckpoint, rec_Payload = [1, 2, 3]\<rparr>; rep = Audit_dir [] [] [(1, (frame_of r)[14 := 9])]
   in \<not> Valid rep \<and> (\<exists>v\<in>set (rp_Violations rep). v_Kind v = ViolationCorruptFrame \<and> v_Segment v = Some 1)"
proof -
  let ?r = "\<lparr>rec_LSN = 1, rec_Type = RecordTypeCheckpoint, rec_Payload = [1, 2, 3]\<rparr>"
  have "(frame_of ?r) ! 14 = 2" "length (frame_of ?r) = 20" by (simp_all add: frame_of_def body_def nth_append)
  then show ?thesis
    using audit_reports_damage [of "[]" 1 "frames [] @ (frame_of ?r)[14 := 9] @ []" "[]" "[]" ?r 14 9 "[]" "[]" "[]"] by (simp add: frames_def Let_def)
qed

end
