(* ===== verification/Fault_Injection.thy ===== *)
theory Fault_Injection
  imports Log_Audit
begin

text \<open>
  The fault injector (\<^verbatim>\<open>internal/wal/fault_injector.go\<close>): bit flips, overwritten bytes and torn writes on the segment
  files. A path is the number of a segment; opening a missing file and reading past its end are errors.

  The injected faults are those the log is verified against: a flipped bit outside the length field of a frame is
  reported by the auditor, and a torn write of the live segment behind its synced part is a crash.
\<close>

datatype fault_error = BadBitIndex nat | NoSuchFile nat | ReadPastEnd nat

definition FlipBit :: "segment_files \<Rightarrow> nat \<Rightarrow> nat \<Rightarrow> nat \<Rightarrow> fault_error + segment_files" where
  "FlipBit files path byteOffset bitIndex =
     (if bitIndex > 7 then Inl (BadBitIndex bitIndex)
      else
        (case map_of files path of
           None \<Rightarrow> Inl (NoSuchFile path)
         | Some data \<Rightarrow>
             if byteOffset \<ge> length data then Inl (ReadPastEnd byteOffset)
             else Inr (update_file path (WriteAt data [data ! byteOffset XOR push_bit bitIndex 1] byteOffset) files)))"

definition CorruptBytes :: "segment_files \<Rightarrow> nat \<Rightarrow> nat \<Rightarrow> bytes \<Rightarrow> fault_error + segment_files" where
  "CorruptBytes files path offset corruptData =
     (case map_of files path of
        None \<Rightarrow> Inl (NoSuchFile path)
      | Some data \<Rightarrow> Inr (update_file path (WriteAt data corruptData offset) files))"

text \<open>\<^verbatim>\<open>os.Truncate\<close> extends a shorter file with zeros.\<close>

definition TornWrite :: "segment_files \<Rightarrow> nat \<Rightarrow> nat \<Rightarrow> fault_error + segment_files" where
  "TornWrite files path cutOffset =
     (case map_of files path of
        None \<Rightarrow> Inl (NoSuchFile path)
      | Some data \<Rightarrow> Inr (update_file path (take cutOffset data @ zeros (cutOffset - length data)) files))"

lemma flipped_differs: "k < 8 \<Longrightarrow> (b :: byte) XOR push_bit k 1 \<noteq> b"
proof
  assume k: "k < 8" and eq: "b XOR push_bit k 1 = b"
  have "bit (b XOR push_bit k 1) k \<longleftrightarrow> \<not> bit b k" using k by (simp add: bit_simps)
  with eq show False by simp
qed

lemma WriteAt_one: "i < length data \<Longrightarrow> WriteAt data [x] i = data[i := x]"
  by (simp add: WriteAt_def copy_at_def upd_conv_take_nth_drop)

lemma update_file_at:
  "k \<notin> fst ` set fs \<Longrightarrow> k \<notin> fst ` set fs' \<Longrightarrow> update_file k d (fs @ (k, d0) # fs') = fs @ (k, d) # fs'"
proof -
  have same: "map (\<lambda>(k', d'). if k' = k then (k', d) else (k', d')) gs = gs" if "k \<notin> fst ` set gs" for gs
    using that by (intro map_idI) force
  assume "k \<notin> fst ` set fs" "k \<notin> fst ` set fs'"
  then show ?thesis by (simp add: update_file_def same)
qed

lemma map_of_at: "k \<notin> fst ` set fs \<Longrightarrow> map_of (fs @ (k, d) # fs') k = Some d"
  using map_of_eq_None_iff [of fs k] by (simp add: map_add_def)

text \<open>A flipped bit of a frame, outside its length field, with intact frames before it, is found.\<close>

lemma flipped_bit_is_reported:
  assumes files: "sorted_wrt (<) (map fst (fs @ (k, frames rs @ frame_of r @ tail) # fs'))"
    and recs: "\<forall>q\<in>set (rs @ [r]). length (rec_Payload q) \<le> 4294967295"
    and i: "i < length (frame_of r)" "i < 9 \<or> 13 \<le> i" and b: "bitIndex \<le> 7"
  shows "\<exists>damaged. FlipBit (fs @ (k, frames rs @ frame_of r @ tail) # fs') k (length (frames rs) + i) bitIndex = Inr damaged \<and>
    \<not> Valid (Audit_dir ks ls damaged) \<and>
    (\<exists>v\<in>set (rp_Violations (Audit_dir ks ls damaged)). v_Kind v = ViolationCorruptFrame \<and> v_Segment v = Some k)"
proof -
  let ?data = "frames rs @ frame_of r @ tail" and ?o = "length (frames rs) + i"
  let ?x = "frame_of r ! i XOR push_bit bitIndex 1" and ?data' = "frames rs @ (frame_of r)[i := frame_of r ! i XOR push_bit bitIndex 1] @ tail"
  have k: "k \<notin> fst ` set fs" "k \<notin> fst ` set fs'" using files by (auto simp: sorted_wrt_append)
  have "map_of (fs @ (k, ?data) # fs') k = Some ?data" by (rule map_of_at [OF k(1)])
  moreover have at: "?data ! ?o = frame_of r ! i" "?o < length ?data" using i(1) by (simp_all add: nth_append)
  moreover have "WriteAt ?data [?x] ?o = ?data'" unfolding WriteAt_one [OF at(2)] using i(1) by (simp add: list_update_append)
  moreover have "\<not> 7 < bitIndex" "\<not> length ?data \<le> ?o" using b at(2) by simp_all
  ultimately have flip: "FlipBit (fs @ (k, ?data) # fs') k ?o bitIndex = Inr (fs @ (k, ?data') # fs')"
    unfolding FlipBit_def by (simp only: if_False option.case update_file_at [OF k])
  have "sorted_wrt (<) (map fst (fs @ (k, ?data') # fs'))" using files by simp
  moreover have "?x \<noteq> frame_of r ! i" by (rule flipped_differs) (use b in simp)
  ultimately show ?thesis using damage_found [OF _ refl recs i, of fs k ?x tail fs' ks ls] flip unfolding Let_def by blast
qed

text \<open>A torn write of the live segment is a crash that loses its tail.\<close>

lemma torn_write_is_crash:
  assumes "log_state w parts rs" and "n \<le> length (file_bytes (wal_files w) (currentID w))"
  shows "TornWrite (wal_files w) (currentID w) n = Inr (crash w n)"
proof -
  have f: "wal_files w = map segment_of parts @ [(currentID w, frames rs)]" "currentID w \<notin> fst ` set (map segment_of parts)"
    using assms(1) by (auto simp: log_state_def segment_of_def)
  then have m: "map_of (wal_files w) (currentID w) = Some (frames rs)" using map_of_at [OF f(2), of "frames rs" "[]"] by (simp only: f(1))
  then have "n \<le> length (frames rs)" using assms(2) by (simp add: file_bytes_def)
  then have "TornWrite (wal_files w) (currentID w) n = Inr (update_file (currentID w) (take n (frames rs)) (wal_files w))"
    using m by (simp add: TornWrite_def)
  also have "update_file (currentID w) (take n (frames rs)) (wal_files w) = crash w n"
    using update_file_at [OF f(2), of "[]"] crash_files [OF assms(1), of n] by (simp add: f(1))
  finally show ?thesis .
qed

end
