(* ===== verification/Follower_Loop.thy ===== *)
theory Follower_Loop
  imports Replication
begin

text \<open>
  The follower as a process (\<^verbatim>\<open>Start\<close> of \<^verbatim>\<open>internal/replication/follower.go\<close>): local recovery, then one
  connection after the other, with the pause after each. A connection is the answer of a primary to
  the handshake, which may end at any byte or not come at all.

  A stream that breaks off anywhere leaves the follower with whole batches of the primary's log: every batch that
  arrived completely has been taken over and nothing of the next one is kept. The state survives
  the failed attempt, so the next connection resumes there.
\<close>

fun sync_attempts :: "(bytes \<Rightarrow> bytes option) list \<Rightarrow> follower \<Rightarrow> follower \<times> i64 list" where
  "sync_attempts [] f = (f, [])"
| "sync_attempts (conn # conns) f =
     (let (f1, e) = syncLoop (conn (handshake f)) f;
          (f2, pause) = after_error f1 e;
          (f3, pauses) = sync_attempts conns f2
      in (f3, pause # pauses))"

definition Start :: "(bytes \<Rightarrow> bytes option) list \<Rightarrow> follower \<Rightarrow> follower \<times> i64 list" where
  "Start conns f =
     (case recoverLocalState f of
        (f', Some e) \<Rightarrow> (f', [])
      | (f', None) \<Rightarrow> sync_attempts conns f')"

subsection \<open>Streams that break off\<close>

lemma length_writeFrame: "length (writeFrame t r) = frameHeaderSize + length (rec_Payload r) + 4"
  by (simp add: writeFrame_def Let_def)

text \<open>What is left of a stream after its last whole frame.\<close>

definition torn_frame :: "bytes \<Rightarrow> bool" where
  "torn_frame conn \<longleftrightarrow> recv_frame conn = Inl ConnError"

lemma torn_nil: "torn_frame []"
  by (simp add: torn_frame_def recv_frame_def)

lemma receive_torn: "torn_frame conn \<Longrightarrow> receive f conn = (f, ConnError)"
  by (subst receive.simps) (simp add: torn_frame_def)

lemma torn_take:
  assumes "sendable r" and "m < length (writeFrame t r)"
  shows "torn_frame (take m (writeFrame t r))"
proof (cases "m < frameHeaderSize")
  case True
  then have "length (take m (writeFrame t r)) < frameHeaderSize" by simp
  then show ?thesis by (simp only: torn_frame_def recv_frame_def if_True)
next
  case False
  let ?len = "of_nat (length (rec_Payload r)) :: u32"
  let ?hdr = "be_bytes 8 t @ be_bytes 8 (rec_LSN r) @ [rec_Type r] @ be_bytes 4 ?len"
  have "take 21 (writeFrame t r) = ?hdr" by (simp add: writeFrame_def Let_def)
  then have hdr: "take 21 (take m (writeFrame t r)) = ?hdr" using False by (simp add: min_def)
  have "slice 17 21 ?hdr = be_bytes 4 ?len" by (simp add: slice_def)
  then have w: "be_word (slice 17 21 ?hdr) = ?len" by simp
  have "?len + 4 = of_nat (length (rec_Payload r) + 4)" by simp
  then have "unat (?len + 4) = length (rec_Payload r) + 4" using assms(1) by (simp only: unat_of_nat_32 sendable_def)
  moreover have "length (drop 21 (take m (writeFrame t r))) < length (rec_Payload r) + 4" using assms(2) False by (simp add: length_writeFrame)
  ultimately show ?thesis using False assms(2) unfolding torn_frame_def recv_frame_def Let_def hdr w by simp
qed

lemma wire_cut:
  "\<forall>r\<in>set rs. sendable r \<Longrightarrow> \<exists>j tail. take n (wire t rs) = wire t (take j rs) @ tail \<and> torn_frame tail \<and> j \<le> length rs \<and>
     (\<forall>i\<le>length rs. length (wire t (take i rs)) \<le> n \<longrightarrow> i \<le> j)"
proof (induction rs arbitrary: n)
  case Nil
  then show ?case using torn_nil by auto
next
  case (Cons r rs)
  let ?f = "writeFrame t r"
  show ?case
  proof (cases "n < length ?f")
    case True
    have "i = 0" if "i \<le> length (r # rs)" "length (wire t (take i (r # rs))) \<le> n" for i using that True by (cases i) simp_all
    moreover have "torn_frame (take n ?f)" using torn_take [OF _ True] Cons.prems by simp
    ultimately show ?thesis using True by (intro exI [of _ 0] exI [of _ "take n ?f"]) auto
  next
    case False
    obtain j tail where j: "take (n - length ?f) (wire t rs) = wire t (take j rs) @ tail" "torn_frame tail" "j \<le> length rs"
      "\<forall>i\<le>length rs. length (wire t (take i rs)) \<le> n - length ?f \<longrightarrow> i \<le> j"
      using Cons.IH [of "n - length ?f"] Cons.prems by auto
    have "i \<le> Suc j" if "i \<le> length (r # rs)" "length (wire t (take i (r # rs))) \<le> n" for i
      using that j(4) by (cases i) auto
    with j False show ?thesis by (intro exI [of _ "Suc j"] exI [of _ tail]) auto
  qed
qed

text \<open>Whole batches are taken over, the rest of the last one stays pending.\<close>

lemma replica_pending: "replica f bs \<Longrightarrow> replica (f\<lparr>fo_pending := []\<rparr>) bs"
  by (auto simp: replica_def)

lemma length_log_records [simp]: "length (log_records (b # bs)) = Suc (length (fst b)) + length (log_records bs)"
  by (simp add: log_records_def batch_records_def)

lemma receive_cut:
  "\<lbrakk> replica f bs; ships (segmentSize (fo_wal f)) (last_LSN bs) cs; \<not> t < fo_lastTerm f;
     run_handler applyRecord (fo_accounts f) (concat (map fst cs)) = (m, None); torn_frame tail \<rbrakk> \<Longrightarrow>
   \<exists>f' k. receive f (wire t (take j (log_records cs @ [head_record w])) @ tail) = (f', ConnError) \<and> k \<le> length cs \<and>
     replica (f'\<lparr>fo_pending := []\<rparr>) (bs @ take k cs) \<and> (\<forall>i\<le>length cs. length (log_records (take i cs)) \<le> j \<longrightarrow> i \<le> k)"
proof (induction cs arbitrary: f bs j)
  case Nil
  show ?case
  proof (cases j)
    case 0
    then show ?thesis using receive_torn [OF Nil.prems(5)] replica_pending [OF Nil.prems(1)] by (simp add: log_records_def)
  next
    case (Suc i)
    let ?f = "f\<lparr>fo_primaryHead := wal_currentLSN w\<rparr>"
    have "receive f (writeFrame t (head_record w) @ tail) = (?f, ConnError)"
      using Nil.prems(3) receive_frame [of "head_record w" f t tail] receive_torn [OF Nil.prems(5)]
      by (simp add: head_record_def sendable_def handle_frame_def Let_def)
    moreover have "replica (?f\<lparr>fo_pending := []\<rparr>) bs" using Nil.prems(1) by (auto simp: replica_def)
    ultimately show ?thesis using Suc by (simp add: log_records_def)
  qed
next
  case (Cons b cs)
  have sh: "shippable (segmentSize (fo_wal f)) (last_LSN bs) b" "ships (segmentSize (fo_wal f)) (snd b) cs" using Cons.prems(2) by simp_all
  have recs: "log_records (b # cs) @ [head_record w] = batch_records b @ log_records cs @ [head_record w]" by (simp add: log_records_def)
  have len: "length (batch_records b) = Suc (length (fst b))" by (simp add: batch_records_def)
  show ?case
  proof (cases "j < length (batch_records b)")
    case True
    then have tk: "take j (log_records (b # cs) @ [head_record w]) = take j (fst b)" unfolding recs by (simp add: batch_records_def)
    have data: "\<forall>r\<in>set (take j (fst b)). sendable r \<and> rec_Type r \<noteq> RecordTypeBatchCommit \<and> rec_Type r \<noteq> RecordTypeHead \<and> sint (fo_lastLSN f) < sint (rec_LSN r)"
      using shippable_sendable [OF sh(1)] shippable_LSN(2) [OF sh(1)] sh(1) Cons.prems(1) set_take_subset [of j "fst b"]
      by (auto simp: batch_records_def shippable_def replica_def)
    have "length (fo_pending f) + length (take j (fst b)) < followerFlushThreshold" using sh(1) Cons.prems(1) by (auto simp: shippable_def replica_def)
    from receive_data [OF data this Cons.prems(3)]
    have "receive f (wire t (take j (fst b)) @ tail) = (f\<lparr>fo_pending := fo_pending f @ take j (fst b)\<rparr>, ConnError)" using receive_torn [OF Cons.prems(5)] by simp
    moreover have "i = 0" if "i \<le> length (b # cs)" "length (log_records (take i (b # cs))) \<le> j" for i
      using that True len by (cases i) simp_all
    ultimately show ?thesis unfolding tk using replica_pending [OF Cons.prems(1)] by (intro exI [of _ "f\<lparr>fo_pending := fo_pending f @ take j (fst b)\<rparr>"] exI [of _ 0]) auto
  next
    case False
    let ?j = "j - length (batch_records b)"
    have tk: "wire t (take j (log_records (b # cs) @ [head_record w])) @ tail = wire t (batch_records b) @ (wire t (take ?j (log_records cs @ [head_record w])) @ tail)"
      unfolding recs using False by simp
    obtain m1 where m1: "run_handler applyRecord (fo_accounts f) (fst b) = (m1, None)" "run_handler applyRecord m1 (concat (map fst cs)) = (m, None)"
      using Cons.prems(4) by (auto simp: run_handler_append split: prod.splits option.splits)
    obtain f1 where f1: "receive f (wire t (batch_records b) @ (wire t (take ?j (log_records cs @ [head_record w])) @ tail)) =
        receive f1 (wire t (take ?j (log_records cs @ [head_record w])) @ tail)"
      "replica f1 (bs @ [b])" "fo_accounts f1 = m1" "fo_lastTerm f1 = fo_lastTerm f" "segmentSize (fo_wal f1) = segmentSize (fo_wal f)"
      using receive_batch [OF Cons.prems(1) sh(1) Cons.prems(3) m1(1)] by metis
    from Cons.IH [OF f1(2), of ?j] f1 sh(2) Cons.prems(3,5) m1(2) obtain f' k where
      k: "receive f1 (wire t (take ?j (log_records cs @ [head_record w])) @ tail) = (f', ConnError)" "k \<le> length cs"
        "replica (f'\<lparr>fo_pending := []\<rparr>) (bs @ b # take k cs)" "\<forall>i\<le>length cs. length (log_records (take i cs)) \<le> ?j \<longrightarrow> i \<le> k" by auto
    have "i \<le> Suc k" if "i \<le> length (b # cs)" "length (log_records (take i (b # cs))) \<le> j" for i
      using that k(4) len by (cases i) auto
    with k(1-3) show ?thesis unfolding tk f1(1) by (intro exI [of _ f'] exI [of _ "Suc k"]) auto
  qed
qed

subsection \<open>One attempt\<close>

text \<open>Receiving does not touch the settings of the follower and its counter of failures.\<close>

abbreviation tunables :: "follower \<Rightarrow> i64 \<times> i64 \<times> i64 \<times> i64" where
  "tunables f \<equiv> (fo_failures f, fo_BackoffBase f, fo_BackoffMax f, fo_BreakerLimit f)"

lemma fo_flush_tunables: "tunables (fst (fo_flush f)) = tunables f"
  by (auto simp: fo_flush_def Let_def split: sum.split prod.split)

lemma handle_frame_tunables: "tunables (fst (handle_frame f t r)) = tunables f"
  using fo_flush_tunables [of f] fo_flush_tunables [of "f\<lparr>fo_pending := fo_pending f @ [r]\<rparr>"]
  by (auto simp: handle_frame_def Let_def split: prod.split option.split)

lemma receive_tunables: "tunables (fst (receive f conn)) = tunables f"
proof (induction f conn rule: receive.induct)
  case (1 f conn)
  show ?case
  proof (cases "recv_frame conn")
    case (Inr x)
    obtain t r rest where x: "x = ((t, r), rest)" by (metis prod.collapse)
    obtain g ge where g: "handle_frame f t r = (g, ge)" by fastforce
    have tg: "tunables g = tunables f" using handle_frame_tunables [of f t r] g by simp
    show ?thesis
    proof (cases ge)
      case None
      then have "receive f conn = receive g rest" using Inr x g by (simp add: receive.simps [of f conn])
      with 1 [OF Inr [unfolded x] refl refl g [symmetric, unfolded None] refl] tg show ?thesis by simp
    qed (use Inr x g tg in \<open>simp add: receive.simps [of f conn]\<close>)
  qed (simp add: receive.simps)
qed

lemma after_one_failure:
  assumes "replica f bs" and "tunables f = (0, 0, 0, 0)"
  shows "after_error f ConnError = (f\<lparr>fo_failures := 1\<rparr>, 100000000)" "replica (f\<lparr>fo_failures := 1\<rparr>) bs"
  using assms by (auto simp: after_error_def breakerLimit_def backoffBase_def backoffMax_def shift_left_def min64_def replica_def Let_def)

lemma prefix_records: "length (log_records (bs @ cs)) = length (log_records bs) + length (log_records cs)"
  by (simp add: log_records_def)

text \<open>The part of a stream of \<open>j\<close> whole frames: what the follower has, what it misses, the announcement of the head.\<close>

lemma receive_stream_cut:
  assumes rep: "replica f bs" and sh: "ships mx 0 bs" "ships (segmentSize (fo_wal f)) (last_LSN bs) cs" and t: "\<not> t < fo_lastTerm f"
    and run: "run_handler applyRecord (fo_accounts f) (concat (map fst cs)) = (m, None)" and tail: "torn_frame tail"
  shows "\<exists>f' k. receive f (wire t (take j (log_records bs @ log_records cs @ [head_record w])) @ tail) = (f', ConnError) \<and> k \<le> length cs \<and>
    replica (f'\<lparr>fo_pending := []\<rparr>) (bs @ take k cs) \<and> (\<forall>i\<le>length cs. length (log_records (bs @ take i cs)) \<le> j \<longrightarrow> i \<le> k)"
proof (cases "length (log_records bs) < j")
  case True
  let ?j = "j - length (log_records bs)" and ?rest = "log_records cs @ [head_record w]"
  have "receive f (wire t (take j (log_records bs @ ?rest)) @ tail) = receive f (wire t (take ?j ?rest) @ tail)"
    using replica_old [OF rep sh(1) t] True by simp
  moreover obtain f' k where "receive f (wire t (take ?j ?rest) @ tail) = (f', ConnError)" "k \<le> length cs"
    "replica (f'\<lparr>fo_pending := []\<rparr>) (bs @ take k cs)" "\<forall>i\<le>length cs. length (log_records (take i cs)) \<le> ?j \<longrightarrow> i \<le> k"
    using receive_cut [OF rep sh(2) t run tail] by blast
  ultimately show ?thesis using True by (intro exI [of _ f'] exI [of _ k]) (auto simp: prefix_records)
next
  case False
  have "\<forall>r\<in>set (take j (log_records bs)). sendable r \<and> rec_Type r \<noteq> RecordTypeHead \<and> sint (rec_LSN r) \<le> sint (fo_lastLSN f)"
    using replica_old_records [OF rep sh(1)] set_take_subset [of j "log_records bs"] by blast
  then have "receive f (wire t (take j (log_records bs)) @ tail) = (f, ConnError)"
    using receive_old [of _ f t tail] rep t receive_torn [OF tail] by (simp add: replica_def)
  moreover have "i = 0" if "i \<le> length cs" "length (log_records (bs @ take i cs)) \<le> j" for i
    using that False by (cases i; cases cs) (simp_all add: prefix_records)
  ultimately show ?thesis using False replica_pending [OF rep] by (intro exI [of _ f] exI [of _ 0]) auto
qed

lemma sync_receives:
  assumes "fo_lastTerm f \<le> t" and "replica f bs"
  obtains g where "syncLoop (Some (be_bytes 8 t @ stream)) f = (case receive g stream of (f', e) \<Rightarrow> (f'\<lparr>fo_pending := []\<rparr>, e))"
    "replica g bs" "\<not> t < fo_lastTerm g" "segmentSize (fo_wal g) = segmentSize (fo_wal f)" "fo_accounts g = fo_accounts f"
    "tunables g = (0, fo_BackoffBase f, fo_BackoffMax f, fo_BreakerLimit f)"
proof -
  define g where "g = (if t > fo_lastTerm f
      then f\<lparr>fo_pending := [], fo_lastTerm := t, fo_terms := (fo_terms f)\<lparr>followerTermFile := storeTermUint t\<rparr>\<rparr>
      else f\<lparr>fo_pending := []\<rparr>)\<lparr>fo_failures := 0, fo_connected := True\<rparr>"
  have "syncLoop (Some (be_bytes 8 t @ stream)) f = (case receive g stream of (f', e) \<Rightarrow> (f'\<lparr>fo_pending := []\<rparr>, e))"
    using assms(1) by (auto simp: syncLoop_def Let_def g_def not_less)
  then show ?thesis using that [of g] assms by (auto simp: g_def replica_def)
qed

text \<open>A connection that ends after \<open>n\<close> bytes.\<close>

lemma sync_cut:
  assumes run: "runs l (bs @ cs)" and few: "\<forall>b\<in>set (bs @ cs). length (fst b) < followerFlushThreshold"
    and rep: "replica f bs" and mx: "161 \<le> segmentSize (fo_wal f)" and t: "fo_lastTerm f \<le> t"
    and none: "\<forall>f\<in>set (wal_files (el_wal l)). sint (last_LSN bs + 1) < sint (peekSegmentMaxLSN (snd f))" and n: "8 \<le> n"
  shows "\<exists>f' k. syncLoop (Some (take n (snd (handleConn t (el_wal l) (handshake f))))) f = (f', ConnError) \<and> replica f' (bs @ take k cs) \<and>
    k \<le> length cs \<and> (\<forall>i\<le>length cs. 8 + length (wire t (log_records (bs @ take i cs))) \<le> n \<longrightarrow> i \<le> k) \<and>
    tunables f' = (0, fo_BackoffBase f, fo_BackoffMax f, fo_BreakerLimit f)"
proof -
  let ?mx = "segmentSize (fo_wal f)" and ?w = "el_wal l"
  let ?S = "log_records bs @ log_records cs @ [head_record ?w]"
  have sh: "ships ?mx 0 bs" "ships ?mx (last_LSN bs) cs" "ships ?mx 0 (bs @ cs)" using runs_ships [OF run mx few] by (simp_all add: ships_last)
  have "sendable r" if "r \<in> set (log_records (bs @ cs))" for r
    using that ships_each [OF sh(3)] shippable_sendable by (fastforce simp: log_records_def)
  then have "\<forall>r\<in>set ?S. sendable r" by (auto simp: log_records_def head_record_def sendable_def)
  then obtain j tail where j: "take (n - 8) (wire t ?S) = wire t (take j ?S) @ tail" "torn_frame tail"
    "\<forall>i\<le>length ?S. length (wire t (take i ?S)) \<le> n - 8 \<longrightarrow> i \<le> j" using wire_cut by blast
  have "handshake f = be_bytes 8 (last_LSN bs + 1)" using rep by (simp add: handshake_def replica_def)
  then have "snd (handleConn t ?w (handshake f)) = be_bytes 8 t @ wire t ?S" using serve_all [OF run few none, of t] by (simp add: log_records_def)
  then have conn: "take n (snd (handleConn t ?w (handshake f))) = be_bytes 8 t @ (wire t (take j ?S) @ tail)" using n j(1) by simp
  have whole: "length (log_records (bs @ take i cs)) \<le> j" if "8 + length (wire t (log_records (bs @ take i cs))) \<le> n" for i
  proof -
    let ?p = "log_records (bs @ take i cs)"
    have "?S = ?p @ log_records (drop i cs) @ [head_record ?w]" by (simp add: log_records_def flip: concat_append map_append)
    then have "take (length ?p) ?S = ?p" "length ?p \<le> length ?S" by (metis append_eq_conv_conj, metis length_append le_add1)
    moreover have "length (wire t ?p) \<le> n - 8" using that by simp
    ultimately show ?thesis using j(3) by metis
  qed
  obtain g where g: "syncLoop (Some (be_bytes 8 t @ (wire t (take j ?S) @ tail))) f = (case receive g (wire t (take j ?S) @ tail) of (f', e) \<Rightarrow> (f'\<lparr>fo_pending := []\<rparr>, e))"
    "replica g bs" "\<not> t < fo_lastTerm g" "segmentSize (fo_wal g) = ?mx" "fo_accounts g = fo_accounts f"
    "tunables g = (0, fo_BackoffBase f, fo_BackoffMax f, fo_BreakerLimit f)" using sync_receives [OF t rep] by blast
  obtain m where "run_handler applyRecord NewAccountManager (concat (map fst (bs @ cs))) = (m, None)" using runs_apply [OF run] by blast
  then have "run_handler applyRecord (fo_accounts g) (concat (map fst cs)) = (m, None)" using rep g(5) by (simp add: replica_def run_handler_append)
  from receive_stream_cut [OF g(2) sh(1) _ g(3) this j(2)] sh(2) g(4) obtain f' k where
    f': "receive g (wire t (take j ?S) @ tail) = (f', ConnError)" "k \<le> length cs" "replica (f'\<lparr>fo_pending := []\<rparr>) (bs @ take k cs)"
      "\<forall>i\<le>length cs. length (log_records (bs @ take i cs)) \<le> j \<longrightarrow> i \<le> k" by metis
  moreover have "tunables f' = tunables g" using receive_tunables [of g "wire t (take j ?S) @ tail"] f'(1) by simp
  ultimately show ?thesis unfolding conn g(1) using whole g(6) by (intro exI [of _ "f'\<lparr>fo_pending := []\<rparr>"] exI [of _ k]) auto
qed

subsection \<open>Properties\<close>

text \<open>C13: a broken stream costs nothing but its last, incomplete batch. Take a ledger all of whose batches have fewer records than
  the flush threshold of 4096, and a follower that has taken over the first batches
  of its log and crashes, where every segment of the ledger's log ends above the LSN the follower asks for (its last LSN plus
  one), so that none is skipped. Started again on its files the follower recovers, connects, and the connection
  breaks after any number of bytes beyond the handshake. Then it has taken over every batch that arrived completely, its log and its
  accounts are those of a prefix of the primary's batches, and it tries again after 100 ms.\<close>

theorem interrupted_stream_resumes:
  assumes "runs l (bs @ cs)" and "\<forall>b\<in>set (bs @ cs). length (fst b) < followerFlushThreshold"
    and "replica f bs" and "161 \<le> segmentSize (fo_wal f)" and "loadTermUint (followerTermFile (fo_terms f)) \<le> t"
    and "\<forall>f\<in>set (wal_files (el_wal l)). sint (last_LSN bs + 1) < sint (peekSegmentMaxLSN (snd f))"
    and "syncedOffset (wal_current (fo_wal f)) \<le> lost" and "8 \<le> n"
  shows "\<exists>f' k. Start [\<lambda>request. Some (take n (snd (handleConn t (el_wal l) request)))]
      (NewFollower (fo_terms f) (OpenWAL (crash (fo_wal f) lost) (segmentSize (fo_wal f)) False) []) = (f', [100000000]) \<and>
    replica f' (bs @ take k cs) \<and> k \<le> length cs \<and> (\<forall>i\<le>length cs. 8 + length (wire t (log_records (bs @ take i cs))) \<le> n \<longrightarrow> i \<le> k)"
proof -
  let ?f0 = "NewFollower (fo_terms f) (OpenWAL (crash (fo_wal f) lost) (segmentSize (fo_wal f)) False) []"
  have "ships (segmentSize (fo_wal f)) 0 bs" using runs_ships [OF assms(1,4,2)] by (simp add: ships_last)
  from restarted [OF assms(3) this assms(7)] obtain w' where
    w': "recoverLocalState ?f0 = (?f0\<lparr>fo_wal := w', fo_accounts := fo_accounts f, fo_lastLSN := fo_lastLSN f\<rparr>, None)"
      "replica (?f0\<lparr>fo_wal := w', fo_accounts := fo_accounts f, fo_lastLSN := fo_lastLSN f\<rparr>) bs" "segmentSize w' = segmentSize (fo_wal f)" by metis
  let ?g = "?f0\<lparr>fo_wal := w', fo_accounts := fo_accounts f, fo_lastLSN := fo_lastLSN f\<rparr>"
  note rec = w'(1) and g = w'(2,3)
  have "161 \<le> segmentSize (fo_wal ?g)" "fo_lastTerm ?g \<le> t" using g(2) assms(4,5) by (simp_all add: NewFollower_def)
  from sync_cut [OF assms(1,2) g(1) this assms(6,8)] obtain f' k where
    f': "syncLoop (Some (take n (snd (handleConn t (el_wal l) (handshake ?g))))) ?g = (f', ConnError)" "replica f' (bs @ take k cs)" "k \<le> length cs"
      "\<forall>i\<le>length cs. 8 + length (wire t (log_records (bs @ take i cs))) \<le> n \<longrightarrow> i \<le> k" "tunables f' = (0, fo_BackoffBase ?g, fo_BackoffMax ?g, fo_BreakerLimit ?g)"
    by blast
  have "tunables f' = (0, 0, 0, 0)" using f'(5) by (simp add: NewFollower_def)
  note fail = after_one_failure [OF f'(2) this]
  have "Start [\<lambda>request. Some (take n (snd (handleConn t (el_wal l) request)))] ?f0 = (f'\<lparr>fo_failures := 1\<rparr>, [100000000])"
    using f'(1) fail(1) by (simp add: Start_def rec)
  with fail(2) f'(3,4) show ?thesis by blast
qed

theorem interrupted_stream_resumes_witness:
  "\<exists>f' k. Start [\<lambda>request. Some (take 100 (snd (handleConn 1 (el_wal served_loop) request)))]
     (NewFollower (fo_terms sample_follower) (OpenWAL (crash (fo_wal sample_follower) (syncedOffset (wal_current (fo_wal sample_follower))))
        (segmentSize (fo_wal sample_follower)) False) []) = (f', [100000000]) \<and> replica f' (take k sample_log)"
proof -
  have "\<forall>b\<in>set ([] @ sample_log). length (fst b) < followerFlushThreshold" using sample_log_batch by simp
  moreover have "\<forall>f\<in>set (wal_files (el_wal served_loop)). sint (last_LSN [] + 1) < sint (peekSegmentMaxLSN (snd f))"
    using served_files by (simp add: last_LSN_def)
  moreover have "runs served_loop ([] @ sample_log)" using served_runs by simp
  moreover have "loadTermUint (followerTermFile (fo_terms sample_follower)) \<le> 1"
    by (simp add: sample_follower_def NewFollower_def loadTermUint_def)
  ultimately obtain f' k where "Start [\<lambda>request. Some (take 100 (snd (handleConn 1 (el_wal served_loop) request)))]
     (NewFollower (fo_terms sample_follower) (OpenWAL (crash (fo_wal sample_follower) (syncedOffset (wal_current (fo_wal sample_follower))))
        (segmentSize (fo_wal sample_follower)) False) []) = (f', [100000000])" "replica f' ([] @ take k sample_log)"
    using interrupted_stream_resumes [of served_loop "[]" sample_log sample_follower 1 "syncedOffset (wal_current (fo_wal sample_follower))" 100]
      sample_follower_fresh(1-3) by auto
  then show ?thesis by auto
qed

end
