(* ===== verification/Ledger_Calls.thy ===== *)
theory Ledger_Calls
  imports Ledger_Engine "HOL-Library.Sublist"
begin

text \<open>
  The client calls of the ledger from submission to answer: the batcher that feeds the event loop
  (\<^verbatim>\<open>internal/engine/batch.go\<close>), the shared completion record of a client batch
  (\<^verbatim>\<open>batchState\<close> of \<^verbatim>\<open>event.go\<close>), one turn of \<^verbatim>\<open>EventLoop.Run\<close>, and \<^verbatim>\<open>CreateTransfer\<close> and
  \<^verbatim>\<open>CreateTransfers\<close> as whole calls. What other goroutines do while a call waits is an argument: a
  list of waits for \<^verbatim>\<open>Collect\<close>, the event loop's service for the two client calls.

  Between two requests the ring buffer is a list of events (the locale \<open>event_queue\<close>): a
  submission appends one and a turn of the loop takes a prefix. A call served alone is answered with
  the outcome the event loop gives its transfer, and a batch completes exactly when each of its
  events was completed.
\<close>

subsection \<open>The batcher\<close>

record batcher =
  bt_maxBatchSize :: int
  bt_timeout :: int

definition NewBatcher :: "int \<Rightarrow> int \<Rightarrow> batcher" where
  "NewBatcher batchMax timeout =
     \<lparr>bt_maxBatchSize = (if batchMax \<le> 0 then 10000 else batchMax), bt_timeout = (if timeout < 0 then 0 else timeout)\<rparr>"

text \<open>The ring is missing (\<^verbatim>\<open>nil\<close>) only in a batcher that was built without one.\<close>

definition Depth :: "'e ring option \<Rightarrow> int" where
  "Depth rb = (case rb of None \<Rightarrow> 0 | Some rb \<Rightarrow> ring_Len rb)"

definition Idle :: "'e ring option \<Rightarrow> bool" where
  "Idle rb = (case rb of None \<Rightarrow> True | Some rb \<Rightarrow> ring_Len rb = 0)"

text \<open>One wait of \<^verbatim>\<open>Collect\<close>: the events that land before the channel is registered and those that
  land while it blocks, the channel that ends the wait, what \<^verbatim>\<open>yield\<close> says (\<open>False\<close> without one)
  and how much time is left.\<close>

datatype wakeup = Arrived | TimerFired | Ticked

record 'e wait =
  w_landed :: "'e list"
  w_arrivals :: "'e list"
  w_source :: wakeup
  w_yield :: bool
  w_remain :: int

fun submit_all :: "'e ring \<Rightarrow> 'e list \<Rightarrow> 'e ring" where
  "submit_all rb [] = rb"
| "submit_all rb (e # es) = (case Submit rb e of Inl _ \<Rightarrow> submit_all rb es | Inr rb' \<Rightarrow> submit_all rb' es)"

text \<open>The first loop of \<^verbatim>\<open>Collect\<close>. \<open>False\<close> marks the two early returns.\<close>

fun idle_wait :: "'e wait list \<Rightarrow> 'e ring \<Rightarrow> (bool \<times> 'e ring \<times> 'e wait list) option" where
  "idle_wait [] rb = (if ring_Len rb = 0 then None else Some (True, rb, []))"
| "idle_wait (w # ws) rb =
     (if ring_Len rb \<noteq> 0 then Some (True, rb, w # ws)
      else
        let rb1 = submit_all (fst (arriveChan rb)) (w_landed w)
        in if ring_Len rb1 \<noteq> 0 then Some (True, rb1, ws)
           else
             let rb2 = submit_all rb1 (w_arrivals w)
             in case w_source w of
                  Arrived \<Rightarrow> idle_wait ws rb2
                | TimerFired \<Rightarrow> Some (False, rb2, ws)
                | Ticked \<Rightarrow> if w_yield w then Some (False, rb2, ws) else idle_wait ws rb2)"

fun fill_wait :: "int \<Rightarrow> 'e wait list \<Rightarrow> 'e ring \<Rightarrow> 'e ring option" where
  "fill_wait n [] rb = (if ring_Len rb < n then None else Some rb)"
| "fill_wait n (w # ws) rb =
     (if \<not> ring_Len rb < n then Some rb
      else if w_yield w then Some rb
      else if w_remain w \<le> 0 then Some rb
      else fill_wait n ws (submit_all (fst (arriveChan rb)) (w_arrivals w)))"

definition Collect_batch :: "batcher \<Rightarrow> 'e wait list \<Rightarrow> 'e ring \<Rightarrow> ('e ring \<times> 'e list) option" where
  "Collect_batch b ws rb =
     (case idle_wait ws rb of
        None \<Rightarrow> None
      | Some (False, rb', _) \<Rightarrow> Some (rb', [])
      | Some (True, rb', ws') \<Rightarrow> map_option (\<lambda>r. DrainBatch r (bt_maxBatchSize b)) (fill_wait (bt_maxBatchSize b) ws' rb'))"

subsection \<open>Completing a client batch\<close>

definition ack0 :: transferAck where
  "ack0 = \<lparr>ack_Transfer = transfer0, ack_Err = None\<rparr>"

record batchState =
  bs_results :: "transferAck list"
  bs_remaining :: i64
  bs_done :: bool

definition newBatchState :: "nat \<Rightarrow> batchState" where
  "newBatchState n = \<lparr>bs_results = replicate n ack0, bs_remaining = of_nat n, bs_done = False\<rparr>"

definition bs_complete :: "batchState \<Rightarrow> nat \<times> transferAck \<Rightarrow> batchState" where
  "bs_complete b ia =
     (let b1 = b\<lparr>bs_results := (bs_results b)[fst ia := snd ia], bs_remaining := bs_remaining b - 1\<rparr>
      in if bs_remaining b1 = 0 then b1\<lparr>bs_done := True\<rparr> else b1)"

subsection \<open>Whole calls\<close>

text \<open>One turn of \<^verbatim>\<open>Run\<close> with a batch that is not empty: drain the ring and process the events.\<close>

definition loop_turn :: "i64 \<Rightarrow> int \<Rightarrow> ledger \<Rightarrow> ledger \<times> transferAck list" where
  "loop_turn now batchMax l =
     (let (rb, evs) = DrainBatch (ld_rb l) batchMax;
          (loop', acks) = processBatch now (ld_loop l) evs
      in (l\<lparr>ld_rb := rb, ld_loop := loop'\<rparr>, acks))"

text \<open>The surroundings of one call: the attempts of \<^verbatim>\<open>reserveKey\<close> given the store it finds, the clock
  at the end, and what happens while the call waits. For a single transfer that is a ledger and the
  acknowledgement, or \<open>None\<close> when the request's context is done first; for a batch a ledger and the
  completions of its events by index, in the order in which they happen. \<open>ce_shutdown\<close> is the index
  of the first event that is not queued because the ledger is shut down.\<close>

record call_env =
  ce_attempts :: "nat \<Rightarrow> idStore \<Rightarrow> (idStore \<times> int \<times> bool) list"
  ce_now :: "nat \<Rightarrow> int"
  ce_serve :: "ledger \<Rightarrow> ledger \<times> transferAck option"
  ce_serve_batch :: "transfer list \<Rightarrow> ledger \<Rightarrow> ledger \<times> (nat \<times> transferAck) list"
  ce_shutdown :: "nat option"

definition CreateTransfer :: "call_env \<Rightarrow> ledger \<Rightarrow> transfer \<Rightarrow> (ledger \<times> (client_error + transfer)) option" where
  "CreateTransfer env l t =
     (case begin_transfer (ce_attempts env 0 (ld_idempKey l)) l t of
        None \<Rightarrow> None
      | Some (l1, Answered r) \<Rightarrow> Some (l1, r)
      | Some (l1, Queued) \<Rightarrow>
          let (l2, ack) = ce_serve env l1
          in map_option (\<lambda>(s, r). (l2\<lparr>ld_idempKey := s\<rparr>, r)) (end_transfer (ce_now env 0) (ld_idempKey l2) t ack))"

definition finish_transfers :: "call_env \<Rightarrow> phase1 \<Rightarrow> ledger \<Rightarrow> idStore \<Rightarrow> batchState \<Rightarrow> client_error option \<Rightarrow> (ledger \<times> (client_error + transferOutcome list)) option" where
  "finish_transfers env p l s bs err =
     (if \<not> bs_done bs then None
      else map_option (\<lambda>(s', outs). (l\<lparr>ld_idempKey := s'\<rparr>, case err of Some e \<Rightarrow> Inl e | None \<Rightarrow> Inr outs))
             (materialize (ce_now env) (zip (map fst (p1_events p)) (bs_results bs)) s (p1_outcomes p)))"

definition CreateTransfers :: "call_env \<Rightarrow> ledger \<Rightarrow> transfer list \<Rightarrow> (ledger \<times> (client_error + transferOutcome list)) option" where
  "CreateTransfers env l batch =
     (case begin_transfers (ce_attempts env) l batch of
        None \<Rightarrow> None
      | Some (Inl e) \<Rightarrow> Some (l, Inl e)
      | Some (Inr (p, Some e)) \<Rightarrow> Some (l\<lparr>ld_idempKey := p1_store p\<rparr>, Inl e)
      | Some (Inr (p, None)) \<Rightarrow>
          let l1 = l\<lparr>ld_idempKey := p1_store p\<rparr>; events = map snd (p1_events p); bs = newBatchState (length events)
          in if events = [] then Some (l1, Inr (p1_outcomes p))
             else
               (case ce_shutdown env of
                  None \<Rightarrow>
                    let (l2, completions) = ce_serve_batch env events l1
                    in finish_transfers env p l2 (ld_idempKey l2) (foldl bs_complete bs completions) None
                | Some j \<Rightarrow>
                    let (l2, completions) = ce_serve_batch env (take j events) l1;
                        (s, tail_acks) = close_tail (p1_events p) j (ld_idempKey l2);
                        bs' = foldl bs_complete bs (completions @ enumerate j tail_acks)
                    in finish_transfers env p l2 s bs' (Some ContextDone)))"

text \<open>The service of a request that is alone: the loop takes the queued event, or all events of the batch
  at once.\<close>

definition served_alone :: "i64 \<Rightarrow> (nat \<Rightarrow> int) \<Rightarrow> int \<Rightarrow> call_env" where
  "served_alone now nows batchMax =
     \<lparr>ce_attempts = (\<lambda>i s. [(s, nows i, False)]), ce_now = nows,
      ce_serve = (\<lambda>l. let (l', acks) = loop_turn now batchMax l in (l', if acks = [] then None else Some (last acks))),
      ce_serve_batch = (\<lambda>ts l. let (loop', acks) = processBatch now (ld_loop l) ts in (l\<lparr>ld_loop := loop'\<rparr>, enumerate 0 acks)),
      ce_shutdown = None\<rparr>"

subsection \<open>Completion of a client batch\<close>

lemma complete_frame:
  "bs_results (foldl bs_complete b cs) = foldl (\<lambda>rs ia. rs[fst ia := snd ia]) (bs_results b) cs"
  "bs_remaining (foldl bs_complete b cs) = bs_remaining b - of_nat (length cs)"
  by (induction cs arbitrary: b) (auto simp: bs_complete_def Let_def algebra_simps)

lemma foldl_update_other: "i \<notin> fst ` set cs \<Longrightarrow> foldl (\<lambda>rs ia. rs[fst ia := snd ia]) rs cs ! i = rs ! i"
  by (induction cs arbitrary: rs) auto

lemma foldl_update_at:
  "\<lbrakk> distinct (map fst cs); (i, a) \<in> set cs; i < length rs \<rbrakk> \<Longrightarrow> foldl (\<lambda>rs ia. rs[fst ia := snd ia]) rs cs ! i = a"
proof (induction cs arbitrary: rs)
  case (Cons c cs)
  show ?case
  proof (cases "c = (i, a)")
    case True
    with Cons.prems foldl_update_other [of i cs "rs[i := a]"] show ?thesis by simp
  qed (use Cons in auto)
qed simp

lemma complete_done:
  "\<lbrakk> 0 < unat (bs_remaining b); length cs \<le> unat (bs_remaining b); \<not> bs_done b \<rbrakk> \<Longrightarrow>
     bs_done (foldl bs_complete b cs) \<longleftrightarrow> length cs = unat (bs_remaining b)"
proof (induction cs arbitrary: b)
  case Nil
  then show ?case by simp
next
  case (Cons c cs)
  let ?b = "bs_complete b c"
  have r: "bs_remaining ?b = bs_remaining b - 1" by (simp add: bs_complete_def Let_def)
  have u: "unat (bs_remaining b - 1) = unat (bs_remaining b) - 1" using Cons.prems(1) by (metis unat_minus_one unat_0 less_irrefl)
  show ?case
  proof (cases "bs_remaining b = 1")
    case True
    with Cons.prems have "cs = []" "bs_done ?b" by (auto simp: bs_complete_def Let_def)
    with True show ?thesis by simp
  next
    case False
    then have nz: "bs_remaining b - 1 \<noteq> 0" by simp
    then have "0 < unat (bs_remaining ?b)" by (simp only: r unat_gt_0 not_False_eq_True)
    moreover have "\<not> bs_done ?b" using nz Cons.prems(3) by (simp add: bs_complete_def Let_def)
    moreover have "length cs \<le> unat (bs_remaining ?b)" using Cons.prems(2) unfolding r u by (simp only: list.size)
    ultimately have "bs_done (foldl bs_complete ?b cs) \<longleftrightarrow> length cs = unat (bs_remaining b) - 1" using Cons.IH [of ?b] by (simp only: r u simp_thms)
    moreover have "length (c # cs) = unat (bs_remaining b) \<longleftrightarrow> length cs = unat (bs_remaining b) - 1" using Cons.prems(1) by (simp only: list.size) arith
    ultimately show ?thesis by (simp only: foldl.simps)
  qed
qed

subsection \<open>The ring as a list of events\<close>

locale event_queue =
  fixes queue :: "'q \<Rightarrow> 'e list \<Rightarrow> bool"
    and has_room :: "'q \<Rightarrow> bool"
    and submit :: "'q \<Rightarrow> 'e \<Rightarrow> ledger_error + 'q"
    and drain :: "'q \<Rightarrow> int \<Rightarrow> 'q \<times> 'e list"
  assumes submits: "\<lbrakk> queue q es; has_room q \<rbrakk> \<Longrightarrow> \<exists>q'. submit q e = Inr q' \<and> queue q' (es @ [e])"
    and drains: "\<lbrakk> queue q es; 0 < n; n < 9223372036854775808 \<rbrakk> \<Longrightarrow> \<exists>q'. drain q n = (q', take (nat n) es) \<and> queue q' (drop (nat n) es)"
begin

lemma served_in_order:
  assumes "queue q es" and "has_room q" and "int (length es) < n" and "n < 9223372036854775808"
  shows "\<exists>q' q''. submit q e = Inr q' \<and> drain q' n = (q'', es @ [e]) \<and> queue q'' []"
proof -
  obtain q' where q': "submit q e = Inr q'" "queue q' (es @ [e])" using submits [OF assms(1,2)] by blast
  have "take (nat n) (es @ [e]) = es @ [e]" "drop (nat n) (es @ [e]) = []" using assms(3) by simp_all
  with q' drains [OF q'(2), of n] assms show ?thesis by auto
qed

end

definition ring_queue :: "'e ring \<Rightarrow> 'e list \<Rightarrow> bool" where
  "ring_queue rb es \<longleftrightarrow> (\<exists>k s. rb_inv k s \<and> sys_ring s = rb \<and> claims s = Map.empty \<and> (\<forall>i<unat (rb_head rb). sent s i \<noteq> None) \<and>
     es = map (\<lambda>i. the (sent s i)) [unat (rb_tail rb)..<unat (rb_head rb)])"

definition ring_room :: "'e ring \<Rightarrow> bool" where
  "ring_room rb \<longleftrightarrow> rb_head rb - rb_tailShared rb < rb_cap rb \<and> unat (rb_head rb) + 1 < 18446744073709551616"

lemma Submit_queue:
  assumes "ring_queue rb es" and "ring_room rb"
  shows "\<exists>rb'. Submit rb e = Inr rb' \<and> ring_queue rb' (es @ [e])"
proof -
  obtain k s where s: "rb_inv k s" "sys_ring s = rb" "claims s = Map.empty" "\<forall>i<unat (rb_head rb). sent s i \<noteq> None"
    and es: "es = map (\<lambda>i. the (sent s i)) [unat (rb_tail rb)..<unat (rb_head rb)]" using assms(1) by (auto simp: ring_queue_def)
  let ?h = "rb_head rb" and ?rb1 = "rb\<lparr>rb_head := rb_head rb + 1\<rparr>"
  let ?s1 = "s\<lparr>sys_ring := ?rb1, claims := (claims s)(0 \<mapsto> ?h)\<rparr>" and ?rb2 = "publish ?rb1 ?h e"
  let ?s2 = "?s1\<lparr>sys_ring := publish (sys_ring ?s1) ?h e, claims := (claims ?s1)(0 := None), sent := (sent ?s1)(unat ?h \<mapsto> e)\<rparr>"
  have c: "claim rb = Inr (?rb1, ?h)" using assms(2) by (simp add: claim_def ring_room_def linorder_not_le)
  have succ: "unat (?h + 1) = unat ?h + 1" by (rule unat_succ) (use assms(2) in \<open>simp add: ring_room_def\<close>)
  have "rb_step s ?s1" using rb_step.claims_slot [of s 0 ?rb1 ?h] c s assms(2) by (simp add: ring_room_def)
  then have "rb_inv k ?s1" using s(1) by (rule rb_step_inv)
  moreover have "rb_step ?s1 ?s2" by (rule rb_step.publishes) simp
  ultimately have inv: "rb_inv k ?s2" using rb_step_inv by blast
  have head: "rb_head ?rb2 = ?h + 1" "rb_tail ?rb2 = rb_tail rb" by (simp_all add: publish_def Let_def)
  have le: "unat (rb_tail rb) \<le> unat ?h" using s(1,2) by (auto simp: rb_inv_def ring_shape_def)
  have "es @ [e] = map (\<lambda>i. the (sent ?s2 i)) [unat (rb_tail rb)..<unat ?h + 1]" using le by (simp add: es)
  then have "ring_queue ?rb2 (es @ [e])"
    unfolding ring_queue_def by (intro exI [of _ k] exI [of _ ?s2]) (use inv head succ s(3,4) in \<open>auto simp: less_Suc_eq\<close>)
  with c show ?thesis by (simp add: Submit_def)
qed

lemma DrainBatch_all:
  fixes n :: int
  assumes sh: "ring_shape k rb" and sl: "slots_ok k rb sn" and all: "\<forall>i<unat (rb_head rb). sn i \<noteq> None"
    and n: "0 < n" "n < 9223372036854775808"
  defines "m \<equiv> min (nat n) (unat (rb_head rb) - unat (rb_tail rb))"
  shows "DrainBatch rb n = (rb\<lparr>rb_tail := rb_tail rb + of_nat m, rb_tailShared := rb_tail rb + of_nat m\<rparr>,
      map (\<lambda>i. the (sn i)) [unat (rb_tail rb)..<unat (rb_tail rb) + m]) \<and> unat (rb_tail rb + of_nat m) = unat (rb_tail rb) + m"
proof -
  let ?T = "unat (rb_tail rb)" and ?H = "unat (rb_head rb)"
  have le: "?T \<le> ?H" and shared: "rb\<lparr>rb_tailShared := rb_tail rb\<rparr> = rb" using sh by (simp_all add: ring_shape_def)
  show ?thesis
  proof (cases "?H = ?T")
    case True
    then have "rb_head rb = rb_tail rb" "m = 0" by (simp_all add: word_unat_eq_iff m_def)
    moreover have "rb\<lparr>rb_tail := rb_tail rb, rb_tailShared := rb_tail rb\<rparr> = rb" using sh by (simp add: ring_shape_def)
    ultimately show ?thesis by (simp add: DrainBatch_def)
  next
    case False
    have pend: "unat (rb_head rb - rb_tail rb) = ?H - ?T" using le by (intro unat_sub) (simp add: word_le_nat_alt)
    have "of_int n = (of_nat (nat n) :: u64)" using n by simp
    moreover have "nat n < 9223372036854775808" using n by simp
    ultimately have un: "unat (of_int n :: u64) = nat n" by (simp only: unat_of_nat) simp
    have count: "(if of_int n > rb_head rb - rb_tail rb then unat (rb_head rb - rb_tail rb) else nat n) = m"
      using un pend by (auto simp: word_less_nat_alt m_def)
    obtain m' where m': "m' \<le> m" "drain_loop m (rb_head rb) rb = (rb\<lparr>rb_tail := rb_tail rb + of_nat m'\<rparr>, map (\<lambda>i. the (sn i)) [?T..<?T + m'])"
        "unat (rb_tail rb + of_nat m') = ?T + m'" "?T + m' \<le> ?H" "m' = m \<or> ?T + m' = ?H \<or> sn (?T + m') = None"
      using drain_loop_drains [of k rb sn "rb_head rb" m] sh sl shared by (auto simp: drained_def)
    have "m' = m"
    proof (rule ccontr)
      assume "m' \<noteq> m"
      then have "m' < m" "?T + m' < ?H" using m'(1) by (auto simp: m_def)
      with all m'(5) \<open>m' \<noteq> m\<close> show False by (metis nat_neq_iff)
    qed
    moreover have "rb_head rb \<noteq> rb_tail rb" using False by auto
    ultimately show ?thesis using m'(2,3) n count by (simp add: DrainBatch_def Let_def)
  qed
qed

lemma DrainBatch_queue:
  assumes "ring_queue rb es" and "0 < n" and "n < 9223372036854775808"
  shows "\<exists>rb'. DrainBatch rb n = (rb', take (nat n) es) \<and> ring_queue rb' (drop (nat n) es)"
proof -
  obtain k s where s: "rb_inv k s" "sys_ring s = rb" "claims s = Map.empty" "\<forall>i<unat (rb_head rb). sent s i \<noteq> None"
    and es: "es = map (\<lambda>i. the (sent s i)) [unat (rb_tail rb)..<unat (rb_head rb)]" using assms(1) by (auto simp: ring_queue_def)
  define m where "m = min (nat n) (unat (rb_head rb) - unat (rb_tail rb))"
  let ?rb = "rb\<lparr>rb_tail := rb_tail rb + of_nat m, rb_tailShared := rb_tail rb + of_nat m\<rparr>"
  let ?out = "map (\<lambda>i. the (sent s i)) [unat (rb_tail rb)..<unat (rb_tail rb) + m]"
  let ?s = "s\<lparr>sys_ring := ?rb, got := got s @ ?out\<rparr>"
  have sh: "ring_shape k rb" "slots_ok k rb (sent s)" using s(1,2) by (auto simp: rb_inv_def)
  have "DrainBatch rb n = (?rb, ?out) \<and> unat (rb_tail rb + of_nat m) = unat (rb_tail rb) + m"
    unfolding m_def by (rule DrainBatch_all [OF sh s(4) assms(2,3)])
  then have d: "DrainBatch rb n = (?rb, ?out)" and t: "unat (rb_tail rb + of_nat m) = unat (rb_tail rb) + m" by blast+
  have "rb_step s ?s" by (rule rb_step.drains [of _ n]) (simp add: s(2) d)
  then have "rb_inv k ?s" using s(1) by (rule rb_step_inv)
  moreover have "drop (nat n) es = map (\<lambda>i. the (sent s i)) [unat (rb_tail rb) + m..<unat (rb_head rb)]"
    by (auto simp: es m_def drop_map min_def not_le)
  ultimately have "ring_queue ?rb (drop (nat n) es)"
    unfolding ring_queue_def by (intro exI [of _ k] exI [of _ ?s]) (use s(3,4) t in simp)
  moreover have "unat (rb_tail rb) \<le> unat (rb_head rb)" using sh(1) by (simp add: ring_shape_def)
  then have "?out = take (nat n) es" by (auto simp: es m_def take_map min_def take_upt)
  ultimately show ?thesis using d by simp
qed

interpretation ringq: event_queue ring_queue ring_room Submit DrainBatch
  by unfold_locales (blast intro: Submit_queue DrainBatch_queue)+

lemma new_ring_queue:
  assumes "NewRingBuffer ev0 n = Inr rb" and "n < 18446744073709551616"
  shows "ring_queue rb [] \<and> ring_room rb"
proof -
  obtain k where k: "n = 2 ^ k" "rb_inv k (rb_init rb)" using NewRingBuffer_inv [OF assms] by blast
  have h: "rb_head rb = 0" "rb_tail rb = 0" "rb_tailShared rb = 0" using assms(1) by (auto simp: NewRingBuffer_def split: if_splits)
  have "rb_cap rb = 2 ^ k" "k < 64" using k(2) by (simp_all add: rb_inv_def rb_init_def ring_shape_def)
  then have "0 < rb_cap rb" using unat_exp [of k] by (simp add: word_less_nat_alt)
  moreover have "ring_queue rb []"
    unfolding ring_queue_def using k(2) h by (intro exI [of _ k] exI [of _ "rb_init rb"]) (simp add: rb_init_def)
  ultimately show ?thesis using h by (simp add: ring_room_def)
qed

subsection \<open>One acknowledgement per event\<close>

lemma length_validate_loop: "length (validate_loop events cs i v outs) = length outs"
proof (induction events cs i v outs rule: validate_loop.induct)
  case (1 events cs i v outs)
  obtain v1 r where v1: "validateAndApply i (if i = cs then beginChain v else v) (events ! i) = (v1, r)" by (metis surj_pair)
  show ?case
  proof (cases "length events \<le> i")
    case False
    note IH = "1.IH" [OF False refl refl refl v1 [symmetric]]
    show ?thesis
      by (subst validate_loop.simps, unfold Let_def v1) (use False IH in \<open>cases r; simp\<close>)
  qed (simp add: validate_loop.simps [of events])
qed

lemma length_ValidateBatch: "length (ValidateBatch events m) = length events"
  by (simp add: ValidateBatch_def length_validate_loop Let_def)

lemma length_ApplyBatch: "length (snd (ApplyBatch ts outs m)) = length outs"
  by (induction ts outs m rule: ApplyBatch.induct) (auto split: prod.splits)

lemma length_acks: "length (snd (processBatch now l events)) = length events"
proof -
  have "length (snd (finish_batch l' ts outs)) = length ts" if "length outs = length ts" for l' ts outs
    using that length_ApplyBatch [of ts outs "el_accounts l'"] by (cases "ApplyBatch ts outs (el_accounts l')") (simp add: finish_batch_def)
  then show ?thesis
    by (auto simp: processBatch_def open_batch_def length_ValidateBatch Let_def split: prod.splits sum.splits)
qed

text \<open>In a run the log accepts every batch and every accepted transfer applies, so the acknowledgements are the
  outcomes of the validation.\<close>

lemma acks_are_outcomes:
  assumes inv: "run_inv l bs" and ev: "\<forall>t\<in>set events. wf_transfer t \<and> holds_last (batch_time c l) t"
    and ck: "sint (el_clock l) < 9223372036854775807" and rm: "room l (length events)"
  defines "ts \<equiv> map (\<lambda>t. t\<lparr>Timestamp := batch_time c l\<rparr>) events" and "n \<equiv> CloseExpired (SetClock (el_accounts l) (batch_time c l))"
  shows "snd (processBatch c l events) = map2 (\<lambda>t r. \<lparr>ack_Transfer = t, ack_Err = map_option LedgerErr r\<rparr>) ts (ValidateBatch ts n)"
proof -
  let ?recs = "makeWALRecords ts (ValidateBatch ts n)"
  have bl: "batch_log c l events = ?recs" by (simp add: batch_log_def open_batch_def ts_def n_def Let_def)
  have "am_ok n" using transfers_step(3) [OF inv ev ck rm] by (auto simp: n_def am_inv_def)
  from batch_runs [OF this] obtain m where m: "ApplyBatch ts (ValidateBatch ts n) n = (m, ValidateBatch ts n)" by metis
  have "\<exists>w x. AppendBatch (el_wal l) ?recs = (w, Inr x)" if "?recs \<noteq> []"
  proof -
    have "appendable (el_wal l) ?recs" using transfers_step(1) [OF inv ev ck rm] that by (simp add: bl)
    moreover have "wal_reach (el_wal l) bs (length bs)" using inv by (simp add: run_inv_def)
    ultimately show ?thesis using append_synced by metis
  qed
  with m show ?thesis
    by (cases "?recs = []") (auto simp: processBatch_def open_batch_def finish_batch_def Let_def simp flip: ts_def n_def)
qed

subsection \<open>Calls served alone\<close>

lemma reserved_store:
  assumes "idstore_ok s" and "CheckAndReserve now s k = Some (s', Reserved)"
  shows "idstore_ok s' \<and> is_maxSize s' = is_maxSize s \<and> is_ttl s' = is_ttl s \<and> open_others now' s' k \<le> open_others now s k"
proof -
  obtain rs where inv: "store_inv s rs" using assms(1) by (auto simp: idstore_ok_def)
  obtain rs' where s': "store_inv s' rs'" "is_maxSize s' = is_maxSize s" "is_ttl s' = is_ttl s"
      "items s' rs' = reserved_item now s k # l_others k (l_evict now (items s rs))"
    using CheckAndReserve_list [OF inv, of now k] assms(2) by (metis option.inject prod.inject)
  let ?xs = "l_others k (l_evict now (items s rs))"
  have evict: "\<exists>ys. xs = l_evict t xs @ ys" for t xs
    unfolding l_evict_def by (metis rev_append rev_rev_ident takeWhile_dropWhile_id)
  obtain ys where "reserved_item now s k # ?xs = l_evict now' (reserved_item now s k # ?xs) @ ys" using evict by blast
  then have "l_others k (reserved_item now s k # ?xs) = l_others k (l_evict now' (reserved_item now s k # ?xs)) @ l_others k ys"
    unfolding l_others_def by (metis filter_append)
  moreover have "l_others k (reserved_item now s k # ?xs) = ?xs" by (simp add: l_others_def reserved_item_def)
  ultimately have "open_count (l_others k (l_evict now' (reserved_item now s k # ?xs))) \<le> open_count ?xs"
    by (metis filter_append le_add1 length_append open_count_def)
  then show ?thesis using s' inv open_others_count by (auto simp: idstore_ok_def)
qed

lemma turn_alone:
  assumes "ring_queue (ld_rb l) []" and "ring_room (ld_rb l)" and "0 < n" and "n < 9223372036854775808"
  obtains rb rb' where "Submit (ld_rb l) t = Inr rb" "ring_queue rb' []"
    "loop_turn now n (l'\<lparr>ld_rb := rb\<rparr>) = (let (loop', acks) = processBatch now (ld_loop l') [t] in (l'\<lparr>ld_rb := rb', ld_loop := loop'\<rparr>, acks))"
proof -
  obtain rb rb' where "Submit (ld_rb l) t = Inr rb" "DrainBatch rb n = (rb', [t])" "ring_queue rb' []"
    using ringq.served_in_order [OF assms(1,2) _ assms(4), of t] assms(3) by auto
  then show ?thesis by (intro that [of rb rb']) (simp_all add: loop_turn_def split: prod.split)
qed

lemma single_ack: obtains a where "snd (processBatch now l [t]) = [a]"
  using length_acks [of now l "[t]"] by (cases "snd (processBatch now l [t])") auto

lemma keyless_call:
  assumes "\<not> ld_isFollower l" and q: "ring_queue (ld_rb l) []" "ring_room (ld_rb l)" "0 < n" "n < 9223372036854775808"
    and "IdempotencyKey t = noKey" and pb: "processBatch now (ld_loop l) [t] = (loop', [ack])"
  obtains rb where "ring_queue rb []" "CreateTransfer (served_alone now nows n) l t =
      Some (l\<lparr>ld_rb := rb, ld_loop := loop'\<rparr>, case ack_Err ack of Some e \<Rightarrow> Inl (EngineErr e) | None \<Rightarrow> Inr (ack_Transfer ack))"
proof -
  obtain rb rb' where rb: "Submit (ld_rb l) t = Inr rb" "ring_queue rb' []" "loop_turn now n (l\<lparr>ld_rb := rb\<rparr>) = (l\<lparr>ld_rb := rb', ld_loop := loop'\<rparr>, [ack])"
    using turn_alone [OF q, of t now l thesis] pb by auto
  show ?thesis
    by (rule that [OF rb(2)]) (use rb assms(1,6) in \<open>simp add: CreateTransfer_def begin_transfer_def end_transfer_def served_alone_def\<close>)
qed

lemma fresh_call:
  assumes lead: "\<not> ld_isFollower l" and q: "ring_queue (ld_rb l) []" "ring_room (ld_rb l)" "0 < n" "n < 9223372036854775808"
    and store: "idstore_ok (ld_idempKey l)" "lookup (ld_idempKey l) (IdempotencyKey t) = None"
      "int (open_others (nows 0) (ld_idempKey l) (IdempotencyKey t)) < is_maxSize (ld_idempKey l)"
  obtains l' ack where "processBatch now (ld_loop l) [t] = (ld_loop l', [ack])" "ring_queue (ld_rb l') []" "\<not> ld_isFollower l'"
    "idstore_ok (ld_idempKey l')"
    "CreateTransfer (served_alone now nows n) l t = Some (l', case ack_Err ack of Some e \<Rightarrow> Inl (EngineErr e) | None \<Rightarrow> Inr (ack_Transfer ack))"
    "\<lbrakk> IdempotencyKey t \<noteq> noKey; ack_Err ack = None \<rbrakk> \<Longrightarrow>
       lookup (ld_idempKey l') (IdempotencyKey t) =
         Some \<lparr>it_key = IdempotencyKey t, it_pending = False, it_expires = nows 0 + is_ttl (ld_idempKey l), it_transfer = ack_Transfer ack\<rparr>"
proof -
  let ?k = "IdempotencyKey t" and ?s = "ld_idempKey l"
  obtain ack where ack: "snd (processBatch now (ld_loop l) [t]) = [ack]" using single_ack by blast
  define loop' where "loop' = fst (processBatch now (ld_loop l) [t])"
  have pb: "processBatch now (ld_loop l) [t] = (loop', [ack])" using ack by (simp add: loop'_def prod_eq_iff)
  show ?thesis
  proof (cases "?k = noKey")
    case True
    obtain rb where rb: "ring_queue rb []" "CreateTransfer (served_alone now nows n) l t =
        Some (l\<lparr>ld_rb := rb, ld_loop := loop'\<rparr>, case ack_Err ack of Some e \<Rightarrow> Inl (EngineErr e) | None \<Rightarrow> Inr (ack_Transfer ack))"
      by (rule keyless_call [OF lead q True pb])
    show ?thesis by (rule that [of "l\<lparr>ld_rb := rb, ld_loop := loop'\<rparr>" ack]) (use True rb pb lead store in simp_all)
  next
    case False
    obtain s1 where s1: "CheckAndReserve (nows 0) ?s ?k = Some (s1, Reserved)"
      using idem.reserve_answers [OF store(1), of "nows 0" ?k] store(2) by (auto simp: answer_def)
    have ok1: "idstore_ok s1" "is_maxSize s1 = is_maxSize ?s" "is_ttl s1 = is_ttl ?s" "open_others (nows 0) s1 ?k \<le> open_others (nows 0) ?s ?k"
      using reserved_store [OF store(1) s1] by simp_all
    obtain rb rb' where rb: "Submit (ld_rb l) t = Inr rb" "ring_queue rb' []"
        "loop_turn now n (l\<lparr>ld_idempKey := s1, ld_rb := rb\<rparr>) = (l\<lparr>ld_idempKey := s1, ld_rb := rb', ld_loop := loop'\<rparr>, [ack])"
      using turn_alone [OF q, of t now "l\<lparr>ld_idempKey := s1\<rparr>" thesis] pb by auto
    let ?l2 = "l\<lparr>ld_idempKey := s1, ld_rb := rb', ld_loop := loop'\<rparr>"
    have turn: "CreateTransfer (served_alone now nows n) l t = map_option (\<lambda>(s, r). (?l2\<lparr>ld_idempKey := s\<rparr>, r)) (end_transfer (nows 0) s1 t (Some ack))"
      using False lead s1 rb by (simp add: CreateTransfer_def begin_transfer_def served_alone_def Let_def)
    show ?thesis
    proof (cases "ack_Err ack")
      case (Some e)
      show ?thesis
        by (rule that [of "?l2\<lparr>ld_idempKey := Rollback s1 ?k\<rparr>" ack])
          (use Some False pb rb(2) lead turn idem.rollback_frees [OF ok1(1)] in \<open>simp_all add: end_transfer_def\<close>)
    next
      case None
      have room: "int (open_others (nows 0) s1 ?k) < is_maxSize s1" using ok1 store(3) by linarith
      obtain s2 x where s2: "Commit (nows 0) s1 ?k (ack_Transfer ack) = Some s2" "idstore_ok s2" "lookup s2 ?k = Some x" "\<not> it_pending x"
          "it_transfer x = ack_Transfer ack" "it_expires x = nows 0 + is_ttl s1"
        using idem.commit_stores [OF ok1(1) room] by blast
      have "it_key x = ?k" using s2(2,3) by (auto simp: idstore_ok_def lookup_items)
      with s2(4-6) ok1(3) have "x = \<lparr>it_key = ?k, it_pending = False, it_expires = nows 0 + is_ttl ?s, it_transfer = ack_Transfer ack\<rparr>" by simp
      then show ?thesis
        by (intro that [of "?l2\<lparr>ld_idempKey := s2\<rparr>" ack]) (use None False pb rb(2) lead turn s2 in \<open>simp_all add: end_transfer_def\<close>)
    qed
  qed
qed

text \<open>A call with a key whose result is stored is answered at once, whatever else the ledger is doing.\<close>

lemma known_key_call:
  assumes "\<not> ld_isFollower l" and "IdempotencyKey t \<noteq> noKey" and env: "ce_attempts env 0 (ld_idempKey l) = (ld_idempKey l, now, stopped) # later"
    and store: "idstore_ok (ld_idempKey l)" "lookup (ld_idempKey l) (IdempotencyKey t) = Some x" "\<not> it_pending x" "now < it_expires x"
  shows "\<exists>s. idstore_ok s \<and> CreateTransfer env l t = Some (l\<lparr>ld_idempKey := s\<rparr>, Inr (it_transfer x))"
proof -
  obtain s where "CheckAndReserve now (ld_idempKey l) (IdempotencyKey t) = Some (s, Found (it_transfer x))" "idstore_ok s"
    using idem.reserve_answers [OF store(1), of now "IdempotencyKey t"] store(2-4) by (auto simp: answer_def)
  then show ?thesis using assms(1,2) env by (intro exI [of _ s]) (simp add: CreateTransfer_def begin_transfer_def)
qed

subsection \<open>Batches without keys\<close>

lemma ack_keys:
  assumes "\<forall>t\<in>set events. IdempotencyKey t = noKey"
  shows "\<forall>a\<in>set (snd (processBatch now l events)). IdempotencyKey (ack_Transfer a) = noKey"
proof -
  have fin: "IdempotencyKey (ack_Transfer a) = noKey"
    if "a \<in> set (snd (finish_batch l' ts outs))" "\<forall>t\<in>set ts. IdempotencyKey t = noKey" for a l' ts outs
    using that by (auto simp: finish_batch_def dest: set_zip_leftD split: prod.splits)
  have "IdempotencyKey transfer0 = noKey" by (simp add: transfer0_def)
  with assms show ?thesis
    by (auto simp: processBatch_def open_batch_def Let_def dest!: fin split: prod.splits sum.splits if_splits)
qed

lemma reserve_items_keyless:
  "\<forall>t\<in>set ts. IdempotencyKey t = noKey \<Longrightarrow>
     reserve_items attempts i ts p = Some (p\<lparr>p1_events := p1_events p @ enumerate i ts\<rparr>, None)"
  by (induction ts arbitrary: i p) (simp_all add: Let_def)

lemma materialize_keyless:
  "\<lbrakk> \<forall>a\<in>set acks. IdempotencyKey (ack_Transfer a) = noKey; length acks \<le> length outs \<rbrakk> \<Longrightarrow>
     materialize nows (enumerate (length pre) acks) s (pre @ outs) =
       Some (s, pre @ map (\<lambda>a. \<lparr>out_Transfer = ack_Transfer a, out_Err = map_option EngineErr (ack_Err a)\<rparr>) acks @ drop (length acks) outs)"
proof (induction acks arbitrary: pre outs)
  case (Cons a acks)
  then obtain x xs where o: "outs = x # xs" by (cases outs) auto
  let ?x = "\<lparr>out_Transfer = ack_Transfer a, out_Err = map_option EngineErr (ack_Err a)\<rparr>"
  have "(pre @ x # xs)[length pre := ?x] = (pre @ [?x]) @ xs" by simp
  with Cons.IH [of xs "pre @ [?x]"] Cons.prems o show ?case by (simp add: Let_def)
qed simp

lemma completed_all:
  assumes "acks \<noteq> []" and "length acks < 18446744073709551616"
  shows "bs_done (foldl bs_complete (newBatchState (length acks)) (enumerate 0 acks)) \<and>
    bs_results (foldl bs_complete (newBatchState (length acks)) (enumerate 0 acks)) = acks"
proof -
  let ?b = "newBatchState (length acks)"
  have r: "unat (bs_remaining ?b) = length acks" using assms(2) by (simp add: newBatchState_def unat_of_nat)
  have "bs_done (foldl bs_complete ?b (enumerate 0 acks))"
    using complete_done [of ?b "enumerate 0 acks"] assms(1) r by (simp add: newBatchState_def)
  moreover have "foldl (\<lambda>rs ia. rs[fst ia := snd ia]) (pre @ rs) (enumerate (length pre) xs) = pre @ xs @ drop (length xs) rs"
    if "length xs \<le> length rs" for pre rs and xs :: "transferAck list"
    using that
  proof (induction xs arbitrary: pre rs)
    case (Cons x xs)
    then obtain y ys where "rs = y # ys" by (cases rs) auto
    with Cons.IH [of ys "pre @ [x]"] Cons.prems show ?case by simp
  qed simp
  from this [of acks "replicate (length acks) ack0" "[]"] have "bs_results (foldl bs_complete ?b (enumerate 0 acks)) = acks"
    by (simp add: complete_frame newBatchState_def)
  ultimately show ?thesis by blast
qed

lemma batch_call:
  assumes "\<not> ld_isFollower l" and "ts \<noteq> []" and "length ts \<le> MaxTransferBatchSize" and "\<forall>t\<in>set ts. IdempotencyKey t = noKey"
  shows "CreateTransfers (served_alone now nows n) l ts =
    (let (loop', acks) = processBatch now (ld_loop l) ts
     in Some (l\<lparr>ld_loop := loop'\<rparr>, Inr (map (\<lambda>a. \<lparr>out_Transfer = ack_Transfer a, out_Err = map_option EngineErr (ack_Err a)\<rparr>) acks)))"
proof -
  obtain loop' acks where pb: "processBatch now (ld_loop l) ts = (loop', acks)" by (cases "processBatch now (ld_loop l) ts")
  have len: "length acks = length ts" using length_acks [of now "ld_loop l" ts] pb by simp
  then have ne: "acks \<noteq> []" using assms(2) by auto
  have keys: "\<forall>a\<in>set acks. IdempotencyKey (ack_Transfer a) = noKey" using ack_keys [OF assms(4), of now "ld_loop l"] pb by simp
  let ?p = "\<lparr>p1_store = ld_idempKey l, p1_outcomes = replicate (length ts) outcome0, p1_events = enumerate 0 ts, p1_reserved = [], p1_seen = {}\<rparr>"
  have "begin_transfers (ce_attempts (served_alone now nows n)) l ts = Some (Inr (?p, None))"
    using assms by (simp add: begin_transfers_def reserve_items_keyless Let_def)
  moreover have "zip (map fst (enumerate 0 ts)) acks = enumerate 0 acks" by (simp add: enumerate_eq_zip len)
  moreover have "bs_done (foldl bs_complete (newBatchState (length ts)) (enumerate 0 acks))"
    "bs_results (foldl bs_complete (newBatchState (length ts)) (enumerate 0 acks)) = acks"
    using completed_all [OF ne] assms(3) len by simp_all
  moreover have "materialize nows (enumerate 0 acks) (ld_idempKey l) (replicate (length ts) outcome0) =
      Some (ld_idempKey l, map (\<lambda>a. \<lparr>out_Transfer = ack_Transfer a, out_Err = map_option EngineErr (ack_Err a)\<rparr>) acks)"
    using materialize_keyless [OF keys, of "replicate (length ts) outcome0" nows "[]"] len by simp
  ultimately show ?thesis
    using assms(2) pb by (simp add: CreateTransfers_def finish_transfers_def served_alone_def Let_def enumerate_eq_zip)
qed

subsection \<open>Collecting a batch\<close>

lemma arriveChan_queue: "ring_queue rb es \<Longrightarrow> ring_queue (fst (arriveChan rb)) es"
proof -
  assume "ring_queue rb es"
  then obtain k s where s: "rb_inv k s" "sys_ring s = rb" "claims s = Map.empty" "\<forall>i<unat (rb_head rb). sent s i \<noteq> None"
    "es = map (\<lambda>i. the (sent s i)) [unat (rb_tail rb)..<unat (rb_head rb)]" by (auto simp: ring_queue_def)
  let ?s = "s\<lparr>sys_ring := fst (arriveChan (sys_ring s))\<rparr>"
  have "rb_inv k ?s" using rb_step_inv [OF rb_step.waits s(1)] .
  with s show ?thesis unfolding ring_queue_def by (intro exI [of _ k] exI [of _ ?s]) simp
qed

lemma Submit_head: "Submit rb e = Inr rb' \<Longrightarrow> rb_head rb' = rb_head rb + 1"
  by (auto simp: Submit_def claim_def publish_def Let_def split: if_splits)

lemma submit_all_queue:
  "\<lbrakk> ring_queue rb es; unat (rb_head rb) + length evs < 18446744073709551616 \<rbrakk> \<Longrightarrow>
     \<exists>new. subseq new evs \<and> ring_queue (submit_all rb evs) (es @ new) \<and> unat (rb_head (submit_all rb evs)) \<le> unat (rb_head rb) + length evs"
proof (induction evs arbitrary: rb es)
  case (Cons e evs)
  have b: "unat (rb_head rb) + 1 < 18446744073709551616" using Cons.prems(2) by simp
  show ?case
  proof (cases "Submit rb e")
    case (Inl err)
    obtain new where "subseq new evs" "ring_queue (submit_all rb evs) (es @ new)" "unat (rb_head (submit_all rb evs)) \<le> unat (rb_head rb) + length evs"
      using Cons.IH [OF Cons.prems(1)] Cons.prems(2) by auto
    with Inl show ?thesis by (intro exI [of _ new]) auto
  next
    case (Inr rb1)
    then have "ring_room rb" using b by (auto simp: Submit_def claim_def ring_room_def split: if_splits)
    then have q: "ring_queue rb1 (es @ [e])" using Submit_queue [OF Cons.prems(1), of e] Inr by auto
    have h: "unat (rb_head rb1) = unat (rb_head rb) + 1" unfolding Submit_head [OF Inr] by (rule unat_succ [OF b])
    obtain new where "subseq new evs" "ring_queue (submit_all rb1 evs) ((es @ [e]) @ new)" "unat (rb_head (submit_all rb1 evs)) \<le> unat (rb_head rb1) + length evs"
      using Cons.IH [OF q] Cons.prems(2) h by auto
    with Inr h show ?thesis by (intro exI [of _ "e # new"]) auto
  qed
qed auto

text \<open>All events that may arrive in a list of waits.\<close>

definition offered :: "'e wait list \<Rightarrow> 'e list" where
  "offered ws = concat (map (\<lambda>w. w_landed w @ w_arrivals w) ws)"

lemma offered_simps [simp]: "offered [] = []" "offered (w # ws) = w_landed w @ w_arrivals w @ offered ws"
  by (simp_all add: offered_def)

text \<open>Growing the queue by a subsequence of what is offered, within the range of the sequence numbers.\<close>

definition grown :: "'e ring \<Rightarrow> 'e list \<Rightarrow> 'e list \<Rightarrow> 'e ring \<Rightarrow> bool" where
  "grown rb es evs rb' \<longleftrightarrow> (\<exists>new. subseq new evs \<and> ring_queue rb' (es @ new) \<and> unat (rb_head rb') \<le> unat (rb_head rb) + length evs)"

lemma grown_refl: "ring_queue rb es \<Longrightarrow> grown rb es evs rb"
  unfolding grown_def by (intro exI [of _ "[]"]) simp

lemma grown_more:
  assumes "grown rb es evs rb'"
  shows "grown rb es (evs @ fs) rb'"
proof -
  obtain new where "subseq new evs" "ring_queue rb' (es @ new)" "unat (rb_head rb') \<le> unat (rb_head rb) + length evs"
    using assms by (auto simp: grown_def)
  then show ?thesis unfolding grown_def by (intro exI [of _ new]) (simp add: list_emb_prefix)
qed

lemma grown_submit:
  assumes "grown rb es evs rb'" and "unat (rb_head rb) + length (evs @ fs) < 18446744073709551616"
  shows "grown rb es (evs @ fs) (submit_all (fst (arriveChan rb')) fs)" "grown rb es (evs @ fs) (submit_all rb' fs)"
proof -
  obtain new where new: "subseq new evs" "ring_queue rb' (es @ new)" "unat (rb_head rb') \<le> unat (rb_head rb) + length evs"
    using assms(1) by (auto simp: grown_def)
  have h: "unat (rb_head r) + length fs < 18446744073709551616" if "rb_head r = rb_head rb'" for r :: "'a ring" using new(3) assms(2) that by simp
  have step: "grown rb es (evs @ fs) (submit_all r fs)" if r: "ring_queue r (es @ new)" "rb_head r = rb_head rb'" for r
  proof -
    obtain new' where "subseq new' fs" "ring_queue (submit_all r fs) ((es @ new) @ new')" "unat (rb_head (submit_all r fs)) \<le> unat (rb_head r) + length fs"
      using submit_all_queue [OF r(1) h [OF r(2)]] by blast
    with new r(2) show ?thesis unfolding grown_def by (intro exI [of _ "new @ new'"]) (auto intro: list_emb_append_mono)
  qed
  show "grown rb es (evs @ fs) (submit_all (fst (arriveChan rb')) fs)" "grown rb es (evs @ fs) (submit_all rb' fs)"
    using step [of "fst (arriveChan rb')"] step [of rb'] arriveChan_queue [OF new(2)] new(2) by simp_all
qed

lemma idle_wait_grows:
  "\<lbrakk> grown rb es evs rb1; unat (rb_head rb) + length (evs @ offered ws) < 18446744073709551616; idle_wait ws rb1 = Some (c, rb2, ws') \<rbrakk> \<Longrightarrow>
     \<exists>evs'. evs @ offered ws = evs' @ offered ws' \<and> grown rb es evs' rb2"
proof (induction ws arbitrary: evs rb1)
  case (Cons w ws)
  let ?r1 = "submit_all (fst (arriveChan rb1)) (w_landed w)"
  let ?r2 = "submit_all ?r1 (w_arrivals w)"
  show ?case
  proof (cases "ring_Len rb1 \<noteq> 0")
    case True
    with Cons.prems show ?thesis by (intro exI [of _ evs]) auto
  next
    case False
    have g1: "grown rb es (evs @ w_landed w) ?r1" by (rule grown_submit(1) [OF Cons.prems(1)]) (use Cons.prems(2) in simp)
    have g2: "grown rb es ((evs @ w_landed w) @ w_arrivals w) ?r2" by (rule grown_submit(2) [OF g1]) (use Cons.prems(2) in simp)
    show ?thesis
    proof (cases "ring_Len ?r1 \<noteq> 0")
      case True
      with False Cons.prems(3) have "rb2 = ?r1" "ws' = ws" by (auto simp: Let_def)
      with grown_more [OF g1, of "w_arrivals w"] show ?thesis by (intro exI [of _ "evs @ w_landed w @ w_arrivals w"]) simp
    next
      case empty: False
      show ?thesis
      proof (cases "idle_wait ws ?r2 = Some (c, rb2, ws')")
        case True
        from Cons.IH [OF g2 _ True] Cons.prems(2) show ?thesis by simp
      next
        case False
        with \<open>\<not> ring_Len rb1 \<noteq> 0\<close> empty Cons.prems(3) have "rb2 = ?r2" "ws' = ws" by (auto simp: Let_def split: wakeup.splits if_splits)
        with g2 show ?thesis by (intro exI [of _ "evs @ w_landed w @ w_arrivals w"]) simp
      qed
    qed
  qed
qed (auto split: if_splits)

lemma fill_wait_grows:
  "\<lbrakk> grown rb es evs rb1; unat (rb_head rb) + length (evs @ offered ws) < 18446744073709551616; fill_wait n ws rb1 = Some rb2 \<rbrakk> \<Longrightarrow>
     grown rb es (evs @ offered ws) rb2"
proof (induction ws arbitrary: evs rb1)
  case (Cons w ws)
  let ?r = "submit_all (fst (arriveChan rb1)) (w_arrivals w)"
  show ?case
  proof (cases "fill_wait n ws ?r = Some rb2")
    case True
    have "grown rb es ((evs @ w_landed w) @ w_arrivals w) ?r"
      by (rule grown_submit(1) [OF grown_more [OF Cons.prems(1)]]) (use Cons.prems(2) in simp)
    from Cons.IH [OF this _ True] Cons.prems(2) show ?thesis by simp
  next
    case False
    then have "rb2 = rb1" using Cons.prems(3) by (auto split: if_splits)
    with grown_more [OF Cons.prems(1)] show ?thesis by simp
  qed
qed (auto split: if_splits)

lemma fill_wait_returns: "w_remain w \<le> 0 \<Longrightarrow> \<exists>r. fill_wait n (ws @ [w]) rb = Some r"
  by (induction ws arbitrary: rb) auto

lemma idle_wait_returns:
  "w_source w1 = TimerFired \<Longrightarrow> \<exists>c rb' us'. idle_wait (us @ [w1, w2]) rb = Some (c, rb', us') \<and> (c \<longrightarrow> (\<exists>vs. us' = vs @ [w2]))"
proof (induction us arbitrary: rb)
  case (Cons u us)
  note ih = Cons.IH [OF Cons.prems]
  show ?case using ih by (auto simp: Let_def split: wakeup.splits)
qed (auto simp: Let_def split: wakeup.splits)

lemma DrainBatch_head: "rb_head (fst (DrainBatch rb n)) = rb_head rb"
proof -
  have "rb_head (fst (drain_loop k h r)) = rb_head r" for k h and r :: "'a ring"
    by (induction k h r rule: drain_loop.induct) (simp_all add: Let_def case_prod_beta)
  then show ?thesis by (simp add: DrainBatch_def Let_def case_prod_beta)
qed

lemma Collect_grows:
  assumes "ring_queue rb es" and "0 < bt_maxBatchSize b" and "bt_maxBatchSize b < 9223372036854775808"
    and "unat (rb_head rb) + length (offered ws) < 18446744073709551616" and "Collect_batch b ws rb = Some (rb', batch)"
  shows "\<exists>new rest. ring_queue rb' rest \<and> batch @ rest = es @ new \<and> subseq new (offered ws) \<and> int (length batch) \<le> bt_maxBatchSize b \<and>
    unat (rb_head rb') \<le> unat (rb_head rb) + length (offered ws)"
proof -
  let ?n = "bt_maxBatchSize b"
  obtain c rb1 us' where idle: "idle_wait ws rb = Some (c, rb1, us')" using assms(5) by (auto simp: Collect_batch_def split: option.splits)
  obtain evs where evs: "offered ws = evs @ offered us'" "grown rb es evs rb1"
    using idle_wait_grows [OF grown_refl [OF assms(1), of "[]"], of ws c rb1 us'] idle assms(4) by auto
  show ?thesis
  proof (cases c)
    case False
    then have "rb' = rb1" "batch = []" using assms(5) idle by (simp_all add: Collect_batch_def)
    with grown_more [OF evs(2), of "offered us'"] evs(1) assms(2) show ?thesis by (auto simp: grown_def)
  next
    case True
    then obtain rb2 where fill: "fill_wait ?n us' rb1 = Some rb2" "DrainBatch rb2 ?n = (rb', batch)"
      using assms(5) idle by (auto simp: Collect_batch_def)
    have "grown rb es (evs @ offered us') rb2" by (rule fill_wait_grows [OF evs(2) _ fill(1)]) (use assms(4) evs(1) in simp)
    then obtain new where new: "subseq new (offered ws)" "ring_queue rb2 (es @ new)" "unat (rb_head rb2) \<le> unat (rb_head rb) + length (offered ws)"
      by (auto simp: grown_def evs(1))
    have "batch = take (nat ?n) (es @ new)" "ring_queue rb' (drop (nat ?n) (es @ new))"
      using ringq.drains [OF new(2) assms(2,3)] fill(2) by auto
    moreover have "rb_head rb' = rb_head rb2" using DrainBatch_head [of rb2 ?n] fill(2) by simp
    moreover have "int (length (take (nat ?n) (es @ new))) \<le> ?n" using assms(2) by simp
    ultimately show ?thesis using new(1,3) by (metis append_take_drop_id)
  qed
qed

subsection \<open>Properties\<close>

text \<open>C34: the batcher neither loses, repeats nor reorders events, and it returns. Whatever arrives while
  \<^verbatim>\<open>Collect\<close> waits, once its timer has fired and no time is left it returns a batch
  of at most \<^verbatim>\<open>maxBatchSize\<close> events, and the batch followed by what stays in the ring is what was in
  the ring followed by the events that were accepted meanwhile. The sequence numbers must not wrap around.\<close>

theorem Collect_returns_prefix:
  assumes "ring_queue rb es" and "0 < bt_maxBatchSize b" and "bt_maxBatchSize b < 9223372036854775808"
    and "unat (rb_head rb) + length (offered (us @ [w1, w2])) < 18446744073709551616"
    and "w_source w1 = TimerFired" and "w_remain w2 \<le> 0"
  shows "\<exists>rb' batch new rest. Collect_batch b (us @ [w1, w2]) rb = Some (rb', batch) \<and> ring_queue rb' rest \<and>
    batch @ rest = es @ new \<and> subseq new (offered (us @ [w1, w2])) \<and> int (length batch) \<le> bt_maxBatchSize b"
proof -
  let ?ws = "us @ [w1, w2]"
  obtain c rb1 us' where idle: "idle_wait ?ws rb = Some (c, rb1, us')" "c \<longrightarrow> (\<exists>vs. us' = vs @ [w2])"
    using idle_wait_returns [OF assms(5)] by blast
  then have "Collect_batch b ?ws rb \<noteq> None"
    using fill_wait_returns [OF assms(6), of "bt_maxBatchSize b" _ rb1] by (cases c) (auto simp: Collect_batch_def)
  then obtain rb' batch where "Collect_batch b ?ws rb = Some (rb', batch)" by auto
  with Collect_grows [OF assms(1-4) this] show ?thesis by blast
qed

theorem Collect_returns_prefix_witness:
  "\<exists>rb' batch. Collect_batch (NewBatcher 2 5) [\<lparr>w_landed = [], w_arrivals = [7], w_source = Arrived, w_yield = False, w_remain = 5\<rparr>,
      \<lparr>w_landed = [], w_arrivals = [], w_source = TimerFired, w_yield = False, w_remain = 3\<rparr>,
      \<lparr>w_landed = [], w_arrivals = [], w_source = TimerFired, w_yield = False, w_remain = 0\<rparr>] sample_ring = Some (rb', batch) \<and> length batch \<le> 2"
proof -
  have "ring_queue sample_ring []" using new_ring_queue [OF sample_ring_new] by simp
  from Collect_returns_prefix [OF this, of "NewBatcher 2 5" "[\<lparr>w_landed = [], w_arrivals = [7], w_source = Arrived, w_yield = False, w_remain = 5\<rparr>]"
      "\<lparr>w_landed = [], w_arrivals = [], w_source = TimerFired, w_yield = False, w_remain = 3\<rparr>"
      "\<lparr>w_landed = [], w_arrivals = [], w_source = TimerFired, w_yield = False, w_remain = 0\<rparr>"]
  show ?thesis by (auto simp: NewBatcher_def sample_ring_eq)
qed

text \<open>A batch without idempotency keys is answered position by position. Served as one engine batch, the
  call returns exactly the acknowledgements the event loop gave its transfers, in their order, and leaves the
  keys untouched.\<close>

theorem batch_is_answered_in_order:
  assumes "\<not> ld_isFollower l" and "ts \<noteq> []" and "length ts \<le> MaxTransferBatchSize" and "\<forall>t\<in>set ts. IdempotencyKey t = noKey"
    and "processBatch now (ld_loop l) ts = (loop', acks)"
  shows "CreateTransfers (served_alone now nows n) l ts =
      Some (l\<lparr>ld_loop := loop'\<rparr>, Inr (map (\<lambda>a. \<lparr>out_Transfer = ack_Transfer a, out_Err = map_option EngineErr (ack_Err a)\<rparr>) acks)) \<and>
    length acks = length ts"
  using batch_call [OF assms(1-4), of now nows n] assms(5) length_acks [of now "ld_loop l" ts] by simp

theorem batch_is_answered_in_order_witness:
  "\<exists>l' outs. CreateTransfers (served_alone 5 (\<lambda>_. 5) 10) sample_ledger [sample_transfer 7 1 2 30 0, sample_transfer 8 1 1 30 0] = Some (l', Inr outs) \<and> length outs = 2"
proof -
  let ?ts = "[sample_transfer 7 1 2 30 0, sample_transfer 8 1 1 30 0]"
  obtain loop' acks where pb: "processBatch 5 (ld_loop sample_ledger) ?ts = (loop', acks)" by (metis surj_pair)
  have "\<forall>t\<in>set ?ts. IdempotencyKey t = noKey" by (simp add: sample_transfer_def transfer0_def)
  from batch_is_answered_in_order [OF _ _ _ this pb, of "\<lambda>_. 5" 10] show ?thesis by (simp add: sample_ledger_def)
qed

end
