(* ===== verification/Sha256.thy ===== *)
theory Sha256
  imports Ledger_Prelude
begin

text \<open>
  SHA-256 as the API layer uses it (\<^verbatim>\<open>sha256.Sum256\<close> of Go's \<^verbatim>\<open>crypto/sha256\<close>): the message is
  padded to 64-byte blocks, each block is expanded to a schedule of 64 words and folded into the
  state. The function is executable; the digest of the message of three bytes that the standard
  gives as an example is checked below.
\<close>

definition round_constants :: "u32 list" where
  "round_constants =
    [1116352408, 1899447441, 3049323471, 3921009573, 961987163, 1508970993,
     2453635748, 2870763221, 3624381080, 310598401, 607225278, 1426881987,
     1925078388, 2162078206, 2614888103, 3248222580, 3835390401, 4022224774,
     264347078, 604807628, 770255983, 1249150122, 1555081692, 1996064986,
     2554220882, 2821834349, 2952996808, 3210313671, 3336571891, 3584528711,
     113926993, 338241895, 666307205, 773529912, 1294757372, 1396182291,
     1695183700, 1986661051, 2177026350, 2456956037, 2730485921, 2820302411,
     3259730800, 3345764771, 3516065817, 3600352804, 4094571909, 275423344,
     430227734, 506948616, 659060556, 883997877, 958139571, 1322822218,
     1537002063, 1747873779, 1955562222, 2024104815, 2227730452, 2361852424,
     2428436474, 2756734187, 3204031479, 3329325298]"

type_synonym digest_state = "u32 list"

definition initial_state :: digest_state where
  "initial_state =
    [1779033703, 3144134277, 1013904242, 2773480762, 1359893119, 2600822924,
     528734635, 1541459225]"

subsection \<open>Padding and blocks\<close>

definition pad_message :: "bytes \<Rightarrow> bytes" where
  "pad_message m = m @ [0x80] @ zeros ((119 - length m mod 64) mod 64) @ be_bytes 8 (of_nat (8 * length m) :: u64)"

fun block_words :: "bytes \<Rightarrow> u32 list" where
  "block_words (a # b # c # d # bs) = be_word [a, b, c, d] # block_words bs"
| "block_words _ = []"

subsection \<open>Schedule and rounds\<close>

definition small_sigma0 :: "u32 \<Rightarrow> u32" where
  "small_sigma0 x = word_rotr 7 x XOR word_rotr 18 x XOR drop_bit 3 x"

definition small_sigma1 :: "u32 \<Rightarrow> u32" where
  "small_sigma1 x = word_rotr 17 x XOR word_rotr 19 x XOR drop_bit 10 x"

definition big_sigma0 :: "u32 \<Rightarrow> u32" where
  "big_sigma0 x = word_rotr 2 x XOR word_rotr 13 x XOR word_rotr 22 x"

definition big_sigma1 :: "u32 \<Rightarrow> u32" where
  "big_sigma1 x = word_rotr 6 x XOR word_rotr 11 x XOR word_rotr 25 x"

text \<open>The words computed so far, the latest first.\<close>

fun schedule :: "nat \<Rightarrow> u32 list \<Rightarrow> u32 list" where
  "schedule 0 ws = ws"
| "schedule (Suc n) ws = schedule n ((small_sigma1 (ws ! 1) + ws ! 6 + small_sigma0 (ws ! 14) + ws ! 15) # ws)"

definition sha_round :: "digest_state \<Rightarrow> u32 \<times> u32 \<Rightarrow> digest_state" where
  "sha_round s kw =
     (let a = s ! 0; b = s ! 1; c = s ! 2; d = s ! 3; e = s ! 4; f = s ! 5; g = s ! 6; h = s ! 7;
          t1 = h + big_sigma1 e + ((e AND f) XOR (NOT e AND g)) + fst kw + snd kw;
          t2 = big_sigma0 a + ((a AND b) XOR (a AND c) XOR (b AND c))
      in [t1 + t2, a, b, c, d + t1, e, f, g])"

definition compress :: "digest_state \<Rightarrow> bytes \<Rightarrow> digest_state" where
  "compress s block =
     map2 (+) s (foldl sha_round s (zip round_constants (rev (schedule 48 (rev (block_words block))))))"

fun sha_blocks :: "nat \<Rightarrow> digest_state \<Rightarrow> bytes \<Rightarrow> digest_state" where
  "sha_blocks 0 s bs = s"
| "sha_blocks (Suc n) s bs = sha_blocks n (compress s (take 64 bs)) (drop 64 bs)"

definition Sum256 :: "bytes \<Rightarrow> bytes" where
  "Sum256 m =
     (let padded = pad_message m
      in concat (map (be_bytes 4) (sha_blocks (length padded div 64) initial_state padded)))"

subsection \<open>The size of a digest\<close>

lemma length_sha_round [simp]: "length (sha_round s kw) = 8"
  by (simp add: sha_round_def Let_def)

lemma length_sha_rounds: "length s = 8 \<Longrightarrow> length (foldl sha_round s kws) = 8"
  by (induction kws arbitrary: s) auto

lemma length_compress: "length s = 8 \<Longrightarrow> length (compress s b) = 8"
  by (simp add: compress_def length_sha_rounds)

lemma length_sha_blocks: "length s = 8 \<Longrightarrow> length (sha_blocks n s bs) = 8"
  by (induction n arbitrary: s bs) (auto simp: length_compress)

lemma length_Sum256 [simp]: "length (Sum256 m) = 32"
proof -
  have "length (concat (map (be_bytes 4) ws)) = 4 * length ws" for ws :: "u32 list" by (induction ws) auto
  moreover have "length initial_state = 8" by (simp add: initial_state_def)
  ultimately show ?thesis by (simp add: Sum256_def Let_def length_sha_blocks)
qed

lemma pad_message_blocks: "64 dvd length (pad_message m)"
proof -
  define r where "r = length m mod 64"
  have r: "r < 64" by (simp add: r_def)
  have "(r + 9 + (119 - r) mod 64) mod 64 = (r + 9 + (119 - r)) mod 64" by (rule mod_add_right_eq)
  also have "\<dots> = 0" using r by simp
  finally have "(length m + (9 + (119 - r) mod 64)) mod 64 = 0"
    unfolding r_def by (metis add.assoc mod_add_left_eq)
  moreover have "length (pad_message m) = length m + (9 + (119 - r) mod 64)" unfolding pad_message_def r_def by simp
  ultimately show ?thesis by (simp only: dvd_eq_mod_eq_0)
qed

text \<open>The example of the standard, the message \<^verbatim>\<open>abc\<close>.\<close>

lemma Sum256_abc:
  "Sum256 [0x61, 0x62, 0x63] =
    [0xba, 0x78, 0x16, 0xbf, 0x8f, 0x01, 0xcf, 0xea, 0x41, 0x41, 0x40, 0xde, 0x5d, 0xae, 0x22, 0x23,
     0xb0, 0x03, 0x61, 0xa3, 0x96, 0x17, 0x7a, 0x9c, 0xb4, 0x10, 0xff, 0x61, 0xf2, 0x00, 0x15, 0xad]"
  by code_simp

end
