(* ===== verification/Grpc_Api.thy ===== *)
theory Grpc_Api
  imports Ledger_Calls Sha256
begin

text \<open>
  The gRPC surface (\<^verbatim>\<open>internal/api/server.go\<close>) with the interceptor that reads the idempotency key from
  the metadata (\<^verbatim>\<open>internal/api/idempotency.go\<close>). Requests and responses are records with the fields of
  the generated message types; a pointer that may be \<^verbatim>\<open>nil\<close> is an option. A Go string is the list of
  its bytes. The text of an error is kept as the error value behind the fixed part of the message.
  Each handler takes the ledger and returns it with the response; those that create transfers also
  take the surroundings of the call and return \<open>None\<close> while the call waits.
\<close>

subsection \<open>Strings and byte arrays\<close>

definition str_bytes :: "string \<Rightarrow> bytes" where
  "str_bytes s = map of_char s"

definition bytes_str :: "bytes \<Rightarrow> string" where
  "bytes_str b = map (\<lambda>x. char_of (unat x)) b"

text \<open>\<^verbatim>\<open>var x [n]byte; copy(x[:], b)\<close>\<close>

definition copy_into :: "nat \<Rightarrow> bytes \<Rightarrow> bytes" where
  "copy_into n b = copy_at 0 (take n b) (zeros n)"

subsection \<open>Errors\<close>

datatype api_error = EngineText client_error | EmptyID | IDSize | HexInvalidByte char | HexLength | AmountText uint128_error

datatype message = Msg string | MsgErr string api_error

datatype code = InvalidArgument | NotFound | AlreadyExists | FailedPrecondition | Aborted | Unavailable | Internal

type_synonym rpc_error = "code \<times> message"

abbreviation ledgerText :: "ledger_error \<Rightarrow> api_error" where
  "ledgerText e \<equiv> EngineText (EngineErr (LedgerErr e))"

text \<open>\<^verbatim>\<open>transferErrorStatus\<close>. \<^verbatim>\<open>errors.Is\<close> compares with the zero value of the error type, so it matches
  a self transfer only when the account ID in the error is zero as well.\<close>

fun transferErrorCode :: "client_error \<Rightarrow> code" where
  "transferErrorCode (EngineErr (LedgerErr e)) =
     (case e of
        ErrNotLeader \<Rightarrow> Unavailable
      | ErrZeroAmount \<Rightarrow> InvalidArgument
      | ErrSelfTransfer i \<Rightarrow> if i = zeros 16 then InvalidArgument else Internal
      | ErrInvalidTransferFlags f \<Rightarrow> InvalidArgument
      | ErrAccountNotFound i \<Rightarrow> NotFound
      | ErrTransferNotFound i \<Rightarrow> NotFound
      | ErrPendingNotFound i \<Rightarrow> NotFound
      | ErrInsufficientFunds i a b \<Rightarrow> FailedPrecondition
      | ErrOverTransfer i a b \<Rightarrow> FailedPrecondition
      | ErrLedgerMismatch a b c \<Rightarrow> InvalidArgument
      | ErrLinkedChainFailed i n r \<Rightarrow> Aborted
      | ErrLinkedChainOpen i n \<Rightarrow> InvalidArgument
      | ErrDuplicateTransferID i \<Rightarrow> AlreadyExists
      | _ \<Rightarrow> Internal)"
| "transferErrorCode (EngineErr (WalErr e)) = Internal"
| "transferErrorCode ContextDone = Internal"

definition transferErrorStatus :: "client_error \<Rightarrow> rpc_error" where
  "transferErrorStatus e = (transferErrorCode e, MsgErr '''' (EngineText e))"

subsection \<open>Messages\<close>

record proto_account =
  pa_Id :: bytes
  pa_Currency :: string
  pa_PostedDebits :: uint128
  pa_PostedCredits :: uint128
  pa_PendingDebits :: uint128
  pa_PendingCredits :: uint128
  pa_Balance :: uint128
  pa_AvailableBalance :: uint128
  pa_Ledger :: u32
  pa_Code :: u32
  pa_UserData128 :: bytes
  pa_Flags :: u32

record proto_transfer =
  pt_Id :: bytes
  pt_DebitAccountId :: bytes
  pt_CreditAccountId :: bytes
  pt_Amount :: "uint128 option"
  pt_IdempotencyKey :: bytes
  pt_CreatedAt :: i64
  pt_Flags :: u32
  pt_Timeout :: u64
  pt_Ledger :: u32
  pt_Code :: u32
  pt_UserData128 :: bytes

record create_account_request =
  ca_Id :: bytes
  ca_Currency :: string
  ca_InitialPostedCredits :: "uint128 option"
  ca_Ledger :: u32
  ca_Code :: u32
  ca_UserData128 :: bytes
  ca_Flags :: u32

record transfer_result =
  res_Ok :: bool
  res_Transfer :: "proto_transfer option"
  res_Error :: message

record account_result =
  ares_Ok :: bool
  ares_Account :: "proto_account option"
  ares_Error :: message

definition bytesToID :: "bytes \<Rightarrow> api_error + ident" where
  "bytesToID b = (if b = [] then Inl EmptyID else if length b \<noteq> 16 then Inl IDSize else Inr (copy_into 16 b))"

definition coreTransferToProto :: "transfer \<Rightarrow> proto_transfer" where
  "coreTransferToProto t =
     \<lparr>pt_Id = tr_ID t, pt_DebitAccountId = DebitAccountID t, pt_CreditAccountId = CreditAccountID t, pt_Amount = Some (Amount t),
      pt_IdempotencyKey = IdempotencyKey t, pt_CreatedAt = Timestamp t, pt_Flags = tr_Flags t, pt_Timeout = Timeout t,
      pt_Ledger = tr_Ledger t, pt_Code = ucast (tr_Code t), pt_UserData128 = tr_UserData128 t\<rparr>"

definition coreAccountToProto :: "account \<Rightarrow> ledger_error + proto_account" where
  "coreAccountToProto a =
     (case Balance a of
        Inl e \<Rightarrow> Inl e
      | Inr bal \<Rightarrow>
          (case AvailableBalance a of
             Inl e \<Rightarrow> Inl e
           | Inr avail \<Rightarrow>
               Inr \<lparr>pa_Id = acc_ID a, pa_Currency = bytes_str (acc_Currency a), pa_PostedDebits = PostedDebits a, pa_PostedCredits = PostedCredits a,
                    pa_PendingDebits = PendingDebits a, pa_PendingCredits = PendingCredits a, pa_Balance = bal, pa_AvailableBalance = avail,
                    pa_Ledger = acc_Ledger a, pa_Code = ucast (acc_Code a), pa_UserData128 = acc_UserData128 a, pa_Flags = acc_Flags a\<rparr>))"

subsection \<open>Idempotency keys\<close>

text \<open>The metadata of a call, by lower-case name; \<^verbatim>\<open>MD.Get\<close> lowers the name it is asked for.\<close>

type_synonym metadata = "string \<Rightarrow> string list"

definition lower_char :: "char \<Rightarrow> char" where
  "lower_char c = (if 65 \<le> (of_char c :: nat) \<and> (of_char c :: nat) \<le> 90 then char_of ((of_char c :: nat) + 32) else c)"

definition md_Get :: "metadata \<Rightarrow> string \<Rightarrow> string list" where
  "md_Get md k = md (map lower_char k)"

definition key_of_bytes :: "bytes \<Rightarrow> bytes" where
  "key_of_bytes b = (if length b = 32 then copy_into 32 b else Sum256 b)"

text \<open>The key the interceptor puts into the context of the handler.\<close>

definition IdempotencyUnaryInterceptor :: "metadata option \<Rightarrow> bytes option" where
  "IdempotencyUnaryInterceptor md =
     (case md of
        None \<Rightarrow> None
      | Some md \<Rightarrow>
          let rawKey =
                (case md_Get md ''idempotency-key'' of
                   k # _ \<Rightarrow> k
                 | [] \<Rightarrow> (case md_Get md ''Idempotency-Key'' of k # _ \<Rightarrow> k | [] \<Rightarrow> ''''))
          in if rawKey \<noteq> '''' then Some (key_of_bytes (str_bytes rawKey)) else None)"

text \<open>The key of a transfer: from the request, or else from the context.\<close>

definition request_key :: "bytes option \<Rightarrow> bytes \<Rightarrow> bytes" where
  "request_key ctxKey k =
     (if length k = 32 then copy_into 32 k
      else if length k > 0 then Sum256 k
      else case ctxKey of Some c \<Rightarrow> c | None \<Rightarrow> noKey)"

subsection \<open>Accounts\<close>

text \<open>The account of a request, built the same way by the unary and the batch handler.\<close>

definition proto_to_account :: "ident \<Rightarrow> create_account_request \<Rightarrow> account" where
  "proto_to_account accID req =
     account0\<lparr>acc_ID := accID, acc_Currency := copy_into 4 (str_bytes (ca_Currency req)),
       PostedCredits := (case ca_InitialPostedCredits req of Some m \<Rightarrow> Uint128 (Lo m) (Hi m) | None \<Rightarrow> u128_zero),
       acc_Ledger := ca_Ledger req, acc_Code := ucast (ca_Code req),
       acc_UserData128 := (if length (ca_UserData128 req) > 0 then copy_into 16 (ca_UserData128 req) else zeros 16),
       acc_Flags := ca_Flags req\<rparr>"

definition grpc_CreateAccount :: "ledger \<Rightarrow> create_account_request option \<Rightarrow> ledger \<times> (rpc_error + proto_account)" where
  "grpc_CreateAccount l request =
     (case request of
        None \<Rightarrow> (l, Inl (InvalidArgument, Msg ''nil request''))
      | Some req \<Rightarrow>
          (case bytesToID (ca_Id req) of
             Inl e \<Rightarrow> (l, Inl (InvalidArgument, MsgErr ''invalid account id: '' e))
           | Inr accID \<Rightarrow>
               (case CreateAccount l (proto_to_account accID req) of
                  (l', Inl e) \<Rightarrow>
                    (l', Inl (if e = LedgerErr ErrNotLeader then (Unavailable, MsgErr '''' (EngineText (EngineErr e)))
                              else case e of
                                     LedgerErr (ErrDuplicateAccountID _) \<Rightarrow> (AlreadyExists, MsgErr ''account already exists: '' (EngineText (EngineErr e)))
                                   | _ \<Rightarrow> (Internal, MsgErr ''failed to create account: '' (EngineText (EngineErr e)))))
                | (l', Inr acc) \<Rightarrow>
                    (case coreAccountToProto acc of
                       Inl e \<Rightarrow> (l', Inl (Internal, MsgErr '''' (ledgerText e)))
                     | Inr protoAcc \<Rightarrow> (l', Inr protoAcc)))))"

definition grpc_GetAccount :: "ledger \<Rightarrow> bytes option \<Rightarrow> rpc_error + proto_account" where
  "grpc_GetAccount l request =
     (case request of
        None \<Rightarrow> Inl (InvalidArgument, Msg ''nil request'')
      | Some reqId \<Rightarrow>
          (case bytesToID reqId of
             Inl e \<Rightarrow> Inl (InvalidArgument, MsgErr ''invalid account id: '' e)
           | Inr accID \<Rightarrow>
               (case GetAccount l accID of
                  (_, Some e) \<Rightarrow>
                    Inl (case e of
                           ErrAccountNotFound _ \<Rightarrow> (NotFound, MsgErr ''account not found: '' (ledgerText e))
                         | _ \<Rightarrow> (Internal, MsgErr ''failed to get account: '' (ledgerText e)))
                | (acc, None) \<Rightarrow>
                    (case coreAccountToProto acc of
                       Inl e \<Rightarrow> Inl (Internal, MsgErr '''' (ledgerText e))
                     | Inr protoAcc \<Rightarrow> Inr protoAcc))))"

text \<open>\<open>item i rest\<close> is the message \<^verbatim>\<open>what i rest\<close> about the item at position \<open>i\<close>.\<close>

definition item_msg :: "string \<Rightarrow> nat \<Rightarrow> string \<Rightarrow> string" where
  "item_msg what i rest = what @ '' '' @ dec_string i @ rest"

fun parse_account_items :: "nat \<Rightarrow> create_account_request option list \<Rightarrow> rpc_error + account list" where
  "parse_account_items i [] = Inr []"
| "parse_account_items i (None # reqs) = Inl (InvalidArgument, Msg (item_msg ''account'' i '' is nil''))"
| "parse_account_items i (Some pa # reqs) =
     (case bytesToID (ca_Id pa) of
        Inl e \<Rightarrow> Inl (InvalidArgument, MsgErr (item_msg ''account'' i '': invalid id: '') e)
      | Inr accID \<Rightarrow>
          (case parse_account_items (Suc i) reqs of
             Inl e \<Rightarrow> Inl e
           | Inr batch \<Rightarrow> Inr (proto_to_account accID pa # batch)))"

definition account_result_of :: "accountOutcome \<Rightarrow> account_result" where
  "account_result_of out =
     (case aout_Err out of
        Some e \<Rightarrow> \<lparr>ares_Ok = False, ares_Account = None, ares_Error = MsgErr '''' (EngineText (EngineErr e))\<rparr>
      | None \<Rightarrow>
          (case coreAccountToProto (aout_Account out) of
             Inl e \<Rightarrow> \<lparr>ares_Ok = False, ares_Account = None, ares_Error = MsgErr '''' (ledgerText e)\<rparr>
           | Inr protoAcc \<Rightarrow> \<lparr>ares_Ok = True, ares_Account = Some protoAcc, ares_Error = Msg ''''\<rparr>))"

definition grpc_CreateAccounts :: "ledger \<Rightarrow> create_account_request option list \<Rightarrow> ledger \<times> (rpc_error + account_result list)" where
  "grpc_CreateAccounts l reqs =
     (if reqs = [] then (l, Inl (InvalidArgument, Msg ''empty account batch''))
      else
        (case parse_account_items 0 reqs of
           Inl e \<Rightarrow> (l, Inl e)
         | Inr batch \<Rightarrow>
             (case CreateAccounts l batch of
                (l', Inl e) \<Rightarrow>
                  (l', Inl (case e of
                              LedgerErr ErrNotLeader \<Rightarrow> (Unavailable, MsgErr '''' (EngineText (EngineErr e)))
                            | LedgerErr (ErrBatchTooLarge _ _) \<Rightarrow> (InvalidArgument, MsgErr '''' (EngineText (EngineErr e)))
                            | _ \<Rightarrow> (Internal, MsgErr ''account batch failed: '' (EngineText (EngineErr e)))))
              | (l', Inr outcomes) \<Rightarrow> (l', Inr (map account_result_of outcomes)))))"

subsection \<open>Transfers\<close>

definition proto_to_transfer :: "bytes option \<Rightarrow> ident \<Rightarrow> ident \<Rightarrow> ident \<Rightarrow> uint128 \<Rightarrow> proto_transfer \<Rightarrow> transfer" where
  "proto_to_transfer ctxKey trID debitID creditID amount req =
     transfer0\<lparr>tr_ID := trID, DebitAccountID := debitID, CreditAccountID := creditID, Amount := Uint128 (Lo amount) (Hi amount),
       IdempotencyKey := request_key ctxKey (pt_IdempotencyKey req), tr_Flags := pt_Flags req, Timeout := pt_Timeout req,
       tr_Ledger := pt_Ledger req, tr_Code := ucast (pt_Code req),
       tr_UserData128 := (if length (pt_UserData128 req) > 0 then copy_into 16 (pt_UserData128 req) else zeros 16)\<rparr>"

text \<open>The parts of a transfer request; \<open>what\<close> is the prefix of the messages, \<open>idName\<close> and \<open>noAmount\<close> the
  wordings in which the unary and the batch handler differ.\<close>

definition parse_proto_transfer :: "bytes option \<Rightarrow> string \<Rightarrow> string \<Rightarrow> string \<Rightarrow> proto_transfer \<Rightarrow> rpc_error + transfer" where
  "parse_proto_transfer ctxKey what idName noAmount req =
     (case bytesToID (pt_Id req) of
        Inl e \<Rightarrow> Inl (InvalidArgument, MsgErr (what @ idName) e)
      | Inr trID \<Rightarrow>
          (case bytesToID (pt_DebitAccountId req) of
             Inl e \<Rightarrow> Inl (InvalidArgument, MsgErr (what @ ''invalid debit account id: '') e)
           | Inr debitID \<Rightarrow>
               (case bytesToID (pt_CreditAccountId req) of
                  Inl e \<Rightarrow> Inl (InvalidArgument, MsgErr (what @ ''invalid credit account id: '') e)
                | Inr creditID \<Rightarrow>
                    (case pt_Amount req of
                       None \<Rightarrow> Inl (InvalidArgument, Msg (what @ noAmount))
                     | Some amount \<Rightarrow> Inr (proto_to_transfer ctxKey trID debitID creditID amount req)))))"

definition grpc_CreateTransfer :: "call_env \<Rightarrow> bytes option \<Rightarrow> ledger \<Rightarrow> proto_transfer option \<Rightarrow> (ledger \<times> (rpc_error + proto_transfer)) option" where
  "grpc_CreateTransfer env ctxKey l request =
     (case request of
        None \<Rightarrow> Some (l, Inl (InvalidArgument, Msg ''nil request''))
      | Some req \<Rightarrow>
          (case parse_proto_transfer ctxKey '''' ''invalid transfer id: '' ''missing transfer amount'' req of
             Inl e \<Rightarrow> Some (l, Inl e)
           | Inr tr \<Rightarrow>
               map_option (\<lambda>(l', r). (l', case r of Inl e \<Rightarrow> Inl (transferErrorStatus e) | Inr res \<Rightarrow> Inr (coreTransferToProto res)))
                 (CreateTransfer env l tr)))"

fun parse_transfer_items :: "bytes option \<Rightarrow> nat \<Rightarrow> proto_transfer option list \<Rightarrow> rpc_error + transfer list" where
  "parse_transfer_items ctxKey i [] = Inr []"
| "parse_transfer_items ctxKey i (None # reqs) = Inl (InvalidArgument, Msg (item_msg ''transfer'' i '' is nil''))"
| "parse_transfer_items ctxKey i (Some pt # reqs) =
     (case parse_proto_transfer ctxKey (item_msg ''transfer'' i '': '') ''invalid id: '' ''missing amount'' pt of
        Inl e \<Rightarrow> Inl e
      | Inr tr \<Rightarrow>
          (case parse_transfer_items ctxKey (Suc i) reqs of
             Inl e \<Rightarrow> Inl e
           | Inr batch \<Rightarrow> Inr (tr # batch)))"

definition transfer_result_of :: "transferOutcome \<Rightarrow> transfer_result" where
  "transfer_result_of out =
     (case out_Err out of
        Some e \<Rightarrow> \<lparr>res_Ok = False, res_Transfer = None, res_Error = snd (transferErrorStatus e)\<rparr>
      | None \<Rightarrow> \<lparr>res_Ok = True, res_Transfer = Some (coreTransferToProto (out_Transfer out)), res_Error = Msg ''''\<rparr>)"

definition grpc_CreateTransfers :: "call_env \<Rightarrow> bytes option \<Rightarrow> ledger \<Rightarrow> proto_transfer option list \<Rightarrow> (ledger \<times> (rpc_error + transfer_result list)) option" where
  "grpc_CreateTransfers env ctxKey l reqs =
     (if reqs = [] then Some (l, Inl (InvalidArgument, Msg ''empty transfer batch''))
      else
        (case parse_transfer_items ctxKey 0 reqs of
           Inl e \<Rightarrow> Some (l, Inl e)
         | Inr batch \<Rightarrow>
             map_option
               (\<lambda>(l', r). (l', case r of
                   Inl e \<Rightarrow>
                     Inl (case e of
                            EngineErr (LedgerErr ErrNotLeader) \<Rightarrow> (Unavailable, MsgErr '''' (EngineText e))
                          | EngineErr (LedgerErr (ErrBatchTooLarge _ _)) \<Rightarrow> (InvalidArgument, MsgErr '''' (EngineText e))
                          | _ \<Rightarrow> (Internal, MsgErr ''batch execution failed: '' (EngineText e)))
                 | Inr outcomes \<Rightarrow> Inr (map transfer_result_of outcomes)))
               (CreateTransfers env l batch)))"

definition grpc_GetTransfer :: "ledger \<Rightarrow> bytes option \<Rightarrow> rpc_error + proto_transfer" where
  "grpc_GetTransfer l request =
     (case request of
        None \<Rightarrow> Inl (InvalidArgument, Msg ''nil request'')
      | Some reqId \<Rightarrow>
          (case bytesToID reqId of
             Inl e \<Rightarrow> Inl (InvalidArgument, MsgErr ''invalid transfer id: '' e)
           | Inr trID \<Rightarrow>
               (case ledger_GetTransfer l trID of
                  Inl e \<Rightarrow>
                    Inl (case e of
                           ErrTransferNotFound _ \<Rightarrow> (NotFound, MsgErr ''transfer not found: '' (ledgerText e))
                         | _ \<Rightarrow> (Internal, MsgErr ''failed to get transfer: '' (ledgerText e)))
                | Inr tr \<Rightarrow> Inr (coreTransferToProto tr))))"

record get_account_transfers_request =
  gt_AccountId :: bytes
  gt_AfterId :: bytes
  gt_Limit :: u32

definition grpc_GetAccountTransfers :: "ledger \<Rightarrow> get_account_transfers_request option \<Rightarrow> rpc_error + proto_transfer list" where
  "grpc_GetAccountTransfers l request =
     (case request of
        None \<Rightarrow> Inl (InvalidArgument, Msg ''nil request'')
      | Some req \<Rightarrow>
          (case bytesToID (gt_AccountId req) of
             Inl e \<Rightarrow> Inl (InvalidArgument, MsgErr ''invalid account id: '' e)
           | Inr accID \<Rightarrow>
               (case (if length (gt_AfterId req) > 0 then bytesToID (gt_AfterId req) else Inr (zeros 16)) of
                  Inl e \<Rightarrow> Inl (InvalidArgument, MsgErr ''invalid after_id: '' e)
                | Inr afterID \<Rightarrow>
                    let limit = (if (uint (gt_Limit req) :: int) \<le> 0 then 50 else uint (gt_Limit req))
                    in Inr (map coreTransferToProto (GetAccountTransfers l accID afterID limit)))))"

subsection \<open>Array lengths\<close>

lemma length_str_bytes [simp]: "length (str_bytes s) = length s"
  by (simp add: str_bytes_def)

lemma length_copy_into [simp]: "length (copy_into n b) = n"
  by (simp add: copy_into_def)

lemma copy_into_full [simp]: "length b = n \<Longrightarrow> copy_into n b = b"
  by (simp add: copy_into_def copy_at_def)

lemma bytesToID_Inr_iff: "bytesToID b = Inr i \<longleftrightarrow> length b = 16 \<and> i = b"
  by (auto simp: bytesToID_def)

lemma length_request_key: "(\<And>c. ctxKey = Some c \<Longrightarrow> length c = 32) \<Longrightarrow> length (request_key ctxKey k) = 32"
  by (auto simp: request_key_def split: option.split)

lemma length_interceptor_key: "IdempotencyUnaryInterceptor md = Some k \<Longrightarrow> length k = 32"
  by (auto simp: IdempotencyUnaryInterceptor_def key_of_bytes_def Let_def split: option.splits list.splits if_splits)

lemma lower_idempotency_key: "md_Get md ''Idempotency-Key'' = md_Get md ''idempotency-key''"
  unfolding md_Get_def by (rule arg_cong [of _ _ md]) code_simp

end
