(* ===== verification/Rest_Api.thy ===== *)
theory Rest_Api
  imports Grpc_Api
begin

text \<open>
  The HTTP surface (\<^verbatim>\<open>internal/api/rest.go\<close>). A request holds the method, the path, the query and header
  values by name (\<^verbatim>\<open>Get\<close> returns the empty string for a missing one) and what decoding the JSON body
  as each of the four request types gives, \<open>None\<close> for an error. A response is the status code and the
  payload handed to the JSON encoder. As on the other surface the text of an error is the error value.
\<close>

subsection \<open>Hexadecimal strings\<close>

text \<open>\<^verbatim>\<open>hex.DecodeString\<close>: digits of either case; an odd last digit is reported after a bad one.\<close>

definition hex_value :: "char \<Rightarrow> byte option" where
  "hex_value c =
     (let n = (of_char c :: nat)
      in if 48 \<le> n \<and> n \<le> 57 then Some (of_nat (n - 48))
         else if 97 \<le> n \<and> n \<le> 102 then Some (of_nat (n - 87))
         else if 65 \<le> n \<and> n \<le> 70 then Some (of_nat (n - 55))
         else None)"

fun hex_DecodeString :: "string \<Rightarrow> api_error + bytes" where
  "hex_DecodeString [] = Inr []"
| "hex_DecodeString [c] = (if hex_value c = None then Inl (HexInvalidByte c) else Inl HexLength)"
| "hex_DecodeString (c # d # cs) =
     (case hex_value c of
        None \<Rightarrow> Inl (HexInvalidByte c)
      | Some a \<Rightarrow>
          (case hex_value d of
             None \<Rightarrow> Inl (HexInvalidByte d)
           | Some b \<Rightarrow>
               (case hex_DecodeString cs of
                  Inl e \<Rightarrow> Inl e
                | Inr bs \<Rightarrow> Inr ((push_bit 4 a OR b) # bs))))"

text \<open>\<^verbatim>\<open>hex.EncodeToString\<close> and the format \<^verbatim>\<open>%x\<close>.\<close>

definition hex_digit :: "nat \<Rightarrow> char" where
  "hex_digit n = ''0123456789abcdef'' ! n"

definition hex_EncodeToString :: "bytes \<Rightarrow> string" where
  "hex_EncodeToString bs = concat (map (\<lambda>b. [hex_digit (unat b div 16), hex_digit (unat b mod 16)]) bs)"

definition TrimPrefix :: "string \<Rightarrow> string \<Rightarrow> string" where
  "TrimPrefix p s = (if take (length p) s = p then drop (length p) s else s)"

definition HasSuffix :: "string \<Rightarrow> string \<Rightarrow> bool" where
  "HasSuffix p s \<longleftrightarrow> length p \<le> length s \<and> drop (length s - length p) s = p"

definition TrimSuffix :: "string \<Rightarrow> string \<Rightarrow> string" where
  "TrimSuffix p s = (if HasSuffix p s then take (length s - length p) s else s)"

definition TrimRight0 :: "string \<Rightarrow> string" where
  "TrimRight0 s = rev (dropWhile (\<lambda>c. c = CHR 0x00) (rev s))"

definition parseHexID :: "string \<Rightarrow> api_error + ident" where
  "parseHexID s =
     (case hex_DecodeString (TrimPrefix ''0x'' s) of
        Inl e \<Rightarrow> Inl e
      | Inr b \<Rightarrow> if length b \<noteq> 16 then Inl IDSize else Inr (copy_into 16 b))"

definition parseUserData :: "string \<Rightarrow> bytes" where
  "parseUserData s =
     (let clean = TrimPrefix ''0x'' s
      in if length clean = 32
         then (case hex_DecodeString clean of
                 Inr decoded \<Rightarrow> if length decoded = 16 then copy_into 16 decoded else copy_into 16 (str_bytes s)
               | Inl _ \<Rightarrow> copy_into 16 (str_bytes s))
         else copy_into 16 (str_bytes s))"

definition formatUserData :: "bytes \<Rightarrow> string" where
  "formatUserData b = (if b = zeros 16 then '''' else hex_EncodeToString b)"

subsection \<open>Requests and responses\<close>

record createAccountReq =
  car_ID :: string
  car_Currency :: string
  car_InitialCredits :: string
  car_Ledger :: u32
  car_Code :: u16
  car_UserData128 :: string
  car_Flags :: u32

record accountResp =
  ar_ID :: string
  ar_Currency :: string
  ar_PostedDebits :: string
  ar_PostedCredits :: string
  ar_PendingDebits :: string
  ar_PendingCredits :: string
  ar_Balance :: string
  ar_AvailableBalance :: string
  ar_Ledger :: u32
  ar_Code :: u16
  ar_UserData128 :: string
  ar_Flags :: u32

record createTransferReq =
  ctr_ID :: string
  ctr_DebitAccountID :: string
  ctr_CreditAccountID :: string
  ctr_Amount :: string
  ctr_IdempotencyKey :: string
  ctr_Flags :: u32
  ctr_Timeout :: u64
  ctr_Ledger :: u32
  ctr_Code :: u16
  ctr_UserData128 :: string

record transferResp =
  trr_ID :: string
  trr_DebitAccountID :: string
  trr_CreditAccountID :: string
  trr_Amount :: string
  trr_IdempotencyKey :: string
  trr_Flags :: u32
  trr_Timeout :: u64
  trr_CreatedAt :: i64
  trr_Ledger :: u32
  trr_Code :: u16
  trr_UserData128 :: string

record transferResultJSON =
  trj_Index :: nat
  trj_OK :: bool
  trj_Transfer :: "transferResp option"
  trj_Error :: message

record accountResultJSON =
  arj_Index :: nat
  arj_OK :: bool
  arj_Account :: "accountResp option"
  arj_Error :: message

record json_body =
  as_account :: "createAccountReq option"
  as_accounts :: "createAccountReq list option"
  as_transfer :: "createTransferReq option"
  as_transfers :: "createTransferReq list option"

record http_request =
  Method :: string
  URLPath :: string
  Query :: "string \<Rightarrow> string"
  Header :: "string \<Rightarrow> string"
  Body :: json_body

datatype payload = ErrorBody message | StatusBody string | TextBody string | AccountBody accountResp | TransferBody transferResp
  | TransfersBody "transferResp list" | TransferResults "transferResultJSON list" | AccountResults "accountResultJSON list"

type_synonym http_response = "nat \<times> payload"

definition writeJSON :: "nat \<Rightarrow> payload \<Rightarrow> http_response" where
  "writeJSON status p = (status, p)"

definition writeError :: "nat \<Rightarrow> message \<Rightarrow> http_response" where
  "writeError status msg = writeJSON status (ErrorBody msg)"

definition formatTransferResp :: "transfer \<Rightarrow> transferResp" where
  "formatTransferResp t =
     \<lparr>trr_ID = hex_EncodeToString (tr_ID t), trr_DebitAccountID = hex_EncodeToString (DebitAccountID t),
      trr_CreditAccountID = hex_EncodeToString (CreditAccountID t), trr_Amount = String (Amount t),
      trr_IdempotencyKey = hex_EncodeToString (IdempotencyKey t), trr_Flags = tr_Flags t, trr_Timeout = Timeout t,
      trr_CreatedAt = Timestamp t, trr_Ledger = tr_Ledger t, trr_Code = tr_Code t, trr_UserData128 = formatUserData (tr_UserData128 t)\<rparr>"

definition formatAccountResp :: "account \<Rightarrow> ledger_error + accountResp" where
  "formatAccountResp a =
     (case Balance a of
        Inl e \<Rightarrow> Inl e
      | Inr bal \<Rightarrow>
          (case AvailableBalance a of
             Inl e \<Rightarrow> Inl e
           | Inr avail \<Rightarrow>
               Inr \<lparr>ar_ID = hex_EncodeToString (acc_ID a), ar_Currency = TrimRight0 (bytes_str (acc_Currency a)),
                    ar_PostedDebits = String (PostedDebits a), ar_PostedCredits = String (PostedCredits a),
                    ar_PendingDebits = String (PendingDebits a), ar_PendingCredits = String (PendingCredits a),
                    ar_Balance = String bal, ar_AvailableBalance = String avail, ar_Ledger = acc_Ledger a, ar_Code = acc_Code a,
                    ar_UserData128 = formatUserData (acc_UserData128 a), ar_Flags = acc_Flags a\<rparr>))"

subsection \<open>Health\<close>

definition handleHealthz :: "http_request \<Rightarrow> http_response" where
  "handleHealthz r = writeJSON 200 (StatusBody ''UP'')"

text \<open>\<open>readiness\<close> is the override of \<^verbatim>\<open>WithReadiness\<close>.\<close>

definition handleReadyz :: "bool option \<Rightarrow> ledger \<Rightarrow> http_request \<Rightarrow> http_response" where
  "handleReadyz readiness l r =
     (let ready = (case readiness of None \<Rightarrow> Ready l | Some b \<Rightarrow> b)
      in if \<not> ready then writeJSON 503 (StatusBody ''NOT_READY'') else writeJSON 200 (StatusBody ''READY''))"

subsection \<open>Accounts\<close>

text \<open>The account of a request, built the same way by the single and the batch endpoint.\<close>

definition req_account :: "ident \<Rightarrow> uint128 \<Rightarrow> createAccountReq \<Rightarrow> account" where
  "req_account accID initialCredits req =
     account0\<lparr>acc_ID := accID, acc_Currency := copy_into 4 (str_bytes (car_Currency req)), PostedCredits := initialCredits,
       acc_Ledger := car_Ledger req, acc_Code := car_Code req,
       acc_UserData128 := (if car_UserData128 req \<noteq> '''' then parseUserData (car_UserData128 req) else zeros 16),
       acc_Flags := car_Flags req\<rparr>"

definition initial_credits :: "string \<Rightarrow> uint128_error + uint128" where
  "initial_credits s = (if s \<noteq> '''' then FromString s else Inr u128_zero)"

definition parse_account_req :: "string \<Rightarrow> string \<Rightarrow> createAccountReq \<Rightarrow> message + account" where
  "parse_account_req idMsg creditsMsg req =
     (case parseHexID (car_ID req) of
        Inl e \<Rightarrow> Inl (MsgErr idMsg e)
      | Inr accID \<Rightarrow>
          (case initial_credits (car_InitialCredits req) of
             Inl e \<Rightarrow> Inl (MsgErr creditsMsg (AmountText e))
           | Inr ic \<Rightarrow> Inr (req_account accID ic req)))"

definition handleAccounts :: "ledger \<Rightarrow> http_request \<Rightarrow> ledger \<times> http_response" where
  "handleAccounts l r =
     (if Method r \<noteq> ''POST'' then (l, writeError 405 (Msg ''method not allowed''))
      else
        (case as_account (Body r) of
           None \<Rightarrow> (l, writeError 400 (Msg ''invalid json body''))
         | Some req \<Rightarrow>
             (case parse_account_req ''invalid account id: '' ''invalid initial_credits: '' req of
                Inl msg \<Rightarrow> (l, writeError 400 msg)
              | Inr acc \<Rightarrow>
                  (case CreateAccount l acc of
                     (l', Inl e) \<Rightarrow>
                       (l', case e of
                              LedgerErr ErrNotLeader \<Rightarrow> writeError 503 (MsgErr '''' (EngineText (EngineErr e)))
                            | LedgerErr (ErrDuplicateAccountID _) \<Rightarrow> writeError 409 (Msg ''account already exists'')
                            | _ \<Rightarrow> writeError 500 (MsgErr '''' (EngineText (EngineErr e))))
                   | (l', Inr acc') \<Rightarrow>
                       (l', case formatAccountResp acc' of
                              Inl e \<Rightarrow> writeError 500 (MsgErr '''' (ledgerText e))
                            | Inr resp \<Rightarrow> writeJSON 201 (AccountBody resp))))))"

fun parse_account_reqs :: "nat \<Rightarrow> createAccountReq list \<Rightarrow> message + account list" where
  "parse_account_reqs i [] = Inr []"
| "parse_account_reqs i (req # reqs) =
     (case parse_account_req (item_msg ''account'' i '': invalid id: '') (item_msg ''account'' i '': invalid initial_credits: '') req of
        Inl msg \<Rightarrow> Inl msg
      | Inr acc \<Rightarrow> (case parse_account_reqs (Suc i) reqs of Inl msg \<Rightarrow> Inl msg | Inr batch \<Rightarrow> Inr (acc # batch)))"

text \<open>An account that was created but cannot be formatted keeps \<^verbatim>\<open>ok\<close> set beside its error.\<close>

definition account_json :: "nat \<Rightarrow> accountOutcome \<Rightarrow> accountResultJSON" where
  "account_json i out =
     (case aout_Err out of
        Some e \<Rightarrow> \<lparr>arj_Index = i, arj_OK = False, arj_Account = None, arj_Error = MsgErr '''' (EngineText (EngineErr e))\<rparr>
      | None \<Rightarrow>
          (case formatAccountResp (aout_Account out) of
             Inl e \<Rightarrow> \<lparr>arj_Index = i, arj_OK = True, arj_Account = None, arj_Error = MsgErr '''' (ledgerText e)\<rparr>
           | Inr resp \<Rightarrow> \<lparr>arj_Index = i, arj_OK = True, arj_Account = Some resp, arj_Error = Msg ''''\<rparr>))"

definition too_large :: "nat \<Rightarrow> nat \<Rightarrow> message" where
  "too_large n m = Msg (''batch too large: '' @ dec_string n @ '' items exceeds maximum of '' @ dec_string m)"

definition handleBatchAccounts :: "ledger \<Rightarrow> http_request \<Rightarrow> ledger \<times> http_response" where
  "handleBatchAccounts l r =
     (if Method r \<noteq> ''POST'' then (l, writeError 405 (Msg ''method not allowed''))
      else
        (case as_accounts (Body r) of
           None \<Rightarrow> (l, writeError 400 (Msg ''invalid json body''))
         | Some reqs \<Rightarrow>
             if length reqs = 0 then (l, writeError 400 (Msg ''empty account batch''))
             else if length reqs > MaxAccountBatchSize then (l, writeError 400 (too_large (length reqs) MaxAccountBatchSize))
             else
               (case parse_account_reqs 0 reqs of
                  Inl msg \<Rightarrow> (l, writeError 400 msg)
                | Inr batch \<Rightarrow>
                    (case CreateAccounts l batch of
                       (l', Inl e) \<Rightarrow>
                         (l', if e = LedgerErr ErrNotLeader then writeError 503 (MsgErr '''' (EngineText (EngineErr e)))
                              else writeError 500 (MsgErr '''' (EngineText (EngineErr e))))
                     | (l', Inr outcomes) \<Rightarrow> (l', writeJSON 200 (AccountResults (map2 account_json [0..<length outcomes] outcomes)))))))"

subsection \<open>Transfers\<close>

text \<open>The transfer of a request; \<open>keyText\<close> is the text the idempotency key is the hash of.\<close>

definition req_transfer :: "ident \<Rightarrow> ident \<Rightarrow> ident \<Rightarrow> uint128 \<Rightarrow> string \<Rightarrow> createTransferReq \<Rightarrow> transfer" where
  "req_transfer trID debitID creditID amount keyText req =
     transfer0\<lparr>tr_ID := trID, DebitAccountID := debitID, CreditAccountID := creditID, Amount := amount,
       IdempotencyKey := (if keyText \<noteq> '''' then Sum256 (str_bytes keyText) else noKey),
       tr_Flags := ctr_Flags req, Timeout := ctr_Timeout req, tr_Ledger := ctr_Ledger req, tr_Code := ctr_Code req,
       tr_UserData128 := (if ctr_UserData128 req \<noteq> '''' then parseUserData (ctr_UserData128 req) else zeros 16)\<rparr>"

definition parse_create_transfer :: "http_request \<Rightarrow> createTransferReq \<Rightarrow> message + transfer" where
  "parse_create_transfer r req =
     (case parseHexID (ctr_ID req) of
        Inl e \<Rightarrow> Inl (Msg ''invalid transfer id'')
      | Inr trID \<Rightarrow>
          (case parseHexID (ctr_DebitAccountID req) of
             Inl e \<Rightarrow> Inl (Msg ''invalid debit account id'')
           | Inr debitID \<Rightarrow>
               (case parseHexID (ctr_CreditAccountID req) of
                  Inl e \<Rightarrow> Inl (Msg ''invalid credit account id'')
                | Inr creditID \<Rightarrow>
                    (case (if ctr_Amount req \<noteq> '''' then FromString (ctr_Amount req) else Inr u128_zero) of
                       Inl e \<Rightarrow> Inl (Msg ''invalid amount'')
                     | Inr amount \<Rightarrow>
                         let idempHeader = (if Header r ''Idempotency-Key'' = '''' then ctr_IdempotencyKey req else Header r ''Idempotency-Key'')
                         in Inr (req_transfer trID debitID creditID amount idempHeader req)))))"

fun transfer_status :: "client_error \<Rightarrow> nat" where
  "transfer_status (EngineErr (LedgerErr e)) =
     (case e of
        ErrNotLeader \<Rightarrow> 503
      | ErrZeroAmount \<Rightarrow> 400
      | ErrSelfTransfer i \<Rightarrow> if i = zeros 16 then 400 else 500
      | ErrPendingNotFound i \<Rightarrow> 404
      | ErrInvalidTransferFlags f \<Rightarrow> 400
      | ErrOverTransfer i a b \<Rightarrow> 422
      | ErrAccountNotFound i \<Rightarrow> 404
      | ErrInsufficientFunds i a b \<Rightarrow> 422
      | ErrLedgerMismatch a b c \<Rightarrow> 400
      | ErrLinkedChainFailed i n r \<Rightarrow> 422
      | ErrLinkedChainOpen i n \<Rightarrow> 400
      | ErrDuplicateTransferID i \<Rightarrow> 409
      | _ \<Rightarrow> 500)"
| "transfer_status (EngineErr (WalErr e)) = 500"
| "transfer_status ContextDone = 500"

definition handleCreateTransfer :: "call_env \<Rightarrow> ledger \<Rightarrow> http_request \<Rightarrow> (ledger \<times> http_response) option" where
  "handleCreateTransfer env l r =
     (if Method r \<noteq> ''POST'' then Some (l, writeError 405 (Msg ''method not allowed''))
      else
        (case as_transfer (Body r) of
           None \<Rightarrow> Some (l, writeError 400 (Msg ''invalid json body''))
         | Some req \<Rightarrow>
             (case parse_create_transfer r req of
                Inl msg \<Rightarrow> Some (l, writeError 400 msg)
              | Inr tr \<Rightarrow>
                  map_option (\<lambda>(l', res). (l', case res of
                      Inl e \<Rightarrow> writeError (transfer_status e) (MsgErr '''' (EngineText e))
                    | Inr t \<Rightarrow> writeJSON 201 (TransferBody (formatTransferResp t)))) (CreateTransfer env l tr))))"

definition parseTransferReq :: "createTransferReq \<Rightarrow> (string \<times> api_error) + transfer" where
  "parseTransferReq req =
     (case parseHexID (ctr_ID req) of
        Inl e \<Rightarrow> Inl (''invalid transfer id: '', e)
      | Inr trID \<Rightarrow>
          (case parseHexID (ctr_DebitAccountID req) of
             Inl e \<Rightarrow> Inl (''invalid debit account id: '', e)
           | Inr debitID \<Rightarrow>
               (case parseHexID (ctr_CreditAccountID req) of
                  Inl e \<Rightarrow> Inl (''invalid credit account id: '', e)
                | Inr creditID \<Rightarrow>
                    (case FromString (ctr_Amount req) of
                       Inl e \<Rightarrow> Inl (''invalid amount: '', AmountText e)
                     | Inr amount \<Rightarrow> Inr (req_transfer trID debitID creditID amount (ctr_IdempotencyKey req) req)))))"

fun parse_transfer_reqs :: "nat \<Rightarrow> createTransferReq list \<Rightarrow> message + transfer list" where
  "parse_transfer_reqs i [] = Inr []"
| "parse_transfer_reqs i (req # reqs) =
     (case parseTransferReq req of
        Inl (msg, e) \<Rightarrow> Inl (MsgErr (item_msg ''transfer'' i ('': '' @ msg)) e)
      | Inr tr \<Rightarrow> (case parse_transfer_reqs (Suc i) reqs of Inl msg \<Rightarrow> Inl msg | Inr batch \<Rightarrow> Inr (tr # batch)))"

definition transfer_json :: "nat \<Rightarrow> transferOutcome \<Rightarrow> transferResultJSON" where
  "transfer_json i out =
     (case out_Err out of
        Some e \<Rightarrow> \<lparr>trj_Index = i, trj_OK = False, trj_Transfer = None, trj_Error = MsgErr '''' (EngineText e)\<rparr>
      | None \<Rightarrow> \<lparr>trj_Index = i, trj_OK = True, trj_Transfer = Some (formatTransferResp (out_Transfer out)), trj_Error = Msg ''''\<rparr>)"

definition handleBatchTransfers :: "call_env \<Rightarrow> ledger \<Rightarrow> http_request \<Rightarrow> (ledger \<times> http_response) option" where
  "handleBatchTransfers env l r =
     (if Method r \<noteq> ''POST'' then Some (l, writeError 405 (Msg ''method not allowed''))
      else
        (case as_transfers (Body r) of
           None \<Rightarrow> Some (l, writeError 400 (Msg ''invalid json body''))
         | Some reqs \<Rightarrow>
             if length reqs = 0 then Some (l, writeError 400 (Msg ''empty transfer batch''))
             else if length reqs > MaxTransferBatchSize then Some (l, writeError 400 (too_large (length reqs) MaxTransferBatchSize))
             else
               (case parse_transfer_reqs 0 reqs of
                  Inl msg \<Rightarrow> Some (l, writeError 400 msg)
                | Inr batch \<Rightarrow>
                    map_option (\<lambda>(l', res). (l', case res of
                        Inl e \<Rightarrow> writeError (if e = EngineErr (LedgerErr ErrNotLeader) then 503 else 500) (MsgErr '''' (EngineText e))
                      | Inr outcomes \<Rightarrow> writeJSON 200 (TransferResults (map2 transfer_json [0..<length outcomes] outcomes))))
                      (CreateTransfers env l batch))))"

subsection \<open>Queries\<close>

definition handleGetAccountTransfers :: "ledger \<Rightarrow> http_request \<Rightarrow> ident \<Rightarrow> http_response" where
  "handleGetAccountTransfers l r accID =
     (case (if Query r ''after'' \<noteq> '''' then parseHexID (Query r ''after'') else Inr (zeros 16)) of
        Inl e \<Rightarrow> writeError 400 (Msg ''invalid after cursor id'')
      | Inr afterID \<Rightarrow>
          let limitStr = Query r ''limit'';
              limit = (if limitStr \<noteq> '''' then (case ParseInt limitStr of Some n \<Rightarrow> if n > 0 then n else 50 | None \<Rightarrow> 50) else 50)
          in writeJSON 200 (TransfersBody (map formatTransferResp (GetAccountTransfers l accID afterID limit))))"

definition handleGetAccount :: "ledger \<Rightarrow> http_request \<Rightarrow> http_response" where
  "handleGetAccount l r =
     (if Method r \<noteq> ''GET'' then writeError 405 (Msg ''method not allowed'')
      else
        let idStr = TrimPrefix ''/v1/accounts/'' (URLPath r)
        in if idStr = '''' then writeError 400 (Msg ''missing account id'')
           else if HasSuffix ''/transfers'' idStr
           then
             (case parseHexID (TrimSuffix ''/transfers'' idStr) of
                Inl e \<Rightarrow> writeError 400 (Msg ''invalid account id'')
              | Inr accID \<Rightarrow> handleGetAccountTransfers l r accID)
           else
             (case parseHexID idStr of
                Inl e \<Rightarrow> writeError 400 (Msg ''invalid account id'')
              | Inr accID \<Rightarrow>
                  (case GetAccount l accID of
                     (_, Some e) \<Rightarrow>
                       (case e of
                          ErrAccountNotFound _ \<Rightarrow> writeError 404 (Msg ''account not found'')
                        | _ \<Rightarrow> writeError 500 (MsgErr '''' (ledgerText e)))
                   | (acc, None) \<Rightarrow>
                       (case formatAccountResp acc of
                          Inl e \<Rightarrow> writeError 500 (MsgErr '''' (ledgerText e))
                        | Inr resp \<Rightarrow> writeJSON 200 (AccountBody resp)))))"

definition handleGetTransfer :: "ledger \<Rightarrow> http_request \<Rightarrow> http_response" where
  "handleGetTransfer l r =
     (if Method r \<noteq> ''GET'' then writeError 405 (Msg ''method not allowed'')
      else
        let idStr = TrimPrefix ''/v1/transfers/'' (URLPath r)
        in if idStr = '''' then writeError 400 (Msg ''missing transfer id'')
           else
             (case parseHexID idStr of
                Inl e \<Rightarrow> writeError 400 (Msg ''invalid transfer id'')
              | Inr trID \<Rightarrow>
                  (case ledger_GetTransfer l trID of
                     Inl e \<Rightarrow>
                       (case e of
                          ErrTransferNotFound _ \<Rightarrow> writeError 404 (Msg ''transfer not found'')
                        | _ \<Rightarrow> writeError 500 (MsgErr '''' (ledgerText e)))
                   | Inr tr \<Rightarrow> writeJSON 200 (TransferBody (formatTransferResp tr)))))"

subsection \<open>Routes\<close>

text \<open>The patterns of \<^verbatim>\<open>registerRoutes\<close> on a clean path: an exact pattern before a subtree.\<close>

definition ServeHTTP :: "call_env \<Rightarrow> bool option \<Rightarrow> ledger \<Rightarrow> http_request \<Rightarrow> (ledger \<times> http_response) option" where
  "ServeHTTP env readiness l r =
     (if URLPath r = ''/healthz'' then Some (l, handleHealthz r)
      else if URLPath r = ''/readyz'' then Some (l, handleReadyz readiness l r)
      else if URLPath r = ''/v1/accounts'' then Some (handleAccounts l r)
      else if URLPath r = ''/v1/accounts/batch'' then Some (handleBatchAccounts l r)
      else if take 13 (URLPath r) = ''/v1/accounts/'' then Some (l, handleGetAccount l r)
      else if URLPath r = ''/v1/transfers'' then handleCreateTransfer env l r
      else if URLPath r = ''/v1/transfers/batch'' then handleBatchTransfers env l r
      else if take 14 (URLPath r) = ''/v1/transfers/'' then Some (l, handleGetTransfer l r)
      else Some (l, (404, TextBody ''404 page not found'')))"

subsection \<open>Round trips\<close>

lemma hex_value_digit: "n < 16 \<Longrightarrow> hex_value (hex_digit n) = Some (of_nat n)"
proof -
  have "\<forall>n\<in>set [0..<16]. hex_value (hex_digit n) = Some (of_nat n)" by code_simp
  then show "n < 16 \<Longrightarrow> hex_value (hex_digit n) = Some (of_nat n)" by simp
qed

lemma hex_digit_not_x: "n < 16 \<Longrightarrow> hex_digit n \<noteq> CHR ''x''"
proof
  assume "n < 16" "hex_digit n = CHR ''x''"
  with hex_value_digit [of n] show False by (simp add: hex_value_def)
qed

lemma nibbles: "push_bit 4 (of_nat (unat b div 16)) OR of_nat (unat b mod 16) = (b :: byte)"
proof -
  have "(of_nat (unat b div 16) :: byte) = drop_bit 4 b" by (simp add: drop_bit_eq_div word_arith_nat_div)
  moreover have "(of_nat (unat b mod 16) :: byte) = take_bit 4 b" by (simp add: take_bit_eq_mod word_arith_nat_mod)
  moreover have "push_bit 4 (drop_bit 4 b) OR take_bit 4 b = b" by (rule bit_word_eqI) (auto simp: bit_simps)
  ultimately show ?thesis by simp
qed

lemma unat_nibble: "unat (b :: byte) div 16 < 16" "unat (b :: byte) mod 16 < 16"
  using unsigned_less [of b, where 'a = nat] by (simp_all add: less_mult_imp_div_less)

lemma hex_EncodeToString_simps [simp]:
  "hex_EncodeToString [] = []"
  "hex_EncodeToString (b # bs) = hex_digit (unat b div 16) # hex_digit (unat b mod 16) # hex_EncodeToString bs"
  by (simp_all add: hex_EncodeToString_def)

lemma hex_roundtrip: "hex_DecodeString (hex_EncodeToString bs) = Inr bs"
  by (induction bs) (simp_all add: hex_value_digit [OF unat_nibble(1)] hex_value_digit [OF unat_nibble(2)] nibbles)

lemma length_hex [simp]: "length (hex_EncodeToString bs) = 2 * length bs"
  by (induction bs) simp_all

lemma TrimPrefix_hex: "TrimPrefix ''0x'' (hex_EncodeToString bs) = hex_EncodeToString bs"
  by (cases bs) (simp_all add: TrimPrefix_def hex_digit_not_x [OF unat_nibble(2)])

lemma parseHexID_hex:
  assumes "length i = 16"
  shows "parseHexID (hex_EncodeToString i) = Inr i" "parseHexID (''0x'' @ hex_EncodeToString i) = Inr i"
proof -
  have "TrimPrefix ''0x'' (''0x'' @ hex_EncodeToString i) = hex_EncodeToString i" by (simp add: TrimPrefix_def)
  with assms show "parseHexID (hex_EncodeToString i) = Inr i" "parseHexID (''0x'' @ hex_EncodeToString i) = Inr i"
    by (simp_all only: parseHexID_def TrimPrefix_hex hex_roundtrip) simp_all
qed

lemma length_parseHexID: "parseHexID s = Inr i \<Longrightarrow> length i = 16"
  by (auto simp: parseHexID_def split: sum.splits if_splits)

lemma length_parseUserData [simp]: "length (parseUserData s) = 16"
  by (simp add: parseUserData_def Let_def split: sum.split)

lemma userData_roundtrip:
  assumes "length b = 16"
  shows "(if formatUserData b \<noteq> '''' then parseUserData (formatUserData b) else zeros 16) = b"
proof (cases "b = zeros 16")
  case False
  have "hex_EncodeToString b \<noteq> []" using assms by (cases b) simp_all
  with False assms show ?thesis by (simp add: formatUserData_def parseUserData_def TrimPrefix_hex hex_roundtrip Let_def)
qed (simp add: formatUserData_def)

text \<open>The decoder accepts exactly the encoder's texts, in either case.\<close>

lemma of_char_hex_digit: "n < 16 \<Longrightarrow> (of_char (hex_digit n) :: nat) = (if n < 10 then 48 + n else 87 + n)"
proof -
  have "\<forall>n\<in>set [0..<16]. (of_char (hex_digit n) :: nat) = (if n < 10 then 48 + n else 87 + n)" by code_simp
  then show "n < 16 \<Longrightarrow> ?thesis" by simp
qed

lemma of_char_lower: "(of_char (lower_char c) :: nat) = (if 65 \<le> (of_char c :: nat) \<and> (of_char c :: nat) \<le> 90 then of_char c + 32 else of_char c)"
  by (simp add: lower_char_def)

lemma byte_of_nat: "m < 16 \<Longrightarrow> (of_nat m = (v :: byte)) = (unat v = m)"
  by (auto simp: unat_of_nat take_bit_nat_eq_self)

lemma hex_value_iff: "hex_value c = Some v \<longleftrightarrow> unat v < 16 \<and> lower_char c = hex_digit (unat v)"
proof -
  define n where "n = (of_char c :: nat)"
  have r: "lower_char c = hex_digit (unat v) \<longleftrightarrow> (of_char (lower_char c) :: nat) = of_char (hex_digit (unat v))" by simp
  have b: "(of_nat (n - k) = v) = (unat v = n - k)" if "n - k < 16" for k using byte_of_nat [OF that] .
  have l: "hex_value c = Some v \<longleftrightarrow> 48 \<le> n \<and> n \<le> 57 \<and> unat v = n - 48 \<or> 97 \<le> n \<and> n \<le> 102 \<and> unat v = n - 87 \<or> 65 \<le> n \<and> n \<le> 70 \<and> unat v = n - 55"
    unfolding hex_value_def n_def [symmetric] Let_def using b [of 48] b [of 87] b [of 55] by (auto simp del: of_nat_diff)
  show ?thesis
  proof (cases "unat v < 16")
    case True
    then show ?thesis unfolding l r of_char_hex_digit [OF True] of_char_lower n_def [symmetric] by (simp split: if_split) presburger
  qed (auto simp: l)
qed

lemma hex_byte:
  assumes "unat (a :: byte) < 16" "unat b < 16"
  shows "unat (push_bit 4 a OR b) = 16 * unat a + unat b"
proof -
  let ?x = "of_nat (16 * unat a + unat b) :: byte"
  have x: "unat ?x = 16 * unat a + unat b" using assms by (simp add: unat_of_nat take_bit_nat_eq_self del: of_nat_add of_nat_mult)
  have "unat ?x div 16 = unat a" "unat ?x mod 16 = unat b" unfolding x using assms(2) by simp_all
  with nibbles [of ?x] x show ?thesis by simp
qed

lemma hex_DecodeString_iff: "hex_DecodeString s = Inr bs \<longleftrightarrow> map lower_char s = hex_EncodeToString bs"
proof (induction s arbitrary: bs rule: hex_DecodeString.induct)
  case 1 show ?case by (cases bs) auto
next
  case (2 c) show ?case by (cases bs) auto
next
  case (3 c d cs)
  have "hex_DecodeString (c # d # cs) = Inr bs \<longleftrightarrow>
      (\<exists>a b bs'. hex_value c = Some a \<and> hex_value d = Some b \<and> hex_DecodeString cs = Inr bs' \<and> bs = (push_bit 4 a OR b) # bs')"
    by (auto split: option.splits sum.splits)
  also have "\<dots> \<longleftrightarrow> (\<exists>a b bs'. hex_value c = Some a \<and> hex_value d = Some b \<and> map lower_char cs = hex_EncodeToString bs' \<and> bs = (push_bit 4 a OR b) # bs')"
    using 3 by blast
  also have "\<dots> \<longleftrightarrow> map lower_char (c # d # cs) = hex_EncodeToString bs" (is "?l \<longleftrightarrow> ?r")
  proof
    assume ?l
    then show ?r by (auto simp: hex_value_iff hex_byte)
  next
    assume ?r
    then obtain x bs' where "bs = x # bs'" "lower_char c = hex_digit (unat x div 16)" "lower_char d = hex_digit (unat x mod 16)"
      "map lower_char cs = hex_EncodeToString bs'" by (cases bs) auto
    with nibbles [of x] byte_of_nat [OF unat_nibble(1), of x] byte_of_nat [OF unat_nibble(2), of x] unat_nibble [of x]
    show ?l by (intro exI [of _ "of_nat (unat x div 16)"] exI [of _ "of_nat (unat x mod 16)"] exI [of _ bs']) (simp add: hex_value_iff unat_of_nat take_bit_nat_eq_self)
  qed
  finally show ?case .
qed

subsection \<open>Properties\<close>

lemma fresh_account_valid: "PostedDebits a = u128_zero \<Longrightarrow> ValidateAccount a = None"
  using Balance_Inr_iff [of a "PostedCredits a"] by (simp add: ValidateAccount_def)

lemma parsed_account_wf: "parse_account_req idMsg creditsMsg req = Inr a \<Longrightarrow> wf_account a \<and> ValidateAccount a = None"
  by (auto simp: parse_account_req_def req_account_def wf_account_def account0_def fresh_account_valid dest: length_parseHexID split: sum.splits)

text \<open>What the texts of a request denote. An identifier is given by exactly its 32 hexadecimal digits, in either case
  and with at most one prefix \<^verbatim>\<open>0x\<close>; an amount by decimal digits; user data by 32 hexadecimal digits, or else by
  its first 16 bytes.\<close>

definition hex_of :: "string \<Rightarrow> ident \<Rightarrow> bool" where
  "hex_of s i \<longleftrightarrow> length i = 16 \<and> map lower_char (TrimPrefix ''0x'' s) = hex_EncodeToString i"

definition decimal_of :: "string \<Rightarrow> uint128 \<Rightarrow> bool" where
  "decimal_of s a \<longleftrightarrow> s \<noteq> [] \<and> (\<forall>c\<in>set s. is_digit c) \<and> val a = dec_value 0 s"

definition user_data_of :: "string \<Rightarrow> bytes \<Rightarrow> bool" where
  "user_data_of s b \<longleftrightarrow> (if \<exists>h. hex_of s h then hex_of s b else b = take 16 (str_bytes s) @ zeros (16 - length s))"

definition key_of_text :: "string \<Rightarrow> bytes" where
  "key_of_text k = (if k = '''' then noKey else Sum256 (str_bytes k))"

lemma parseHexID_iff: "parseHexID s = Inr i \<longleftrightarrow> hex_of s i"
  by (auto simp: parseHexID_def hex_of_def hex_DecodeString_iff [symmetric] split: sum.splits if_splits)

lemma FromString_iff: "FromString s = Inr a \<longleftrightarrow> decimal_of s a"
  by (simp add: FromString_Inr_iff decimal_of_def)

lemma copy_into_eq: "copy_into n b = take n b @ zeros (n - length b)"
  by (simp add: copy_into_def copy_at_def min_def)

lemma user_data_iff: "user_data_of s b \<longleftrightarrow> b = (if s \<noteq> '''' then parseUserData s else zeros 16)"
proof (cases "\<exists>h. hex_of s h")
  case True
  then obtain h where h: "hex_of s h" ..
  then have d: "hex_DecodeString (TrimPrefix ''0x'' s) = Inr h" "length h = 16" by (simp_all add: hex_of_def hex_DecodeString_iff)
  have "length (TrimPrefix ''0x'' s) = 2 * length h" using h by (metis hex_of_def length_hex length_map)
  then have "s \<noteq> ''''" "parseUserData s = h" using d by (auto simp: parseUserData_def TrimPrefix_def split: if_splits)
  moreover have "hex_of s b \<longleftrightarrow> b = h" using h d(1) by (auto simp: hex_of_def hex_DecodeString_iff [symmetric])
  ultimately show ?thesis using True by (simp add: user_data_of_def)
next
  case False
  have "parseUserData s = copy_into 16 (str_bytes s)"
    using False by (auto simp: parseUserData_def hex_of_def Let_def hex_DecodeString_iff [symmetric] split: sum.split)
  with False show ?thesis by (auto simp: user_data_of_def copy_into_eq str_bytes_def)
qed

text \<open>The transfer a JSON request with the key text \<open>k\<close> describes, apart from the amount.\<close>

definition reads_transfer :: "createTransferReq \<Rightarrow> string \<Rightarrow> transfer \<Rightarrow> bool" where
  "reads_transfer req k t \<longleftrightarrow>
     hex_of (ctr_ID req) (tr_ID t) \<and> hex_of (ctr_DebitAccountID req) (DebitAccountID t) \<and> hex_of (ctr_CreditAccountID req) (CreditAccountID t) \<and>
     IdempotencyKey t = key_of_text k \<and> tr_Flags t = ctr_Flags req \<and> Timeout t = ctr_Timeout req \<and> tr_Ledger t = ctr_Ledger req \<and>
     tr_Code t = ctr_Code req \<and> user_data_of (ctr_UserData128 req) (tr_UserData128 t) \<and> Timestamp t = 0"

lemma req_transfer_iff:
  "t = req_transfer i d c a k req \<longleftrightarrow>
     tr_ID t = i \<and> DebitAccountID t = d \<and> CreditAccountID t = c \<and> Amount t = a \<and> IdempotencyKey t = key_of_text k \<and>
     tr_Flags t = ctr_Flags req \<and> Timeout t = ctr_Timeout req \<and> tr_Ledger t = ctr_Ledger req \<and>
     tr_Code t = ctr_Code req \<and> user_data_of (ctr_UserData128 req) (tr_UserData128 t) \<and> Timestamp t = 0"
  unfolding user_data_iff by (cases t) (auto simp: req_transfer_def transfer0_def key_of_text_def)

lemma reads_transfer_iff:
  "(\<exists>i d c. hex_of (ctr_ID req) i \<and> hex_of (ctr_DebitAccountID req) d \<and> hex_of (ctr_CreditAccountID req) c \<and> t = req_transfer i d c a k req) \<longleftrightarrow>
   reads_transfer req k t \<and> Amount t = a"
  unfolding req_transfer_iff reads_transfer_def by auto

lemma req_account_iff:
  "a = req_account i c req \<longleftrightarrow> acc_ID a = i \<and> PostedCredits a = c \<and> PostedDebits a = u128_zero \<and> PendingDebits a = u128_zero \<and>
     PendingCredits a = u128_zero \<and> acc_Currency a = take 4 (str_bytes (car_Currency req)) @ zeros (4 - length (car_Currency req)) \<and>
     acc_Ledger a = car_Ledger req \<and> acc_Code a = car_Code req \<and> acc_Flags a = car_Flags req \<and>
     user_data_of (car_UserData128 req) (acc_UserData128 a)"
  unfolding user_data_iff by (cases a) (auto simp: req_account_def account0_def copy_into_eq)

lemma proto_to_transfer_iff:
  "t = proto_to_transfer ctxKey i d c x req \<longleftrightarrow> tr_ID t = i \<and> DebitAccountID t = d \<and> CreditAccountID t = c \<and> Amount t = x \<and>
     IdempotencyKey t = request_key ctxKey (pt_IdempotencyKey req) \<and>
     tr_Flags t = pt_Flags req \<and> Timeout t = pt_Timeout req \<and> tr_Ledger t = pt_Ledger req \<and> tr_Code t = ucast (pt_Code req) \<and>
     tr_UserData128 t = take 16 (pt_UserData128 req) @ zeros (16 - length (pt_UserData128 req)) \<and> Timestamp t = 0"
  by (cases t) (auto simp: proto_to_transfer_def transfer0_def copy_into_eq)


text \<open>The request a client sends to have the transfer of a response created again.\<close>

definition resubmit :: "transferResp \<Rightarrow> createTransferReq" where
  "resubmit t = \<lparr>ctr_ID = trr_ID t, ctr_DebitAccountID = trr_DebitAccountID t, ctr_CreditAccountID = trr_CreditAccountID t, ctr_Amount = trr_Amount t,
     ctr_IdempotencyKey = trr_IdempotencyKey t, ctr_Flags = trr_Flags t, ctr_Timeout = trr_Timeout t, ctr_Ledger = trr_Ledger t, ctr_Code = trr_Code t,
     ctr_UserData128 = trr_UserData128 t\<rparr>"

lemma req_transfer_again:
  assumes "length (tr_UserData128 t) = 16"
  shows "req_transfer (tr_ID t) (DebitAccountID t) (CreditAccountID t) (Amount t) k ((resubmit (formatTransferResp t))\<lparr>ctr_IdempotencyKey := k'\<rparr>) =
    t\<lparr>Timestamp := 0, IdempotencyKey := (if k \<noteq> [] then Sum256 (str_bytes k) else noKey)\<rparr>"
  using userData_roundtrip [OF assms]
  by (cases t) (auto simp: req_transfer_def resubmit_def formatTransferResp_def transfer0_def split: if_splits)

lemma String_nonempty: "String a \<noteq> []"
  by (simp add: String_def dec_string_nonempty)

lemma hex_nonempty: "0 < length bs \<Longrightarrow> hex_EncodeToString bs \<noteq> []"
  by (cases bs) simp_all

text \<open>C40: the JSON form of a transfer is lossless. The response for any transfer, sent back as a request, is read as the
  same transfer: identifiers, the 128-bit amount, flags, timeout and user data survive. The timestamp is dropped,
  and the key becomes the hash of the printed key, because a key that is sent is always hashed.\<close>

theorem transfer_json_roundtrip:
  assumes "wf_transfer t"
  shows "parseTransferReq (resubmit (formatTransferResp t)) =
    Inr (t\<lparr>Timestamp := 0, IdempotencyKey := Sum256 (str_bytes (hex_EncodeToString (IdempotencyKey t)))\<rparr>)"
proof -
  have len: "length (tr_ID t) = 16" "length (DebitAccountID t) = 16" "length (CreditAccountID t) = 16" "length (IdempotencyKey t) = 32" "length (tr_UserData128 t) = 16"
    using assms by (simp_all add: wf_transfer_def)
  have "hex_EncodeToString (IdempotencyKey t) \<noteq> []" using hex_nonempty [of "IdempotencyKey t"] len(4) by simp
  with len req_transfer_again [OF len(5), of "hex_EncodeToString (IdempotencyKey t)" "hex_EncodeToString (IdempotencyKey t)"] show ?thesis
    by (simp add: parseTransferReq_def resubmit_def formatTransferResp_def parseHexID_hex FromString_String)
qed

theorem transfer_json_roundtrip_witness:
  "parseTransferReq (resubmit (formatTransferResp (sample_transfer 7 1 2 30 0))) =
    Inr ((sample_transfer 7 1 2 30 0)\<lparr>Timestamp := 0, IdempotencyKey := Sum256 (str_bytes (hex_EncodeToString (zeros 32)))\<rparr>)"
proof -
  have "wf_transfer (sample_transfer 7 1 2 30 0)" "IdempotencyKey (sample_transfer 7 1 2 30 0) = zeros 32"
    by (simp_all add: wf_transfer_def sample_transfer_def transfer0_def ident_of_def)
  with transfer_json_roundtrip [of "sample_transfer 7 1 2 30 0"] show ?thesis by simp
qed

subsection \<open>Both surfaces\<close>

text \<open>The correspondence in which the two surfaces are compared: the HTTP status whose meaning is that of a gRPC
  code. No table of the program relates the two; \<^verbatim>\<open>rest.go\<close> and \<^verbatim>\<open>server.go\<close> map each error on their own.\<close>

fun http_of_code :: "code \<Rightarrow> nat" where
  "http_of_code InvalidArgument = 400"
| "http_of_code NotFound = 404"
| "http_of_code AlreadyExists = 409"
| "http_of_code FailedPrecondition = 422"
| "http_of_code Aborted = 422"
| "http_of_code Unavailable = 503"
| "http_of_code Internal = 500"

text \<open>The same transfer with the same key text, as a client of either surface sends it.\<close>

definition rest_request :: "string \<Rightarrow> transfer \<Rightarrow> createTransferReq" where
  "rest_request k t = (resubmit (formatTransferResp t))\<lparr>ctr_IdempotencyKey := k\<rparr>"

definition grpc_request :: "string \<Rightarrow> transfer \<Rightarrow> proto_transfer" where
  "grpc_request k t = (coreTransferToProto t)\<lparr>pt_IdempotencyKey := str_bytes k\<rparr>"

lemma rest_request_parses:
  assumes "wf_transfer t" and "k \<noteq> ''''" and "Header r ''Idempotency-Key'' = ''''"
  shows "parse_create_transfer r (rest_request k t) = Inr (t\<lparr>Timestamp := 0, IdempotencyKey := Sum256 (str_bytes k)\<rparr>)"
proof -
  have len: "length (tr_ID t) = 16" "length (DebitAccountID t) = 16" "length (CreditAccountID t) = 16" "length (tr_UserData128 t) = 16"
    using assms by (simp_all add: wf_transfer_def)
  with assms(2,3) req_transfer_again [OF len(4), of k k] show ?thesis
    by (simp add: parse_create_transfer_def rest_request_def resubmit_def formatTransferResp_def parseHexID_hex FromString_String String_nonempty)
qed

lemma grpc_request_parses:
  assumes "wf_transfer t" and "k \<noteq> ''''"
  shows "parse_proto_transfer ctxKey what idName noAmount (grpc_request k t) =
    Inr (t\<lparr>Timestamp := 0, IdempotencyKey := (if length k = 32 then str_bytes k else Sum256 (str_bytes k))\<rparr>)"
proof -
  have len: "length (tr_ID t) = 16" "length (DebitAccountID t) = 16" "length (CreditAccountID t) = 16" "length (tr_UserData128 t) = 16"
    using assms by (simp_all add: wf_transfer_def)
  have "ucast (ucast (tr_Code t) :: u32) = tr_Code t" by (simp add: ucast_up_ucast_id is_up)
  with len assms(2) show ?thesis
    by (simp add: parse_proto_transfer_def grpc_request_def coreTransferToProto_def bytesToID_def proto_to_transfer_def request_key_def transfer0_def
        flip: length_greater_0_conv)
qed

text \<open>C23: the two surfaces agree. The same request reaches the engine as the same transfer, with one
  exception: a key of exactly 32 bytes is taken as it is by gRPC and hashed by HTTP. And every error
  \<^verbatim>\<open>CreateTransfer\<close> returns is reported with corresponding codes.\<close>

theorem surfaces_agree:
  assumes "wf_transfer t" and "k \<noteq> ''''" and "Header r ''Idempotency-Key'' = ''''" and "\<And>i. e \<noteq> EngineErr (LedgerErr (ErrTransferNotFound i))"
  shows "parse_create_transfer r (rest_request k t) = Inr (t\<lparr>Timestamp := 0, IdempotencyKey := Sum256 (str_bytes k)\<rparr>) \<and>
    parse_proto_transfer ctxKey what idName noAmount (grpc_request k t) =
      Inr (t\<lparr>Timestamp := 0, IdempotencyKey := (if length k = 32 then str_bytes k else Sum256 (str_bytes k))\<rparr>) \<and>
    transfer_status e = http_of_code (transferErrorCode e)"
proof -
  have "transfer_status e = http_of_code (transferErrorCode e)"
    using assms(4) by (cases e rule: transfer_status.cases) (auto split: ledger_error.split)
  with rest_request_parses [OF assms(1-3)] grpc_request_parses [OF assms(1,2)] show ?thesis by blast
qed

theorem surfaces_agree_witness:
  "transfer_status (EngineErr (LedgerErr (ErrLinkedChainOpen (ident_of 1) 0))) = http_of_code InvalidArgument \<and>
   projr (parse_proto_transfer None [] [] [] (grpc_request ''key-1'' (sample_transfer 7 1 2 30 0))) =
     projr (parse_create_transfer \<lparr>Method = ''POST'', URLPath = ''/v1/transfers'', Query = (\<lambda>_. ''''), Header = (\<lambda>_. ''''),
       Body = \<lparr>as_account = None, as_accounts = None, as_transfer = None, as_transfers = None\<rparr>\<rparr> (rest_request ''key-1'' (sample_transfer 7 1 2 30 0)))"
proof -
  have wf: "wf_transfer (sample_transfer 7 1 2 30 0)" by (simp add: wf_transfer_def sample_transfer_def transfer0_def ident_of_def)
  show ?thesis
    using surfaces_agree [OF wf, of "''key-1''" "\<lparr>Method = ''POST'', URLPath = ''/v1/transfers'', Query = (\<lambda>_. ''''), Header = (\<lambda>_. ''''),
       Body = \<lparr>as_account = None, as_accounts = None, as_transfer = None, as_transfers = None\<rparr>\<rparr>" "EngineErr (LedgerErr (ErrLinkedChainOpen (ident_of 1) 0))" None "[]" "[]" "[]"]
    by simp
qed

subsection \<open>Creating and reading an account\<close>

lemma created_is_read:
  assumes "CreateAccount l a = (l', Inr a')"
  shows "a' = a \<and> GetAccount l' (acc_ID a) = (a, None)"
proof -
  let ?m = "el_accounts (ld_loop l)"
  obtain loop' rs where pc: "processAccountCreate (ld_loop l) [a] = (loop', rs)" by (metis surj_pair)
  have lead: "\<not> ld_isFollower l" using assms by (auto simp: CreateAccount_def split: if_splits)
  have ca: "CreateAccounts l [a] = (l\<lparr>ld_loop := loop'\<rparr>, Inr (map2 (\<lambda>a r. \<lparr>aout_Account = a, aout_Err = r\<rparr>) [a] rs))"
    using lead pc by (simp add: CreateAccounts_def)
  have "\<exists>r recs. scan_creates ?m [a] [] = ([r], recs) \<and> (r = None) = (recs \<noteq> [])"
    by (cases "ValidateAccount a"; cases "Get ?m (acc_ID a)") (simp_all add: Let_def)
  then obtain r recs where sc: "scan_creates ?m [a] [] = ([r], recs)" "(r = None) = (recs \<noteq> [])" by blast
  have "length rs = 1"
    using pc sc by (cases r) (auto simp: processAccountCreate_def Let_def split: sum.splits prod.splits)
  then obtain x where rs: "rs = [x]" by (cases rs) auto
  then have x: "x = None" "a' = a" "l' = l\<lparr>ld_loop := loop'\<rparr>"
    using assms lead ca by (auto simp: CreateAccount_def split: option.splits)
  have "r = None" using pc sc rs x(1) by (cases r) (auto simp: processAccountCreate_def)
  with sc have ne: "recs \<noteq> []" by simp
  then obtain w y where ap: "AppendBatch (el_wal (ld_loop l)) recs = (w, Inr y)"
    using pc sc(1) \<open>r = None\<close> rs x(1) by (cases "AppendBatch (el_wal (ld_loop l)) recs" rule: prod.exhaust [case_names P]; cases "snd (AppendBatch (el_wal (ld_loop l)) recs)")
      (auto simp: processAccountCreate_def)
  have "el_accounts loop' = fst (Create ?m a)" "snd (Create ?m a) = None"
    using pc sc(1) \<open>r = None\<close> rs x(1) ne ap by (auto simp: processAccountCreate_def Let_def split: prod.splits)
  then have "index (el_accounts loop') (acc_ID a) = Some (length (accounts ?m))" "accounts (el_accounts loop') = accounts ?m @ [a]"
    by (auto simp: Create_def Let_def split: option.splits)
  then show ?thesis by (simp add: x GetAccount_def handleRead_def Get_def)
qed

lemma hex_no_slash: "CHR ''/'' \<notin> set (hex_EncodeToString bs)"
proof -
  have d: "CHR ''/'' \<noteq> hex_digit n" if "n < 16" for n
  proof
    assume "CHR ''/'' = hex_digit n"
    then have "hex_value CHR ''/'' = Some (of_nat n)" using hex_value_digit [OF that] by (simp only:)
    then show False by (simp add: hex_value_def)
  qed
  show ?thesis by (induction bs) (simp_all add: d [OF unat_nibble(1)] d [OF unat_nibble(2)])
qed

lemma hex_not_transfers: "\<not> HasSuffix ''/transfers'' (hex_EncodeToString bs)"
proof
  assume "HasSuffix ''/transfers'' (hex_EncodeToString bs)"
  then obtain s where "hex_EncodeToString bs = s @ ''/transfers''" unfolding HasSuffix_def by (metis append_take_drop_id)
  then have "CHR ''/'' \<in> set (hex_EncodeToString bs)" by simp
  with hex_no_slash show False by simp
qed

definition get_request :: "string \<Rightarrow> http_request" where
  "get_request path = \<lparr>Method = ''GET'', URLPath = path, Query = (\<lambda>_. ''''), Header = (\<lambda>_. ''''),
     Body = \<lparr>as_account = None, as_accounts = None, as_transfer = None, as_transfers = None\<rparr>\<rparr>"

lemma get_account_route:
  assumes "length i = 16"
  shows "ServeHTTP env readiness l (get_request (''/v1/accounts/'' @ hex_EncodeToString i)) =
    Some (l, case GetAccount l i of
               (_, Some e) \<Rightarrow> (case e of ErrAccountNotFound _ \<Rightarrow> writeError 404 (Msg ''account not found'') | _ \<Rightarrow> writeError 500 (MsgErr '''' (ledgerText e)))
             | (acc, None) \<Rightarrow> (case formatAccountResp acc of Inl e \<Rightarrow> writeError 500 (MsgErr '''' (ledgerText e)) | Inr resp \<Rightarrow> writeJSON 200 (AccountBody resp)))"
proof -
  have len: "length (hex_EncodeToString i) = 32" using assms by simp
  have "hex_EncodeToString i \<noteq> ''batch''"
  proof
    assume "hex_EncodeToString i = ''batch''"
    then have "length (hex_EncodeToString i) = 5" by (simp only:) simp
    with len show False by simp
  qed
  moreover have "hex_EncodeToString i \<noteq> []" using hex_nonempty [of i] assms by simp
  ultimately show ?thesis
    by (simp add: ServeHTTP_def get_request_def handleGetAccount_def TrimPrefix_def [of "''/v1/accounts/''"] hex_not_transfers parseHexID_hex [OF assms])
qed

text \<open>C22: an account that was created can be read back. When \<^verbatim>\<open>POST /v1/accounts\<close> answers with status 201, a
  \<^verbatim>\<open>GET\<close> with the identifier in its response is answered with status 200 and exactly the same body, and the gRPC
  call for the same account returns the same amounts.\<close>

theorem created_account_is_readable:
  assumes "ServeHTTP env readiness l r = Some (l', (201, AccountBody resp))"
  shows "ServeHTTP env' readiness' l' (get_request (''/v1/accounts/'' @ ar_ID resp)) = Some (l', (200, AccountBody resp)) \<and>
    (\<exists>i p. ar_ID resp = hex_EncodeToString i \<and> grpc_GetAccount l' (Some i) = Inr p \<and>
      String (pa_PostedCredits p) = ar_PostedCredits resp \<and> String (pa_Balance p) = ar_Balance resp \<and> String (pa_AvailableBalance p) = ar_AvailableBalance resp)"
proof -
  have "handleAccounts l r = (l', (201, AccountBody resp))"
    using assms by (auto simp: ServeHTTP_def handleHealthz_def handleReadyz_def handleBatchAccounts_def handleGetAccount_def handleGetAccountTransfers_def
        handleCreateTransfer_def handleBatchTransfers_def handleGetTransfer_def writeJSON_def writeError_def Let_def
        split: if_splits option.splits sum.splits prod.splits ledger_error.splits) (metis sumE)+
  then obtain req a where a: "parse_account_req ''invalid account id: '' ''invalid initial_credits: '' req = Inr a" "CreateAccount l a = (l', Inr a)" "formatAccountResp a = Inr resp"
    by (auto simp: handleAccounts_def writeError_def writeJSON_def dest: created_is_read
        split: if_splits option.splits sum.splits prod.splits engine_error.splits ledger_error.splits)
  have len: "length (acc_ID a) = 16" using a(1) length_parseHexID by (auto simp: parse_account_req_def req_account_def split: sum.splits)
  have id: "ar_ID resp = hex_EncodeToString (acc_ID a)" using a(3) by (auto simp: formatAccountResp_def split: sum.splits)
  have read: "GetAccount l' (acc_ID a) = (a, None)" using created_is_read [OF a(2)] by simp
  have "ServeHTTP env' readiness' l' (get_request (''/v1/accounts/'' @ ar_ID resp)) = Some (l', (200, AccountBody resp))"
    unfolding id get_account_route [OF len] using read a(3) by (simp add: writeJSON_def)
  moreover have "\<exists>p. grpc_GetAccount l' (Some (acc_ID a)) = Inr p \<and>
      String (pa_PostedCredits p) = ar_PostedCredits resp \<and> String (pa_Balance p) = ar_Balance resp \<and> String (pa_AvailableBalance p) = ar_AvailableBalance resp"
    using read a(3) len by (auto simp: grpc_GetAccount_def bytesToID_def coreAccountToProto_def formatAccountResp_def split: sum.splits)
  ultimately show ?thesis using id by blast
qed

lemma account_is_created:
  assumes "runs (ld_loop l) bs" and "room (ld_loop l) 1" and "\<not> ld_isFollower l"
    and "wf_account a" and "ValidateAccount a = None" and "index (el_accounts (ld_loop l)) (acc_ID a) = None"
  shows "\<exists>l'. CreateAccount l a = (l', Inr a)"
proof -
  let ?m = "el_accounts (ld_loop l)"
  have "Get ?m (acc_ID a) = Inl (ErrAccountNotFound (acc_ID a))" using assms(6) by (simp add: Get_def)
  then obtain recs where sc: "scan_creates ?m [a] [] = ([None], recs)" "recs \<noteq> []" using assms(5) by (simp add: Let_def)
  have "run_inv (ld_loop l) bs" by (rule runs_inv [OF assms(1)])
  then have "appendable (el_wal (ld_loop l)) recs"
    using creates_step(1) [of "ld_loop l" bs "[a]"] assms(2,4) sc by (simp add: create_log_def del: scan_creates.simps)
  moreover have "wal_reach (el_wal (ld_loop l)) bs (length bs)" using \<open>run_inv (ld_loop l) bs\<close> by (simp add: run_inv_def)
  ultimately obtain w x where "AppendBatch (el_wal (ld_loop l)) recs = (w, Inr x)" using append_synced by metis
  with sc assms(3,6) show ?thesis
    by (simp add: CreateAccount_def CreateAccounts_def processAccountCreate_def Create_def Let_def del: scan_creates.simps split: prod.split)
qed

definition idle_ledger :: ledger where
  "idle_ledger = sample_ledger\<lparr>ld_loop := sample_loop\<rparr>"

definition account_request :: "byte \<Rightarrow> http_request" where
  "account_request b = (get_request ''/v1/accounts'')\<lparr>Method := ''POST'', Body := \<lparr>as_account = Some \<lparr>car_ID = hex_EncodeToString (ident_of b), car_Currency = ''EUR'',
     car_InitialCredits = ''100'', car_Ledger = 1, car_Code = 0, car_UserData128 = '''', car_Flags = 0\<rparr>, as_accounts = None, as_transfer = None, as_transfers = None\<rparr>\<rparr>"

theorem created_account_is_readable_witness:
  "\<exists>l' resp. ServeHTTP (served_alone 5 (\<lambda>_. 5) 10) None idle_ledger (account_request 3) = Some (l', (201, AccountBody resp)) \<and>
    ServeHTTP (served_alone 6 (\<lambda>_. 6) 10) None l' (get_request (''/v1/accounts/'' @ ar_ID resp)) = Some (l', (200, AccountBody resp))"
proof -
  let ?req = "the (as_account (Body (account_request 3)))"
  have len: "length (ident_of 3) = 16" by (simp add: ident_of_def)
  have amount: "FromString ''100'' = Inr (FromUint64 100)" by code_simp
  let ?a = "req_account (ident_of 3) (FromUint64 100) ?req"
  have parse: "parse_account_req x y ?req = Inr ?a" for x y
    using parseHexID_hex(1) [OF len] amount by (simp add: parse_account_req_def account_request_def initial_credits_def)
  have loop: "ld_loop idle_ledger = sample_loop" "\<not> ld_isFollower idle_ledger" by (simp_all add: idle_ledger_def sample_ledger_def)
  have "wf_account ?a" "ValidateAccount ?a = None" using parse parsed_account_wf by blast+
  moreover have "room sample_loop 1" by (simp add: room_def)
  moreover have "index (el_accounts sample_loop) (acc_ID ?a) = None" by (simp add: NewAccountManager_def)
  ultimately obtain l' where l': "CreateAccount idle_ledger ?a = (l', Inr ?a)"
    using account_is_created [of idle_ledger "[]" ?a] runs.start [of 1000, folded sample_loop_def] loop by auto
  obtain resp where resp: "formatAccountResp ?a = Inr resp"
    using Balance_Inr_iff [of ?a "FromUint64 100"] AvailableBalance_Inr_iff [of ?a "FromUint64 100"]
    by (simp add: formatAccountResp_def) (simp add: req_account_def account0_def)
  have post: "ServeHTTP (served_alone 5 (\<lambda>_. 5) 10) None idle_ledger (account_request 3) = Some (l', (201, AccountBody resp))"
    using parse l' resp by (simp add: ServeHTTP_def handleAccounts_def) (simp add: account_request_def get_request_def writeJSON_def)
  with created_account_is_readable [OF post, of "served_alone 6 (\<lambda>_. 6) 10" None] show ?thesis by blast
qed

subsection \<open>Retries over HTTP\<close>

lemma post_transfer:
  assumes "Method r = ''POST''" and "URLPath r = ''/v1/transfers''" and "as_transfer (Body r) = Some req" and "parse_create_transfer r req = Inr t"
  shows "ServeHTTP env readiness l r = map_option (\<lambda>(l', res). (l', case res of
      Inl e \<Rightarrow> writeError (transfer_status e) (MsgErr '''' (EngineText e))
    | Inr t \<Rightarrow> writeJSON 201 (TransferBody (formatTransferResp t)))) (CreateTransfer env l t)"
  using assms by (simp add: ServeHTTP_def handleCreateTransfer_def)

lemma transfer_status_not_201: "transfer_status e \<noteq> 201"
  by (cases e rule: transfer_status.cases) (auto split: ledger_error.split)

text \<open>C21: a transfer posted over HTTP is executed at most once while its key is remembered. Once a request with a
  fresh idempotency key, served on an otherwise idle ledger whose store has room beside the keys in use, was
  answered with status 201, the store holds the result under the key, to expire one time to live after that
  request. As long as some later state of the ledger still holds this entry (it was neither evicted in favour
  of other keys nor replaced) and it has not expired, every request with the same key, whatever else it says and
  whatever else the ledger is doing, is answered at once with exactly the same response, and neither the accounts
  nor the log nor the queue change.\<close>

theorem http_retry_is_answered:
  assumes "\<not> ld_isFollower l" and "ring_queue (ld_rb l) []" and "ring_room (ld_rb l)" and "0 < n" and "n < 9223372036854775808"
    and "Method r = ''POST''" and "URLPath r = ''/v1/transfers''" and "as_transfer (Body r) = Some req" and "parse_create_transfer r req = Inr t"
    and "IdempotencyKey t \<noteq> noKey" and "idstore_ok (ld_idempKey l)" and "lookup (ld_idempKey l) (IdempotencyKey t) = None"
    and "int (open_others (nows 0) (ld_idempKey l) (IdempotencyKey t)) < is_maxSize (ld_idempKey l)"
    and "ServeHTTP (served_alone now nows n) readiness l r = Some (l1, (201, bdy))"
  shows "\<not> ld_isFollower l1 \<and> idstore_ok (ld_idempKey l1) \<and>
    (\<exists>x. lookup (ld_idempKey l1) (IdempotencyKey t) = Some x \<and> it_expires x = nows 0 + is_ttl (ld_idempKey l) \<and>
      (\<forall>l2 env now' stopped later readiness' r' req' t'.
         \<not> ld_isFollower l2 \<and> idstore_ok (ld_idempKey l2) \<and> lookup (ld_idempKey l2) (IdempotencyKey t) = Some x \<and>
         ce_attempts env 0 (ld_idempKey l2) = (ld_idempKey l2, now', stopped) # later \<and> now' < it_expires x \<and>
         Method r' = ''POST'' \<and> URLPath r' = ''/v1/transfers'' \<and> as_transfer (Body r') = Some req' \<and>
         parse_create_transfer r' req' = Inr t' \<and> IdempotencyKey t' = IdempotencyKey t \<longrightarrow>
         (\<exists>s. ServeHTTP env readiness' l2 r' = Some (l2\<lparr>ld_idempKey := s\<rparr>, (201, bdy)))))"
proof -
  obtain l0 ack where "processBatch now (ld_loop l) [t] = (ld_loop l0, [ack])" "ring_queue (ld_rb l0) []"
    and l0: "\<not> ld_isFollower l0" "idstore_ok (ld_idempKey l0)"
      "CreateTransfer (served_alone now nows n) l t = Some (l0, case ack_Err ack of Some e \<Rightarrow> Inl (EngineErr e) | None \<Rightarrow> Inr (ack_Transfer ack))"
    and stored: "\<lbrakk> IdempotencyKey t \<noteq> noKey; ack_Err ack = None \<rbrakk> \<Longrightarrow> lookup (ld_idempKey l0) (IdempotencyKey t) =
       Some \<lparr>it_key = IdempotencyKey t, it_pending = False, it_expires = nows 0 + is_ttl (ld_idempKey l), it_transfer = ack_Transfer ack\<rparr>"
    by (rule fresh_call [where nows = nows and now = now, OF assms(1-5,11-13)]) (rule that; blast)
  note post = post_transfer [OF assms(6-9), of "served_alone now nows n" readiness l]
  have none: "ack_Err ack = None"
  proof (rule ccontr)
    assume "ack_Err ack \<noteq> None"
    with assms(14) l0(3) post transfer_status_not_201 show False by (auto simp: writeError_def writeJSON_def)
  qed
  have first: "l1 = l0" "bdy = TransferBody (formatTransferResp (ack_Transfer ack))"
    using assms(14) l0(3) none post by (auto simp: writeJSON_def)
  let ?x = "\<lparr>it_key = IdempotencyKey t, it_pending = False, it_expires = nows 0 + is_ttl (ld_idempKey l), it_transfer = ack_Transfer ack\<rparr>"
  have "\<exists>s. ServeHTTP env readiness' l2 r' = Some (l2\<lparr>ld_idempKey := s\<rparr>, (201, bdy))"
    if l2: "\<not> ld_isFollower l2" "idstore_ok (ld_idempKey l2)" "lookup (ld_idempKey l2) (IdempotencyKey t) = Some ?x"
      "ce_attempts env 0 (ld_idempKey l2) = (ld_idempKey l2, now', stopped) # later" "now' < it_expires ?x"
      and r': "Method r' = ''POST''" "URLPath r' = ''/v1/transfers''" "as_transfer (Body r') = Some req'" "parse_create_transfer r' req' = Inr t'"
      and k: "IdempotencyKey t' = IdempotencyKey t" for l2 env now' stopped later readiness' r' req' t'
  proof -
    obtain s where "CreateTransfer env l2 t' = Some (l2\<lparr>ld_idempKey := s\<rparr>, Inr (it_transfer ?x))"
      using known_key_call [OF l2(1) _ l2(4,2), of t' ?x] l2(3,5) k assms(10) by auto
    with post_transfer [OF r', of env readiness' l2] first(2) show ?thesis by (intro exI [of _ s]) (simp add: writeJSON_def)
  qed
  then show ?thesis using first(1) l0(1,2) stored [OF assms(10) none] by (intro conjI exI [of _ ?x]) auto
qed

subsection \<open>Self transfers\<close>

lemma self_transfer_refused:
  assumes "tr_Flags t = 0" and "\<not> IsZero (Amount t)" and "CreditAccountID t = DebitAccountID t" and "transfers m (tr_ID t) = None"
  shows "ValidateBatch [t] m = [Some (ErrSelfTransfer (DebitAccountID t))]"
proof -
  have flags: "\<not> hasUnknownFlags t" "\<not> invalidFlags t" "\<not> isPost t" "\<not> isVoid t" "\<not> isLinked t"
    using assms(1) by (simp_all add: hasUnknownFlags_def invalidFlags_def isPost_def isVoid_def isPending_def isLinked_def)
  have "validateAndApply 0 (beginChain (newBatchValidator m)) t =
      ((beginChain (newBatchValidator m))\<lparr>seenIDs := [tr_ID t \<mapsto> 0]\<rparr>, Some (ErrSelfTransfer (DebitAccountID t)))"
    using assms flags by (simp add: validateAndApply_def validateNew_def GetTransfer_def beginChain_def newBatchValidator_def)
  then show ?thesis
    using flags(5) by (simp add: ValidateBatch_def validate_loop.simps [of "[t]"] Let_def chainEnd_from.simps mark_range_def)
qed

text \<open>A transfer from an account to itself is reported as an internal error. The handlers mean to answer it as a
  bad request, but they compare the error with \<^verbatim>\<open>errors.Is\<close> against the zero value of its type, which
  carries the zero account ID; for every other account HTTP answers with status 500 and gRPC with the code
  \<^verbatim>\<open>Internal\<close>, as for a failure of the server.\<close>

theorem self_transfer_is_internal_error:
  assumes "\<not> ld_isFollower l" and "ring_queue (ld_rb l) []" and "ring_room (ld_rb l)" and "0 < n" and "n < 9223372036854775808"
    and "Method r = ''POST''" and "URLPath r = ''/v1/transfers''" and "as_transfer (Body r) = Some req" and "parse_create_transfer r req = Inr t"
    and "am_inv (el_accounts (ld_loop l))" and "transfers (el_accounts (ld_loop l)) (tr_ID t) = None"
    and "IdempotencyKey t = noKey" and "tr_Flags t = 0" and "\<not> IsZero (Amount t)"
    and "CreditAccountID t = DebitAccountID t" and "DebitAccountID t \<noteq> zeros 16"
  shows "\<exists>l' e. ServeHTTP (served_alone now nows n) readiness l r = Some (l', (500, ErrorBody (MsgErr '''' (EngineText e)))) \<and>
    e = EngineErr (LedgerErr (ErrSelfTransfer (DebitAccountID t))) \<and> transferErrorCode e = Internal"
proof -
  let ?l = "ld_loop l" and ?e = "ErrSelfTransfer (DebitAccountID t)"
  let ?t = "t\<lparr>Timestamp := batch_time now ?l\<rparr>" and ?m = "CloseExpired (SetClock (el_accounts ?l) (batch_time now ?l))"
  have "am_inv (SetClock (el_accounts ?l) (batch_time now ?l))" using assms(10) by (simp only: am_inv_SetClock)
  then have "transfers ?m = transfers (SetClock (el_accounts ?l) (batch_time now ?l))" using CloseExpired_closes by blast
  with assms(11) have "transfers ?m (tr_ID ?t) = None" by (simp add: SetClock_def)
  then have "ValidateBatch [?t] ?m = [Some ?e]" using self_transfer_refused [of ?t ?m] assms(13-15) by simp
  then obtain loop' where pb: "processBatch now ?l [t] = (loop', [\<lparr>ack_Transfer = ?t, ack_Err = Some (LedgerErr ?e)\<rparr>])"
    by (simp add: processBatch_def open_batch_def makeWALRecords_def finish_batch_def Let_def)
  obtain rb where "CreateTransfer (served_alone now nows n) l t = Some (l\<lparr>ld_rb := rb, ld_loop := loop'\<rparr>, Inl (EngineErr (LedgerErr ?e)))"
    by (rule keyless_call [OF assms(1-5) assms(12) pb, of nows]) (simp add: that)
  with assms(16) post_transfer [OF assms(6-9), of "served_alone now nows n" readiness l] show ?thesis by (simp add: writeError_def writeJSON_def)
qed

definition transfer_request :: "string \<Rightarrow> transfer \<Rightarrow> http_request" where
  "transfer_request k t = (get_request ''/v1/transfers'')\<lparr>Method := ''POST'', Header := (\<lambda>_. k),
     Body := \<lparr>as_account = None, as_accounts = None, as_transfer = Some (resubmit (formatTransferResp t)\<lparr>ctr_IdempotencyKey := ''''\<rparr>), as_transfers = None\<rparr>\<rparr>"

definition open_ledger :: ledger where
  "open_ledger = sample_ledger\<lparr>ld_loop := served_loop\<rparr>"

lemma open_ledger_simps:
  "\<not> ld_isFollower open_ledger" "ring_queue (ld_rb open_ledger) []" "ring_room (ld_rb open_ledger)" "ld_loop open_ledger = served_loop"
  "ld_idempKey open_ledger = NewIdempotencyStore 10 50"
proof -
  have "\<exists>rb. NewRingBuffer transfer0 4 = Inr rb" by (simp add: NewRingBuffer_def)
  then have "NewRingBuffer transfer0 4 = Inr (projr (NewRingBuffer transfer0 4))" by auto
  from new_ring_queue [OF this] show "ring_queue (ld_rb open_ledger) []" "ring_room (ld_rb open_ledger)" by (simp_all add: open_ledger_def sample_ledger_def)
qed (simp_all add: open_ledger_def sample_ledger_def)

lemma transfer_request_simps:
  "Method (transfer_request k t) = ''POST''" "URLPath (transfer_request k t) = ''/v1/transfers''"
  "as_transfer (Body (transfer_request k t)) = Some (resubmit (formatTransferResp t)\<lparr>ctr_IdempotencyKey := ''''\<rparr>)"
  by (simp_all add: transfer_request_def get_request_def)

lemma transfer_request_parses:
  assumes "wf_transfer t"
  shows "parse_create_transfer (transfer_request k t) (resubmit (formatTransferResp t)\<lparr>ctr_IdempotencyKey := ''''\<rparr>) =
    Inr (t\<lparr>Timestamp := 0, IdempotencyKey := (if k \<noteq> [] then Sum256 (str_bytes k) else noKey)\<rparr>)"
proof -
  have len: "length (tr_ID t) = 16" "length (DebitAccountID t) = 16" "length (CreditAccountID t) = 16" "length (tr_UserData128 t) = 16"
    using assms by (simp_all add: wf_transfer_def)
  with req_transfer_again [OF len(4), of k "''''"] show ?thesis
    by (cases "k = []") (simp_all add: parse_create_transfer_def transfer_request_def get_request_def resubmit_def formatTransferResp_def parseHexID_hex FromString_String String_nonempty)
qed

lemma served_manager_state: "el_accounts served_loop = sample_manager" "batch_time 5 served_loop = 5" "transfers sample_manager = Map.empty"
  by (simp_all add: served_state sample_manager_def batch_time_def Create_def NewAccountManager_def Let_def split: option.split)

lemma sample_transfer_wf: "wf_transfer (sample_transfer b d c x fl)"
  by (simp add: wf_transfer_def sample_transfer_def transfer0_def ident_of_def)

theorem self_transfer_is_internal_error_witness:
  "\<exists>l' m. ServeHTTP (served_alone 5 (\<lambda>_. 5) 10) None open_ledger (transfer_request '''' (sample_transfer 7 1 1 30 0)) = Some (l', (500, ErrorBody m))"
proof -
  let ?t = "sample_transfer 7 1 1 30 0"
  have t: "?t\<lparr>Timestamp := 0, IdempotencyKey := noKey\<rparr> = ?t" by (simp add: sample_transfer_def transfer0_def)
  have parse: "parse_create_transfer (transfer_request '''' ?t) (resubmit (formatTransferResp ?t)\<lparr>ctr_IdempotencyKey := ''''\<rparr>) = Inr ?t"
    using transfer_request_parses [OF sample_transfer_wf, of "''''"] t by simp
  have "ident_of 1 \<noteq> zeros 16" "\<not> IsZero (FromUint64 30)" by code_simp+
  then have "IdempotencyKey ?t = noKey" "tr_Flags ?t = 0" "\<not> IsZero (Amount ?t)" "CreditAccountID ?t = DebitAccountID ?t" "DebitAccountID ?t \<noteq> zeros 16"
    by (simp_all add: sample_transfer_def transfer0_def)
  moreover have "am_inv (el_accounts (ld_loop open_ledger))" "transfers (el_accounts (ld_loop open_ledger)) (tr_ID ?t) = None"
    by (simp_all add: open_ledger_simps(4) served_manager_state am_inv_sample)
  ultimately show ?thesis
    using self_transfer_is_internal_error [OF open_ledger_simps(1-3) _ _ transfer_request_simps parse, of 10 5 "\<lambda>_. 5" None] by auto
qed

subsection \<open>A retry\<close>

definition keyed_transfer :: transfer where
  "keyed_transfer = (sample_transfer 7 1 2 30 0)\<lparr>IdempotencyKey :=
    [0xba, 0x78, 0x16, 0xbf, 0x8f, 0x01, 0xcf, 0xea, 0x41, 0x41, 0x40, 0xde, 0x5d, 0xae, 0x22, 0x23,
     0xb0, 0x03, 0x61, 0xa3, 0x96, 0x17, 0x7a, 0x9c, 0xb4, 0x10, 0xff, 0x61, 0xf2, 0x00, 0x15, 0xad]\<rparr>"

lemma keyed_parses:
  "parse_create_transfer (transfer_request ''abc'' (sample_transfer 7 1 2 30 0)) (resubmit (formatTransferResp (sample_transfer 7 1 2 30 0))\<lparr>ctr_IdempotencyKey := ''''\<rparr>) =
    Inr keyed_transfer"
proof -
  have "str_bytes ''abc'' = [0x61, 0x62, 0x63]" by (simp add: str_bytes_def)
  with transfer_request_parses [OF sample_transfer_wf, of "''abc''" 7 1 2 30 0] show ?thesis
    by (simp add: Sum256_abc keyed_transfer_def) (simp add: sample_transfer_def transfer0_def)
qed

lemma keyed_ack: "snd (processBatch 5 served_loop [keyed_transfer]) = [\<lparr>ack_Transfer = keyed_transfer\<lparr>Timestamp := 5\<rparr>, ack_Err = None\<rparr>]"
proof -
  have "\<forall>t\<in>set [keyed_transfer]. wf_transfer t \<and> holds_last (batch_time 5 served_loop) t"
    by (simp add: keyed_transfer_def wf_transfer_def holds_last_def sample_transfer_def ident_of_def transfer0_def isPending_def)
  moreover have "sint (el_clock served_loop) < 9223372036854775807" "room served_loop (length [keyed_transfer])" by (simp_all add: room_def served_state)
  moreover have "ValidateBatch [keyed_transfer\<lparr>Timestamp := 5\<rparr>] (CloseExpired (SetClock sample_manager 5)) = [None]" by code_simp
  ultimately show ?thesis using acks_are_outcomes [OF runs_inv [OF served_runs], of "[keyed_transfer]" 5] by (simp add: served_manager_state)
qed

theorem http_retry_is_answered_witness:
  "\<exists>l1 bdy s. ServeHTTP (served_alone 5 (\<lambda>_. 5) 10) None open_ledger (transfer_request ''abc'' (sample_transfer 7 1 2 30 0)) = Some (l1, (201, bdy)) \<and>
     ServeHTTP (served_alone 54 (\<lambda>_. 54) 10) None l1 (transfer_request ''abc'' (sample_transfer 7 1 2 30 0)) = Some (l1\<lparr>ld_idempKey := s\<rparr>, (201, bdy))"
proof -
  let ?r = "transfer_request ''abc'' (sample_transfer 7 1 2 30 0)" and ?k = "IdempotencyKey keyed_transfer"
  have k: "?k \<noteq> noKey" by code_simp
  have store: "idstore_ok (ld_idempKey open_ledger)" "lookup (ld_idempKey open_ledger) ?k = None"
      "int (open_others ((\<lambda>_. 5) (0 :: nat)) (ld_idempKey open_ledger) ?k) < is_maxSize (ld_idempKey open_ledger)"
      "is_ttl (ld_idempKey open_ledger) = 50"
    unfolding open_ledger_simps(5) by (simp_all add: new_store_ok new_store_empty) (simp_all add: NewIdempotencyStore_def lookup_def)
  obtain l1 ack where "processBatch 5 (ld_loop open_ledger) [keyed_transfer] = (ld_loop l1, [ack])"
    "CreateTransfer (served_alone 5 (\<lambda>_. 5) 10) open_ledger keyed_transfer = Some (l1, case ack_Err ack of Some e \<Rightarrow> Inl (EngineErr e) | None \<Rightarrow> Inr (ack_Transfer ack))"
    by (rule fresh_call [where nows = "\<lambda>_. 5" and now = 5 and n = 10, OF open_ledger_simps(1-3) _ _ store(1-3)]) simp_all
  moreover from this(1) keyed_ack have "ack_Err ack = None" by (simp add: open_ledger_simps(4))
  ultimately obtain bdy where post: "ServeHTTP (served_alone 5 (\<lambda>_. 5) 10) None open_ledger ?r = Some (l1, (201, bdy))"
    using post_transfer [OF transfer_request_simps keyed_parses, of "served_alone 5 (\<lambda>_. 5) 10" None open_ledger] by (simp add: writeJSON_def)
  note served = http_retry_is_answered [where nows = "\<lambda>_. 5" and n = 10 and now = 5, OF open_ledger_simps(1-3) _ _ transfer_request_simps keyed_parses k store(1-3) post]
  then obtain x where x: "\<not> ld_isFollower l1" "idstore_ok (ld_idempKey l1)" "lookup (ld_idempKey l1) ?k = Some x" "it_expires x = 55"
    using store(4) by auto
  have "ce_attempts (served_alone 54 (\<lambda>_. 54) 10) 0 (ld_idempKey l1) = (ld_idempKey l1, 54, False) # []" by (simp add: served_alone_def)
  with served x transfer_request_simps [of "''abc''" "sample_transfer 7 1 2 30 0"] keyed_parses
  have "\<exists>s. ServeHTTP (served_alone 54 (\<lambda>_. 54) 10) None l1 ?r = Some (l1\<lparr>ld_idempKey := s\<rparr>, (201, bdy))" by fastforce
  with post show ?thesis by blast
qed

end
