(* ===== verification/Loop_Run.thy ===== *)
theory Loop_Run
  imports Ledger_Calls "HOL-Library.Monad_Syntax" "HOL-Library.Multiset"
begin

text \<open>
  The event loop as a process (\<^verbatim>\<open>Run\<close> of \<^verbatim>\<open>internal/engine/loop.go\<close>): the control channels next to the
  ring, the blocking wait of an idle loop, the draining of control requests, one turn of the loop and the
  shutdown. Go's \<^verbatim>\<open>select\<close> picks any channel that is ready, and other goroutines send at any time; both are
  arguments of the definitions: a list of polls, each with the requests that arrived before it and the
  channel it prefers, and the events that reach the ring between two looks at it. A result \<open>None\<close> says that
  the loop still waits when the given list is used up.

  Every turn keeps the state of the loop one that its log restores after a crash, and every read is
  answered from such a state. Draining ends and answers each request once; the shutdown completes every
  queued transfer, account batch and snapshot request with an error or an empty answer, and leaves queued
  reads unanswered.
\<close>

subsection \<open>Control channels\<close>

datatype control_request =
    SnapshotRequest "ident list"
  | ReadAccountEvent ident
  | ReadTransferEvent ident
  | ReadAccountTransfersEvent ident ident int
  | AccountCreateEvent "account list"

datatype control_reply =
    SnapshotResult snapshotView
  | ReadAccountResult account "ledger_error option"
  | ReadTransferResult "transfer option"
  | AccountTransfersResult "transfer list"
  | CreateResults "engine_error option list"

text \<open>The buffered channels, oldest request first. A snapshot request is queued with the order in which the
  loop will walk the map of holds.\<close>

record control =
  snapshotRequests :: "ident list list"
  readQueue :: "ident list"
  readTransferQueue :: "ident list"
  readAccountTransfersQueue :: "(ident \<times> ident \<times> int) list"
  accountCreateQueue :: "account list list"

definition control0 :: control where
  "control0 = \<lparr>snapshotRequests = [], readQueue = [], readTransferQueue = [], readAccountTransfersQueue = [], accountCreateQueue = []\<rparr>"

datatype channel = SnapshotChan | ReadChan | ReadTransferChan | ReadAccountTransfersChan | AccountCreateChan

fun receive_on :: "channel \<Rightarrow> control \<Rightarrow> (control_request \<times> control) option" where
  "receive_on SnapshotChan q = (case snapshotRequests q of [] \<Rightarrow> None | r # rs \<Rightarrow> Some (SnapshotRequest r, q\<lparr>snapshotRequests := rs\<rparr>))"
| "receive_on ReadChan q = (case readQueue q of [] \<Rightarrow> None | r # rs \<Rightarrow> Some (ReadAccountEvent r, q\<lparr>readQueue := rs\<rparr>))"
| "receive_on ReadTransferChan q = (case readTransferQueue q of [] \<Rightarrow> None | r # rs \<Rightarrow> Some (ReadTransferEvent r, q\<lparr>readTransferQueue := rs\<rparr>))"
| "receive_on ReadAccountTransfersChan q =
     (case readAccountTransfersQueue q of [] \<Rightarrow> None | (a, c, n) # rs \<Rightarrow> Some (ReadAccountTransfersEvent a c n, q\<lparr>readAccountTransfersQueue := rs\<rparr>))"
| "receive_on AccountCreateChan q = (case accountCreateQueue q of [] \<Rightarrow> None | r # rs \<Rightarrow> Some (AccountCreateEvent r, q\<lparr>accountCreateQueue := rs\<rparr>))"

text \<open>Requests sent by other goroutines.\<close>

definition control_send :: "control \<Rightarrow> control \<Rightarrow> control" where
  "control_send q new =
     \<lparr>snapshotRequests = snapshotRequests q @ snapshotRequests new, readQueue = readQueue q @ readQueue new,
      readTransferQueue = readTransferQueue q @ readTransferQueue new,
      readAccountTransfersQueue = readAccountTransfersQueue q @ readAccountTransfersQueue new,
      accountCreateQueue = accountCreateQueue q @ accountCreateQueue new\<rparr>"

definition controlPending :: "control \<Rightarrow> bool" where
  "controlPending q \<longleftrightarrow> 0 < length (readQueue q) \<or> 0 < length (readTransferQueue q) \<or> 0 < length (readAccountTransfersQueue q) \<or>
     0 < length (accountCreateQueue q) \<or> 0 < length (snapshotRequests q)"

text \<open>A \<^verbatim>\<open>select\<close> with a \<^verbatim>\<open>default\<close> case over the given channels: the preferred one when it is ready, else
  another that is, else the default.\<close>

fun first_ready :: "channel list \<Rightarrow> control \<Rightarrow> (control_request \<times> control) option" where
  "first_ready [] q = None"
| "first_ready (c # cs) q = (case receive_on c q of None \<Rightarrow> first_ready cs q | Some x \<Rightarrow> Some x)"

definition control_channels :: "channel list" where
  "control_channels = [SnapshotChan, ReadChan, ReadTransferChan, ReadAccountTransfersChan, AccountCreateChan]"

fun serve_control :: "eventLoop \<Rightarrow> control_request \<Rightarrow> eventLoop \<times> control_reply" where
  "serve_control l (SnapshotRequest ks) = (l, SnapshotResult (snapshot_view ks l))"
| "serve_control l (ReadAccountEvent i) = (l, case handleRead l i of (a, e) \<Rightarrow> ReadAccountResult a e)"
| "serve_control l (ReadTransferEvent i) = (l, ReadTransferResult (handleReadTransfer l i))"
| "serve_control l (ReadAccountTransfersEvent a c n) = (l, AccountTransfersResult (handleReadAccountTransfers l a c n))"
| "serve_control l (AccountCreateEvent accs) = (case processAccountCreate l accs of (l', rs) \<Rightarrow> (l', CreateResults rs))"

type_synonym answers = "(control_request \<times> control_reply) list"
type_synonym polls = "(control \<times> channel) list"

fun drainControl :: "polls \<Rightarrow> eventLoop \<times> control \<Rightarrow> (eventLoop \<times> control \<times> answers) option" where
  "drainControl [] (l, q) = (if controlPending q then None else Some (l, q, []))"
| "drainControl ((new, c) # ps) (l, q) =
     (let q1 = control_send q new
      in case first_ready (c # control_channels) q1 of
           None \<Rightarrow> Some (l, q1, [])
         | Some (r, q2) \<Rightarrow>
             let (l', a) = serve_control l r
             in map_option (\<lambda>(l'', q3, as). (l'', q3, (r, a) # as)) (drainControl ps (l', q2)))"

subsection \<open>Waiting, turning, ending\<close>

record runState =
  run_loop :: eventLoop
  run_ring :: "transfer ring"
  run_control :: control

definition drain_control :: "polls \<Rightarrow> runState \<Rightarrow> (runState \<times> answers) option" where
  "drain_control ps s =
     map_option (\<lambda>(l, q, as). (s\<lparr>run_loop := l, run_control := q\<rparr>, as)) (drainControl ps (run_loop s, run_control s))"

text \<open>The idle wait: what arrives while the loop is blocked, and the channel that ends the wait. The arrival
  channel of the ring ends it only when it is closed, a control channel only when it holds a request.\<close>

datatype wake_source = CtxDone | ArriveChan | ControlChan channel

record wake =
  wk_events :: "transfer list"
  wk_requests :: control
  wk_source :: wake_source

definition waitForWork :: "wake \<Rightarrow> runState \<Rightarrow> (bool \<times> runState \<times> answers) option" where
  "waitForWork k s =
     (let (rb, c) = arriveChan (run_ring s);
          s1 = s\<lparr>run_ring := submit_all rb (wk_events k), run_control := control_send (run_control s) (wk_requests k)\<rparr>
      in case wk_source k of
           CtxDone \<Rightarrow> Some (False, s1, [])
         | ArriveChan \<Rightarrow> if c \<in> rb_closed (run_ring s1) then Some (True, s1, []) else None
         | ControlChan ch \<Rightarrow>
             (case receive_on ch (run_control s1) of
                None \<Rightarrow> None
              | Some (r, q) \<Rightarrow>
                  let (l', a) = serve_control (run_loop s1) r
                  in Some (True, s1\<lparr>run_loop := l', run_control := q\<rparr>, [(r, a)])))"

text \<open>The shutdown: first the transfers, batch after batch until one is empty, then the snapshot requests and
  account batches. The waits of each \<^verbatim>\<open>Collect\<close> have no \<^verbatim>\<open>yield\<close>.\<close>

definition closed_ack :: transferAck where
  "closed_ack = \<lparr>ack_Transfer = transfer0, ack_Err = Some (LedgerErr ErrLedgerClosed)\<rparr>"

fun abandon_transfers :: "batcher \<Rightarrow> transfer wait list list \<Rightarrow> transfer ring \<Rightarrow> (transfer ring \<times> (transfer \<times> transferAck) list) option" where
  "abandon_transfers b [] rb = None"
| "abandon_transfers b (ws # wss) rb =
     (case Collect_batch b (map (\<lambda>w. w\<lparr>w_yield := False\<rparr>) ws) rb of
        None \<Rightarrow> None
      | Some (rb', batch) \<Rightarrow>
          if batch = [] then Some (rb', [])
          else map_option (\<lambda>(rb'', acks). (rb'', map (\<lambda>t. (t, closed_ack)) batch @ acks)) (abandon_transfers b wss rb'))"

fun closed_reply :: "control_request \<Rightarrow> control_reply" where
  "closed_reply (AccountCreateEvent accs) = CreateResults (map (\<lambda>_. Some (LedgerErr ErrLedgerClosed)) accs)"
| "closed_reply _ = SnapshotResult \<lparr>sv_Accounts = [], sv_Pendings = [], sv_LSN = 0\<rparr>"

definition abandoned_channels :: "channel \<Rightarrow> channel list" where
  "abandoned_channels c = (if c = AccountCreateChan then [AccountCreateChan, SnapshotChan] else [SnapshotChan, AccountCreateChan])"

fun abandon_control :: "polls \<Rightarrow> control \<Rightarrow> (control \<times> answers) option" where
  "abandon_control [] q = (if first_ready (abandoned_channels SnapshotChan) q = None then Some (q, []) else None)"
| "abandon_control ((new, c) # ps) q =
     (let q1 = control_send q new
      in case first_ready (abandoned_channels c) q1 of
           None \<Rightarrow> Some (q1, [])
         | Some (r, q2) \<Rightarrow> map_option (\<lambda>(q3, as). (q3, (r, closed_reply r) # as)) (abandon_control ps q2))"

definition abandonPending :: "batcher \<Rightarrow> transfer wait list list \<Rightarrow> polls \<Rightarrow> runState \<Rightarrow> (runState \<times> (transfer \<times> transferAck) list \<times> answers) option" where
  "abandonPending b wss ps s =
     do {
       (rb, acks) \<leftarrow> abandon_transfers b wss (run_ring s);
       (q, as) \<leftarrow> abandon_control ps (run_control s);
       Some (s\<lparr>run_ring := rb, run_control := q\<rparr>, acks, as)
     }"

text \<open>One pass through the \<^verbatim>\<open>for\<close> loop of \<^verbatim>\<open>Run\<close> with everything that happens around it.\<close>

record turn =
  t_done :: bool
  t_polls1 :: polls
  t_events1 :: "transfer list"
  t_wake :: wake
  t_polls2 :: polls
  t_events2 :: "transfer list"
  t_waits :: "transfer wait list"
  t_polls3 :: polls
  t_now :: i64
  t_collects :: "transfer wait list list"
  t_polls4 :: polls

record turnResult =
  tr_running :: bool
  tr_state :: runState
  tr_answers :: answers
  tr_acks :: "(transfer \<times> transferAck) list"
  tr_closed :: "(transfer \<times> transferAck) list \<times> answers"

definition turn_ends :: "batcher \<Rightarrow> turn \<Rightarrow> runState \<Rightarrow> answers \<Rightarrow> turnResult option" where
  "turn_ends b t s as =
     do {
       (s', acks, closed) \<leftarrow> abandonPending b (t_collects t) (t_polls4 t) s;
       Some \<lparr>tr_running = False, tr_state = s', tr_answers = as, tr_acks = [], tr_closed = (acks, closed)\<rparr>
     }"

definition collect_and_process :: "batcher \<Rightarrow> turn \<Rightarrow> runState \<Rightarrow> answers \<Rightarrow> turnResult option" where
  "collect_and_process b t s as =
     do {
       (rb, batch) \<leftarrow> Collect_batch b (t_waits t) (run_ring s);
       (s1, as') \<leftarrow> drain_control (t_polls3 t) (s\<lparr>run_ring := rb\<rparr>);
       if batch = [] then Some \<lparr>tr_running = True, tr_state = s1, tr_answers = as @ as', tr_acks = [], tr_closed = ([], [])\<rparr>
       else
         let (l', acks) = processBatch (t_now t) (run_loop s1) batch
         in Some \<lparr>tr_running = True, tr_state = s1\<lparr>run_loop := l'\<rparr>, tr_answers = as @ as', tr_acks = zip batch acks, tr_closed = ([], [])\<rparr>
     }"

definition ring_arrive :: "transfer list \<Rightarrow> runState \<Rightarrow> runState" where
  "ring_arrive evs s = s\<lparr>run_ring := submit_all (run_ring s) evs\<rparr>"

text \<open>The rest of a turn after an idle wait that found work.\<close>

definition turn_woken :: "batcher \<Rightarrow> turn \<Rightarrow> runState \<Rightarrow> answers \<Rightarrow> turnResult option" where
  "turn_woken b t s as =
     do {
       (s1, as') \<leftarrow> drain_control (t_polls2 t) s;
       let s2 = ring_arrive (t_events2 t) s1;
       if Idle (Some (run_ring s2))
       then Some \<lparr>tr_running = True, tr_state = s2, tr_answers = as @ as', tr_acks = [], tr_closed = ([], [])\<rparr>
       else collect_and_process b t s2 (as @ as')
     }"

definition run_turn :: "batcher \<Rightarrow> turn \<Rightarrow> runState \<Rightarrow> turnResult option" where
  "run_turn b t s =
     (if t_done t then turn_ends b t s []
      else
        do {
          (s1, as1) \<leftarrow> drain_control (t_polls1 t) s;
          let s2 = ring_arrive (t_events1 t) s1;
          if Idle (Some (run_ring s2))
          then do {
            (go, s3, as2) \<leftarrow> waitForWork (t_wake t) s2;
            if \<not> go then turn_ends b t s3 (as1 @ as2) else turn_woken b t s3 (as1 @ as2)
          }
          else collect_and_process b t s2 as1
        })"

subsection \<open>Requests in the channels\<close>

definition queued :: "control \<Rightarrow> control_request multiset" where
  "queued q = mset (map SnapshotRequest (snapshotRequests q)) + mset (map ReadAccountEvent (readQueue q)) +
     mset (map ReadTransferEvent (readTransferQueue q)) + mset (map (\<lambda>(a, c, n). ReadAccountTransfersEvent a c n) (readAccountTransfersQueue q)) +
     mset (map AccountCreateEvent (accountCreateQueue q))"

lemma queued_send [simp]: "queued (control_send q new) = queued q + queued new"
  by (simp add: queued_def control_send_def)

lemma queued_empty: "queued q = {#} \<longleftrightarrow> \<not> controlPending q"
  by (auto simp: queued_def controlPending_def)

lemma receive_on_queued: "receive_on c q = Some (r, q') \<Longrightarrow> queued q = add_mset r (queued q')"
  by (cases c) (auto simp: queued_def split: list.splits)

lemma first_ready_queued: "first_ready cs q = Some (r, q') \<Longrightarrow> queued q = add_mset r (queued q')"
  by (induction cs) (auto split: option.splits dest: receive_on_queued)

lemma first_ready_receives: "first_ready cs q = Some x \<Longrightarrow> \<exists>c\<in>set cs. receive_on c q = Some x"
  by (induction cs) (auto split: option.splits)

lemma first_ready_None: "first_ready (c # control_channels) q = None \<longleftrightarrow> \<not> controlPending q"
  by (cases c) (auto simp: control_channels_def controlPending_def split: list.splits)

definition arriving :: "polls \<Rightarrow> control_request multiset" where
  "arriving ps = (\<Sum>p\<leftarrow>ps. queued (fst p))"

lemma arriving_simps [simp]: "arriving [] = {#}" "arriving (p # ps) = queued (fst p) + arriving ps"
  by (simp_all add: arriving_def)

text \<open>Draining answers what was queued and what arrived up to its last look, each request once, and leaves the
  channels empty.\<close>

lemma drainControl_answers:
  "drainControl ps (l, q) = Some (l', q', as) \<Longrightarrow> \<not> controlPending q' \<and> (\<exists>k\<le>length ps. mset (map fst as) = queued q + arriving (take k ps))"
proof (induction ps arbitrary: l q l' q' as)
  case Nil
  then show ?case by (auto simp: queued_empty split: if_splits)
next
  case (Cons p ps)
  obtain new c where p: "p = (new, c)" by force
  let ?q1 = "control_send q new"
  show ?case
  proof (cases "first_ready (c # control_channels) ?q1")
    case None
    then have np: "\<not> controlPending ?q1" using first_ready_None by blast
    then have "queued q + queued new = {#}" using queued_empty [of ?q1] by simp
    then show ?thesis using Cons.prems None np p by (intro conjI exI [of _ 0]) (auto simp del: first_ready.simps)
  next
    case (Some rq)
    obtain r q2 where rq: "rq = (r, q2)" by force
    obtain l1 a where sv: "serve_control l r = (l1, a)" by force
    obtain as1 where as1: "drainControl ps (l1, q2) = Some (l', q', as1)" "as = (r, a) # as1"
      using Cons.prems Some rq sv p by (auto simp del: first_ready.simps)
    have "queued q + queued new = add_mset r (queued q2)" using first_ready_queued [OF Some [unfolded rq]] by simp
    moreover obtain k where "k \<le> length ps" "mset (map fst as1) = queued q2 + arriving (take k ps)" "\<not> controlPending q'" using Cons.IH [OF as1(1)] by blast
    ultimately show ?thesis using as1(2) p by (intro conjI exI [of _ "Suc k"]) (auto simp: union_assoc [symmetric])
  qed
qed

text \<open>It ends when the loop polls at least as often as there are requests.\<close>

lemma drainControl_ends:
  "size (queued q + arriving ps) \<le> length ps \<Longrightarrow> \<exists>l' q' as. drainControl ps (l, q) = Some (l', q', as)"
proof (induction ps arbitrary: l q)
  case Nil
  then show ?case using queued_empty [of q] by simp
next
  case (Cons p ps)
  obtain new c where p: "p = (new, c)" by force
  let ?q1 = "control_send q new"
  show ?case
  proof (cases "first_ready (c # control_channels) ?q1")
    case (Some rq)
    obtain r q2 where rq: "rq = (r, q2)" by force
    obtain l1 a where sv: "serve_control l r = (l1, a)" by force
    have "size (queued q) + size (queued new) = Suc (size (queued q2))" using first_ready_queued [OF Some [unfolded rq]] by (metis queued_send size_union size_add_mset)
    then have "size (queued q2 + arriving ps) \<le> length ps" using Cons.prems p by simp
    from Cons.IH [OF this, of l1] show ?thesis using Some rq sv p by (auto simp del: first_ready.simps)
  qed (simp add: p del: first_ready.simps)
qed

subsection \<open>The state behind the answers\<close>

text \<open>Account batches the API accepts, and the log space requests need: a batch of \<open>n\<close> accounts takes
  at most \<open>2 * n\<close> sequence numbers.\<close>

fun fine_request :: "control_request \<Rightarrow> bool" where
  "fine_request (AccountCreateEvent accs) \<longleftrightarrow> (\<forall>a\<in>set accs. wf_account a) \<and> length accs \<le> MaxAccountBatchSize"
| "fine_request _ \<longleftrightarrow> True"

fun request_work :: "control_request \<Rightarrow> nat" where
  "request_work (AccountCreateEvent accs) = length accs"
| "request_work _ = 0"

definition work :: "control_request multiset \<Rightarrow> nat" where
  "work M = (\<Sum>r\<in>#M. request_work r)"

lemma work_simps [simp]: "work {#} = 0" "work (add_mset r M) = request_work r + work M" "work (M + N) = work M + work N"
  by (simp_all add: work_def)

definition slack :: "nat \<Rightarrow> eventLoop \<Rightarrow> bool" where
  "slack n l \<longleftrightarrow> 161 \<le> segmentSize (el_wal l) \<and> sint (wal_currentLSN (el_wal l)) + 2 * int n + 1 < 9223372036854775808"

lemma logged_slack:
  assumes "wal_reach w bs d" and "appendable w recs" and "AppendBatch w recs = (w', Inr x)"
  shows "segmentSize w' = segmentSize w" "sint (wal_currentLSN w') = sint (wal_currentLSN w) + int (length recs) + 1"
proof -
  obtain parts rs where h: "history_ok w bs d parts rs" using reach_history [OF assms(1)] by blast
  then have "log_state w parts rs" "0 \<le> sint (wal_currentLSN w)" by (simp_all add: history_ok_def)
  moreover from AppendBatch_appends [OF this(1) assms(2)] assms(3)
  have "segmentSize w' = segmentSize w" "wal_currentLSN w' = snd (appended w recs)" by auto
  moreover have "sint (wal_currentLSN w) + int (Suc (length recs)) < 9223372036854775808" using assms(2) by (simp add: appendable_def)
  ultimately show "segmentSize w' = segmentSize w" "sint (wal_currentLSN w') = sint (wal_currentLSN w) + int (length recs) + 1"
    using sint_add_nat [of "wal_currentLSN w" "Suc (length recs)"] by (simp_all add: appended_def algebra_simps)
qed

lemma create_log_length: "length (create_log l accs) \<le> length accs"
proof -
  have "length (snd (scan_creates m as buf)) \<le> length as" for m as buf
    by (induction m as buf rule: scan_creates.induct) (auto simp: Let_def case_prod_beta split: option.split sum.split)
  then show ?thesis by (simp add: create_log_def)
qed

lemma creates_keep_slack:
  assumes "runs l bs" and "slack (n + length accs) l" and "\<forall>a\<in>set accs. wf_account a" and "length accs \<le> 8192"
  defines "l' \<equiv> fst (processAccountCreate l accs)"
  shows "runs l' (bs @ logs (el_wal l) (create_log l accs))" "slack n l'" "el_clock l' = el_clock l"
proof -
  let ?recs = "create_log l accs" and ?w = "el_wal l"
  have inv: "run_inv l bs" by (rule runs_inv [OF assms(1)])
  then have reach: "wal_reach ?w bs (length bs)" by (simp add: run_inv_def)
  have rm: "room l (length accs)" using assms(2,4) by (simp add: slack_def room_def)
  show "runs l' (bs @ logs ?w ?recs)" unfolding l'_def by (rule runs.creates [OF assms(1,3) rm])
  show "el_clock l' = el_clock l" by (auto simp: l'_def processAccountCreate_def Let_def split: prod.split sum.split)
  show "slack n l'"
  proof (cases "?recs = []")
    case True
    then have "l' = l" by (auto simp: l'_def processAccountCreate_def create_log_def split: prod.splits)
    with assms(2) show ?thesis by (simp add: slack_def)
  next
    case False
    have ap: "appendable ?w ?recs" by (rule creates_step(1) [OF inv assms(3) rm False])
    obtain w' x where ab: "AppendBatch ?w ?recs = (w', Inr x)" using append_synced [OF reach ap] by metis
    have "el_wal l' = Sync w'" using ab False by (simp add: l'_def processAccountCreate_def create_log_def Let_def case_prod_beta)
    moreover have "1 \<le> length ?recs" using False by (cases ?recs) auto
    ultimately show ?thesis using logged_slack [OF reach ap ab] assms(2) create_log_length [of l accs] by (simp add: slack_def)
  qed
qed

text \<open>A loop that has room for the requests in its channels and for \<open>n\<close> more accounts or transfers.\<close>

definition ready :: "nat \<Rightarrow> batch list \<Rightarrow> eventLoop \<Rightarrow> control \<Rightarrow> bool" where
  "ready n bs l q \<longleftrightarrow> runs l bs \<and> slack (n + work (queued q)) l \<and> (\<forall>r\<in>#queued q. fine_request r)"

definition durable_answer :: "batch list \<Rightarrow> batch list \<Rightarrow> control_request \<times> control_reply \<Rightarrow> bool" where
  "durable_answer bs bs' ra \<longleftrightarrow> (\<exists>l bs1. prefix bs1 bs' \<and> runs l (bs @ bs1) \<and> snd ra = snd (serve_control l (fst ra)))"

definition progress :: "nat \<Rightarrow> i64 \<Rightarrow> batch list \<Rightarrow> eventLoop \<Rightarrow> control \<Rightarrow> answers \<Rightarrow> bool" where
  "progress n c bs l q as \<longleftrightarrow> (\<exists>bs'. ready n (bs @ bs') l q \<and> el_clock l = c \<and> (\<forall>ra\<in>set as. durable_answer bs bs' ra))"

lemma serve_ready:
  assumes "ready n bs l q" and "receive_on ch q = Some (r, q')" and "serve_control l r = (l', a)"
  shows "\<exists>bs'. ready n (bs @ bs') l' q' \<and> el_clock l' = el_clock l"
proof -
  have q: "queued q = add_mset r (queued q')" by (rule receive_on_queued [OF assms(2)])
  have run: "runs l bs" and sl: "slack ((n + work (queued q')) + request_work r) l" and fine: "fine_request r" "\<forall>r\<in>#queued q'. fine_request r"
    using assms(1) by (simp_all add: ready_def q ac_simps)
  show ?thesis
  proof (cases r)
    case (AccountCreateEvent accs)
    then have "l' = fst (processAccountCreate l accs)" using assms(3) by (auto split: prod.splits)
    moreover have "slack (n + work (queued q') + length accs) l" "\<forall>a\<in>set accs. wf_account a" "length accs \<le> 8192"
      using sl fine(1) AccountCreateEvent by simp_all
    ultimately show ?thesis using creates_keep_slack [OF run] fine(2) unfolding ready_def by blast
  qed (use assms(3) run sl fine in \<open>auto simp: ready_def intro: exI [of _ "[]"] split: prod.splits\<close>)
qed

lemma progress_start: "ready n bs l q \<Longrightarrow> progress n (el_clock l) bs l q []"
  unfolding progress_def by (intro exI [of _ "[]"]) simp

lemma progress_send:
  "\<lbrakk> progress (n + work (queued new)) c bs l q as; \<forall>r\<in>#queued new. fine_request r \<rbrakk> \<Longrightarrow> progress n c bs l (control_send q new) as"
  unfolding progress_def ready_def by (auto simp: ac_simps)

lemma durable_more: "durable_answer bs bs1 ra \<Longrightarrow> durable_answer bs (bs1 @ bs2) ra"
  unfolding durable_answer_def using prefix_order.trans [OF _ prefixI] by blast

lemma progress_serve:
  assumes "progress n c bs l q as" and "receive_on ch q = Some (r, q')" and "serve_control l r = (l', a)"
  shows "progress n c bs l' q' (as @ [(r, a)])"
proof -
  obtain bs1 where b1: "ready n (bs @ bs1) l q" "el_clock l = c" "\<forall>ra\<in>set as. durable_answer bs bs1 ra" using assms(1) by (auto simp: progress_def)
  obtain bs2 where "ready n ((bs @ bs1) @ bs2) l' q'" "el_clock l' = el_clock l" using serve_ready [OF b1(1) assms(2,3)] by blast
  moreover have "durable_answer bs bs1 (r, a)" using b1(1) assms(3) unfolding durable_answer_def ready_def
    by (intro exI [of _ l] exI [of _ bs1]) simp
  ultimately show ?thesis using b1 durable_more unfolding progress_def by (intro exI [of _ "bs1 @ bs2"]) auto
qed

lemma progress_drain:
  "\<lbrakk> progress (n + work (arriving ps)) c bs l q as; \<forall>r\<in>#arriving ps. fine_request r; drainControl ps (l, q) = Some (l', q', as') \<rbrakk> \<Longrightarrow>
     progress n c bs l' q' (as @ as')"
proof (induction ps arbitrary: l q as as')
  case Nil
  then show ?case by (auto split: if_splits)
next
  case (Cons p ps)
  obtain new ch where p: "p = (new, ch)" by force
  let ?q1 = "control_send q new"
  have pr: "progress (n + work (arriving ps)) c bs l ?q1 as"
    by (rule progress_send) (use Cons.prems(1,2) p in \<open>simp_all add: ac_simps\<close>)
  show ?case
  proof (cases "first_ready (ch # control_channels) ?q1")
    case None
    then have "as' = []" "l' = l" "q' = ?q1" using Cons.prems(3) p by (auto simp del: first_ready.simps)
    with pr show ?thesis by (auto simp: progress_def ready_def slack_def)
  next
    case (Some rq)
    obtain r q2 where rq: "rq = (r, q2)" by force
    obtain l1 a where sv: "serve_control l r = (l1, a)" by force
    obtain as1 where as1: "drainControl ps (l1, q2) = Some (l', q', as1)" "as' = (r, a) # as1"
      using Cons.prems(3) Some rq sv p by (auto simp del: first_ready.simps)
    obtain ch' where "receive_on ch' ?q1 = Some (r, q2)" using first_ready_receives [OF Some] rq by blast
    from Cons.IH [OF progress_serve [OF pr this sv] _ as1(1)] Cons.prems(2) as1(2) show ?thesis by simp
  qed
qed

subsection \<open>The ring during a turn\<close>

text \<open>What became of the events \<open>es\<close> that were in the ring and of the events \<open>evs\<close> offered since: \<open>out\<close> has been
  taken, and what the ring holds now follows it. The sequence numbers started at \<open>h\<close>.\<close>

definition ring_served :: "nat \<Rightarrow> 'e list \<Rightarrow> 'e list \<Rightarrow> 'e list \<Rightarrow> 'e ring \<Rightarrow> bool" where
  "ring_served h es evs out rb \<longleftrightarrow>
     (\<exists>new rest. subseq new evs \<and> ring_queue rb rest \<and> out @ rest = es @ new \<and> unat (rb_head rb) \<le> h + length evs)"

lemma ring_served_start: "ring_queue rb es \<Longrightarrow> ring_served (unat (rb_head rb)) es [] [] rb"
  by (auto simp: ring_served_def intro: exI [of _ "[]"])

lemma ring_served_arriveChan: "ring_served h es evs out rb \<Longrightarrow> ring_served h es evs out (fst (arriveChan rb))"
  unfolding ring_served_def using arriveChan_queue by fastforce

lemma ring_served_more:
  assumes "ring_served h es evs out rb"
  shows "ring_served h es (evs @ fs) out rb"
proof -
  obtain new rest where "subseq new evs" "ring_queue rb rest" "out @ rest = es @ new" "unat (rb_head rb) \<le> h + length evs"
    using assms by (auto simp: ring_served_def)
  then show ?thesis unfolding ring_served_def by (intro exI [of _ new] exI [of _ rest]) (simp add: list_emb_prefix)
qed

lemma ring_served_submit:
  assumes "ring_served h es evs out rb" and "h + length (evs @ fs) < 18446744073709551616"
  shows "ring_served h es (evs @ fs) out (submit_all rb fs)"
proof -
  obtain new rest where s: "subseq new evs" "ring_queue rb rest" "out @ rest = es @ new" "unat (rb_head rb) \<le> h + length evs"
    using assms(1) by (auto simp: ring_served_def)
  obtain new' where "subseq new' fs" "ring_queue (submit_all rb fs) (rest @ new')" "unat (rb_head (submit_all rb fs)) \<le> unat (rb_head rb) + length fs"
    using submit_all_queue [OF s(2), of fs] s(4) assms(2) by auto
  with s show ?thesis unfolding ring_served_def
    by (intro exI [of _ "new @ new'"] exI [of _ "rest @ new'"]) (auto intro: list_emb_append_mono simp: append_assoc [symmetric] simp del: append_assoc)
qed

lemma ring_served_Collect:
  assumes "ring_served h es evs out rb" and "h + length (evs @ offered ws) < 18446744073709551616" and "Collect_batch b ws rb = Some (rb', batch)"
    and "0 < bt_maxBatchSize b" and "bt_maxBatchSize b < 9223372036854775808"
  shows "ring_served h es (evs @ offered ws) (out @ batch) rb'" "int (length batch) \<le> bt_maxBatchSize b"
proof -
  obtain new rest where s: "subseq new evs" "ring_queue rb rest" "out @ rest = es @ new" "unat (rb_head rb) \<le> h + length evs"
    using assms(1) by (auto simp: ring_served_def)
  then have "unat (rb_head rb) + length (offered ws) < 18446744073709551616" using assms(2) by simp
  from Collect_grows [OF s(2) assms(4,5) this assms(3)] obtain new' rest' where
    c: "ring_queue rb' rest'" "batch @ rest' = rest @ new'" "subseq new' (offered ws)" "int (length batch) \<le> bt_maxBatchSize b"
    "unat (rb_head rb') \<le> unat (rb_head rb) + length (offered ws)" by blast
  have "(out @ batch) @ rest' = es @ new @ new'" using c(2) s(3) by (metis append_assoc)
  then show "ring_served h es (evs @ offered ws) (out @ batch) rb'" using s c unfolding ring_served_def
    by (intro exI [of _ "new @ new'"] exI [of _ rest']) (auto intro: list_emb_append_mono)
  show "int (length batch) \<le> bt_maxBatchSize b" by (rule c(4))
qed

lemma subseq_set: "subseq xs ys \<Longrightarrow> set xs \<subseteq> set ys"
  by (auto elim: list_emb_set)

lemma ring_served_set: "ring_served h es evs out rb \<Longrightarrow> set out \<subseteq> set es \<union> set evs"
proof -
  assume "ring_served h es evs out rb"
  then obtain new rest where "subseq new evs" "out @ rest = es @ new" by (auto simp: ring_served_def)
  then have "set out \<subseteq> set (es @ new)" "set new \<subseteq> set evs" using subseq_set by (metis set_append Un_upper1, blast)
  then show ?thesis by auto
qed

text \<open>What is known in the middle of a turn: the loop has room for \<open>n\<close> more accounts or transfers, \<open>evs\<close> arrived.\<close>

definition in_turn :: "nat \<Rightarrow> i64 \<Rightarrow> batch list \<Rightarrow> nat \<Rightarrow> transfer list \<Rightarrow> transfer list \<Rightarrow> runState \<Rightarrow> answers \<Rightarrow> bool" where
  "in_turn n c bs h es evs s as \<longleftrightarrow> progress n c bs (run_loop s) (run_control s) as \<and> ring_served h es evs [] (run_ring s)"

lemma in_turn_drain:
  assumes "in_turn (n + work (arriving ps)) c bs h es evs s as" and "\<forall>r\<in>#arriving ps. fine_request r" and "drain_control ps s = Some (s', as')"
  shows "in_turn n c bs h es evs s' (as @ as')"
  using assms progress_drain by (auto simp: in_turn_def drain_control_def)

lemma in_turn_arrive:
  assumes "in_turn n c bs h es evs s as" and "h + length (evs @ fs) < 18446744073709551616"
  shows "in_turn n c bs h es (evs @ fs) (ring_arrive fs s) as"
  using assms ring_served_submit by (auto simp: in_turn_def ring_arrive_def)

lemma progress_less: "progress n c bs l q as \<Longrightarrow> k \<le> n \<Longrightarrow> progress k c bs l q as"
  by (auto simp: progress_def ready_def slack_def)

lemma in_turn_less: "in_turn n c bs h es evs s as \<Longrightarrow> k \<le> n \<Longrightarrow> in_turn k c bs h es (evs @ fs) s as"
  using progress_less ring_served_more by (auto simp: in_turn_def)

lemma in_turn_wait:
  assumes "in_turn (n + work (queued (wk_requests k))) c bs h es evs s as" and "h + length (evs @ wk_events k) < 18446744073709551616"
    and "\<forall>r\<in>#queued (wk_requests k). fine_request r" and "waitForWork k s = Some (go, s', as')"
  shows "in_turn n c bs h es (evs @ wk_events k) s' (as @ as')"
proof -
  let ?rb = "submit_all (fst (arriveChan (run_ring s))) (wk_events k)" and ?q = "control_send (run_control s) (wk_requests k)"
  have rb: "ring_served h es (evs @ wk_events k) [] ?rb" using assms(1,2) by (intro ring_served_submit ring_served_arriveChan) (simp_all add: in_turn_def)
  have pr: "progress n c bs (run_loop s) ?q as" using assms(1,3) by (intro progress_send) (simp_all add: in_turn_def)
  show ?thesis
  proof (cases "wk_source k")
    case (ControlChan ch)
    then obtain r q where r: "receive_on ch ?q = Some (r, q)"
      using assms(4) by (cases "receive_on ch ?q") (auto simp: waitForWork_def Let_def case_prod_beta)
    obtain l' a where sv: "serve_control (run_loop s) r = (l', a)" by force
    have "s' = s\<lparr>run_ring := ?rb, run_loop := l', run_control := q\<rparr>" "as' = [(r, a)]"
      using assms(4) ControlChan r sv by (auto simp: waitForWork_def Let_def case_prod_beta)
    with progress_serve [OF pr r sv] rb show ?thesis by (simp add: in_turn_def)
  qed (use assms(4) rb pr in \<open>auto simp: waitForWork_def in_turn_def Let_def case_prod_beta split: if_splits\<close>)
qed

text \<open>Everything that arrives in a turn.\<close>

definition turn_events :: "turn \<Rightarrow> transfer list" where
  "turn_events t = t_events1 t @ wk_events (t_wake t) @ t_events2 t @ offered (t_waits t) @ concat (map offered (t_collects t))"

definition turn_requests :: "turn \<Rightarrow> control_request multiset" where
  "turn_requests t = arriving (t_polls1 t) + queued (wk_requests (t_wake t)) + arriving (t_polls2 t) + arriving (t_polls3 t)"

lemma offered_no_yield [simp]: "offered (map (\<lambda>w. w\<lparr>w_yield := False\<rparr>) ws) = offered ws"
  by (induction ws) simp_all

lemma abandon_transfers_served:
  "\<lbrakk> ring_served h es evs out rb; h + length (evs @ concat (map offered wss)) < 18446744073709551616;
     0 < bt_maxBatchSize b; bt_maxBatchSize b < 9223372036854775808; abandon_transfers b wss rb = Some (rb', acks) \<rbrakk> \<Longrightarrow>
     ring_served h es (evs @ concat (map offered wss)) (out @ map fst acks) rb'"
proof (induction wss arbitrary: evs out rb acks)
  case (Cons ws wss)
  let ?ws = "map (\<lambda>w. w\<lparr>w_yield := False\<rparr>) ws"
  obtain rb1 batch where co: "Collect_batch b ?ws rb = Some (rb1, batch)" using Cons.prems(5) by (auto split: option.splits)
  have s1: "ring_served h es (evs @ offered ws) (out @ batch) rb1"
    using ring_served_Collect(1) [OF Cons.prems(1) _ co Cons.prems(3,4)] Cons.prems(2) by simp
  show ?case
  proof (cases "batch = []")
    case True
    then have "rb' = rb1" "acks = []" using Cons.prems(5) co by simp_all
    with ring_served_more [OF s1, of "concat (map offered wss)"] True show ?thesis by simp
  next
    case False
    then obtain acks' where a: "abandon_transfers b wss rb1 = Some (rb', acks')" "acks = map (\<lambda>t. (t, closed_ack)) batch @ acks'" using Cons.prems(5) co by auto
    have "ring_served h es ((evs @ offered ws) @ concat (map offered wss)) ((out @ batch) @ map fst acks') rb'"
      by (rule Cons.IH [OF s1 _ Cons.prems(3,4) a(1)]) (use Cons.prems(2) in simp)
    then show ?thesis by (simp add: a(2) comp_def)
  qed
qed simp

text \<open>The results of a turn that the loop's log and ring account for.\<close>

definition turn_sound :: "batch list \<Rightarrow> nat \<Rightarrow> transfer list \<Rightarrow> transfer list \<Rightarrow> turnResult \<Rightarrow> bool" where
  "turn_sound bs h es evs r \<longleftrightarrow>
     (\<exists>bs'. runs (run_loop (tr_state r)) (bs @ bs') \<and> (\<forall>ra\<in>set (tr_answers r). durable_answer bs bs' ra)) \<and>
     ring_served h es evs (map fst (tr_acks r) @ map fst (fst (tr_closed r))) (run_ring (tr_state r))"

text \<open>The assumptions on a turn that its lemmas share: transfers the loop can take at the time of the batch, account
  batches the API accepts, clocks and sequence numbers that do not wrap around.\<close>

definition turn_fine :: "batcher \<Rightarrow> turn \<Rightarrow> i64 \<Rightarrow> nat \<Rightarrow> transfer list \<Rightarrow> bool" where
  "turn_fine b t c h es \<longleftrightarrow>
     (\<forall>e\<in>set (es @ turn_events t). wf_transfer e \<and> holds_last (if sint (t_now t) \<le> sint c then c + 1 else t_now t) e) \<and>
     (\<forall>r\<in>#turn_requests t. fine_request r) \<and> sint c < 9223372036854775807 \<and> 0 < bt_maxBatchSize b \<and> bt_maxBatchSize b \<le> 10000000 \<and>
     h + length (turn_events t) < 18446744073709551616"

lemma turn_fineD:
  assumes "turn_fine b t c h es"
  shows "\<forall>r\<in>#arriving (t_polls1 t). fine_request r" "\<forall>r\<in>#queued (wk_requests (t_wake t)). fine_request r" "\<forall>r\<in>#arriving (t_polls2 t). fine_request r"
    "\<forall>r\<in>#arriving (t_polls3 t). fine_request r" "0 < bt_maxBatchSize b" "bt_maxBatchSize b < 9223372036854775808"
  using assms by (auto simp: turn_fine_def turn_requests_def)

abbreviation before_collect :: "turn \<Rightarrow> transfer list" where
  "before_collect t \<equiv> t_events1 t @ wk_events (t_wake t) @ t_events2 t"

lemma turn_ends_sound:
  assumes "turn_fine b t c h es" and "in_turn n c bs h es evs s as" and "turn_ends b t s as = Some r"
    and "evs @ fs = before_collect t @ offered (t_waits t)"
  shows "turn_sound bs h es (turn_events t) r"
proof -
  obtain rb acks q closed where ab: "abandon_transfers b (t_collects t) (run_ring s) = Some (rb, acks)"
    and r: "r = \<lparr>tr_running = False, tr_state = s\<lparr>run_ring := rb, run_control := q\<rparr>, tr_answers = as, tr_acks = [], tr_closed = (acks, closed)\<rparr>"
    using assms(3) by (auto simp: turn_ends_def abandonPending_def bind_eq_Some_conv)
  have "ring_served h es (before_collect t @ offered (t_waits t)) [] (run_ring s)"
    using ring_served_more assms(2) unfolding assms(4) [symmetric] in_turn_def by blast
  from abandon_transfers_served [OF this _ turn_fineD(5,6) [OF assms(1)] ab] assms(1)
  have "ring_served h es (turn_events t) (map fst acks) rb" by (simp add: turn_events_def turn_fine_def)
  with assms(2) show ?thesis by (auto simp: turn_sound_def r in_turn_def progress_def ready_def)
qed

lemma collect_sound:
  assumes fine: "turn_fine b t c h es" and r: "collect_and_process b t s as = Some r"
    and t: "in_turn (nat (bt_maxBatchSize b) + work (arriving (t_polls3 t))) c bs h es (before_collect t) s as"
  shows "turn_sound bs h es (turn_events t) r"
proof -
  obtain rb batch where co: "Collect_batch b (t_waits t) (run_ring s) = Some (rb, batch)"
    using r by (auto simp: collect_and_process_def bind_eq_Some_conv)
  then obtain s1 as' where dr: "drain_control (t_polls3 t) (s\<lparr>run_ring := rb\<rparr>) = Some (s1, as')"
    using r by (auto simp: collect_and_process_def bind_eq_Some_conv)
  have "h + length (before_collect t @ offered (t_waits t)) < 18446744073709551616" using fine by (simp add: turn_fine_def turn_events_def)
  from ring_served_Collect [OF _ this co turn_fineD(5,6) [OF fine]] t
  have "ring_served h es (before_collect t @ offered (t_waits t)) ([] @ batch) rb" and len: "int (length batch) \<le> bt_maxBatchSize b"
    unfolding in_turn_def by blast+
  then have served: "ring_served h es (turn_events t) batch rb"
    using ring_served_more [of h es "before_collect t @ offered (t_waits t)" batch rb] by (simp add: turn_events_def)
  have d: "drainControl (t_polls3 t) (run_loop s, run_control s) = Some (run_loop s1, run_control s1, as')" and rb: "run_ring s1 = rb"
    using dr by (auto simp: drain_control_def)
  have "progress (nat (bt_maxBatchSize b)) c bs (run_loop s1) (run_control s1) (as @ as')"
    by (rule progress_drain [OF _ turn_fineD(4) [OF fine] d]) (use t in \<open>simp add: in_turn_def\<close>)
  then obtain bs1 where
    s1: "runs (run_loop s1) (bs @ bs1)" "slack (nat (bt_maxBatchSize b)) (run_loop s1)" "el_clock (run_loop s1) = c" "\<forall>ra\<in>set (as @ as'). durable_answer bs bs1 ra"
    unfolding progress_def ready_def by (auto simp: slack_def)
  show ?thesis
  proof (cases "batch = []")
    case True
    then have "r = \<lparr>tr_running = True, tr_state = s1, tr_answers = as @ as', tr_acks = [], tr_closed = ([], [])\<rparr>"
      using r co dr by (simp add: collect_and_process_def)
    with s1 rb served True show ?thesis by (auto simp: turn_sound_def)
  next
    case False
    obtain l' acks where pb: "processBatch (t_now t) (run_loop s1) batch = (l', acks)" by force
    have r': "r = \<lparr>tr_running = True, tr_state = s1\<lparr>run_loop := l'\<rparr>, tr_answers = as @ as', tr_acks = zip batch acks, tr_closed = ([], [])\<rparr>"
      using r co dr pb False by (simp add: collect_and_process_def)
    have "map fst (zip batch acks) = batch" using length_acks [of "t_now t" "run_loop s1" batch] pb by simp
    moreover have "\<forall>e\<in>set batch. wf_transfer e \<and> holds_last (batch_time (t_now t) (run_loop s1)) e"
      using ring_served_set [OF served] fine by (auto simp: batch_time_def s1(3) turn_fine_def)
    moreover have "room (run_loop s1) (length batch)" using s1(2) len fine by (simp add: slack_def room_def turn_fine_def)
    moreover have "sint (el_clock (run_loop s1)) < 9223372036854775807" using fine by (simp add: s1(3) turn_fine_def)
    ultimately have "\<exists>bs2. runs l' (bs @ bs1 @ bs2)" "ring_served h es (turn_events t) (map fst (tr_acks r) @ map fst (fst (tr_closed r))) (run_ring (tr_state r))"
      using runs.transfers [OF s1(1)] pb served rb by (metis append_assoc fst_conv, simp add: r')
    with s1(4) durable_more show ?thesis unfolding turn_sound_def r' by fastforce
  qed
qed

lemma turn_woken_sound:
  assumes fine: "turn_fine b t c h es" and r: "turn_woken b t s as = Some r"
    and i: "in_turn (nat (bt_maxBatchSize b) + work (arriving (t_polls3 t)) + work (arriving (t_polls2 t))) c bs h es (t_events1 t @ wk_events (t_wake t)) s as"
  shows "turn_sound bs h es (turn_events t) r"
proof -
  obtain s1 as' where d: "drain_control (t_polls2 t) s = Some (s1, as')" using r by (auto simp: turn_woken_def bind_eq_Some_conv)
  let ?s2 = "ring_arrive (t_events2 t) s1"
  have i2: "in_turn (nat (bt_maxBatchSize b) + work (arriving (t_polls3 t))) c bs h es (before_collect t) ?s2 (as @ as')"
    using in_turn_arrive [OF in_turn_drain [OF i turn_fineD(3) [OF fine] d], of "t_events2 t"] fine by (simp add: turn_fine_def turn_events_def)
  show ?thesis
  proof (cases "Idle (Some (run_ring ?s2))")
    case True
    then have "r = \<lparr>tr_running = True, tr_state = ?s2, tr_answers = as @ as', tr_acks = [], tr_closed = ([], [])\<rparr>"
      using r d by (simp add: turn_woken_def Let_def)
    moreover have "ring_served h es (turn_events t) [] (run_ring ?s2)"
      using i2 ring_served_more [of h es "before_collect t" "[]" _ "offered (t_waits t) @ concat (map offered (t_collects t))"]
      by (simp add: in_turn_def turn_events_def)
    ultimately show ?thesis using i2 by (auto simp: turn_sound_def in_turn_def progress_def ready_def)
  next
    case False
    then have "collect_and_process b t ?s2 (as @ as') = Some r" using r d by (simp add: turn_woken_def Let_def)
    from collect_sound [OF fine this i2] show ?thesis .
  qed
qed

lemma run_turn_sound:
  assumes start: "in_turn (nat (bt_maxBatchSize b) + work (turn_requests t)) c bs h es [] s []"
    and fine: "turn_fine b t c h es" and r: "run_turn b t s = Some r"
  shows "turn_sound bs h es (turn_events t) r"
proof (cases "t_done t")
  case True
  then show ?thesis using turn_ends_sound [OF fine start] r by (simp add: run_turn_def)
next
  case False
  then obtain s1 as1 where d1: "drain_control (t_polls1 t) s = Some (s1, as1)" using r by (auto simp: run_turn_def bind_eq_Some_conv)
  define s2 where "s2 = ring_arrive (t_events1 t) s1"
  let ?n = "nat (bt_maxBatchSize b) + work (arriving (t_polls3 t)) + work (arriving (t_polls2 t))"
  have lens: "h + length (t_events1 t) < 18446744073709551616" "h + length (t_events1 t @ wk_events (t_wake t)) < 18446744073709551616"
    using fine by (simp_all add: turn_fine_def turn_events_def)
  have "in_turn (?n + work (queued (wk_requests (t_wake t)))) c bs h es [] s1 ([] @ as1)"
    by (rule in_turn_drain [OF _ turn_fineD(1) [OF fine] d1]) (use start in \<open>simp add: turn_requests_def ac_simps\<close>)
  then have i2: "in_turn (?n + work (queued (wk_requests (t_wake t)))) c bs h es (t_events1 t) s2 as1"
    unfolding s2_def using in_turn_arrive [of _ c bs h es "[]" s1 as1 "t_events1 t"] lens(1) by simp
  show ?thesis
  proof (cases "Idle (Some (run_ring s2))")
    case False
    then have "collect_and_process b t s2 as1 = Some r" using r \<open>\<not> t_done t\<close> d1 by (simp add: run_turn_def s2_def Let_def)
    from collect_sound [OF fine this in_turn_less [OF i2]] show ?thesis by simp
  next
    case True
    then obtain go s3 as2 where wt: "waitForWork (t_wake t) s2 = Some (go, s3, as2)"
      using r \<open>\<not> t_done t\<close> d1 by (auto simp: run_turn_def s2_def bind_eq_Some_conv Let_def)
    have i3: "in_turn ?n c bs h es (t_events1 t @ wk_events (t_wake t)) s3 (as1 @ as2)"
      by (rule in_turn_wait [OF i2 lens(2) turn_fineD(2) [OF fine] wt])
    have "(if \<not> go then turn_ends b t s3 (as1 @ as2) else turn_woken b t s3 (as1 @ as2)) = Some r"
      using r \<open>\<not> t_done t\<close> d1 wt True by (simp add: run_turn_def s2_def Let_def)
    then show ?thesis using turn_ends_sound [OF fine i3] turn_woken_sound [OF fine _ i3] by (auto split: if_splits)
  qed
qed

subsection \<open>Shutdown\<close>

text \<open>A wait in which nothing arrives and the time runs out.\<close>

definition quiet :: "'e wait \<Rightarrow> bool" where
  "quiet w \<longleftrightarrow> w_landed w = [] \<and> w_arrivals w = [] \<and> w_source w = TimerFired \<and> w_remain w \<le> 0"

lemma queue_empty_iff: "ring_queue rb es \<Longrightarrow> ring_Len rb = 0 \<longleftrightarrow> es = []"
proof -
  assume "ring_queue rb es"
  then have le: "unat (rb_tail rb) \<le> unat (rb_head rb)" and sh: "rb_tailShared rb = rb_tail rb" and len: "length es = unat (rb_head rb) - unat (rb_tail rb)"
    by (auto simp: ring_queue_def rb_inv_def ring_shape_def)
  have "ring_Len rb = sint (rb_head rb - rb_tail rb)" using le by (simp add: ring_Len_def sh word_less_nat_alt)
  moreover have "sint (rb_head rb - rb_tail rb) = 0 \<longleftrightarrow> rb_head rb = rb_tail rb" by (metis right_minus_eq signed_0 signed_word_eqI)
  moreover have "rb_head rb = rb_tail rb \<longleftrightarrow> length es = 0" using le by (simp add: len word_unat_eq_iff)
  ultimately show ?thesis by simp
qed

lemma Collect_quiet:
  assumes "ring_queue rb es" and "quiet w" and "\<not> w_yield w" and "0 < bt_maxBatchSize b" and "bt_maxBatchSize b < 9223372036854775808"
  shows "\<exists>rb'. Collect_batch b [w] rb = Some (rb', take (nat (bt_maxBatchSize b)) es) \<and> ring_queue rb' (drop (nat (bt_maxBatchSize b)) es)"
proof (cases "es = []")
  case True
  then have "ring_Len rb = 0" using queue_empty_iff [OF assms(1)] by simp
  moreover have "ring_Len (fst (arriveChan rb)) = ring_Len rb" by (simp add: ring_Len_def)
  ultimately have len: "ring_Len (fst (arriveChan rb)) = 0" by simp
  then have "Collect_batch b [w] rb = Some (fst (arriveChan rb), [])" using assms(2) \<open>ring_Len rb = 0\<close> len by (simp add: Collect_batch_def quiet_def Let_def)
  then show ?thesis using arriveChan_queue [OF assms(1)] True by simp
next
  case False
  then have "ring_Len rb \<noteq> 0" using queue_empty_iff [OF assms(1)] by simp
  then have "Collect_batch b [w] rb = Some (DrainBatch rb (bt_maxBatchSize b))" using assms(2,3) by (simp add: Collect_batch_def quiet_def)
  then show ?thesis using ringq.drains [OF assms(1,4,5)] by auto
qed

lemma abandon_transfers_all:
  assumes b: "0 < bt_maxBatchSize b" "bt_maxBatchSize b < 9223372036854775808"
  shows "\<lbrakk> ring_queue rb es; \<forall>ws\<in>set wss. \<exists>w. ws = [w] \<and> quiet w; length es < length wss \<rbrakk> \<Longrightarrow>
     \<exists>rb'. abandon_transfers b wss rb = Some (rb', map (\<lambda>t. (t, closed_ack)) es) \<and> ring_queue rb' []"
proof (induction wss arbitrary: rb es)
  case (Cons ws wss)
  let ?n = "nat (bt_maxBatchSize b)"
  obtain w where w: "ws = [w]" "quiet (w\<lparr>w_yield := False\<rparr>)" using Cons.prems(2) by (auto simp: quiet_def)
  obtain rb1 where co: "Collect_batch b [w\<lparr>w_yield := False\<rparr>] rb = Some (rb1, take ?n es)" "ring_queue rb1 (drop ?n es)"
    using Collect_quiet [OF Cons.prems(1) w(2) _ b] by auto
  show ?case
  proof (cases "es = []")
    case True
    with co w show ?thesis by simp
  next
    case False
    have "0 < ?n" using b(1) by simp
    then have ne: "take ?n es \<noteq> []" "length (drop ?n es) < length wss" using False Cons.prems(3) by (cases es; simp)+
    obtain rb' where "abandon_transfers b wss rb1 = Some (rb', map (\<lambda>t. (t, closed_ack)) (drop ?n es))" "ring_queue rb' []"
      using Cons.IH [OF co(2) _ ne(2)] Cons.prems(2) by auto
    with co(1) w(1) ne(1) show ?thesis by (simp add: map_append [symmetric] del: map_append)
  qed
qed simp

text \<open>The requests that the shutdown completes.\<close>

definition abandoned :: "control \<Rightarrow> control_request multiset" where
  "abandoned q = mset (map SnapshotRequest (snapshotRequests q)) + mset (map AccountCreateEvent (accountCreateQueue q))"

lemma abandoned_ready:
  "first_ready (abandoned_channels c) q = None \<longleftrightarrow> abandoned q = {#}"
  "first_ready (abandoned_channels c) q = Some (r, q') \<Longrightarrow> abandoned q = add_mset r (abandoned q') \<and> readQueue q' = readQueue q \<and>
     readTransferQueue q' = readTransferQueue q \<and> readAccountTransfersQueue q' = readAccountTransfersQueue q"
  by (auto simp: abandoned_channels_def abandoned_def split: list.splits if_splits)

lemma abandon_control_all:
  "\<lbrakk> \<forall>p\<in>set ps. fst p = control0; size (abandoned q) \<le> length ps \<rbrakk> \<Longrightarrow>
     \<exists>q' as. abandon_control ps q = Some (q', as) \<and> abandoned q' = {#} \<and> mset (map fst as) = abandoned q \<and>
       (\<forall>(r, a)\<in>set as. a = closed_reply r) \<and> readQueue q' = readQueue q \<and> readTransferQueue q' = readTransferQueue q \<and>
       readAccountTransfersQueue q' = readAccountTransfersQueue q"
proof (induction ps arbitrary: q)
  case Nil
  then show ?case using abandoned_ready(1) [of SnapshotChan q] by simp
next
  case (Cons p ps)
  obtain c where p: "p = (control0, c)" using Cons.prems(1) by (cases p) auto
  have q: "control_send q control0 = q" by (simp add: control_send_def control0_def)
  show ?case
  proof (cases "first_ready (abandoned_channels c) q")
    case None
    then show ?thesis using abandoned_ready(1) [of c q] p q by simp
  next
    case (Some rq)
    obtain r q2 where rq: "rq = (r, q2)" by force
    note fr = abandoned_ready(2) [OF Some [unfolded rq]]
    have "size (abandoned q2) \<le> length ps" using fr Cons.prems(2) by simp
    then obtain q' as where "abandon_control ps q2 = Some (q', as)" "abandoned q' = {#}" "mset (map fst as) = abandoned q2"
      "\<forall>(r, a)\<in>set as. a = closed_reply r" "readQueue q' = readQueue q2" "readTransferQueue q' = readTransferQueue q2"
      "readAccountTransfersQueue q' = readAccountTransfersQueue q2"
      using Cons.IH [of q2] Cons.prems(1) by auto
    then show ?thesis using Some rq p q fr by (intro exI [of _ q'] exI [of _ "(r, closed_reply r) # as"]) auto
  qed
qed

text \<open>A batch submitted after the loop has ended never returns: the ring accepts the events, nobody completes
  them, and the call waits for their completion only.\<close>

lemma transfers_after_shutdown:
  assumes "\<not> ld_isFollower l" and "ts \<noteq> []" and "length ts \<le> MaxTransferBatchSize" and "\<forall>t\<in>set ts. IdempotencyKey t = noKey"
    and "ce_shutdown env = None" and "\<forall>evs l. ce_serve_batch env evs l = (l, [])"
  shows "CreateTransfers env l ts = None"
proof -
  let ?p = "\<lparr>p1_store = ld_idempKey l, p1_outcomes = replicate (length ts) outcome0, p1_events = enumerate 0 ts, p1_reserved = [], p1_seen = {}\<rparr>"
  have "begin_transfers (ce_attempts env) l ts = Some (Inr (?p, None))"
    using assms(1-4) by (simp add: begin_transfers_def reserve_items_keyless Let_def)
  then show ?thesis
    using assms(2,5,6) by (simp add: CreateTransfers_def finish_transfers_def newBatchState_def Let_def enumerate_eq_zip)
qed

subsection \<open>A sample turn\<close>

text \<open>A read of account 1 arrives, then a transfer; the loop answers the read and serves the transfer.\<close>

definition sample_state :: runState where
  "sample_state = \<lparr>run_loop = served_loop, run_ring = projr (NewRingBuffer transfer0 4), run_control = control0\<rparr>"

definition time_up :: "transfer wait" where
  "time_up = \<lparr>w_landed = [], w_arrivals = [], w_source = TimerFired, w_yield = False, w_remain = 0\<rparr>"

definition sample_turn :: turn where
  "sample_turn =
     \<lparr>t_done = False, t_polls1 = [(control0\<lparr>readQueue := [ident_of 1]\<rparr>, ReadChan), (control0, ReadChan)], t_events1 = [sample_transfer 7 1 2 30 0],
      t_wake = \<lparr>wk_events = [], wk_requests = control0, wk_source = CtxDone\<rparr>, t_polls2 = [], t_events2 = [], t_waits = [time_up],
      t_polls3 = [], t_now = 5, t_collects = [], t_polls4 = []\<rparr>"

lemma sample_state_ring: "ring_queue (run_ring sample_state) []" "ring_room (run_ring sample_state)" "unat (rb_head (run_ring sample_state)) = 0"
proof -
  have n: "NewRingBuffer transfer0 4 = Inr (run_ring sample_state)" by (simp add: NewRingBuffer_def sample_state_def)
  from new_ring_queue [OF n] show "ring_queue (run_ring sample_state) []" "ring_room (run_ring sample_state)" by simp_all
  show "unat (rb_head (run_ring sample_state)) = 0" by (simp add: NewRingBuffer_def sample_state_def)
qed

lemma sample_turn_runs:
  obtains r where "run_turn (NewBatcher 10 0) sample_turn sample_state = Some r" "map fst (tr_answers r) = [ReadAccountEvent (ident_of 1)]"
    "map fst (tr_acks r) = [sample_transfer 7 1 2 30 0]"
proof -
  let ?t = "sample_transfer 7 1 2 30 0" and ?rb0 = "run_ring sample_state"
  obtain a where d: "drain_control (t_polls1 sample_turn) sample_state = Some (sample_state, [(ReadAccountEvent (ident_of 1), a)])"
    by (auto simp: drain_control_def sample_turn_def sample_state_def control_channels_def control_send_def control0_def)
  obtain rb1 where rb1: "Submit ?rb0 ?t = Inr rb1" "ring_queue rb1 [?t]" using Submit_queue [OF sample_state_ring(1,2), of ?t] by auto
  then have ar: "ring_arrive (t_events1 sample_turn) sample_state = sample_state\<lparr>run_ring := rb1\<rparr>" by (simp add: ring_arrive_def sample_turn_def)
  have busy: "\<not> Idle (Some rb1)" using queue_empty_iff [OF rb1(2)] by (simp add: Idle_def)
  have "quiet time_up" "\<not> w_yield time_up" by (simp_all add: quiet_def time_up_def)
  from Collect_quiet [OF rb1(2) this, of "NewBatcher 10 0"] obtain rb2 where co: "Collect_batch (NewBatcher 10 0) [time_up] rb1 = Some (rb2, [?t])"
    by (auto simp: NewBatcher_def)
  obtain l' acks where pb: "processBatch 5 served_loop [?t] = (l', acks)" by force
  then have "map fst (zip [?t] acks) = [?t]" using length_acks [of 5 served_loop "[?t]"] by simp
  moreover have "t_waits sample_turn = [time_up]" "t_polls3 sample_turn = []" "t_now sample_turn = 5" "\<not> t_done sample_turn" by (simp_all add: sample_turn_def)
  moreover have "run_loop sample_state = served_loop" "run_control sample_state = control0" by (simp_all add: sample_state_def)
  moreover have "drain_control [] (sample_state\<lparr>run_ring := rb2\<rparr>) = Some (sample_state\<lparr>run_ring := rb2\<rparr>, [])"
    by (simp add: drain_control_def sample_state_def controlPending_def control0_def)
  ultimately show ?thesis using that d ar busy co pb
    by (simp add: run_turn_def collect_and_process_def Let_def)
qed

subsection \<open>Properties\<close>

text \<open>C19: whatever the loop answers comes from a state its log restores. In a turn of \<^verbatim>\<open>Run\<close>, with
  requests and transfers arriving at any point, every read and snapshot is answered from the state after
  some of the batches that are logged and synced, in the order of the log; the state at the end
  of the turn is again one that a restart after a crash rebuilds. The transfers acknowledged in the turn are the
  first ones of the ring, followed by the accepted arrivals, each once and in order.\<close>

theorem loop_serves_durable_state:
  assumes "runs (run_loop s) bs" and "ring_queue (run_ring s) es"
    and "\<forall>e\<in>set (es @ turn_events t). wf_transfer e \<and> holds_last (batch_time (t_now t) (run_loop s)) e"
    and "\<forall>r\<in>#queued (run_control s) + turn_requests t. fine_request r" and "sint (el_clock (run_loop s)) < 9223372036854775807"
    and "0 < bt_maxBatchSize b" and "bt_maxBatchSize b \<le> 10000000"
    and "slack (nat (bt_maxBatchSize b) + work (queued (run_control s) + turn_requests t)) (run_loop s)"
    and "unat (rb_head (run_ring s)) + length (turn_events t) < 18446744073709551616"
    and "run_turn b t s = Some r"
  shows "\<exists>bs' new rest. runs (run_loop (tr_state r)) (bs @ bs') \<and>
    (\<forall>(q, a)\<in>set (tr_answers r). \<exists>l bs1. prefix bs1 bs' \<and> runs l (bs @ bs1) \<and> a = snd (serve_control l q)) \<and>
    (\<forall>n mx now keys ttl. syncedOffset (wal_current (el_wal (run_loop (tr_state r)))) \<le> n \<longrightarrow>
      (\<exists>w' m ks. Recover (OpenWAL (crash (el_wal (run_loop (tr_state r))) n) mx False) (replay_record now) (NewAccountManager, NewIdempotencyStore keys ttl) =
         (w', (m, ks), None) \<and> el_accounts (run_loop (tr_state r)) = CloseExpired (SetClock m (clock (el_accounts (run_loop (tr_state r))))))) \<and>
    ring_queue (run_ring (tr_state r)) rest \<and> subseq new (turn_events t) \<and>
    map fst (tr_acks r) @ map fst (fst (tr_closed r)) @ rest = es @ new"
proof -
  let ?c = "el_clock (run_loop s)"
  have fine: "turn_fine b t ?c (unat (rb_head (run_ring s))) es" using assms(3-7,9) by (auto simp: turn_fine_def batch_time_def)
  have "ready (nat (bt_maxBatchSize b) + work (turn_requests t)) bs (run_loop s) (run_control s)"
    using assms(1,4,8) by (auto simp: ready_def ac_simps)
  then have "in_turn (nat (bt_maxBatchSize b) + work (turn_requests t)) ?c bs (unat (rb_head (run_ring s))) es [] s []"
    using ring_served_start [OF assms(2)] progress_start by (auto simp: in_turn_def)
  from run_turn_sound [OF this fine assms(10)] obtain bs' new rest where
    r: "runs (run_loop (tr_state r)) (bs @ bs')" "\<forall>ra\<in>set (tr_answers r). durable_answer bs bs' ra"
      "ring_queue (run_ring (tr_state r)) rest" "subseq new (turn_events t)" "map fst (tr_acks r) @ map fst (fst (tr_closed r)) @ rest = es @ new"
    by (auto simp: turn_sound_def ring_served_def)
  then have "\<forall>(q, a)\<in>set (tr_answers r). \<exists>l bs1. prefix bs1 bs' \<and> runs l (bs @ bs1) \<and> a = snd (serve_control l q)"
    unfolding durable_answer_def by fastforce
  with r(1,3-5) restart_recovers [OF r(1)] show ?thesis by blast
qed

theorem loop_serves_durable_state_witness:
  "\<exists>r bs bs'. run_turn (NewBatcher 10 0) sample_turn sample_state = Some r \<and> runs (run_loop (tr_state r)) (bs @ bs') \<and>
     map fst (tr_answers r) = [ReadAccountEvent (ident_of 1)] \<and> map fst (tr_acks r) = [sample_transfer 7 1 2 30 0]"
proof -
  let ?t = "sample_transfer 7 1 2 30 0"
  obtain r where r: "run_turn (NewBatcher 10 0) sample_turn sample_state = Some r" "map fst (tr_answers r) = [ReadAccountEvent (ident_of 1)]"
    "map fst (tr_acks r) = [?t]" by (rule sample_turn_runs)
  have run: "runs (run_loop sample_state) (logs (el_wal sample_loop) (create_log sample_loop [sample_account 1 100, sample_account 2 0]))"
    using served_runs by (simp add: sample_state_def)
  have ev: "turn_events sample_turn = [?t]" by (simp add: turn_events_def sample_turn_def time_up_def)
  have rq: "queued (run_control sample_state) + turn_requests sample_turn = {#ReadAccountEvent (ident_of 1)#}"
    by (simp add: turn_requests_def sample_turn_def sample_state_def queued_def control0_def)
  have wf: "\<forall>e\<in>set ([] @ turn_events sample_turn). wf_transfer e \<and> holds_last (batch_time (t_now sample_turn) (run_loop sample_state)) e"
    unfolding ev by (simp add: wf_transfer_def sample_transfer_def transfer0_def ident_of_def holds_last_def isPending_def)
  have sl: "slack (nat (bt_maxBatchSize (NewBatcher 10 0)) + work (queued (run_control sample_state) + turn_requests sample_turn)) (run_loop sample_state)"
    unfolding rq by (simp add: slack_def sample_state_def served_state NewBatcher_def)
  have "\<forall>q\<in>#queued (run_control sample_state) + turn_requests sample_turn. fine_request q" unfolding rq by simp
  moreover have "sint (el_clock (run_loop sample_state)) < 9223372036854775807" by (simp add: sample_state_def served_state)
  moreover have "0 < bt_maxBatchSize (NewBatcher 10 0)" "bt_maxBatchSize (NewBatcher 10 0) \<le> 10000000" by (simp_all add: NewBatcher_def)
  moreover have "unat (rb_head (run_ring sample_state)) + length (turn_events sample_turn) < 18446744073709551616" by (simp add: sample_state_ring(3) ev)
  ultimately obtain bs' where "runs (run_loop (tr_state r)) (logs (el_wal sample_loop) (create_log sample_loop [sample_account 1 100, sample_account 2 0]) @ bs')"
    using loop_serves_durable_state [OF run sample_state_ring(1) wf _ _ _ _ sl _ r(1)] by metis
  with r show ?thesis by (intro exI conjI)
qed

text \<open>C20: the shutdown leaves no writer waiting. Once nothing arrives any more, \<^verbatim>\<open>abandonPending\<close> returns; every
  transfer in the ring has been completed with \<^verbatim>\<open>ErrLedgerClosed\<close>, in order and once, every queued account batch
  has that error for each of its accounts and every snapshot request an empty view, and the channels of
  both are empty. Queued reads are not touched: nobody answers them.\<close>

theorem shutdown_completes_writers:
  assumes "ring_queue (run_ring s) es" and "\<forall>ws\<in>set wss. \<exists>w. ws = [w] \<and> quiet w" and "length es < length wss"
    and "\<forall>p\<in>set ps. fst p = control0" and "length (snapshotRequests (run_control s)) + length (accountCreateQueue (run_control s)) \<le> length ps"
    and "0 < bt_maxBatchSize b" and "bt_maxBatchSize b < 9223372036854775808"
  shows "\<exists>s' as. abandonPending b wss ps s = Some (s', map (\<lambda>t. (t, closed_ack)) es, as) \<and> run_loop s' = run_loop s \<and> ring_queue (run_ring s') [] \<and>
    mset (map fst as) = mset (map SnapshotRequest (snapshotRequests (run_control s))) + mset (map AccountCreateEvent (accountCreateQueue (run_control s))) \<and>
    (\<forall>(r, a)\<in>set as. a = closed_reply r) \<and> snapshotRequests (run_control s') = [] \<and> accountCreateQueue (run_control s') = [] \<and>
    readQueue (run_control s') = readQueue (run_control s) \<and> readTransferQueue (run_control s') = readTransferQueue (run_control s) \<and>
    readAccountTransfersQueue (run_control s') = readAccountTransfersQueue (run_control s)"
proof -
  obtain rb where rb: "abandon_transfers b wss (run_ring s) = Some (rb, map (\<lambda>t. (t, closed_ack)) es)" "ring_queue rb []"
    using abandon_transfers_all [OF assms(6,7,1-3)] by blast
  have "size (abandoned (run_control s)) \<le> length ps" using assms(5) by (simp add: abandoned_def)
  from abandon_control_all [OF assms(4) this] obtain q as where q: "abandon_control ps (run_control s) = Some (q, as)" "abandoned q = {#}"
    "mset (map fst as) = abandoned (run_control s)" "\<forall>(r, a)\<in>set as. a = closed_reply r" "readQueue q = readQueue (run_control s)"
    "readTransferQueue q = readTransferQueue (run_control s)" "readAccountTransfersQueue q = readAccountTransfersQueue (run_control s)" by blast
  then show ?thesis using rb by (intro exI [of _ "s\<lparr>run_ring := rb, run_control := q\<rparr>"] exI [of _ as]) (simp add: abandonPending_def abandoned_def)
qed

theorem shutdown_completes_writers_witness:
  "\<exists>s' as. abandonPending (NewBatcher 10 0) [[time_up]] [(control0, SnapshotChan)]
      (sample_state\<lparr>run_control := control0\<lparr>snapshotRequests := [[]], readQueue := [ident_of 1]\<rparr>\<rparr>) = Some (s', [], as) \<and>
     map snd as = [SnapshotResult \<lparr>sv_Accounts = [], sv_Pendings = [], sv_LSN = 0\<rparr>] \<and> readQueue (run_control s') = [ident_of 1]"
proof -
  let ?s = "sample_state\<lparr>run_control := control0\<lparr>snapshotRequests := [[]], readQueue := [ident_of 1]\<rparr>\<rparr>"
  have "ring_queue (run_ring ?s) []" using sample_state_ring(1) by simp
  moreover have "\<forall>ws\<in>set [[time_up]]. \<exists>w. ws = [w] \<and> quiet w" by (simp add: quiet_def time_up_def)
  moreover have "length (snapshotRequests (run_control ?s)) + length (accountCreateQueue (run_control ?s)) \<le> length [(control0, SnapshotChan)]"
    by (simp add: control0_def)
  moreover have "0 < bt_maxBatchSize (NewBatcher 10 0)" "bt_maxBatchSize (NewBatcher 10 0) < 9223372036854775808" by (simp_all add: NewBatcher_def)
  ultimately obtain s' as where s': "abandonPending (NewBatcher 10 0) [[time_up]] [(control0, SnapshotChan)] ?s = Some (s', [], as)"
    "mset (map fst as) = {#SnapshotRequest []#}" "\<forall>(r, a)\<in>set as. a = closed_reply r" "readQueue (run_control s') = [ident_of 1]"
    using shutdown_completes_writers [of ?s "[]" "[[time_up]]" "[(control0, SnapshotChan)]" "NewBatcher 10 0"] by (auto simp: control0_def)
  then have "map fst as = [SnapshotRequest []]" by (metis mset_single_iff)
  then obtain a where "as = [(SnapshotRequest [], a)]" by auto
  with s' show ?thesis by simp
qed

end
