(* ===== verification/Spec2Isabelle.thy ===== *)
theory Spec2Isabelle
  imports Fault_Injection Follower_Loop Rest_Api Loop_Run
begin

text \<open>
  Verification of the double-entry ledger \<^verbatim>\<open>aequitas-ledger\<close> (Go).

  \<^bold>\<open>The program.\<close> A ledger keeps accounts with posted and pending debits and credits, moves money by
  transfers, reserves it with holds that are later posted, voided or expire, and makes linked chains of
  transfers all-or-nothing. A single goroutine, the event loop, owns the state. Clients reach it over gRPC and HTTP:
  a call reserves its idempotency key, puts a transfer into a lock-free ring buffer and waits; the loop collects a
  batch from the ring, stamps it with its clock, closes expired holds, validates the batch against staged copies, writes the
  accepted transfers with a commit marker to the write-ahead log, syncs it, applies the batch and acknowledges it.
  Account creations, reads and snapshot requests come through Go channels next to the ring. Snapshots let the log be
  truncated; a restart loads the latest snapshot and replays the log. Followers read the log through a
  streaming reader over TCP, store it, apply it, and can be promoted; terms fence off old primaries. An independent
  auditor re-reads a log and checks it.

  \<^bold>\<open>Theories and sources.\<close> Sources are under \<^verbatim>\<open>src/internal\<close>. Definitions carry the names of the code; parts
  of a long function that have a name of their own here say so in the text before them.

  \<^item> \<open>Ledger_Prelude\<close>: bytes, words, Go slices and \<^verbatim>\<open>copy\<close>, big-endian integers, fallible steps; the
    collections \<open>go_simps\<close> and \<open>layout_simps\<close>.
  \<^item> \<open>Uint128\<close> (\<^verbatim>\<open>core/uint128.go\<close>), \<open>Core_Model\<close> (\<^verbatim>\<open>core/account.go\<close>, \<^verbatim>\<open>transfer.go\<close>, \<^verbatim>\<open>errors.go\<close>) and
    \<open>Payload_Codec\<close> (\<^verbatim>\<open>core/codec.go\<close>): amounts as two 64-bit words, accounts and transfers as records, error values as a
    datatype, payloads byte for byte.
  \<^item> \<open>Expiry_Heap\<close> and \<open>Account_Manager\<close> (\<^verbatim>\<open>engine/accounts.go\<close>): the binary heap of deadlines over a store of entries,
    with \<^verbatim>\<open>container/heap\<close>, and the state machine of accounts, holds, history and clock.
  \<^item> \<open>Ledger_Spec\<close>: the specification, a book of accounts and open holds with one step per transfer; no code
    corresponds to it.
  \<^item> \<open>Batch_Validator\<close> (\<^verbatim>\<open>engine/transfers.go\<close>): validation against staged copies, rollback of chains, application.
  \<^item> \<open>Wal_Record\<close>, \<open>Wal_Recovery\<close>, \<open>Wal_Log\<close> (\<^verbatim>\<open>wal/record.go\<close>, \<^verbatim>\<open>recovery.go\<close>, \<^verbatim>\<open>segment.go\<close>, \<^verbatim>\<open>direct.go\<close>,
    \<^verbatim>\<open>wal.go\<close>): frames with CRC-32, replay and truncation, segments, rotation, sync. A directory is a list of
    numbered files, a file a list of bytes; a segment remembers how much of it is synced, and \<open>crash\<close> cuts the live file at any
    byte not before that.
  \<^item> \<open>Event_Loop\<close> (\<^verbatim>\<open>engine/loop.go\<close>): a batch of transfers and a batch of account creations, with the log.
  \<^item> \<open>Idempotency_Store\<close> (\<^verbatim>\<open>engine/idempotency.go\<close>): the hash map with its doubly linked list as a heap of entries.
  \<^item> \<open>Ring_Buffer\<close> (\<^verbatim>\<open>engine/ring_buffer.go\<close>): claim, publication and drain as atomic steps of a system of producers and
    one consumer; the arrival channel.
  \<^item> \<open>Replay\<close>, \<open>Snapshot_File\<close>, \<open>Ledger_Engine\<close> (\<^verbatim>\<open>engine/ledger.go\<close>, \<^verbatim>\<open>snapshot/snapshot.go\<close>): the recovery handler,
    snapshot files and their directory, start-up, client operations.
  \<^item> \<open>Ledger_Calls\<close> (\<^verbatim>\<open>engine/batch.go\<close>, \<^verbatim>\<open>event.go\<close>, \<^verbatim>\<open>ledger.go\<close>): the batcher, the completion record of a client batch,
    whole client calls; \<open>Loop_Run\<close> (\<^verbatim>\<open>engine/loop.go\<close>): \<^verbatim>\<open>Run\<close> with its control channels, waits and shutdown.
  \<^item> \<open>Wal_Stream\<close> (\<^verbatim>\<open>wal/stream.go\<close>) and \<open>Replication\<close> (\<^verbatim>\<open>replication/term.go\<close>, \<^verbatim>\<open>server.go\<close>, \<^verbatim>\<open>follower.go\<close>,
    \<^verbatim>\<open>failover.go\<close>): the incremental reader, terms, frames on the wire, the follower, promotion; \<open>Follower_Loop\<close>
    (\<^verbatim>\<open>follower.go\<close>): \<^verbatim>\<open>Start\<close>, one connection after the other.
  \<^item> \<open>Log_Audit\<close> (\<^verbatim>\<open>audit/audit.go\<close>): the auditor; \<open>Fault_Injection\<close> (\<^verbatim>\<open>wal/fault_injector.go\<close>): the faults the tests inject.
  \<^item> \<open>Sha256\<close> (Go's \<^verbatim>\<open>crypto/sha256\<close>), \<open>Grpc_Api\<close> (\<^verbatim>\<open>api/server.go\<close>, \<^verbatim>\<open>idempotency.go\<close>) and \<open>Rest_Api\<close> (\<^verbatim>\<open>api/rest.go\<close>): the handlers
    of both surfaces, from the decoded request to the response.
  \<^item> \<open>Witness_Data\<close>: concrete accounts and transfers for the witnesses.

  \<^bold>\<open>Interfaces.\<close> Each is a locale that is interpreted on the model of the component that provides it: \<open>checked_amount\<close>
    (128-bit arithmetic), \<open>fixed_codec\<close> (payloads of fixed width), \<open>deadline_queue\<close> (the heap), \<open>ledger_impl\<close> and
    \<open>ledger_impl_complete\<close> (implementations of the specification: the account manager and the batch validator),
    \<open>reservation_store\<close> (idempotency keys), \<open>event_queue\<close> (the ring between submission and the loop).

  \<^bold>\<open>What is shown.\<close>

  \<^item> Money: the account manager refines the specification, keeps an invariant of accounts, holds, heap and history, and
    conserves the posted and pending sums of each ledger; failed transfers change nothing; holds expire exactly at their deadline, which
    releases exactly their amounts, can be voided, and can be settled whatever the balance is; what a partial settlement leaves stays on hold.
  \<^item> Batches: what the validator accepts is applied without an error and with the effect of the
    specification; chains are atomic; rollback restores; IDs are used once.
  \<^item> Durability: the frame format is canonical; a log cut at any byte recovers exactly the committed batches; synced batches
    survive; a crash during a batch leaves the state before or after it; a ledger restarted without snapshots and initial accounts has the
    state of the live one, up to holds that expired since the last logged batch; a snapshot restores the book; truncation below a
    snapshot keeps every segment with newer records, whatever its size.
  \<^item> Concurrency: the ring delivers every event once and in order in all interleavings; the batcher returns and loses nothing; in every
    turn of the loop reads are answered from a state the log restores; the shutdown completes all writers.
  \<^item> Clients: while the result of a request is stored under its idempotency key, a retry gets the first answer and has no effect; the parsers of both
    surfaces accept exactly the well-formed requests and read every field as written; they agree with each other; JSON round trips; a created account can be read back.
  \<^item> Replication: a reader that skips no segment delivers the committed batches once and in order; with batches of fewer than 4096 records (the flush
    threshold) and no skipped segment a follower reaches the state of its primary and
    resumes after a restart, and a connection that breaks at any byte leaves it with whole batches; stale primaries are refused; without
    snapshots a promoted follower serves exactly the state it had; back-off is bounded.
  \<^item> Auditing: logs of a ledger with 64-bit amounts, no overdraft and no key used twice pass, damaged frames and flipped bits are reported.
  \<^item> Behaviour the code does not intend is stated as it is: settlement that overdraws, batches lost by recovery across segments or by the
    stream reader at a rotation, direct I/O that loses segments, an eviction loop that does not end, self transfers that are
    answered as internal errors, reads that nobody answers after a shutdown.

  \<^bold>\<open>Conditions.\<close> The statements on restart and promotion are for an empty snapshot directory with the checkpointer off; snapshots have their
  own statement, since the history is not part of them. Those on replication need batches below the flush threshold and a log in which every segment
  ends above the LSN the follower asks for: without either the code loses records. The tail of a segment longer than 64 KiB is searched by
  \<^verbatim>\<open>peekSegmentMaxLSN\<close> for a chain of frames without looking at checksums; the statement on truncation assumes that no bytes in it
  imitate a last frame with a smaller LSN.

  \<^bold>\<open>Bounds and waiting.\<close> Machine integers have their widths; where a statement needs that a counter does not wrap (LSNs, sequence
  numbers of the ring, clocks, the size of a batch in bytes) the bound is a hypothesis: \<open>room\<close> and \<open>slack\<close> ask for segments
  that hold a frame, batches below two gigabytes and LSNs below \<open>2\<^sup>6\<^sup>3\<close>. Runs (\<open>runs\<close>) start from an empty ledger and
  exclude holds whose deadline wraps around, which do break replay. Loops of the code are structural recursion or \<open>function\<close>s with a
  termination proof. A loop that waits for others takes what they do as a list, one element per wait or poll, and
  returns \<open>None\<close> when the list ends before the loop does; the statements give the lists on which it returns:
  \<open>Collect\<close> after its timer, draining with one poll per request, the shutdown with one collection per queued transfer and one
  more, \<open>Commit\<close> exactly when the open reservations fit. Go's map order and the channel a \<^verbatim>\<open>select\<close> takes are arguments.

  \<^bold>\<open>Not modelled.\<close> Errors of the operating system other than a crash; mutual exclusion, the pools of
  channels and the goroutines around the loop, whose interleaving is in the arguments above; the text of error messages and the
  encoding of JSON and protocol buffers, which Go's library and generated code do: a request holds the decoded value. Configuration
  from the environment, logging, metrics and profiling, TLS set-up, listeners, the commands and the benchmark with its PostgreSQL store
  call libraries and services and hold no state of the ledger. System calls for allocating and syncing files are platform code.
\<close>

end
